(* ===== verification/Torx_Prelude.thy ===== *)
theory Torx_Prelude
  imports Complex_Main "HOL-Library.Product_Lexorder" "HOL-Library.Word"
begin

text \<open>
  Shared material of the development: the collections of facts the component
  theories feed to the simplifier, the names of the types several components use, and
  generic lemmas on lists, stable sorting and partial functions.

  Go's \<^verbatim>\<open>slices.SortStableFunc\<close> on a key is \<open>sort_key\<close>, a stable insertion sort; a
  comparison that looks at several fields in turn is a key that is a tuple, compared
  lexicographically. Go's \<^verbatim>\<open>int\<close> and \<^verbatim>\<open>int64\<close> are \<open>int\<close> where the code only compares
  them or counts with them, and \<open>64 word\<close> where it does arithmetic that can wrap.
\<close>

named_theorems go_simps \<open>equations that unfold small Go helpers\<close>
named_theorems wf_simps \<open>unfolding of well-formedness predicates\<close>

subsection \<open>Machine integers\<close>

type_synonym int64 = "64 word"
type_synonym uint64 = "64 word"

text \<open>The largest \<^verbatim>\<open>int64\<close>, \<^verbatim>\<open>math.MaxInt64\<close> (and \<^verbatim>\<open>math.MaxInt\<close> on 64-bit targets).\<close>

definition MaxInt64 :: int where
  "MaxInt64 = 2 ^ 63 - 1"

definition is_int64 :: "int \<Rightarrow> bool" where
  "is_int64 x \<longleftrightarrow> - (2 ^ 63) \<le> x \<and> x \<le> MaxInt64"

text \<open>What a result of 64-bit arithmetic wraps around to, for integers kept as \<open>int\<close>.\<close>

definition wrap64 :: "int \<Rightarrow> int" where
  "wrap64 x = sint (word_of_int x :: int64)"

lemma wrap64_id [simp]: "is_int64 x \<Longrightarrow> wrap64 x = x"
  by (simp add: wrap64_def is_int64_def MaxInt64_def sint_sbintrunc' signed_take_bit_int_eq_self)

subsection \<open>Lists\<close>


lemma sorted_key_nth_mono:
  "sorted (map f xs) \<Longrightarrow> i \<le> j \<Longrightarrow> j < length xs \<Longrightarrow> f (xs ! i) \<le> f (xs ! j)"
  using sorted_nth_mono [of "map f xs" i j] by simp

lemma in_set_take_conv: "x \<in> set (take n xs) \<longleftrightarrow> (\<exists>i < n. i < length xs \<and> xs ! i = x)"
  by (auto simp: in_set_conv_nth)

lemma distinct_sort_key_upt [simp]: "distinct (sort_key f [0..<n])"
  by simp

lemma set_sort_key_upt [simp]: "set (sort_key f [0..<n]) = {..<n}"
  by auto

lemma card_bij_except_one:
  assumes "finite Z" and "inj_on g Z" and "a \<notin> g ` Z"
  shows "card (insert a (g ` Z)) = Suc (card Z)"
  using assms by (simp add: card_image)

lemma no_injection_into_smaller:
  assumes "finite Z" and "inj_on f S" and "f ` S \<subseteq> Z" and "card Z < card S"
  shows False
  using card_inj_on_le [OF assms(2,3,1)] assms(4) by simp

end
