(* ===== verification/Torx_Spec.thy ===== *)
theory Torx_Spec
  imports Torx_Prelude
begin

text \<open>
  Resource specifications, \<^verbatim>\<open>src/spec.go\<close>: what a job asks of the nodes it allocates.
  \<^verbatim>\<open>Optional[T]\<close> is \<open>'a option\<close> (its zero value, unset, is \<open>None\<close>), \<^verbatim>\<open>Labels\<close> the set
  of its keys. A \<^verbatim>\<open>float64\<close> is compared only, so it is a rational, an infinity or
  not-a-number, with Go's ordering in which every comparison with NaN is false.
\<close>

datatype float64 = NaN | NegInf | Fin rat | PosInf

fun float_less :: "float64 \<Rightarrow> float64 \<Rightarrow> bool" where
  "float_less (Fin a) (Fin b) = (a < b)"
| "float_less NegInf (Fin b) = True"
| "float_less NegInf PosInf = True"
| "float_less (Fin a) PosInf = True"
| "float_less _ _ = False"

type_synonym labels = "string set"

definition NewLabels :: "string list \<Rightarrow> labels" where
  "NewLabels tags = set tags"

definition Has :: "labels \<Rightarrow> string \<Rightarrow> bool" where
  "Has l tag \<longleftrightarrow> tag \<in> l"

definition Subset :: "labels \<Rightarrow> labels \<Rightarrow> bool" where
  "Subset l other \<longleftrightarrow> (\<forall>t \<in> l. Has other t)"

record Resources =
  CPUs :: "float64 option"
  MemoryMB :: "int option"
  Labels :: labels

record NodeSpec =
  OS :: string
  Required :: Resources
  Preferred :: "Resources list"
  Role :: string

definition SatisfiedBy :: "NodeSpec \<Rightarrow> Resources \<Rightarrow> bool" where
  "SatisfiedBy s capacity =
     (if (case CPUs (Required s) of None \<Rightarrow> False
          | Some req \<Rightarrow> (case CPUs capacity of None \<Rightarrow> True | Some have' \<Rightarrow> float_less have' req))
      then False
      else if (case MemoryMB (Required s) of None \<Rightarrow> False
          | Some req \<Rightarrow> (case MemoryMB capacity of None \<Rightarrow> True | Some have' \<Rightarrow> have' < req))
      then False
      else Subset (Labels (Required s)) (Labels capacity))"

record PoolSpec =
  Nodes :: "NodeSpec list"

definition Homogeneous :: "int \<Rightarrow> NodeSpec \<Rightarrow> PoolSpec" where
  "Homogeneous count spec =
     (if count \<le> 0 then \<lparr>Nodes = []\<rparr> else \<lparr>Nodes = replicate (nat count) spec\<rparr>)"

definition PoolSpec_Size :: "PoolSpec \<Rightarrow> nat" where
  "PoolSpec_Size p = length (Nodes p)"

lemma Subset_iff [go_simps]: "Subset l l' \<longleftrightarrow> l \<subseteq> l'"
  by (auto simp: Subset_def Has_def)

text \<open>
  A capacity dominates another when every requirement the second meets the first meets
  too: more CPUs, more memory, more labels, and nothing known becoming unknown.
\<close>

definition res_le :: "Resources \<Rightarrow> Resources \<Rightarrow> bool" where
  "res_le a b \<longleftrightarrow>
     (case CPUs a of None \<Rightarrow> True
      | Some x \<Rightarrow> (case CPUs b of None \<Rightarrow> False | Some y \<Rightarrow> x = y \<or> float_less x y)) \<and>
     (case MemoryMB a of None \<Rightarrow> True
      | Some x \<Rightarrow> (case MemoryMB b of None \<Rightarrow> False | Some y \<Rightarrow> x \<le> y)) \<and>
     Labels a \<subseteq> Labels b"

lemma float_less_trans: "float_less a b \<Longrightarrow> float_less b c \<Longrightarrow> float_less a c"
  by (cases a; cases b; cases c) auto

lemma SatisfiedBy_mono:
  assumes "SatisfiedBy s a" and "res_le a b"
  shows "SatisfiedBy s b"
  using assms
  by (auto simp: SatisfiedBy_def res_le_def Subset_iff split: option.splits if_splits
      dest: float_less_trans)

lemma Homogeneous_size: "PoolSpec_Size (Homogeneous n s) = nat n"
  by (simp add: Homogeneous_def PoolSpec_Size_def)

end
