(* ===== verification/Torx_Matching.thy ===== *)
theory Torx_Matching
  imports Torx_Spec
begin

text \<open>
  The allocator's matching, \<^verbatim>\<open>matchSpecs\<close>, \<^verbatim>\<open>augmentSpec\<close>, \<^verbatim>\<open>constraintOrder\<close> and
  \<^verbatim>\<open>specScore\<close> of \<^verbatim>\<open>src/pool.go\<close>: a maximum bipartite matching of node specs to
  candidate nodes by augmenting paths.

  A node is its pointer (a number); \<open>resources\<close> reads the resources field the node was
  built with, which nothing writes afterwards. The three slices the search updates in
  place are the fields of \<open>aug\<close>, with \<open>-1\<close> for unmatched as in the code. The loop over
  the candidates is the recursion of \<open>augmentSpec\<close> on \<open>j\<close>; the nested call carries the
  slices it changed back into the loop.
\<close>

type_synonym node = nat

record aug =
  specOfCand :: "int list"
  candOfSpec :: "int list"
  seen :: "bool list"

definition specScore :: "NodeSpec \<Rightarrow> nat" where
  "specScore s =
     card (Labels (Required s))
     + (if CPUs (Required s) = None then 0 else 1)
     + (if MemoryMB (Required s) = None then 0 else 1)"

definition constraintOrder :: "NodeSpec list \<Rightarrow> nat list" where
  "constraintOrder specs = sort_key (\<lambda>i. - int (specScore (specs ! i))) [0..<length specs]"

definition take_cand :: "nat \<Rightarrow> nat \<Rightarrow> aug \<Rightarrow> aug" where
  "take_cand si j a = a\<lparr>specOfCand := (specOfCand a)[j := int si],
                       candOfSpec := (candOfSpec a)[si := int j]\<rparr>"

definition see :: "nat \<Rightarrow> aug \<Rightarrow> aug" where
  "see j a = a\<lparr>seen := (seen a)[j := True]\<rparr>"

function (sequential) augmentSpec ::
  "(node \<Rightarrow> Resources) \<Rightarrow> NodeSpec list \<Rightarrow> node list \<Rightarrow> nat \<Rightarrow> nat \<Rightarrow> aug \<Rightarrow> bool \<times> aug" where
  "augmentSpec resources specs candidates si j a =
     (if length (seen a) \<le> j then (False, a)
      else if seen a ! j \<or> \<not> SatisfiedBy (specs ! si) (resources (candidates ! j))
      then augmentSpec resources specs candidates si (Suc j) a
      else if specOfCand a ! j = -1 then (True, take_cand si j (see j a))
      else (case augmentSpec resources specs candidates (nat (specOfCand a ! j)) 0 (see j a) of
              (True, a') \<Rightarrow> (True, take_cand si j a')
            | (False, a') \<Rightarrow> augmentSpec resources specs candidates si (Suc j) a'))"
  by pat_completeness auto

definition unseen :: "aug \<Rightarrow> nat" where
  "unseen a = card {j. j < length (seen a) \<and> \<not> seen a ! j}"

lemma seen_see [simp]:
  "seen (see j a) = (seen a)[j := True]"
  "specOfCand (see j a) = specOfCand a" "candOfSpec (see j a) = candOfSpec a"
  by (simp_all add: see_def)

lemma seen_take_cand [simp]:
  "seen (take_cand si j a) = seen a"
  "specOfCand (take_cand si j a) = (specOfCand a)[j := int si]"
  "candOfSpec (take_cand si j a) = (candOfSpec a)[si := int j]"
  by (simp_all add: take_cand_def)

lemma unseen_see:
  assumes "j < length (seen a)" "\<not> seen a ! j"
  shows "unseen (see j a) < unseen a"
  unfolding unseen_def
  by (rule psubset_card_mono) (use assms in \<open>auto simp: nth_list_update\<close>)

definition seen_le :: "aug \<Rightarrow> aug \<Rightarrow> bool" where
  "seen_le a b \<longleftrightarrow> length (seen b) = length (seen a) \<and> (\<forall>k < length (seen a). seen a ! k \<longrightarrow> seen b ! k)"

lemma seen_le_refl [simp]: "seen_le a a"
  by (simp add: seen_le_def)

lemma seen_le_trans: "seen_le a b \<Longrightarrow> seen_le b c \<Longrightarrow> seen_le a c"
  by (simp add: seen_le_def)

lemma seen_le_see: "seen_le (see j a) b \<Longrightarrow> seen_le a b"
  unfolding seen_le_def seen_see length_list_update
  by (metis nth_list_update_eq nth_list_update_neq)

lemma seen_le_take [simp]: "seen_le a (take_cand si j b) \<longleftrightarrow> seen_le a b"
  by (simp add: seen_le_def)

lemma seen_le_unseen: "seen_le a b \<Longrightarrow> unseen b \<le> unseen a"
  unfolding unseen_def by (rule card_mono) (auto simp: seen_le_def)

lemma augmentSpec_seen_le_partial:
  "augmentSpec_dom (r, specs, cs, si, j, a) \<Longrightarrow> seen_le a (snd (augmentSpec r specs cs si j a))"
proof (induction r specs cs si j a rule: augmentSpec.pinduct)
  case (1 r specs cs si j a)
  show ?case
    using "1.IH"
    by (subst augmentSpec.psimps [OF 1(1)])
       (auto split: prod.splits bool.splits dest!: seen_le_see intro: seen_le_trans seen_le_see [of j])
qed

termination augmentSpec
proof (relation "measures [\<lambda>(_, _, _, si, j, a). unseen a, \<lambda>(_, _, _, si, j, a). length (seen a) - j]",
    goal_cases)
  case 1
  show ?case by simp
next
  case (2 r specs cs si j a)
  then show ?case by auto
next
  case (3 r specs cs si j a)
  then show ?case using unseen_see [of j a] by simp
next
  case (4 r specs cs si j a x y)
  then have "seen_le (see j a) y"
    using augmentSpec_seen_le_partial [of r specs cs "nat (specOfCand a ! j)" 0 "see j a"]
    by (metis snd_conv)
  then have "unseen y \<le> unseen (see j a)" by (rule seen_le_unseen)
  moreover have "unseen (see j a) < unseen a" using unseen_see [of j a] 4 by simp
  ultimately show ?case by simp
qed

declare augmentSpec.simps [simp del]

subsection \<open>A failed search: the alternating closure\<close>

text \<open>
  What a search for \<open>si\<close> from candidate \<open>j\<close> on leaves when it fails: every candidate
  \<open>si\<close> can use is seen, and every candidate it saw for the first time is held by a spec
  all of whose candidates are seen too.
\<close>

definition exhausted ::
  "(node \<Rightarrow> Resources) \<Rightarrow> NodeSpec list \<Rightarrow> node list \<Rightarrow> nat \<Rightarrow> nat \<Rightarrow> aug \<Rightarrow> aug \<Rightarrow> bool" where
  "exhausted r specs cs si j a a' \<longleftrightarrow>
    (\<forall>k < length (seen a). j \<le> k \<longrightarrow> SatisfiedBy (specs ! si) (r (cs ! k)) \<longrightarrow> seen a' ! k) \<and>
    (\<forall>k < length (seen a). seen a' ! k \<longrightarrow> \<not> seen a ! k \<longrightarrow> specOfCand a ! k \<noteq> -1 \<and>
       (\<forall>k' < length (seen a).
          SatisfiedBy (specs ! nat (specOfCand a ! k)) (r (cs ! k')) \<longrightarrow> seen a' ! k'))"

lemma exhausted_reach:
  "exhausted r specs cs si j a a' \<Longrightarrow> j \<le> k \<Longrightarrow> k < length (seen a) \<Longrightarrow>
    SatisfiedBy (specs ! si) (r (cs ! k)) \<Longrightarrow> seen a' ! k"
  unfolding exhausted_def by blast

lemma exhausted_closed:
  "exhausted r specs cs si j a a' \<Longrightarrow> k < length (seen a) \<Longrightarrow> seen a' ! k \<Longrightarrow> \<not> seen a ! k \<Longrightarrow>
    specOfCand a ! k \<noteq> -1 \<and> (\<forall>k' < length (seen a).
      SatisfiedBy (specs ! nat (specOfCand a ! k)) (r (cs ! k')) \<longrightarrow> seen a' ! k')"
  unfolding exhausted_def by blast

lemma exhausted_skip:
  assumes ex: "exhausted r specs cs si (Suc j) a a'" and le: "seen_le a a'"
    and skip: "seen a ! j \<or> \<not> SatisfiedBy (specs ! si) (r (cs ! j))"
  shows "exhausted r specs cs si j a a'"
proof -
  have "seen a' ! k" if k: "j \<le> k" "k < length (seen a)" "SatisfiedBy (specs ! si) (r (cs ! k))" for k
  proof (cases "k = j")
    case True
    with skip k le show ?thesis by (simp add: seen_le_def)
  next
    case False
    with k show ?thesis by (intro exhausted_reach [OF ex]) auto
  qed
  with ex show ?thesis unfolding exhausted_def by blast
qed

lemma exhausted_step:
  assumes held: "specOfCand a ! j \<noteq> -1" and j: "j < length (seen a)"
    and inner: "exhausted r specs cs (nat (specOfCand a ! j)) 0 (see j a) a1" "seen_le (see j a) a1"
    and rest: "exhausted r specs cs si (Suc j) a1 a'" "seen_le a1 a'"
    and same: "specOfCand a1 = specOfCand a"
  shows "exhausted r specs cs si j a a'"
proof -
  have len: "length (seen a1) = length (seen a)"
    using inner(2) by (simp add: seen_le_def)
  have aj: "seen a1 ! j"
    using inner(2) j by (simp add: seen_le_def)
  have le2: "seen a' ! k" if "k < length (seen a)" "seen a1 ! k" for k
    using rest(2) len that by (simp add: seen_le_def)
  have reach: "seen a' ! k"
    if k: "j \<le> k" "k < length (seen a)" "SatisfiedBy (specs ! si) (r (cs ! k))" for k
  proof (cases "k = j")
    case True
    with aj le2 j show ?thesis by simp
  next
    case False
    with k len show ?thesis by (intro exhausted_reach [OF rest(1)]) auto
  qed
  have closed: "specOfCand a ! k \<noteq> -1 \<and> (\<forall>k' < length (seen a).
      SatisfiedBy (specs ! nat (specOfCand a ! k)) (r (cs ! k')) \<longrightarrow> seen a' ! k')"
    if k: "k < length (seen a)" "seen a' ! k" "\<not> seen a ! k" for k
  proof (cases "seen a1 ! k")
    case True
    have "specOfCand a ! k \<noteq> -1 \<and> (\<forall>k' < length (seen a).
        SatisfiedBy (specs ! nat (specOfCand a ! k)) (r (cs ! k')) \<longrightarrow> seen a1 ! k')"
    proof (cases "k = j")
      case True
      then show ?thesis using held exhausted_reach [OF inner(1)] by simp
    next
      case False
      with k True exhausted_closed [OF inner(1), of k] show ?thesis by simp
    qed
    then show ?thesis using le2 by blast
  next
    case False
    with k len same exhausted_closed [OF rest(1), of k] show ?thesis by simp
  qed
  show ?thesis unfolding exhausted_def using reach closed by blast
qed

lemma augmentSpec_False:
  assumes "augmentSpec r specs cs si j a = (False, a')"
  shows "specOfCand a' = specOfCand a \<and> candOfSpec a' = candOfSpec a \<and> seen_le a a' \<and>
    exhausted r specs cs si j a a'"
  using assms
proof (induction r specs cs si j a arbitrary: a' rule: augmentSpec.induct)
  case (1 r specs cs si j a)
  note eq = augmentSpec.simps [of r specs cs si j a]
  consider (stop) "length (seen a) \<le> j"
    | (skip) "\<not> length (seen a) \<le> j" "seen a ! j \<or> \<not> SatisfiedBy (specs ! si) (r (cs ! j))"
    | (visit) "\<not> length (seen a) \<le> j" "\<not> (seen a ! j \<or> \<not> SatisfiedBy (specs ! si) (r (cs ! j)))"
    by blast
  then show ?case
  proof cases
    case stop
    with "1.prems" eq show ?thesis by (auto simp: exhausted_def)
  next
    case skip
    with "1.prems" eq have "augmentSpec r specs cs si (Suc j) a = (False, a')" by simp
    from "1.IH"(1) [OF skip this] skip(2) show ?thesis by (blast intro: exhausted_skip)
  next
    case visit
    with "1.prems" eq have held: "specOfCand a ! j \<noteq> -1" by auto
    with "1.prems" eq visit obtain a1 where
      inner: "augmentSpec r specs cs (nat (specOfCand a ! j)) 0 (see j a) = (False, a1)" and
      rest: "augmentSpec r specs cs si (Suc j) a1 = (False, a')"
      by (auto split: prod.splits bool.splits)
    note IH1 = "1.IH"(2) [OF visit held inner]
    note IH2 = "1.IH"(3) [OF visit held inner [symmetric] _ rest, simplified]
    have "exhausted r specs cs si j a a'"
      using held visit IH1 IH2 by (intro exhausted_step [of a j r specs cs a1]) auto
    moreover have "seen_le a a'" using IH1 IH2 seen_le_see seen_le_trans by blast
    ultimately show ?thesis using IH1 IH2 by simp
  qed
qed

subsection \<open>A search that succeeds: the matching moves along the path\<close>

text \<open>
  \<open>matching_except D\<close>: the two slices describe one matching of specs to distinct
  candidates that satisfy them, but for the candidates of \<open>D\<close>, which no spec is matched
  to and whose entry is stale.
\<close>

definition matching_except ::
  "(node \<Rightarrow> Resources) \<Rightarrow> NodeSpec list \<Rightarrow> node list \<Rightarrow> nat set \<Rightarrow> aug \<Rightarrow> bool" where
  "matching_except r specs cs D a \<longleftrightarrow>
     length (specOfCand a) = length cs \<and> length (candOfSpec a) = length specs \<and>
     length (seen a) = length cs \<and>
     (\<forall>j < length cs. specOfCand a ! j = -1 \<or> (\<exists>i < length specs. specOfCand a ! j = int i)) \<and>
     (\<forall>i < length specs. candOfSpec a ! i = -1 \<or>
        (\<exists>j < length cs. candOfSpec a ! i = int j \<and> SatisfiedBy (specs ! i) (r (cs ! j)))) \<and>
     (\<forall>i < length specs. \<forall>j < length cs. j \<notin> D \<longrightarrow> (specOfCand a ! j = int i \<longleftrightarrow> candOfSpec a ! i = int j)) \<and>
     (\<forall>i < length specs. \<forall>j \<in> D. candOfSpec a ! i \<noteq> int j)"

text \<open>What a successful search for \<open>si\<close> changes, and what it leaves alone.\<close>

definition moved ::
  "(node \<Rightarrow> Resources) \<Rightarrow> NodeSpec list \<Rightarrow> node list \<Rightarrow> nat \<Rightarrow> aug \<Rightarrow> aug \<Rightarrow> bool" where
  "moved r specs cs si a a' \<longleftrightarrow>
     matching_except r specs cs {j. j < length cs \<and> candOfSpec a ! si = int j} a' \<and>
     candOfSpec a' ! si \<noteq> -1 \<and>
     (\<forall>k < length cs. seen a ! k \<longrightarrow> specOfCand a' ! k = specOfCand a ! k) \<and>
     (\<forall>i < length specs. i \<noteq> si \<longrightarrow> (candOfSpec a' ! i = -1 \<longleftrightarrow> candOfSpec a ! i = -1))"

lemma matching_exceptD:
  assumes "matching_except r specs cs D a"
  shows "length (specOfCand a) = length cs" "length (candOfSpec a) = length specs"
    "length (seen a) = length cs"
    "j < length cs \<Longrightarrow> specOfCand a ! j = -1 \<or> (\<exists>i < length specs. specOfCand a ! j = int i)"
    "i < length specs \<Longrightarrow> candOfSpec a ! i = -1 \<or>
       (\<exists>j < length cs. candOfSpec a ! i = int j \<and> SatisfiedBy (specs ! i) (r (cs ! j)))"
    "i < length specs \<Longrightarrow> j < length cs \<Longrightarrow> j \<notin> D \<Longrightarrow> specOfCand a ! j = int i \<longleftrightarrow> candOfSpec a ! i = int j"
    "i < length specs \<Longrightarrow> j \<in> D \<Longrightarrow> candOfSpec a ! i \<noteq> int j"
  using assms unfolding matching_except_def by blast+

lemma take_cand_moved:
  assumes m: "matching_except r specs cs {} a" and m1: "matching_except r specs cs {j} a1"
    and si: "si < length specs" and j: "j < length cs"
    and fits: "SatisfiedBy (specs ! si) (r (cs ! j))" and new: "\<not> seen a ! j"
    and own: "\<forall>k < length cs. candOfSpec a ! si = int k \<longrightarrow> seen a ! k"
    and kept: "\<forall>k < length cs. seen a ! k \<longrightarrow> specOfCand a1 ! k = specOfCand a ! k"
    and others: "\<forall>i < length specs. candOfSpec a1 ! i = -1 \<longleftrightarrow> candOfSpec a ! i = -1"
  shows "moved r specs cs si a (take_cand si j a1)"
proof -
  note M = matching_exceptD [OF m] and M1 = matching_exceptD [OF m1]
  let ?D = "{k. k < length cs \<and> candOfSpec a ! si = int k}"
  let ?b = "take_cand si j a1"
  have old: "candOfSpec a1 ! si = int k \<longleftrightarrow> k \<in> ?D" if "k < length cs" "k \<noteq> j" for k
  proof (cases "candOfSpec a ! si = -1")
    case True
    then show ?thesis using others si by auto
  next
    case False
    then obtain k0 where k0: "k0 < length cs" "candOfSpec a ! si = int k0" using M(5) si by auto
    then have "seen a ! k0" "k0 \<noteq> j" using own new by auto
    moreover have "specOfCand a ! k0 = int si" using M(6) si k0 by simp
    ultimately have "candOfSpec a1 ! si = int k0" using kept M1(6) [of si k0] k0 si by simp
    with k0 show ?thesis using that by auto
  qed
  have consistent: "specOfCand ?b ! k = int i \<longleftrightarrow> candOfSpec ?b ! i = int k"
    if "i < length specs" "k < length cs" "k \<notin> ?D" for i k
    using that M1(1,2) M1(6) [of i k] M1(7) [of i j] old [of k] si j
    by (cases "k = j"; cases "i = si") (auto simp: nth_list_update)
  have free: "candOfSpec ?b ! i \<noteq> int k" if "i < length specs" "k \<in> ?D" for i k
  proof -
    have k: "k < length cs" "k \<noteq> j" "specOfCand a1 ! k = int si"
      using that own new kept M(6) [of si k] si by auto
    then show ?thesis using that M1(2) M1(6) [of i k] si by (auto simp: nth_list_update)
  qed
  have "specOfCand ?b ! k = -1 \<or> (\<exists>i < length specs. specOfCand ?b ! k = int i)" if "k < length cs" for k
    using that M1(1) M1(4) [of k] si by (cases "k = j") auto
  moreover have "candOfSpec ?b ! i = -1 \<or>
      (\<exists>k < length cs. candOfSpec ?b ! i = int k \<and> SatisfiedBy (specs ! i) (r (cs ! k)))"
    if "i < length specs" for i
    using that M1(2) M1(5) [of i] j fits by (cases "i = si") auto
  ultimately have "matching_except r specs cs ?D ?b"
    unfolding matching_except_def using M1(1,2,3) consistent free by simp
  moreover have "candOfSpec ?b ! si \<noteq> -1" using M1(2) si by simp
  moreover have "specOfCand ?b ! k = specOfCand a ! k" if "k < length cs" "seen a ! k" for k
    using that kept new by (cases "k = j") auto
  moreover have "candOfSpec ?b ! i = -1 \<longleftrightarrow> candOfSpec a ! i = -1" if "i < length specs" "i \<noteq> si" for i
    using that others by simp
  ultimately show ?thesis unfolding moved_def by blast
qed

lemma matching_see [simp]: "matching_except r specs cs D (see j a) \<longleftrightarrow> matching_except r specs cs D a"
  by (simp add: matching_except_def)

lemma matching_cong:
  "specOfCand b = specOfCand a \<Longrightarrow> candOfSpec b = candOfSpec a \<Longrightarrow> length (seen b) = length (seen a) \<Longrightarrow>
    matching_except r specs cs D b \<longleftrightarrow> matching_except r specs cs D a"
  by (simp add: matching_except_def)

lemma matching_except_held:
  "matching_except r specs cs {} a \<Longrightarrow> \<forall>i < length specs. candOfSpec a ! i \<noteq> int j \<Longrightarrow>
    matching_except r specs cs {j} a"
  unfolding matching_except_def by auto

lemma moved_seen_le:
  assumes "moved r specs cs si b a'" "seen_le a b" "specOfCand b = specOfCand a"
    "candOfSpec b = candOfSpec a" "length (seen a) = length cs"
  shows "moved r specs cs si a a'"
  using assms by (auto simp: moved_def seen_le_def)

lemma augmentSpec_True:
  assumes "augmentSpec r specs cs si j a = (True, a')" and "matching_except r specs cs {} a"
    and "si < length specs" and "\<forall>k < length cs. candOfSpec a ! si = int k \<longrightarrow> seen a ! k"
  shows "moved r specs cs si a a'"
  using assms
proof (induction r specs cs si j a arbitrary: a' rule: augmentSpec.induct)
  case (1 r specs cs si j a)
  note eq = augmentSpec.simps [of r specs cs si j a] and M = matching_exceptD [OF "1.prems"(2)]
  from "1.prems"(1) eq have jlen: "\<not> length (seen a) \<le> j" by auto
  then have j: "j < length cs" using M(3) by simp
  show ?case
  proof (cases "seen a ! j \<or> \<not> SatisfiedBy (specs ! si) (r (cs ! j))")
    case True
    with jlen "1.prems"(1) eq have "augmentSpec r specs cs si (Suc j) a = (True, a')" by simp
    from "1.IH"(1) [OF jlen True this "1.prems"(2-4)] show ?thesis .
  next
    case visit: False
    note step = take_cand_moved [OF "1.prems"(2) _ "1.prems"(3) j _ _ "1.prems"(4)]
    show ?thesis
    proof (cases "specOfCand a ! j = -1")
      case True
      then have a': "a' = take_cand si j (see j a)" using "1.prems"(1) eq jlen visit by simp
      have "\<forall>i < length specs. candOfSpec a ! i \<noteq> int j"
        using M(6) j True by (metis empty_iff of_nat_neq_0 of_nat_0_le_iff neg_0_le_iff_le not_one_le_zero)
      then have "matching_except r specs cs {j} (see j a)"
        using matching_except_held "1.prems"(2) by simp
      from step [OF this] visit show ?thesis unfolding a' by simp
    next
      case held: False
      define i' where "i' = nat (specOfCand a ! j)"
      have i'0: "i' < length specs" "specOfCand a ! j = int i'"
        using M(4) [OF j] held by (auto simp: i'_def)
      then have i': "i' < length specs" "specOfCand a ! j = int i'" "candOfSpec a ! i' = int j"
        using M(6) [of i' j] j by auto
      obtain ok1 a1 where inner: "augmentSpec r specs cs i' 0 (see j a) = (ok1, a1)" by force
      have i'_own: "{k. k < length cs \<and> candOfSpec (see j a) ! i' = int k} = {j}"
        using i' j by auto
      show ?thesis
      proof (cases ok1)
        case True
        then have a': "a' = take_cand si j a1"
          using "1.prems"(1) eq jlen visit held inner by (simp add: i'_def)
        have "moved r specs cs i' (see j a) a1"
        proof (rule "1.IH"(2) [OF jlen visit held, folded i'_def])
          show "\<forall>k < length cs. candOfSpec (see j a) ! i' = int k \<longrightarrow> seen (see j a) ! k"
            using i'(3) j M(3) by simp
        qed (use inner True i'(1) "1.prems"(2) in simp_all)
        then have mv: "matching_except r specs cs {j} a1" "candOfSpec a1 ! i' \<noteq> -1"
          "\<forall>k < length cs. (seen a)[j := True] ! k \<longrightarrow> specOfCand a1 ! k = specOfCand a ! k"
          "\<forall>i < length specs. i \<noteq> i' \<longrightarrow> (candOfSpec a1 ! i = -1 \<longleftrightarrow> candOfSpec a ! i = -1)"
          using i'_own by (simp_all add: moved_def)
        have "\<forall>k < length cs. seen a ! k \<longrightarrow> specOfCand a1 ! k = specOfCand a ! k"
          using mv(3) visit by (metis nth_list_update_neq)
        moreover have "\<forall>i < length specs. candOfSpec a1 ! i = -1 \<longleftrightarrow> candOfSpec a ! i = -1"
          using mv(2,4) i'(3) by (metis of_nat_0_le_iff neg_0_le_iff_le not_one_le_zero)
        ultimately show ?thesis using step [OF mv(1)] visit unfolding a' by simp
      next
        case False
        then have rest: "augmentSpec r specs cs si (Suc j) a1 = (True, a')"
          and inner': "augmentSpec r specs cs (nat (specOfCand a ! j)) 0 (see j a) = (False, a1)"
          using "1.prems"(1) eq jlen visit held inner by (auto simp: i'_def)
        from augmentSpec_False [OF inner'] have same: "specOfCand a1 = specOfCand a"
          "candOfSpec a1 = candOfSpec a" "seen_le a a1"
          using seen_le_see by auto
        have "matching_except r specs cs {} a1"
          using matching_cong same "1.prems"(2) by (metis seen_le_def)
        then have "moved r specs cs si a1 a'"
          using "1.IH"(3) [OF jlen visit held inner' [symmetric] _ rest] "1.prems"(3,4) same M(3)
          by (auto simp: seen_le_def)
        then show ?thesis using moved_seen_le same M(3) by blast
      qed
    qed
  qed
qed

subsection \<open>The whole matching\<close>

text \<open>A fresh \<^verbatim>\<open>seen\<close> slice for every spec, and a count of the specs that were matched.\<close>

definition fresh_seen :: "node list \<Rightarrow> aug \<Rightarrow> aug" where
  "fresh_seen candidates a = a\<lparr>seen := replicate (length candidates) False\<rparr>"

fun matchLoop ::
  "(node \<Rightarrow> Resources) \<Rightarrow> NodeSpec list \<Rightarrow> node list \<Rightarrow> nat list \<Rightarrow> nat \<Rightarrow> aug \<Rightarrow> nat \<times> aug" where
  "matchLoop resources specs candidates [] matched a = (matched, a)"
| "matchLoop resources specs candidates (si # order) matched a =
     (case augmentSpec resources specs candidates si 0 (fresh_seen candidates a) of
        (ok, a') \<Rightarrow> matchLoop resources specs candidates order (if ok then matched + 1 else matched) a')"

definition matchSpecs ::
  "(node \<Rightarrow> Resources) \<Rightarrow> node list \<Rightarrow> NodeSpec list \<Rightarrow> node list option" where
  "matchSpecs resources candidates specs =
     (case matchLoop resources specs candidates (constraintOrder specs) 0
             \<lparr>specOfCand = replicate (length candidates) (-1),
              candOfSpec = replicate (length specs) (-1), seen = []\<rparr> of
        (matched, a) \<Rightarrow>
          if matched \<noteq> length specs then None
          else Some (map (\<lambda>i. candidates ! nat (candOfSpec a ! i)) [0..<length specs]))"

text \<open>Some assignment of distinct candidates to all the specs exists.\<close>

definition feasible :: "(node \<Rightarrow> Resources) \<Rightarrow> node list \<Rightarrow> NodeSpec list \<Rightarrow> bool" where
  "feasible r cs specs \<longleftrightarrow>
     (\<exists>f. inj_on f {..<length specs} \<and>
        (\<forall>i < length specs. f i < length cs \<and> SatisfiedBy (specs ! i) (r (cs ! f i))))"

lemma seen_fresh [simp]:
  "seen (fresh_seen cs a) = replicate (length cs) False"
  "specOfCand (fresh_seen cs a) = specOfCand a" "candOfSpec (fresh_seen cs a) = candOfSpec a"
  by (simp_all add: fresh_seen_def)

lemma set_constraintOrder [simp]: "set (constraintOrder specs) = {..<length specs}"
  and distinct_constraintOrder [simp]: "distinct (constraintOrder specs)"
  and length_constraintOrder [simp]: "length (constraintOrder specs) = length specs"
  by (auto simp: constraintOrder_def)

text \<open>
  Hall's condition fails at a failed search: \<open>si\<close> and the specs holding the seen
  candidates are one more than the candidates they can use.
\<close>

lemma augmentSpec_False_infeasible:
  assumes fail: "augmentSpec r specs cs si 0 (fresh_seen cs a) = (False, a')"
    and m: "matching_except r specs cs {} (fresh_seen cs a)"
    and si: "si < length specs" "candOfSpec a ! si = -1"
  shows "\<not> feasible r cs specs"
proof
  assume "feasible r cs specs"
  then obtain f where f: "inj_on f {..<length specs}"
    "\<And>i. i < length specs \<Longrightarrow> f i < length cs \<and> SatisfiedBy (specs ! i) (r (cs ! f i))"
    unfolding feasible_def by blast
  note M = matching_exceptD [OF m, simplified]
  from augmentSpec_False [OF fail] have ex: "exhausted r specs cs si 0 (fresh_seen cs a) a'" by blast
  define Z where "Z = {k. k < length cs \<and> seen a' ! k}"
  define g where "g k = nat (specOfCand a ! k)" for k
  have g: "g k < length specs \<and> candOfSpec a ! g k = int k \<and>
      (\<forall>k' < length cs. SatisfiedBy (specs ! g k) (r (cs ! k')) \<longrightarrow> k' \<in> Z)" if "k \<in> Z" for k
  proof -
    from that have k: "k < length cs" "seen a' ! k" by (auto simp: Z_def)
    with exhausted_closed [OF ex, of k] have h: "specOfCand a ! k \<noteq> -1"
      "\<forall>k' < length cs. SatisfiedBy (specs ! g k) (r (cs ! k')) \<longrightarrow> k' \<in> Z"
      by (auto simp: g_def Z_def)
    from h(1) M(4) [OF k(1)] have "g k < length specs" "specOfCand a ! k = int (g k)"
      by (auto simp: g_def)
    moreover from this have "candOfSpec a ! g k = int k" using M(6) [of "g k" k] k by simp
    ultimately show ?thesis using h(2) by simp
  qed
  have "inj_on g Z"
  proof (rule inj_onI)
    fix k k' assume "k \<in> Z" "k' \<in> Z" "g k = g k'"
    with g [of k] g [of k'] show "k = k'" by (metis of_nat_eq_iff)
  qed
  moreover have "si \<notin> g ` Z" using g si by force
  ultimately have card: "card (insert si (g ` Z)) = Suc (card Z)"
    by (intro card_bij_except_one) (simp add: Z_def)
  have "f i \<in> Z" if "i \<in> insert si (g ` Z)" for i
    using that f(2) si g exhausted_reach [OF ex, of "f si"] by (auto simp: Z_def)
  then have "f ` insert si (g ` Z) \<subseteq> Z" by blast
  moreover have "insert si (g ` Z) \<subseteq> {..<length specs}" using g si by auto
  then have "inj_on f (insert si (g ` Z))" using f(1) inj_on_subset by blast
  ultimately show False
    using no_injection_into_smaller [of Z f "insert si (g ` Z)"] card by (simp add: Z_def)
qed

lemma matchLoop_correct:
  assumes "matchLoop r specs cs order matched a = (n, a')"
    and "matching_except r specs cs {} (fresh_seen cs a)" and "distinct order"
    and "\<forall>si \<in> set order. si < length specs \<and> candOfSpec a ! si = -1"
  shows "n \<le> matched + length order \<and>
    (n < matched + length order \<longrightarrow> \<not> feasible r cs specs) \<and>
    (n = matched + length order \<longrightarrow> matching_except r specs cs {} (fresh_seen cs a') \<and>
      (\<forall>i < length specs. candOfSpec a ! i \<noteq> -1 \<or> i \<in> set order \<longrightarrow> candOfSpec a' ! i \<noteq> -1))"
  using assms
proof (induction r specs cs order matched a rule: matchLoop.induct)
  case (1 r specs cs matched a)
  then show ?case by simp
next
  case (2 r specs cs si order matched a)
  obtain ok a1 where aug: "augmentSpec r specs cs si 0 (fresh_seen cs a) = (ok, a1)" by force
  have si: "si < length specs" "candOfSpec a ! si = -1" "si \<notin> set order" using "2.prems" by auto
  let ?n = "if ok then matched + 1 else matched"
  have loop: "matchLoop r specs cs order ?n a1 = (n, a')" using "2.prems"(1) aug by simp
  note IH = "2.IH" [OF aug [symmetric] loop]
  show ?case
  proof (cases ok)
    case False
    with aug have fail: "augmentSpec r specs cs si 0 (fresh_seen cs a) = (False, a1)" by simp
    from augmentSpec_False [OF fail] have same: "specOfCand a1 = specOfCand a"
      "candOfSpec a1 = candOfSpec a" by simp_all
    have "matching_except r specs cs {} (fresh_seen cs a1)"
      using "2.prems"(2) same matching_cong [of "fresh_seen cs a1" "fresh_seen cs a"] by simp
    from IH [OF this] "2.prems"(3,4) same False have "n \<le> matched + length order" by simp
    moreover have "\<not> feasible r cs specs"
      using augmentSpec_False_infeasible [OF fail "2.prems"(2) si(1,2)] .
    ultimately show ?thesis by simp
  next
    case True
    with aug have "augmentSpec r specs cs si 0 (fresh_seen cs a) = (True, a1)" by simp
    from augmentSpec_True [OF this "2.prems"(2) si(1)] si(2)
    have mv: "moved r specs cs si (fresh_seen cs a) a1" by simp
    then have "matching_except r specs cs {} a1"
      using si(2) unfolding moved_def by simp
    then have ma1: "matching_except r specs cs {} (fresh_seen cs a1)"
      using matching_cong [of "fresh_seen cs a1" a1] matching_exceptD(3) by force
    have kept: "candOfSpec a1 ! i = -1 \<longleftrightarrow> candOfSpec a ! i = -1" if "i < length specs" "i \<noteq> si" for i
      using mv that by (simp add: moved_def)
    have now: "candOfSpec a1 ! si \<noteq> -1" using mv by (simp add: moved_def)
    have "\<forall>i \<in> set order. i < length specs \<and> candOfSpec a1 ! i = -1"
      using "2.prems"(4) kept si(3) by auto
    from IH [OF ma1 _ this] "2.prems"(3) True have I: "n \<le> matched + 1 + length order"
      "n < matched + 1 + length order \<longrightarrow> \<not> feasible r cs specs"
      "n = matched + 1 + length order \<longrightarrow> matching_except r specs cs {} (fresh_seen cs a') \<and>
        (\<forall>i < length specs. candOfSpec a1 ! i \<noteq> -1 \<or> i \<in> set order \<longrightarrow> candOfSpec a' ! i \<noteq> -1)"
      by auto
    moreover have "candOfSpec a1 ! i \<noteq> -1 \<or> i \<in> set order"
      if "i < length specs" "candOfSpec a ! i \<noteq> -1 \<or> i \<in> set (si # order)" for i
      using that kept now by (cases "i = si") auto
    ultimately show ?thesis by auto
  qed
qed

lemma matchSpecs_cases:
  "(matchSpecs r cs specs = None \<and> \<not> feasible r cs specs) \<or>
   (\<exists>c. matchSpecs r cs specs = Some (map (\<lambda>i. cs ! c i) [0..<length specs]) \<and>
     inj_on c {..<length specs} \<and>
     (\<forall>i < length specs. c i < length cs \<and> SatisfiedBy (specs ! i) (r (cs ! c i))))"
proof -
  define a0 where "a0 = \<lparr>specOfCand = replicate (length cs) (-1),
    candOfSpec = replicate (length specs) (-1), seen = []\<rparr>"
  obtain n a where loop: "matchLoop r specs cs (constraintOrder specs) 0 a0 = (n, a)" by force
  have "matching_except r specs cs {} (fresh_seen cs a0)"
    by (simp add: matching_except_def a0_def)
  from matchLoop_correct [OF loop this] have n: "n \<le> length specs"
    "n < length specs \<longrightarrow> \<not> feasible r cs specs"
    "n = length specs \<longrightarrow> matching_except r specs cs {} (fresh_seen cs a) \<and>
      (\<forall>i < length specs. candOfSpec a ! i \<noteq> -1)"
    by (auto simp: a0_def)
  show ?thesis
  proof (cases "n = length specs")
    case False
    with n loop show ?thesis by (simp add: matchSpecs_def a0_def [symmetric])
  next
    case True
    define c where "c i = nat (candOfSpec a ! i)" for i
    from True n have m: "matching_except r specs cs {} (fresh_seen cs a)"
      and all: "\<And>i. i < length specs \<Longrightarrow> candOfSpec a ! i \<noteq> -1" by auto
    note M = matching_exceptD [OF m, simplified]
    have c: "c i < length cs \<and> candOfSpec a ! i = int (c i) \<and> SatisfiedBy (specs ! i) (r (cs ! c i))"
      if "i < length specs" for i
      using M(5) [OF that] all [OF that] by (auto simp: c_def)
    have "inj_on c {..<length specs}"
    proof (rule inj_onI)
      fix i k assume "i \<in> {..<length specs}" "k \<in> {..<length specs}" "c i = c k"
      then show "i = k" using c [of i] c [of k] M(6) [of i "c i"] M(6) [of k "c i"]
        by (metis lessThan_iff of_nat_eq_iff)
    qed
    moreover have "matchSpecs r cs specs = Some (map (\<lambda>i. cs ! c i) [0..<length specs])"
      using True loop by (simp add: matchSpecs_def a0_def [symmetric] c_def)
    ultimately show ?thesis using c by blast
  qed
qed

end
