(* ===== verification/Torx_Errors.thy ===== *)
theory Torx_Errors
  imports Torx_Prelude
begin

text \<open>
  The error taxonomy, \<^verbatim>\<open>src/errors.go\<close>. An error is a formatted message whose
  arguments may wrap other errors (\<^verbatim>\<open>fmt.Errorf\<close> with \<^verbatim>\<open>%w\<close>), a category sentinel, an
  \<^verbatim>\<open>*Error\<close> built by \<^verbatim>\<open>Wrap\<close>, or a join. \<open>errors_Is\<close> is the standard library's
  \<^verbatim>\<open>errors.Is\<close> on them: it compares an error with the sentinel and then searches what
  the error unwraps to, depth first.
\<close>

datatype kind = ErrAllocation | ErrBackend | ErrReadinessTimeout | ErrShutdownTimeout | ErrService

datatype error =
    Sentinel kind
  | Errorf string "fmt_arg list"
  | Error string kind "error option"
  | Joined "error list"
and fmt_arg = AInt int | AStr string | AErr error

definition Wrap :: "kind \<Rightarrow> string \<Rightarrow> error option \<Rightarrow> error" where
  "Wrap k op cause = Error op k cause"

definition Unwrap :: "error \<Rightarrow> error list" where
  "Unwrap e = (case e of
      Error op k cause \<Rightarrow> (case cause of None \<Rightarrow> [Sentinel k] | Some c \<Rightarrow> [Sentinel k, c])
    | Errorf _ args \<Rightarrow> List.map_filter (\<lambda>a. case a of AErr c \<Rightarrow> Some c | _ \<Rightarrow> None) args
    | Joined es \<Rightarrow> es
    | Sentinel _ \<Rightarrow> [])"

fun errors_Is :: "error \<Rightarrow> kind \<Rightarrow> bool" and args_Is :: "fmt_arg \<Rightarrow> kind \<Rightarrow> bool" where
  "errors_Is (Sentinel k) k' = (k = k')"
| "errors_Is (Errorf _ args) k' = (\<exists>a \<in> set args. args_Is a k')"
| "errors_Is (Error op k cause) k' =
     (k = k' \<or> (case cause of None \<Rightarrow> False | Some c \<Rightarrow> errors_Is c k'))"
| "errors_Is (Joined es) k' = (\<exists>e \<in> set es. errors_Is e k')"
| "args_Is (AErr c) k' = errors_Is c k'"
| "args_Is (AInt _) k' = False"
| "args_Is (AStr _) k' = False"

text \<open>\<open>errors_Is\<close> follows \<open>Unwrap\<close>, as the library's does.\<close>

lemma errors_Is_Unwrap:
  "errors_Is e k \<longleftrightarrow> e = Sentinel k \<or> (\<exists>c \<in> set (Unwrap e). errors_Is c k)"
proof (cases e)
  case (Errorf f args)
  have "args_Is a k \<longleftrightarrow> (\<exists>c. (case a of AErr c \<Rightarrow> Some c | _ \<Rightarrow> None) = Some c \<and> errors_Is c k)" for a
    by (cases a) auto
  then show ?thesis using Errorf by (force simp: Unwrap_def List.map_filter_def)
qed (auto simp: Unwrap_def split: option.splits)

text \<open>\<^verbatim>\<open>MultiError\<close> is its list of errors; \<^verbatim>\<open>errors.Join\<close> of none is nil.\<close>

definition MultiError_Append :: "error list \<Rightarrow> error option \<Rightarrow> error list" where
  "MultiError_Append m err = (case err of None \<Rightarrow> m | Some e \<Rightarrow> m @ [e])"

definition MultiError_Err :: "error list \<Rightarrow> error option" where
  "MultiError_Err m = (if m = [] then None else Some (Joined m))"

lemma MultiError_fold:
  "foldl MultiError_Append m es = m @ List.map_filter id es"
  by (induction es arbitrary: m)
     (auto simp: MultiError_Append_def List.map_filter_def split: option.splits)

end
