(* ===== verification/Torx_Pool.thy ===== *)
theory Torx_Pool
  imports Torx_Matching Torx_Errors
begin

text \<open>
  The node pool, \<^verbatim>\<open>src/pool.go\<close>: allocation of disjoint sub-pools, their return and
  their eviction. \<^verbatim>\<open>Pool\<close> and \<^verbatim>\<open>SubPool\<close> are records; every method holds the mutex for
  its whole body, so a method is one step on the record. \<^verbatim>\<open>inUse\<close>, a map to empty
  structs, is the set of its keys.
\<close>

record Pool =
  free :: "node list"
  inUse :: "node set"
  totalNodes :: nat
  maxUsed :: nat

record SubPool =
  sub_nodes :: "node list"
  freed :: bool

definition NewPool :: "node list \<Rightarrow> Pool" where
  "NewPool nodes = \<lparr>free = nodes, inUse = {}, totalNodes = length nodes, maxUsed = 0\<rparr>"

definition Allocate :: "(node \<Rightarrow> Resources) \<Rightarrow> Pool \<Rightarrow> PoolSpec \<Rightarrow> error + SubPool \<times> Pool" where
  "Allocate resources p spec =
     (case matchSpecs resources (free p) (Nodes spec) of
        None \<Rightarrow> Inl (Wrap ErrAllocation ''pool: allocate''
          (Some (Errorf ''cannot satisfy %d node spec(s); %d of %d free''
             [AInt (int (length (Nodes spec))), AInt (int (length (free p))), AInt (int (totalNodes p))])))
      | Some assigned \<Rightarrow>
          let p1 = p\<lparr>inUse := inUse p \<union> set assigned,
                     free := filter (\<lambda>n. n \<notin> set assigned) (free p)\<rparr>;
              p2 = (if maxUsed p1 < card (inUse p1) then p1\<lparr>maxUsed := card (inUse p1)\<rparr> else p1)
          in Inr (\<lparr>sub_nodes = assigned, freed = False\<rparr>, p2))"

definition CanAllocate :: "(node \<Rightarrow> Resources) \<Rightarrow> Pool \<Rightarrow> PoolSpec \<Rightarrow> bool" where
  "CanAllocate resources p spec = (matchSpecs resources (free p) (Nodes spec) \<noteq> None)"

text \<open>
  \<^verbatim>\<open>CanEverFit\<close> appends the nodes in use in the order Go iterates the map in, which the
  language leaves open: \<open>order\<close> is that order, any list of the map's keys.
\<close>

definition CanEverFit :: "(node \<Rightarrow> Resources) \<Rightarrow> node list \<Rightarrow> Pool \<Rightarrow> PoolSpec \<Rightarrow> bool" where
  "CanEverFit resources order p spec = (matchSpecs resources (free p @ order) (Nodes spec) \<noteq> None)"

definition Free :: "Pool \<Rightarrow> SubPool option \<Rightarrow> Pool \<times> SubPool option" where
  "Free p sub = (case sub of None \<Rightarrow> (p, None)
     | Some s \<Rightarrow> if freed s then (p, sub)
       else (p\<lparr>inUse := inUse p - set (sub_nodes s), free := free p @ sub_nodes s\<rparr>,
             Some (s\<lparr>freed := True\<rparr>)))"

definition Evict :: "Pool \<Rightarrow> SubPool option \<Rightarrow> Pool \<times> SubPool option" where
  "Evict p sub = (case sub of None \<Rightarrow> (p, None)
     | Some s \<Rightarrow> if freed s then (p, sub)
       else (p\<lparr>inUse := inUse p - set (sub_nodes s)\<rparr>, Some (s\<lparr>freed := True\<rparr>)))"

definition Size :: "Pool \<Rightarrow> nat" where
  "Size p = totalNodes p"

definition Available :: "Pool \<Rightarrow> nat" where
  "Available p = length (free p)"

definition InUse :: "Pool \<Rightarrow> nat" where
  "InUse p = card (inUse p)"

definition MaxUsed :: "Pool \<Rightarrow> nat" where
  "MaxUsed p = maxUsed p"

subsection \<open>Feasibility by the set of candidates\<close>

lemma matchSpecs_iff_feasible: "matchSpecs r cs specs \<noteq> None \<longleftrightarrow> feasible r cs specs"
  using matchSpecs_cases [of r cs specs] by (auto simp: feasible_def)

lemma matchSpecs_Some:
  assumes "matchSpecs r cs specs = Some ns"
  shows "length ns = length specs" "set ns \<subseteq> set cs" "distinct cs \<Longrightarrow> distinct ns"
    "\<And>i. i < length specs \<Longrightarrow> SatisfiedBy (specs ! i) (r (ns ! i))"
proof -
  obtain c where ns: "ns = map (\<lambda>i. cs ! c i) [0..<length specs]" and inj: "inj_on c {..<length specs}"
    and c: "\<And>i. i < length specs \<Longrightarrow> c i < length cs \<and> SatisfiedBy (specs ! i) (r (cs ! c i))"
    using matchSpecs_cases [of r cs specs] assms by auto
  show "length ns = length specs" "set ns \<subseteq> set cs" using ns c by auto
  show "\<And>i. i < length specs \<Longrightarrow> SatisfiedBy (specs ! i) (r (ns ! i))" using ns c by simp
  show "distinct ns" if "distinct cs"
    using that ns c inj by (auto simp: distinct_map inj_on_def nth_eq_iff_index_eq atLeast0LessThan)
qed

lemma feasible_set:
  assumes "distinct cs"
  shows "feasible r cs specs \<longleftrightarrow>
    (\<exists>h. inj_on h {..<length specs} \<and> (\<forall>i < length specs. h i \<in> set cs \<and> SatisfiedBy (specs ! i) (r (h i))))"
    (is "?L \<longleftrightarrow> ?R")
proof
  assume ?L
  then obtain f where "inj_on f {..<length specs}"
    "\<forall>i < length specs. f i < length cs \<and> SatisfiedBy (specs ! i) (r (cs ! f i))"
    unfolding feasible_def by blast
  then show ?R using assms
    by (intro exI [of _ "\<lambda>i. cs ! f i"]) (auto simp: inj_on_def nth_eq_iff_index_eq)
next
  assume ?R
  then obtain h where h: "inj_on h {..<length specs}"
    "\<And>i. i < length specs \<Longrightarrow> h i \<in> set cs \<and> SatisfiedBy (specs ! i) (r (h i))" by blast
  then have "\<forall>i. \<exists>k. i < length specs \<longrightarrow> k < length cs \<and> cs ! k = h i"
    by (metis in_set_conv_nth)
  then obtain f where f: "\<And>i. i < length specs \<Longrightarrow> f i < length cs \<and> cs ! f i = h i" by metis
  have "inj_on f {..<length specs}"
  proof (rule inj_onI)
    fix i k assume "i \<in> {..<length specs}" "k \<in> {..<length specs}" "f i = f k"
    with f [of i] f [of k] h(1) show "i = k" by (simp add: inj_on_def)
  qed
  with f h(2) show ?L unfolding feasible_def by (intro exI [of _ f]) auto
qed

lemma feasible_mono:
  "distinct cs \<Longrightarrow> distinct cs' \<Longrightarrow> set cs \<subseteq> set cs' \<Longrightarrow> feasible r cs specs \<Longrightarrow> feasible r cs' specs"
  unfolding feasible_set by blast

subsection \<open>The pool's invariant\<close>

definition pool_wf :: "Pool \<Rightarrow> bool" where
  "pool_wf p \<longleftrightarrow> distinct (free p) \<and> finite (inUse p) \<and> set (free p) \<inter> inUse p = {} \<and>
     length (free p) + card (inUse p) \<le> totalNodes p \<and>
     card (inUse p) \<le> maxUsed p \<and> maxUsed p \<le> totalNodes p"

lemma pool_wf_NewPool: "distinct nodes \<Longrightarrow> pool_wf (NewPool nodes)"
  by (simp add: pool_wf_def NewPool_def)

lemma Allocate_Inr:
  assumes "Allocate r p spec = Inr (sub, p')" and wf: "pool_wf p"
  shows "pool_wf p'" "freed sub = False" "set (sub_nodes sub) \<subseteq> set (free p)"
    "set (free p') = set (free p) - set (sub_nodes sub)" "inUse p' = inUse p \<union> set (sub_nodes sub)"
    "totalNodes p' = totalNodes p" "matchSpecs r (free p) (Nodes spec) = Some (sub_nodes sub)"
proof -
  obtain ns where ns: "matchSpecs r (free p) (Nodes spec) = Some ns"
    using assms(1) by (auto simp: Allocate_def split: option.splits)
  define p1 where "p1 = p\<lparr>inUse := inUse p \<union> set ns, free := filter (\<lambda>n. n \<notin> set ns) (free p)\<rparr>"
  have eq: "sub = \<lparr>sub_nodes = ns, freed = False\<rparr>"
    "p' = (if maxUsed p1 < card (inUse p1) then p1\<lparr>maxUsed := card (inUse p1)\<rparr> else p1)"
    using assms(1) unfolding Allocate_def ns option.case Let_def p1_def [symmetric] by simp_all
  note m = matchSpecs_Some [OF ns]
  have d: "distinct (free p)" "set (free p) \<inter> inUse p = {}" "finite (inUse p)"
    "length (free p) + card (inUse p) \<le> totalNodes p"
    using wf by (simp_all add: pool_wf_def)
  have "length (filter (\<lambda>n. n \<notin> set ns) (free p)) = card (set (free p) - set ns)"
    using d(1) by (metis distinct_card distinct_filter filter_set set_diff_eq Set.filter_eq set_filter)
  also have "\<dots> = length (free p) - length ns"
    using m(2,3) d(1) by (simp add: card_Diff_subset distinct_card)
  finally have len: "length (filter (\<lambda>n. n \<notin> set ns) (free p)) = length (free p) - length ns" .
  have "card (inUse p \<union> set ns) = card (inUse p) + length ns"
    using d m(2,3) by (subst card_Un_disjoint) (auto simp: distinct_card)
  moreover have "length ns \<le> length (free p)"
    using m(2,3) d(1) by (metis List.finite_set card_mono distinct_card)
  ultimately show "pool_wf p'"
    using wf len unfolding eq(2) p1_def pool_wf_def by auto
  show "freed sub = False" "set (sub_nodes sub) \<subseteq> set (free p)"
    "set (free p') = set (free p) - set (sub_nodes sub)" "inUse p' = inUse p \<union> set (sub_nodes sub)"
    "totalNodes p' = totalNodes p" "matchSpecs r (free p) (Nodes spec) = Some (sub_nodes sub)"
    using eq m(2) ns by (auto simp: p1_def)
qed

lemma Free_wf:
  assumes "pool_wf p" and "\<not> freed s" and "set (sub_nodes s) \<subseteq> inUse p" and "distinct (sub_nodes s)"
  shows "pool_wf (fst (Free p (Some s)))" "set (free (fst (Free p (Some s)))) = set (free p) \<union> set (sub_nodes s)"
    "inUse (fst (Free p (Some s))) = inUse p - set (sub_nodes s)"
    "snd (Free p (Some s)) = Some (s\<lparr>freed := True\<rparr>)"
proof -
  have "card (inUse p - set (sub_nodes s)) = card (inUse p) - length (sub_nodes s)"
    using assms by (simp add: card_Diff_subset distinct_card)
  moreover have "length (sub_nodes s) \<le> card (inUse p)"
    using assms by (metis card_mono distinct_card pool_wf_def)
  ultimately show "pool_wf (fst (Free p (Some s)))"
    using assms by (auto simp: Free_def pool_wf_def)
  show "set (free (fst (Free p (Some s)))) = set (free p) \<union> set (sub_nodes s)"
    "inUse (fst (Free p (Some s))) = inUse p - set (sub_nodes s)"
    "snd (Free p (Some s)) = Some (s\<lparr>freed := True\<rparr>)"
    using assms by (simp_all add: Free_def)
qed

lemma Evict_wf:
  assumes "pool_wf p" and "\<not> freed s" and "set (sub_nodes s) \<subseteq> inUse p"
  shows "pool_wf (fst (Evict p (Some s)))" "free (fst (Evict p (Some s))) = free p"
    "inUse (fst (Evict p (Some s))) = inUse p - set (sub_nodes s)"
    "snd (Evict p (Some s)) = Some (s\<lparr>freed := True\<rparr>)"
proof -
  have "card (inUse p - set (sub_nodes s)) \<le> card (inUse p)"
    using assms by (intro card_mono) (auto simp: pool_wf_def)
  then show "pool_wf (fst (Evict p (Some s)))"
    using assms by (auto simp: Evict_def pool_wf_def)
  show "free (fst (Evict p (Some s))) = free p"
    "inUse (fst (Evict p (Some s))) = inUse p - set (sub_nodes s)"
    "snd (Evict p (Some s)) = Some (s\<lparr>freed := True\<rparr>)"
    using assms by (simp_all add: Evict_def)
qed

subsection \<open>Leases: what a pool promises the driver\<close>

text \<open>
  The driver relies on the pool for one thing: what it was granted is nobody else's until
  it gives it back. \<open>leased gs B\<close> says the grants \<open>gs\<close> are pairwise disjoint and make up
  \<open>B\<close>; the locale states what acquiring, releasing and discarding do to the nodes
  available and busy, and derives that the grants stay so.
\<close>

definition leased :: "'n set list \<Rightarrow> 'n set \<Rightarrow> bool" where
  "leased gs B \<longleftrightarrow>
     (\<forall>i < length gs. \<forall>j < length gs. i \<noteq> j \<longrightarrow> gs ! i \<inter> gs ! j = {}) \<and> \<Union> (set gs) = B"

lemma leased_append:
  assumes "leased gs B" and "G \<inter> B = {}"
  shows "leased (gs @ [G]) (B \<union> G)"
proof -
  have "gs ! i \<inter> G = {}" if "i < length gs" for i
    using assms that by (force simp: leased_def)
  then show ?thesis using assms(1) by (auto simp: leased_def nth_append less_Suc_eq)
qed

lemma leased_drop:
  assumes "leased gs B" and k: "k < length gs"
  shows "leased (gs[k := {}]) (B - gs ! k)"
proof -
  have dis: "gs ! i \<inter> gs ! k = {}" if "i < length gs" "i \<noteq> k" for i
    using assms that by (simp add: leased_def)
  have B: "B = \<Union> (set gs)" using assms by (simp add: leased_def)
  have "\<Union> (set (gs[k := {}])) = B - gs ! k"
  proof
    show "\<Union> (set (gs[k := {}])) \<subseteq> B - gs ! k"
    proof
      fix x assume "x \<in> \<Union> (set (gs[k := {}]))"
      then obtain i where i: "i < length gs" "x \<in> gs[k := {}] ! i"
        by (auto simp: in_set_conv_nth)
      then have "i \<noteq> k" using k by auto
      with i dis [of i] show "x \<in> B - gs ! k" unfolding B by auto
    qed
    show "B - gs ! k \<subseteq> \<Union> (set (gs[k := {}]))"
    proof
      fix x assume "x \<in> B - gs ! k"
      then obtain i where "i < length gs" "x \<in> gs ! i" "i \<noteq> k"
        unfolding B in_set_conv_nth Union_iff by (metis DiffE UnionE in_set_conv_nth)
      then show "x \<in> \<Union> (set (gs[k := {}]))"
        by (metis UnionI length_list_update nth_list_update_neq nth_mem)
    qed
  qed
  moreover have "(gs[k := {}]) ! i \<inter> (gs[k := {}]) ! j = {}"
    if "i < length gs" "j < length gs" "i \<noteq> j" for i j
    using assms that by (auto simp: leased_def nth_list_update)
  ultimately show ?thesis by (simp add: leased_def)
qed

lemma leased_subset: "leased gs B \<Longrightarrow> k < length gs \<Longrightarrow> gs ! k \<subseteq> B"
  by (auto simp: leased_def)

locale lease_provider =
  fixes acquire :: "'p \<Rightarrow> 'q \<Rightarrow> ('s \<times> 'p) option"
    and release :: "'s \<Rightarrow> 'p \<Rightarrow> 'p"
    and discard :: "'s \<Rightarrow> 'p \<Rightarrow> 'p"
    and avail :: "'p \<Rightarrow> 'n set"
    and busy :: "'p \<Rightarrow> 'n set"
    and grant :: "'s \<Rightarrow> 'n set"
    and inv :: "'p \<Rightarrow> bool"
    and granted :: "'s \<Rightarrow> bool"
  assumes acquire_granted: "inv p \<Longrightarrow> acquire p q = Some (s, p') \<Longrightarrow> granted s \<and> grant s \<subseteq> avail p"
    and acquire_effect: "inv p \<Longrightarrow> acquire p q = Some (s, p') \<Longrightarrow>
      inv p' \<and> avail p' = avail p - grant s \<and> busy p' = busy p \<union> grant s"
    and release_effect: "inv p \<Longrightarrow> granted s \<Longrightarrow> grant s \<subseteq> busy p \<Longrightarrow>
      inv (release s p) \<and> avail (release s p) = avail p \<union> grant s \<and> busy (release s p) = busy p - grant s"
    and discard_effect: "inv p \<Longrightarrow> granted s \<Longrightarrow> grant s \<subseteq> busy p \<Longrightarrow>
      inv (discard s p) \<and> avail (discard s p) = avail p \<and> busy (discard s p) = busy p - grant s"
    and avail_busy: "inv p \<Longrightarrow> avail p \<inter> busy p = {}"
begin

lemma acquire_leased:
  assumes "inv p" and "leased gs (busy p)" and "acquire p q = Some (s, p')"
  shows "inv p' \<and> leased (gs @ [grant s]) (busy p') \<and> avail p' \<union> busy p' = avail p \<union> busy p"
proof -
  have "grant s \<inter> busy p = {}"
    using acquire_granted [OF assms(1,3)] avail_busy [OF assms(1)] by blast
  then show ?thesis
    using acquire_effect [OF assms(1,3)] acquire_granted [OF assms(1,3)] leased_append [OF assms(2)] by auto
qed

lemma release_leased:
  assumes "inv p" and "leased gs (busy p)" and "k < length gs" and "gs ! k = grant s" and "granted s"
  shows "inv (release s p) \<and> leased (gs[k := {}]) (busy (release s p)) \<and>
    avail (release s p) \<union> busy (release s p) = avail p \<union> busy p"
proof -
  have sub: "grant s \<subseteq> busy p" using leased_subset [OF assms(2,3)] assms(4) by simp
  show ?thesis
    using release_effect [OF assms(1,5) sub] leased_drop [OF assms(2,3)] assms(4) sub by auto
qed

lemma discard_leased:
  assumes "inv p" and "leased gs (busy p)" and "k < length gs" and "gs ! k = grant s" and "granted s"
  shows "inv (discard s p) \<and> leased (gs[k := {}]) (busy (discard s p)) \<and>
    avail (discard s p) \<union> busy (discard s p) \<subseteq> avail p \<union> busy p"
proof -
  have sub: "grant s \<subseteq> busy p" using leased_subset [OF assms(2,3)] assms(4) by simp
  show ?thesis
    using discard_effect [OF assms(1,5) sub] leased_drop [OF assms(2,3)] assms(4) by auto
qed

end

text \<open>The pool's methods, in the interface's shape.\<close>

definition pool_acquire :: "(node \<Rightarrow> Resources) \<Rightarrow> Pool \<Rightarrow> PoolSpec \<Rightarrow> (SubPool \<times> Pool) option" where
  "pool_acquire r p spec = (case Allocate r p spec of Inl _ \<Rightarrow> None | Inr sp \<Rightarrow> Some sp)"

definition live_nodes :: "SubPool \<Rightarrow> node set" where
  "live_nodes s = (if freed s then {} else set (sub_nodes s))"

interpretation pool_lease: lease_provider "pool_acquire r"
  "\<lambda>s p. fst (Free p (Some s))" "\<lambda>s p. fst (Evict p (Some s))"
  "\<lambda>p. set (free p)" inUse live_nodes pool_wf "\<lambda>s. \<not> freed s \<and> distinct (sub_nodes s)"
  for r
proof (unfold_locales, goal_cases)
  case (1 p q s p')
  then have a: "Allocate r p q = Inr (s, p')" by (simp add: pool_acquire_def split: sum.splits)
  note A = Allocate_Inr [OF a 1(1)]
  from matchSpecs_Some(3) [OF A(7)] 1(1) show ?case
    using A by (simp add: live_nodes_def pool_wf_def)
next
  case (2 p q s p')
  then have a: "Allocate r p q = Inr (s, p')" by (simp add: pool_acquire_def split: sum.splits)
  from Allocate_Inr [OF a 2(1)] show ?case by (simp add: live_nodes_def)
next
  case (3 p s)
  then show ?case using Free_wf [of p s] by (simp add: live_nodes_def)
next
  case (4 p s)
  then show ?case using Evict_wf [of p s] by (simp add: live_nodes_def)
next
  case (5 p)
  then show ?case by (simp add: pool_wf_def)
qed

subsection \<open>A session: any sequence of pool operations\<close>

text \<open>
  A session holds the pool and the sub-pools handed out so far; the driver's calls, in
  whatever order its goroutines make them, are a list of \<open>pool_op\<close>s. An operation on a
  sub-pool that does not exist, or was already given back, is allowed: the methods are
  idempotent.
\<close>

record session =
  s_pool :: Pool
  s_subs :: "SubPool list"

datatype pool_op = DoAllocate PoolSpec | DoFree nat | DoEvict nat

definition new_session :: "node list \<Rightarrow> session" where
  "new_session nodes = \<lparr>s_pool = NewPool nodes, s_subs = []\<rparr>"

definition sub_at :: "session \<Rightarrow> nat \<Rightarrow> SubPool option" where
  "sub_at s k = (if k < length (s_subs s) then Some (s_subs s ! k) else None)"

definition put_back :: "session \<Rightarrow> nat \<Rightarrow> Pool \<times> SubPool option \<Rightarrow> session" where
  "put_back s k r = (case r of (p, None) \<Rightarrow> s\<lparr>s_pool := p\<rparr>
     | (p, Some sub) \<Rightarrow> \<lparr>s_pool = p, s_subs = (s_subs s)[k := sub]\<rparr>)"

fun pool_step :: "(node \<Rightarrow> Resources) \<Rightarrow> session \<Rightarrow> pool_op \<Rightarrow> session" where
  "pool_step r s (DoAllocate spec) =
     (case Allocate r (s_pool s) spec of Inl _ \<Rightarrow> s
      | Inr (sub, p) \<Rightarrow> \<lparr>s_pool = p, s_subs = s_subs s @ [sub]\<rparr>)"
| "pool_step r s (DoFree k) = put_back s k (Free (s_pool s) (sub_at s k))"
| "pool_step r s (DoEvict k) = put_back s k (Evict (s_pool s) (sub_at s k))"

definition pool_run :: "(node \<Rightarrow> Resources) \<Rightarrow> session \<Rightarrow> pool_op list \<Rightarrow> session" where
  "pool_run r s ops = foldl (pool_step r) s ops"

definition grants :: "session \<Rightarrow> node set list" where
  "grants s = map live_nodes (s_subs s)"

definition session_wf :: "session \<Rightarrow> bool" where
  "session_wf s \<longleftrightarrow> pool_wf (s_pool s) \<and> leased (grants s) (inUse (s_pool s)) \<and>
     (\<forall>sub \<in> set (s_subs s). distinct (sub_nodes sub))"

definition capacity :: "session \<Rightarrow> node set" where
  "capacity s = set (free (s_pool s)) \<union> inUse (s_pool s)"

lemma session_wf_new: "distinct nodes \<Longrightarrow> session_wf (new_session nodes)"
  by (simp add: session_wf_def new_session_def pool_wf_NewPool grants_def leased_def)
     (simp add: NewPool_def)

lemma live_nodes_freed [simp]: "live_nodes (s\<lparr>freed := True\<rparr>) = {}"
  by (simp add: live_nodes_def)

lemma s_pool_put_back [simp]: "s_pool (put_back s k r) = fst r"
  by (cases r) (simp add: put_back_def split: option.splits)

lemma put_back_wf:
  assumes k: "sub_at s k = Some sub" and live: "\<not> freed sub" and wf: "session_wf s"
    and p': "r = (p', Some (sub\<lparr>freed := True\<rparr>))"
    and eff: "pool_wf p'" "leased ((grants s)[k := {}]) (inUse p')"
  shows "session_wf (put_back s k r)"
proof -
  have "grants (put_back s k r) = (grants s)[k := {}]"
    by (simp add: put_back_def p' grants_def map_update)
  moreover have "distinct (sub_nodes sub)"
    using k wf by (auto simp: sub_at_def session_wf_def split: if_splits)
  ultimately show ?thesis
    using wf eff by (auto simp: session_wf_def put_back_def p' dest!: set_update_subset_insert [THEN subsetD])
qed

lemma give_back:
  assumes k: "sub_at s k = Some sub" and live: "\<not> freed sub" and wf: "session_wf s"
  shows "session_wf (pool_step r s (DoFree k))" "capacity (pool_step r s (DoFree k)) = capacity s"
    "session_wf (pool_step r s (DoEvict k))" "capacity (pool_step r s (DoEvict k)) \<subseteq> capacity s"
proof -
  have klen: "k < length (grants s)" and gk: "grants s ! k = live_nodes sub"
    and d: "\<not> freed sub \<and> distinct (sub_nodes sub)"
    using k live wf by (auto simp: sub_at_def grants_def session_wf_def split: if_splits)
  have p: "pool_wf (s_pool s)" "leased (grants s) (inUse (s_pool s))"
    using wf by (simp_all add: session_wf_def)
  note F = pool_lease.release_leased [OF p klen gk d] and E = pool_lease.discard_leased [OF p klen gk d]
  have f: "Free (s_pool s) (Some sub) = (fst (Free (s_pool s) (Some sub)), Some (sub\<lparr>freed := True\<rparr>))"
    and e: "Evict (s_pool s) (Some sub) = (fst (Evict (s_pool s) (Some sub)), Some (sub\<lparr>freed := True\<rparr>))"
    using live by (simp_all add: Free_def Evict_def)
  show "session_wf (pool_step r s (DoFree k))" "session_wf (pool_step r s (DoEvict k))"
    using put_back_wf [OF k live wf f] put_back_wf [OF k live wf e] F E k by simp_all
  show "capacity (pool_step r s (DoFree k)) = capacity s"
    using F k by (simp add: capacity_def)
  show "capacity (pool_step r s (DoEvict k)) \<subseteq> capacity s"
    using E k by (simp add: capacity_def)
qed

lemma pool_step_freed:
  assumes "sub_at s k = None \<or> (\<exists>sub. sub_at s k = Some sub \<and> freed sub)"
  shows "pool_step r s (DoFree k) = s" "pool_step r s (DoEvict k) = s"
  using assms by (auto simp: put_back_def Free_def Evict_def sub_at_def split: if_splits)

lemma pool_step_wf:
  assumes wf: "session_wf s"
  shows "session_wf (pool_step r s op) \<and> capacity (pool_step r s op) \<subseteq> capacity s"
proof (cases op)
  case (DoAllocate spec)
  show ?thesis
  proof (cases "Allocate r (s_pool s) spec")
    case (Inl e)
    with wf DoAllocate show ?thesis by simp
  next
    case (Inr sp)
    then obtain sub p where sp: "Allocate r (s_pool s) spec = Inr (sub, p)" by (cases sp) auto
    then have "pool_acquire r (s_pool s) spec = Some (sub, p)" by (simp add: pool_acquire_def)
    note A = pool_lease.acquire_leased [OF _ _ this] and G = pool_lease.acquire_granted [OF _ this]
    from A [of "grants s"] G wf show ?thesis
      using DoAllocate sp by (auto simp: session_wf_def grants_def capacity_def)
  qed
next
  case (DoFree k)
  show ?thesis
  proof (cases "\<exists>sub. sub_at s k = Some sub \<and> \<not> freed sub")
    case True
    then show ?thesis using DoFree wf give_back(1,2) by blast
  next
    case False
    then have "pool_step r s op = s" using DoFree pool_step_freed(1) not_None_eq by metis
    with wf show ?thesis by simp
  qed
next
  case (DoEvict k)
  show ?thesis
  proof (cases "\<exists>sub. sub_at s k = Some sub \<and> \<not> freed sub")
    case True
    then show ?thesis using DoEvict wf give_back(3,4) by blast
  next
    case False
    then have "pool_step r s op = s" using DoEvict pool_step_freed(2) not_None_eq by metis
    with wf show ?thesis by simp
  qed
qed

lemma pool_run_wf: "session_wf s \<Longrightarrow> session_wf (pool_run r s ops) \<and> capacity (pool_run r s ops) \<subseteq> capacity s"
proof (induction ops arbitrary: s)
  case Nil
  then show ?case by (simp add: pool_run_def)
next
  case (Cons op ops)
  from pool_step_wf [OF Cons.prems] Cons.IH [of "pool_step r s op"] show ?case
    by (auto simp: pool_run_def)
qed

subsection \<open>Properties\<close>

lemma CanEverFit_capacity:
  assumes "session_wf s" and "distinct order" and "set order = inUse (s_pool s)" and "distinct cs"
    and "set cs = capacity s"
  shows "CanEverFit r order (s_pool s) spec \<longleftrightarrow> feasible r cs (Nodes spec)"
proof -
  let ?all = "free (s_pool s) @ order"
  have "distinct ?all" "set ?all = set cs"
    using assms by (auto simp: session_wf_def pool_wf_def capacity_def)
  then show ?thesis
    unfolding CanEverFit_def matchSpecs_iff_feasible
    using feasible_mono [of ?all cs r "Nodes spec"] feasible_mono [of cs ?all r "Nodes spec"] assms(4)
    by auto
qed

lemma Allocate_Inl_iff: "(\<exists>e. Allocate r p spec = Inl e) \<longleftrightarrow> \<not> feasible r (free p) (Nodes spec)"
  using matchSpecs_iff_feasible [of r "free p" "Nodes spec"]
  by (auto simp: Allocate_def Let_def split: option.splits)

text \<open>
  C5: \<^verbatim>\<open>matchSpecs\<close> finds an assignment exactly when one exists: its augmenting-path
  search over the specs, most constrained first, fails only if no assignment of
  distinct candidates to all the specs meets every spec's required resources.
\<close>

theorem matchSpecs_complete:
  "matchSpecs r cs specs = None \<longleftrightarrow>
    \<not> (\<exists>f. inj_on f {..<length specs} \<and>
          (\<forall>i < length specs. f i < length cs \<and> SatisfiedBy (specs ! i) (r (cs ! f i))))"
  using matchSpecs_iff_feasible [of r cs specs] by (auto simp: feasible_def)

text \<open>Two nodes, one of them with an NVMe disk, and specs for either kind.\<close>

definition demo_res :: "node \<Rightarrow> Resources" where
  "demo_res n = \<lparr>CPUs = Some (Fin 4), MemoryMB = Some 2048,
                 Labels = (if n = 7 then {''nvme''} else {})\<rparr>"

definition demo_any :: NodeSpec where
  "demo_any = \<lparr>OS = '''', Required = \<lparr>CPUs = Some (Fin 2), MemoryMB = None, Labels = {}\<rparr>,
               Preferred = [], Role = ''any''\<rparr>"

definition demo_nvme :: NodeSpec where
  "demo_nvme = \<lparr>OS = '''', Required = \<lparr>CPUs = None, MemoryMB = None, Labels = {''nvme''}\<rparr>,
                Preferred = [], Role = ''disk''\<rparr>"

theorem matchSpecs_complete_witness:
  "matchSpecs demo_res [7, 8] [demo_any, demo_nvme] = Some [8, 7] \<and>
   (\<exists>f. inj_on f {..<length [demo_any, demo_nvme]} \<and>
        (\<forall>i < length [demo_any, demo_nvme]. f i < length [7, 8 :: nat] \<and>
           SatisfiedBy ([demo_any, demo_nvme] ! i) (demo_res ([7, 8] ! f i))))"
proof -
  have m: "matchSpecs demo_res [7, 8] [demo_any, demo_nvme] = Some [8, 7]" by code_simp
  with matchSpecs_complete [of demo_res "[7, 8]" "[demo_any, demo_nvme]"] show ?thesis by auto
qed

text \<open>
  what \<^verbatim>\<open>matchSpecs\<close> returns is in spec order and right: one candidate per spec, no
  candidate twice, each meeting the required resources of its spec.
\<close>

theorem matchSpecs_assignment:
  assumes "matchSpecs r cs specs = Some ns" and "distinct cs"
  shows "distinct ns \<and> set ns \<subseteq> set cs \<and> list_all2 (\<lambda>s n. SatisfiedBy s (r n)) specs ns"
  using matchSpecs_Some [OF assms(1)] assms(2) by (simp add: list_all2_conv_all_nth)

theorem matchSpecs_assignment_witness:
  "distinct [8, 7 :: node] \<and> set [8, 7] \<subseteq> set [7, 8 :: node] \<and>
   list_all2 (\<lambda>s n. SatisfiedBy s (demo_res n)) [demo_any, demo_nvme] [8, 7]"
proof (rule matchSpecs_assignment)
  show "matchSpecs demo_res [7, 8] [demo_any, demo_nvme] = Some [8, 7]" by code_simp
qed simp

text \<open>
  C8: two jobs never share a node. In any sequence of allocations, frees and evictions
  from a new pool, the nodes of two sub-pools not yet given back are disjoint from each
  other and from the free nodes.
\<close>

theorem pool_isolation:
  assumes "distinct nodes" and "s = pool_run r (new_session nodes) ops"
    and "i < length (s_subs s)" and "j < length (s_subs s)" and "i \<noteq> j"
    and "\<not> freed (s_subs s ! i)" and "\<not> freed (s_subs s ! j)"
  shows "set (sub_nodes (s_subs s ! i)) \<inter> set (sub_nodes (s_subs s ! j)) = {} \<and>
    set (sub_nodes (s_subs s ! i)) \<inter> set (free (s_pool s)) = {}"
proof -
  have "session_wf s" using pool_run_wf [OF session_wf_new [OF assms(1)]] assms(2) by simp
  then have l: "leased (grants s) (inUse (s_pool s))" and wf: "pool_wf (s_pool s)"
    by (simp_all add: session_wf_def)
  have "grants s ! i = set (sub_nodes (s_subs s ! i))" "grants s ! j = set (sub_nodes (s_subs s ! j))"
    using assms by (simp_all add: grants_def live_nodes_def)
  moreover have "grants s ! i \<inter> grants s ! j = {}"
    using l assms by (simp add: leased_def grants_def)
  moreover have "grants s ! i \<subseteq> inUse (s_pool s)"
    using leased_subset [OF l] assms by (simp add: grants_def)
  ultimately show ?thesis using wf by (auto simp: pool_wf_def)
qed

definition demo_ops :: "pool_op list" where
  "demo_ops = [DoAllocate \<lparr>Nodes = [demo_any]\<rparr>, DoAllocate \<lparr>Nodes = [demo_any]\<rparr>, DoFree 5]"

theorem pool_isolation_witness:
  "set (sub_nodes (s_subs (pool_run demo_res (new_session [7, 8]) demo_ops) ! 0)) \<inter>
     set (sub_nodes (s_subs (pool_run demo_res (new_session [7, 8]) demo_ops) ! 1)) = {} \<and>
   set (sub_nodes (s_subs (pool_run demo_res (new_session [7, 8]) demo_ops) ! 0)) \<inter>
     set (free (s_pool (pool_run demo_res (new_session [7, 8]) demo_ops))) = {}"
proof (rule pool_isolation [OF _ refl])
  have subs: "s_subs (pool_run demo_res (new_session [7, 8]) demo_ops) =
      [\<lparr>sub_nodes = [7], freed = False\<rparr>, \<lparr>sub_nodes = [8], freed = False\<rparr>]"
    by code_simp
  show "0 < length (s_subs (pool_run demo_res (new_session [7, 8]) demo_ops))"
    "1 < length (s_subs (pool_run demo_res (new_session [7, 8]) demo_ops))"
    "\<not> freed (s_subs (pool_run demo_res (new_session [7, 8]) demo_ops) ! 0)"
    "\<not> freed (s_subs (pool_run demo_res (new_session [7, 8]) demo_ops) ! 1)"
    by (simp_all add: subs)
qed simp_all

text \<open>
  The pool's counters account for its nodes at every moment: free and allocated
  nodes together never exceed the pool's size (evicted nodes are neither), and the
  high-water mark is at least what is allocated and at most the size.
\<close>

theorem pool_accounting:
  assumes "distinct nodes" and "p = s_pool (pool_run r (new_session nodes) ops)"
  shows "Available p + InUse p \<le> Size p \<and> InUse p \<le> MaxUsed p \<and> MaxUsed p \<le> Size p \<and>
    distinct (free p) \<and> set (free p) \<union> inUse p \<subseteq> set nodes"
proof -
  from pool_run_wf [OF session_wf_new [OF assms(1)], of r ops] have
    "pool_wf p" "set (free p) \<union> inUse p \<subseteq> capacity (new_session nodes)"
    using assms(2) by (simp_all add: session_wf_def capacity_def)
  then show ?thesis
    by (auto simp: pool_wf_def Available_def InUse_def Size_def MaxUsed_def capacity_def
        new_session_def NewPool_def)
qed

theorem pool_accounting_witness:
  "Available (s_pool (pool_run demo_res (new_session [7, 8]) demo_ops)) = 0 \<and>
   InUse (s_pool (pool_run demo_res (new_session [7, 8]) demo_ops))
     \<le> MaxUsed (s_pool (pool_run demo_res (new_session [7, 8]) demo_ops))"
proof -
  have "Available (s_pool (pool_run demo_res (new_session [7, 8]) demo_ops)) = 0" by code_simp
  with pool_accounting [of "[7, 8]", OF _ refl, of demo_res demo_ops] show ?thesis by simp
qed

text \<open>
  A job the scheduler fails because \<^verbatim>\<open>CanEverFit\<close> is false could indeed never run:
  whatever is allocated, freed or evicted afterwards, and in whatever order Go iterates
  the nodes in use, \<^verbatim>\<open>Allocate\<close> refuses its request with an \<^verbatim>\<open>ErrAllocation\<close>.
\<close>

theorem CanEverFit_false_never:
  assumes "distinct nodes" and "s = pool_run r (new_session nodes) ops"
    and "distinct order" and "set order = inUse (s_pool s)"
    and "\<not> CanEverFit r order (s_pool s) spec"
  shows "\<exists>e. Allocate r (s_pool (pool_run r s later)) spec = Inl e \<and> errors_Is e ErrAllocation"
proof -
  have wf: "session_wf s" using pool_run_wf [OF session_wf_new [OF assms(1)]] assms(2) by simp
  let ?t = "pool_run r s later"
  from pool_run_wf [OF wf, of r later] have wt: "session_wf ?t" and sub: "capacity ?t \<subseteq> capacity s"
    by simp_all
  let ?all = "free (s_pool s) @ order"
  have all: "distinct ?all" "set ?all = capacity s"
    using wf assms by (auto simp: session_wf_def pool_wf_def capacity_def)
  have "\<not> feasible r ?all (Nodes spec)"
    using CanEverFit_capacity [OF wf assms(3,4) all] assms(5) by simp
  moreover have "distinct (free (s_pool ?t))" "set (free (s_pool ?t)) \<subseteq> set ?all"
    using wt sub all(2) by (auto simp: session_wf_def pool_wf_def capacity_def)
  ultimately have "\<not> feasible r (free (s_pool ?t)) (Nodes spec)"
    using feasible_mono all(1) by blast
  then obtain e where e: "Allocate r (s_pool ?t) spec = Inl e" using Allocate_Inl_iff by blast
  then have "errors_Is e ErrAllocation"
    by (auto simp: Allocate_def Wrap_def Let_def split: option.splits)
  with e show ?thesis by blast
qed

theorem CanEverFit_false_never_witness:
  "\<exists>e. Allocate demo_res (s_pool (pool_run demo_res (pool_run demo_res (new_session [7, 8]) demo_ops)
         [DoFree 0, DoFree 1])) \<lparr>Nodes = [demo_nvme, demo_nvme]\<rparr> = Inl e \<and> errors_Is e ErrAllocation"
proof (rule CanEverFit_false_never [OF _ refl, of "[7, 8]" "[7, 8]"])
  show "set [7, 8] = inUse (s_pool (pool_run demo_res (new_session [7, 8]) demo_ops))" by code_simp
  show "\<not> CanEverFit demo_res [7, 8] (s_pool (pool_run demo_res (new_session [7, 8]) demo_ops))
          \<lparr>Nodes = [demo_nvme, demo_nvme]\<rparr>" by code_simp
qed simp_all

text \<open>
  \<^verbatim>\<open>CanAllocate\<close> is exact: it holds just when \<^verbatim>\<open>Allocate\<close> on the same pool would
  succeed, and then the sub-pool's i-th node meets the request's i-th spec.
\<close>

theorem CanAllocate_iff_Allocate:
  "CanAllocate r p spec \<longleftrightarrow>
    (\<exists>sub p'. Allocate r p spec = Inr (sub, p') \<and> length (sub_nodes sub) = PoolSpec_Size spec \<and>
      list_all2 (\<lambda>s n. SatisfiedBy s (r n)) (Nodes spec) (sub_nodes sub))"
proof (cases "matchSpecs r (free p) (Nodes spec)")
  case None
  then show ?thesis by (simp add: CanAllocate_def Allocate_def)
next
  case (Some ns)
  from matchSpecs_Some [OF Some] Some show ?thesis
    by (simp add: CanAllocate_def Allocate_def PoolSpec_Size_def Let_def list_all2_conv_all_nth)
qed

end
