(* ===== verification/Lin_History.thy ===== *)
theory Lin_History
  imports Torx_Prelude
begin

text \<open>
  Histories and the list the search walks, from \<^verbatim>\<open>src/linearize/linearize.go\<close>:
  operations, models, \<^verbatim>\<open>link\<close> (the calls and returns in time order, as a doubly linked
  list behind a sentinel), and \<^verbatim>\<open>lift\<close> and \<^verbatim>\<open>unlift\<close>, which take a call and its return out
  of the list and put them back through the pointers the removed entries still hold.

  Entries live in a store: an entry is its address, the sentinel is address 0, and
  \<open>nxt\<close> and \<open>prv\<close> are the pointer fields, \<open>None\<close> for nil; an operation that dereferences a
  nil pointer, and so panics, has the value \<open>None\<close>. Entries are allocated in list order, so
  address \<open>k + 1\<close> is the k-th event.
\<close>

record ('i, 'o) Op =
  Client :: int
  Call :: int
  Return :: int
  Group :: int
  Input :: 'i
  Output :: 'o

definition Pending :: int where
  "Pending = MaxInt64"

record ('s, 'i, 'o) Model =
  Init :: 's
  Step :: "'s \<Rightarrow> 'i \<Rightarrow> 'o \<Rightarrow> bool \<times> 's"
  Same :: "('i \<Rightarrow> 'o \<Rightarrow> 'i \<Rightarrow> 'o \<Rightarrow> bool) option"

subsection \<open>The list of calls and returns\<close>

type_synonym ev = "int \<times> bool \<times> nat"

definition op_events :: "nat \<Rightarrow> ('i, 'o) Op \<Rightarrow> ev list" where
  "op_events i x = [(Call x, True, i), (Return x, False, i)]"

definition events :: "('i, 'o) Op list \<Rightarrow> ev list" where
  "events ops = sort_key (\<lambda>(t, c, i). (t, \<not> c)) (concat (map (\<lambda>i. op_events i (ops ! i)) [0..<length ops]))"

record links =
  ent :: "(int \<times> bool) list"
  nxt :: "nat \<Rightarrow> nat option"
  prv :: "nat \<Rightarrow> nat option"
  mtch :: "nat \<Rightarrow> nat option"

definition link_ev :: "links \<times> (nat \<Rightarrow> nat option) \<times> nat \<Rightarrow> ev \<Rightarrow> (links \<times> (nat \<Rightarrow> nat option) \<times> nat) option" where
  "link_ev x v = (case x of (l, calls, prev) \<Rightarrow> case v of (t, c, i) \<Rightarrow>
     let e = length (ent l);
         l1 = l\<lparr>ent := ent l @ [(int i, c)], prv := (prv l)(e := Some prev)\<rparr>
     in if c then Some (l1\<lparr>nxt := (nxt l1)(prev := Some e)\<rparr>, calls(i := Some e), e)
        else (case calls i of
                None \<Rightarrow> None
              | Some ce \<Rightarrow> Some (l1\<lparr>mtch := (mtch l1)(ce := Some e), nxt := (nxt l1)(prev := Some e)\<rparr>, calls, e)))"

definition empty_links :: links where
  "empty_links = \<lparr>ent = [(-1, False)], nxt = (\<lambda>_. None), prv = (\<lambda>_. None), mtch = (\<lambda>_. None)\<rparr>"

definition link :: "('i, 'o) Op list \<Rightarrow> links option" where
  "link ops = map_option fst (foldl (\<lambda>x v. Option.bind x (\<lambda>y. link_ev y v)) (Some (empty_links, (\<lambda>_. None), 0)) (events ops))"

subsection \<open>Taking entries out and putting them back\<close>

definition unlink1 :: "nat \<Rightarrow> links \<Rightarrow> links option" where
  "unlink1 e l = (case prv l e of
     None \<Rightarrow> None
   | Some p \<Rightarrow>
       (let l1 = l\<lparr>nxt := (nxt l)(p := nxt l e)\<rparr>
        in Some (case nxt l1 e of Some n \<Rightarrow> l1\<lparr>prv := (prv l1)(n := prv l1 e)\<rparr> | None \<Rightarrow> l1)))"

definition relink1 :: "nat \<Rightarrow> links \<Rightarrow> links option" where
  "relink1 e l = (case prv l e of
     None \<Rightarrow> None
   | Some p \<Rightarrow>
       (let l1 = l\<lparr>nxt := (nxt l)(p := Some e)\<rparr>
        in Some (case nxt l1 e of Some n \<Rightarrow> l1\<lparr>prv := (prv l1)(n := Some e)\<rparr> | None \<Rightarrow> l1)))"

definition lift :: "nat \<Rightarrow> links \<Rightarrow> links option" where
  "lift e l = Option.bind (unlink1 e l) (\<lambda>l1. Option.bind (mtch l1 e) (\<lambda>r. unlink1 r l1))"

definition unlift :: "nat \<Rightarrow> links \<Rightarrow> links option" where
  "unlift e l = Option.bind (mtch l e) (\<lambda>r. Option.bind (relink1 r l) (relink1 e))"

subsection \<open>The same where no pointer is nil\<close>

text \<open>
  Total versions of these, which leave the store as it is where the code would dereference nil.
  They say what a list looks like once its entries are known to be there; that the code's own
  functions give just this, and so never panic, is \<open>link_some\<close> and \<open>lift_some\<close>.
\<close>

definition linked_ev :: "links \<times> (nat \<Rightarrow> nat option) \<times> nat \<Rightarrow> ev \<Rightarrow> links \<times> (nat \<Rightarrow> nat option) \<times> nat" where
  "linked_ev x v = (case x of (l, calls, prev) \<Rightarrow> case v of (t, c, i) \<Rightarrow>
     let e = length (ent l);
         l1 = l\<lparr>ent := ent l @ [(int i, c)], prv := (prv l)(e := Some prev)\<rparr>;
         calls1 = (if c then calls(i := Some e) else calls);
         l2 = (if c then l1
               else (case calls i of Some ce \<Rightarrow> l1\<lparr>mtch := (mtch l1)(ce := Some e)\<rparr> | None \<Rightarrow> l1))
     in (l2\<lparr>nxt := (nxt l2)(prev := Some e)\<rparr>, calls1, e))"

definition linked :: "('i, 'o) Op list \<Rightarrow> links" where
  "linked ops = fst (foldl linked_ev (empty_links, (\<lambda>_. None), 0) (events ops))"

definition unlinked :: "nat \<Rightarrow> links \<Rightarrow> links" where
  "unlinked e l =
     (let l1 = (case prv l e of Some p \<Rightarrow> l\<lparr>nxt := (nxt l)(p := nxt l e)\<rparr> | None \<Rightarrow> l)
      in (case nxt l e of Some n \<Rightarrow> l1\<lparr>prv := (prv l1)(n := prv l e)\<rparr> | None \<Rightarrow> l1))"

definition relinked :: "nat \<Rightarrow> links \<Rightarrow> links" where
  "relinked e l =
     (let l1 = (case prv l e of Some p \<Rightarrow> l\<lparr>nxt := (nxt l)(p := Some e)\<rparr> | None \<Rightarrow> l)
      in (case nxt l e of Some n \<Rightarrow> l1\<lparr>prv := (prv l1)(n := Some e)\<rparr> | None \<Rightarrow> l1))"

definition lifted :: "nat \<Rightarrow> links \<Rightarrow> links" where
  "lifted e l = (case mtch l e of Some r \<Rightarrow> unlinked r (unlinked e l) | None \<Rightarrow> l)"

definition unlifted :: "nat \<Rightarrow> links \<Rightarrow> links" where
  "unlifted e l = (case mtch l e of Some r \<Rightarrow> relinked e (relinked r l) | None \<Rightarrow> l)"

subsection \<open>Well-linked stores\<close>

fun dll :: "links \<Rightarrow> nat \<Rightarrow> nat list \<Rightarrow> bool" where
  "dll l p [] \<longleftrightarrow> nxt l p = None"
| "dll l p (a # as) \<longleftrightarrow> nxt l p = Some a \<and> prv l a = Some p \<and> dll l a as"

lemma dll_cong:
  "(\<And>a. a \<in> set (p # as) \<Longrightarrow> nxt l' a = nxt l a) \<Longrightarrow> (\<And>a. a \<in> set as \<Longrightarrow> prv l' a = prv l a) \<Longrightarrow>
    dll l' p as = dll l p as"
  by (induction as arbitrary: p) auto

lemma dll_append:
  "dll l p (xs @ e # ys) \<longleftrightarrow>
    dll (l\<lparr>nxt := (nxt l)(last (p # xs) := None)\<rparr>) p xs \<and>
    nxt l (last (p # xs)) = Some e \<and> prv l e = Some (last (p # xs)) \<and> dll l e ys"
  if "distinct (p # xs @ e # ys)"
  using that
proof (induction xs arbitrary: p)
  case Nil
  then show ?case by simp
next
  case (Cons x xs)
  have "last (p # x # xs) = last (x # xs)" "p \<noteq> last (x # xs)"
    using Cons.prems last_in_set [of "x # xs"] by auto
  with Cons show ?case by auto
qed

lemma unlinked_ptrs:
  assumes "prv l e = Some p"
  shows "nxt (unlinked e l) = (nxt l)(p := nxt l e)"
    "prv (unlinked e l) = (case nxt l e of Some n \<Rightarrow> (prv l)(n := Some p) | None \<Rightarrow> prv l)"
    "ent (unlinked e l) = ent l" "mtch (unlinked e l) = mtch l"
  using assms by (auto simp: unlinked_def Let_def split: option.splits)

lemma unlinked_static [simp]: "ent (unlinked e l) = ent l" "mtch (unlinked e l) = mtch l"
  by (auto simp: unlinked_def Let_def split: option.splits)

lemma lifted_static [simp]: "ent (lifted e l) = ent l" "mtch (lifted e l) = mtch l"
  by (auto simp: lifted_def split: option.splits)

lemma dll_mid:
  assumes "dll l p (xs @ e # ys)" and "distinct (p # xs @ e # ys)"
  shows "prv l e = Some (last (p # xs))" "nxt l (last (p # xs)) = Some e" "dll l e ys"
    "nxt l e = (case ys of [] \<Rightarrow> None | y # _ \<Rightarrow> Some y)"
proof -
  show d: "prv l e = Some (last (p # xs))" "nxt l (last (p # xs)) = Some e" "dll l e ys"
    using dll_append [OF assms(2)] assms(1) by auto
  show "nxt l e = (case ys of [] \<Rightarrow> None | y # _ \<Rightarrow> Some y)" using d(3) by (cases ys) auto
qed

lemma dll_unlinked:
  assumes d: "dll l p (xs @ e # ys)" and dis: "distinct (p # xs @ e # ys)"
  shows "dll (unlinked e l) p (xs @ ys)"
proof -
  define q where "q = last (p # xs)"
  note mid = dll_mid [OF d dis, folded q_def] and ptrs = unlinked_ptrs [OF dll_mid(1) [OF d dis], folded q_def]
  have q: "q \<in> set (p # xs)" by (simp add: q_def)
  have front: "dll (l\<lparr>nxt := (nxt l)(q := None)\<rparr>) p xs"
    using dll_append [OF dis] d by (simp add: q_def)
  show ?thesis
  proof (cases ys)
    case Nil
    have "dll (unlinked e l) p xs \<longleftrightarrow> dll (l\<lparr>nxt := (nxt l)(q := None)\<rparr>) p xs"
      using dis mid(4) Nil by (intro dll_cong) (auto simp: ptrs)
    with front Nil show ?thesis by simp
  next
    case (Cons y zs)
    have yq: "y \<noteq> q" "q \<notin> set zs" using dis q Cons by auto
    have "dll ((unlinked e l)\<lparr>nxt := (nxt (unlinked e l))(q := None)\<rparr>) p xs \<longleftrightarrow>
          dll (l\<lparr>nxt := (nxt l)(q := None)\<rparr>) p xs"
      using dis mid(4) Cons by (intro dll_cong) (auto simp: ptrs)
    moreover have "dll (unlinked e l) y zs \<longleftrightarrow> dll l y zs"
      using dis mid(4) Cons yq by (intro dll_cong) (auto simp: ptrs)
    moreover have "dll l y zs" using mid(3) Cons by simp
    moreover have "nxt (unlinked e l) q = Some y" "prv (unlinked e l) y = Some q"
      using mid(4) Cons by (simp_all add: ptrs)
    moreover have "distinct (p # xs @ y # zs)" using dis Cons by auto
    ultimately show ?thesis using front Cons dll_append [of p xs y zs "unlinked e l"] by (simp add: q_def)
  qed
qed

lemma relinked_unlinked:
  assumes d: "dll l p (xs @ e # ys)" and dis: "distinct (p # xs @ e # ys)"
  shows "relinked e (unlinked e l) = l"
proof -
  define q where "q = last (p # xs)"
  have q: "q \<in> set (p # xs)" by (simp add: q_def)
  note mid = dll_mid [OF d dis, folded q_def] and ptrs = unlinked_ptrs [OF dll_mid(1) [OF d dis], folded q_def]
  have eq: "e \<noteq> q" using dis q by auto
  have keep: "nxt (unlinked e l) e = nxt l e" using eq by (simp add: ptrs)
  show ?thesis
  proof (cases ys)
    case Nil
    then have n: "nxt l e = None" using mid(4) by simp
    then have "prv (unlinked e l) = prv l" by (simp add: ptrs)
    then show ?thesis using n keep mid(1,2)
      by (intro links.equality) (simp_all add: relinked_def Let_def ptrs fun_upd_idem)
  next
    case (Cons y zs)
    then have n: "nxt l e = Some y" and ye: "y \<noteq> e" "prv l y = Some e"
      using mid(3,4) dis by auto
    then have "prv (unlinked e l) = (prv l)(y := Some q)" by (simp add: ptrs)
    then show ?thesis using n ye keep mid(1,2)
      by (intro links.equality) (simp_all add: relinked_def Let_def ptrs fun_upd_idem)
  qed
qed

lemma remove1_split:
  "distinct as \<Longrightarrow> e \<in> set as \<Longrightarrow> \<exists>xs ys. as = xs @ e # ys \<and> filter (\<lambda>a. a \<noteq> e) as = xs @ ys"
proof -
  assume "distinct as" "e \<in> set as"
  then obtain xs ys where as: "as = xs @ e # ys" by (meson split_list)
  with \<open>distinct as\<close> have "filter (\<lambda>a. a \<noteq> e) xs = xs" "filter (\<lambda>a. a \<noteq> e) ys = ys"
    by (auto intro: filter_True)
  with as show ?thesis by auto
qed

lemma unlink1_some: "prv l e = Some p \<Longrightarrow> unlink1 e l = Some (unlinked e l)"
  by (cases "p = e") (auto simp: unlink1_def unlinked_def Let_def split: option.splits)

lemma relink1_some: "prv l e = Some p \<Longrightarrow> p \<noteq> e \<Longrightarrow> relink1 e l = Some (relinked e l)"
  by (auto simp: relink1_def relinked_def Let_def split: option.splits)

lemma dll_prv:
  assumes "dll l p (xs @ e # ys)" "distinct (p # xs @ e # ys)"
  shows "prv l e = Some (last (p # xs))" "last (p # xs) \<noteq> e" "prv (unlinked e l) e = Some (last (p # xs))"
proof -
  show pr: "prv l e = Some (last (p # xs))" by (rule dll_mid(1) [OF assms])
  have "last (p # xs) \<in> set (p # xs)" by (rule last_in_set) simp
  then show "last (p # xs) \<noteq> e" using assms(2) by auto
  have "nxt l e \<noteq> Some e" using dll_mid(4) [OF assms] assms(2) by (auto split: list.splits)
  then show "prv (unlinked e l) e = Some (last (p # xs))" using pr by (auto simp: unlinked_ptrs [OF pr] split: option.splits)
qed

lemma dll_lifted:
  assumes d: "dll l p as" and dis: "distinct (p # as)" and m: "mtch l e = Some r"
    and e: "e \<in> set as" and r: "r \<in> set as" and ne: "e \<noteq> r"
  shows "dll (lifted e l) p (filter (\<lambda>a. a \<noteq> e \<and> a \<noteq> r) as)" "unlifted e (lifted e l) = l"
    "lift e l = Some (lifted e l)" "unlift e (lifted e l) = Some l"
proof -
  obtain xs ys where s1: "as = xs @ e # ys" "filter (\<lambda>a. a \<noteq> e) as = xs @ ys"
    using remove1_split [of as e] dis e by auto
  have d1: "dll (unlinked e l) p (xs @ ys)" and u1: "relinked e (unlinked e l) = l"
    using dll_unlinked [of l p xs e ys] relinked_unlinked [of l p xs e ys] d dis s1 by auto
  have "r \<in> set (xs @ ys)" "distinct (xs @ ys)" using s1 r ne dis by auto
  then obtain us vs where s2: "xs @ ys = us @ r # vs" "filter (\<lambda>a. a \<noteq> r) (xs @ ys) = us @ vs"
    using remove1_split [of "xs @ ys" r] by blast
  have "distinct (p # xs @ ys)" using dis s1 by auto
  then have "distinct (p # us @ r # vs)" unfolding s2(1) .
  then have d2: "dll (unlinked r (unlinked e l)) p (us @ vs)"
    and u2: "relinked r (unlinked r (unlinked e l)) = unlinked e l"
    using dll_unlinked [of "unlinked e l" p us r vs] relinked_unlinked [of "unlinked e l" p us r vs] d1 s2 by auto
  have "filter (\<lambda>a. a \<noteq> e \<and> a \<noteq> r) as = filter (\<lambda>a. a \<noteq> r) (filter (\<lambda>a. a \<noteq> e) as)"
    by (simp add: conj_commute)
  also have "\<dots> = us @ vs" unfolding s1(2) s2(2) ..
  finally show "dll (lifted e l) p (filter (\<lambda>a. a \<noteq> e \<and> a \<noteq> r) as)"
    using d2 m by (simp add: lifted_def)
  show un: "unlifted e (lifted e l) = l" using u1 u2 m by (simp add: lifted_def unlifted_def)
  note P1 = dll_prv [of l p xs e ys] and P2 = dll_prv [of "unlinked e l" p us r vs]
  have p1: "dll l p (xs @ e # ys)" "distinct (p # xs @ e # ys)" using d dis s1(1) by simp_all
  have p2: "dll (unlinked e l) p (us @ r # vs)" "distinct (p # us @ r # vs)" using d1 s2(1) \<open>distinct (p # us @ r # vs)\<close> by simp_all
  show "lift e l = Some (lifted e l)"
    using unlink1_some [OF P1(1) [OF p1]] unlink1_some [OF P2(1) [OF p2]] m by (simp add: lift_def lifted_def)
  show "unlift e (lifted e l) = Some l"
    using relink1_some [OF P2(3,2) [OF p2]] relink1_some [OF P1(3,2) [OF p1]] u1 u2 m by (simp add: unlift_def lifted_def)
qed

subsection \<open>What \<^verbatim>\<open>link\<close> builds\<close>

definition linked_events :: "ev list \<Rightarrow> links \<Rightarrow> (nat \<Rightarrow> nat option) \<Rightarrow> nat \<Rightarrow> bool" where
  "linked_events es l calls prev \<longleftrightarrow>
     ent l = (-1, False) # map (\<lambda>(t, c, i). (int i, c)) es \<and> prev = length es \<and>
     dll l 0 [1..<Suc (length es)] \<and> (\<forall>a \<ge> length es. nxt l a = None) \<and>
     (\<forall>i a. calls i = Some a \<longleftrightarrow> (\<exists>t. 1 \<le> a \<and> a \<le> length es \<and> es ! (a - 1) = (t, True, i))) \<and>
     (\<forall>a b. mtch l a = Some b \<longleftrightarrow>
        (\<exists>i t t'. 1 \<le> a \<and> a < b \<and> b \<le> length es \<and> es ! (a - 1) = (t, True, i) \<and> es ! (b - 1) = (t', False, i)))"

lemma last_upt_Suc: "last (0 # [1..<Suc n]) = n"
  by (cases n) auto

lemma linked_ev_fields:
  assumes "linked_ev (l, calls, prev) (t, c, i) = (l', calls', prev')"
  shows "ent l' = ent l @ [(int i, c)]" "prev' = length (ent l)"
    "nxt l' = (nxt l)(prev := Some (length (ent l)))" "prv l' = (prv l)(length (ent l) := Some prev)"
    "calls' = (if c then calls(i := Some (length (ent l))) else calls)"
    "mtch l' = (if c then mtch l else case calls i of
        Some ce \<Rightarrow> (mtch l)(ce := Some (length (ent l))) | None \<Rightarrow> mtch l)"
  using assms by (auto simp: linked_ev_def Let_def split: option.splits if_splits)

lemma nth_snoc_addr:
  "(1 \<le> a \<and> a \<le> length (es @ [v]) \<and> P ((es @ [v]) ! (a - 1))) \<longleftrightarrow>
   (1 \<le> a \<and> a \<le> length es \<and> P (es ! (a - 1))) \<or> (a = Suc (length es) \<and> P v)"
  by (cases "a = Suc (length es)") (auto simp: nth_append)

lemma dll_snoc:
  assumes d: "dll l 0 [1..<Suc n]" and none: "\<forall>a \<ge> n. nxt l a = None"
    and n': "nxt l' = (nxt l)(n := Some (Suc n))" and p': "prv l' = (prv l)(Suc n := Some n)"
  shows "dll l' 0 [1..<Suc (Suc n)]" "\<forall>a \<ge> Suc n. nxt l' a = None"
proof -
  have "dll (l'\<lparr>nxt := (nxt l')(n := None)\<rparr>) 0 [1..<Suc n] \<longleftrightarrow> dll l 0 [1..<Suc n]"
    using none by (intro dll_cong) (auto simp: n' p')
  moreover have "distinct (0 # [1..<Suc n] @ [Suc n])" by auto
  moreover have "[1..<Suc (Suc n)] = [1..<Suc n] @ [Suc n]" by simp
  ultimately show "dll l' 0 [1..<Suc (Suc n)]"
    using d none dll_append [of 0 "[1..<Suc n]" "Suc n" "[]" l'] last_upt_Suc [of n]
    by (simp add: n' p' del: upt_Suc)
  show "\<forall>a \<ge> Suc n. nxt l' a = None" using none by (simp add: n')
qed

lemma linked_events_snoc:
  assumes inv: "linked_events es l calls prev" and new: "snd v \<notin> snd ` set es"
    and step: "linked_ev (l, calls, prev) v = (l', calls', prev')"
  shows "linked_events (es @ [v]) l' calls' prev'"
proof -
  obtain t c i where v: "v = (t, c, i)" by (cases v) auto
  note F = linked_ev_fields [OF step [unfolded v]]
  have I: "ent l = (-1, False) # map (\<lambda>(t, c, i). (int i, c)) es" "prev = length es"
    "dll l 0 [1..<Suc (length es)]" "\<forall>a \<ge> length es. nxt l a = None"
    "\<And>i a. calls i = Some a \<longleftrightarrow> (\<exists>t. 1 \<le> a \<and> a \<le> length es \<and> es ! (a - 1) = (t, True, i))"
    "\<And>a b. mtch l a = Some b \<longleftrightarrow>
        (\<exists>i t t'. 1 \<le> a \<and> a < b \<and> b \<le> length es \<and> es ! (a - 1) = (t, True, i) \<and> es ! (b - 1) = (t', False, i))"
    using inv unfolding linked_events_def by blast+
  have len: "length (ent l) = Suc (length es)" by (simp add: I(1))
  have fresh: "es ! (a - 1) \<noteq> (t', c, i)" if "1 \<le> a" "a \<le> length es" for a t'
  proof
    assume eq: "es ! (a - 1) = (t', c, i)"
    have "es ! (a - 1) \<in> set es" using that by simp
    with new eq v show False by (metis image_eqI snd_conv)
  qed
  have calls: "calls' k = Some a \<longleftrightarrow>
      (\<exists>t'. 1 \<le> a \<and> a \<le> length (es @ [v]) \<and> (es @ [v]) ! (a - 1) = (t', True, k))" for k a
  proof -
    have "(\<exists>t'. 1 \<le> a \<and> a \<le> length (es @ [v]) \<and> (es @ [v]) ! (a - 1) = (t', True, k)) \<longleftrightarrow>
        calls k = Some a \<or> (a = Suc (length es) \<and> c \<and> k = i)"
      using nth_snoc_addr [of a es v "\<lambda>w. \<exists>t'. w = (t', True, k)"] I(5) [of k a] v by auto
    moreover have "calls i = None" if c using that I(5) [of i] fresh by (metis not_None_eq)
    ultimately show ?thesis using F(5) len by auto
  qed
  have "mtch l' a = Some b \<longleftrightarrow> (\<exists>k t1 t2. 1 \<le> a \<and> a < b \<and> b \<le> length (es @ [v]) \<and>
      (es @ [v]) ! (a - 1) = (t1, True, k) \<and> (es @ [v]) ! (b - 1) = (t2, False, k))" for a b
  proof (cases "b = Suc (length es)")
    case True
    have none: "mtch l a \<noteq> Some b" using I(6) [of a b] True by auto
    have "(\<exists>k t1 t2. 1 \<le> a \<and> a < b \<and> b \<le> length (es @ [v]) \<and> (es @ [v]) ! (a - 1) = (t1, True, k) \<and>
        (es @ [v]) ! (b - 1) = (t2, False, k)) \<longleftrightarrow> \<not> c \<and> calls i = Some a"
      using True I(5) [of i a] v by (auto simp: nth_append)
    with none True show ?thesis using F(6) len by (auto split: option.splits)
  next
    case False
    have "(\<exists>k t1 t2. 1 \<le> a \<and> a < b \<and> b \<le> length (es @ [v]) \<and> (es @ [v]) ! (a - 1) = (t1, True, k) \<and>
        (es @ [v]) ! (b - 1) = (t2, False, k)) \<longleftrightarrow> mtch l a = Some b"
      using False I(6) [of a b] by (auto simp: nth_append)
    moreover have "mtch l a \<noteq> Some b" if "\<not> c" "calls i = Some a"
    proof
      assume "mtch l a = Some b"
      then obtain k t1 t2 where "1 \<le> b" "b \<le> length es" "es ! (a - 1) = (t1, True, k)"
        "es ! (b - 1) = (t2, False, k)" using I(6) by auto
      then show False using that I(5) [of i a] fresh [of b t2] by auto
    qed
    ultimately show ?thesis using F(6) len False by (auto split: option.splits)
  qed
  then show ?thesis
    unfolding linked_events_def using dll_snoc [OF I(3,4), of l'] F len I(1,2) calls v by simp
qed

lemma linked_events_fold:
  "distinct (map snd es) \<Longrightarrow> foldl linked_ev (empty_links, (\<lambda>_. None), 0) es = (l, calls, prev) \<Longrightarrow>
    linked_events es l calls prev"
proof (induction es arbitrary: l calls prev rule: rev_induct)
  case Nil
  then show ?case by (auto simp: linked_events_def empty_links_def)
next
  case (snoc v es)
  obtain l0 calls0 prev0 where f: "foldl linked_ev (empty_links, (\<lambda>_. None), 0) es = (l0, calls0, prev0)"
    by (cases "foldl linked_ev (empty_links, (\<lambda>_. None), 0) es") auto
  from snoc.IH [OF _ f] snoc.prems(1) have "linked_events es l0 calls0 prev0" by simp
  then show ?case using linked_events_snoc [of es l0 calls0 prev0 v l calls prev] snoc.prems f by auto
qed

subsection \<open>Addresses of calls and returns\<close>

definition ev_time :: "('i, 'o) Op list \<Rightarrow> bool \<Rightarrow> nat \<Rightarrow> int" where
  "ev_time ops c i = (if c then Call (ops ! i) else Return (ops ! i))"

lemma set_events: "set (events ops) = {(ev_time ops c i, c, i) |c i. i < length ops}"
proof -
  have "x \<in> set (events ops) \<longleftrightarrow>
      (\<exists>i < length ops. x = (ev_time ops True i, True, i) \<or> x = (ev_time ops False i, False, i))" for x
    by (force simp: events_def op_events_def ev_time_def)
  then show ?thesis by (simp add: set_eq_iff ex_bool_eq) blast
qed

lemma distinct_events: "distinct (map snd (events ops))"
proof -
  have "distinct (map snd (concat (map (\<lambda>i. op_events i (ops ! i)) [0..<n])))" for n
    by (induction n) (auto simp: op_events_def)
  moreover have "distinct (events ops) \<and> inj_on snd (set (events ops)) \<longleftrightarrow>
      distinct (map snd (concat (map (\<lambda>i. op_events i (ops ! i)) [0..<length ops])))"
    by (simp only: events_def distinct_sort set_sort distinct_map)
  ultimately show ?thesis by (simp add: distinct_map)
qed

lemma events_sorted: "sorted (map (\<lambda>(t, c, i). (t, \<not> c)) (events ops))"
  unfolding events_def by (rule sorted_sort_key)

definition addr :: "('i, 'o) Op list \<Rightarrow> bool \<Rightarrow> nat \<Rightarrow> nat" where
  "addr ops c i = (THE a. 1 \<le> a \<and> a \<le> length (events ops) \<and> snd (events ops ! (a - 1)) = (c, i))"

lemma addr_ex1:
  assumes "i < length ops"
  shows "\<exists>!a. 1 \<le> a \<and> a \<le> length (events ops) \<and> snd (events ops ! (a - 1)) = (c, i)"
proof -
  have "(ev_time ops c i, c, i) \<in> set (events ops)" using assms by (auto simp: set_events)
  then obtain k where k: "k < length (events ops)" "events ops ! k = (ev_time ops c i, c, i)"
    by (auto simp: in_set_conv_nth)
  show ?thesis
  proof (rule ex1I [of _ "Suc k"])
    fix a assume a: "1 \<le> a \<and> a \<le> length (events ops) \<and> snd (events ops ! (a - 1)) = (c, i)"
    then have l: "a - 1 < length (events ops)" by linarith
    with a have "map snd (events ops) ! (a - 1) = map snd (events ops) ! k" using k by simp
    then have "a - 1 = k"
      using nth_eq_iff_index_eq [OF distinct_events [of ops], of "a - 1" k] l k by simp
    then show "a = Suc k" using a by linarith
  qed (use k in simp)
qed

lemma addr_range:
  assumes "i < length ops"
  shows "1 \<le> addr ops c i" "addr ops c i \<le> length (events ops)"
    "events ops ! (addr ops c i - 1) = (ev_time ops c i, c, i)"
proof -
  note t = theI' [OF addr_ex1 [OF assms, of c], folded addr_def]
  then show "1 \<le> addr ops c i" "addr ops c i \<le> length (events ops)" by auto
  then have "events ops ! (addr ops c i - 1) \<in> set (events ops)" by simp
  with t show "events ops ! (addr ops c i - 1) = (ev_time ops c i, c, i)" by (auto simp: set_events)
qed

lemma addr_unique:
  assumes "1 \<le> a" "a \<le> length (events ops)" "events ops ! (a - 1) = (t, c, i)"
  shows "i < length ops" "a = addr ops c i" "t = ev_time ops c i"
proof -
  have "a - 1 < length (events ops)" using assms by linarith
  then have "(t, c, i) \<in> set (events ops)" using assms(3) by (metis nth_mem)
  then show i: "i < length ops" and "t = ev_time ops c i" by (auto simp: set_events)
  show "a = addr ops c i"
    unfolding addr_def by (rule the1_equality [OF addr_ex1 [OF i], symmetric]) (use assms in simp)
qed

lemma addr_cases:
  assumes "a \<in> set [1..<Suc (length (events ops))]"
  obtains c i where "i < length ops" "a = addr ops c i"
  using assms addr_unique [of a ops] by (cases "events ops ! (a - 1)") auto

lemma addr_inject:
  assumes "i < length ops" "k < length ops"
  shows "addr ops c i = addr ops d k \<longleftrightarrow> c = d \<and> i = k"
proof
  assume "addr ops c i = addr ops d k"
  then have "(ev_time ops c i, c, i) = (ev_time ops d k, d, k)"
    using addr_range(3) [OF assms(1), of c] addr_range(3) [OF assms(2), of d] by simp
  then show "c = d \<and> i = k" by simp
qed simp

lemma addr_le_key:
  assumes "i < length ops" "k < length ops" "addr ops c i \<le> addr ops d k"
  shows "(ev_time ops c i, \<not> c) \<le> (ev_time ops d k, \<not> d)"
proof -
  have "addr ops d k - 1 < length (events ops)" using addr_range(1,2) [of k ops d] assms(2) by linarith
  then have "(\<lambda>(t, c, i). (t, \<not> c)) (events ops ! (addr ops c i - 1)) \<le>
        (\<lambda>(t, c, i). (t, \<not> c)) (events ops ! (addr ops d k - 1))"
    using assms(3) by (intro sorted_key_nth_mono [OF events_sorted]) linarith+
  then show ?thesis using addr_range(3) [of i ops c] addr_range(3) [of k ops d] assms by simp
qed

lemma ret_before_call:
  assumes "i < length ops" "k < length ops"
  shows "addr ops False k < addr ops True i \<longleftrightarrow> Return (ops ! k) < Call (ops ! i)"
proof
  assume "addr ops False k < addr ops True i"
  then show "Return (ops ! k) < Call (ops ! i)"
    using addr_le_key [of k ops i False True] assms by (auto simp: ev_time_def less_eq_prod_def)
next
  assume lt: "Return (ops ! k) < Call (ops ! i)"
  show "addr ops False k < addr ops True i"
  proof (rule ccontr)
    assume "\<not> addr ops False k < addr ops True i"
    with lt addr_le_key [of i ops k True False] assms show False
      by (auto simp: ev_time_def less_eq_prod_def)
  qed
qed

lemma ret_order:
  assumes "i < length ops" "k < length ops" "addr ops False i \<le> addr ops False k"
  shows "Return (ops ! i) \<le> Return (ops ! k)"
  using addr_le_key [OF assms] by (auto simp: ev_time_def less_eq_prod_def)

lemma call_before_ret:
  assumes "i < length ops" "Call (ops ! i) \<le> Return (ops ! i)"
  shows "addr ops True i < addr ops False i"
  using ret_before_call [of i ops i] assms addr_inject [of i ops i True False] by force

lemma link_linked:
  shows ent_link: "i < length ops \<Longrightarrow> ent (linked ops) ! addr ops c i = (int i, c)"
    and dll_link: "dll (linked ops) 0 [1..<Suc (length (events ops))]"
    and mtch_link: "i < length ops \<Longrightarrow> Call (ops ! i) \<le> Return (ops ! i) \<Longrightarrow>
      mtch (linked ops) (addr ops True i) = Some (addr ops False i)"
proof -
  obtain l calls prev where f: "foldl linked_ev (empty_links, (\<lambda>_. None), 0) (events ops) = (l, calls, prev)"
    by (cases "foldl linked_ev (empty_links, (\<lambda>_. None), 0) (events ops)") auto
  from linked_events_fold [OF distinct_events f] have
    E: "ent l = (-1, False) # map (\<lambda>(t, c, i). (int i, c)) (events ops)" and
    D: "dll l 0 [1..<Suc (length (events ops))]" and
    M: "\<And>a b. mtch l a = Some b \<longleftrightarrow> (\<exists>i t t'. 1 \<le> a \<and> a < b \<and> b \<le> length (events ops) \<and>
        events ops ! (a - 1) = (t, True, i) \<and> events ops ! (b - 1) = (t', False, i))"
    unfolding linked_events_def by blast+
  have l: "linked ops = l" by (simp add: linked_def f)
  show "dll (linked ops) 0 [1..<Suc (length (events ops))]" using D l by simp
  show "ent (linked ops) ! addr ops c i = (int i, c)" if "i < length ops"
    using addr_range [OF that, of c] by (cases "addr ops c i") (auto simp: l E)
  show "mtch (linked ops) (addr ops True i) = Some (addr ops False i)"
    if "i < length ops" "Call (ops ! i) \<le> Return (ops ! i)"
    using addr_range [OF that(1)] call_before_ret [OF that] unfolding l M by blast
qed

text \<open>
  In a history in which no operation returns before its call, the call of every return has been
  laid out before it: \<^verbatim>\<open>link\<close> does not panic.
\<close>

lemma link_ev_some: "c \<or> calls i \<noteq> None \<Longrightarrow> link_ev (l, calls, prev) (t, c, i) = Some (linked_ev (l, calls, prev) (t, c, i))"
  by (auto simp: link_ev_def linked_ev_def Let_def)

lemma call_laid_out:
  assumes good: "\<forall>i < length ops. Call (ops ! i) \<le> Return (ops ! i)" and n: "n < length (events ops)" "events ops ! n = (t, False, i)"
    and f: "foldl linked_ev (empty_links, (\<lambda>_. None), 0) (take n (events ops)) = (l, calls, prev)"
  shows "calls i \<noteq> None"
proof -
  have "distinct (map snd (take n (events ops)))" using distinct_events [of ops] by (simp add: take_map [symmetric])
  from linked_events_fold [OF this f] have C: "\<And>i a. calls i = Some a \<longleftrightarrow>
      (\<exists>t. 1 \<le> a \<and> a \<le> length (take n (events ops)) \<and> take n (events ops) ! (a - 1) = (t, True, i))" by (simp add: linked_events_def)
  have i: "i < length ops" "Suc n = addr ops False i" using addr_unique [of "Suc n" ops t False i] n by simp_all
  let ?a = "addr ops True i"
  have "?a < Suc n" using call_before_ret [OF i(1)] good i by simp
  then have "1 \<le> ?a" "?a \<le> n" "events ops ! (?a - 1) = (ev_time ops True i, True, i)" using addr_range [OF i(1), of True] by simp_all
  then have "calls i = Some ?a" using C [of i ?a] n(1) by simp
  then show ?thesis by simp
qed

lemma link_some:
  assumes "\<forall>i < length ops. Call (ops ! i) \<le> Return (ops ! i)"
  shows "link ops = Some (linked ops)"
proof -
  let ?z = "(empty_links, (\<lambda>_. None), 0)"
  have "foldl (\<lambda>x v. Option.bind x (\<lambda>y. link_ev y v)) (Some ?z) (take n (events ops)) = Some (foldl linked_ev ?z (take n (events ops)))"
    if "n \<le> length (events ops)" for n
    using that
  proof (induction n)
    case (Suc n)
    obtain l calls prev where f: "foldl linked_ev ?z (take n (events ops)) = (l, calls, prev)" by (cases "foldl linked_ev ?z (take n (events ops))") auto
    obtain t c i where v: "events ops ! n = (t, c, i)" by (cases "events ops ! n") auto
    have "c \<or> calls i \<noteq> None" using call_laid_out [OF assms _ _ f, of t i] Suc.prems v by auto
    then show ?case using Suc f v by (simp add: take_Suc_conv_app_nth link_ev_some)
  qed simp
  from this [of "length (events ops)"] show ?thesis by (simp add: link_def linked_def)
qed

end
