(* ===== verification/Lin_Spec.thy ===== *)
theory Lin_Spec
  imports Lin_History
begin

text \<open>
  What the linearizability checker decides: \<open>linearizable\<close>, an order of all the
  operations that respects real time, keeps each group together and is a legal run of
  the model; and the same as a path that places one operation after another
  (\<open>explains\<close>). The second half shows that the paths may be pruned the way the search of
  \<^verbatim>\<open>CheckWithin\<close> prunes them: an unanswered operation that changes nothing is never
  placed, and of two unanswered operations with the same effect the one called first is
  placed first.
\<close>

subsection \<open>Linearizability\<close>

definition op_group :: "('i, 'o) Op \<Rightarrow> int" where
  "op_group x = (if Return x = Pending then 0 else Group x)"

abbreviation pending_op :: "('i, 'o) Op list \<Rightarrow> nat \<Rightarrow> bool" where
  "pending_op ops i \<equiv> Return (ops ! i) = Pending"

abbreviation grp :: "('i, 'o) Op list \<Rightarrow> nat \<Rightarrow> int" where
  "grp ops i \<equiv> op_group (ops ! i)"

abbreviation apply_op :: "('s, 'i, 'o) Model \<Rightarrow> ('i, 'o) Op list \<Rightarrow> 's \<Rightarrow> nat \<Rightarrow> bool \<times> 's" where
  "apply_op m ops s i \<equiv> Step m s (Input (ops ! i)) (Output (ops ! i))"

fun legal_run :: "('s, 'i, 'o) Model \<Rightarrow> ('i, 'o) Op list \<Rightarrow> 's \<Rightarrow> nat list \<Rightarrow> 's option" where
  "legal_run m ops s [] = Some s"
| "legal_run m ops s (i # is) =
     (case apply_op m ops s i of (ok, s') \<Rightarrow> if ok then legal_run m ops s' is else None)"

definition real_time :: "('i, 'o) Op list \<Rightarrow> nat list \<Rightarrow> bool" where
  "real_time ops ord \<longleftrightarrow> (\<forall>a < length ord. \<forall>b < length ord.
     Return (ops ! (ord ! a)) < Call (ops ! (ord ! b)) \<longrightarrow> a < b)"

definition groups_together :: "('i, 'o) Op list \<Rightarrow> nat list \<Rightarrow> bool" where
  "groups_together ops ord \<longleftrightarrow> (\<forall>a c b. a < c \<longrightarrow> c < b \<longrightarrow> b < length ord \<longrightarrow>
     grp ops (ord ! a) = grp ops (ord ! b) \<longrightarrow> grp ops (ord ! a) \<noteq> 0 \<longrightarrow>
     grp ops (ord ! c) = grp ops (ord ! a))"

definition linearization :: "('s, 'i, 'o) Model \<Rightarrow> ('i, 'o) Op list \<Rightarrow> nat list \<Rightarrow> bool" where
  "linearization m ops ord \<longleftrightarrow> distinct ord \<and> set ord = {..<length ops} \<and>
     real_time ops ord \<and> groups_together ops ord \<and> legal_run m ops (Init m) ord \<noteq> None"

definition linearizable :: "('s, 'i, 'o) Model \<Rightarrow> ('i, 'o) Op list \<Rightarrow> bool" where
  "linearizable m ops \<longleftrightarrow> (\<exists>ord. linearization m ops ord)"

text \<open>
  The history's times are 64-bit, and the model's contract: an operation with no answer is
  legal in every state, and operations \<open>Same\<close> relates have the same effect in every state.
\<close>

definition int64_times :: "('i, 'o) Op list \<Rightarrow> bool" where
  "int64_times ops \<longleftrightarrow> (\<forall>x \<in> set ops. is_int64 (Call x) \<and> is_int64 (Return x))"

definition pending_accepted :: "('s, 'i, 'o) Model \<Rightarrow> ('i, 'o) Op list \<Rightarrow> bool" where
  "pending_accepted m ops \<longleftrightarrow>
     (\<forall>x \<in> set ops. Return x = Pending \<longrightarrow> (\<forall>s. fst (Step m s (Input x) (Output x))))"

definition same_sound :: "('s, 'i, 'o) Model \<Rightarrow> bool" where
  "same_sound m \<longleftrightarrow> (case Same m of None \<Rightarrow> True
     | Some same \<Rightarrow> \<forall>i1 o1 i2 o2. same i1 o1 i2 o2 \<longrightarrow> (\<forall>s. Step m s i1 o1 = Step m s i2 o2))"

lemma int64_times_bounds:
  "int64_times ops \<Longrightarrow> i < length ops \<Longrightarrow> Call (ops ! i) \<le> Pending \<and> Return (ops ! i) \<le> Pending"
  by (auto simp: int64_times_def is_int64_def Pending_def)

subsection \<open>Placing operations one after another\<close>

definition opened :: "('i, 'o) Op list \<Rightarrow> nat set \<Rightarrow> int \<Rightarrow> bool" where
  "opened ops L g \<longleftrightarrow> g \<noteq> 0 \<and> (\<exists>k < length ops. k \<in> L \<and> grp ops k = g) \<and>
     (\<exists>k < length ops. k \<notin> L \<and> grp ops k = g)"

definition timely :: "('i, 'o) Op list \<Rightarrow> nat set \<Rightarrow> nat \<Rightarrow> bool" where
  "timely ops L i \<longleftrightarrow> (\<forall>k < length ops. k \<notin> L \<longrightarrow> \<not> Return (ops ! k) < Call (ops ! i))"

definition ready :: "('i, 'o) Op list \<Rightarrow> nat set \<Rightarrow> nat \<Rightarrow> bool" where
  "ready ops L i \<longleftrightarrow> i < length ops \<and> i \<notin> L \<and> timely ops L i \<and> (\<forall>g. opened ops L g \<longrightarrow> grp ops i = g)"

fun explains :: "('s, 'i, 'o) Model \<Rightarrow> ('i, 'o) Op list \<Rightarrow> nat set \<Rightarrow> 's \<Rightarrow> nat list \<Rightarrow> 's \<Rightarrow> bool" where
  "explains m ops L s [] s' \<longleftrightarrow> s' = s"
| "explains m ops L s (i # p) s' \<longleftrightarrow> ready ops L i \<and> fst (apply_op m ops s i) \<and>
     explains m ops (insert i L) (snd (apply_op m ops s i)) p s'"

lemma nth_not_in_take:
  assumes "distinct xs" "b < length xs" "c \<le> b"
  shows "xs ! b \<notin> set (take c xs)"
proof
  assume "xs ! b \<in> set (take c xs)"
  then obtain k where "k < c" "xs ! k = xs ! b" "k < length xs" unfolding in_set_take_conv by blast
  with assms show False using nth_eq_iff_index_eq [of xs k b] by simp
qed

definition answered_in :: "('i, 'o) Op list \<Rightarrow> nat set \<Rightarrow> bool" where
  "answered_in ops L \<longleftrightarrow> (\<forall>k < length ops. \<not> pending_op ops k \<longrightarrow> k \<in> L)"

lemma explains_append:
  "explains m ops L s (p @ q) s' \<longleftrightarrow> (\<exists>s1. explains m ops L s p s1 \<and> explains m ops (L \<union> set p) s1 q s')"
  by (induction p arbitrary: L s) auto

lemma explains_distinct:
  "explains m ops L s p s' \<Longrightarrow> distinct p \<and> set p \<inter> L = {} \<and> set p \<subseteq> {..<length ops}"
  by (induction p arbitrary: L s) (auto simp: ready_def)

lemma explains_legal: "explains m ops L s p s' \<Longrightarrow> legal_run m ops s p = Some s'"
  by (induction p arbitrary: L s) (auto split: prod.splits)

lemma explains_ready:
  assumes "explains m ops L s p s'" "b < length p"
  shows "ready ops (L \<union> set (take b p)) (p ! b)"
proof -
  have "p = take b p @ p ! b # drop (Suc b) p" using assms(2) by (simp add: id_take_nth_drop)
  then show ?thesis using assms(1) explains_append [of m ops L s "take b p" "p ! b # drop (Suc b) p" s']
    by auto
qed

lemma ready_explains:
  assumes "\<And>b. b < length p \<Longrightarrow> ready ops (L \<union> set (take b p)) (p ! b)" and "legal_run m ops s p = Some s'"
  shows "explains m ops L s p s'"
  using assms
proof (induction p arbitrary: L s)
  case (Cons i p)
  have "ready ops (insert i L \<union> set (take b p)) (p ! b)" if "b < length p" for b
    using Cons.prems(1) [of "Suc b"] that by simp
  moreover have "ready ops L i" using Cons.prems(1) [of 0] by simp
  ultimately show ?case using Cons by (auto split: prod.splits if_splits)
qed simp

text \<open>A linearization places every operation when it is ready.\<close>

lemma linearization_explains:
  assumes "linearization m ops ord"
  shows "\<exists>s'. explains m ops {} (Init m) ord s' \<and> answered_in ops (set ord)"
proof -
  have d: "distinct ord" "set ord = {..<length ops}" "real_time ops ord" "groups_together ops ord"
    using assms by (simp_all add: linearization_def)
  obtain s' where run: "legal_run m ops (Init m) ord = Some s'" using assms by (auto simp: linearization_def)
  have later: "\<exists>a \<ge> b. a < length ord \<and> ord ! a = k" if "k < length ops" "k \<notin> set (take b ord)" for k b
  proof -
    from that d(2) obtain a where "a < length ord" "ord ! a = k" by (metis in_set_conv_nth lessThan_iff)
    with that(2) show ?thesis by (metis in_set_take_conv not_le)
  qed
  have "ready ops (set (take b ord)) (ord ! b)" if b: "b < length ord" for b
  proof -
    have "ord ! b < length ops" using d(2) b nth_mem by blast
    moreover have "ord ! b \<notin> set (take b ord)" using nth_not_in_take [OF d(1) b] by simp
    moreover have "timely ops (set (take b ord)) (ord ! b)"
      unfolding timely_def using later [of _ b] d(3) b unfolding real_time_def by (metis not_le)
    moreover have "grp ops (ord ! b) = g" if g: "opened ops (set (take b ord)) g" for g
    proof -
      from g obtain a where a: "a < b" "grp ops (ord ! a) = g" "g \<noteq> 0"
        unfolding opened_def by (auto simp: in_set_take_conv)
      from g obtain c where c: "b \<le> c" "c < length ord" "grp ops (ord ! c) = g"
        unfolding opened_def using later by metis
      show ?thesis
      proof (cases "b = c")
        case False
        with a c d(4) show ?thesis unfolding groups_together_def by (metis le_neq_implies_less)
      qed (use c in simp)
    qed
    ultimately show ?thesis unfolding ready_def by blast
  qed
  then have "explains m ops {} (Init m) ord s'" using run by (intro ready_explains) auto
  moreover have "answered_in ops (set ord)" using d(2) by (simp add: answered_in_def)
  ultimately show ?thesis by blast
qed

text \<open>
  A path that places every answered operation extends to a linearization: the
  unanswered ones left over come last, where the model accepts them.
\<close>

lemma legal_run_append:
  "legal_run m ops s (p @ q) = (case legal_run m ops s p of None \<Rightarrow> None | Some s1 \<Rightarrow> legal_run m ops s1 q)"
  by (induction p arbitrary: s) (auto split: prod.splits)

lemma legal_run_accepted:
  "\<forall>i \<in> set q. \<forall>s. fst (apply_op m ops s i) \<Longrightarrow> legal_run m ops s q \<noteq> None"
  by (induction q arbitrary: s) (auto split: prod.splits, metis fst_conv)

lemma explains_linearization:
  assumes ex: "explains m ops {} (Init m) p s'" and all: "answered_in ops (set p)"
    and acc: "pending_accepted m ops" and t: "int64_times ops"
  shows "linearization m ops (p @ filter (\<lambda>i. i \<notin> set p) [0..<length ops])"
proof -
  let ?q = "filter (\<lambda>i. i \<notin> set p) [0..<length ops]"
  let ?ord = "p @ ?q"
  note D = explains_distinct [OF ex] and R = explains_ready [OF ex]
  have pend: "pending_op ops i" if "i \<in> set ?q" for i using that all by (auto simp: answered_in_def)
  have dis: "distinct ?ord" and set: "set ?ord = {..<length ops}" using D by auto
  have late: "pending_op ops (?ord ! a)" if "a \<ge> length p" "a < length ?ord" for a
  proof -
    have "?q ! (a - length p) \<in> set ?q" using that by (intro nth_mem) simp
    then show ?thesis using that pend by (simp add: nth_append)
  qed
  have in_ops: "a < length ?ord \<Longrightarrow> ?ord ! a < length ops" for a using set nth_mem by blast
  have "a < b" if ab: "a < length ?ord" "b < length ?ord" "Return (ops ! (?ord ! a)) < Call (ops ! (?ord ! b))" for a b
  proof (cases "b < length p")
    case True
    have "\<not> pending_op ops (?ord ! a)" using ab(3) int64_times_bounds [OF t in_ops [OF ab(2)]] by auto
    then have a: "a < length p" using late ab(1) not_le by blast
    have eqs: "?ord ! a = p ! a" "?ord ! b = p ! b" using a True by (simp_all add: nth_append)
    have "timely ops (set (take b p)) (p ! b)" using R [OF True] by (simp add: ready_def)
    then have "p ! a \<in> set (take b p)"
      using ab(3) in_ops [OF ab(1)] unfolding timely_def eqs by blast
    then obtain k where "k < b" "p ! k = p ! a" "k < length p" unfolding in_set_take_conv by blast
    with D a show ?thesis using nth_eq_iff_index_eq [of p k a] by simp
  next
    case False
    have "\<not> pending_op ops (?ord ! a)" using ab(3) int64_times_bounds [OF t in_ops [OF ab(2)]] by auto
    then show ?thesis using late [of a] ab(1) False by linarith
  qed
  then have "real_time ops ?ord" unfolding real_time_def by blast
  moreover have "grp ops (?ord ! c) = grp ops (?ord ! a)"
    if abc: "a < c" "c < b" "b < length ?ord" "grp ops (?ord ! a) = grp ops (?ord ! b)"
      "grp ops (?ord ! a) \<noteq> 0" for a b c
  proof -
    have "\<not> pending_op ops (?ord ! b)" using abc by (auto simp: op_group_def)
    then have b: "b < length p" using late abc(3) not_le by blast
    have eqs: "?ord ! a = p ! a" "?ord ! b = p ! b" "?ord ! c = p ! c" using b abc by (simp_all add: nth_append)
    have len: "p ! a < length ops" "p ! b < length ops" using in_ops [of a] in_ops [of b] abc eqs by simp_all
    have "p ! a \<in> set (take c p)" using abc b unfolding in_set_take_conv by (intro exI [of _ a]) simp
    moreover have "p ! b \<notin> set (take c p)" using nth_not_in_take [of p b c] D b abc(2) by simp
    ultimately have "opened ops (set (take c p)) (grp ops (p ! a))"
      unfolding opened_def using abc(4,5) len eqs by metis
    moreover have "ready ops (set (take c p)) (p ! c)" using R [of c] b abc by simp
    ultimately show ?thesis unfolding ready_def eqs by blast
  qed
  then have "groups_together ops ?ord" unfolding groups_together_def by blast
  moreover have "\<forall>i \<in> set ?q. \<forall>s. fst (apply_op m ops s i)"
    using pend acc unfolding pending_accepted_def by force
  then have "legal_run m ops (Init m) ?ord \<noteq> None"
    using explains_legal [OF ex] legal_run_accepted [of ?q m ops s'] by (simp add: legal_run_append)
  ultimately show ?thesis using dis set unfolding linearization_def by blast
qed

subsection \<open>The pruned search space\<close>

text \<open>
  \<open>after i\<close> is an unanswered operation that has to be placed before \<open>i\<close>: it has the same
  effect, is called no later and ranks before it.
\<close>

definition after_sound :: "('s, 'i, 'o) Model \<Rightarrow> ('i, 'o) Op list \<Rightarrow> (nat \<Rightarrow> nat) \<Rightarrow> (nat \<Rightarrow> nat option) \<Rightarrow> bool" where
  "after_sound m ops rank after \<longleftrightarrow> (\<forall>i j. after i = Some j \<longrightarrow>
     i < length ops \<and> j < length ops \<and> pending_op ops i \<and> pending_op ops j \<and> rank j < rank i \<and>
     Call (ops ! j) \<le> Call (ops ! i) \<and> (\<forall>s. apply_op m ops s i = apply_op m ops s j))"

definition allowed :: "('s, 'i, 'o) Model \<Rightarrow> ('i, 'o) Op list \<Rightarrow> (nat \<Rightarrow> nat option) \<Rightarrow> nat set \<Rightarrow> 's \<Rightarrow> nat \<Rightarrow> bool" where
  "allowed m ops after L s i \<longleftrightarrow> ready ops L i \<and> fst (apply_op m ops s i) \<and>
     (\<forall>j. after i = Some j \<longrightarrow> j \<in> L) \<and> \<not> (pending_op ops i \<and> snd (apply_op m ops s i) = s)"

fun pruned :: "('s, 'i, 'o) Model \<Rightarrow> ('i, 'o) Op list \<Rightarrow> (nat \<Rightarrow> nat option) \<Rightarrow> nat set \<Rightarrow> 's \<Rightarrow> nat list \<Rightarrow> 's \<Rightarrow> bool" where
  "pruned m ops after L s [] s' \<longleftrightarrow> s' = s"
| "pruned m ops after L s (i # p) s' \<longleftrightarrow> allowed m ops after L s i \<and>
     pruned m ops after (insert i L) (snd (apply_op m ops s i)) p s'"

lemma pruned_explains: "pruned m ops after L s p s' \<Longrightarrow> explains m ops L s p s'"
  by (induction p arbitrary: L s) (auto simp: allowed_def)

lemma not_pruned:
  "explains m ops L s p s' \<Longrightarrow> \<not> pruned m ops after L s p s' \<Longrightarrow>
    \<exists>xs i ys s1. p = xs @ i # ys \<and> explains m ops L s xs s1 \<and> explains m ops (L \<union> set xs) s1 (i # ys) s' \<and>
      \<not> allowed m ops after (L \<union> set xs) s1 i"
proof (induction p arbitrary: L s)
  case (Cons k p)
  show ?case
  proof (cases "allowed m ops after L s k")
    case True
    with Cons.prems Cons.IH [of "insert k L" "snd (apply_op m ops s k)"] obtain xs i ys s1 where
      "p = xs @ i # ys" "explains m ops (insert k L) (snd (apply_op m ops s k)) xs s1"
      "explains m ops (insert k L \<union> set xs) s1 (i # ys) s'" "\<not> allowed m ops after (insert k L \<union> set xs) s1 i"
      by auto
    then show ?thesis using Cons.prems(1) by (intro exI [of _ "k # xs"] exI [of _ i] exI [of _ ys] exI [of _ s1]) auto
  next
    case False
    with Cons.prems show ?thesis by (intro exI [of _ "[]"] exI [of _ k] exI [of _ p] exI [of _ s]) auto
  qed
qed simp

text \<open>Unanswered operations hold nothing up, and are in no group.\<close>

lemma timely_cong:
  assumes "int64_times ops" "i < length ops"
    and same: "\<And>k. k < length ops \<Longrightarrow> \<not> pending_op ops k \<Longrightarrow> k \<in> L \<longleftrightarrow> k \<in> L'"
  shows "timely ops L i \<longleftrightarrow> timely ops L' i"
  using int64_times_bounds [OF assms(1,2)] same unfolding timely_def by (metis not_le)

lemma opened_cong:
  assumes same: "\<And>k. k < length ops \<Longrightarrow> \<not> pending_op ops k \<Longrightarrow> k \<in> L \<longleftrightarrow> k \<in> L'"
  shows "opened ops L g \<longleftrightarrow> opened ops L' g"
proof -
  have "\<not> pending_op ops k" if "grp ops k = g" "g \<noteq> 0" for k using that by (auto simp: op_group_def)
  then show ?thesis unfolding opened_def using same by metis
qed

lemma explains_drop_pending:
  assumes t: "int64_times ops" and i: "pending_op ops i"
  shows "explains m ops (insert i L) s p s' \<Longrightarrow> explains m ops L s p s'"
proof (induction p arbitrary: L s)
  case (Cons k p)
  have "ready ops L k"
    using Cons.prems timely_cong [OF t, of k "insert i L" L] opened_cong [of ops "insert i L" L] i
    by (auto simp: ready_def)
  moreover have "explains m ops (insert k L) (snd (apply_op m ops s k)) p s'"
    using Cons.prems Cons.IH [of "insert k L" "snd (apply_op m ops s k)"] by (simp add: insert_commute)
  ultimately show ?case using Cons.prems by simp
qed simp

definition swap :: "nat \<Rightarrow> nat \<Rightarrow> nat \<Rightarrow> nat" where
  "swap i j k = (if k = i then j else if k = j then i else k)"

lemma swap_invol [simp]: "swap i j (swap i j k) = k"
  by (simp add: swap_def)

lemma in_swap_image: "k \<in> swap i j ` L \<longleftrightarrow> swap i j k \<in> L"
  by (metis (no_types, lifting) image_iff swap_invol)

lemma explains_swap:
  assumes t: "int64_times ops" and i: "pending_op ops i" "i < length ops" and j: "pending_op ops j" "j < length ops"
    and call: "Call (ops ! j) \<le> Call (ops ! i)" and same: "\<And>s. apply_op m ops s i = apply_op m ops s j"
  shows "timely ops L i \<Longrightarrow> explains m ops L s p s' \<Longrightarrow> explains m ops (swap i j ` L) s (map (swap i j) p) s'"
proof (induction p arbitrary: L s)
  case (Cons k p)
  have agree: "l \<in> L \<longleftrightarrow> l \<in> swap i j ` L" if "\<not> pending_op ops l" for l
    using that i j unfolding in_swap_image by (auto simp: swap_def)
  have k: "ready ops L k" "fst (apply_op m ops s k)" using Cons.prems by simp_all
  have len: "swap i j k < length ops" using k i j by (simp add: swap_def ready_def)
  have "timely ops L k" using k by (simp add: ready_def)
  moreover have "timely ops L j"
    using Cons.prems(1) call unfolding timely_def by (meson le_less_trans less_le_trans not_le)
  ultimately have "timely ops L (swap i j k)" using Cons.prems(1) by (simp add: swap_def)
  then have "timely ops (swap i j ` L) (swap i j k)"
    using timely_cong [OF t len, of L "swap i j ` L"] agree by blast
  moreover have "grp ops (swap i j k) = grp ops k" using i j by (simp add: swap_def op_group_def)
  moreover have "opened ops (swap i j ` L) g \<longleftrightarrow> opened ops L g" for g
    using opened_cong [of ops L "swap i j ` L"] agree by blast
  ultimately have "ready ops (swap i j ` L) (swap i j k)"
    using k(1) len unfolding ready_def in_swap_image by simp
  moreover have "apply_op m ops s (swap i j k) = apply_op m ops s k" using same by (simp add: swap_def)
  moreover have "timely ops (insert k L) i" using Cons.prems(1) by (auto simp: timely_def)
  ultimately show ?case
    using Cons.prems(2) k(2) Cons.IH [of "insert k L" "snd (apply_op m ops s k)"] by simp
qed simp

lemma lenlex_at:
  "length ys = length zs \<Longrightarrow> (a :: nat) < b \<Longrightarrow> (xs @ a # ys, xs @ b # zs) \<in> lenlex less_than"
  by (auto simp: lenlex_conv lex_append_leftI)

text \<open>A path that explains the history can be pruned: the least such path is.\<close>

lemma explains_shrink:
  assumes t: "int64_times ops" and a: "after_sound m ops rank after"
    and ex: "explains m ops {} s p s'" and all: "answered_in ops (set p)"
    and np: "\<not> pruned m ops after {} s p s'"
  shows "\<exists>q. explains m ops {} s q s' \<and> answered_in ops (set q) \<and> (map rank q, map rank p) \<in> lenlex less_than"
proof -
  obtain xs i ys s1 where p: "p = xs @ i # ys" and front: "explains m ops {} s xs s1"
    and rear: "explains m ops (set xs) s1 (i # ys) s'" and no: "\<not> allowed m ops after (set xs) s1 i"
    using not_pruned [OF ex np] by auto
  from rear have r: "ready ops (set xs) i" "fst (apply_op m ops s1 i)" by simp_all
  then have i: "i < length ops" "i \<notin> set xs" "timely ops (set xs) i" by (simp_all add: ready_def)
  from no r consider (noop) "pending_op ops i" "snd (apply_op m ops s1 i) = s1"
    | (same) j where "after i = Some j" "j \<notin> set xs" by (auto simp: allowed_def)
  then show ?thesis
  proof cases
    case noop
    have "explains m ops (set xs) s1 ys s'"
      using rear noop explains_drop_pending [OF t noop(1), of m "set xs" s1 ys s'] by simp
    then have "explains m ops {} s (xs @ ys) s'" using front by (auto simp: explains_append)
    moreover have "answered_in ops (set (xs @ ys))" using all noop(1) by (auto simp: p answered_in_def)
    moreover have "(map rank (xs @ ys), map rank p) \<in> lenlex less_than" by (simp add: p lenlex_conv)
    ultimately show ?thesis by blast
  next
    case (same j)
    then have j: "j < length ops" "pending_op ops i" "pending_op ops j" "rank j < rank i"
      "Call (ops ! j) \<le> Call (ops ! i)" "\<And>s. apply_op m ops s i = apply_op m ops s j"
      using a unfolding after_sound_def by blast+
    have "swap i j ` set xs = set xs" using i(2) same(2) by (auto simp: swap_def image_iff)
    then have "explains m ops (set xs) s1 (map (swap i j) (i # ys)) s'"
      using explains_swap [OF t j(2) i(1) j(3,1,5,6) i(3) rear] by simp
    then have "explains m ops {} s (xs @ map (swap i j) (i # ys)) s'" using front by (auto simp: explains_append)
    moreover have "answered_in ops (set (xs @ map (swap i j) (i # ys)))"
      unfolding answered_in_def
    proof (intro allI impI)
      fix k assume k: "k < length ops" "\<not> pending_op ops k"
      then have "k \<in> set xs \<union> set (i # ys)" "swap i j k = k"
        using all j by (auto simp: p answered_in_def swap_def)
      then show "k \<in> set (xs @ map (swap i j) (i # ys))"
        using in_swap_image [of k i j "set (i # ys)"] by auto
    qed
    moreover have "map rank (xs @ map (swap i j) (i # ys)) =
        map rank xs @ rank j # map rank (map (swap i j) ys)" by (simp add: swap_def)
    then have "(map rank (xs @ map (swap i j) (i # ys)), map rank p) \<in> lenlex less_than"
      using lenlex_at [of "map rank (map (swap i j) ys)" "map rank ys" "rank j" "rank i" "map rank xs"] j(4)
      by (simp add: p)
    ultimately show ?thesis by blast
  qed
qed

lemma explains_pruned:
  assumes t: "int64_times ops" and a: "after_sound m ops rank after"
    and "explains m ops {} s p s'" "answered_in ops (set p)"
  shows "\<exists>q. pruned m ops after {} s q s' \<and> answered_in ops (set q)"
proof -
  let ?good = "\<lambda>p. explains m ops {} s p s' \<and> answered_in ops (set p)"
  have "wf (inv_image (lenlex less_than) (map rank))" by (simp add: wf_lenlex)
  then have "?good p \<longrightarrow> ?thesis"
  proof (induction p rule: wf_induct_rule)
    case (less p)
    then show ?case using explains_shrink [OF t a, of s p s'] by (auto simp: in_inv_image)
  qed
  with assms show ?thesis by blast
qed

theorem linearizable_iff_pruned:
  assumes t: "int64_times ops" and "pending_accepted m ops" and "after_sound m ops rank after"
  shows "linearizable m ops \<longleftrightarrow> (\<exists>p s'. pruned m ops after {} (Init m) p s' \<and> answered_in ops (set p))"
proof
  assume "linearizable m ops"
  then obtain ord s' where "explains m ops {} (Init m) ord s'" "answered_in ops (set ord)"
    unfolding linearizable_def using linearization_explains by blast
  then show "\<exists>p s'. pruned m ops after {} (Init m) p s' \<and> answered_in ops (set p)"
    using explains_pruned [OF t assms(3)] by blast
next
  assume "\<exists>p s'. pruned m ops after {} (Init m) p s' \<and> answered_in ops (set p)"
  then obtain p s' where "pruned m ops after {} (Init m) p s'" "answered_in ops (set p)" by blast
  then show "linearizable m ops"
    using explains_linearization [OF pruned_explains _ assms(2) t] unfolding linearizable_def by blast
qed

end
