(* ===== verification/Lin_Timeline.thy ===== *)
theory Lin_Timeline
  imports Lin_Spec
begin

text \<open>
  Placing operations on a system's own timestamps, \<^verbatim>\<open>src/linearize/timeline.go\<close>, with
  timestamps as 64-bit words read as signed and arithmetic that wraps around. A panic is
  \<open>None\<close>.
\<close>

record Timeline =
  Base :: int64
  Inclusive :: bool

definition MaxOffset :: int64 where
  "MaxOffset = (2 ^ 63 - 1 - 3) div 2"

definition offset :: "Timeline \<Rightarrow> int64 \<Rightarrow> int64 option" where
  "offset l ts =
     (if sint ts < sint (Base l) then None
      else let d = ts - Base l in if sint d < 0 \<or> sint d > sint MaxOffset then None else Some d)"

definition tl_Write :: "Timeline \<Rightarrow> int64 \<Rightarrow> (int64 \<times> int64) option" where
  "tl_Write l ts = map_option (\<lambda>d. let p = 2 * d + 1 in (p, p)) (offset l ts)"

definition tl_Read :: "Timeline \<Rightarrow> int64 \<Rightarrow> (int64 \<times> int64) option" where
  "tl_Read l ts = map_option (\<lambda>d. let p = 2 * d; p = (if Inclusive l then p + 2 else p) in (p, p)) (offset l ts)"

definition tl_Unknown :: "Timeline \<Rightarrow> int64 \<Rightarrow> (int64 \<times> int64) option" where
  "tl_Unknown l ts = map_option (\<lambda>(call, _). (call, word_of_int Pending)) (tl_Write l ts)"

subsection \<open>No place wraps around\<close>

lemma sint_MaxOffset: "sint MaxOffset = 4611686018427387902"
  by (simp add: MaxOffset_def)

lemma sint_bounds64: "- 9223372036854775808 \<le> sint (x :: int64)" "sint (x :: int64) \<le> 9223372036854775807"
  using sint_ge [of x] sint_lt [of x] by simp_all

lemma sint_of_int64:
  "- 9223372036854775808 \<le> x \<Longrightarrow> x \<le> 9223372036854775807 \<Longrightarrow> sint (word_of_int x :: int64) = x"
  by (simp add: sint_sbintrunc' signed_take_bit_int_eq_self)

lemma sint_diff:
  assumes "sint b \<le> sint (a :: int64)"
  shows "sint (a - b) = (if sint a - sint b \<le> 9223372036854775807 then sint a - sint b
    else sint a - sint b - 18446744073709551616)"
proof -
  define x where "x = sint a - sint b"
  have x: "a - b = word_of_int x" by (simp add: x_def)
  have "(word_of_int (x - 18446744073709551616) :: int64) = word_of_int x - word_of_int 18446744073709551616"
    by (rule wi_hom_sub [symmetric])
  also have "(word_of_int 18446744073709551616 :: int64) = 0" by simp
  finally have y: "a - b = word_of_int (x - 18446744073709551616)" using x by simp
  have b: "0 \<le> x" "x \<le> 18446744073709551615"
    using assms sint_bounds64 [of a] sint_bounds64 [of b] by (simp_all add: x_def)
  show ?thesis
  proof (cases "x \<le> 9223372036854775807")
    case True
    then show ?thesis unfolding x_def [symmetric] x using b by (simp add: sint_of_int64)
  next
    case False
    then show ?thesis unfolding x_def [symmetric] y using b sint_of_int64 [of "x - 18446744073709551616"]
      by (simp del: of_int_diff)
  qed
qed

lemma offset_Some:
  "offset l ts = Some d \<longleftrightarrow> d = ts - Base l \<and> 0 \<le> sint ts - sint (Base l) \<and>
     sint ts - sint (Base l) \<le> 4611686018427387902"
  using sint_diff [of "Base l" ts] sint_bounds64 [of ts] sint_bounds64 [of "Base l"]
  by (auto simp: offset_def Let_def sint_MaxOffset split: if_splits)

lemma sint_offset: "offset l ts = Some d \<Longrightarrow> sint d = sint ts - sint (Base l) \<and> 0 \<le> sint d \<and> sint d \<le> 4611686018427387902"
  using sint_diff [of "Base l" ts] by (auto simp: offset_Some)

lemma sint_place:
  assumes "0 \<le> sint d" "sint (d :: int64) \<le> 4611686018427387902"
  shows "sint (2 * d) = 2 * sint d" "sint (2 * d + 1) = 2 * sint d + 1" "sint (2 * d + 2) = 2 * sint d + 2"
proof -
  have "2 * d = word_of_int (2 * sint d)" "2 * d + 1 = word_of_int (2 * sint d + 1)"
    "2 * d + 2 = word_of_int (2 * sint d + 2)"
    by simp_all
  then show "sint (2 * d) = 2 * sint d" "sint (2 * d + 1) = 2 * sint d + 1" "sint (2 * d + 2) = 2 * sint d + 2"
    using assms sint_of_int64 [of "2 * sint d"] sint_of_int64 [of "2 * sint d + 1"] sint_of_int64 [of "2 * sint d + 2"]
    by (simp_all only:)
qed

subsection \<open>Properties\<close>

text \<open>The snapshots that hold a write, and where an operation on the timeline is in a history.\<close>

definition holds_write :: "Timeline \<Rightarrow> int64 \<Rightarrow> int64 \<Rightarrow> bool" where
  "holds_write l snapshot ts \<longleftrightarrow> (if Inclusive l then sint ts \<le> sint snapshot else sint ts < sint snapshot)"

definition out_of_range :: "Timeline \<Rightarrow> int64 \<Rightarrow> bool" where
  "out_of_range l ts \<longleftrightarrow> sint ts < sint (Base l) \<or> sint ts - sint (Base l) > sint MaxOffset"

definition placed_at :: "('i, 'o) Op \<Rightarrow> (int64 \<times> int64) option \<Rightarrow> bool" where
  "placed_at x p \<longleftrightarrow> (case p of None \<Rightarrow> False | Some (c, r) \<Rightarrow> Call x = sint c \<and> Return x = sint r)"

lemma write_place:
  assumes "placed_at x (tl_Write l ts)"
  shows "Call x = 2 * (sint ts - sint (Base l)) + 1" "Return x = Call x" "Call x < Pending"
    "0 \<le> sint ts - sint (Base l)"
proof -
  obtain d where d: "offset l ts = Some d" "Call x = sint (2 * d + 1)" "Return x = sint (2 * d + 1)"
    using assms by (auto simp: placed_at_def tl_Write_def Let_def split: option.splits)
  note o1 = sint_offset [OF d(1)]
  show "Call x = 2 * (sint ts - sint (Base l)) + 1" "Return x = Call x" "Call x < Pending"
    "0 \<le> sint ts - sint (Base l)"
    using d o1 sint_place [of d] by (simp_all add: Pending_def MaxInt64_def)
qed

lemma read_place:
  assumes "placed_at x (tl_Read l ts)"
  shows "Call x = 2 * (sint ts - sint (Base l)) + (if Inclusive l then 2 else 0)" "Return x = Call x" "Call x < Pending"
proof -
  obtain d where d: "offset l ts = Some d" "Call x = sint (if Inclusive l then 2 * d + 2 else 2 * d)"
    "Return x = sint (if Inclusive l then 2 * d + 2 else 2 * d)"
    using assms by (auto simp: placed_at_def tl_Read_def Let_def split: option.splits)
  note o1 = sint_offset [OF d(1)]
  show "Call x = 2 * (sint ts - sint (Base l)) + (if Inclusive l then 2 else 0)" "Return x = Call x" "Call x < Pending"
    using d o1 sint_place [of d] by (auto simp: Pending_def MaxInt64_def)
qed

text \<open>
  placing a timestamp panics exactly when it is before the base or more than
  MaxOffset past it - 64-bit subtraction that wraps around included - and no place that
  is given wraps around or reaches Pending.
\<close>
theorem timeline_panics_iff:
  "(tl_Write l ts = None \<longleftrightarrow> out_of_range l ts) \<and> (tl_Read l ts = None \<longleftrightarrow> out_of_range l ts) \<and> (tl_Unknown l ts = None \<longleftrightarrow> out_of_range l ts)"
proof -
  have "offset l ts = None \<longleftrightarrow> out_of_range l ts"
    using offset_Some [of l ts "ts - Base l"] offset_Some [of l ts "the (offset l ts)"]
    unfolding out_of_range_def sint_MaxOffset by (cases "offset l ts") auto
  then show ?thesis by (simp add: tl_Write_def tl_Read_def tl_Unknown_def)
qed

text \<open>
  A history on a timeline is ordered by its timestamps: in every linearization a read
  comes after exactly the writes its snapshot holds - those before its timestamp, or up
  to and with it when snapshots are inclusive - and a write comes before another with a
  later timestamp.
\<close>
theorem timeline_serializes:
  assumes "linearization m ops ord" "a < length ord" "b < length ord"
    and "placed_at (ops ! (ord ! a)) (tl_Write l ts)"
  shows "(placed_at (ops ! (ord ! b)) (tl_Read l snapshot) \<longrightarrow> (a < b \<longleftrightarrow> holds_write l snapshot ts)) \<and>
    (placed_at (ops ! (ord ! b)) (tl_Write l ts') \<longrightarrow> sint ts < sint ts' \<longrightarrow> a < b)"
proof -
  have rt: "real_time ops ord" using assms(1) by (simp add: linearization_def)
  note W = write_place [OF assms(4)]
  show ?thesis
  proof (intro conjI impI)
    assume "placed_at (ops ! (ord ! b)) (tl_Read l snapshot)"
    note R = read_place [OF this]
    show "a < b \<longleftrightarrow> holds_write l snapshot ts"
    proof (cases "holds_write l snapshot ts")
      case True
      then have "Return (ops ! (ord ! a)) < Call (ops ! (ord ! b))"
        using W R by (auto simp: holds_write_def split: if_splits)
      then show ?thesis using rt assms(2,3) True by (simp add: real_time_def)
    next
      case False
      then have "Return (ops ! (ord ! b)) < Call (ops ! (ord ! a))"
        using W R by (auto simp: holds_write_def split: if_splits)
      then have "b < a" using rt assms(2,3) by (simp add: real_time_def)
      then show ?thesis using False by simp
    qed
  next
    assume "placed_at (ops ! (ord ! b)) (tl_Write l ts')" and lt: "sint ts < sint ts'"
    note W' = write_place [OF this(1)]
    have "Return (ops ! (ord ! a)) < Call (ops ! (ord ! b))" using W W' lt by simp
    then show "a < b" using rt assms(2,3) by (simp add: real_time_def)
  qed
qed

definition two_ops :: "(bool, int) Op list" where
  "two_ops = [\<lparr>Client = 0, Call = 11, Return = 11, Group = 0, Input = True, Output = 0\<rparr>,
              \<lparr>Client = 1, Call = 14, Return = 14, Group = 8, Input = False, Output = 1\<rparr>]"

definition counter :: "(int, bool, int) Model" where
  "counter = \<lparr>Init = 0, Step = (\<lambda>s i out. if i then (True, s + 1) else (out = s, s)), Same = None\<rparr>"

lemma two_ops_linearization: "linearization counter two_ops [0, 1]"
proof -
  have "real_time two_ops [0, 1]" by (auto simp: real_time_def two_ops_def less_Suc_eq)
  moreover have "groups_together two_ops [0, 1]" by (auto simp: groups_together_def)
  moreover have "legal_run counter two_ops (Init counter) [0, 1] \<noteq> None"
    by (simp add: counter_def two_ops_def)
  moreover have "set [0, 1] = {..<length two_ops}" by (auto simp: two_ops_def)
  ultimately show ?thesis by (simp add: linearization_def)
qed

theorem timeline_serializes_witness:
  "placed_at (two_ops ! 0) (tl_Write \<lparr>Base = 100, Inclusive = False\<rparr> 105) \<and>
   placed_at (two_ops ! 1) (tl_Read \<lparr>Base = 100, Inclusive = False\<rparr> 107) \<and>
   holds_write \<lparr>Base = 100, Inclusive = False\<rparr> 107 105"
proof -
  let ?l = "\<lparr>Base = 100, Inclusive = False\<rparr>"
  have p: "placed_at (two_ops ! 0) (tl_Write ?l 105)" "placed_at (two_ops ! 1) (tl_Read ?l 107)"
    by (simp_all add: placed_at_def tl_Write_def tl_Read_def offset_def MaxOffset_def two_ops_def Let_def)
  then have "(0 :: nat) < 1 \<longleftrightarrow> holds_write ?l 107 105"
    using timeline_serializes [OF two_ops_linearization, of 0 1 ?l 105 107] by simp
  with p show ?thesis by simp
qed

end
