(* ===== verification/Lin_Bitset.thy ===== *)
theory Lin_Bitset
  imports Torx_Prelude
begin

text \<open>
  The linearizability search's memory, \<^verbatim>\<open>bitset\<close> and \<^verbatim>\<open>cache\<close> of
  \<^verbatim>\<open>src/linearize/linearize.go\<close>: a set of operations as a slice of 64-bit words, and the
  configurations visited as a hash table from the bitset's hash to a list of
  configurations. Two locales say what the search needs of them - a finite set with
  canonical representations, and a set that reports whether an element is new - and the
  code's definitions are shown to provide it.
\<close>

unbundle bit_operations_syntax

subsection \<open>Bitsets\<close>

type_synonym bitset = "uint64 list"

definition newBitset :: "nat \<Rightarrow> bitset" where
  "newBitset n = replicate ((n + 63) div 64) 0"

definition bs_set :: "bitset \<Rightarrow> nat \<Rightarrow> bitset" where
  "bs_set b i = b[i div 64 := (b ! (i div 64)) OR push_bit (i mod 64) 1]"

definition bs_clear :: "bitset \<Rightarrow> nat \<Rightarrow> bitset" where
  "bs_clear b i = b[i div 64 := (b ! (i div 64)) AND NOT (push_bit (i mod 64) 1)]"

definition bs_has :: "bitset \<Rightarrow> nat \<Rightarrow> bool" where
  "bs_has b i \<longleftrightarrow> (b ! (i div 64)) AND push_bit (i mod 64) 1 \<noteq> 0"

definition hash_step :: "uint64 \<Rightarrow> uint64 \<Rightarrow> uint64" where
  "hash_step h w = (let h1 = (h XOR w) * 0x100000001b3 in h1 XOR drop_bit 29 h1)"

definition bs_hash :: "bitset \<Rightarrow> uint64" where
  "bs_hash b = foldl hash_step 0xcbf29ce484222325 b"

text \<open>The members of a bitset, and the bitsets for histories of \<open>n\<close> operations.\<close>

definition members :: "bitset \<Rightarrow> nat set" where
  "members b = {i. i < 64 * length b \<and> bs_has b i}"

definition bitset_for :: "nat \<Rightarrow> bitset \<Rightarrow> bool" where
  "bitset_for n b \<longleftrightarrow> length b = (n + 63) div 64 \<and> members b \<subseteq> {..<n}"

locale finite_set_rep =
  fixes empty_rep :: "nat \<Rightarrow> 'b"
    and add :: "'b \<Rightarrow> nat \<Rightarrow> 'b"
    and remove :: "'b \<Rightarrow> nat \<Rightarrow> 'b"
    and contains :: "'b \<Rightarrow> nat \<Rightarrow> bool"
    and abs :: "'b \<Rightarrow> nat set"
    and valid :: "nat \<Rightarrow> 'b \<Rightarrow> bool"
  assumes empty_abs: "valid n (empty_rep n) \<and> abs (empty_rep n) = {}"
    and add_abs: "valid n b \<Longrightarrow> i < n \<Longrightarrow> valid n (add b i) \<and> abs (add b i) = insert i (abs b)"
    and remove_abs: "valid n b \<Longrightarrow> i < n \<Longrightarrow> valid n (remove b i) \<and> abs (remove b i) = abs b - {i}"
    and contains_abs: "valid n b \<Longrightarrow> i < n \<Longrightarrow> contains b i \<longleftrightarrow> i \<in> abs b"
    and canonical: "valid n b \<Longrightarrow> valid n b' \<Longrightarrow> abs b = abs b' \<Longrightarrow> b = b'"
begin

lemma remove_add: "valid n b \<Longrightarrow> i < n \<Longrightarrow> i \<notin> abs b \<Longrightarrow> remove (add b i) i = b"
  using add_abs remove_abs [of n "add b i" i] by (intro canonical [of n]) auto

lemma add_inject:
  "valid n b \<Longrightarrow> valid n b' \<Longrightarrow> i < n \<Longrightarrow> add b i = add b' i \<Longrightarrow> i \<notin> abs b \<Longrightarrow> i \<notin> abs b' \<Longrightarrow> b = b'"
  using remove_add by metis

end

lemma has_bit: "bs_has b i \<longleftrightarrow> bit (b ! (i div 64)) (i mod 64)"
proof -
  have "(w AND push_bit k 1 \<noteq> 0) \<longleftrightarrow> bit w k" if "k < 64" for w :: uint64 and k
  proof -
    have "w AND push_bit k 1 = (if bit w k then push_bit k 1 else 0)"
      by (rule bit_eqI) (auto simp: bit_simps)
    moreover have "push_bit k 1 \<noteq> (0 :: uint64)"
      using that by (simp add: bit_eq_iff bit_simps) (use that in blast)
    ultimately show ?thesis by simp
  qed
  then show ?thesis by (simp add: bs_has_def)
qed

lemma div_mod_eq_iff: "(i :: nat) div 64 = j div 64 \<Longrightarrow> i mod 64 = j mod 64 \<longleftrightarrow> i = j"
  by (metis div_mult_mod_eq)

lemma has_set:
  assumes "i < 64 * length b"
  shows "bs_has (bs_set b i) j \<longleftrightarrow> j = i \<or> bs_has b j"
proof (cases "j div 64 = i div 64")
  case True
  have "i div 64 < length b" using assms by (simp add: less_mult_imp_div_less mult.commute)
  then show ?thesis using True div_mod_eq_iff [of j i]
    by (auto simp: has_bit bs_set_def bit_simps)
qed (auto simp: has_bit bs_set_def)

lemma has_clear:
  assumes "i < 64 * length b"
  shows "bs_has (bs_clear b i) j \<longleftrightarrow> j \<noteq> i \<and> bs_has b j"
proof (cases "j div 64 = i div 64")
  case True
  have "i div 64 < length b" using assms by (simp add: less_mult_imp_div_less mult.commute)
  then show ?thesis using True div_mod_eq_iff [of j i]
    by (auto simp: has_bit bs_clear_def bit_simps)
qed (auto simp: has_bit bs_clear_def)

lemma members_canonical:
  assumes "length b = length b'" and "members b = members b'"
  shows "b = b'"
proof (rule nth_equalityI)
  show "length b = length b'" by fact
  fix k assume k: "k < length b"
  show "b ! k = b' ! k"
  proof (rule bit_word_eqI)
    fix m assume "m < LENGTH(64)"
    then have m: "m < 64" by simp
    have "64 * k + m < 64 * length b" using k m by linarith
    then have "bs_has b (64 * k + m) \<longleftrightarrow> bs_has b' (64 * k + m)"
      using assms unfolding members_def by (metis (mono_tags, lifting) mem_Collect_eq)
    then show "bit (b ! k) m = bit (b' ! k) m" using m by (simp add: has_bit)
  qed
qed

interpretation bitset_rep: finite_set_rep newBitset bs_set bs_clear bs_has members bitset_for
proof (unfold_locales, goal_cases)
  case (1 n)
  have "\<not> bs_has (newBitset n) i" if "i < 64 * length (newBitset n)" for i
    using that by (simp add: has_bit newBitset_def less_mult_imp_div_less mult.commute)
  then show ?case by (auto simp: bitset_for_def members_def newBitset_def)
next
  case (2 n b i)
  then have "i < 64 * length b" by (simp add: bitset_for_def)
  with has_set [OF this] 2 show ?case
    by (auto simp: bitset_for_def members_def bs_set_def)
next
  case (3 n b i)
  then have "i < 64 * length b" by (simp add: bitset_for_def)
  with has_clear [OF this] 3 show ?case
    by (auto simp: bitset_for_def members_def bs_clear_def)
next
  case (4 n b i)
  then have "i < 64 * length b" by (simp add: bitset_for_def)
  then show ?case by (simp add: members_def)
next
  case (5 n b b')
  then show ?case using members_canonical by (simp add: bitset_for_def)
qed

subsection \<open>The cache of configurations\<close>

record 's cache =
  buckets :: "uint64 \<Rightarrow> (bitset \<times> 's) list"
  csize :: nat

definition empty_cache :: "'s cache" where
  "empty_cache = \<lparr>buckets = (\<lambda>_. []), csize = 0\<rparr>"

definition cache_add :: "'s cache \<Rightarrow> bitset \<Rightarrow> 's \<Rightarrow> bool \<times> 's cache" where
  "cache_add c ops state =
     (let h = bs_hash ops in
      if list_ex (\<lambda>cf. snd cf = state \<and> fst cf = ops) (buckets c h) then (False, c)
      else (True, c\<lparr>buckets := (buckets c)(h := buckets c h @ [(ops, state)]),
                    csize := csize c + 1\<rparr>))"

definition cached :: "'s cache \<Rightarrow> (bitset \<times> 's) set" where
  "cached c = {x. x \<in> set (buckets c (bs_hash (fst x)))}"

definition cache_wf :: "'s cache \<Rightarrow> bool" where
  "cache_wf c \<longleftrightarrow> (\<forall>h. \<forall>x \<in> set (buckets c h). bs_hash (fst x) = h) \<and> finite (cached c) \<and>
     csize c = card (cached c)"

locale visited_set =
  fixes none :: "'c"
    and visit :: "'c \<Rightarrow> 'x \<Rightarrow> bool \<times> 'c"
    and elems :: "'c \<Rightarrow> 'x set"
    and count :: "'c \<Rightarrow> nat"
    and invar :: "'c \<Rightarrow> bool"
  assumes none_elems: "invar none \<and> elems none = {}"
    and visit_new: "invar c \<Longrightarrow> fst (visit c x) \<longleftrightarrow> x \<notin> elems c"
    and visit_elems: "invar c \<Longrightarrow> invar (snd (visit c x)) \<and> elems (snd (visit c x)) = insert x (elems c)"
    and count_elems: "invar c \<Longrightarrow> finite (elems c) \<and> count c = card (elems c)"
begin

lemma visit_twice: "invar c \<Longrightarrow> \<not> fst (visit (snd (visit c x)) x)"
  using visit_new [of "snd (visit c x)" x] visit_elems [of c x] by simp

lemma count_visit: "invar c \<Longrightarrow> count (snd (visit c x)) = (if fst (visit c x) then Suc (count c) else count c)"
  using visit_new [of c x] visit_elems [of c x] count_elems [of c] count_elems [of "snd (visit c x)"]
  by (auto simp: insert_absorb)

end

interpretation config_cache: visited_set empty_cache "\<lambda>c x. cache_add c (fst x) (snd x)" cached csize cache_wf
proof (unfold_locales, goal_cases)
  case 1
  show ?case by (simp add: empty_cache_def cache_wf_def cached_def)
next
  case (2 c x)
  then show ?case by (cases x) (auto simp: cache_add_def cached_def list_ex_iff Let_def)
next
  case (3 c x)
  obtain ops s where x: "x = (ops, s)" by force
  show ?case
  proof (cases "x \<in> cached c")
    case True
    then have "snd (cache_add c ops s) = c"
      by (auto simp: cache_add_def cached_def x list_ex_iff Let_def)
    with 3 True show ?thesis by (simp add: x insert_absorb)
  next
    case False
    let ?c = "snd (cache_add c ops s)"
    have c': "?c = c\<lparr>buckets := (buckets c)(bs_hash ops := buckets c (bs_hash ops) @ [(ops, s)]),
        csize := csize c + 1\<rparr>"
      using False by (auto simp: cache_add_def cached_def x list_ex_iff Let_def)
    have el: "cached ?c = insert x (cached c)" unfolding c' by (auto simp: cached_def x)
    with 3 False show ?thesis by (auto simp: x cache_wf_def c')
  qed
next
  case (4 c)
  then show ?case by (simp add: cache_wf_def)
qed

end
