(* ===== verification/Lin_Memo.thy ===== *)
theory Lin_Memo
  imports Torx_Prelude
begin

text \<open>
  Depth-first search that never enters a configuration twice, the scheme behind
  \<^verbatim>\<open>CheckWithin\<close> of \<^verbatim>\<open>src/linearize/linearize.go\<close> (Wing and Gong's search with Lowe's
  memoization): the configuration the search is at and the candidates left to try
  there, the configurations it came through, the ones seen, and the ones exhausted. The
  locale \<open>memo_search\<close> asks for a finite space only; its lemmas show that the search ends,
  that a goal it stops at is reachable, and that it gives up only when every reachable
  configuration is exhausted and none is a goal.
\<close>

record ('c, 'k) dfs =
  d_cur :: 'c
  d_todo :: "'k list"
  d_stack :: "('c \<times> 'k list) list"
  d_seen :: "'c set"
  d_done :: "'c set"

definition dfs_start :: "('c \<Rightarrow> 'k list) \<Rightarrow> 'c \<Rightarrow> ('c, 'k) dfs" where
  "dfs_start succs c = \<lparr>d_cur = c, d_todo = succs c, d_stack = [], d_seen = {c}, d_done = {}\<rparr>"

definition dfs_skip :: "('c, 'k) dfs \<Rightarrow> ('c, 'k) dfs" where
  "dfs_skip d = d\<lparr>d_todo := tl (d_todo d)\<rparr>"

definition dfs_enter :: "('c \<Rightarrow> 'k list) \<Rightarrow> ('c, 'k) dfs \<Rightarrow> 'c \<Rightarrow> ('c, 'k) dfs" where
  "dfs_enter succs d c = d\<lparr>d_cur := c, d_todo := succs c,
     d_stack := (d_cur d, tl (d_todo d)) # d_stack d, d_seen := insert c (d_seen d)\<rparr>"

definition dfs_leave :: "('c, 'k) dfs \<Rightarrow> ('c, 'k) dfs" where
  "dfs_leave d = d\<lparr>d_cur := fst (hd (d_stack d)), d_todo := snd (hd (d_stack d)),
     d_stack := tl (d_stack d), d_done := insert (d_cur d) (d_done d)\<rparr>"

inductive dfs_step :: "('c \<Rightarrow> 'k list) \<Rightarrow> ('c \<Rightarrow> 'k \<Rightarrow> 'c option) \<Rightarrow> ('c \<Rightarrow> bool) \<Rightarrow>
    ('c, 'k) dfs \<Rightarrow> ('c, 'k) dfs \<Rightarrow> bool" for succs move goal where
  skip: "d_todo d = k # t \<Longrightarrow> (\<And>c. move (d_cur d) k = Some c \<Longrightarrow> c \<in> d_seen d) \<Longrightarrow>
    dfs_step succs move goal d (dfs_skip d)"
| enter: "d_todo d = k # t \<Longrightarrow> move (d_cur d) k = Some c \<Longrightarrow> c \<notin> d_seen d \<Longrightarrow>
    dfs_step succs move goal d (dfs_enter succs d c)"
| leave: "d_todo d = [] \<Longrightarrow> \<not> goal (d_cur d) \<Longrightarrow> d_stack d = f # st \<Longrightarrow>
    dfs_step succs move goal d (dfs_leave d)"

definition dfs_found :: "('c \<Rightarrow> bool) \<Rightarrow> ('c, 'k) dfs \<Rightarrow> bool" where
  "dfs_found goal d \<longleftrightarrow> d_todo d = [] \<and> goal (d_cur d)"

definition dfs_failed :: "('c \<Rightarrow> bool) \<Rightarrow> ('c, 'k) dfs \<Rightarrow> bool" where
  "dfs_failed goal d \<longleftrightarrow> d_todo d = [] \<and> \<not> goal (d_cur d) \<and> d_stack d = []"

lemma dfs_simps [simp]:
  "d_cur (dfs_skip d) = d_cur d" "d_todo (dfs_skip d) = tl (d_todo d)" "d_stack (dfs_skip d) = d_stack d"
  "d_seen (dfs_skip d) = d_seen d" "d_done (dfs_skip d) = d_done d"
  "d_cur (dfs_enter succs d c) = c" "d_todo (dfs_enter succs d c) = succs c"
  "d_stack (dfs_enter succs d c) = (d_cur d, tl (d_todo d)) # d_stack d"
  "d_seen (dfs_enter succs d c) = insert c (d_seen d)" "d_done (dfs_enter succs d c) = d_done d"
  "d_cur (dfs_leave d) = fst (hd (d_stack d))" "d_todo (dfs_leave d) = snd (hd (d_stack d))"
  "d_stack (dfs_leave d) = tl (d_stack d)" "d_seen (dfs_leave d) = d_seen d"
  "d_done (dfs_leave d) = insert (d_cur d) (d_done d)"
  by (simp_all add: dfs_skip_def dfs_enter_def dfs_leave_def)

lemma dfs_start_simps [simp]:
  "d_cur (dfs_start succs c) = c" "d_todo (dfs_start succs c) = succs c" "d_stack (dfs_start succs c) = []"
  "d_seen (dfs_start succs c) = {c}" "d_done (dfs_start succs c) = {}"
  by (simp_all add: dfs_start_def)

definition dfs_frames :: "('c, 'k) dfs \<Rightarrow> ('c \<times> 'k list) list" where
  "dfs_frames d = (d_cur d, d_todo d) # d_stack d"

lemma dfs_frames_step:
  "d_todo d = k # t \<Longrightarrow> dfs_frames (dfs_skip d) = (d_cur d, t) # d_stack d"
  "d_todo d = k # t \<Longrightarrow> dfs_frames (dfs_enter succs d c) = (c, succs c) # (d_cur d, t) # d_stack d"
  "d_stack d = f # st \<Longrightarrow> dfs_frames (dfs_leave d) = d_stack d"
  by (simp_all add: dfs_frames_def)

definition move_to :: "('c \<Rightarrow> 'k list) \<Rightarrow> ('c \<Rightarrow> 'k \<Rightarrow> 'c option) \<Rightarrow> 'c \<Rightarrow> 'c \<Rightarrow> bool" where
  "move_to succs move c c' \<longleftrightarrow> (\<exists>k \<in> set (succs c). move c k = Some c')"

text \<open>
  A frame's configuration is reachable, what is left to try there is a tail of its
  candidates, and where the others lead has been seen.
\<close>

definition frame_ok :: "('c \<Rightarrow> 'k list) \<Rightarrow> ('c \<Rightarrow> 'k \<Rightarrow> 'c option) \<Rightarrow> 'c set \<Rightarrow> 'c \<times> 'k list \<Rightarrow> bool" where
  "frame_ok succs move seen f \<longleftrightarrow> fst f \<in> seen \<and>
     (\<exists>xs. succs (fst f) = xs @ snd f \<and> (\<forall>k \<in> set xs. \<forall>c. move (fst f) k = Some c \<longrightarrow> c \<in> seen))"

lemma frame_ok_mono: "frame_ok succs move seen f \<Longrightarrow> seen \<subseteq> seen' \<Longrightarrow> frame_ok succs move seen' f"
  unfolding frame_ok_def by blast

lemma frame_ok_next:
  assumes "frame_ok succs move seen (c, k # t)" and "\<And>c'. move c k = Some c' \<Longrightarrow> c' \<in> seen"
  shows "frame_ok succs move seen (c, t)"
proof -
  from assms(1) obtain xs where "c \<in> seen" "succs c = xs @ k # t"
    "\<forall>k \<in> set xs. \<forall>c'. move c k = Some c' \<longrightarrow> c' \<in> seen" by (auto simp: frame_ok_def)
  then show ?thesis using assms(2) unfolding frame_ok_def by (intro conjI exI [of _ "xs @ [k]"]) auto
qed

locale memo_search =
  fixes init :: 'c
    and succs :: "'c \<Rightarrow> 'k list"
    and move :: "'c \<Rightarrow> 'k \<Rightarrow> 'c option"
    and goal :: "'c \<Rightarrow> bool"
  assumes finite_reach: "finite {c. (move_to succs move)\<^sup>*\<^sup>* init c}"
begin

definition invar :: "('c, 'k) dfs \<Rightarrow> bool" where
  "invar d \<longleftrightarrow> init \<in> d_seen d \<and> (\<forall>c \<in> d_seen d. (move_to succs move)\<^sup>*\<^sup>* init c) \<and>
     (\<forall>f \<in> set (dfs_frames d). frame_ok succs move (d_seen d) f) \<and>
     d_seen d \<subseteq> d_done d \<union> fst ` set (dfs_frames d) \<and>
     (\<forall>c \<in> d_done d. \<not> goal c \<and> (\<forall>c'. move_to succs move c c' \<longrightarrow> c' \<in> d_seen d))"

lemma invar_start: "invar (dfs_start succs init)"
  by (simp add: invar_def dfs_frames_def frame_ok_def)

lemma fr_cur: "invar d \<Longrightarrow> frame_ok succs move (d_seen d) (d_cur d, d_todo d)"
  by (simp add: invar_def dfs_frames_def)

lemma invar_step:
  assumes "dfs_step succs move goal d d'" and I: "invar d"
  shows "invar d'"
  using assms(1)
proof cases
  case (skip k t)
  have "frame_ok succs move (d_seen d) (d_cur d, t)"
    using fr_cur [OF I] skip(3) unfolding skip(2) by (rule frame_ok_next)
  then have "\<forall>f \<in> set (dfs_frames d'). frame_ok succs move (d_seen d) f"
    using I skip(1) dfs_frames_step(1) [OF skip(2)] by (simp add: invar_def dfs_frames_def)
  moreover have "fst ` set (dfs_frames d') = fst ` set (dfs_frames d)" using skip by (simp add: dfs_frames_def)
  ultimately show ?thesis using I skip(1) unfolding invar_def by simp
next
  case (enter k t c)
  have fr: "frame_ok succs move (d_seen d) (d_cur d, k # t)"
    using fr_cur [OF I] unfolding enter(2) .
  then have "k \<in> set (succs (d_cur d))" "d_cur d \<in> d_seen d" by (auto simp: frame_ok_def)
  then have reach: "(move_to succs move)\<^sup>*\<^sup>* init c"
    using I enter(3) rtranclp.rtrancl_into_rtrancl [of "move_to succs move" init "d_cur d" c]
    by (auto simp: invar_def move_to_def)
  have "frame_ok succs move (insert c (d_seen d)) (d_cur d, t)"
    by (rule frame_ok_next [OF frame_ok_mono [OF fr]]) (use enter(3) in auto)
  moreover have "frame_ok succs move (insert c (d_seen d)) f" if "f \<in> set (d_stack d)" for f
    using I that frame_ok_mono [of succs move "d_seen d" f] by (auto simp: invar_def dfs_frames_def)
  moreover have "frame_ok succs move (insert c (d_seen d)) (c, succs c)" by (simp add: frame_ok_def)
  ultimately have "\<forall>f \<in> set (dfs_frames d'). frame_ok succs move (d_seen d') f"
    using enter(1) dfs_frames_step(2) [OF enter(2)] by simp
  moreover have "fst ` set (dfs_frames d') = insert c (fst ` set (dfs_frames d))"
    using enter(1) dfs_frames_step(2) [OF enter(2)] by (simp add: dfs_frames_def)
  ultimately show ?thesis using I enter(1) reach unfolding invar_def by auto
next
  case (leave f st)
  have "frame_ok succs move (d_seen d) (d_cur d, [])" using I leave by (auto simp: invar_def dfs_frames_def)
  then have "c' \<in> d_seen d" if "move_to succs move (d_cur d) c'" for c'
    using that by (auto simp: frame_ok_def move_to_def)
  moreover have "dfs_frames d = (d_cur d, []) # dfs_frames d'"
    using leave(1,2) dfs_frames_step(3) [OF leave(4)] by (simp add: dfs_frames_def)
  ultimately show ?thesis using I leave(1,3) unfolding invar_def by auto
qed

lemma found_reachable: "invar d \<Longrightarrow> dfs_found goal d \<Longrightarrow> (move_to succs move)\<^sup>*\<^sup>* init (d_cur d) \<and> goal (d_cur d)"
  by (auto simp: invar_def dfs_found_def dfs_frames_def frame_ok_def)

lemma failed_exhausted:
  assumes I: "invar d" and "dfs_failed goal d" and "(move_to succs move)\<^sup>*\<^sup>* init c"
  shows "\<not> goal c \<and> c \<in> insert (d_cur d) (d_done d)"
proof -
  have d: "d_todo d = []" "\<not> goal (d_cur d)" "d_stack d = []" using assms(2) by (auto simp: dfs_failed_def)
  have "frame_ok succs move (d_seen d) (d_cur d, [])" using I d by (auto simp: invar_def dfs_frames_def)
  then have "c' \<in> d_seen d" if "move_to succs move (d_cur d) c'" for c'
    using that by (auto simp: frame_ok_def move_to_def)
  moreover have all: "d_seen d \<subseteq> insert (d_cur d) (d_done d)"
    using I d by (auto simp: invar_def dfs_frames_def)
  ultimately have closed: "c' \<in> d_seen d" if "c \<in> d_seen d" "move_to succs move c c'" for c c'
    using I that by (auto simp: invar_def)
  from assms(3) have "c \<in> d_seen d"
    using I closed by (induction rule: rtranclp_induct) (auto simp: invar_def)
  then show ?thesis using all I d(2) by (auto simp: invar_def)
qed

definition work :: "('c, 'k) dfs \<Rightarrow> nat \<times> nat" where
  "work d = (card ({c. (move_to succs move)\<^sup>*\<^sup>* init c} - d_seen d),
     length (d_todo d) + sum_list (map (\<lambda>f. Suc (length (snd f))) (d_stack d)))"

lemma work_decreases:
  assumes "dfs_step succs move goal d d'" and I: "invar d"
  shows "(work d', work d) \<in> less_than <*lex*> less_than"
  using assms(1)
proof cases
  case (enter k t c)
  let ?U = "{c. (move_to succs move)\<^sup>*\<^sup>* init c}"
  have "invar d'" using invar_step assms by blast
  then have "c \<in> ?U" using enter by (auto simp: invar_def)
  then have "?U - d_seen d' \<subset> ?U - d_seen d" using enter by auto
  then have "card (?U - d_seen d') < card (?U - d_seen d)" using finite_reach by (simp add: psubset_card_mono)
  then show ?thesis by (simp add: work_def)
qed (auto simp: work_def)

lemma dfs_wf: "wf {(d', d). dfs_step succs move goal d d' \<and> invar d}"
proof (rule wf_subset)
  show "wf (inv_image (less_than <*lex*> less_than) work)" by (intro wf_inv_image wf_lex_prod wf_less_than)
  show "{(d', d). dfs_step succs move goal d d' \<and> invar d} \<subseteq> inv_image (less_than <*lex*> less_than) work"
    using work_decreases by (auto simp: in_inv_image)
qed

end

end
