(* ===== verification/Lin_Search.thy ===== *)
theory Lin_Search
  imports Lin_Bitset Lin_Memo Lin_Spec
begin

text \<open>
  The linearizability search, \<^verbatim>\<open>CheckWithin\<close> and \<^verbatim>\<open>Check\<close> of \<^verbatim>\<open>src/linearize/linearize.go\<close>.
  The variables of the Go function are the fields of the record \<open>search\<close>; one round of
  its loop is \<open>search_step\<close>, which stops with what the function returns (or with the
  panic of a nil dereference) or goes on; the loop is a partial function, \<open>None\<close> where it
  would never end. The stack has its top first. A context is what \<^verbatim>\<open>ctx.Err()\<close> answers at
  each count of steps. The zero value of a result's state is \<open>None\<close>. Counters are
  unbounded numbers: the code's are 64-bit, out of reach of a search that keeps
  everything it counts in memory.
\<close>

datatype outcome = Ok | Illegal | Unknown

definition outcome_String :: "outcome \<Rightarrow> string" where
  "outcome_String o1 = (case o1 of Ok \<Rightarrow> ''ok'' | Illegal \<Rightarrow> ''illegal'' | Unknown \<Rightarrow> ''unknown'')"

record 's Result =
  Outcome :: outcome
  Longest :: "nat list"
  State :: "'s option"
  Stuck :: int
  Explored :: nat

datatype check_error = ErrBadOp nat int int | ErrLimit | CtxErr string

record Limits =
  Configurations :: int

datatype 's verdict = Returns "'s Result" "check_error option" | Panics

type_synonym ctx = "nat \<Rightarrow> string option"

definition result_of :: "outcome \<Rightarrow> nat \<Rightarrow> 's Result" where
  "result_of o1 n = \<lparr>Outcome = o1, Longest = [], State = None, Stuck = 0, Explored = n\<rparr>"

subsection \<open>What the search prepares\<close>

definition pending_by_call :: "('i, 'o) Op list \<Rightarrow> nat list" where
  "pending_by_call ops =
     sort_key (\<lambda>i. Call (ops ! i)) (filter (\<lambda>i. Return (ops ! i) = Pending) [0..<length ops])"

definition same_ops :: "('i \<Rightarrow> 'o \<Rightarrow> 'i \<Rightarrow> 'o \<Rightarrow> bool) \<Rightarrow> ('i, 'o) Op list \<Rightarrow> nat \<Rightarrow> nat \<Rightarrow> bool" where
  "same_ops same ops j i = same (Input (ops ! j)) (Output (ops ! j)) (Input (ops ! i)) (Output (ops ! i))"

definition after_of :: "('s, 'i, 'o) Model \<Rightarrow> ('i, 'o) Op list \<Rightarrow> int list" where
  "after_of m ops = (case Same m of
     None \<Rightarrow> replicate (length ops) (-1)
   | Some same \<Rightarrow>
       (let pending = pending_by_call ops in
        foldl (\<lambda>after k. case find (\<lambda>j. same_ops same ops j (pending ! k)) (rev (take k pending)) of
              Some j \<Rightarrow> after[pending ! k := int j]
            | None \<Rightarrow> after)
          (replicate (length ops) (-1)) [0..<length pending]))"

definition group_sizes :: "('i, 'o) Op list \<Rightarrow> int \<Rightarrow> int" where
  "group_sizes ops = foldl (\<lambda>sizes x. let g = op_group x in if g \<noteq> 0 then sizes(g := sizes g + 1) else sizes)
     (\<lambda>_. 0) ops"

definition enter :: "(int \<Rightarrow> int) \<Rightarrow> int \<Rightarrow> int \<times> int \<Rightarrow> int \<times> int" where
  "enter sizes g x = (if g = 0 then x else
     let (opn, openLeft) = (if fst x = 0 then (g, sizes g) else x);
         openLeft = openLeft - 1
     in (if openLeft = 0 then 0 else opn, openLeft))"

definition leave :: "(int \<Rightarrow> int) \<Rightarrow> int \<Rightarrow> int \<times> int \<Rightarrow> int \<times> int" where
  "leave sizes g x = (if g = 0 then x else
     let (opn, openLeft) = (if fst x = 0 then (g, 0) else x);
         openLeft = openLeft + 1
     in (if openLeft = sizes g then 0 else opn, openLeft))"

subsection \<open>The loop\<close>

record 's search =
  links_of :: links
  cursor :: "nat option"
  stack :: "(nat \<times> 's) list"
  state :: 's
  linearized :: bitset
  seen :: "'s cache"
  best :: "'s Result"
  bestDepth :: int
  steps :: nat
  groups :: "int \<times> int"

definition search_start :: "('s, 'i, 'o) Model \<Rightarrow> ('i, 'o) Op list \<Rightarrow> links \<Rightarrow> 's search" where
  "search_start m ops l =
     \<lparr>links_of = l, cursor = nxt l 0, stack = [], state = Init m,
      linearized = newBitset (length ops),
      seen = snd (cache_add empty_cache (newBitset (length ops)) (Init m)),
      best = (result_of Illegal 0)\<lparr>State := Some (Init m), Stuck := -1\<rparr>,
      bestDepth = -1, steps = 0, groups = (0, 0)\<rparr>"

definition pass :: "nat \<Rightarrow> 's search \<Rightarrow> 's search" where
  "pass e st = st\<lparr>cursor := nxt (links_of st) e\<rparr>"

definition visit_call :: "('s, 'i, 'o) Model \<Rightarrow> ('i, 'o) Op list \<Rightarrow> int list \<Rightarrow> (int \<Rightarrow> int) \<Rightarrow> nat \<Rightarrow> nat \<Rightarrow>
    's search \<Rightarrow> 's verdict + 's search" where
  "visit_call m ops after sizes e i st =
     (let g = op_group (ops ! i) in
      if fst (groups st) \<noteq> 0 \<and> g \<noteq> fst (groups st) then Inr (pass e st)
      else if 0 \<le> after ! i \<and> \<not> bs_has (linearized st) (nat (after ! i)) then Inr (pass e st)
      else (case Step m (state st) (Input (ops ! i)) (Output (ops ! i)) of (ok, next) \<Rightarrow>
        if ok \<and> Return (ops ! i) = Pending \<and> next = state st then Inr (pass e st)
        else if ok then
          (let lin = bs_set (linearized st) i;
               (new, seen') = cache_add (seen st) lin next
           in if new then
                (case lift e (links_of st) of
                   None \<Rightarrow> Inl Panics
                 | Some l \<Rightarrow>
                     Inr (st\<lparr>linearized := lin, seen := seen', stack := (e, state st) # stack st,
                       groups := enter sizes g (groups st), state := next, links_of := l, cursor := nxt l 0\<rparr>))
              else Inr (pass e (st\<lparr>linearized := bs_clear lin i, seen := seen'\<rparr>)))
        else Inr (pass e st)))"

definition op_at :: "links \<Rightarrow> nat \<Rightarrow> nat" where
  "op_at l e = nat (fst (ent l ! e))"

definition remember :: "nat \<Rightarrow> 's search \<Rightarrow> 's search" where
  "remember i st = (if int (length (stack st)) > bestDepth st
     then st\<lparr>bestDepth := int (length (stack st)),
             best := (best st)\<lparr>Longest := map (\<lambda>f. op_at (links_of st) (fst f)) (rev (stack st)),
                               State := Some (state st), Stuck := int i\<rparr>\<rparr>
     else st)"

definition back_up :: "('i, 'o) Op list \<Rightarrow> (int \<Rightarrow> int) \<Rightarrow> nat \<times> 's \<Rightarrow> 's search \<Rightarrow> 's verdict + 's search" where
  "back_up ops sizes f st = (let i = op_at (links_of st) (fst f) in
     case unlift (fst f) (links_of st) of
       None \<Rightarrow> Inl Panics
     | Some l \<Rightarrow>
         Inr (st\<lparr>stack := tl (stack st), state := snd f, linearized := bs_clear (linearized st) i,
           groups := leave sizes (op_group (ops ! i)) (groups st), links_of := l, cursor := nxt l (fst f)\<rparr>))"

definition visit_return :: "('i, 'o) Op list \<Rightarrow> (int \<Rightarrow> int) \<Rightarrow> nat \<Rightarrow> 's search \<Rightarrow> 's verdict + 's search" where
  "visit_return ops sizes i st =
     (if Return (ops ! i) = Pending then Inl (Returns (result_of Ok (csize (seen st))) None)
      else let st = remember i st in
        case stack st of
          [] \<Rightarrow> Inl (Returns ((best st)\<lparr>Explored := csize (seen st)\<rparr>) None)
        | f # _ \<Rightarrow> back_up ops sizes f st)"

definition search_step :: "ctx \<Rightarrow> ('s, 'i, 'o) Model \<Rightarrow> ('i, 'o) Op list \<Rightarrow> Limits \<Rightarrow> int list \<Rightarrow> (int \<Rightarrow> int) \<Rightarrow>
    's search \<Rightarrow> 's verdict + 's search" where
  "search_step ctx m ops lims after sizes st =
     (if nxt (links_of st) 0 = None then Inl (Returns (result_of Ok (csize (seen st))) None)
      else let st = st\<lparr>steps := steps st + 1\<rparr> in
        if steps st mod 4096 = 0 \<and> ctx (steps st) \<noteq> None
        then Inl (Returns (result_of Unknown (csize (seen st))) (map_option CtxErr (ctx (steps st))))
        else if Configurations lims > 0 \<and> int (csize (seen st)) > Configurations lims
        then Inl (Returns (result_of Unknown (csize (seen st))) (Some ErrLimit))
        else case cursor st of
          None \<Rightarrow> Inl Panics
        | Some e \<Rightarrow>
            if snd (ent (links_of st) ! e)
            then visit_call m ops after sizes e (op_at (links_of st) e) st
            else visit_return ops sizes (op_at (links_of st) e) st)"

partial_function (option) search_loop ::
  "ctx \<Rightarrow> ('s, 'i, 'o) Model \<Rightarrow> ('i, 'o) Op list \<Rightarrow> Limits \<Rightarrow> int list \<Rightarrow> (int \<Rightarrow> int) \<Rightarrow> 's search \<Rightarrow> 's verdict option" where
  [code]: "search_loop ctx m ops lims after sizes st =
     (case search_step ctx m ops lims after sizes st of
        Inl v \<Rightarrow> Some v
      | Inr st' \<Rightarrow> search_loop ctx m ops lims after sizes st')"

fun bad_op :: "('i, 'o) Op list \<Rightarrow> nat \<Rightarrow> ('i, 'o) Op list \<Rightarrow> (nat \<times> int \<times> int) option" where
  "bad_op ops i [] = None"
| "bad_op ops i (x # xs) = (if Return x < Call x then Some (i, Call x, Return x) else bad_op ops (Suc i) xs)"

definition CheckWithin :: "ctx \<Rightarrow> ('s, 'i, 'o) Model \<Rightarrow> ('i, 'o) Op list \<Rightarrow> Limits \<Rightarrow> 's verdict option" where
  "CheckWithin ctx m ops lims = (case bad_op ops 0 ops of
     Some (i, c, r) \<Rightarrow> Some (Returns ((result_of Unknown 0)\<lparr>Stuck := int i\<rparr>) (Some (ErrBadOp i c r)))
   | None \<Rightarrow>
       (case link ops of
          None \<Rightarrow> Some Panics
        | Some l \<Rightarrow> search_loop ctx m ops lims (after_of m ops) (group_sizes ops) (search_start m ops l)))"

definition Check :: "ctx \<Rightarrow> ('s, 'i, 'o) Model \<Rightarrow> ('i, 'o) Op list \<Rightarrow> 's verdict option" where
  "Check ctx m ops = CheckWithin ctx m ops \<lparr>Configurations = 0\<rparr>"

subsection \<open>The order among operations with the same effect\<close>

definition after_fn :: "int list \<Rightarrow> nat \<Rightarrow> nat option" where
  "after_fn after i = (if i < length after \<and> 0 \<le> after ! i then Some (nat (after ! i)) else None)"

definition call_rank :: "('i, 'o) Op list \<Rightarrow> nat \<Rightarrow> nat" where
  "call_rank ops i = length (takeWhile (\<lambda>j. j \<noteq> i) (pending_by_call ops))"

lemma pending_by_call:
  "distinct (pending_by_call ops)" "set (pending_by_call ops) = {i. i < length ops \<and> pending_op ops i}"
  "sorted (map (\<lambda>i. Call (ops ! i)) (pending_by_call ops))"
  by (auto simp: pending_by_call_def)

lemma call_rank_nth: "k < length (pending_by_call ops) \<Longrightarrow> call_rank ops (pending_by_call ops ! k) = k"
proof -
  let ?p = "pending_by_call ops"
  assume k: "k < length ?p"
  have "takeWhile (\<lambda>j. j \<noteq> ?p ! k) ?p = take k ?p"
  proof (rule takeWhile_eq_take_P_nth)
    fix i assume "i < k" "i < length ?p"
    with k show "?p ! i \<noteq> ?p ! k" using nth_eq_iff_index_eq [OF pending_by_call(1) [of ops], of i k] by simp
  qed simp
  with k show ?thesis by (simp add: call_rank_def)
qed

lemma find_SomeD: "find P xs = Some x \<Longrightarrow> x \<in> set xs \<and> P x"
  by (induction xs) (auto split: if_splits)

lemma foldl_updates:
  assumes "distinct (map f ks)" "\<forall>k \<in> set ks. f k < length xs"
  shows "foldl (\<lambda>xs k. case g k of Some v \<Rightarrow> xs[f k := v] | None \<Rightarrow> xs) xs ks ! i =
    (case find (\<lambda>k. f k = i \<and> g k \<noteq> None) ks of Some k \<Rightarrow> the (g k) | None \<Rightarrow> xs ! i)"
  using assms
proof (induction ks arbitrary: xs)
  case (Cons k ks)
  have none: "find (\<lambda>k. f k = i \<and> g k \<noteq> None) ks = None" if "f k = i"
    using Cons.prems(1) that by (auto simp: find_None_iff image_iff)
  show ?case
  proof (cases "g k")
    case None
    then show ?thesis using Cons by simp
  next
    case (Some v)
    then show ?thesis using Cons none by (auto split: option.splits)
  qed
qed simp

lemma length_foldl_updates:
  "length (foldl (\<lambda>xs k. case g k of Some v \<Rightarrow> xs[f k := v] | None \<Rightarrow> xs) xs ks) = length xs"
  by (induction ks arbitrary: xs) (auto split: option.splits)

definition same_before :: "('i \<Rightarrow> 'o \<Rightarrow> 'i \<Rightarrow> 'o \<Rightarrow> bool) \<Rightarrow> ('i, 'o) Op list \<Rightarrow> nat \<Rightarrow> int option" where
  "same_before same ops k = map_option int
     (find (\<lambda>j. same_ops same ops j (pending_by_call ops ! k)) (rev (take k (pending_by_call ops))))"

lemma after_of_alt:
  "after_of m ops = (case Same m of None \<Rightarrow> replicate (length ops) (-1)
    | Some same \<Rightarrow> foldl (\<lambda>xs k. case same_before same ops k of
          Some v \<Rightarrow> xs[pending_by_call ops ! k := v] | None \<Rightarrow> xs)
        (replicate (length ops) (-1)) [0..<length (pending_by_call ops)])"
  by (cases "Same m") (simp_all add: after_of_def same_before_def Let_def cong: option.case_cong)

lemma length_after_of [simp]: "length (after_of m ops) = length ops"
  by (simp add: after_of_alt length_foldl_updates split: option.splits)

lemma after_fn_of:
  assumes "after_fn (after_of m ops) i = Some j"
  obtains same k k' where "Same m = Some same" "k' < k" "k < length (pending_by_call ops)"
    "i = pending_by_call ops ! k" "j = pending_by_call ops ! k'" "same_ops same ops j i"
proof -
  let ?p = "pending_by_call ops"
  from assms have i: "i < length ops" "0 \<le> after_of m ops ! i" "j = nat (after_of m ops ! i)"
    by (auto simp: after_fn_def split: if_splits)
  then obtain same where same: "Same m = Some same" by (cases "Same m") (auto simp: after_of_alt)
  have "map ((!) ?p) [0..<length ?p] = ?p" by (simp add: map_nth)
  then have "distinct (map ((!) ?p) [0..<length ?p])" using pending_by_call(1) by metis
  moreover have "\<forall>k \<in> set [0..<length ?p]. ?p ! k < length (replicate (length ops) (-1 :: int))"
    using nth_mem [of _ ?p] pending_by_call(2) [of ops] by auto
  ultimately have "after_of m ops ! i = (case find (\<lambda>k. ?p ! k = i \<and> same_before same ops k \<noteq> None) [0..<length ?p] of
      Some k \<Rightarrow> the (same_before same ops k) | None \<Rightarrow> -1)"
    using foldl_updates [of "(!) ?p" "[0..<length ?p]" "replicate (length ops) (-1)" "same_before same ops" i] i same
    by (simp add: after_of_alt split: option.split)
  with i obtain k v where k: "k < length ?p" "?p ! k = i" "same_before same ops k = Some v" "after_of m ops ! i = v"
    by (auto split: option.splits simp: find_Some_iff)
  then obtain j' where j': "find (\<lambda>j. same_ops same ops j i) (rev (take k ?p)) = Some j'" "v = int j'"
    by (force simp: same_before_def)
  then have "j' \<in> set (take k ?p)" "same_ops same ops j' i"
    using find_SomeD by fastforce+
  then obtain k' where "k' < k" "j' = ?p ! k'" by (auto simp: in_set_take_conv)
  with k j' i same show thesis using that [of same k' k] \<open>same_ops same ops j' i\<close> by auto
qed

lemma after_of_sound:
  assumes "same_sound m"
  shows "after_sound m ops (call_rank ops) (after_fn (after_of m ops))"
  unfolding after_sound_def
proof (intro allI impI)
  fix i j
  let ?p = "pending_by_call ops"
  assume "after_fn (after_of m ops) i = Some j"
  then obtain same k k' where k: "Same m = Some same" "k' < k" "k < length ?p"
    "i = ?p ! k" "j = ?p ! k'" "same_ops same ops j i" by (rule after_fn_of)
  then have "i \<in> set ?p" "j \<in> set ?p" by simp_all
  then have "i < length ops \<and> j < length ops \<and> pending_op ops i \<and> pending_op ops j"
    unfolding pending_by_call(2) by simp
  moreover have "call_rank ops j < call_rank ops i" using k call_rank_nth [of k ops] call_rank_nth [of k' ops] by simp
  moreover have "Call (ops ! j) \<le> Call (ops ! i)"
    using k sorted_nth_mono [OF pending_by_call(3) [of ops], of k' k] by simp
  moreover have "\<forall>s. apply_op m ops s i = apply_op m ops s j"
    using assms k(1,6) by (auto simp: same_sound_def same_ops_def)
  ultimately show "i < length ops \<and> j < length ops \<and> pending_op ops i \<and> pending_op ops j \<and>
    call_rank ops j < call_rank ops i \<and> Call (ops ! j) \<le> Call (ops ! i) \<and>
    (\<forall>s. apply_op m ops s i = apply_op m ops s j)" by blast
qed

lemma after_of_range: "i < length ops \<Longrightarrow> 0 \<le> after_of m ops ! i \<Longrightarrow> nat (after_of m ops ! i) < length ops"
proof -
  assume "i < length ops" "0 \<le> after_of m ops ! i"
  then have "after_fn (after_of m ops) i = Some (nat (after_of m ops ! i))" by (simp add: after_fn_def)
  then show "nat (after_of m ops ! i) < length ops"
    by (rule after_fn_of) (metis (lifting) mem_Collect_eq nth_mem order_less_trans pending_by_call(2))
qed

subsection \<open>The open group\<close>

definition group_left :: "('i, 'o) Op list \<Rightarrow> nat set \<Rightarrow> int \<Rightarrow> int" where
  "group_left ops L g = int (card {k. k < length ops \<and> k \<notin> L \<and> grp ops k = g})"

definition groups_inv :: "('i, 'o) Op list \<Rightarrow> nat set \<Rightarrow> int \<times> int \<Rightarrow> bool" where
  "groups_inv ops L x \<longleftrightarrow> (\<forall>g. opened ops L g \<longleftrightarrow> g = fst x \<and> g \<noteq> 0) \<and>
     (fst x \<noteq> 0 \<longrightarrow> snd x = group_left ops L (fst x))"

lemma group_sizes_left: "g \<noteq> 0 \<Longrightarrow> group_sizes ops g = group_left ops {} g"
proof -
  have "foldl (\<lambda>size x. let g = op_group x in if g \<noteq> 0 then size(g := size g + 1) else size) f xs g =
      f g + int (length (filter (\<lambda>x. op_group x = g) xs))" if "g \<noteq> 0" for f and xs :: "('a, 'b) Op list"
    using that by (induction xs arbitrary: f) (auto simp: Let_def)
  then show "g \<noteq> 0 \<Longrightarrow> group_sizes ops g = group_left ops {} g"
    by (simp add: group_sizes_def group_left_def length_filter_conv_card)
qed

lemma group_left_insert:
  assumes "i < length ops" "i \<notin> L"
  shows "group_left ops (insert i L) g = group_left ops L g - (if grp ops i = g then 1 else 0)"
proof -
  let ?A = "\<lambda>L. {k. k < length ops \<and> k \<notin> L \<and> grp ops k = g}"
  have "?A (insert i L) = ?A L - {i}" by auto
  moreover have "finite (?A L)" by simp
  moreover have "i \<in> ?A L \<longleftrightarrow> grp ops i = g" using assms by simp
  ultimately show ?thesis
    using card_Suc_Diff1 [of "?A L" i] unfolding group_left_def by (cases "grp ops i = g") auto
qed

lemma group_left_zero: "group_left ops L g = 0 \<longleftrightarrow> (\<forall>k < length ops. grp ops k = g \<longrightarrow> k \<in> L)"
  by (auto simp: group_left_def)

lemma group_left_all:
  "group_left ops L g = group_left ops {} g \<longleftrightarrow> (\<forall>k < length ops. grp ops k = g \<longrightarrow> k \<notin> L)"
proof
  let ?A = "\<lambda>L. {k. k < length ops \<and> k \<notin> L \<and> grp ops k = g}"
  assume "group_left ops L g = group_left ops {} g"
  then have "?A L = ?A {}" by (intro card_subset_eq) (auto simp: group_left_def)
  then show "\<forall>k < length ops. grp ops k = g \<longrightarrow> k \<notin> L" by blast
next
  assume "\<forall>k < length ops. grp ops k = g \<longrightarrow> k \<notin> L"
  then have "{k. k < length ops \<and> k \<notin> L \<and> grp ops k = g} = {k. k < length ops \<and> k \<notin> {} \<and> grp ops k = g}"
    by blast
  then show "group_left ops L g = group_left ops {} g" by (simp add: group_left_def)
qed

lemma opened_left:
  "opened ops L g \<longleftrightarrow> g \<noteq> 0 \<and> group_left ops L g \<noteq> 0 \<and> group_left ops L g \<noteq> group_left ops {} g"
  unfolding group_left_zero group_left_all opened_def by blast

lemma groups_inv_start: "groups_inv ops {} (0, 0)"
  by (simp add: groups_inv_def opened_left)

lemma groups_inv_cong:
  assumes "\<And>g. g \<noteq> 0 \<Longrightarrow> group_left ops L' g = group_left ops L g"
  shows "groups_inv ops L' x \<longleftrightarrow> groups_inv ops L x"
proof -
  have "opened ops L' g \<longleftrightarrow> opened ops L g" for g using assms [of g] by (auto simp: opened_left)
  then show ?thesis using assms [of "fst x"] by (simp add: groups_inv_def)
qed

lemma enter_inv:
  assumes I: "groups_inv ops L x" and r: "ready ops L i"
  shows "groups_inv ops (insert i L) (enter (group_sizes ops) (grp ops i) x)"
proof (cases "grp ops i = 0")
  case True
  then have "group_left ops (insert i L) g = group_left ops L g" if "g \<noteq> 0" for g
    using r that group_left_insert [of i ops L g] by (auto simp: ready_def)
  then have "groups_inv ops (insert i L) x \<longleftrightarrow> groups_inv ops L x" by (rule groups_inv_cong)
  with I True show ?thesis by (simp add: enter_def)
next
  case False
  let ?g = "grp ops i"
  have i: "i < length ops" "i \<notin> L" using r by (simp_all add: ready_def)
  have left: "(if fst x = 0 then (?g, group_sizes ops ?g) else x) = (?g, group_left ops L ?g)"
  proof (cases "fst x = 0")
    case True
    then have "\<not> opened ops L ?g" using I by (simp add: groups_inv_def)
    moreover have "group_left ops L ?g \<noteq> 0" unfolding group_left_zero using i by blast
    ultimately show ?thesis using True False by (simp add: opened_left group_sizes_left)
  next
    case c: False
    then have "opened ops L (fst x)" using I by (simp add: groups_inv_def)
    then have "fst x = ?g" using r by (auto simp: ready_def)
    then show ?thesis using c I by (cases x) (auto simp: groups_inv_def)
  qed
  have out: "opened ops (insert i L) g \<longleftrightarrow> g = ?g \<and> group_left ops (insert i L) ?g \<noteq> 0" for g
  proof (cases "g = ?g")
    case True
    have "group_left ops (insert i L) ?g \<noteq> group_left ops {} ?g" unfolding group_left_all using i by blast
    with True False show ?thesis by (simp add: opened_left)
  next
    case c: False
    have "\<not> opened ops L g" using r c by (auto simp: ready_def)
    then show ?thesis using c group_left_insert [OF i, of g] by (simp add: opened_left)
  qed
  have "enter (group_sizes ops) ?g x =
      (if group_left ops (insert i L) ?g = 0 then 0 else ?g, group_left ops (insert i L) ?g)"
    using False left group_left_insert [OF i, of ?g] by (simp add: enter_def)
  then show ?thesis using False out by (auto simp: groups_inv_def)
qed

lemma leave_inv:
  assumes I: "groups_inv ops (insert i L) x" and r: "ready ops L i"
  shows "groups_inv ops L (leave (group_sizes ops) (grp ops i) x)"
proof (cases "grp ops i = 0")
  case True
  then have "group_left ops (insert i L) g = group_left ops L g" if "g \<noteq> 0" for g
    using r that group_left_insert [of i ops L g] by (auto simp: ready_def)
  then have "groups_inv ops (insert i L) x \<longleftrightarrow> groups_inv ops L x" by (rule groups_inv_cong)
  with I True show ?thesis by (simp add: leave_def)
next
  case False
  let ?g = "grp ops i"
  have i: "i < length ops" "i \<notin> L" using r by (simp_all add: ready_def)
  have left: "(if fst x = 0 then (?g, 0) else x) = (?g, group_left ops (insert i L) ?g)"
  proof (cases "fst x = 0")
    case True
    then have "\<not> opened ops (insert i L) ?g" using I by (simp add: groups_inv_def)
    moreover have "group_left ops (insert i L) ?g \<noteq> group_left ops {} ?g"
      unfolding group_left_all using i by blast
    ultimately show ?thesis using True False by (simp add: opened_left)
  next
    case c: False
    then have o: "opened ops (insert i L) (fst x)" using I by (simp add: groups_inv_def)
    have "fst x = ?g"
    proof (rule ccontr)
      assume n: "fst x \<noteq> ?g"
      then have "opened ops L (fst x)" using o group_left_insert [OF i, of "fst x"] by (simp add: opened_left)
      with r n show False by (auto simp: ready_def)
    qed
    then show ?thesis using c I by (cases x) (auto simp: groups_inv_def)
  qed
  have out: "opened ops L g \<longleftrightarrow> g = ?g \<and> group_left ops L ?g \<noteq> group_left ops {} ?g" for g
  proof (cases "g = ?g")
    case True
    have "group_left ops L ?g \<noteq> 0" unfolding group_left_zero using i by blast
    with True False show ?thesis by (simp add: opened_left)
  qed (use r in \<open>auto simp: ready_def\<close>)
  have "leave (group_sizes ops) ?g x =
      (if group_left ops L ?g = group_left ops {} ?g then 0 else ?g, group_left ops L ?g)"
    using False left group_left_insert [OF i, of ?g] by (simp add: leave_def group_sizes_left)
  then show ?thesis using False out by (auto simp: groups_inv_def)
qed

subsection \<open>The entries still in the list\<close>

definition ev_op :: "('i, 'o) Op list \<Rightarrow> nat \<Rightarrow> nat" where
  "ev_op ops a = snd (snd (events ops ! (a - 1)))"

definition ev_call :: "('i, 'o) Op list \<Rightarrow> nat \<Rightarrow> bool" where
  "ev_call ops a = fst (snd (events ops ! (a - 1)))"

definition alive :: "('i, 'o) Op list \<Rightarrow> nat set \<Rightarrow> nat list" where
  "alive ops L = filter (\<lambda>a. ev_op ops a \<notin> L) [1..<Suc (length (events ops))]"

definition good_ops :: "('i, 'o) Op list \<Rightarrow> bool" where
  "good_ops ops \<longleftrightarrow> (\<forall>i < length ops. Call (ops ! i) \<le> Return (ops ! i))"

lemma ev_addr [simp]: "i < length ops \<Longrightarrow> ev_op ops (addr ops c i) = i"
  "i < length ops \<Longrightarrow> ev_call ops (addr ops c i) = c"
  using addr_range(3) [of i ops c] by (simp_all add: ev_op_def ev_call_def)

lemma addr_in_alive: "i < length ops \<Longrightarrow> addr ops c i \<in> set (alive ops L) \<longleftrightarrow> i \<notin> L"
  using addr_range(1,2) [of i ops c] by (auto simp: alive_def simp del: upt_Suc)

lemma alive_addr:
  assumes "a \<in> set (alive ops L)"
  shows "ev_op ops a < length ops" "ev_op ops a \<notin> L" "a = addr ops (ev_call ops a) (ev_op ops a)"
proof -
  from assms have "a \<in> set [1..<Suc (length (events ops))]" by (auto simp: alive_def)
  then obtain c i where i: "i < length ops" "a = addr ops c i" by (rule addr_cases)
  then show "ev_op ops a < length ops" "a = addr ops (ev_call ops a) (ev_op ops a)" by simp_all
  show "ev_op ops a \<notin> L" using assms by (simp add: alive_def)
qed

lemma alive_sorted: "sorted (alive ops L)" "distinct (0 # alive ops L)"
  unfolding alive_def by (rule sorted_wrt_filter) (auto simp del: upt_Suc)

lemma alive_empty: "alive ops {} = [1..<Suc (length (events ops))]"
  by (simp add: alive_def)

lemma alive_insert:
  assumes "i < length ops"
  shows "alive ops (insert i L) = filter (\<lambda>a. a \<noteq> addr ops True i \<and> a \<noteq> addr ops False i) (alive ops L)"
proof -
  have "ev_op ops a \<noteq> i \<longleftrightarrow> a \<noteq> addr ops True i \<and> a \<noteq> addr ops False i" if "a \<in> set (alive ops L)" for a
    using alive_addr [OF that] assms by (metis (full_types) ev_addr(1))
  then have "filter (\<lambda>a. a \<noteq> addr ops True i \<and> a \<noteq> addr ops False i) (alive ops L) =
      filter (\<lambda>a. ev_op ops a \<noteq> i) (alive ops L)" by (intro filter_cong) auto
  also have "\<dots> = alive ops (insert i L)" by (simp add: alive_def conj_commute)
  finally show ?thesis by simp
qed

lemma takeWhile_sorted:
  "sorted xs \<Longrightarrow> distinct xs \<Longrightarrow> a \<in> set (takeWhile P xs) \<longleftrightarrow> a \<in> set xs \<and> (\<forall>b \<in> set xs. b \<le> a \<longrightarrow> P b)"
  by (induction xs) (auto simp: order_le_less)

text \<open>The candidates at a configuration: the calls ahead of the first return.\<close>

definition cands :: "('i, 'o) Op list \<Rightarrow> nat set \<times> 's \<Rightarrow> nat list" where
  "cands ops c = map (ev_op ops) (takeWhile (ev_call ops) (alive ops (fst c)))"

lemma cands_iff: "i \<in> set (cands ops c) \<longleftrightarrow> i < length ops \<and> i \<notin> fst c \<and> timely ops (fst c) i"
proof -
  let ?L = "fst c"
  have call: "addr ops True i \<in> set (takeWhile (ev_call ops) (alive ops ?L)) \<longleftrightarrow> timely ops ?L i"
    if i: "i < length ops" "i \<notin> ?L"
  proof -
    have "(\<forall>b \<in> set (alive ops ?L). b \<le> addr ops True i \<longrightarrow> ev_call ops b) \<longleftrightarrow>
      (\<forall>k < length ops. k \<notin> ?L \<longrightarrow> \<not> addr ops False k < addr ops True i)" (is "?l \<longleftrightarrow> ?r")
    proof
      assume ?l
      then show ?r using addr_in_alive ev_addr(2) by (metis order_less_imp_le)
    next
      assume r: ?r
      show ?l
      proof (intro ballI impI)
        fix b assume b: "b \<in> set (alive ops ?L)" "b \<le> addr ops True i"
        show "ev_call ops b"
        proof (rule ccontr)
          assume "\<not> ev_call ops b"
          then have "b = addr ops False (ev_op ops b)" using alive_addr(3) [OF b(1)] by simp
          then have "b = addr ops True i" using r b alive_addr [OF b(1)] by (metis order_le_less)
          then show False using \<open>\<not> ev_call ops b\<close> i by simp
        qed
      qed
    qed
    then show ?thesis
      using takeWhile_sorted [OF alive_sorted(1), of ops ?L "addr ops True i"] alive_sorted(2) [of ops ?L]
        addr_in_alive [OF i(1), of True ?L] i ret_before_call [OF i(1)] by (auto simp: timely_def)
  qed
  show ?thesis
  proof
    assume "i \<in> set (cands ops c)"
    then obtain a where a: "a \<in> set (takeWhile (ev_call ops) (alive ops ?L))" "i = ev_op ops a"
      by (auto simp: cands_def)
    then have "a \<in> set (alive ops ?L)" "ev_call ops a" by (auto dest: set_takeWhileD)
    then show "i < length ops \<and> i \<notin> ?L \<and> timely ops ?L i" using a alive_addr [of a ops ?L] call by auto
  next
    assume "i < length ops \<and> i \<notin> ?L \<and> timely ops ?L i"
    then show "i \<in> set (cands ops c)" using call unfolding cands_def by (force simp: image_iff)
  qed
qed

subsection \<open>The configurations the search can reach\<close>

definition move :: "('s, 'i, 'o) Model \<Rightarrow> ('i, 'o) Op list \<Rightarrow> nat set \<times> 's \<Rightarrow> nat \<Rightarrow> (nat set \<times> 's) option" where
  "move m ops c i = (if allowed m ops (after_fn (after_of m ops)) (fst c) (snd c) i
     then Some (insert i (fst c), snd (apply_op m ops (snd c) i)) else None)"

definition goal :: "('i, 'o) Op list \<Rightarrow> nat set \<times> 's \<Rightarrow> bool" where
  "goal ops c \<longleftrightarrow> answered_in ops (fst c)"

lemma pruned_snoc:
  "pruned m ops after L s (p @ [i]) s' \<longleftrightarrow> (\<exists>s1. pruned m ops after L s p s1 \<and>
    allowed m ops after (L \<union> set p) s1 i \<and> s' = snd (apply_op m ops s1 i))"
  by (induction p arbitrary: L s) auto

lemma reach_pruned:
  "(move_to (cands ops) (move m ops))\<^sup>*\<^sup>* ({}, Init m) c \<longleftrightarrow>
    (\<exists>p. pruned m ops (after_fn (after_of m ops)) {} (Init m) p (snd c) \<and> set p = fst c)" (is "?l \<longleftrightarrow> ?r")
proof
  assume ?l
  then show ?r
  proof (induction rule: rtranclp_induct)
    case base
    show ?case by (intro exI [of _ "[]"]) simp
  next
    case (step c c')
    then obtain p i where "pruned m ops (after_fn (after_of m ops)) {} (Init m) p (snd c)" "set p = fst c"
      "allowed m ops (after_fn (after_of m ops)) (fst c) (snd c) i"
      "c' = (insert i (fst c), snd (apply_op m ops (snd c) i))"
      by (auto simp: move_to_def move_def split: if_splits)
    then show ?case by (intro exI [of _ "p @ [i]"]) (auto simp: pruned_snoc)
  qed
next
  assume ?r
  then obtain p where "pruned m ops (after_fn (after_of m ops)) {} (Init m) p (snd c)" "set p = fst c" by blast
  then show ?l
  proof (induction p arbitrary: c rule: rev_induct)
    case Nil
    then have "c = ({}, Init m)" by (cases c) auto
    then show ?case by simp
  next
    case (snoc i p)
    then obtain s1 where s1: "pruned m ops (after_fn (after_of m ops)) {} (Init m) p s1"
      "allowed m ops (after_fn (after_of m ops)) (set p) s1 i" "snd c = snd (apply_op m ops s1 i)"
      by (auto simp: pruned_snoc)
    then have "move_to (cands ops) (move m ops) (set p, s1) c"
      using snoc.prems(2) unfolding move_to_def
      by (intro bexI [of _ i]) (auto simp: move_def cands_iff allowed_def ready_def prod_eq_iff)
    then show ?case using snoc.IH [of "(set p, s1)"] s1(1) by (simp add: rtranclp.rtrancl_into_rtrancl)
  qed
qed

interpretation lin_dfs: memo_search "({}, Init m)" "cands ops" "move m ops" "goal ops"
  for m :: "('s, 'i, 'o) Model" and ops :: "('i, 'o) Op list"
proof
  let ?after = "after_fn (after_of m ops)"
  let ?P = "{p. set p \<subseteq> {..<length ops} \<and> distinct p}"
  have "finite ?P" using finite_subset_distinct [of "{..<length ops}"] by simp
  moreover have "{c. (move_to (cands ops) (move m ops))\<^sup>*\<^sup>* ({}, Init m) c} \<subseteq>
      (\<lambda>p. (set p, the (legal_run m ops (Init m) p))) ` ?P"
  proof
    fix c assume "c \<in> {c. (move_to (cands ops) (move m ops))\<^sup>*\<^sup>* ({}, Init m) c}"
    then obtain p where "explains m ops {} (Init m) p (snd c)" "set p = fst c"
      using reach_pruned pruned_explains by (metis mem_Collect_eq)
    then have "p \<in> ?P" "c = (set p, the (legal_run m ops (Init m) p))"
      using explains_distinct explains_legal by (fastforce simp: prod_eq_iff)+
    then show "c \<in> (\<lambda>p. (set p, the (legal_run m ops (Init m) p))) ` ?P" by blast
  qed
  ultimately show "finite {c. (move_to (cands ops) (move m ops))\<^sup>*\<^sup>* ({}, Init m) c}"
    by (meson finite_imageI finite_subset)
qed

end
