(* ===== verification/Lin_Check.thy ===== *)
theory Lin_Check
  imports Lin_Search
begin

text \<open>
  The search of \<^verbatim>\<open>CheckWithin\<close> is right. Its state - the linked list with the operations
  placed lifted out of it, the bitset, the cache, the stack - is related round by round to
  the memoized depth-first search of \<open>Lin_Memo\<close> over the configurations of \<open>Lin_Search\<close>;
  the pruning is justified by \<open>Lin_Spec\<close>. The search always returns, answers Ok only for a
  linearizable history and Illegal only for one that is not, and what it reports of an
  illegal history is as documented.
\<close>

subsection \<open>The correspondence\<close>

abbreviation after_op :: "('s, 'i, 'o) Model \<Rightarrow> ('i, 'o) Op list \<Rightarrow> nat \<Rightarrow> nat option" where
  "after_op m ops \<equiv> after_fn (after_of m ops)"

abbreviation dfs_inv :: "('s, 'i, 'o) Model \<Rightarrow> ('i, 'o) Op list \<Rightarrow> (nat set \<times> 's, nat) dfs \<Rightarrow> bool" where
  "dfs_inv m ops \<equiv> memo_search.invar ({}, Init m) (cands ops) (move m ops) (goal ops)"

definition list_sim :: "('i, 'o) Op list \<Rightarrow> nat set \<Rightarrow> nat list \<Rightarrow> nat list \<Rightarrow> bool" where
  "list_sim ops L rest todo \<longleftrightarrow> (\<exists>pre. alive ops L = pre @ rest \<and> (\<forall>a \<in> set pre. ev_call ops a)) \<and>
     todo = map (ev_op ops) (takeWhile (ev_call ops) rest)"

definition first_of :: "nat list \<Rightarrow> nat option" where
  "first_of xs = (case xs of [] \<Rightarrow> None | a # _ \<Rightarrow> Some a)"

fun frames_sim :: "('s, 'i, 'o) Model \<Rightarrow> ('i, 'o) Op list \<Rightarrow> (nat \<times> 's) list \<Rightarrow>
    ((nat set \<times> 's) \<times> nat list) list \<Rightarrow> nat set \<times> 's \<Rightarrow> bool" where
  "frames_sim m ops [] ds c \<longleftrightarrow> ds = [] \<and> c = ({}, Init m)"
| "frames_sim m ops (f # fs) [] c \<longleftrightarrow> False"
| "frames_sim m ops (f # fs) (d # ds) c \<longleftrightarrow>
     (\<exists>i rest. fst f = addr ops True i \<and> snd f = snd (fst d) \<and> move m ops (fst d) i = Some c \<and>
        list_sim ops (fst (fst d)) (addr ops True i # rest) (i # snd d)) \<and> frames_sim m ops fs ds (fst d)"

definition seen_sim :: "nat \<Rightarrow> 's cache \<Rightarrow> (nat set \<times> 's) set \<Rightarrow> bool" where
  "seen_sim n c S \<longleftrightarrow> cache_wf c \<and> (\<forall>x \<in> cached c. bitset_for n (fst x)) \<and>
     S = (\<lambda>x. (members (fst x), snd x)) ` cached c"

definition stuck_at :: "('i, 'o) Op list \<Rightarrow> nat set \<Rightarrow> int \<Rightarrow> bool" where
  "stuck_at ops L k \<longleftrightarrow> (\<exists>i. k = int i \<and> i < length ops \<and> i \<notin> L \<and> \<not> pending_op ops i \<and>
     (\<forall>j < length ops. j \<notin> L \<longrightarrow> Return (ops ! i) \<le> Return (ops ! j)))"

definition got_to :: "('s, 'i, 'o) Model \<Rightarrow> ('i, 'o) Op list \<Rightarrow> 's Result \<Rightarrow> bool" where
  "got_to m ops r \<longleftrightarrow> (\<exists>s. State r = Some s \<and> pruned m ops (after_op m ops) {} (Init m) (Longest r) s) \<and>
     stuck_at ops (set (Longest r)) (Stuck r)"

definition best_inv :: "('s, 'i, 'o) Model \<Rightarrow> ('i, 'o) Op list \<Rightarrow> (nat set \<times> 's) set \<Rightarrow> 's Result \<Rightarrow> int \<Rightarrow> bool" where
  "best_inv m ops D r depth \<longleftrightarrow> Outcome r = Illegal \<and> (\<forall>c \<in> D. int (card (fst c)) \<le> depth) \<and>
     (depth = -1 \<or> got_to m ops r \<and> int (length (Longest r)) = depth)"

definition search_inv :: "('s, 'i, 'o) Model \<Rightarrow> ('i, 'o) Op list \<Rightarrow> 's search \<Rightarrow> (nat set \<times> 's, nat) dfs \<Rightarrow> bool" where
  "search_inv m ops st d \<longleftrightarrow>
     bitset_for (length ops) (linearized st) \<and> d_cur d = (members (linearized st), state st) \<and>
     frames_sim m ops (stack st) (d_stack d) (d_cur d) \<and>
     links_of st = foldr lifted (map fst (stack st)) (linked ops) \<and>
     (\<exists>rest. list_sim ops (fst (d_cur d)) rest (d_todo d) \<and> cursor st = first_of rest) \<and>
     groups_inv ops (fst (d_cur d)) (groups st) \<and>
     seen_sim (length ops) (seen st) (d_seen d) \<and>
     best_inv m ops (d_done d) (best st) (bestDepth st)"

lemma search_invD:
  assumes "search_inv m ops st d"
  shows "bitset_for (length ops) (linearized st)" "d_cur d = (members (linearized st), state st)"
    "frames_sim m ops (stack st) (d_stack d) (members (linearized st), state st)"
    "links_of st = foldr lifted (map fst (stack st)) (linked ops)"
    "groups_inv ops (members (linearized st)) (groups st)"
    "seen_sim (length ops) (seen st) (d_seen d)" "best_inv m ops (d_done d) (best st) (bestDepth st)"
    "\<exists>rest. list_sim ops (members (linearized st)) rest (d_todo d) \<and> cursor st = first_of rest"
  using assms by (auto simp: search_inv_def)

subsection \<open>The linked list along the stack\<close>

lemma foldr_lifted_static [simp]: "ent (foldr lifted es l) = ent l" "mtch (foldr lifted es l) = mtch l"
  by (induction es) simp_all

lemma move_cases:
  assumes "move m ops c i = Some c'"
  shows "i < length ops" "i \<notin> fst c" "fst c' = insert i (fst c)" "ready ops (fst c) i"
    "allowed m ops (after_op m ops) (fst c) (snd c) i" "snd c' = snd (apply_op m ops (snd c) i)"
  using assms by (auto simp: move_def allowed_def ready_def split: if_splits)

lemma lift_alive:
  assumes "good_ops ops" "i < length ops" "i \<notin> L" "dll (foldr lifted es (linked ops)) 0 (alive ops L)"
  shows "dll (lifted (addr ops True i) (foldr lifted es (linked ops))) 0 (alive ops (insert i L))"
    "unlift (addr ops True i) (lifted (addr ops True i) (foldr lifted es (linked ops))) = Some (foldr lifted es (linked ops))"
    "lift (addr ops True i) (foldr lifted es (linked ops)) = Some (lifted (addr ops True i) (foldr lifted es (linked ops)))"
proof -
  have "mtch (foldr lifted es (linked ops)) (addr ops True i) = Some (addr ops False i)"
    using assms(1,2) mtch_link [OF assms(2)] by (simp add: good_ops_def)
  then show "dll (lifted (addr ops True i) (foldr lifted es (linked ops))) 0 (alive ops (insert i L))"
    "unlift (addr ops True i) (lifted (addr ops True i) (foldr lifted es (linked ops))) = Some (foldr lifted es (linked ops))"
    "lift (addr ops True i) (foldr lifted es (linked ops)) = Some (lifted (addr ops True i) (foldr lifted es (linked ops)))"
    using dll_lifted [OF assms(4) alive_sorted(2), of "addr ops True i" "addr ops False i"] assms(2,3)
      addr_in_alive [OF assms(2)] addr_inject [OF assms(2,2)] alive_insert [OF assms(2)] by auto
qed

lemma frames_heap:
  assumes "good_ops ops"
  shows "frames_sim m ops fs ds c \<Longrightarrow> dll (foldr lifted (map fst fs) (linked ops)) 0 (alive ops (fst c))"
proof (induction fs arbitrary: ds c)
  case Nil
  then show ?case using dll_link [of ops] by (simp add: alive_empty)
next
  case (Cons f fs)
  then obtain d ds' i where d: "ds = d # ds'" "fst f = addr ops True i" "move m ops (fst d) i = Some c"
    "frames_sim m ops fs ds' (fst d)" by (cases ds) auto
  note mv = move_cases [OF d(3)]
  show ?case using lift_alive(1) [OF assms mv(1,2) Cons.IH [OF d(4)]] d(2) mv(3) by simp
qed

lemma frames_path:
  "frames_sim m ops fs ds c \<Longrightarrow>
    pruned m ops (after_op m ops) {} (Init m) (map (\<lambda>f. ev_op ops (fst f)) (rev fs)) (snd c) \<and>
    set (map (\<lambda>f. ev_op ops (fst f)) (rev fs)) = fst c"
proof (induction fs arbitrary: ds c)
  case (Cons f fs)
  then obtain d ds' i where d: "ds = d # ds'" "fst f = addr ops True i" "move m ops (fst d) i = Some c"
    "frames_sim m ops fs ds' (fst d)" by (cases ds) auto
  note mv = move_cases [OF d(3)] and IH = Cons.IH [OF d(4)]
  show ?case using IH mv d(2) by (simp add: pruned_snoc) blast
qed simp

lemma frames_depth: "frames_sim m ops fs ds c \<Longrightarrow> card (fst c) = length fs"
proof -
  assume f: "frames_sim m ops fs ds c"
  let ?p = "map (\<lambda>f. ev_op ops (fst f)) (rev fs)"
  have "distinct ?p"
    using explains_distinct [OF pruned_explains [OF conjunct1 [OF frames_path [OF f]]]] by (rule conjunct1)
  then have "card (set ?p) = length fs" using distinct_card [of ?p] by simp
  then show ?thesis using frames_path [OF f] by simp
qed

lemma op_at_addr:
  assumes "a \<in> set (alive ops L)"
  shows "op_at (foldr lifted es (linked ops)) a = ev_op ops a" "snd (ent (foldr lifted es (linked ops)) ! a) = ev_call ops a"
proof -
  note A = alive_addr [OF assms]
  have "ent (linked ops) ! a = (int (ev_op ops a), ev_call ops a)"
    using ent_link [OF A(1), of "ev_call ops a"] A(3) by simp
  then show "op_at (foldr lifted es (linked ops)) a = ev_op ops a"
    "snd (ent (foldr lifted es (linked ops)) ! a) = ev_call ops a" by (simp_all add: op_at_def)
qed

lemma first_of_dll: "dll l p as \<Longrightarrow> nxt l p = first_of as"
  by (cases as) (auto simp: first_of_def)

lemma first_of_Some: "Some e = first_of xs \<longleftrightarrow> (\<exists>rest. xs = e # rest)"
  by (cases xs) (auto simp: first_of_def)

lemma next_of_dll:
  assumes "dll l 0 as" "distinct (0 # as)" "as = pre @ a # rest"
  shows "nxt l a = first_of rest"
  using dll_mid(3) [of l 0 pre a rest] assms first_of_dll by auto

subsection \<open>One round\<close>

lemma list_sim_pass:
  "list_sim ops L (a # rest) todo \<Longrightarrow> ev_call ops a \<Longrightarrow> todo = ev_op ops a # tl todo \<and> list_sim ops L rest (tl todo)"
proof -
  assume s: "list_sim ops L (a # rest) todo" and c: "ev_call ops a"
  then obtain pre where "alive ops L = pre @ a # rest" "\<forall>a \<in> set pre. ev_call ops a"
    "todo = ev_op ops a # map (ev_op ops) (takeWhile (ev_call ops) rest)" by (auto simp: list_sim_def)
  with c show ?thesis unfolding list_sim_def by (auto intro!: exI [of _ "pre @ [a]"])
qed

lemma list_sim_alive: "list_sim ops L rest todo \<Longrightarrow> set rest \<subseteq> set (alive ops L)"
  by (auto simp: list_sim_def)

text \<open>A call in the list has its return in it, further on.\<close>

lemma rest_not_empty:
  assumes "good_ops ops" "list_sim ops L rest todo" "alive ops L \<noteq> []"
  shows "rest \<noteq> []"
proof
  assume "rest = []"
  with assms(2) have calls: "\<forall>a \<in> set (alive ops L). ev_call ops a" by (auto simp: list_sim_def)
  obtain a where "a \<in> set (alive ops L)" using assms(3) by (cases "alive ops L") auto
  note A = alive_addr [OF this]
  have "addr ops False (ev_op ops a) \<in> set (alive ops L)" using addr_in_alive A by blast
  with calls A(1) show False by (metis ev_addr(2))
qed

lemma search_inv_pass:
  assumes g: "good_ops ops" and I: "search_inv m ops st d" and e: "cursor st = Some e" "ev_call ops e"
  shows "search_inv m ops (pass e st) (dfs_skip d)" "d_todo d = ev_op ops e # tl (d_todo d)"
    "e \<in> set (alive ops (members (linearized st)))"
proof -
  note D = search_invD [OF I]
  obtain rest where rest: "list_sim ops (members (linearized st)) (e # rest) (d_todo d)"
    using D(8) e(1) by (auto simp: first_of_Some)
  note P = list_sim_pass [OF rest e(2)]
  then show "d_todo d = ev_op ops e # tl (d_todo d)" by blast
  obtain pre where pre: "alive ops (members (linearized st)) = pre @ e # rest"
    using rest by (auto simp: list_sim_def)
  then show "e \<in> set (alive ops (members (linearized st)))" by simp
  have "nxt (links_of st) e = first_of rest"
    using next_of_dll [OF _ alive_sorted(2) pre] frames_heap [OF g D(3)] D(4) by simp
  then show "search_inv m ops (pass e st) (dfs_skip d)"
    using D P unfolding search_inv_def by (auto simp: pass_def)
qed

lemma seen_sim_add:
  assumes s: "seen_sim n c S" and b: "bitset_for n b"
  shows "fst (cache_add c b x) \<longleftrightarrow> (members b, x) \<notin> S"
    "seen_sim n (snd (cache_add c b x)) (insert (members b, x) S)"
    "\<not> fst (cache_add c b x) \<Longrightarrow> snd (cache_add c b x) = c"
proof -
  have wf: "cache_wf c" using s by (simp add: seen_sim_def)
  have "(members b, x) \<in> S \<longleftrightarrow> (b, x) \<in> cached c"
  proof
    assume "(members b, x) \<in> S"
    then obtain y where "y \<in> cached c" "members (fst y) = members b" "snd y = x" "bitset_for n (fst y)"
      using s by (auto simp: seen_sim_def)
    moreover from this have "fst y = b" using bitset_rep.canonical b by blast
    ultimately show "(b, x) \<in> cached c" by (metis prod.collapse)
  next
    assume "(b, x) \<in> cached c"
    then have "(members (fst (b, x)), snd (b, x)) \<in> S" using s unfolding seen_sim_def by blast
    then show "(members b, x) \<in> S" by simp
  qed
  then show "fst (cache_add c b x) \<longleftrightarrow> (members b, x) \<notin> S"
    using config_cache.visit_new [OF wf, of "(b, x)"] by simp
  show "seen_sim n (snd (cache_add c b x)) (insert (members b, x) S)"
    using config_cache.visit_elems [OF wf, of "(b, x)"] s b by (simp add: seen_sim_def)
  show "\<not> fst (cache_add c b x) \<Longrightarrow> snd (cache_add c b x) = c"
    by (auto simp: cache_add_def Let_def split: if_splits)
qed

lemma after_test:
  assumes b: "bitset_for (length ops) b" and i: "i < length ops"
  shows "(0 \<le> after_of m ops ! i \<and> \<not> bs_has b (nat (after_of m ops ! i))) \<longleftrightarrow>
    \<not> (\<forall>j. after_op m ops i = Some j \<longrightarrow> j \<in> members b)"
  using i after_of_range [OF i] bitset_rep.contains_abs [OF b] by (auto simp: after_fn_def)

lemma groups_test:
  assumes "groups_inv ops L x"
  shows "(fst x \<noteq> 0 \<and> grp ops i \<noteq> fst x) \<longleftrightarrow> \<not> (\<forall>g. opened ops L g \<longrightarrow> grp ops i = g)"
  using assms by (auto simp: groups_inv_def)

text \<open>
  At a call the code descends when the operation may be placed next and where it leads
  has not been seen, and passes it over otherwise.
\<close>

lemma visit_call_cases:
  assumes I: "search_inv m ops st d" and i: "i < length ops" "i \<notin> members (linearized st)"
    "timely ops (members (linearized st)) i" and l: "lift e (links_of st) = Some (lifted e (links_of st))"
  shows "visit_call m ops (after_of m ops) (group_sizes ops) e i st =
    Inr (case move m ops (d_cur d) i of
       Some c \<Rightarrow> if c \<in> d_seen d then pass e st
         else let l = lifted e (links_of st) in
           st\<lparr>linearized := bs_set (linearized st) i,
              seen := snd (cache_add (seen st) (bs_set (linearized st) i) (snd c)),
              stack := (e, state st) # stack st, groups := enter (group_sizes ops) (grp ops i) (groups st),
              state := snd c, links_of := l, cursor := nxt l 0\<rparr>
     | None \<Rightarrow> pass e st)"
proof -
  note D = search_invD [OF I]
  let ?L = "members (linearized st)" and ?lin = "bs_set (linearized st) i"
  obtain ok nx where st: "apply_op m ops (state st) i = (ok, nx)" by (cases "apply_op m ops (state st) i")
  have set: "bitset_for (length ops) ?lin" "members ?lin = insert i ?L"
    using bitset_rep.add_abs [OF D(1) i(1)] by simp_all
  have clear: "bs_clear ?lin i = linearized st" using bitset_rep.remove_add [OF D(1) i(1,2)] .
  note S = seen_sim_add [OF D(6) set(1), of nx]
  have mv: "move m ops (d_cur d) i = (if \<not> (fst (groups st) \<noteq> 0 \<and> grp ops i \<noteq> fst (groups st)) \<and>
      \<not> (0 \<le> after_of m ops ! i \<and> \<not> bs_has (linearized st) (nat (after_of m ops ! i))) \<and> ok \<and>
      \<not> (pending_op ops i \<and> nx = state st) then Some (insert i ?L, nx) else None)"
    unfolding groups_test [OF D(5)] after_test [OF D(1) i(1)] using i st
    by (auto simp: move_def allowed_def ready_def D(2))
  have same: "pass e (st\<lparr>linearized := bs_clear ?lin i, seen := snd (cache_add (seen st) ?lin nx)\<rparr>) = pass e st"
    if "\<not> fst (cache_add (seen st) ?lin nx)" using S(3) [OF that] clear by simp
  show ?thesis
  proof (cases "move m ops (d_cur d) i")
    case None
    then show ?thesis using st unfolding mv visit_call_def by (auto simp: Let_def split: if_splits)
  next
    case (Some c)
    then have c: "c = (insert i ?L, nx)" and g: "\<not> (fst (groups st) \<noteq> 0 \<and> grp ops i \<noteq> fst (groups st))"
      "\<not> (0 \<le> after_of m ops ! i \<and> \<not> bs_has (linearized st) (nat (after_of m ops ! i)))"
      "ok" "\<not> (pending_op ops i \<and> nx = state st)" unfolding mv by (auto split: if_splits)
    have "c \<in> d_seen d \<longleftrightarrow> \<not> fst (cache_add (seen st) ?lin nx)" using S(1) c set(2) by simp
    then show ?thesis using g st same unfolding visit_call_def Some
      by (auto simp: Let_def c l split: prod.splits)
  qed
qed

lemma visit_call_step:
  assumes g: "good_ops ops" and I: "search_inv m ops st d" and e: "cursor st = Some e" "ev_call ops e"
  shows "\<exists>d'. dfs_step (cands ops) (move m ops) (goal ops) d d' \<and>
    (\<exists>st'. visit_call m ops (after_of m ops) (group_sizes ops) e (ev_op ops e) st = Inr st' \<and> search_inv m ops st' d')"
proof -
  note D = search_invD [OF I] and P = search_inv_pass [OF g I e]
  let ?L = "members (linearized st)" and ?i = "ev_op ops e"
  obtain rest where rest: "list_sim ops ?L (e # rest) (d_todo d)" using D(8) e(1) by (auto simp: first_of_Some)
  have "e \<in> set (takeWhile (ev_call ops) (alive ops ?L))" using rest e(2) by (auto simp: list_sim_def)
  then have "?i \<in> set (cands ops (d_cur d))" by (simp add: cands_def D(2))
  then have i: "?i < length ops" "?i \<notin> ?L" "timely ops ?L ?i" by (simp_all add: cands_iff D(2))
  have addr: "e = addr ops True ?i" using alive_addr(3) [OF P(3)] e(2) by simp
  have l: "lift e (links_of st) = Some (lifted e (links_of st))"
    using lift_alive(3) [OF g i(1,2) frames_heap [OF g D(3), simplified]] D(4) addr by simp
  show ?thesis
  proof (cases "\<exists>c. move m ops (d_cur d) ?i = Some c \<and> c \<notin> d_seen d")
    case False
    then have "dfs_step (cands ops) (move m ops) (goal ops) d (dfs_skip d)"
      using P(2) by (intro dfs_step.skip) auto
    moreover have "visit_call m ops (after_of m ops) (group_sizes ops) e ?i st = Inr (pass e st)"
      using False unfolding visit_call_cases [OF I i l] by (auto split: option.splits)
    ultimately show ?thesis using P(1) by auto
  next
    case True
    then obtain c where c: "move m ops (d_cur d) ?i = Some c" "c \<notin> d_seen d" by blast
    note mv = move_cases [OF c(1), unfolded D(2)]
    let ?lin = "bs_set (linearized st) ?i" and ?l = "lifted e (links_of st)"
    let ?st = "st\<lparr>linearized := ?lin, seen := snd (cache_add (seen st) ?lin (snd c)), stack := (e, state st) # stack st,
      groups := enter (group_sizes ops) (grp ops ?i) (groups st), state := snd c, links_of := ?l, cursor := nxt ?l 0\<rparr>"
    have v: "visit_call m ops (after_of m ops) (group_sizes ops) e ?i st = Inr ?st" using c unfolding visit_call_cases [OF I i l] by (simp add: Let_def)
    have st: "linearized ?st = ?lin" "seen ?st = snd (cache_add (seen st) ?lin (snd c))"
      "stack ?st = (e, state st) # stack st" "groups ?st = enter (group_sizes ops) (grp ops ?i) (groups st)"
      "state ?st = snd c" "links_of ?st = lifted e (links_of st)" "cursor ?st = nxt (lifted e (links_of st)) 0"
      "best ?st = best st" "bestDepth ?st = bestDepth st"
      by simp_all
    have set: "bitset_for (length ops) ?lin" "members ?lin = fst c"
      using bitset_rep.add_abs [OF D(1) i(1)] mv(3) by simp_all
    have heap: "dll (links_of ?st) 0 (alive ops (fst c))"
      using lift_alive(1) [OF g i(1,2) frames_heap [OF g D(3), simplified]] mv(3) st(6) D(4) addr by simp
    have "frames_sim m ops (stack ?st) ((d_cur d, tl (d_todo d)) # d_stack d) c"
      using D(2,3) c(1) rest P(2) addr by (auto simp: st(3)) metis
    moreover have "groups_inv ops (fst c) (groups ?st)" using enter_inv [OF D(5)] mv(3,4) by (simp add: st(4))
    moreover have "seen_sim (length ops) (seen ?st) (insert c (d_seen d))"
      using seen_sim_add(2) [OF D(6) set(1), of "snd c"] set(2) st(2) by simp
    moreover have "list_sim ops (fst c) (alive ops (fst c)) (cands ops c)"
      by (auto simp: list_sim_def cands_def)
    moreover have "cursor ?st = first_of (alive ops (fst c))"
      using first_of_dll [OF heap] st(6,7) by simp
    moreover have "links_of ?st = foldr lifted (map fst (stack ?st)) (linked ops)" using D(4) st(3,6) by simp
    ultimately have "search_inv m ops ?st (dfs_enter (cands ops) d c)"
      using set D(7) st unfolding search_inv_def by auto
    moreover have "dfs_step (cands ops) (move m ops) (goal ops) d (dfs_enter (cands ops) d c)"
      using c P(2) by (intro dfs_step.enter)
    ultimately show ?thesis using v by blast
  qed
qed

text \<open>
  The first return in the list is the earliest of the operations not placed: when it is
  pending, every operation left is.
\<close>

lemma first_return:
  assumes "list_sim ops L (e # rest) todo" "\<not> ev_call ops e"
  shows "todo = []" "ev_op ops e < length ops" "ev_op ops e \<notin> L"
    "\<And>k. k < length ops \<Longrightarrow> k \<notin> L \<Longrightarrow> Return (ops ! ev_op ops e) \<le> Return (ops ! k)"
proof -
  show "todo = []" using assms by (simp add: list_sim_def)
  obtain pre where pre: "alive ops L = pre @ e # rest" "\<forall>a \<in> set pre. ev_call ops a"
    using assms(1) by (auto simp: list_sim_def)
  then have "e \<in> set (alive ops L)" by simp
  note A = alive_addr [OF this]
  show i: "ev_op ops e < length ops" "ev_op ops e \<notin> L" using A by blast+
  fix k assume k: "k < length ops" "k \<notin> L"
  then have "addr ops False k \<in> set (pre @ e # rest)" using addr_in_alive pre(1) by metis
  moreover have "addr ops False k \<notin> set pre" using pre(2) k ev_addr(2) by blast
  moreover have "sorted (e # rest)" using alive_sorted(1) [of ops L] pre(1) by (simp add: sorted_append)
  ultimately have "e \<le> addr ops False k" by auto
  then show "Return (ops ! ev_op ops e) \<le> Return (ops ! k)"
    using ret_order [OF i(1) k(1)] A(3) assms(2) by simp
qed

lemma pending_return_goal:
  assumes "int64_times ops" "list_sim ops L (e # rest) todo" "\<not> ev_call ops e"
  shows "pending_op ops (ev_op ops e) \<longleftrightarrow> answered_in ops L"
  unfolding answered_in_def
proof (intro iffI allI impI)
  fix k assume "pending_op ops (ev_op ops e)" "k < length ops" "\<not> pending_op ops k"
  then show "k \<in> L"
    using first_return(4) [OF assms(2,3), of k] int64_times_bounds [OF assms(1), of k] by fastforce
qed (use first_return(2,3) [OF assms(2,3)] in blast)

lemma frames_ops:
  "frames_sim m ops fs ds c \<Longrightarrow>
    map (\<lambda>f. op_at (foldr lifted es (linked ops)) (fst f)) fs = map (\<lambda>f. ev_op ops (fst f)) fs"
proof (induction fs arbitrary: ds c)
  case (Cons f fs)
  then obtain d' ds' j where j: "ds = d' # ds'" "fst f = addr ops True j" "move m ops (fst d') j = Some c"
    "frames_sim m ops fs ds' (fst d')" by (cases ds) auto
  have "addr ops True j \<in> set (alive ops {})" using addr_in_alive [OF move_cases(1) [OF j(3)]] by blast
  then have "op_at (foldr lifted es (linked ops)) (fst f) = ev_op ops (fst f)" using op_at_addr(1) j(2) by metis
  then show ?case using Cons.IH [OF j(4)] by simp
qed simp

lemma remember_inv:
  assumes I: "search_inv m ops st d" and "stuck_at ops (members (linearized st)) (int i)"
  shows "best_inv m ops (insert (d_cur d) (d_done d)) (best (remember i st)) (bestDepth (remember i st))"
    "bestDepth (remember i st) \<noteq> -1"
proof -
  note D = search_invD [OF I]
  have depth: "card (fst (d_cur d)) = length (stack st)" using frames_depth [OF D(3)] D(2) by simp
  define p where "p = map (\<lambda>f. op_at (links_of st) (fst f)) (rev (stack st))"
  have "p = map (\<lambda>f. ev_op ops (fst f)) (rev (stack st))"
    unfolding p_def rev_map [symmetric] D(4) frames_ops [OF D(3)] ..
  then have p: "pruned m ops (after_op m ops) {} (Init m) p (state st)" "set p = members (linearized st)"
    "length p = length (stack st)" using frames_path [OF D(3)] by simp_all
  show "best_inv m ops (insert (d_cur d) (d_done d)) (best (remember i st)) (bestDepth (remember i st))"
    using D(7) depth p assms(2) unfolding remember_def p_def [symmetric] best_inv_def
    by (auto simp: got_to_def)
  show "bestDepth (remember i st) \<noteq> -1" using D(7) by (auto simp: remember_def best_inv_def)
qed

lemma back_up_inv:
  assumes g: "good_ops ops" and I: "search_inv m ops st d" and f: "stack st = f # fs"
    and b: "best_inv m ops (insert (d_cur d) (d_done d)) (best st') (bestDepth st')"
    and same: "stack st' = stack st" "links_of st' = links_of st" "linearized st' = linearized st"
      "groups st' = groups st" "seen st' = seen st"
  shows "\<exists>st2. back_up ops (group_sizes ops) f st' = Inr st2 \<and> search_inv m ops st2 (dfs_leave d)" "\<exists>x xs. d_stack d = x # xs"
proof -
  note D = search_invD [OF I]
  obtain d0 ds i rest where fr: "d_stack d = d0 # ds" "fst f = addr ops True i" "snd f = snd (fst d0)"
    "move m ops (fst d0) i = Some (d_cur d)" "list_sim ops (fst (fst d0)) (addr ops True i # rest) (i # snd d0)"
    "frames_sim m ops fs ds (fst d0)"
    using D(2,3) f by (cases "d_stack d") auto
  then show "\<exists>x xs. d_stack d = x # xs" by blast
  note mv = move_cases [OF fr(4)]
  let ?h = "foldr lifted (map fst fs) (linked ops)"
  have h: "dll ?h 0 (alive ops (fst (fst d0)))" using frames_heap [OF g fr(6)] by simp
  have "addr ops True i \<in> set (alive ops (fst (fst d0)))" using list_sim_alive [OF fr(5)] by simp
  note at = op_at_addr(1) [OF this, of "map fst (stack st)"]
  have op: "op_at (links_of st') (fst f) = i" using at same(2) D(4) fr(2) mv(1) by simp
  let ?st = "st'\<lparr>stack := tl (stack st'), state := snd f, linearized := bs_clear (linearized st') i,
    groups := leave (group_sizes ops) (grp ops i) (groups st'), links_of := ?h, cursor := nxt ?h (fst f)\<rparr>"
  have un: "unlift (fst f) (links_of st') = Some ?h"
    using lift_alive(2) [OF g mv(1,2) h] D(4) f fr(2) same(2) by simp
  have st: "stack ?st = fs" "state ?st = snd (fst d0)" "linearized ?st = bs_clear (linearized st) i"
    "groups ?st = leave (group_sizes ops) (grp ops i) (groups st)" "links_of ?st = ?h"
    "cursor ?st = nxt ?h (addr ops True i)" "seen ?st = seen st" "best ?st = best st'" "bestDepth ?st = bestDepth st'"
    using f fr(2,3) same by simp_all
  have v: "back_up ops (group_sizes ops) f st' = Inr ?st" using un op by (simp add: back_up_def Let_def)
  have lin: "bitset_for (length ops) (linearized ?st)" "members (linearized ?st) = fst (fst d0)"
    using bitset_rep.remove_abs [OF D(1) mv(1)] mv(2,3) D(2) st(3) by auto
  obtain pre where pre: "alive ops (fst (fst d0)) = pre @ addr ops True i # rest"
    using fr(5) by (auto simp: list_sim_def)
  have "cursor ?st = first_of rest" using next_of_dll [OF h alive_sorted(2) pre] st(6) by simp
  moreover have "list_sim ops (fst (fst d0)) rest (snd d0)"
    using list_sim_pass [OF fr(5)] mv(1) by simp
  moreover have "groups_inv ops (fst (fst d0)) (groups ?st)"
    using leave_inv [of ops i "fst (fst d0)"] D(2,5) mv(3,4) st(4) by simp
  ultimately have "search_inv m ops ?st (dfs_leave d)"
    using lin st(1-3,5) st(7-9) fr(1,6) D(6) b unfolding search_inv_def
    by (auto intro: prod_eqI)
  then show "\<exists>st2. back_up ops (group_sizes ops) f st' = Inr st2 \<and> search_inv m ops st2 (dfs_leave d)" using v by blast
qed

definition verdict_ok :: "ctx \<Rightarrow> ('s, 'i, 'o) Model \<Rightarrow> ('i, 'o) Op list \<Rightarrow> Limits \<Rightarrow> 's verdict \<Rightarrow> bool" where
  "verdict_ok ctx m ops lims v \<longleftrightarrow> (\<exists>r err. v = Returns r err \<and>
     (case Outcome r of
        Ok \<Rightarrow> err = None \<and> (\<exists>p s. pruned m ops (after_op m ops) {} (Init m) p s \<and> answered_in ops (set p))
      | Illegal \<Rightarrow> err = None \<and> got_to m ops r \<and>
          (\<forall>p s. pruned m ops (after_op m ops) {} (Init m) p s \<longrightarrow>
             \<not> answered_in ops (set p) \<and> length p \<le> length (Longest r))
      | Unknown \<Rightarrow> (err = Some ErrLimit \<and> 0 < Configurations lims \<and> Configurations lims < int (Explored r)) \<or>
          (\<exists>n e. 0 < n \<and> ctx (4096 * n) = Some e \<and> err = Some (CtxErr e))))"

lemma found_verdict:
  assumes "dfs_inv m ops d" "d_todo d = []" "goal ops (d_cur d)"
  shows "verdict_ok ctx m ops lims (Returns (result_of Ok n) None)"
proof -
  obtain p where "pruned m ops (after_op m ops) {} (Init m) p (snd (d_cur d))" "set p = fst (d_cur d)"
    using lin_dfs.found_reachable [OF assms(1)] assms(2,3) unfolding dfs_found_def reach_pruned by blast
  then show ?thesis using assms(3) by (auto simp: verdict_ok_def result_of_def goal_def)
qed

lemma failed_verdict:
  assumes "dfs_inv m ops d" "d_todo d = []" "\<not> goal ops (d_cur d)" "d_stack d = []"
    and "best_inv m ops (insert (d_cur d) (d_done d)) r depth" "depth \<noteq> -1"
  shows "verdict_ok ctx m ops lims (Returns (r\<lparr>Explored := n\<rparr>) None)"
proof -
  have "\<not> answered_in ops (set p) \<and> length p \<le> length (Longest r)"
    if p: "pruned m ops (after_op m ops) {} (Init m) p s" for p s
  proof -
    have "(move_to (cands ops) (move m ops))\<^sup>*\<^sup>* ({}, Init m) (set p, s)" unfolding reach_pruned using p by auto
    then have "\<not> goal ops (set p, s)" "(set p, s) \<in> insert (d_cur d) (d_done d)"
      using lin_dfs.failed_exhausted [OF assms(1)] assms(2-4) unfolding dfs_failed_def by blast+
    moreover have "card (set p) = length p"
      using explains_distinct [OF pruned_explains [OF p]] distinct_card by blast
    moreover have "int (card (fst (set p, s))) \<le> depth" "int (length (Longest r)) = depth"
      using assms(5,6) calculation(2) unfolding best_inv_def by blast+
    ultimately show ?thesis by (simp add: goal_def)
  qed
  then show ?thesis using assms(5,6) by (auto simp: verdict_ok_def best_inv_def got_to_def)
qed

lemma unknown_verdicts:
  "n mod 4096 = 0 \<Longrightarrow> 0 < n \<Longrightarrow> ctx n = Some e \<Longrightarrow> verdict_ok ctx m ops lims (Returns (result_of Unknown k) (Some (CtxErr e)))"
  "0 < Configurations lims \<Longrightarrow> Configurations lims < int k \<Longrightarrow>
    verdict_ok ctx m ops lims (Returns (result_of Unknown k) (Some ErrLimit))"
proof -
  assume "n mod 4096 = 0" "0 < n" "ctx n = Some e"
  moreover then have "n = 4096 * (n div 4096)" "0 < n div 4096" by auto
  ultimately show "verdict_ok ctx m ops lims (Returns (result_of Unknown k) (Some (CtxErr e)))"
    unfolding verdict_ok_def result_of_def by (auto intro!: exI [of _ "n div 4096"])
qed (simp add: verdict_ok_def result_of_def)

lemma visit_return_step:
  assumes g: "good_ops ops" "int64_times ops" and I: "search_inv m ops st d" and J: "dfs_inv m ops d"
    and e: "list_sim ops (members (linearized st)) (e # rest) (d_todo d)" "\<not> ev_call ops e"
  shows "case visit_return ops (group_sizes ops) (ev_op ops e) st of
      Inl v \<Rightarrow> verdict_ok ctx m ops lims v
    | Inr st' \<Rightarrow> \<exists>d'. dfs_step (cands ops) (move m ops) (goal ops) d d' \<and> search_inv m ops st' d'"
proof -
  note D = search_invD [OF I] and F = first_return [OF e]
  let ?st = "remember (ev_op ops e) st"
  have goal: "goal ops (d_cur d) \<longleftrightarrow> pending_op ops (ev_op ops e)"
    using pending_return_goal [OF g(2) e] by (simp add: goal_def D(2))
  show ?thesis
  proof (cases "goal ops (d_cur d)")
    case True
    then show ?thesis using found_verdict [OF J F(1)] goal by (simp add: visit_return_def)
  next
    case False
    then have "stuck_at ops (members (linearized st)) (int (ev_op ops e))"
      using F goal by (auto simp: stuck_at_def)
    note R = remember_inv [OF I this]
    have same: "stack ?st = stack st" "links_of ?st = links_of st" "linearized ?st = linearized st"
      "groups ?st = groups st" "seen ?st = seen st" by (simp_all add: remember_def)
    show ?thesis
    proof (cases "stack st")
      case Nil
      then have "d_stack d = []" using D(3) by simp
      then have "verdict_ok ctx m ops lims (Returns ((best ?st)\<lparr>Explored := csize (seen st)\<rparr>) None)"
        using failed_verdict [OF J F(1) False _ R] by blast
      then show ?thesis using Nil False goal same by (simp add: visit_return_def Let_def)
    next
      case (Cons f fs)
      note B = back_up_inv [OF g(1) I Cons R(1) same]
      then obtain x xs where "d_stack d = x # xs" by blast
      then have "dfs_step (cands ops) (move m ops) (goal ops) d (dfs_leave d)"
        using F(1) False by (intro dfs_step.leave)
      then show ?thesis using B(1) Cons False goal same by (auto simp: visit_return_def Let_def)
    qed
  qed
qed

lemma search_step_sim:
  assumes g: "good_ops ops" "int64_times ops" and I: "search_inv m ops st d" and J: "dfs_inv m ops d"
  shows "case search_step ctx m ops lims (after_of m ops) (group_sizes ops) st of
      Inl v \<Rightarrow> verdict_ok ctx m ops lims v
    | Inr st' \<Rightarrow> \<exists>d'. dfs_step (cands ops) (move m ops) (goal ops) d d' \<and> search_inv m ops st' d'"
proof -
  note D = search_invD [OF I]
  let ?L = "members (linearized st)" and ?st = "st\<lparr>steps := steps st + 1\<rparr>"
  have I': "search_inv m ops ?st d" using I unfolding search_inv_def by auto
  note heap = frames_heap [OF g(1) D(3), folded D(4), simplified]
  obtain rest where rest: "list_sim ops ?L rest (d_todo d)" "cursor st = first_of rest" using D(8) by blast
  show ?thesis
  proof (cases "alive ops ?L = []")
    case True
    then have "d_todo d = []" using rest by (auto simp: list_sim_def)
    moreover have "goal ops (d_cur d)"
      using True addr_in_alive [of _ ops True ?L] by (auto simp: goal_def answered_in_def D(2))
    ultimately show ?thesis
      using found_verdict [OF J] first_of_dll [OF heap] True by (simp add: search_step_def first_of_def)
  next
    case False
    then obtain e rest' where e: "rest = e # rest'" using rest_not_empty [OF g(1) rest(1)] by (cases rest) auto
    then have cur: "cursor ?st = Some e" and al: "e \<in> set (alive ops ?L)"
      using rest list_sim_alive [OF rest(1)] by (auto simp: first_of_def)
    obtain y where nx: "nxt (links_of st) 0 = Some y"
      using first_of_dll [OF heap] False by (cases "alive ops ?L") (auto simp: first_of_def)
    note at = op_at_addr [OF al, of "map fst (stack st)", folded D(4)]
    let ?n = "steps st + 1" and ?k = "csize (seen st)"
    have step: "search_step ctx m ops lims (after_of m ops) (group_sizes ops) st =
      (if ?n mod 4096 = 0 \<and> ctx ?n \<noteq> None
       then Inl (Returns (result_of Unknown ?k) (map_option CtxErr (ctx ?n)))
       else if Configurations lims > 0 \<and> int ?k > Configurations lims
       then Inl (Returns (result_of Unknown ?k) (Some ErrLimit))
       else if ev_call ops e then visit_call m ops (after_of m ops) (group_sizes ops) e (ev_op ops e) ?st
       else visit_return ops (group_sizes ops) (ev_op ops e) ?st)"
      using nx cur at by (simp add: search_step_def Let_def)
    consider (stop) v where "search_step ctx m ops lims (after_of m ops) (group_sizes ops) st = Inl v"
        "verdict_ok ctx m ops lims v"
      | (call) "ev_call ops e" "search_step ctx m ops lims (after_of m ops) (group_sizes ops) st =
          visit_call m ops (after_of m ops) (group_sizes ops) e (ev_op ops e) ?st"
      | (ret) "\<not> ev_call ops e" "search_step ctx m ops lims (after_of m ops) (group_sizes ops) st =
          visit_return ops (group_sizes ops) (ev_op ops e) ?st"
    proof (cases "?n mod 4096 = 0 \<and> ctx ?n \<noteq> None")
      case True
      then obtain err where "ctx ?n = Some err" by blast
      then show thesis using True unknown_verdicts(1) [of ?n ctx err m ops lims ?k] step that(1) by simp
    next
      case False
      then show thesis using unknown_verdicts(2) [of lims ?k ctx m ops] step that by (auto split: if_splits)
    qed
    then show ?thesis
    proof cases
      case call
      then show ?thesis using visit_call_step [OF g(1) I' cur] by auto
    next
      case ret
      show ?thesis
        unfolding ret(2) using visit_return_step [OF g I' J _ ret(1)] rest(1) unfolding e by simp
    qed simp
  qed
qed

subsection \<open>The loop\<close>

lemma search_start_inv: "search_inv m ops (search_start m ops (linked ops)) (dfs_start (cands ops) ({}, Init m))"
proof -
  have b: "bitset_for (length ops) (newBitset (length ops))" "members (newBitset (length ops)) = {}"
    using bitset_rep.empty_abs by blast+
  have "seen_sim (length ops) empty_cache {}"
    using config_cache.none_elems by (auto simp: seen_sim_def)
  then have "seen_sim (length ops) (snd (cache_add empty_cache (newBitset (length ops)) (Init m))) {({}, Init m)}"
    using seen_sim_add(2) [OF _ b(1), of empty_cache "{}" "Init m"] b(2) by simp
  moreover have "list_sim ops {} (alive ops {}) (cands ops ({}, Init m))" by (auto simp: list_sim_def cands_def)
  moreover have "nxt (linked ops) 0 = first_of (alive ops {})"
    unfolding alive_empty by (rule first_of_dll [OF dll_link])
  ultimately show ?thesis
    using b groups_inv_start unfolding search_inv_def
    by (auto simp: search_start_def best_inv_def result_of_def)
qed

lemma search_loop_returns:
  assumes g: "good_ops ops" "int64_times ops"
  shows "search_inv m ops st d \<Longrightarrow> dfs_inv m ops d \<Longrightarrow>
    \<exists>v. search_loop ctx m ops lims (after_of m ops) (group_sizes ops) st = Some v \<and> verdict_ok ctx m ops lims v"
proof (induction d arbitrary: st rule: wf_induct_rule [OF lin_dfs.dfs_wf [of ops m]])
  case (1 d)
  show ?case
  proof (cases "search_step ctx m ops lims (after_of m ops) (group_sizes ops) st")
    case (Inl v)
    then show ?thesis using search_step_sim [OF g 1(2,3), of ctx lims] by (simp add: search_loop.simps)
  next
    case (Inr st')
    then obtain d' where d': "dfs_step (cands ops) (move m ops) (goal ops) d d'" "search_inv m ops st' d'"
      using search_step_sim [OF g 1(2,3), of ctx lims] by auto
    then have "dfs_inv m ops d'" using lin_dfs.invar_step 1(3) by blast
    then show ?thesis using 1(1) [of d' st'] d' 1(3) Inr by (simp add: search_loop.simps [of _ _ _ _ _ _ st])
  qed
qed

lemma bad_op_None: "bad_op ops i xs = None \<longleftrightarrow> (\<forall>x \<in> set xs. Call x \<le> Return x)"
  by (induction xs arbitrary: i) auto


lemma CheckWithin_verdict:
  assumes "\<forall>x \<in> set ops. Call x \<le> Return x" "int64_times ops"
  shows "\<exists>v. CheckWithin ctx m ops lims = Some v \<and> verdict_ok ctx m ops lims v"
proof -
  have "good_ops ops" using assms(1) by (simp add: good_ops_def)
  moreover have "bad_op ops 0 ops = None" using assms(1) by (simp add: bad_op_None)
  moreover have "link ops = Some (linked ops)" using assms(1) by (intro link_some) simp
  ultimately show ?thesis
    using search_loop_returns [OF _ assms(2) search_start_inv lin_dfs.invar_start]
    by (simp add: CheckWithin_def)
qed

subsection \<open>Properties\<close>

definition history :: "('i, 'o) Op list \<Rightarrow> bool" where
  "history ops \<longleftrightarrow> int64_times ops \<and> (\<forall>x \<in> set ops. Call x \<le> Return x)"

text \<open>A register, and histories of it, to try the properties on.\<close>

datatype reg_in = ReadReg | WriteReg int

definition register_step :: "int \<Rightarrow> reg_in \<Rightarrow> int \<Rightarrow> bool \<times> int" where
  "register_step s i out = (case i of ReadReg \<Rightarrow> (out = s, s) | WriteReg v \<Rightarrow> (True, v))"

definition register :: "(int, reg_in, int) Model" where
  "register = \<lparr>Init = 0, Step = register_step, Same = Some (\<lambda>i1 o1 i2 o2. i1 = i2 \<and> o1 = o2)\<rparr>"

definition reg_op :: "int \<Rightarrow> int \<Rightarrow> reg_in \<Rightarrow> int \<Rightarrow> (reg_in, int) Op" where
  "reg_op c r i out = \<lparr>Client = 0, Call = c, Return = r, Group = 0, Input = i, Output = out\<rparr>"

definition lost_write_history :: "(reg_in, int) Op list" where
  "lost_write_history = [reg_op 0 Pending (WriteReg 1) 0, reg_op 1 2 ReadReg 1]"

definition stale_read_history :: "(reg_in, int) Op list" where
  "stale_read_history = [reg_op 0 1 (WriteReg 1) 0, reg_op 2 3 ReadReg 0]"

lemma example_histories:
  "history lost_write_history" "history stale_read_history"
  "pending_accepted register lost_write_history" "pending_accepted register stale_read_history"
  by (simp_all add: history_def int64_times_def pending_accepted_def lost_write_history_def stale_read_history_def
      reg_op_def is_int64_def Pending_def MaxInt64_def register_def register_step_def)

lemma register_same_sound: "same_sound register"
  by (simp add: same_sound_def register_def)

lemma history_verdict: "history ops \<Longrightarrow> \<exists>v. CheckWithin ctx m ops lims = Some v \<and> verdict_ok ctx m ops lims v"
  unfolding history_def by (rule CheckWithin_verdict) blast+

lemma Ok_verdict:
  assumes "verdict_ok ctx m ops lims (Returns r err)" "Outcome r = Ok" "int64_times ops" "pending_accepted m ops"
  shows "linearizable m ops"
proof -
  obtain p s where p: "pruned m ops (after_op m ops) {} (Init m) p s" "answered_in ops (set p)"
    using assms(1,2) by (auto simp: verdict_ok_def)
  then show ?thesis
    using explains_linearization [OF pruned_explains [OF p(1)] p(2) assms(4,3)] by (auto simp: linearizable_def)
qed

lemma Illegal_verdict:
  assumes "verdict_ok ctx m ops lims (Returns r err)" "Outcome r = Illegal" "int64_times ops" "same_sound m"
  shows "\<not> linearizable m ops"
proof
  assume "linearizable m ops"
  then obtain ord s where "explains m ops {} (Init m) ord s" "answered_in ops (set ord)"
    unfolding linearizable_def using linearization_explains by blast
  then obtain q where "pruned m ops (after_op m ops) {} (Init m) q s" "answered_in ops (set q)"
    using explains_pruned [OF assms(3) after_of_sound [OF assms(4)]] by blast
  then show False using assms(1,2) by (auto simp: verdict_ok_def)
qed

text \<open>
  C1: with no limit and a context that never ends, \<^verbatim>\<open>Check\<close> decides linearizability. On every
  history whose calls and returns are 64-bit times with no return before its call, of a
  model that accepts unanswered operations in every state and whose Same, if set, relates
  only operations with the same effect, it returns with no error: Ok exactly when some
  order of all the operations respects real time, keeps each group together and is a
  legal run of the model, and Illegal exactly when none does.
\<close>
theorem Check_decides:
  assumes "history ops" and "pending_accepted m ops" and "same_sound m"
  shows "\<exists>r. Check (\<lambda>_. None) m ops = Some (Returns r None) \<and>
    (Outcome r = Ok \<longleftrightarrow> linearizable m ops) \<and> (Outcome r = Illegal \<longleftrightarrow> \<not> linearizable m ops)"
proof -
  obtain v where v: "Check (\<lambda>_. None) m ops = Some v" "verdict_ok (\<lambda>_. None) m ops \<lparr>Configurations = 0\<rparr> v"
    unfolding Check_def using history_verdict [OF assms(1)] by blast
  then obtain r err where r: "v = Returns r err" by (auto simp: verdict_ok_def)
  have t: "int64_times ops" using assms(1) by (simp add: history_def)
  have "Outcome r \<noteq> Unknown" "err = None" using v(2) r by (auto simp: verdict_ok_def split: outcome.splits)
  moreover have "Outcome r = Ok \<Longrightarrow> linearizable m ops" using Ok_verdict v(2) r t assms(2) by metis
  moreover have "Outcome r = Illegal \<Longrightarrow> \<not> linearizable m ops" using Illegal_verdict v(2) r t assms(3) by metis
  ultimately show ?thesis using v(1) r by (metis outcome.exhaust)
qed

theorem Check_decides_witness:
  "\<exists>r. Check (\<lambda>_. None) register lost_write_history = Some (Returns r None) \<and>
    (Outcome r = Ok \<longleftrightarrow> linearizable register lost_write_history) \<and>
    (Outcome r = Illegal \<longleftrightarrow> \<not> linearizable register lost_write_history)"
  by (rule Check_decides [OF example_histories(1,3) register_same_sound])

text \<open>
  C11: an Ok of \<^verbatim>\<open>CheckWithin\<close> is right whatever the limits and the context: the history is
  linearizable. The model's Same plays no part in it.
\<close>
theorem CheckWithin_Ok_sound:
  assumes "history ops" and "pending_accepted m ops"
    and "CheckWithin ctx m ops lims = Some (Returns r err)" and "Outcome r = Ok"
  shows "linearizable m ops \<and> err = None"
proof -
  have v: "verdict_ok ctx m ops lims (Returns r err)" using history_verdict [OF assms(1), of ctx m lims] assms(3) by simp
  then have "err = None" using assms(4) by (auto simp: verdict_ok_def)
  then show ?thesis using Ok_verdict [OF v assms(4) _ assms(2)] assms(1) by (simp add: history_def)
qed

lemma check_lost_write: "Check (\<lambda>_. None) register lost_write_history = Some (Returns (result_of Ok 3) None)"
  by code_simp

lemma check_stale_read: "Check (\<lambda>_. None) register stale_read_history =
    Some (Returns \<lparr>Outcome = Illegal, Longest = [0], State = Some 1, Stuck = 1, Explored = 2\<rparr> None)"
  by code_simp

theorem CheckWithin_Ok_sound_witness: "linearizable register lost_write_history"
  using CheckWithin_Ok_sound [OF example_histories(1,3) check_lost_write [unfolded Check_def]]
  by (simp add: result_of_def)

text \<open>
  C12: an Illegal of \<^verbatim>\<open>CheckWithin\<close> is right: no linearization exists. This needs of the
  model only that Same relates operations with the same effect; the search leaves out
  orders that place an unanswered operation where it changes nothing, or ahead of one of
  the same effect called before it, and the theorem says that nothing is lost by it.
\<close>
theorem CheckWithin_Illegal_sound:
  assumes "history ops" and "same_sound m"
    and "CheckWithin ctx m ops lims = Some (Returns r err)" and "Outcome r = Illegal"
  shows "\<not> linearizable m ops \<and> err = None"
proof -
  have v: "verdict_ok ctx m ops lims (Returns r err)" using history_verdict [OF assms(1), of ctx m lims] assms(3) by simp
  then have "err = None" using assms(4) by (auto simp: verdict_ok_def)
  then show ?thesis using Illegal_verdict [OF v assms(4) _ assms(2)] assms(1) by (simp add: history_def)
qed

theorem CheckWithin_Illegal_sound_witness: "\<not> linearizable register stale_read_history"
  using CheckWithin_Illegal_sound [OF example_histories(2) register_same_sound check_stale_read [unfolded Check_def]]
  by simp

text \<open>
  What an Illegal result reports. Longest is an order of some of the operations that
  respects real time and groups and runs legally from the initial state to State; Stuck
  is the operation not in it that returned first, one that was answered; and no order the
  search's rules allow is longer.
\<close>
theorem CheckWithin_Illegal_report:
  assumes "history ops"
    and "CheckWithin ctx m ops lims = Some (Returns r err)" and "Outcome r = Illegal"
  shows "\<exists>s i. State r = Some s \<and> explains m ops {} (Init m) (Longest r) s \<and>
    Stuck r = int i \<and> i < length ops \<and> i \<notin> set (Longest r) \<and> Return (ops ! i) \<noteq> Pending \<and>
    (\<forall>k < length ops. k \<notin> set (Longest r) \<longrightarrow> Return (ops ! i) \<le> Return (ops ! k)) \<and>
    (\<forall>p s'. pruned m ops (after_op m ops) {} (Init m) p s' \<longrightarrow> length p \<le> length (Longest r))"
proof -
  have v: "verdict_ok ctx m ops lims (Returns r err)" using history_verdict [OF assms(1), of ctx m lims] assms(2) by simp
  then have "got_to m ops r" and
    max: "\<forall>p s'. pruned m ops (after_op m ops) {} (Init m) p s' \<longrightarrow> length p \<le> length (Longest r)"
    using assms(3) by (auto simp: verdict_ok_def)
  then obtain s i where "State r = Some s" "pruned m ops (after_op m ops) {} (Init m) (Longest r) s"
    "Stuck r = int i" "i < length ops" "i \<notin> set (Longest r)" "Return (ops ! i) \<noteq> Pending"
    "\<forall>k < length ops. k \<notin> set (Longest r) \<longrightarrow> Return (ops ! i) \<le> Return (ops ! k)"
    unfolding got_to_def stuck_at_def by blast
  moreover then have "explains m ops {} (Init m) (Longest r) s" by (intro pruned_explains)
  ultimately show ?thesis using max by (intro exI [of _ s] exI [of _ i] conjI)
qed

theorem CheckWithin_Illegal_report_witness:
  "explains register stale_read_history {} 0 [0] 1 \<and> Return (stale_read_history ! 1) \<noteq> Pending"
proof -
  let ?r = "\<lparr>Outcome = Illegal, Longest = [0], State = Some (1 :: int), Stuck = 1, Explored = 2\<rparr>"
  have "Outcome ?r = Illegal" by simp
  from CheckWithin_Illegal_report [OF example_histories(2) check_stale_read [unfolded Check_def] this]
  obtain s i where "State ?r = Some s" "explains register stale_read_history {} (Init register) (Longest ?r) s"
    "Stuck ?r = int i" "Return (stale_read_history ! i) \<noteq> Pending"
    by blast
  moreover have "Init register = 0" by (simp add: register_def)
  ultimately show ?thesis by simp
qed



end
