(* ===== verification/Lin_Minimize.thy ===== *)
theory Lin_Minimize
  imports Lin_Check "HOL-Library.Sublist"
begin

text \<open>
  Shrinking an illegal history to a core, \<^verbatim>\<open>Minimize\<close>, \<^verbatim>\<open>ddmin\<close> and \<^verbatim>\<open>merge\<close> of
  \<^verbatim>\<open>src/linearize/linearize.go\<close>. The clock, the context and the deadlines the checks run
  under are the world outside, a state of any type that every look at it may change; the
  loops are partial functions, \<open>None\<close> where they would never end.
\<close>

subsection \<open>Delta debugging\<close>

definition merge :: "nat list \<Rightarrow> nat list \<Rightarrow> nat list" where
  "merge a b = sort (a @ b)"

partial_function (option) ddmin_pass :: "('w \<Rightarrow> bool \<times> 'w) \<Rightarrow> ('w \<Rightarrow> nat list \<Rightarrow> bool \<times> 'w) \<Rightarrow> nat \<Rightarrow>
    'w \<Rightarrow> nat list \<Rightarrow> nat \<Rightarrow> bool \<Rightarrow> (nat list \<times> bool \<times> 'w) option" where
  [code]: "ddmin_pass ended illegal chunk w xs start removed =
     (if start < length xs then
        (case ended w of (stop, w) \<Rightarrow>
           if stop then Some (xs, removed, w)
           else let e = min (start + chunk) (length xs);
                    rest = take start xs @ drop e xs
                in case illegal w rest of (b, w) \<Rightarrow>
                     if b then ddmin_pass ended illegal chunk w rest start True
                     else ddmin_pass ended illegal chunk w xs e removed)
      else Some (xs, removed, w))"

partial_function (option) ddmin_loop :: "('w \<Rightarrow> bool \<times> 'w) \<Rightarrow> ('w \<Rightarrow> nat list \<Rightarrow> bool \<times> 'w) \<Rightarrow> nat \<Rightarrow>
    'w \<Rightarrow> nat list \<Rightarrow> (nat list \<times> 'w) option" where
  [code]: "ddmin_loop ended illegal chunk w xs =
     (if 0 < length xs then
        (case ddmin_pass ended illegal chunk w xs 0 False of
           None \<Rightarrow> None
         | Some (xs, removed, w) \<Rightarrow>
             (case ended w of (stop, w) \<Rightarrow>
                if stop \<or> chunk = 1 \<and> \<not> removed then Some (xs, w)
                else ddmin_loop ended illegal (if 1 < chunk then chunk div 2 else chunk) w xs))
      else Some (xs, w))"

definition ddmin :: "('w \<Rightarrow> bool \<times> 'w) \<Rightarrow> ('w \<Rightarrow> nat list \<Rightarrow> bool \<times> 'w) \<Rightarrow> 'w \<Rightarrow> nat list \<Rightarrow> (nat list \<times> 'w) option" where
  "ddmin ended illegal w xs = ddmin_loop ended illegal (max (length xs div 2) 1) w xs"

text \<open>
  What a pass leaves: a subsequence, shorter if something was removed and the same
  otherwise, of which the last removal was found illegal.
\<close>

lemma cut_subseq: "s \<le> e \<Longrightarrow> subseq (take s xs @ drop e xs) xs"
proof -
  assume "s \<le> e"
  then have "drop e xs = drop (e - s) (drop s xs)" by simp
  then have "subseq (drop e xs) (drop s xs)" by (metis suffix_drop suffix_imp_subseq)
  then have "subseq (take s xs @ drop e xs) (take s xs @ drop s xs)" by (intro list_emb_append_mono) auto
  then show ?thesis by simp
qed

lemma length_cut: "s < length xs \<Longrightarrow> 0 < c \<Longrightarrow> length (take s xs @ drop (min (s + c) (length xs)) xs) < length xs"
  by (auto simp: min_def)

lemma ddmin_pass_ok:
  assumes "0 < chunk"
    and keep: "\<And>w ys w'. subseq ys xs0 \<Longrightarrow> illegal w ys = (True, w') \<Longrightarrow> Good ys"
  shows "subseq xs xs0 \<Longrightarrow> Good xs \<Longrightarrow>
    \<exists>ys r w'. ddmin_pass ended illegal chunk w xs start removed = Some (ys, r, w') \<and> subseq ys xs \<and> Good ys \<and>
      (r = removed \<and> ys = xs \<or> r \<and> length ys < length xs)"
proof (induction "length xs - start" arbitrary: w xs start removed rule: less_induct)
  case less
  show ?case
  proof (cases "start < length xs")
    case False
    then show ?thesis using less.prems by (subst ddmin_pass.simps) auto
  next
    case True
    let ?e = "min (start + chunk) (length xs)"
    let ?rest = "take start xs @ drop ?e xs"
    have e: "start \<le> ?e" using True by simp
    have sub: "subseq ?rest xs" and shorter: "length ?rest < length xs"
      using cut_subseq [OF e] length_cut [OF True assms(1)] by auto
    obtain stop w1 where w1: "ended w = (stop, w1)" by force
    obtain b w2 where w2: "illegal w1 ?rest = (b, w2)" by force
    show ?thesis
    proof (cases "\<not> stop \<and> b")
      case c: True
      have sub0: "subseq ?rest xs0" using sub less.prems(1) subseq_order.order_trans by blast
      have good: "Good ?rest" using keep [OF sub0] w2 c by simp
      have "length ?rest - start < length xs - start" using shorter True e by simp
      from less.hyps [OF this sub0 good, of w2 True]
      obtain ys r w' where ys: "ddmin_pass ended illegal chunk w2 ?rest start True = Some (ys, r, w')"
        "subseq ys ?rest" "Good ys" "r" "length ys \<le> length ?rest" by (auto dest: less_imp_le)
      have "ddmin_pass ended illegal chunk w xs start removed = Some (ys, r, w')"
        using True w1 w2 c ys(1) by (subst ddmin_pass.simps) (simp add: Let_def)
      moreover have "subseq ys xs" using ys(2) sub subseq_order.order_trans by blast
      moreover have "length ys < length xs" using ys(5) shorter by simp
      ultimately show ?thesis using ys(3,4) by blast
    next
      case c: False
      show ?thesis
      proof (cases stop)
        case True
        then show ?thesis using \<open>start < length xs\<close> w1 less.prems by (subst ddmin_pass.simps) auto
      next
        case False
        have "length xs - ?e < length xs - start" using \<open>start < length xs\<close> assms(1) by auto
        from less.hyps [OF this less.prems, of w2 removed] show ?thesis
          using \<open>start < length xs\<close> w1 w2 c False
          by (subst ddmin_pass.simps) (auto simp: Let_def)
      qed
    qed
  qed
qed

definition one_minimal :: "(nat list \<Rightarrow> bool) \<Rightarrow> nat list \<Rightarrow> bool" where
  "one_minimal P xs \<longleftrightarrow> (\<forall>i < length xs. \<not> P (take i xs @ drop (Suc i) xs))"

lemma ddmin_pass_tried:
  assumes "\<And>w. \<not> fst (ended w)" "\<And>w ys. fst (illegal w ys) = P ys"
  shows "ddmin_pass ended illegal 1 w xs start False = Some (ys, False, w') \<Longrightarrow>
    \<forall>i. start \<le> i \<and> i < length xs \<longrightarrow> \<not> P (take i xs @ drop (Suc i) xs)"
proof (induction "length xs - start" arbitrary: w start)
  case 0
  then show ?case by auto
next
  case (Suc n)
  then have lt: "start < length xs" by simp
  then have e: "min (start + 1) (length xs) = Suc start" by simp
  let ?rest = "take start xs @ drop (Suc start) xs"
  obtain w1 where w1: "ended w = (False, w1)" using assms(1) [of w] by (cases "ended w") auto
  obtain w2 where w2: "illegal w1 ?rest = (P ?rest, w2)" using assms(2) [of w1 ?rest] by (cases "illegal w1 ?rest") auto
  have unfold: "ddmin_pass ended illegal 1 w xs start False =
      (if P ?rest then ddmin_pass ended illegal 1 w2 ?rest start True else ddmin_pass ended illegal 1 w2 xs (Suc start) False)"
    using lt w1 w2 by (subst ddmin_pass.simps) (simp add: e Let_def)
  have "\<not> P ?rest"
  proof
    assume "P ?rest"
    then have "ddmin_pass ended illegal 1 w2 ?rest start True = Some (ys, False, w')" using unfold Suc.prems by simp
    then show False using ddmin_pass_ok [of 1 ?rest illegal "\<lambda>_. True" ?rest ended w2 start True] by auto
  qed
  moreover from this have "\<forall>i. Suc start \<le> i \<and> i < length xs \<longrightarrow> \<not> P (take i xs @ drop (Suc i) xs)"
    using Suc.hyps(1) [of "Suc start" w2] Suc.hyps(2) Suc.prems unfold by simp
  ultimately show ?case by (metis Suc_leI le_neq_implies_less)
qed

lemma ddmin_loop_ok:
  assumes keep: "\<And>w ys w'. subseq ys xs0 \<Longrightarrow> illegal w ys = (True, w') \<Longrightarrow> Good ys"
  shows "0 < chunk \<Longrightarrow> subseq xs xs0 \<Longrightarrow> Good xs \<Longrightarrow>
    \<exists>ys w'. ddmin_loop ended illegal chunk w xs = Some (ys, w') \<and> subseq ys xs \<and> Good ys \<and>
      ((\<forall>w. \<not> fst (ended w)) \<longrightarrow> (\<forall>w ys. fst (illegal w ys) = P ys) \<longrightarrow> one_minimal P ys)"
proof (induction "(chunk, length xs)" arbitrary: chunk w xs rule: wf_induct_rule [OF wf_lex_prod [OF wf_less_than wf_less_than]])
  case 1
  show ?case
  proof (cases "xs = []")
    case True
    then show ?thesis using "1.prems" by (subst ddmin_loop.simps) (simp add: one_minimal_def)
  next
    case ne: False
    obtain ys r w1 where pass: "ddmin_pass ended illegal chunk w xs 0 False = Some (ys, r, w1)" "subseq ys xs"
      "Good ys" "\<not> r \<and> ys = xs \<or> r \<and> length ys < length xs"
      using ddmin_pass_ok [of chunk xs0 illegal Good xs ended w 0 False] keep "1.prems" by blast
    obtain stop w2 where w2: "ended w1 = (stop, w2)" by force
    show ?thesis
    proof (cases "stop \<or> chunk = 1 \<and> \<not> r")
      case c: True
      have "one_minimal P ys" if "\<forall>w. \<not> fst (ended w)" "\<forall>w ys. fst (illegal w ys) = P ys"
      proof -
        have "\<not> stop" using that(1) w2 by (metis fst_conv)
        then have "chunk = 1" "\<not> r" "ys = xs" using c pass(4) by auto
        then show ?thesis
          using ddmin_pass_tried [of ended illegal P w xs 0 ys w1] that pass(1) by (simp add: one_minimal_def)
      qed
      then show ?thesis using ne c pass w2 by (subst ddmin_loop.simps) auto
    next
      case c: False
      let ?chunk = "if 1 < chunk then chunk div 2 else chunk"
      have sub0: "subseq ys xs0" using pass(2) "1.prems"(2) subseq_order.order_trans by blast
      have pos: "0 < ?chunk" using "1.prems"(1) by (simp add: div_greater_zero_iff)
      have "((?chunk, length ys), (chunk, length xs)) \<in> less_than <*lex*> less_than"
        using c pass(4) "1.prems"(1) by auto
      from "1.hyps" [OF this pos sub0 pass(3), of w2] obtain zs w' where
        "ddmin_loop ended illegal ?chunk w2 ys = Some (zs, w')" "subseq zs ys" "Good zs"
        "(\<forall>w. \<not> fst (ended w)) \<longrightarrow> (\<forall>w ys. fst (illegal w ys) = P ys) \<longrightarrow> one_minimal P zs" by blast
      moreover from this have "subseq zs xs" using pass(2) subseq_order.order_trans by blast
      ultimately show ?thesis using ne c pass(1) w2
        by (subst ddmin_loop.simps) (auto split: if_splits)
    qed
  qed
qed

lemma ddmin_ok:
  assumes "\<And>w ys w'. subseq ys xs \<Longrightarrow> illegal w ys = (True, w') \<Longrightarrow> Good ys" "Good xs"
  shows "\<exists>ys w'. ddmin ended illegal w xs = Some (ys, w') \<and> subseq ys xs \<and> Good ys"
proof -
  have "0 < max (length xs div 2) 1" by simp
  then show ?thesis
    using ddmin_loop_ok [of xs illegal Good "max (length xs div 2) 1" xs ended w] assms
    unfolding ddmin_def by blast
qed

text \<open>
  \<^verbatim>\<open>ddmin\<close> always returns, whatever the checks answer and whenever the context ends, and
  what it returns is a subsequence of what it was given. When the context does not end and
  the checks answer by a predicate that holds of the set, the predicate holds of the result
  and of no set with one element of it removed - monotone or not.
\<close>
theorem ddmin_one_minimal:
  "\<exists>ys w'. ddmin ended illegal w xs = Some (ys, w') \<and> subseq ys xs \<and>
    ((\<forall>w. \<not> fst (ended w)) \<longrightarrow> (\<forall>w ys. fst (illegal w ys) = P ys) \<longrightarrow> P xs \<longrightarrow> P ys \<and> one_minimal P ys)"
proof -
  let ?Good = "\<lambda>ys. (\<forall>w ys. fst (illegal w ys) = P ys) \<longrightarrow> P xs \<longrightarrow> P ys"
  have "?Good ys" if "illegal w ys = (True, w')" for w ys w'
  proof (intro impI)
    assume "\<forall>w ys. fst (illegal w ys) = P ys"
    then show "P ys" using that by (metis fst_conv)
  qed
  moreover have "0 < max (length xs div 2) 1" by simp
  ultimately obtain ys w' where "ddmin ended illegal w xs = Some (ys, w')" "subseq ys xs" "?Good ys"
    "(\<forall>w. \<not> fst (ended w)) \<longrightarrow> (\<forall>w ys. fst (illegal w ys) = P ys) \<longrightarrow> one_minimal P ys"
    using ddmin_loop_ok [of xs illegal ?Good "max (length xs div 2) 1" xs ended w P] unfolding ddmin_def by blast
  then show ?thesis by blast
qed

theorem ddmin_one_minimal_witness:
  "\<exists>ys. ddmin (\<lambda>_. (False, ())) (\<lambda>_ xs. (2 \<in> set xs \<and> 5 \<in> set xs, ())) () [1, 2, 3, 4, 5, 6] = Some (ys, ()) \<and>
    2 \<in> set ys \<and> 5 \<in> set ys \<and> one_minimal (\<lambda>xs. 2 \<in> set xs \<and> 5 \<in> set xs) ys"
  using ddmin_one_minimal [of "\<lambda>_. (False, ())" "\<lambda>_ xs. (2 \<in> set xs \<and> 5 \<in> set xs, ())" "()" "[1, 2, 3, 4, 5, 6]"
      "\<lambda>xs. 2 \<in> set xs \<and> 5 \<in> set xs"] by auto

subsection \<open>Minimizing a history\<close>

datatype Weakening = Keep | Drop | Replace

text \<open>
  The world outside: the clock, the error of the context, and the context with a timeout,
  as the polls of the check run under it will see it, with the world once that check is over.
\<close>

record 'w outside =
  now :: "'w \<Rightarrow> int \<times> 'w"
  ctx_Err :: "'w \<Rightarrow> string option \<times> 'w"
  WithTimeout :: "'w \<Rightarrow> int \<Rightarrow> ctx \<times> 'w"

datatype minimize_error = CtxEnded string | NotIllegal

fun weakened :: "('i, 'o) Op list \<Rightarrow> ('i, 'o) Op list \<Rightarrow> Weakening list \<Rightarrow> nat list \<Rightarrow> nat list \<Rightarrow> ('i, 'o) Op list" where
  "weakened ops weak how [] keep = []"
| "weakened ops weak how (i # is) keep =
     (case (if how ! i = Keep then ([ops ! i], keep)
            else if keep \<noteq> [] \<and> hd keep = i then ([ops ! i], tl keep)
            else if how ! i = Replace then ([weak ! i], keep)
            else ([], keep)) of
        (sub, keep) \<Rightarrow> sub @ weakened ops weak how is (dropWhile (\<lambda>k. k \<le> i) keep))"

definition check_result :: "'s verdict option \<Rightarrow> 's Result" where
  "check_result v = (case v of Some (Returns r _) \<Rightarrow> r | _ \<Rightarrow> result_of Unknown 0)"

definition min_illegal :: "'w outside \<Rightarrow> ('s, 'i, 'o) Model \<Rightarrow> ('i, 'o) Op list \<Rightarrow> ('i, 'o) Op list \<Rightarrow> Weakening list \<Rightarrow>
    int \<Rightarrow> Limits \<Rightarrow> 'w \<Rightarrow> nat list \<Rightarrow> bool \<times> nat \<times> 'w" where
  "min_illegal env m ops weak how budget lims w keep =
     (case WithTimeout env w budget of (cctx, w) \<Rightarrow>
        let res = check_result (CheckWithin cctx m (weakened ops weak how [0..<length ops] keep) lims)
        in (Outcome res = Illegal, Explored res, w))"

definition min_try :: "'w outside \<Rightarrow> ('s, 'i, 'o) Model \<Rightarrow> ('i, 'o) Op list \<Rightarrow> ('i, 'o) Op list \<Rightarrow> Weakening list \<Rightarrow>
    int \<Rightarrow> Limits \<Rightarrow> (nat list \<Rightarrow> nat list) \<Rightarrow> 'w \<Rightarrow> nat list \<Rightarrow> bool \<times> 'w" where
  "min_try env m ops weak how budget lims put w sub =
     (case min_illegal env m ops weak how budget lims w (put sub) of (b, _, w) \<Rightarrow> (b, w))"

definition Minimize :: "'w outside \<Rightarrow> ('s, 'i, 'o) Model \<Rightarrow> ('i, 'o) Op list \<Rightarrow>
    (('i, 'o) Op \<Rightarrow> ('i, 'o) Op \<times> Weakening) \<Rightarrow> 'w \<Rightarrow> (nat list \<times> minimize_error option) option" where
  "Minimize env m ops weaken w =
     (let weak = map (\<lambda>x. fst (weaken x)) ops;
          how = map (\<lambda>x. snd (weaken x)) ops;
          droppable = filter (\<lambda>i. how ! i = Drop) [0..<length ops];
          replaceable = filter (\<lambda>i. how ! i = Replace) [0..<length ops];
          alls = [0..<length ops];
          (start, w) = now env w;
          (bad, explored, w) = min_illegal env m ops weak how MaxInt64 \<lparr>Configurations = 0\<rparr> w alls
      in if \<not> bad then
           (case ctx_Err env w of (err, w) \<Rightarrow>
              Some (alls, Some (case err of Some e \<Rightarrow> CtxEnded e | None \<Rightarrow> NotIllegal)))
         else
           (let (t, w) = now env w;
                budget = max 1000000000 (100 * (t - start));
                lims = \<lparr>Configurations = max (2 ^ 20) (100 * int explored)\<rparr>;
                ended = (\<lambda>w. case ctx_Err env w of (err, w) \<Rightarrow> (err \<noteq> None, w))
            in case ddmin ended (min_try env m ops weak how budget lims (\<lambda>sub. merge sub replaceable)) w droppable of
                 None \<Rightarrow> None
               | Some (droppable, w) \<Rightarrow>
                   (case ddmin ended (min_try env m ops weak how budget lims (\<lambda>sub. merge droppable sub)) w replaceable of
                      None \<Rightarrow> None
                    | Some (replaceable, w) \<Rightarrow> Some (merge droppable replaceable, None))))"

text \<open>What a check is given: every operation weakened but those it is to keep.\<close>

definition weakened_but :: "('i, 'o) Op list \<Rightarrow> ('i, 'o) Op list \<Rightarrow> Weakening list \<Rightarrow> nat set \<Rightarrow> ('i, 'o) Op list" where
  "weakened_but ops weak how K = concat (map (\<lambda>i. if how ! i = Keep \<or> i \<in> K then [ops ! i]
     else if how ! i = Replace then [weak ! i] else []) [0..<length ops])"

lemma dropWhile_strict:
  assumes "sorted_wrt (<) (k # ks)" "(i :: nat) \<le> k"
  shows "dropWhile (\<lambda>k. k \<le> i) (k # ks) = (if k = i then ks else k # ks)"
  using assms by (cases ks) auto

lemma weakened_eq:
  "sorted_wrt (<) keep \<Longrightarrow> (\<And>k. k \<in> set keep \<Longrightarrow> i \<le> k) \<Longrightarrow> weakened ops weak how [i..<n] keep =
    concat (map (\<lambda>i. if how ! i = Keep \<or> i \<in> set keep then [ops ! i]
      else if how ! i = Replace then [weak ! i] else []) [i..<n])"
proof (induction "n - i" arbitrary: i keep)
  case 0
  then show ?case by simp
next
  case (Suc d)
  then have upt: "[i..<n] = i # [Suc i..<n]" by (simp add: upt_conv_Cons)
  define keep' where "keep' = (if keep \<noteq> [] \<and> hd keep = i then tl keep else keep)"
  have k'_all: "sorted_wrt (<) keep' \<and> (\<forall>k \<in> set keep'. Suc i \<le> k) \<and>
    (\<forall>j \<ge> Suc i. j \<in> set keep' \<longleftrightarrow> j \<in> set keep) \<and> (i \<in> set keep \<longleftrightarrow> keep \<noteq> [] \<and> hd keep = i)"
  proof (cases keep)
    case (Cons k ks)
    then have ks: "\<And>j. j \<in> set ks \<Longrightarrow> k < j" "sorted_wrt (<) ks" "i \<le> k" using Suc.prems by simp_all
    show ?thesis
    proof (cases "k = i")
      case True
      then have "keep' = ks" by (simp add: keep'_def Cons)
      then show ?thesis using ks True Cons by fastforce
    next
      case False
      then have "keep' = keep" by (simp add: keep'_def Cons)
      then show ?thesis using ks False Cons Suc.prems(1) by fastforce
    qed
  qed (simp add: keep'_def)
  then have k': "sorted_wrt (<) keep'" "\<And>k. k \<in> set keep' \<Longrightarrow> Suc i \<le> k"
    "\<And>j. Suc i \<le> j \<Longrightarrow> j \<in> set keep' \<longleftrightarrow> j \<in> set keep" "i \<in> set keep \<longleftrightarrow> keep \<noteq> [] \<and> hd keep = i"
    by blast+
  have drop: "dropWhile (\<lambda>k. k \<le> i) keep' = keep'"
    using k'(2) [of "hd keep'"] by (cases keep') auto
  have drop2: "dropWhile (\<lambda>k. k \<le> i) keep = keep'"
    using dropWhile_strict [of "hd keep" "tl keep" i] Suc.prems by (cases keep) (auto simp: keep'_def)
  have "weakened ops weak how [i..<n] keep =
      (if how ! i = Keep \<or> i \<in> set keep then [ops ! i] else if how ! i = Replace then [weak ! i] else []) @
      weakened ops weak how [Suc i..<n] keep'"
    unfolding upt using drop drop2 k'(4) by (auto simp: keep'_def)
  also have "weakened ops weak how [Suc i..<n] keep' =
      concat (map (\<lambda>i. if how ! i = Keep \<or> i \<in> set keep' then [ops ! i]
        else if how ! i = Replace then [weak ! i] else []) [Suc i..<n])"
    using Suc.hyps(1) [of "Suc i" keep'] Suc.hyps(2) k'(1,2) by simp
  also have "\<dots> = concat (map (\<lambda>i. if how ! i = Keep \<or> i \<in> set keep then [ops ! i]
        else if how ! i = Replace then [weak ! i] else []) [Suc i..<n])"
    using k'(3) by (intro arg_cong [where f = concat] map_cong refl) auto
  finally show ?case unfolding upt by simp
qed

lemma weakened_keep: "sorted_wrt (<) keep \<Longrightarrow> weakened ops weak how [0..<length ops] keep = weakened_but ops weak how (set keep)"
  using weakened_eq [of keep 0] by (simp add: weakened_but_def)

lemma weakened_but_all: "(\<And>i. i < length ops \<Longrightarrow> how ! i = Keep \<or> i \<in> K) \<Longrightarrow> weakened_but ops weak how K = ops"
proof -
  assume "\<And>i. i < length ops \<Longrightarrow> how ! i = Keep \<or> i \<in> K"
  then have "weakened_but ops weak how K = concat (map (\<lambda>i. [ops ! i]) [0..<length ops])"
    unfolding weakened_but_def by (intro arg_cong [where f = concat] map_cong) auto
  then show ?thesis by (simp add: concat_map_singleton map_nth)
qed

lemma set_weakened_but: "length weak = length ops \<Longrightarrow> set (weakened_but ops weak how K) \<subseteq> set ops \<union> set weak"
  by (auto simp: weakened_but_def split: if_splits)

lemma history_weakened:
  "length weak = length ops \<Longrightarrow> history ops \<Longrightarrow> history weak \<Longrightarrow> history (weakened_but ops weak how K)"
  using set_weakened_but [of weak ops how K] unfolding history_def int64_times_def by blast

lemma min_illegal_sound:
  assumes "min_illegal env m ops weak how budget lims w keep = (True, n, w')" "sorted_wrt (<) keep"
    and "length weak = length ops" "history ops" "history weak" "same_sound m"
  shows "\<not> linearizable m (weakened_but ops weak how (set keep))"
proof -
  let ?sub = "weakened_but ops weak how (set keep)"
  obtain cctx where ill: "Outcome (check_result (CheckWithin cctx m ?sub lims)) = Illegal"
    using assms(1) weakened_keep [OF assms(2), of ops weak how]
    by (auto simp: min_illegal_def Let_def split: prod.splits)
  then obtain r err where "CheckWithin cctx m ?sub lims = Some (Returns r err)" "Outcome r = Illegal"
    by (auto simp: check_result_def result_of_def split: option.splits verdict.splits)
  then have "verdict_ok cctx m ?sub lims (Returns r err)" "int64_times ?sub"
    using history_verdict [OF history_weakened [OF assms(3-5)], of cctx m how "set keep" lims]
      history_weakened [OF assms(3-5), of how "set keep"] by (auto simp: history_def)
  then show ?thesis using Illegal_verdict assms(6) \<open>Outcome r = Illegal\<close> by blast
qed

lemma min_try_sound:
  assumes "min_try env m ops weak how budget lims put w sub = (True, w')" "sorted_wrt (<) (put sub)"
    and "length weak = length ops" "history ops" "history weak" "same_sound m"
  shows "\<not> linearizable m (weakened_but ops weak how (set (put sub)))"
proof -
  obtain n where "min_illegal env m ops weak how budget lims w (put sub) = (True, n, w')"
    using assms(1) by (auto simp: min_try_def split: prod.splits)
  then show ?thesis using assms(2-6) by (rule min_illegal_sound)
qed

lemma merge_sorted: "distinct (a @ b) \<Longrightarrow> sorted_wrt (<) (merge a b)"
  by (simp add: merge_def strict_sorted_iff)

lemma set_merge [simp]: "set (merge a b) = set a \<union> set b"
  by (simp add: merge_def)

lemma subseq_set: "subseq xs ys \<Longrightarrow> set xs \<subseteq> set ys"
  by (induction rule: list_emb.induct) auto

lemma subseq_distinct: "subseq xs ys \<Longrightarrow> distinct ys \<Longrightarrow> distinct xs"
  by (induction rule: list_emb.induct) (auto dest: subseq_set)

lemma merge_subseq_sorted:
  assumes "subseq a (filter P [0..<n])" "subseq b (filter Q [0..<n])" "\<And>i. \<not> (P i \<and> Q i)"
  shows "sorted_wrt (<) (merge a b)"
proof -
  have "set a \<subseteq> {i. P i}" "set b \<subseteq> {i. Q i}" using assms(1,2) [THEN subseq_set] by auto
  moreover have "distinct a" "distinct b" using assms(1,2) [THEN subseq_distinct] by auto
  ultimately show ?thesis using assms(3) by (intro merge_sorted) auto
qed

text \<open>
  C19: \<^verbatim>\<open>Minimize\<close> always returns. With an error it returns every index. Without one, the
  history is not linearizable, the core is an increasing list of indices of operations
  that may be weakened, and the history with every operation outside the core weakened
  is still not linearizable - whatever the deadlines and the limits did to the checks.
\<close>
theorem Minimize_core:
  assumes "history ops" "history (map (\<lambda>x. fst (weaken x)) ops)" "same_sound m"
  shows "\<exists>core err. Minimize env m ops weaken w = Some (core, err) \<and>
    (err \<noteq> None \<longrightarrow> core = [0..<length ops]) \<and>
    (err = None \<longrightarrow> \<not> linearizable m ops \<and> sorted_wrt (<) core \<and>
      set core \<subseteq> {i. i < length ops \<and> snd (weaken (ops ! i)) \<noteq> Keep} \<and>
      \<not> linearizable m (weakened_but ops (map (\<lambda>x. fst (weaken x)) ops) (map (\<lambda>x. snd (weaken x)) ops) (set core)))"
proof -
  define weak how where wh: "weak = map (\<lambda>x. fst (weaken x)) ops" "how = map (\<lambda>x. snd (weaken x)) ops"
  define D R where dr: "D = filter (\<lambda>i. how ! i = Drop) [0..<length ops]" "R = filter (\<lambda>i. how ! i = Replace) [0..<length ops]"
  have hist: "length weak = length ops" "history ops" "history weak" using assms by (simp_all add: wh)
  obtain start w1 where w1: "now env w = (start, w1)" by force
  obtain bad n w2 where w2: "min_illegal env m ops weak how MaxInt64 \<lparr>Configurations = 0\<rparr> w1 [0..<length ops] = (bad, n, w2)"
    by (cases "min_illegal env m ops weak how MaxInt64 \<lparr>Configurations = 0\<rparr> w1 [0..<length ops]") auto
  show ?thesis
  proof (cases bad)
    case False
    then show ?thesis unfolding Minimize_def using w1 w2
      by (auto simp: Let_def wh [symmetric] split: prod.splits)
  next
    case True
    obtain t w3 where w3: "now env w2 = (t, w3)" by force
    define budget lims where bl: "budget = max 1000000000 (100 * (t - start))"
      "lims = \<lparr>Configurations = max (2 ^ 20) (100 * int n)\<rparr>"
    define ended where "ended = (\<lambda>w. case ctx_Err env w of (err, w) \<Rightarrow> (err \<noteq> None, w))"
    have "weakened_but ops weak how (set [0..<length ops]) = ops" by (intro weakened_but_all) simp
    then have nl: "\<not> linearizable m ops"
      using min_illegal_sound [of env m ops weak how MaxInt64 "\<lparr>Configurations = 0\<rparr>" w1 "[0..<length ops]"]
        w2 True hist assms(3) by simp
    let ?Good = "\<lambda>K. \<not> linearizable m (weakened_but ops weak how K)"
    note sound = min_try_sound [OF _ _ hist assms(3)]
    have sorted: "sorted_wrt (<) (merge a b)" if "subseq a D" "subseq b R" for a b
      using that by (intro merge_subseq_sorted [of a _ "length ops" b]) (auto simp: dr)
    have "how ! i = Keep \<or> i \<in> set (merge D R)" if "i < length ops" for i
      using that by (cases "how ! i") (auto simp: dr)
    then have start: "?Good (set (merge D R))" using nl weakened_but_all [of ops how "set (merge D R)" weak] by simp
    have keepD: "?Good (set (merge ys R))"
      if "subseq ys D" "min_try env m ops weak how budget lims (\<lambda>sub. merge sub R) w ys = (True, w')" for w ys w'
      using sound [OF that(2)] sorted [OF that(1)] by simp
    have "\<exists>ys w'. ddmin ended (min_try env m ops weak how budget lims (\<lambda>sub. merge sub R)) w3 D = Some (ys, w') \<and>
        subseq ys D \<and> ?Good (set (merge ys R))"
      by (rule ddmin_ok) (use keepD start in blast)+
    then obtain D' w4 where D': "ddmin ended (min_try env m ops weak how budget lims (\<lambda>sub. merge sub R)) w3 D = Some (D', w4)"
      "subseq D' D" "?Good (set (merge D' R))" by blast
    have keepR: "?Good (set (merge D' ys))"
      if "subseq ys R" "min_try env m ops weak how budget lims (\<lambda>sub. merge D' sub) w ys = (True, w')" for w ys w'
      using sound [OF that(2)] sorted [OF D'(2) that(1)] by simp
    have "\<exists>ys w'. ddmin ended (min_try env m ops weak how budget lims (\<lambda>sub. merge D' sub)) w4 R = Some (ys, w') \<and>
        subseq ys R \<and> ?Good (set (merge D' ys))"
      by (rule ddmin_ok) (use keepR D'(3) in blast)+
    then obtain R' w5 where R': "ddmin ended (min_try env m ops weak how budget lims (\<lambda>sub. merge D' sub)) w4 R = Some (R', w5)"
      "subseq R' R" "?Good (set (merge D' R'))" by blast
    have "Minimize env m ops weaken w = Some (merge D' R', None)"
      using w1 w2 True w3 D'(1) R'(1) unfolding Minimize_def wh [symmetric] bl ended_def dr by (simp add: Let_def)
    moreover have "set (merge D' R') \<subseteq> {i. i < length ops \<and> snd (weaken (ops ! i)) \<noteq> Keep}"
      using subseq_set [OF D'(2)] subseq_set [OF R'(2)] by (auto simp: dr wh)
    ultimately show ?thesis using nl sorted [OF D'(2) R'(2)] R'(3) unfolding wh by auto
  qed
qed

definition frozen :: "unit outside" where
  "frozen = \<lparr>now = (\<lambda>w. (0, w)), ctx_Err = (\<lambda>w. (None, w)), WithTimeout = (\<lambda>w _. (\<lambda>_. None, w))\<rparr>"

theorem Minimize_core_witness:
  "\<exists>core err. Minimize frozen register stale_read_history (\<lambda>x. (x\<lparr>Return := Pending\<rparr>, Replace)) () = Some (core, err)"
proof -
  have "history (map (\<lambda>x. fst (x\<lparr>Return := Pending\<rparr>, Replace)) stale_read_history)"
    by (simp add: history_def int64_times_def stale_read_history_def reg_op_def is_int64_def Pending_def MaxInt64_def)
  then show ?thesis
    using Minimize_core [of stale_read_history "\<lambda>x. (x\<lparr>Return := Pending\<rparr>, Replace)" register frozen "()"]
      example_histories(2) register_same_sound by blast
qed

end
