(* ===== verification/Lin_Partition.thy ===== *)
theory Lin_Partition
  imports Lin_Check
begin

text \<open>
  Splitting a history by key, \<^verbatim>\<open>Partition\<close> of \<^verbatim>\<open>src/linearize/linearize.go\<close>. The object a
  partitioned history is of is a family of objects, one per key; the history of the
  family is linearizable exactly when each part is, as long as no group of operations
  spans parts. With groups that do, the parts can be linearizable and the whole not.
\<close>

definition Partition :: "('i, 'o) Op list \<Rightarrow> ('i \<Rightarrow> 'k) \<Rightarrow> 'k \<Rightarrow> ('i, 'o) Op list option" where
  "Partition ops key = foldl (\<lambda>parts x. let k = key (Input x) in
     parts(k \<mapsto> (case parts k of Some xs \<Rightarrow> xs | None \<Rightarrow> []) @ [x])) Map.empty ops"

definition family :: "('k \<Rightarrow> ('s, 'i, 'o) Model) \<Rightarrow> ('i \<Rightarrow> 'k) \<Rightarrow> ('k \<Rightarrow> 's, 'i, 'o) Model" where
  "family m key = \<lparr>Init = (\<lambda>k. Init (m k)),
     Step = (\<lambda>s i out. case Step (m (key i)) (s (key i)) i out of (ok, t) \<Rightarrow> (ok, s(key i := t))),
     Same = None\<rparr>"

abbreviation key_of :: "('i, 'o) Op list \<Rightarrow> ('i \<Rightarrow> 'k) \<Rightarrow> nat \<Rightarrow> 'k" where
  "key_of ops key i \<equiv> key (Input (ops ! i))"

lemma Partition_filter:
  "Partition ops key k = (let p = filter (\<lambda>x. key (Input x) = k) ops in if p = [] then None else Some p)"
proof -
  have "foldl (\<lambda>parts x. let k = key (Input x) in parts(k \<mapsto> (case parts k of Some xs \<Rightarrow> xs | None \<Rightarrow> []) @ [x])) parts ops k =
      (case parts k of None \<Rightarrow> (let p = filter (\<lambda>x. key (Input x) = k) ops in if p = [] then None else Some p)
       | Some xs \<Rightarrow> Some (xs @ filter (\<lambda>x. key (Input x) = k) ops))" for parts
    by (induction ops arbitrary: parts) (auto simp: Let_def split: option.splits)
  then show ?thesis by (simp add: Partition_def)
qed

subsection \<open>Linearizations of a set of the operations\<close>

definition part_indices :: "('i, 'o) Op list \<Rightarrow> ('i \<Rightarrow> 'k) \<Rightarrow> 'k \<Rightarrow> nat list" where
  "part_indices ops key k = filter (\<lambda>i. key_of ops key i = k) [0..<length ops]"

definition timed :: "('i, 'o) Op list \<Rightarrow> nat list \<Rightarrow> bool" where
  "timed ops ord \<longleftrightarrow> sorted_wrt (\<lambda>i j. Call (ops ! i) \<le> Return (ops ! j)) ord"

definition lin_of :: "('s, 'i, 'o) Model \<Rightarrow> ('i, 'o) Op list \<Rightarrow> nat list \<Rightarrow> nat list \<Rightarrow> bool" where
  "lin_of m ops ixs ord \<longleftrightarrow> distinct ord \<and> set ord = set ixs \<and> timed ops ord \<and> legal_run m ops (Init m) ord \<noteq> None"

lemma real_time_timed:
  assumes "\<And>i. i \<in> set ord \<Longrightarrow> Call (ops ! i) \<le> Return (ops ! i)"
  shows "real_time ops ord \<longleftrightarrow> timed ops ord"
proof -
  have "real_time ops ord \<longleftrightarrow> (\<forall>b < length ord. \<forall>a < b. Call (ops ! (ord ! a)) \<le> Return (ops ! (ord ! b)))" (is "?l \<longleftrightarrow> ?r")
  proof
    assume ?l
    then show ?r unfolding real_time_def by (metis not_le order_less_imp_not_less order_less_trans)
  next
    assume r: ?r
    show ?l unfolding real_time_def
    proof (intro allI impI)
      fix a b assume ab: "a < length ord" "b < length ord" "Return (ops ! (ord ! a)) < Call (ops ! (ord ! b))"
      show "a < b"
      proof (rule ccontr)
        assume "\<not> a < b"
        then consider "a = b" | "b < a" by linarith
        then show False using ab r assms [of "ord ! a"] by cases (auto simp: not_le [symmetric])
      qed
    qed
  qed
  then show ?thesis by (auto simp: timed_def sorted_wrt_iff_nth_less)
qed

lemma legal_run_map:
  "\<forall>p \<in> set ord. p < length ixs \<Longrightarrow> legal_run m (map ((!) ops) ixs) s ord = legal_run m ops s (map ((!) ixs) ord)"
  by (induction ord arbitrary: s) (auto split: prod.splits)

lemma timed_map: "\<forall>p \<in> set ord. p < length ixs \<Longrightarrow> timed (map ((!) ops) ixs) ord \<longleftrightarrow> timed ops (map ((!) ixs) ord)"
  by (induction ord) (auto simp: timed_def)

lemma no_groups_together: "\<forall>x \<in> set ops. op_group x = 0 \<Longrightarrow> set ord \<subseteq> {..<length ops} \<Longrightarrow> groups_together ops ord"
proof -
  assume g: "\<forall>x \<in> set ops. op_group x = 0" and s: "set ord \<subseteq> {..<length ops}"
  have "grp ops (ord ! a) = 0" if "a < length ord" for a using g s nth_mem [OF that] by auto
  then show ?thesis unfolding groups_together_def by (meson order_less_trans)
qed

lemma linearizable_part:
  assumes ixs: "distinct ixs" "set ixs \<subseteq> {..<length ops}" and g: "\<forall>x \<in> set ops. op_group x = 0"
    and t: "\<forall>x \<in> set ops. Call x \<le> Return x"
  shows "linearizable m (map ((!) ops) ixs) \<longleftrightarrow> (\<exists>ord. lin_of m ops ixs ord)"
proof
  let ?p = "map ((!) ops) ixs"
  have good: "\<And>i. i < length ixs \<Longrightarrow> Call (?p ! i) \<le> Return (?p ! i)" and pg: "\<forall>x \<in> set ?p. op_group x = 0"
    using t g ixs(2) nth_mem by fastforce+
  {
    assume "linearizable m ?p"
    then obtain ord where ord: "distinct ord" "set ord = {..<length ixs}" "real_time ?p ord"
      "legal_run m ?p (Init m) ord \<noteq> None" by (auto simp: linearizable_def linearization_def)
    have "timed ops (map ((!) ixs) ord)"
      using real_time_timed [of ord ?p] timed_map [of ord ixs ops] ord good by auto
    moreover have "legal_run m ops (Init m) (map ((!) ixs) ord) \<noteq> None"
      using legal_run_map [of ord ixs m ops "Init m"] ord by auto
    moreover have "distinct (map ((!) ixs) ord)"
      using ord ixs(1) by (auto simp: distinct_map inj_on_def nth_eq_iff_index_eq)
    moreover have "set (map ((!) ixs) ord) = set ixs" using ord(2) by (force simp: in_set_conv_nth)
    ultimately show "\<exists>ord. lin_of m ops ixs ord" unfolding lin_of_def by blast
  next
    assume "\<exists>ord. lin_of m ops ixs ord"
    then obtain ord where ord: "distinct ord" "set ord = set ixs" "timed ops ord" "legal_run m ops (Init m) ord \<noteq> None"
      by (auto simp: lin_of_def)
    have "\<forall>x \<in> set ixs. \<exists>p < length ixs. ixs ! p = x" by (simp add: in_set_conv_nth)
    then obtain f where f: "\<And>x. x \<in> set ixs \<Longrightarrow> f x < length ixs \<and> ixs ! f x = x" by metis
    define ord' where "ord' = map f ord"
    have un: "map ((!) ixs) ord' = ord" using f ord(2) unfolding ord'_def map_map by (intro map_idI) simp
    have rng: "\<forall>p \<in> set ord'. p < length ixs" using f ord(2) by (auto simp: ord'_def)
    have d: "distinct ord'" using un ord(1) distinct_map by metis
    have "card (set ord') = card {..<length ixs}"
      using distinct_card [OF d] distinct_card [OF ord(1)] distinct_card [OF ixs(1)] ord(2)
      by (simp add: ord'_def)
    then have "set ord' = {..<length ixs}" using rng by (intro card_subset_eq) auto
    moreover have "real_time ?p ord'"
      using real_time_timed [of ord' ?p] timed_map [OF rng, of ops] un ord(3) good rng by auto
    moreover have "legal_run m ?p (Init m) ord' \<noteq> None" using legal_run_map [OF rng, of m ops] un ord(4) by simp
    ultimately show "linearizable m ?p" unfolding linearizable_def linearization_def
      using d no_groups_together [OF pg, of ord'] by auto
  }
qed

subsection \<open>Locality\<close>

lemma legal_family:
  "legal_run (family m key) ops s ord \<noteq> None \<longleftrightarrow>
    (\<forall>k. legal_run (m k) ops (s k) (filter (\<lambda>i. key_of ops key i = k) ord) \<noteq> None)"
proof (induction ord arbitrary: s)
  case (Cons i ord)
  let ?k = "key_of ops key i"
  obtain ok t where st: "apply_op (m ?k) ops (s ?k) i = (ok, t)" by force
  then have fam: "apply_op (family m key) ops s i = (ok, s(?k := t))" by (simp add: family_def)
  have "(\<forall>k. legal_run (m k) ops (s k) (filter (\<lambda>i. key_of ops key i = k) (i # ord)) \<noteq> None) \<longleftrightarrow>
      ok \<and> (\<forall>k. legal_run (m k) ops ((s(?k := t)) k) (filter (\<lambda>i. key_of ops key i = k) ord) \<noteq> None)"
    using st by (auto split: if_splits)
  moreover have "legal_run (family m key) ops s (i # ord) \<noteq> None \<longleftrightarrow>
      ok \<and> legal_run (family m key) ops (s(?k := t)) ord \<noteq> None" using fam by simp
  ultimately show ?case using Cons.IH [of "s(?k := t)"] by blast
qed simp

lemma timed_filter: "timed ops ord \<Longrightarrow> timed ops (filter P ord)"
  by (simp add: timed_def sorted_wrt_filter)

lemma takeWhile_nth: "distinct xs \<Longrightarrow> p < length xs \<Longrightarrow> takeWhile (\<lambda>j. j \<noteq> xs ! p) xs = take p xs"
  by (rule takeWhile_eq_take_P_nth) (auto simp: nth_eq_iff_index_eq)

text \<open>
  An operation's time is the latest call among it and those before it in its part's
  order: between its call and its return, and rising along the order.
\<close>

definition slot :: "('i, 'o) Op list \<Rightarrow> nat list \<Rightarrow> nat \<Rightarrow> int" where
  "slot ops ord i = Max ((\<lambda>j. Call (ops ! j)) ` set (i # takeWhile (\<lambda>j. j \<noteq> i) ord))"

lemma slot_call: "Call (ops ! i) \<le> slot ops ord i"
  by (simp add: slot_def)

lemma slot_return:
  assumes "timed ops ord" "distinct ord" "i \<in> set ord" "Call (ops ! i) \<le> Return (ops ! i)"
  shows "slot ops ord i \<le> Return (ops ! i)"
proof -
  obtain p where p: "p < length ord" "ord ! p = i" using assms(3) by (auto simp: in_set_conv_nth)
  have "Call (ops ! j) \<le> Return (ops ! i)" if "j \<in> set (takeWhile (\<lambda>j. j \<noteq> i) ord)" for j
  proof -
    have "j \<in> set (take p ord)" using that takeWhile_nth [OF assms(2) p(1)] p(2) by simp
    then obtain q where "q < p" "ord ! q = j" by (auto simp: in_set_take_conv)
    then show ?thesis using assms(1) p by (auto simp: timed_def sorted_wrt_iff_nth_less)
  qed
  then show ?thesis using assms(4) by (auto simp: slot_def)
qed

lemma slot_rises:
  assumes "distinct ord" shows "sorted (map (slot ops ord) ord)"
proof -
  have "slot ops ord (ord ! p) \<le> slot ops ord (ord ! q)" if "p \<le> q" "q < length ord" for p q
  proof (cases "p = q")
    case False
    have tw: "takeWhile (\<lambda>j. j \<noteq> ord ! p) ord = take p ord" "takeWhile (\<lambda>j. j \<noteq> ord ! q) ord = take q ord"
      using takeWhile_nth [OF assms] that by auto
    have "set (take (Suc p) ord) \<subseteq> set (take q ord)" using that False by (intro set_take_subset_set_take) simp
    then have "set (ord ! p # take p ord) \<subseteq> set (take q ord)"
      using that by (simp add: take_Suc_conv_app_nth)
    then show ?thesis unfolding slot_def tw by (intro Max_mono) auto
  qed simp
  then show ?thesis by (simp add: sorted_iff_nth_mono)
qed

lemma filter_concat_keys:
  assumes "distinct ks" and "\<And>k i. k \<in> set ks \<Longrightarrow> i \<in> set (f k) \<Longrightarrow> key i = k"
  shows "filter (\<lambda>i. key i = k) (concat (map f ks)) = (if k \<in> set ks then f k else [])"
  using assms
proof (induction ks)
  case (Cons k' ks)
  have "filter (\<lambda>i. key i = k) (f k') = (if k' = k then f k' else [])"
    using Cons.prems(2) [of k'] by (auto simp: filter_id_conv filter_empty_conv)
  moreover have "filter (\<lambda>i. key i = k) (concat (map f ks)) = (if k \<in> set ks then f k else [])" using Cons by auto
  ultimately show ?case using Cons.prems(1) by auto
qed simp

lemma merge_parts:
  assumes t: "\<forall>x \<in> set ops. Call x \<le> Return x"
    and ords: "\<And>k. lin_of (m k) ops (part_indices ops key k) (ords k)"
  shows "\<exists>ord. lin_of (family m key) ops [0..<length ops] ord"
proof -
  let ?key = "key_of ops key"
  define ks where "ks = remdups (map ?key [0..<length ops])"
  define tm where "tm i = slot ops (ords (?key i)) i" for i
  define ord where "ord = sort_key tm (concat (map ords ks))"
  have o1: "distinct (ords k)" "set (ords k) = {i. i < length ops \<and> ?key i = k}" "timed ops (ords k)"
    "legal_run (m k) ops (Init (m k)) (ords k) \<noteq> None" for k
    using ords [of k] by (auto simp: lin_of_def part_indices_def)
  have part: "filter (\<lambda>i. ?key i = k) ord = ords k" for k
  proof -
    have "filter (\<lambda>i. ?key i = k) (concat (map ords ks)) = (if k \<in> set ks then ords k else [])"
      using o1(2) by (intro filter_concat_keys) (auto simp: ks_def)
    also have "\<dots> = ords k"
    proof (cases "k \<in> set ks")
      case False
      then have "set (ords k) = {}" unfolding o1(2) by (auto simp: ks_def)
      with False show ?thesis by simp
    qed simp
    finally have "filter (\<lambda>i. ?key i = k) ord = sort_key tm (ords k)" by (simp add: ord_def filter_sort)
    moreover have "map tm (ords k) = map (slot ops (ords k)) (ords k)" using o1(2) by (auto simp: tm_def)
    then have "sorted (map tm (ords k))" using slot_rises [OF o1(1), of ops k] by (simp only:)
    ultimately show ?thesis by (simp add: sort_key_id_if_sorted)
  qed
  have set: "set ord = set [0..<length ops]"
  proof -
    have "set ord = (\<Union>k \<in> set ks. set (ords k))" by (simp add: ord_def)
    also have "\<dots> = {i. i < length ops}" unfolding o1(2) by (auto simp: ks_def)
    finally show ?thesis by (simp add: atLeast0LessThan lessThan_def)
  qed
  have "inj_on ords (set ks)"
  proof (rule inj_onI)
    fix k k' assume "k \<in> set ks" and eq: "ords k = ords k'"
    then obtain i where "i \<in> set (ords k)" unfolding o1(2) by (auto simp: ks_def)
    moreover then have "i \<in> set (ords k')" using eq by simp
    ultimately show "k = k'" unfolding o1(2) by simp
  qed
  then have "distinct (concat (map ords ks))"
    using o1(1,2) by (intro distinct_concat) (auto simp: ks_def distinct_map)
  then have "distinct ord" by (simp add: ord_def)
  moreover have "timed ops ord"
  proof -
    have "Call (ops ! i) \<le> Return (ops ! j)" if "i \<in> set ord" "j \<in> set ord" "tm i \<le> tm j" for i j
      using slot_call [of ops i "ords (?key i)"] slot_return [OF o1(3,1), of j "?key j"] o1(2) set t that
      by (auto simp: tm_def)
    moreover have "sorted_wrt (\<lambda>i j. tm i \<le> tm j) ord"
      using sorted_sort_key [of tm "concat (map ords ks)"] by (simp add: ord_def sorted_map)
    ultimately show ?thesis unfolding timed_def by (rule sorted_wrt_mono_rel)
  qed
  moreover have "legal_run (family m key) ops (Init (family m key)) ord \<noteq> None"
    unfolding legal_family part using o1(4) by (simp add: family_def)
  ultimately show ?thesis using set by (auto simp: lin_of_def)
qed

lemma map_nth_filter: "map ((!) xs) (filter (\<lambda>i. P (xs ! i)) [0..<length xs]) = filter P xs"
proof -
  have "filter P xs = filter P (map ((!) xs) [0..<length xs])" by (simp add: map_nth)
  then show ?thesis by (simp add: filter_map o_def)
qed

text \<open>
  A history of independent objects in which no operation is in a group is
  linearizable exactly when each of the parts \<^verbatim>\<open>Partition\<close> splits it into is (the locality
  of linearizability).
\<close>
theorem Partition_local:
  assumes "\<forall>x \<in> set ops. Call x \<le> Return x" and "\<forall>x \<in> set ops. op_group x = 0"
  shows "linearizable (family m key) ops \<longleftrightarrow> (\<forall>k p. Partition ops key k = Some p \<longrightarrow> linearizable (m k) p)"
proof -
  let ?part = "\<lambda>k. filter (\<lambda>x. key (Input x) = k) ops"
  have parts: "(\<exists>ord. lin_of (m k) ops (part_indices ops key k) ord) \<longleftrightarrow> linearizable (m k) (?part k)" for k
    using linearizable_part [of "part_indices ops key k" ops "m k"] assms map_nth_filter [of ops "\<lambda>x. key (Input x) = k"]
    by (simp add: part_indices_def subset_iff)
  have empty: "linearizable (m k) []" for k
    by (auto simp: linearizable_def linearization_def real_time_def groups_together_def intro!: exI [of _ "[]"])
  have "linearizable (family m key) ops \<longleftrightarrow> (\<exists>ord. lin_of (family m key) ops [0..<length ops] ord)"
    using linearizable_part [of "[0..<length ops]" ops "family m key"] assms by (simp add: map_nth lessThan_atLeast0)
  also have "\<dots> \<longleftrightarrow> (\<forall>k. \<exists>ord. lin_of (m k) ops (part_indices ops key k) ord)"
  proof
    assume "\<exists>ord. lin_of (family m key) ops [0..<length ops] ord"
    then obtain ord where ord: "lin_of (family m key) ops [0..<length ops] ord" by blast
    have "lin_of (m k) ops (part_indices ops key k) (filter (\<lambda>i. key_of ops key i = k) ord)" for k
      using ord legal_family [of m key ops "Init (family m key)" ord]
      by (auto simp: lin_of_def part_indices_def timed_filter family_def)
    then show "\<forall>k. \<exists>ord. lin_of (m k) ops (part_indices ops key k) ord" by blast
  next
    assume "\<forall>k. \<exists>ord. lin_of (m k) ops (part_indices ops key k) ord"
    then obtain ords where "\<And>k. lin_of (m k) ops (part_indices ops key k) (ords k)" by metis
    then show "\<exists>ord. lin_of (family m key) ops [0..<length ops] ord" by (rule merge_parts [OF assms(1)])
  qed
  also have "\<dots> \<longleftrightarrow> (\<forall>k p. Partition ops key k = Some p \<longrightarrow> linearizable (m k) p)"
    unfolding parts Partition_filter Let_def using empty by (metis option.discI option.inject)
  finally show ?thesis .
qed

text \<open>Two registers, the part of the input that names one, and a history of them.\<close>

definition reg_key :: "bool \<times> reg_in \<Rightarrow> bool" where
  "reg_key i = fst i"

definition keyed_register :: "(int, bool \<times> reg_in, int) Model" where
  "keyed_register = \<lparr>Init = 0, Step = (\<lambda>s i out. register_step s (snd i) out), Same = None\<rparr>"

definition two_keys :: "(bool \<times> reg_in, int) Op list" where
  "two_keys = [\<lparr>Client = 0, Call = 0, Return = 1, Group = 0, Input = (True, WriteReg 1), Output = 0\<rparr>,
               \<lparr>Client = 1, Call = 2, Return = 3, Group = 0, Input = (False, ReadReg), Output = 0\<rparr>]"

theorem Partition_local_witness:
  "linearizable (family (\<lambda>_. keyed_register) reg_key) two_keys \<longleftrightarrow>
    (\<forall>k p. Partition two_keys reg_key k = Some p \<longrightarrow> linearizable keyed_register p)"
  by (rule Partition_local) (simp_all add: two_keys_def op_group_def)

subsection \<open>Groups that span parts\<close>

text \<open>
  Two tickets dispensers, each handing out 0, 1, 2 and so on, and four draws of them in two
  groups: the first group draws first at one dispenser and second at the other.
\<close>

definition ticket :: "(int, bool, int) Model" where
  "ticket = \<lparr>Init = 0, Step = (\<lambda>s i out. (out = s, s + 1)), Same = None\<rparr>"

definition draw :: "bool \<Rightarrow> int \<Rightarrow> int \<Rightarrow> (bool, int) Op" where
  "draw k g out = \<lparr>Client = 0, Call = 0, Return = 1, Group = g, Input = k, Output = out\<rparr>"

definition crossed :: "(bool, int) Op list" where
  "crossed = [draw True 1 0, draw False 1 1, draw True 2 1, draw False 2 0]"

definition draws :: "nat \<Rightarrow> (bool \<Rightarrow> int) \<Rightarrow> bool \<times> (bool \<Rightarrow> int)" where
  "draws i s = apply_op (family (\<lambda>_. ticket) (\<lambda>k. k)) crossed s i"

lemma crossed_groups [simp]: "grp crossed 0 = 1" "grp crossed (Suc 0) = 1" "grp crossed 2 = 2" "grp crossed 3 = 2"
  by (simp_all add: crossed_def draw_def op_group_def Pending_def MaxInt64_def)

lemma crossed_draws:
  "draws 0 s = (s True = 0, s(True := s True + 1))" "draws (Suc 0) s = (s False = 1, s(False := s False + 1))"
  "draws 2 s = (s True = 1, s(True := s True + 1))" "draws 3 s = (s False = 0, s(False := s False + 1))"
  by (auto simp: draws_def crossed_def draw_def family_def ticket_def)

lemma legal_draws:
  "legal_run (family (\<lambda>_. ticket) (\<lambda>k. k)) crossed s (i # ord) =
    (if fst (draws i s) then legal_run (family (\<lambda>_. ticket) (\<lambda>k. k)) crossed (snd (draws i s)) ord else None)"
  by (simp add: draws_def split: prod.splits)

lemma crossed_not_linearizable: "\<not> linearizable (family (\<lambda>_. ticket) (\<lambda>k. k)) crossed"
proof
  assume "linearizable (family (\<lambda>_. ticket) (\<lambda>k. k)) crossed"
  then obtain ord where ord: "distinct ord" "set ord = {..<4}" "groups_together crossed ord"
    "legal_run (family (\<lambda>_. ticket) (\<lambda>k. k)) crossed (\<lambda>_. 0) ord \<noteq> None"
    by (auto simp: linearizable_def linearization_def crossed_def family_def ticket_def)
  have "length ord = 4" using distinct_card [OF ord(1)] ord(2) by simp
  then obtain a b c d where abcd: "ord = [a, b, c, d]" by (auto simp: length_Suc_conv numeral_eq_Suc)
  have four: "x \<in> {0, Suc 0, 2, 3}" if "x < 4" for x :: nat using that by (simp add: numeral_eq_Suc less_Suc_eq)
  have "a \<in> set ord" "b \<in> set ord" by (simp_all add: abcd)
  then have mem: "a \<in> {0, Suc 0, 2, 3}" "b \<in> {0, Suc 0, 2, 3}" unfolding ord(2) using four by blast+
  have follow: "grp crossed b = grp crossed a" if "grp crossed x = grp crossed a" "grp crossed a \<noteq> 0" "x = c \<or> x = d" for x
    using ord(3) [unfolded groups_together_def abcd, rule_format, of 0 "Suc 0" 2]
      ord(3) [unfolded groups_together_def abcd, rule_format, of 0 "Suc 0" 3] that by auto
  have run: "fst (draws a (\<lambda>_. 0))" "fst (draws b (snd (draws a (\<lambda>_. 0))))"
    using ord(4) unfolding abcd legal_draws by (auto split: if_splits)
  from run(1) mem(1) have "a = 0 \<or> a = 3" by (auto simp: crossed_draws)
  then show False
  proof
    assume a: "a = 0"
    have "b \<noteq> Suc 0" using run(2) a by (auto simp: crossed_draws)
    moreover have "Suc 0 \<in> set ord" using ord(2) by simp
    ultimately have "Suc 0 = c \<or> Suc 0 = d" using a abcd by auto
    then have "grp crossed b = 1" using follow [of "Suc 0"] a by simp
    then show False using mem(2) \<open>b \<noteq> Suc 0\<close> ord(1) a abcd by auto
  next
    assume a: "a = 3"
    have "b \<noteq> 2" using run(2) a by (auto simp: crossed_draws)
    moreover have "2 \<in> set ord" using ord(2) by simp
    ultimately have "2 = c \<or> 2 = d" using a abcd by auto
    then have "grp crossed b = 2" using follow [of 2] a by simp
    then show False using mem(2) \<open>b \<noteq> 2\<close> ord(1) a abcd by auto
  qed
qed

text \<open>
  C33: with groups that span parts, the parts can each be linearizable and the history
  not. In this history one group draws the first ticket at one dispenser and the second
  at the other, the other group the other way round; each dispenser's draws can be
  ordered, but neither group can come before the other.
\<close>
theorem Partition_not_local_with_groups:
  "(\<exists>p q. Partition crossed (\<lambda>k. k) = [True \<mapsto> p, False \<mapsto> q] \<and> linearizable ticket p \<and> linearizable ticket q) \<and>
    \<not> linearizable (family (\<lambda>_. ticket) (\<lambda>k. k)) crossed"
proof (rule conjI)
  have g: "groups_together ops [x, y]" for x y and ops :: "(bool, int) Op list"
    by (auto simp: groups_together_def)
  have rt: "real_time [draw k g1 o1, draw k g2 o2] [x, y]" if "{x, y} = {0, Suc 0}" for k g1 o1 g2 o2 x y
  proof -
    have "Call ([draw k g1 o1, draw k g2 o2] ! i) = 0 \<and> Return ([draw k g1 o1, draw k g2 o2] ! i) = 1" if "i \<in> {0, Suc 0}" for i
      using that by (auto simp: draw_def)
    moreover have "[x, y] ! a \<in> {0, Suc 0}" if "a < length [x, y]" for a
      using nth_mem [OF that] \<open>{x, y} = {0, Suc 0}\<close> by simp
    ultimately show ?thesis unfolding real_time_def by (metis not_one_less_zero)
  qed
  have "legal_run ticket [draw True 1 0, draw True 2 1] (Init ticket) [0, Suc 0] \<noteq> None"
    "legal_run ticket [draw False 1 1, draw False 2 0] (Init ticket) [Suc 0, 0] \<noteq> None"
    by (simp_all add: ticket_def draw_def)
  moreover have "set [0, Suc 0] = {..<length [draw True 1 0, draw True 2 1]}"
    "set [Suc 0, 0] = {..<length [draw False 1 1, draw False 2 0]}" by auto
  ultimately have "linearization ticket [draw True 1 0, draw True 2 1] [0, Suc 0]"
    "linearization ticket [draw False 1 1, draw False 2 0] [Suc 0, 0]"
    unfolding linearization_def using g rt by auto
  then have lin: "linearizable ticket [draw True 1 0, draw True 2 1]" "linearizable ticket [draw False 1 1, draw False 2 0]"
    by (auto simp: linearizable_def)
  have "Partition crossed (\<lambda>k. k) =
      [True \<mapsto> [draw True 1 0, draw True 2 1], False \<mapsto> [draw False 1 1, draw False 2 0]]"
    by (rule ext, simp add: Partition_filter crossed_def draw_def Let_def)
  then show "\<exists>p q. Partition crossed (\<lambda>k. k) = [True \<mapsto> p, False \<mapsto> q] \<and> linearizable ticket p \<and> linearizable ticket q"
    using lin by blast
qed (rule crossed_not_linearizable)

end
