(* ===== verification/Torx_Text.thy ===== *)
theory Torx_Text
  imports Torx_Prelude
begin

text \<open>
  Go strings as lists of characters, and the few operations of Go's \<^verbatim>\<open>strings\<close>, \<^verbatim>\<open>fmt\<close> and
  \<^verbatim>\<open>strconv\<close> packages that the components use: joining, splitting, trimming, prefixes and
  suffixes, and decimal numbers.
\<close>

subsection \<open>Joining and decimal numbers\<close>

fun join :: "string \<Rightarrow> string list \<Rightarrow> string" where
  "join sep [] = []"
| "join sep [x] = x"
| "join sep (x # xs) = x @ sep @ join sep xs"

definition digit :: "nat \<Rightarrow> char" where
  "digit d = char_of (48 + d)"

fun utoa :: "nat \<Rightarrow> string" where
  "utoa n = (if n < 10 then [digit n] else utoa (n div 10) @ [digit (n mod 10)])"

declare utoa.simps [simp del]

definition itoa :: "int \<Rightarrow> string" where
  "itoa i = (if i < 0 then CHR ''-'' # utoa (nat (- i)) else utoa (nat i))"

end
