(* ===== verification/Torx_Params.thy ===== *)
theory Torx_Params
  imports Torx_Text "HOL-Library.List_Lexorder" "HOL-Library.Char_ord" "HOL-Library.Multiset"
begin

text \<open>
  Parameter sets and the ways to write many of them down: \<^verbatim>\<open>Matrix\<close> and its size from
  \<^verbatim>\<open>src/discovery.go\<close>, and the strict reading of a parameters file from \<^verbatim>\<open>src/params.go\<close>.

  A Go map is a list of its entries, with distinct keys, in the order an iteration of it
  meets them; a nil map is the empty list. A parameter value is a decoded JSON value. A
  call that can panic gives a \<open>run\<close>.
\<close>

datatype val = JNull | JBool bool | JNum int | JStr string | JArr "val list" | JObj "(string \<times> val) list"

type_synonym Params = "(string \<times> val) list"
type_synonym dims = "(string \<times> val list) list"

datatype 'a run = Value 'a | Panicked string

definition MaxVariants :: int where
  "MaxVariants = 2 ^ 16"

datatype disc_error = PanicError string | TooMany int bool | Declares int | DuplicateVariant string | JobError string

subsection \<open>The cross product of dimensions\<close>

fun sizeLoop :: "int \<Rightarrow> dims \<Rightarrow> int \<times> bool" where
  "sizeLoop n [] = (n, True)"
| "sizeLoop n ((k, values) # ds) =
     (if n > MaxInt64 div int (length values) then (MaxInt64, False) else sizeLoop (n * int (length values)) ds)"

definition matrixSize :: "dims \<Rightarrow> int \<times> bool" where
  "matrixSize ds = (if \<exists>d \<in> set ds. snd d = [] then (0, True) else sizeLoop 1 ds)"

definition tooManyVariants :: "int \<Rightarrow> bool \<Rightarrow> string" where
  "tooManyVariants n exact = ''expands to '' @ (if exact then [] else ''more than '') @ itoa n @
     '' variants; the limit is '' @ itoa MaxVariants"

definition Matrix :: "dims \<Rightarrow> Params list run" where
  "Matrix ds =
     (case matrixSize ds of (n, exact) \<Rightarrow>
        if n > MaxVariants then Panicked (''torx: matrix '' @ tooManyVariants n exact)
        else if n = 0 then Value []
        else Value (foldl (\<lambda>result k. concat (map (\<lambda>base. map (\<lambda>v. base @ [(k, v)]) (the (map_of ds k))) result))
               [[]] (sort (map fst ds))))"

subsection \<open>Overrides\<close>

record ParamsOverride =
  oMatrix :: dims
  Configs :: "Params list"

definition override_size :: "ParamsOverride \<Rightarrow> int \<times> bool" where
  "override_size ov =
     (let n = int (length (Configs ov)) in
      if oMatrix ov = [] then (n, True)
      else (case matrixSize (oMatrix ov) of (m, mexact) \<Rightarrow>
        if \<not> mexact \<or> m > MaxInt64 - n then (MaxInt64, False) else (n + m, True)))"

definition variants :: "ParamsOverride \<Rightarrow> (disc_error + Params list) run" where
  "variants ov =
     (case override_size ov of (n, exact) \<Rightarrow>
        if n > MaxVariants then Value (Inl (TooMany n exact))
        else if oMatrix ov \<noteq> [] then
          (case Matrix (oMatrix ov) of
             Panicked s \<Rightarrow> Panicked s
           | Value ps \<Rightarrow> Value (Inr (ps @ Configs ov)))
        else Value (Inr (Configs ov)))"

subsection \<open>Reading a parameters file\<close>

datatype path_elem = AtKey string | AtIndex nat

datatype params_error =
    BadJSON | NotKeyed | NotEntry | UnknownField string | NeedsForm
  | NotMatrix | MatrixEmpty | DimensionNull string | DimensionEmpty string | DimensionValue string nat "path_elem list"
  | NotConfigs | ConfigsEmpty | NotConfig nat | ConfigValue nat string "path_elem list"
  | Oversize int bool

fun rejectNulls :: "val \<Rightarrow> path_elem list option"
  and rejectNullsObj :: "(string \<times> val) list \<Rightarrow> path_elem list option"
  and rejectNullsArr :: "nat \<Rightarrow> val list \<Rightarrow> path_elem list option" where
  "rejectNulls JNull = Some []"
| "rejectNulls (JObj kvs) = rejectNullsObj kvs"
| "rejectNulls (JArr vs) = rejectNullsArr 0 vs"
| "rejectNulls (JBool b) = None"
| "rejectNulls (JNum n) = None"
| "rejectNulls (JStr s) = None"
| "rejectNullsObj [] = None"
| "rejectNullsObj (kv # kvs) = (case rejectNulls (snd kv) of
     Some p \<Rightarrow> Some (AtKey (fst kv) # p) | None \<Rightarrow> rejectNullsObj kvs)"
| "rejectNullsArr i [] = None"
| "rejectNullsArr i (v # vs) = (case rejectNulls v of
     Some p \<Rightarrow> Some (AtIndex i # p) | None \<Rightarrow> rejectNullsArr (Suc i) vs)"

fun last_wins :: "(string \<times> 'v) list \<Rightarrow> (string \<times> 'v) list" where
  "last_wins [] = []"
| "last_wins ((k, v) # kvs) = (if k \<in> fst ` set kvs then last_wins kvs else (k, v) # last_wins kvs)"

definition as_object :: "val \<Rightarrow> (string \<times> val) list option" where
  "as_object v = (case v of JObj kvs \<Rightarrow> Some (last_wins kvs) | _ \<Rightarrow> None)"

definition as_slice :: "val \<Rightarrow> val list option option" where
  "as_slice v = (case v of JArr vs \<Rightarrow> Some (Some vs) | JNull \<Rightarrow> Some None | _ \<Rightarrow> None)"

fun firstNull :: "nat \<Rightarrow> val list \<Rightarrow> (nat \<times> path_elem list) option" where
  "firstNull i [] = None"
| "firstNull i (v # vs) = (case rejectNulls v of Some p \<Rightarrow> Some (i, p) | None \<Rightarrow> firstNull (Suc i) vs)"

fun checkDims :: "(string \<times> val list option) list \<Rightarrow> params_error + dims" where
  "checkDims [] = Inr []"
| "checkDims ((name, values) # ds) =
     (case values of
        None \<Rightarrow> Inl (DimensionNull name)
      | Some vs \<Rightarrow>
          if vs = [] then Inl (DimensionEmpty name)
          else (case firstNull 0 vs of
            Some (i, p) \<Rightarrow> Inl (DimensionValue name i p)
          | None \<Rightarrow> (case checkDims ds of Inl e \<Rightarrow> Inl e | Inr r \<Rightarrow> Inr ((name, vs) # r))))"

definition parseMatrix :: "val \<Rightarrow> params_error + dims" where
  "parseMatrix raw =
     (case raw of
        JObj kvs \<Rightarrow>
          if \<exists>kv \<in> set kvs. as_slice (snd kv) = None then Inl NotMatrix
          else if kvs = [] then Inl MatrixEmpty
          else checkDims (last_wins (map (\<lambda>kv. (fst kv, the (as_slice (snd kv)))) kvs))
      | _ \<Rightarrow> Inl NotMatrix)"

fun firstNullKey :: "Params \<Rightarrow> (string \<times> path_elem list) option" where
  "firstNullKey [] = None"
| "firstNullKey ((k, v) # kvs) = (case rejectNulls v of Some p \<Rightarrow> Some (k, p) | None \<Rightarrow> firstNullKey kvs)"

fun parseConfigList :: "nat \<Rightarrow> val list \<Rightarrow> params_error + Params list" where
  "parseConfigList i [] = Inr []"
| "parseConfigList i (item # list) =
     (case as_object item of
        None \<Rightarrow> Inl (NotConfig i)
      | Some p \<Rightarrow> (case firstNullKey p of
          Some (k, at_path) \<Rightarrow> Inl (ConfigValue i k at_path)
        | None \<Rightarrow> (case parseConfigList (Suc i) list of Inl e \<Rightarrow> Inl e | Inr ps \<Rightarrow> Inr (p # ps))))"

definition parseConfigs :: "val \<Rightarrow> params_error + Params list" where
  "parseConfigs raw = (case raw of
     JArr list \<Rightarrow> if list = [] then Inl ConfigsEmpty else parseConfigList 0 list
   | _ \<Rightarrow> Inl NotConfigs)"

definition parseForms :: "val option \<Rightarrow> val option \<Rightarrow> params_error + ParamsOverride" where
  "parseForms matrixRaw configsRaw =
     (case (case matrixRaw of None \<Rightarrow> Inr [] | Some raw \<Rightarrow> parseMatrix raw) of
        Inl e \<Rightarrow> Inl e
      | Inr m \<Rightarrow>
          (case (case configsRaw of None \<Rightarrow> Inr [] | Some raw \<Rightarrow> parseConfigs raw) of
             Inl e \<Rightarrow> Inl e
           | Inr c \<Rightarrow> Inr \<lparr>oMatrix = m, Configs = c\<rparr>))"

definition parseOverride :: "val \<Rightarrow> params_error + ParamsOverride" where
  "parseOverride raw =
     (case as_object raw of
        None \<Rightarrow> Inl NotEntry
      | Some flds \<Rightarrow>
          (case find (\<lambda>kv. fst kv \<noteq> ''matrix'' \<and> fst kv \<noteq> ''configs'') flds of
             Some kv \<Rightarrow> Inl (UnknownField (fst kv))
           | None \<Rightarrow>
               if map_of flds ''matrix'' = None \<and> map_of flds ''configs'' = None then Inl NeedsForm
               else (case parseForms (map_of flds ''matrix'') (map_of flds ''configs'') of
                 Inl e \<Rightarrow> Inl e
               | Inr ov \<Rightarrow> (case override_size ov of (n, exact) \<Rightarrow>
                   if n > MaxVariants then Inl (Oversize n exact) else Inr ov))))"

fun parseEntries :: "(string \<times> val) list \<Rightarrow> (string \<times> params_error) + (string \<times> ParamsOverride) list" where
  "parseEntries [] = Inr []"
| "parseEntries ((jid, raw) # entries) =
     (case parseOverride raw of
        Inl e \<Rightarrow> Inl (jid, e)
      | Inr ov \<Rightarrow> (case parseEntries entries of Inl e \<Rightarrow> Inl e | Inr ovs \<Rightarrow> Inr ((jid, ov) # ovs)))"

definition ParseParamsOverrides :: "val option \<Rightarrow> (string \<times> params_error) + (string \<times> ParamsOverride) list" where
  "ParseParamsOverrides data =
     (case data of
        None \<Rightarrow> Inl ([], BadJSON)
      | Some JNull \<Rightarrow> Inl ([], NotKeyed)
      | Some v \<Rightarrow> (case as_object v of
          None \<Rightarrow> Inl ([], BadJSON)
        | Some entries \<Rightarrow> parseEntries (map (\<lambda>jid. (jid, the (map_of entries jid))) (sort (map fst entries)))))"

subsection \<open>Sizes\<close>

definition points :: "dims \<Rightarrow> int" where
  "points ds = prod_list (map (\<lambda>d. int (length (snd d))) ds)"

lemma points_simps [simp]: "points [] = 1" "points (d # ds) = int (length (snd d)) * points ds"
  by (simp_all add: points_def)

lemma points_nonneg [simp]: "0 \<le> points ds"
  by (induction ds) auto

lemma points_pos: "\<forall>d \<in> set ds. snd d \<noteq> [] \<Longrightarrow> 1 \<le> points ds"
proof (induction ds)
  case (Cons d ds)
  then have "1 * 1 \<le> int (length (snd d)) * points ds" by (intro mult_mono) (auto simp: Suc_le_eq)
  then show ?case by simp
qed simp

lemma points_zero: "points ds = 0 \<longleftrightarrow> (\<exists>d \<in> set ds. snd d = [])"
  by (induction ds) auto

lemma div_less_iff_int: "0 < b \<Longrightarrow> a div b < n \<longleftrightarrow> a < n * (b :: int)"
proof
  assume b: "0 < b" and "a div b < n"
  then have "(a div b + 1) * b \<le> n * b" by (intro mult_right_mono) auto
  moreover have "a < (a div b + 1) * b"
    using pos_mod_bound [OF b, of a] div_mult_mod_eq [of a b] unfolding distrib_right by linarith
  ultimately show "a < n * b" by simp
next
  assume b: "0 < b" and lt: "a < n * b"
  show "a div b < n"
  proof (rule ccontr)
    assume "\<not> a div b < n"
    then have "n * b \<le> a div b * b" using b by (intro mult_right_mono) auto
    then show False using lt pos_mod_sign [OF b, of a] div_mult_mod_eq [of a b] by simp
  qed
qed

lemma sizeLoop_spec:
  assumes "\<forall>d \<in> set ds. snd d \<noteq> []" "1 \<le> n" "n \<le> MaxInt64"
  shows "sizeLoop n ds = (if n * points ds \<le> MaxInt64 then (n * points ds, True) else (MaxInt64, False))"
  using assms
proof (induction n ds rule: sizeLoop.induct)
  case (2 n k vs ds)
  let ?l = "int (length vs)"
  have l: "1 \<le> ?l" using 2(2) by (auto simp: Suc_le_eq)
  have p: "1 \<le> points ds" using 2(2) by (intro points_pos) simp
  have over: "n > MaxInt64 div ?l \<longleftrightarrow> n * ?l > MaxInt64" using l by (intro div_less_iff_int) linarith
  show ?case
  proof (cases "n * ?l > MaxInt64")
    case True
    moreover have "n * ?l * 1 \<le> n * ?l * points ds" using p l 2(3) by (intro mult_left_mono) auto
    ultimately show ?thesis using over by (simp add: mult.assoc)
  next
    case False
    moreover have "1 * 1 \<le> n * ?l" using l 2(3) by (intro mult_mono) auto
    ultimately show ?thesis using over 2 by (simp add: mult.assoc)
  qed
qed simp

lemma matrixSize_spec: "matrixSize ds = (if points ds \<le> MaxInt64 then (points ds, True) else (MaxInt64, False))"
proof (cases "\<exists>d \<in> set ds. snd d = []")
  case True
  then have "points ds = 0" by (simp add: points_zero)
  then show ?thesis using True by (simp add: matrixSize_def MaxInt64_def)
next
  case False
  then show ?thesis using sizeLoop_spec [of ds 1] by (simp add: matrixSize_def MaxInt64_def)
qed

lemma points_set:
  assumes "distinct (map fst ds)" "distinct (map fst ds')" "set ds = set ds'"
  shows "points ds = points ds'"
proof -
  have p: "points ds = (\<Prod>d \<in> set ds. int (length (snd d)))" if "distinct (map fst ds)" for ds
    using that unfolding points_def distinct_map by (intro prod.distinct_set_conv_list [symmetric]) blast
  show ?thesis using p [OF assms(1)] p [OF assms(2)] assms(3) by simp
qed

subsection \<open>Points\<close>

abbreviation extend :: "(string \<Rightarrow> val list) \<Rightarrow> Params list \<Rightarrow> string \<Rightarrow> Params list" where
  "extend f result k \<equiv> concat (map (\<lambda>base. map (\<lambda>v. base @ [(k, v)]) (f k)) result)"

definition point_of :: "(string \<Rightarrow> val list) \<Rightarrow> string list \<Rightarrow> Params \<Rightarrow> bool" where
  "point_of f ks p \<longleftrightarrow> map fst p = ks \<and> (\<forall>kv \<in> set p. snd kv \<in> set (f (fst kv)))"

lemma point_of_snoc: "point_of f (ks @ [k]) p \<longleftrightarrow> (\<exists>q v. p = q @ [(k, v)] \<and> point_of f ks q \<and> v \<in> set (f k))"
proof
  assume p: "point_of f (ks @ [k]) p"
  then obtain q x where "p = q @ [x]" unfolding point_of_def by (metis append_is_Nil_conv map_is_Nil_conv not_Cons_self2 rev_exhaust)
  with p show "\<exists>q v. p = q @ [(k, v)] \<and> point_of f ks q \<and> v \<in> set (f k)"
    by (cases x) (auto simp: point_of_def)
qed (auto simp: point_of_def)

lemma set_extend_all: "p \<in> set (foldl (extend f) [[]] ks) \<longleftrightarrow> point_of f ks p"
proof (induction ks arbitrary: p rule: rev_induct)
  case Nil
  then show ?case by (auto simp: point_of_def)
next
  case (snoc k ks)
  then show ?case by (auto simp: point_of_snoc)
qed

lemma length_extend_all: "length (foldl (extend f) [[]] ks) = prod_list (map (\<lambda>k. length (f k)) ks)"
proof (induction ks rule: rev_induct)
  case (snoc k ks)
  have "length (extend f R k) = length R * length (f k)" for R by (induction R) auto
  with snoc show ?case by simp
qed simp

lemma distinct_extend_all: "(\<And>k. k \<in> set ks \<Longrightarrow> distinct (f k)) \<Longrightarrow> distinct (foldl (extend f) [[]] ks)"
proof (induction ks rule: rev_induct)
  case (snoc k ks)
  have "distinct (extend f R k)" if "distinct R" for R
    using that snoc.prems [of k] by (induction R) (auto simp: distinct_map inj_on_def)
  with snoc show ?case by simp
qed simp

lemma prod_list_perm: "mset xs = mset ys \<Longrightarrow> prod_list xs = (prod_list ys :: nat)"
  by (metis prod_mset_prod_list)

lemma int_prod_list: "int (prod_list xs) = prod_list (map int xs)"
  by (induction xs) auto

lemma points_sorted:
  assumes "distinct (map fst ds)"
  shows "int (prod_list (map (\<lambda>k. length (the (map_of ds k))) (sort (map fst ds)))) = points ds"
proof -
  have "prod_list (map (\<lambda>k. length (the (map_of ds k))) (sort (map fst ds))) =
      prod_list (map (\<lambda>k. length (the (map_of ds k))) (map fst ds))"
    by (intro prod_list_perm) (metis mset_map mset_sort)
  also have "map (\<lambda>k. length (the (map_of ds k))) (map fst ds) = map (\<lambda>d. length (snd d)) ds"
    using assms by (auto simp: map_of_eq_Some_iff intro!: arg_cong [where f = length])
  finally show ?thesis by (simp add: points_def int_prod_list o_def)
qed

lemma Matrix_value:
  assumes "distinct (map fst ds)"
  shows "Matrix ds = (if points ds > MaxVariants then Panicked (''torx: matrix '' @ case_prod tooManyVariants (matrixSize ds))
    else Value (foldl (extend (\<lambda>k. the (map_of ds k))) [[]] (sort (map fst ds))))"
proof (cases "points ds = 0")
  case True
  have "int (length (foldl (extend (\<lambda>k. the (map_of ds k))) [[]] (sort (map fst ds)))) = points ds"
    using points_sorted [OF assms] by (simp add: length_extend_all)
  then show ?thesis using True by (simp add: Matrix_def matrixSize_spec MaxInt64_def MaxVariants_def)
next
  case False
  then show ?thesis by (auto simp: Matrix_def matrixSize_spec MaxInt64_def MaxVariants_def)
qed

text \<open>
  \<^verbatim>\<open>matrixSize\<close> is the number of points of the cross product, exactly when that fits an
  int and saturated with exact as false when it does not, whatever order the map of
  dimensions is walked in.
\<close>
theorem matrixSize_saturates:
  assumes "distinct (map fst ds)" "distinct (map fst ds')" "set ds = set ds'"
  shows "matrixSize ds = matrixSize ds' \<and>
    matrixSize ds = (let n = \<Prod>d \<in> set ds. int (length (snd d)) in if n \<le> MaxInt64 then (n, True) else (MaxInt64, False))"
proof -
  have "points ds = (\<Prod>d \<in> set ds. int (length (snd d)))"
    using assms(1) unfolding points_def distinct_map by (intro prod.distinct_set_conv_list [symmetric]) blast
  then show ?thesis using points_set [OF assms] by (simp add: matrixSize_spec Let_def)
qed

theorem matrixSize_saturates_witness:
  "matrixSize [(''a'', [JNum 1, JNum 2]), (''b'', [JNum 3])] = matrixSize [(''b'', [JNum 3]), (''a'', [JNum 1, JNum 2])]"
  using matrixSize_saturates [of "[(''a'', [JNum 1, JNum 2]), (''b'', [JNum 3])]" "[(''b'', [JNum 3]), (''a'', [JNum 1, JNum 2])]"]
  by auto

text \<open>
  \<^verbatim>\<open>Matrix\<close> panics exactly when the cross product has more than MaxVariants points, and
  otherwise gives each point of it once: the parameter sets with the dimensions' names in
  sorted order, each with one of its values. With no dimensions that is the one empty
  set, with an empty dimension none. The order of the map of dimensions plays no part.
\<close>
theorem Matrix_cross_product:
  assumes "distinct (map fst ds)" "\<And>k vs. (k, vs) \<in> set ds \<Longrightarrow> distinct vs"
  shows "case Matrix ds of
      Panicked _ \<Rightarrow> points ds > MaxVariants
    | Value ps \<Rightarrow> points ds \<le> MaxVariants \<and> int (length ps) = points ds \<and> distinct ps \<and>
        (\<forall>p. p \<in> set ps \<longleftrightarrow> map fst p = sort (map fst ds) \<and>
          (\<forall>kv \<in> set p. \<exists>vs. (fst kv, vs) \<in> set ds \<and> snd kv \<in> set vs))"
proof (cases "points ds > MaxVariants")
  case True
  then show ?thesis by (simp add: Matrix_value [OF assms(1)])
next
  case False
  let ?f = "\<lambda>k. the (map_of ds k)"
  have look: "?f k = vs" if "(k, vs) \<in> set ds" for k vs using map_of_is_SomeI [OF assms(1) that] by simp
  have keys: "\<exists>vs. (k, vs) \<in> set ds" if "k \<in> set (sort (map fst ds))" for k using that by auto
  have "distinct (foldl (extend ?f) [[]] (sort (map fst ds)))"
    using assms(2) look keys by (intro distinct_extend_all) metis
  moreover have "point_of ?f (sort (map fst ds)) p \<longleftrightarrow> map fst p = sort (map fst ds) \<and>
      (\<forall>kv \<in> set p. \<exists>vs. (fst kv, vs) \<in> set ds \<and> snd kv \<in> set vs)" for p
  proof -
    have "snd kv \<in> set (?f (fst kv)) \<longleftrightarrow> (\<exists>vs. (fst kv, vs) \<in> set ds \<and> snd kv \<in> set vs)"
      if "map fst p = sort (map fst ds)" "kv \<in> set p" for kv
    proof -
      have "fst kv \<in> set (map fst p)" using that(2) by simp
      then have "fst kv \<in> set (sort (map fst ds))" by (simp only: that(1))
      then obtain vs where "(fst kv, vs) \<in> set ds" using keys by blast
      then show ?thesis using look by metis
    qed
    then show ?thesis unfolding point_of_def by blast
  qed
  ultimately show ?thesis using False points_sorted [OF assms(1)]
    by (simp add: Matrix_value [OF assms(1)] set_extend_all length_extend_all)
qed

theorem Matrix_cross_product_witness:
  "\<exists>ps. Matrix [(''b'', [JNum 3]), (''a'', [JNum 1, JNum 2])] = Value ps \<and>
    [(''a'', JNum 2), (''b'', JNum 3)] \<in> set ps \<and> length ps = 2"
proof -
  let ?ds = "[(''b'', [JNum 3]), (''a'', [JNum 1, JNum 2])]"
  have "sort (map fst ?ds) = [''a'', ''b'']" by code_simp
  moreover have "points ?ds \<le> MaxVariants" "points ?ds = 2" by (simp_all add: MaxVariants_def)
  moreover have "\<And>k vs. (k, vs) \<in> set ?ds \<Longrightarrow> distinct vs" by auto
  ultimately show ?thesis using Matrix_cross_product [of ?ds] by (cases "Matrix ?ds") auto
qed

subsection \<open>What a parameters file may hold\<close>

fun null_free :: "val \<Rightarrow> bool" where
  "null_free JNull \<longleftrightarrow> False"
| "null_free (JObj kvs) \<longleftrightarrow> (\<forall>kv \<in> set kvs. null_free (snd kv))"
| "null_free (JArr vs) \<longleftrightarrow> (\<forall>v \<in> set vs. null_free v)"
| "null_free _ \<longleftrightarrow> True"

lemma rejectNulls_None:
  "rejectNulls v = None \<longleftrightarrow> null_free v"
  "rejectNullsObj kvs = None \<longleftrightarrow> (\<forall>kv \<in> set kvs. null_free (snd kv))"
  "rejectNullsArr i vs = None \<longleftrightarrow> (\<forall>v \<in> set vs. null_free v)"
  by (induction v and kvs and i vs rule: rejectNulls_rejectNullsObj_rejectNullsArr.induct)
    (auto split: option.splits)

lemma firstNull_None: "firstNull i vs = None \<longleftrightarrow> (\<forall>v \<in> set vs. null_free v)"
  by (induction i vs rule: firstNull.induct) (auto simp: rejectNulls_None [symmetric] split: option.splits)

lemma firstNullKey_None: "firstNullKey p = None \<longleftrightarrow> (\<forall>kv \<in> set p. null_free (snd kv))"
  by (induction p rule: firstNullKey.induct) (auto simp: rejectNulls_None [symmetric] split: option.splits)

lemma keys_last_wins [simp]: "fst ` set (last_wins kvs) = fst ` set kvs"
  by (induction kvs rule: last_wins.induct) (auto simp: image_iff)

lemma distinct_last_wins: "distinct (map fst (last_wins kvs))"
  by (induction kvs rule: last_wins.induct) auto

lemma last_wins_id: "distinct (map fst kvs) \<Longrightarrow> last_wins kvs = kvs"
  by (induction kvs rule: last_wins.induct) auto

lemma last_wins_Nil: "last_wins kvs = [] \<longleftrightarrow> kvs = []"
  by (induction kvs rule: last_wins.induct) auto

definition good_dim :: "val list \<Rightarrow> bool" where
  "good_dim vs \<longleftrightarrow> vs \<noteq> [] \<and> (\<forall>v \<in> set vs. null_free v)"

definition wf_override :: "ParamsOverride \<Rightarrow> bool" where
  "wf_override ov \<longleftrightarrow> distinct (map fst (oMatrix ov)) \<and> (\<forall>d \<in> set (oMatrix ov). good_dim (snd d)) \<and>
     (\<forall>p \<in> set (Configs ov). distinct (map fst p) \<and> (\<forall>kv \<in> set p. null_free (snd kv))) \<and>
     (oMatrix ov \<noteq> [] \<or> Configs ov \<noteq> []) \<and>
     (if oMatrix ov = [] then 0 else points (oMatrix ov)) + int (length (Configs ov)) \<le> MaxVariants"

lemma checkDims_Inr:
  "checkDims ds = Inr r \<longleftrightarrow> map (\<lambda>d. (fst d, Some (snd d))) r = ds \<and> (\<forall>d \<in> set r. good_dim (snd d))"
proof (induction ds arbitrary: r rule: checkDims.induct)
  case (2 name vals ds)
  show ?case
  proof (cases "\<exists>vs. vals = Some vs \<and> good_dim vs")
    case True
    then obtain vs where vs: "vals = Some vs" "vs \<noteq> []" "firstNull 0 vs = None" "good_dim vs"
      by (auto simp: good_dim_def firstNull_None)
    then have "checkDims ((name, vals) # ds) = Inr r \<longleftrightarrow> (\<exists>r'. checkDims ds = Inr r' \<and> r = (name, vs) # r')"
      by (auto split: sum.splits)
    also have "\<dots> \<longleftrightarrow> (\<exists>r'. map (\<lambda>d. (fst d, Some (snd d))) r' = ds \<and> (\<forall>d \<in> set r'. good_dim (snd d)) \<and> r = (name, vs) # r')"
      using 2 vs by auto
    also have "\<dots> \<longleftrightarrow> map (\<lambda>d. (fst d, Some (snd d))) r = (name, vals) # ds \<and> (\<forall>d \<in> set r. good_dim (snd d))"
      using vs by (cases r) (auto simp: prod_eq_iff)
    finally show ?thesis .
  next
    case False
    then have "checkDims ((name, vals) # ds) \<noteq> Inr r"
      using firstNull_None [where i = 0] by (auto simp: good_dim_def split: option.splits)
    moreover have "\<not> (map (\<lambda>d. (fst d, Some (snd d))) r = (name, vals) # ds \<and> (\<forall>d \<in> set r. good_dim (snd d)))"
      using False by (cases r) auto
    ultimately show ?thesis by blast
  qed
qed auto

lemma parseConfigList_Inr:
  "parseConfigList i items = Inr ps \<longleftrightarrow> map as_object items = map Some ps \<and> (\<forall>p \<in> set ps. \<forall>kv \<in> set p. null_free (snd kv))"
proof (induction i items arbitrary: ps rule: parseConfigList.induct)
  case (2 i item items)
  show ?case
  proof (cases "\<exists>p. as_object item = Some p \<and> firstNullKey p = None")
    case True
    then obtain p where p: "as_object item = Some p" "firstNullKey p = None" by blast
    then have "parseConfigList i (item # items) = Inr ps \<longleftrightarrow> (\<exists>ps'. parseConfigList (Suc i) items = Inr ps' \<and> ps = p # ps')"
      by (auto split: sum.splits)
    also have "\<dots> \<longleftrightarrow> (\<exists>ps'. map as_object items = map Some ps' \<and> (\<forall>p \<in> set ps'. \<forall>kv \<in> set p. null_free (snd kv)) \<and> ps = p # ps')"
      using 2 p by auto
    also have "\<dots> \<longleftrightarrow> map as_object (item # items) = map Some ps \<and> (\<forall>p \<in> set ps. \<forall>kv \<in> set p. null_free (snd kv))"
      using p by (cases ps) (auto simp: firstNullKey_None)
    finally show ?thesis .
  next
    case False
    then have "parseConfigList i (item # items) \<noteq> Inr ps" by (auto split: option.splits)
    moreover have "\<not> (map as_object (item # items) = map Some ps \<and> (\<forall>p \<in> set ps. \<forall>kv \<in> set p. null_free (snd kv)))"
      using False by (cases ps) (auto simp: firstNullKey_None)
    ultimately show ?thesis by blast
  qed
qed auto

lemma as_object_distinct: "as_object v = Some p \<Longrightarrow> distinct (map fst p)"
  by (auto simp: as_object_def distinct_last_wins split: val.splits)

lemma parseMatrix_Inr:
  assumes "parseMatrix raw = Inr ds"
  shows "ds \<noteq> [] \<and> distinct (map fst ds) \<and> (\<forall>d \<in> set ds. good_dim (snd d))"
proof -
  obtain kvs where kvs: "raw = JObj kvs" "kvs \<noteq> []"
    "checkDims (last_wins (map (\<lambda>kv. (fst kv, the (as_slice (snd kv)))) kvs)) = Inr ds"
    using assms by (cases raw) (auto simp: parseMatrix_def split: if_splits)
  let ?l = "last_wins (map (\<lambda>kv. (fst kv, the (as_slice (snd kv)))) kvs)"
  have eq: "map (\<lambda>d. (fst d, Some (snd d))) ds = ?l" and good: "\<forall>d \<in> set ds. good_dim (snd d)"
    using kvs(3) by (simp_all add: checkDims_Inr)
  have "?l \<noteq> []" using kvs(2) by (simp add: last_wins_Nil)
  then have "ds \<noteq> []" using eq by auto
  moreover have "map fst ds = map fst ?l" unfolding eq [symmetric] by simp
  then have "distinct (map fst ds)" using distinct_last_wins by metis
  ultimately show ?thesis using good by blast
qed

lemma parseConfigs_Inr:
  assumes "parseConfigs raw = Inr ps"
  shows "ps \<noteq> [] \<and> (\<forall>p \<in> set ps. distinct (map fst p) \<and> (\<forall>kv \<in> set p. null_free (snd kv)))"
proof -
  obtain items where items: "raw = JArr items" "items \<noteq> []" "parseConfigList 0 items = Inr ps"
    using assms by (cases raw) (auto simp: parseConfigs_def split: if_splits)
  then have eq: "map as_object items = map Some ps" and "\<forall>p \<in> set ps. \<forall>kv \<in> set p. null_free (snd kv)"
    by (simp_all add: parseConfigList_Inr)
  moreover have "distinct (map fst p)" if "p \<in> set ps" for p
  proof -
    have "Some p \<in> set (map as_object items)" using that eq by simp
    then show ?thesis using as_object_distinct by fastforce
  qed
  moreover have "ps \<noteq> []" using eq items(2) by auto
  ultimately show ?thesis by blast
qed

lemma override_size_spec:
  "override_size ov = (let n = (if oMatrix ov = [] then 0 else points (oMatrix ov)) + int (length (Configs ov)) in
     if n \<le> MaxInt64 \<or> oMatrix ov = [] then (n, True) else (MaxInt64, False))"
  by (auto simp: override_size_def matrixSize_spec Let_def)

lemma parseForms_Inr:
  assumes "parseForms mr cr = Inr ov"
  shows "(case mr of None \<Rightarrow> oMatrix ov = [] | Some raw \<Rightarrow> parseMatrix raw = Inr (oMatrix ov)) \<and>
    (case cr of None \<Rightarrow> Configs ov = [] | Some raw \<Rightarrow> parseConfigs raw = Inr (Configs ov))"
  using assms by (auto simp: parseForms_def split: sum.splits option.splits)

lemma parseOverride_wf:
  assumes "parseOverride raw = Inr ov"
  shows "wf_override ov"
proof -
  obtain flds where forms: "\<not> (map_of flds ''matrix'' = None \<and> map_of flds ''configs'' = None)"
    "parseForms (map_of flds ''matrix'') (map_of flds ''configs'') = Inr ov" "fst (override_size ov) \<le> MaxVariants"
    using assms by (auto simp: parseOverride_def split: option.splits if_splits sum.splits prod.splits)
  note F = parseForms_Inr [OF forms(2)]
  have m: "distinct (map fst (oMatrix ov)) \<and> (\<forall>d \<in> set (oMatrix ov). good_dim (snd d))"
    "map_of flds ''matrix'' \<noteq> None \<Longrightarrow> oMatrix ov \<noteq> []"
    using F parseMatrix_Inr [of _ "oMatrix ov"] by (auto split: option.splits)
  have c: "\<forall>p \<in> set (Configs ov). distinct (map fst p) \<and> (\<forall>kv \<in> set p. null_free (snd kv))"
    "map_of flds ''configs'' \<noteq> None \<Longrightarrow> Configs ov \<noteq> []"
    using F parseConfigs_Inr [of _ "Configs ov"] by (auto split: option.splits)
  have "(if oMatrix ov = [] then 0 else points (oMatrix ov)) + int (length (Configs ov)) \<le> MaxVariants"
    using forms(3) by (auto simp: override_size_spec Let_def MaxVariants_def MaxInt64_def split: if_splits)
  moreover have "oMatrix ov \<noteq> [] \<or> Configs ov \<noteq> []" using m(2) c(2) forms(1) by argo
  ultimately show ?thesis using m(1) c(1) unfolding wf_override_def by simp
qed

lemma variants_wf:
  assumes "wf_override ov"
  shows "\<exists>ps. variants ov = Value (Inr ps) \<and>
    int (length ps) = (if oMatrix ov = [] then 0 else points (oMatrix ov)) + int (length (Configs ov)) \<and>
    override_size ov = (int (length ps), True)"
proof -
  have n: "(if oMatrix ov = [] then 0 else points (oMatrix ov)) + int (length (Configs ov)) \<le> MaxVariants"
    and d: "distinct (map fst (oMatrix ov))" using assms by (simp_all add: wf_override_def)
  have s: "override_size ov = ((if oMatrix ov = [] then 0 else points (oMatrix ov)) + int (length (Configs ov)), True)"
    using n by (auto simp: override_size_spec Let_def MaxVariants_def MaxInt64_def)
  show ?thesis
  proof (cases "oMatrix ov = []")
    case True
    then show ?thesis using s n by (simp add: variants_def)
  next
    case False
    then have "points (oMatrix ov) \<le> MaxVariants" using n by simp
    then show ?thesis using False s n points_sorted [OF d]
      by (simp add: variants_def Matrix_value [OF d] length_extend_all)
  qed
qed

text \<open>
  A parameters entry that parses is one anybody means to run: it has a matrix or
  configurations, no dimension is empty, no null is anywhere in it, its keys are distinct,
  and it expands, without a panic or an error, to exactly as many variants as its size
  says, at least one and at most MaxVariants.
\<close>
theorem parseOverride_strict:
  assumes "parseOverride raw = Inr ov"
  shows "wf_override ov \<and> (\<exists>ps. variants ov = Value (Inr ps) \<and> ps \<noteq> [] \<and> int (length ps) \<le> MaxVariants \<and>
    override_size ov = (int (length ps), True))"
proof -
  have wf: "wf_override ov" using parseOverride_wf [OF assms] .
  then obtain ps where ps: "variants ov = Value (Inr ps)"
    "int (length ps) = (if oMatrix ov = [] then 0 else points (oMatrix ov)) + int (length (Configs ov))"
    "override_size ov = (int (length ps), True)" using variants_wf by blast
  have "1 \<le> points (oMatrix ov)" using wf by (intro points_pos) (auto simp: wf_override_def good_dim_def)
  then have "ps \<noteq> []" using ps(2) wf by (auto simp: wf_override_def split: if_splits)
  then show ?thesis using wf ps by (auto simp: wf_override_def)
qed

theorem parseOverride_strict_witness:
  "wf_override \<lparr>oMatrix = [(''n'', [JNum 1, JNum 3])], Configs = [[(''n'', JNum 5)]]\<rparr>"
proof -
  have "parseOverride (JObj [(''configs'', JArr [JObj [(''n'', JNum 5)]]), (''matrix'', JObj [(''n'', JArr [JNum 1, JNum 3])])]) =
      Inr \<lparr>oMatrix = [(''n'', [JNum 1, JNum 3])], Configs = [[(''n'', JNum 5)]]\<rparr>" by code_simp
  from parseOverride_strict [OF this] show ?thesis by blast
qed

text \<open>The JSON of an override.\<close>

definition unparse :: "ParamsOverride \<Rightarrow> val" where
  "unparse ov = JObj ((if oMatrix ov = [] then [] else [(''matrix'', JObj (map (\<lambda>d. (fst d, JArr (snd d))) (oMatrix ov)))]) @
     (if Configs ov = [] then [] else [(''configs'', JArr (map JObj (Configs ov)))]))"

lemma parseMatrix_unparse:
  assumes "ds \<noteq> []" "distinct (map fst ds)" "\<forall>d \<in> set ds. good_dim (snd d)"
  shows "parseMatrix (JObj (map (\<lambda>d. (fst d, JArr (snd d))) ds)) = Inr ds"
proof -
  have "map (\<lambda>d. (fst d, Some (snd d))) ds = last_wins (map (\<lambda>d. (fst d, Some (snd d))) ds)"
    using assms(2) by (intro last_wins_id [symmetric]) (simp add: o_def)
  then have "checkDims (last_wins (map (\<lambda>d. (fst d, Some (snd d))) ds)) = Inr ds"
    unfolding checkDims_Inr using assms(3) by blast
  then show ?thesis using assms(1) by (simp add: parseMatrix_def as_slice_def o_def)
qed

lemma parseConfigs_unparse:
  assumes "ps \<noteq> []" "\<forall>p \<in> set ps. distinct (map fst p) \<and> (\<forall>kv \<in> set p. null_free (snd kv))"
  shows "parseConfigs (JArr (map JObj ps)) = Inr ps"
proof -
  have "map as_object (map JObj ps) = map Some ps"
    using assms(2) by (simp add: as_object_def last_wins_id)
  then have "parseConfigList 0 (map JObj ps) = Inr ps" unfolding parseConfigList_Inr using assms(2) by blast
  then show ?thesis using assms(1) by (simp add: parseConfigs_def)
qed

text \<open>
  Every well-formed override can be written down as JSON, and reading it back gives
  it: no well-formed entry is rejected.
\<close>
theorem parse_unparse:
  assumes "wf_override ov"
  shows "parseOverride (unparse ov) = Inr ov"
proof -
  have size: "fst (override_size ov) \<le> MaxVariants" using variants_wf [OF assms] assms by (auto simp: wf_override_def)
  have "parseForms (if oMatrix ov = [] then None else Some (JObj (map (\<lambda>d. (fst d, JArr (snd d))) (oMatrix ov))))
      (if Configs ov = [] then None else Some (JArr (map JObj (Configs ov)))) = Inr ov"
    using assms parseMatrix_unparse [of "oMatrix ov"] parseConfigs_unparse [of "Configs ov"]
    by (auto simp: parseForms_def wf_override_def)
  then show ?thesis using size assms
    by (auto simp: parseOverride_def unparse_def as_object_def wf_override_def split: prod.splits)
qed

theorem parse_unparse_witness:
  "parseOverride (unparse \<lparr>oMatrix = [(''n'', [JNum 1, JNum 3])], Configs = []\<rparr>) =
    Inr \<lparr>oMatrix = [(''n'', [JNum 1, JNum 3])], Configs = []\<rparr>"
  by (rule parse_unparse) (simp add: wf_override_def good_dim_def MaxVariants_def)

end
