(* ===== verification/Torx_Discovery.thy ===== *)
theory Torx_Discovery
  imports Torx_Params
begin

text \<open>
  The registry of jobs and discovery: \<^verbatim>\<open>src/registry.go\<close> and \<^verbatim>\<open>src/discovery.go\<close>, with
  \<^verbatim>\<open>recovered\<close> of \<^verbatim>\<open>src/worker.go\<close>. A job's factory is a \<open>run\<close> of its code, since it may
  panic; the job's code is whether it has a Matrix and a resolver, and what they do. The
  registry's mutex makes each of its operations one step. Compiling a pattern and
  encoding a parameter value as JSON are parameters: \<open>compile\<close>, \<open>None\<close> for a bad pattern,
  and \<open>enc\<close>.
\<close>

subsection \<open>Jobs and the registry\<close>

record job_code =
  jMatrix :: "Params list run option"
  jResolve :: "(Params \<Rightarrow> (string + Params) run) option"

type_synonym factory = "job_code run"
type_synonym job_registry = "(string \<times> factory) list"

definition Register :: "string \<Rightarrow> factory \<Rightarrow> job_registry \<Rightarrow> job_registry run" where
  "Register jid f reg = (if map_of reg jid \<noteq> None then Panicked (''torx: duplicate job registration: '' @ jid)
     else Value (reg @ [(jid, f)]))"

definition RegisteredJobs :: "job_registry \<Rightarrow> string list" where
  "RegisteredJobs reg = sort (map fst reg)"

definition lookupJob :: "job_registry \<Rightarrow> string \<Rightarrow> factory option" where
  "lookupJob reg jid = map_of reg jid"

subsection \<open>Variant ids\<close>

definition variantID :: "(val \<Rightarrow> string) \<Rightarrow> string \<Rightarrow> Params \<Rightarrow> string" where
  "variantID enc base params =
     (if params = [] then base
      else base @ ''['' @
        join '','' (map (\<lambda>k. k @ ''='' @ enc (the (map_of params k))) (sort (map fst params))) @ '']'')"

fun dupLoop :: "(val \<Rightarrow> string) \<Rightarrow> string \<Rightarrow> string set \<Rightarrow> Params list \<Rightarrow> disc_error option" where
  "dupLoop enc jid seen [] = None"
| "dupLoop enc jid seen (params # ps) =
     (let vid = variantID enc jid params in
      if vid \<in> seen then Some (DuplicateVariant vid) else dupLoop enc jid (insert vid seen) ps)"

definition checkDuplicateVariants :: "(val \<Rightarrow> string) \<Rightarrow> string \<Rightarrow> Params list \<Rightarrow> disc_error option" where
  "checkDuplicateVariants enc jid ps = dupLoop enc jid {} ps"

subsection \<open>Expanding one job\<close>

record JobRequest =
  ID :: string
  rParams :: Params
  discErr :: "disc_error option"

definition recovered :: "(disc_error + 'a) run \<Rightarrow> disc_error + 'a" where
  "recovered r = (case r of Panicked s \<Rightarrow> Inl (PanicError s) | Value x \<Rightarrow> x)"

definition variantsOf :: "job_code \<Rightarrow> Params list run" where
  "variantsOf job = (case jMatrix job of
     None \<Rightarrow> Value [[]]
   | Some (Panicked s) \<Rightarrow> Panicked s
   | Some (Value m) \<Rightarrow> Value (if length m > 0 then m else [[]]))"

definition resolveParams :: "job_code \<Rightarrow> Params \<Rightarrow> disc_error + Params" where
  "resolveParams job p = (case jResolve job of
     None \<Rightarrow> Inr p
   | Some r \<Rightarrow> recovered (case r p of
       Panicked s \<Rightarrow> Panicked s
     | Value (Inl e) \<Rightarrow> Value (Inl (JobError e))
     | Value (Inr cp) \<Rightarrow> Value (Inr cp)))"

definition rawVariants :: "factory \<Rightarrow> ParamsOverride option \<Rightarrow> disc_error + job_code \<times> Params list" where
  "rawVariants f override = recovered
     (case f of
        Panicked s \<Rightarrow> Panicked s
      | Value job \<Rightarrow>
          (case override of
             Some ov \<Rightarrow> (case variants ov of
                 Panicked s \<Rightarrow> Panicked s
               | Value (Inl e) \<Rightarrow> Value (Inl e)
               | Value (Inr raw) \<Rightarrow> Value (Inr (job, raw)))
           | None \<Rightarrow> (case variantsOf job of
                 Panicked s \<Rightarrow> Panicked s
               | Value raw \<Rightarrow>
                   if int (length raw) > MaxVariants then Value (Inl (Declares (int (length raw))))
                   else Value (Inr (job, raw)))))"

fun resolveAll :: "string \<Rightarrow> job_code \<Rightarrow> Params list \<Rightarrow> JobRequest list \<times> Params list" where
  "resolveAll jid job [] = ([], [])"
| "resolveAll jid job (p # ps) =
     (case resolveAll jid job ps of (reqs, resolved) \<Rightarrow>
        case resolveParams job p of
          Inl e \<Rightarrow> (\<lparr>ID = jid, rParams = p, discErr = Some e\<rparr> # reqs, resolved)
        | Inr cp \<Rightarrow> (\<lparr>ID = jid, rParams = cp, discErr = None\<rparr> # reqs, cp # resolved))"

definition discoverJob :: "(val \<Rightarrow> string) \<Rightarrow> string \<Rightarrow> factory \<Rightarrow> ParamsOverride option \<Rightarrow> disc_error + JobRequest list" where
  "discoverJob enc jid f override =
     (case rawVariants f override of
        Inl e \<Rightarrow> Inl e
      | Inr (job, raw) \<Rightarrow>
          (case resolveAll jid job raw of (reqs, resolved) \<Rightarrow>
             case checkDuplicateVariants enc jid resolved of
               Some e \<Rightarrow> Inl e
             | None \<Rightarrow> Inr reqs))"

subsection \<open>Discovering the suite\<close>

datatype discover_error = BadPattern string | UnknownJob string | Unselected "string list"

definition matchesAny :: "string \<Rightarrow> (string \<Rightarrow> bool) list \<Rightarrow> bool" where
  "matchesAny jid res \<longleftrightarrow> res = [] \<or> (\<exists>re \<in> set res. re jid)"

fun compileAll :: "(string \<Rightarrow> (string \<Rightarrow> bool) option) \<Rightarrow> string list \<Rightarrow> discover_error + (string \<Rightarrow> bool) list" where
  "compileAll compile [] = Inr []"
| "compileAll compile (p # ps) = (case compile p of
     None \<Rightarrow> Inl (BadPattern p)
   | Some re \<Rightarrow> (case compileAll compile ps of Inl e \<Rightarrow> Inl e | Inr res \<Rightarrow> Inr (re # res)))"

definition discoverOne :: "(val \<Rightarrow> string) \<Rightarrow> job_registry \<Rightarrow> (string \<times> ParamsOverride) list \<Rightarrow> (string \<Rightarrow> bool) list \<Rightarrow>
    string \<Rightarrow> JobRequest list" where
  "discoverOne enc reg overrides res jid =
     (case lookupJob reg jid of
        None \<Rightarrow> []
      | Some f \<Rightarrow>
          (case discoverJob enc jid f (map_of overrides jid) of
             Inl e \<Rightarrow> if matchesAny jid res then [\<lparr>ID = jid, rParams = [], discErr = Some e\<rparr>] else []
           | Inr reqs \<Rightarrow> filter (\<lambda>r. matchesAny (variantID enc jid (rParams r)) res) reqs))"

definition DiscoverWith :: "(string \<Rightarrow> (string \<Rightarrow> bool) option) \<Rightarrow> (val \<Rightarrow> string) \<Rightarrow> job_registry \<Rightarrow>
    (string \<times> ParamsOverride) list \<Rightarrow> string list \<Rightarrow> discover_error + JobRequest list" where
  "DiscoverWith compile enc reg overrides patterns =
     (case compileAll compile patterns of
        Inl e \<Rightarrow> Inl e
      | Inr res \<Rightarrow>
          (case find (\<lambda>ov. lookupJob reg (fst ov) = None) overrides of
             Some ov \<Rightarrow> Inl (UnknownJob (fst ov))
           | None \<Rightarrow>
               (let (requests, selected) = foldl (\<lambda>(requests, selected) jid.
                      let reqs = discoverOne enc reg overrides res jid in
                      (requests @ reqs,
                       if reqs \<noteq> [] \<and> map_of overrides jid \<noteq> None then insert jid selected else selected))
                      ([], {}) (RegisteredJobs reg);
                    unselected = filter (\<lambda>jid. jid \<notin> selected) (map fst overrides)
                in if unselected \<noteq> [] then Inl (Unselected (sort unselected)) else Inr requests)))"

definition Discover :: "(string \<Rightarrow> (string \<Rightarrow> bool) option) \<Rightarrow> (val \<Rightarrow> string) \<Rightarrow> job_registry \<Rightarrow> string list \<Rightarrow>
    discover_error + JobRequest list" where
  "Discover compile enc reg patterns = DiscoverWith compile enc reg [] patterns"

subsection \<open>The requests\<close>

lemma discover_fold:
  "foldl (\<lambda>(requests, selected) jid. let reqs = f jid in
      (requests @ reqs, if reqs \<noteq> [] \<and> P jid then insert jid selected else selected)) (rs, S) jids =
    (rs @ concat (map f jids), S \<union> {jid \<in> set jids. f jid \<noteq> [] \<and> P jid})"
  by (induction jids arbitrary: rs S) (auto simp: Let_def)

lemma compileAll_Inr: "compileAll compile ps = Inr res \<longleftrightarrow> map compile ps = map Some res"
proof (induction ps arbitrary: res)
  case (Cons p ps)
  show ?case
  proof (cases "compile p")
    case None
    then show ?thesis by (cases res) auto
  next
    case (Some re)
    then have "compileAll compile (p # ps) = Inr res \<longleftrightarrow> (\<exists>rest. compileAll compile ps = Inr rest \<and> res = re # rest)"
      by (auto split: sum.splits)
    then show ?thesis using Cons Some by (cases res) auto
  qed
qed auto

lemma resolveAll_spec:
  "resolveAll jid job ps = (reqs, resolved) \<Longrightarrow>
    length reqs = length ps \<and> (\<forall>r \<in> set reqs. ID r = jid) \<and>
    resolved = map rParams (filter (\<lambda>r. discErr r = None) reqs)"
  by (induction ps arbitrary: reqs resolved) (auto split: prod.splits sum.splits)

lemma dupLoop_None: "dupLoop enc jid S ps = None \<longleftrightarrow>
    distinct (map (variantID enc jid) ps) \<and> S \<inter> set (map (variantID enc jid) ps) = {}"
  by (induction enc jid S ps rule: dupLoop.induct) (auto simp: Let_def)

lemma discoverJob_Inr:
  assumes "discoverJob enc jid f ov = Inr reqs"
  shows "(\<forall>r \<in> set reqs. ID r = jid) \<and>
    distinct (map (\<lambda>r. variantID enc jid (rParams r)) (filter (\<lambda>r. discErr r = None) reqs))"
proof -
  obtain job raw resolved where r: "resolveAll jid job raw = (reqs, resolved)"
    "checkDuplicateVariants enc jid resolved = None"
    using assms by (auto simp: discoverJob_def split: sum.splits prod.splits option.splits)
  note R = resolveAll_spec [OF r(1)]
  have "distinct (map (variantID enc jid) resolved)" using r(2) by (simp add: checkDuplicateVariants_def dupLoop_None)
  then show ?thesis using R by (simp add: o_def)
qed

lemma discoverOne_mem:
  "r \<in> set (discoverOne enc reg overrides res jid) \<longleftrightarrow> (\<exists>f. lookupJob reg jid = Some f \<and>
    ((\<exists>e. discoverJob enc jid f (map_of overrides jid) = Inl e \<and> matchesAny jid res \<and>
        r = \<lparr>ID = jid, rParams = [], discErr = Some e\<rparr>) \<or>
     (\<exists>reqs. discoverJob enc jid f (map_of overrides jid) = Inr reqs \<and> r \<in> set reqs \<and>
        matchesAny (variantID enc jid (rParams r)) res)))"
proof (cases "lookupJob reg jid")
  case (Some f)
  then show ?thesis by (cases "discoverJob enc jid f (map_of overrides jid)") (auto simp: discoverOne_def)
qed (simp add: discoverOne_def)

lemma discoverOne_spec:
  "\<forall>r \<in> set (discoverOne enc reg overrides res jid). ID r = jid"
  "distinct (map (\<lambda>r. variantID enc jid (rParams r)) (filter (\<lambda>r. discErr r = None) (discoverOne enc reg overrides res jid)))"
  "\<forall>r \<in> set (discoverOne enc reg overrides res jid). lookupJob reg jid \<noteq> None \<and> matchesAny (variantID enc jid (rParams r)) res"
proof -
  have "ID r = jid" if "r \<in> set (discoverOne enc reg overrides res jid)" for r
    using that discoverJob_Inr unfolding discoverOne_mem by fastforce
  then show "\<forall>r \<in> set (discoverOne enc reg overrides res jid). ID r = jid" by blast
  show "distinct (map (\<lambda>r. variantID enc jid (rParams r)) (filter (\<lambda>r. discErr r = None) (discoverOne enc reg overrides res jid)))"
  proof (cases "\<exists>f reqs. lookupJob reg jid = Some f \<and> discoverJob enc jid f (map_of overrides jid) = Inr reqs")
    case True
    then obtain f reqs where fr: "lookupJob reg jid = Some f" "discoverJob enc jid f (map_of overrides jid) = Inr reqs" by blast
    let ?v = "\<lambda>r. variantID enc jid (rParams r)"
    have "distinct (map ?v (filter (\<lambda>r. matchesAny (?v r) res) (filter (\<lambda>r. discErr r = None) reqs)))"
      by (rule distinct_map_filter) (use discoverJob_Inr [OF fr(2)] in blast)
    then show ?thesis using fr by (simp add: discoverOne_def conj_commute)
  qed (auto simp: discoverOne_def split: option.splits sum.splits)
  have "lookupJob reg jid \<noteq> None \<and> matchesAny (variantID enc jid (rParams r)) res"
    if "r \<in> set (discoverOne enc reg overrides res jid)" for r
    using that unfolding discoverOne_mem by (auto simp: variantID_def)
  then show "\<forall>r \<in> set (discoverOne enc reg overrides res jid). lookupJob reg jid \<noteq> None \<and> matchesAny (variantID enc jid (rParams r)) res"
    by blast
qed

lemma DiscoverWith_Inr:
  "DiscoverWith compile enc reg overrides patterns = Inr reqs \<longleftrightarrow>
    (\<exists>res. map compile patterns = map Some res \<and>
      (\<forall>ov \<in> set overrides. lookupJob reg (fst ov) \<noteq> None \<and> discoverOne enc reg overrides res (fst ov) \<noteq> []) \<and>
      reqs = concat (map (discoverOne enc reg overrides res) (RegisteredJobs reg)))"
proof (cases "compileAll compile patterns")
  case (Inl e)
  then have "\<not> (\<exists>res. map compile patterns = map Some res)" by (metis compileAll_Inr Inl_Inr_False)
  then show ?thesis using Inl by (auto simp: DiscoverWith_def)
next
  case (Inr res)
  then have one: "map compile patterns = map Some res' \<longleftrightarrow> res' = res" for res'
    using compileAll_Inr [of compile patterns] by auto
  let ?f = "discoverOne enc reg overrides res"
  have in_reg: "jid \<in> set (RegisteredJobs reg) \<longleftrightarrow> lookupJob reg jid \<noteq> None" for jid
    by (simp add: RegisteredJobs_def lookupJob_def map_of_eq_None_iff)
  have ov: "map_of overrides (fst v) \<noteq> None" if "v \<in> set overrides" for v
    using that by (simp add: map_of_eq_None_iff)
  show ?thesis
  proof (cases "find (\<lambda>ov. lookupJob reg (fst ov) = None) overrides")
    case None
    then have reg: "\<forall>v \<in> set overrides. lookupJob reg (fst v) \<noteq> None" by (auto simp: find_None_iff)
    have "filter (\<lambda>jid. jid \<notin> {jid \<in> set (RegisteredJobs reg). ?f jid \<noteq> [] \<and> map_of overrides jid \<noteq> None}) (map fst overrides) = [] \<longleftrightarrow>
        (\<forall>v \<in> set overrides. ?f (fst v) \<noteq> [])"
      using reg ov in_reg by (auto simp: filter_empty_conv)
    moreover have "DiscoverWith compile enc reg overrides patterns =
      (let unselected = filter (\<lambda>jid. jid \<notin> {jid \<in> set (RegisteredJobs reg). ?f jid \<noteq> [] \<and> map_of overrides jid \<noteq> None}) (map fst overrides)
       in if unselected \<noteq> [] then Inl (Unselected (sort unselected)) else Inr (concat (map ?f (RegisteredJobs reg))))"
      unfolding DiscoverWith_def Inr None sum.case option.case discover_fold by simp
    ultimately show ?thesis using reg one by (auto simp: Let_def)
  next
    case (Some v)
    then have "v \<in> set overrides \<and> lookupJob reg (fst v) = None" by (auto simp: find_Some_iff)
    then show ?thesis using Some Inr one by (auto simp: DiscoverWith_def)
  qed
qed

lemma filter_concat_ids:
  assumes "distinct jids" "\<And>jid r. r \<in> set (f jid) \<Longrightarrow> ID r = jid"
  shows "filter (\<lambda>r. ID r = jid) (concat (map f jids)) = (if jid \<in> set jids then f jid else [])"
  using assms(1)
proof (induction jids)
  case (Cons j jids)
  have "filter (\<lambda>r. ID r = jid) (f j) = (if j = jid then f j else [])"
    using assms(2) by (auto simp: filter_id_conv filter_empty_conv)
  then show ?case using Cons by auto
qed simp

text \<open>
  C22: when discovery succeeds, every request is of a registered job and its id matches a
  pattern; the requests come job by job in the order of the ids; of one job, no two
  requests that will run have the same variant id; and every job an override names has at
  least one request.
\<close>
theorem DiscoverWith_requests:
  assumes "DiscoverWith compile enc reg overrides patterns = Inr reqs" and "distinct (map fst reg)"
  shows "(\<exists>res. map compile patterns = map Some res \<and>
      (\<forall>r \<in> set reqs. lookupJob reg (ID r) \<noteq> None \<and> matchesAny (variantID enc (ID r) (rParams r)) res)) \<and>
    sorted (map ID reqs) \<and>
    (\<forall>jid. distinct (map (\<lambda>r. variantID enc jid (rParams r)) (filter (\<lambda>r. ID r = jid \<and> discErr r = None) reqs))) \<and>
    (\<forall>ov \<in> set overrides. \<exists>r \<in> set reqs. ID r = fst ov)"
proof -
  obtain res where res: "map compile patterns = map Some res"
    "\<forall>ov \<in> set overrides. lookupJob reg (fst ov) \<noteq> None \<and> discoverOne enc reg overrides res (fst ov) \<noteq> []"
    "reqs = concat (map (discoverOne enc reg overrides res) (RegisteredJobs reg))"
    using assms(1) unfolding DiscoverWith_Inr by blast
  let ?f = "discoverOne enc reg overrides res"
  note S = discoverOne_spec [where enc = enc and reg = reg and overrides = overrides and res = res]
  have d: "distinct (RegisteredJobs reg)" using assms(2) by (simp add: RegisteredJobs_def)
  have ids: "filter (\<lambda>r. ID r = jid) reqs = (if jid \<in> set (RegisteredJobs reg) then ?f jid else [])" for jid
    unfolding res(3) using d S(1) by (intro filter_concat_ids) blast+
  have "sorted (map ID (concat (map ?f jids)))" if "sorted jids" for jids
    using that
  proof (induction jids)
    case (Cons j jids)
    have "map ID (?f j) = replicate (length (?f j)) j" using S(1) by (simp add: map_replicate_const [symmetric] cong: map_cong)
    moreover have "j \<le> ID r" if "r \<in> set (concat (map ?f jids))" for r using that Cons.prems S(1) by auto
    ultimately show ?case using Cons by (auto simp: sorted_append)
  qed simp
  then have "sorted (map ID reqs)" unfolding res(3) by (simp add: RegisteredJobs_def)
  moreover have "distinct (map (\<lambda>r. variantID enc jid (rParams r)) (filter (\<lambda>r. ID r = jid \<and> discErr r = None) reqs))" for jid
  proof -
    have "filter (\<lambda>r. ID r = jid \<and> discErr r = None) reqs = filter (\<lambda>r. discErr r = None) (filter (\<lambda>r. ID r = jid) reqs)"
      by (simp add: conj_commute)
    then show ?thesis unfolding ids using S(2) [where jid = jid] by simp
  qed
  moreover have "\<exists>r \<in> set reqs. ID r = fst ov" if "ov \<in> set overrides" for ov
  proof -
    have "fst ov \<in> set (RegisteredJobs reg)" "?f (fst ov) \<noteq> []"
      using res(2) that by (auto simp: RegisteredJobs_def lookupJob_def map_of_eq_None_iff)
    then have "filter (\<lambda>r. ID r = fst ov) reqs \<noteq> []" by (simp add: ids)
    then show ?thesis by (auto simp: filter_empty_conv)
  qed
  moreover have "\<forall>r \<in> set reqs. lookupJob reg (ID r) \<noteq> None \<and> matchesAny (variantID enc (ID r) (rParams r)) res"
    unfolding res(3) using S by auto
  ultimately show ?thesis using res(1) by blast
qed

definition plain_enc :: "val \<Rightarrow> string" where
  "plain_enc v = (case v of JNum n \<Rightarrow> (if n = 1 then ''1'' else if n = 2 then ''2'' else ''0'') | JBool b \<Rightarrow> (if b then ''t'' else ''f'') | _ \<Rightarrow> ''x'')"

definition any_pattern :: "string \<Rightarrow> (string \<Rightarrow> bool) option" where
  "any_pattern p = Some (\<lambda>s. True)"

definition two_jobs :: job_registry where
  "two_jobs = [(''b'', Panicked ''boom''),
     (''a'', Value \<lparr>jMatrix = Some (Value [[(''n'', JNum 1)], [(''n'', JNum 2)]]), jResolve = None\<rparr>)]"

theorem DiscoverWith_requests_witness:
  "\<exists>reqs. DiscoverWith any_pattern plain_enc two_jobs [] [''.''] = Inr reqs \<and> length reqs = 3 \<and> sorted (map ID reqs)"
proof -
  let ?reqs = "[\<lparr>ID = ''a'', rParams = [(''n'', JNum 1)], discErr = None\<rparr>,
      \<lparr>ID = ''a'', rParams = [(''n'', JNum 2)], discErr = None\<rparr>, \<lparr>ID = ''b'', rParams = [], discErr = Some (PanicError ''boom'')\<rparr>]"
  have "DiscoverWith any_pattern plain_enc two_jobs [] [''.''] = Inr ?reqs" by code_simp
  moreover have "distinct (map fst two_jobs)" by (simp add: two_jobs_def)
  ultimately show ?thesis using DiscoverWith_requests [of any_pattern plain_enc two_jobs "[]" "[''.'']" ?reqs] by simp
qed

text \<open>
  A bad job is confined. However a job's factory, Matrix or resolver misbehaves, with
  no override discovery fails only on a bad pattern, and the requests of every other job
  are what they would be had that job been any other.
\<close>
theorem Discover_confines:
  assumes "map fst reg = map fst reg'" "distinct (map fst reg)" "\<And>j. j \<noteq> jid \<Longrightarrow> map_of reg j = map_of reg' j"
  shows "(case Discover compile enc reg patterns of
      Inl e \<Rightarrow> Discover compile enc reg' patterns = Inl e \<and> (\<exists>p \<in> set patterns. e = BadPattern p \<and> compile p = None)
    | Inr reqs \<Rightarrow> \<exists>reqs'. Discover compile enc reg' patterns = Inr reqs' \<and>
        filter (\<lambda>r. ID r \<noteq> jid) reqs = filter (\<lambda>r. ID r \<noteq> jid) reqs')"
proof (cases "compileAll compile patterns")
  case (Inl e)
  have "\<exists>p \<in> set patterns. e = BadPattern p \<and> compile p = None"
    using Inl by (induction patterns) (auto split: option.splits sum.splits)
  then show ?thesis using Inl by (simp add: Discover_def DiscoverWith_def)
next
  case (Inr res)
  let ?f = "discoverOne enc reg [] res" and ?f' = "discoverOne enc reg' [] res"
  have disc: "Discover compile enc r patterns = Inr (concat (map (discoverOne enc r [] res) (RegisteredJobs r)))" for r
    using Inr compileAll_Inr [of compile patterns res] by (auto simp: Discover_def DiscoverWith_Inr)
  have same: "RegisteredJobs reg' = RegisteredJobs reg" using assms(1) by (simp add: RegisteredJobs_def)
  have other: "?f j = ?f' j" if "j \<noteq> jid" for j
    using assms(3) [OF that] by (simp add: discoverOne_def lookupJob_def)
  have none: "filter (\<lambda>r. ID r \<noteq> jid) (?f jid) = []" "filter (\<lambda>r. ID r \<noteq> jid) (?f' jid) = []"
    using discoverOne_spec(1) by (auto simp: filter_empty_conv)
  have "filter (\<lambda>r. ID r \<noteq> jid) (concat (map ?f js)) = filter (\<lambda>r. ID r \<noteq> jid) (concat (map ?f' js))" for js
  proof (induction js)
    case (Cons j js)
    then show ?case using other [of j] none by (cases "j = jid") auto
  qed simp
  then show ?thesis by (simp add: disc same)
qed

theorem Discover_confines_witness:
  "(case Discover any_pattern plain_enc two_jobs [] of
      Inl e \<Rightarrow> False
    | Inr reqs \<Rightarrow> \<exists>reqs'. Discover any_pattern plain_enc [(''b'', Value \<lparr>jMatrix = None, jResolve = None\<rparr>), two_jobs ! 1] [] = Inr reqs' \<and>
        filter (\<lambda>r. ID r \<noteq> ''b'') reqs = filter (\<lambda>r. ID r \<noteq> ''b'') reqs')"
  using Discover_confines [of two_jobs "[(''b'', Value \<lparr>jMatrix = None, jResolve = None\<rparr>), two_jobs ! 1]" "''b''"
      any_pattern plain_enc "[]"] by (auto simp: two_jobs_def split: sum.splits)

subsection \<open>Variant ids tell parameter sets apart\<close>

definition delimited :: "string \<Rightarrow> bool" where
  "delimited r \<longleftrightarrow> (\<exists>s. r = CHR '','' # s \<or> r = CHR '']'' # s)"

definition self_delimiting :: "(val \<Rightarrow> string) \<Rightarrow> val set \<Rightarrow> bool" where
  "self_delimiting enc V \<longleftrightarrow> (\<forall>v \<in> V. \<forall>v' \<in> V. \<forall>r r'. delimited r \<longrightarrow> delimited r' \<longrightarrow> enc v @ r = enc v' @ r' \<longrightarrow> v = v' \<and> r = r')"

definition entries_text :: "(val \<Rightarrow> string) \<Rightarrow> Params \<Rightarrow> string" where
  "entries_text enc kvs = join '','' (map (\<lambda>kv. fst kv @ ''='' @ enc (snd kv)) kvs) @ '']''"

lemma entries_text_Cons:
  "entries_text enc (kv # kvs) = fst kv @ CHR ''='' # enc (snd kv) @
    (if kvs = [] then '']'' else CHR '','' # entries_text enc kvs)"
  by (cases kvs) (auto simp: entries_text_def)

lemma split_key:
  "k @ CHR ''='' # r = k' @ CHR ''='' # r' \<Longrightarrow> CHR ''='' \<notin> set k \<Longrightarrow> CHR ''='' \<notin> set k' \<Longrightarrow> k = k' \<and> r = r'"
  by (induction k arbitrary: k') (case_tac k'; auto)+

lemma entries_text_inject:
  assumes "self_delimiting enc V"
  shows "kvs \<noteq> [] \<Longrightarrow> kvs' \<noteq> [] \<Longrightarrow> snd ` (set kvs \<union> set kvs') \<subseteq> V \<Longrightarrow> \<forall>kv \<in> set kvs \<union> set kvs'. CHR ''='' \<notin> set (fst kv) \<Longrightarrow>
    entries_text enc kvs = entries_text enc kvs' \<Longrightarrow> kvs = kvs'"
proof (induction kvs arbitrary: kvs')
  case (Cons kv kvs)
  then obtain kv' ks where kvs': "kvs' = kv' # ks" by (cases kvs') auto
  let ?r = "if kvs = [] then '']'' else CHR '','' # entries_text enc kvs"
  let ?r' = "if ks = [] then '']'' else CHR '','' # entries_text enc ks"
  have "fst kv = fst kv' \<and> enc (snd kv) @ ?r = enc (snd kv') @ ?r'"
    using Cons.prems(5) unfolding kvs' entries_text_Cons
    by (rule split_key) (use Cons.prems(4) kvs' in auto)
  moreover have "delimited ?r" "delimited ?r'" by (auto simp: delimited_def)
  moreover have "snd kv \<in> V" "snd kv' \<in> V" using Cons.prems(3) kvs' by auto
  ultimately have sr: "fst kv = fst kv'" "snd kv = snd kv' \<and> ?r = ?r'"
    using assms unfolding self_delimiting_def by blast+
  then have eq: "kv = kv'" "?r = ?r'" by (simp_all add: prod_eq_iff)
  then have "kvs = [] \<longleftrightarrow> ks = []" by (auto split: if_splits)
  moreover have "kvs = ks" if "kvs \<noteq> []" "ks \<noteq> []"
    using that eq(2) Cons.prems(3,4) kvs' by (intro Cons.IH) auto
  ultimately show ?case using eq(1) kvs' by auto
qed simp

definition sorted_entries :: "Params \<Rightarrow> Params" where
  "sorted_entries p = map (\<lambda>k. (k, the (map_of p k))) (sort (map fst p))"

lemma variantID_entries:
  "variantID enc base p = (if p = [] then base else base @ CHR ''['' # entries_text enc (sorted_entries p))"
  by (simp add: variantID_def entries_text_def sorted_entries_def o_def)

lemma sorted_entries_subset: "set (sorted_entries p) \<subseteq> set p"
proof
  fix kv assume "kv \<in> set (sorted_entries p)"
  then obtain k where k: "k \<in> fst ` set p" "kv = (k, the (map_of p k))" by (auto simp: sorted_entries_def)
  then obtain v where "map_of p k = Some v" by (metis map_of_eq_None_iff not_None_eq)
  then show "kv \<in> set p" using k(2) by (simp add: map_of_SomeD)
qed

lemma map_of_sorted_entries: "map_of (sorted_entries p) = map_of p"
proof
  fix k
  have "map_of (sorted_entries p) k = (if k \<in> set (map fst p) then Some (the (map_of p k)) else None)"
    unfolding sorted_entries_def map_of_map_restrict by (simp add: restrict_map_def)
  moreover have "k \<in> set (map fst p) \<longleftrightarrow> map_of p k \<noteq> None" by (simp add: map_of_eq_None_iff)
  ultimately show "map_of (sorted_entries p) k = map_of p k" by (cases "map_of p k") simp_all
qed

text \<open>
  When parameter names contain no equals sign and the encodings of the values, followed
  by a comma or a closing bracket, can be told from each other (as JSON texts can), a job's
  variant ids are injective: two parameter sets with the same id are the same map.
\<close>
theorem variantID_injective:
  assumes "self_delimiting enc (snd ` (set p \<union> set q))" and "\<forall>kv \<in> set p \<union> set q. CHR ''='' \<notin> set (fst kv)"
    and "variantID enc base p = variantID enc base q"
  shows "map_of p = map_of q"
proof (cases "p = [] \<or> q = []")
  case True
  then show ?thesis using assms(3) by (auto simp: variantID_entries split: if_splits)
next
  case False
  then have "entries_text enc (sorted_entries p) = entries_text enc (sorted_entries q)"
    using assms(3) by (simp add: variantID_entries)
  moreover have "sorted_entries p \<noteq> []" "sorted_entries q \<noteq> []"
    using False by (simp_all add: sorted_entries_def) (metis length_0_conv length_map length_sort)+
  moreover have "\<forall>kv \<in> set (sorted_entries p) \<union> set (sorted_entries q). CHR ''='' \<notin> set (fst kv)"
    using assms(2) by (force simp: sorted_entries_def)
  moreover have "snd ` (set (sorted_entries p) \<union> set (sorted_entries q)) \<subseteq> snd ` (set p \<union> set q)"
    using sorted_entries_subset by (intro image_mono Un_mono)
  ultimately have "sorted_entries p = sorted_entries q" by (intro entries_text_inject [OF assms(1)])
  then show ?thesis using map_of_sorted_entries by metis
qed

theorem variantID_injective_witness:
  "map_of [(''n'', JNum 1), (''m'', JNum 2)] = map_of [(''m'', JNum 2), (''n'', JNum 1)]"
proof (rule variantID_injective [of plain_enc])
  show "self_delimiting plain_enc (snd ` (set [(''n'', JNum 1), (''m'', JNum 2)] \<union> set [(''m'', JNum 2), (''n'', JNum 1)]))"
    by (auto simp: self_delimiting_def plain_enc_def)
  show "variantID plain_enc ''j'' [(''n'', JNum 1), (''m'', JNum 2)] = variantID plain_enc ''j'' [(''m'', JNum 2), (''n'', JNum 1)]"
    by code_simp
qed simp

text \<open>
  C34: without that condition on names ids collide: a parameter whose name spells out
  another assignment, with its equals sign and comma, gives the id of two parameters.
\<close>
theorem variantID_collides:
  "variantID enc base [(''a='' @ enc x @ '',b'', y)] = variantID enc base [(''a'', x), (''b'', y)]"
proof -
  have "sort [''a'', ''b''] = [''a'', ''b'']" by code_simp
  then show ?thesis by (simp add: variantID_def)
qed

end
