(* ===== verification/Torx_Results.thy ===== *)
theory Torx_Results
  imports Torx_Discovery Torx_Errors
begin

text \<open>
  Results and seeds: \<^verbatim>\<open>src/result.go\<close> and \<^verbatim>\<open>src/seed.go\<close>. The structured error of a result
  keeps the error it was made from, a \<open>failure\<close>, in place of its text and category. Times are
  nanoseconds. The hash under \<^verbatim>\<open>VariantSeed\<close> is FNV-1a, on the eight bytes of the run's seed
  and those of the id.
\<close>

subsection \<open>Seeds\<close>

definition fnv_step :: "uint64 \<Rightarrow> nat \<Rightarrow> uint64" where
  "fnv_step h b = xor h (word_of_nat b) * 1099511628211"

definition le_bytes :: "uint64 \<Rightarrow> nat list" where
  "le_bytes v = map (\<lambda>i. unat (drop_bit (8 * i) v) mod 256) [0..<8]"

definition hash64 :: "uint64 \<Rightarrow> string \<Rightarrow> uint64" where
  "hash64 v s = foldl fnv_step 14695981039346656037 (le_bytes v @ map of_char s)"

definition VariantSeed :: "uint64 \<Rightarrow> string \<Rightarrow> uint64" where
  "VariantSeed run jid = hash64 run jid"

subsection \<open>Results\<close>

datatype status = StatusPass | StatusFail | StatusIgnore | StatusFlaky

datatype step_error = Returned string | Panic string

datatype backend_error = BackendError string | UnknownBackend string

datatype failure =
    DiscoveryFailed disc_error
  | DriverUnknownJob string
  | DeclarePanicked string string
  | NeedsNodes nat
  | AllocationFailed error
  | NoCleanNodes
  | LaunchFailed string
  | WorkerUnknownJob string
  | BackendFailed backend_error
  | NodeCount nat nat
  | StepFailed step_error
  | AlsoTeardown failure step_error

record JobResult =
  resID :: string
  resParams :: Params
  Status :: status
  Start :: int
  Stop :: int
  Summary :: string
  Data :: string
  ErrorOf :: "failure option"
  Dirty :: bool
  PersistErr :: string
  resSeed :: uint64

definition Duration :: "JobResult \<Rightarrow> int" where
  "Duration r = Stop r - Start r"

record SuiteResult =
  Jobs :: "JobResult list"
  suiteSeed :: uint64
  Cancelled :: bool
  suitePersistErr :: string

definition Counts :: "SuiteResult \<Rightarrow> status \<Rightarrow> nat" where
  "Counts s = foldl (\<lambda>counts j. counts(Status j := Suc (counts (Status j)))) (\<lambda>_. 0) (Jobs s)"

fun okLoop :: "JobResult list \<Rightarrow> bool" where
  "okLoop [] = True"
| "okLoop (j # js) = (if Status j = StatusFail \<or> PersistErr j \<noteq> [] then False else okLoop js)"

definition Ok :: "SuiteResult \<Rightarrow> bool" where
  "Ok s = (if Cancelled s \<or> suitePersistErr s \<noteq> [] then False else okLoop (Jobs s))"

definition summaryLine :: "SuiteResult \<Rightarrow> string" where
  "summaryLine s = utoa (length (Jobs s)) @ '' jobs: '' @ utoa (Counts s StatusPass) @ '' passed, '' @
     utoa (Counts s StatusFail) @ '' failed, '' @ utoa (Counts s StatusFlaky) @ '' flaky, '' @
     utoa (Counts s StatusIgnore) @ '' ignored'' @
     '' (seed '' @ utoa (unat (suiteSeed s)) @ '')'' @
     (if Cancelled s then '' (run cancelled before completion)'' else []) @
     (if suitePersistErr s \<noteq> [] then '' (results not persisted: '' @ suitePersistErr s @ '')'' else [])"

definition failResult :: "string \<Rightarrow> Params \<Rightarrow> failure \<Rightarrow> JobResult" where
  "failResult jid params err = \<lparr>resID = jid, resParams = params, Status = StatusFail, Start = 0, Stop = 0,
     Summary = [], Data = [], ErrorOf = Some err, Dirty = False, PersistErr = [], resSeed = 0\<rparr>"

lemma failResult_simps [simp]:
  "resID (failResult jid params err) = jid" "resParams (failResult jid params err) = params"
  "Status (failResult jid params err) = StatusFail" "ErrorOf (failResult jid params err) = Some err"
  "Dirty (failResult jid params err) = False"
  by (simp_all add: failResult_def)

lemma okLoop_iff: "okLoop js \<longleftrightarrow> (\<forall>j \<in> set js. Status j \<noteq> StatusFail \<and> PersistErr j = [])"
  by (induction js) auto

lemma Counts_fold:
  "foldl (\<lambda>counts j. counts(Status j := Suc (counts (Status j)))) f js st = f st + length (filter (\<lambda>j. Status j = st) js)"
  by (induction js arbitrary: f) auto

lemma Counts_eq: "Counts s st = length (filter (\<lambda>j. Status j = st) (Jobs s))"
  by (simp add: Counts_def Counts_fold)

lemma Ok_iff:
  "Ok s \<longleftrightarrow> \<not> Cancelled s \<and> suitePersistErr s = [] \<and> Counts s StatusFail = 0 \<and> (\<forall>j \<in> set (Jobs s). PersistErr j = [])"
  by (auto simp: Ok_def okLoop_iff Counts_eq filter_empty_conv)

end
