(* ===== verification/Torx_Coordination.thy ===== *)
theory Torx_Coordination
  imports Torx_Text Torx_Errors
begin

text \<open>
  Coordination of work that shares a host, \<^verbatim>\<open>src/coordination.go\<close>: the port allocator, and
  scratch paths with the part of Go's \<^verbatim>\<open>path\<close> package they use. The allocator's mutex makes
  each method one step on its record; a nil \<^verbatim>\<open>leased\<close> map is the empty set. What the
  operating system answers to the probes of one \<^verbatim>\<open>Allocate\<close> is a parameter: \<open>probe\<close>, from the
  host and the number of the attempt.
\<close>

subsection \<open>Ports\<close>

definition maxPortAttempts :: nat where
  "maxPortAttempts = 100"

definition defaultPortHost :: string where
  "defaultPortHost = ''127.0.0.1''"

record PortAllocator =
  host :: string
  rangeMin :: int
  rangeMax :: int
  leasedPorts :: "int set"

record PortRange =
  prMin :: int
  prMax :: int

definition NewPortAllocator :: "string \<Rightarrow> PortAllocator" where
  "NewPortAllocator h = \<lparr>host = h, rangeMin = 0, rangeMax = 0, leasedPorts = {}\<rparr>"

definition NewRangePortAllocator :: "int \<Rightarrow> int \<Rightarrow> PortAllocator" where
  "NewRangePortAllocator lo hi = \<lparr>host = [], rangeMin = lo, rangeMax = hi, leasedPorts = {}\<rparr>"

definition Host :: "PortAllocator \<Rightarrow> string" where
  "Host a = (if host a = [] then defaultPortHost else host a)"

definition lease_port :: "int \<Rightarrow> PortAllocator \<Rightarrow> PortAllocator" where
  "lease_port port a = a\<lparr>leasedPorts := insert port (leasedPorts a)\<rparr>"

type_synonym prober = "string \<Rightarrow> nat \<Rightarrow> error + int"

fun probeLoop :: "prober \<Rightarrow> PortAllocator \<Rightarrow> nat \<Rightarrow> nat \<Rightarrow> (error + int) \<times> PortAllocator" where
  "probeLoop probe a attempt 0 =
     (Inl (Wrap ErrAllocation ''coordination: allocate port''
        (Some (Errorf ''no free port on %s after %d attempts'' [AStr (Host a), AInt (int maxPortAttempts)]))), a)"
| "probeLoop probe a attempt (Suc left) =
     (case probe (Host a) attempt of
        Inl err \<Rightarrow> (Inl (Wrap ErrAllocation ''coordination: allocate port'' (Some err)), a)
      | Inr port \<Rightarrow>
          if port \<in> leasedPorts a then probeLoop probe a (Suc attempt) left
          else (Inr port, lease_port port a))"

definition allocateByProbe :: "prober \<Rightarrow> PortAllocator \<Rightarrow> (error + int) \<times> PortAllocator" where
  "allocateByProbe probe a = probeLoop probe a 0 maxPortAttempts"

fun rangeLoop :: "PortAllocator \<Rightarrow> int list \<Rightarrow> (error + int) \<times> PortAllocator" where
  "rangeLoop a [] =
     (Inl (Wrap ErrAllocation ''coordination: allocate port''
        (Some (Errorf ''no free port in range [%d,%d)'' [AInt (rangeMin a), AInt (rangeMax a)]))), a)"
| "rangeLoop a (p # ps) = (if p \<notin> leasedPorts a then (Inr p, lease_port p a) else rangeLoop a ps)"

definition allocateFromRange :: "PortAllocator \<Rightarrow> (error + int) \<times> PortAllocator" where
  "allocateFromRange a = rangeLoop a [rangeMin a..rangeMax a - 1]"

definition allocatePort :: "prober \<Rightarrow> PortAllocator \<Rightarrow> (error + int) \<times> PortAllocator" where
  "allocatePort probe a = (if rangeMax a > rangeMin a then allocateFromRange a else allocateByProbe probe a)"

definition Range :: "PortAllocator \<Rightarrow> int \<times> int \<times> bool" where
  "Range a = (if rangeMax a > rangeMin a then (rangeMin a, rangeMax a, True) else (0, 0, False))"

definition Release :: "int \<Rightarrow> PortAllocator \<Rightarrow> PortAllocator" where
  "Release port a = a\<lparr>leasedPorts := leasedPorts a - {port}\<rparr>"

subsection \<open>What one call does\<close>

lemma probeLoop_cases:
  "case probeLoop probe a k left of
     (Inr port, a') \<Rightarrow> port \<notin> leasedPorts a \<and> a' = lease_port port a \<and> (\<exists>i < left. probe (Host a) (k + i) = Inr port)
   | (Inl e, a') \<Rightarrow> a' = a \<and> errors_Is e ErrAllocation \<and>
       ((\<exists>i < left. \<exists>err. probe (Host a) (k + i) = Inl err) \<or>
        (\<forall>i < left. \<exists>port \<in> leasedPorts a. probe (Host a) (k + i) = Inr port))"
proof (induction left arbitrary: k)
  case (Suc left)
  show ?case
  proof (cases "probe (Host a) k")
    case (Inl err)
    then show ?thesis by (auto simp: Wrap_def intro!: exI [of _ 0])
  next
    case (Inr port)
    show ?thesis
    proof (cases "port \<in> leasedPorts a")
      case False
      with Inr show ?thesis by (auto intro!: exI [of _ 0])
    next
      case True
      have shift: "probe (Host a) (Suc k + i) = probe (Host a) (k + Suc i)" for i by simp
      have "\<forall>i < Suc left. \<exists>port \<in> leasedPorts a. probe (Host a) (k + i) = Inr port"
        if "\<forall>i < left. \<exists>port \<in> leasedPorts a. probe (Host a) (Suc k + i) = Inr port"
        using that Inr True unfolding shift by (auto simp: less_Suc_eq_0_disj)
      then show ?thesis using Suc.IH [of "Suc k"] Inr True
        unfolding shift by (auto split: prod.splits sum.splits)
    qed
  qed
qed (simp add: Wrap_def)

lemma rangeLoop_cases:
  assumes "sorted ps"
  shows "case rangeLoop a ps of
     (Inr port, a') \<Rightarrow> port \<in> set ps \<and> port \<notin> leasedPorts a \<and> a' = lease_port port a \<and>
       (\<forall>p \<in> set ps. p < port \<longrightarrow> p \<in> leasedPorts a)
   | (Inl e, a') \<Rightarrow> a' = a \<and> errors_Is e ErrAllocation \<and> set ps \<subseteq> leasedPorts a"
  using assms by (induction ps) (auto simp: Wrap_def split: prod.splits sum.splits)

lemma allocatePort_cases:
  obtains (got) port where "allocatePort probe a = (Inr port, lease_port port a)" "port \<notin> leasedPorts a"
  | (failed) e where "allocatePort probe a = (Inl e, a)" "errors_Is e ErrAllocation"
proof -
  have "(\<exists>port. allocatePort probe a = (Inr port, lease_port port a) \<and> port \<notin> leasedPorts a) \<or>
      (\<exists>e. allocatePort probe a = (Inl e, a) \<and> errors_Is e ErrAllocation)"
  proof (cases "rangeMax a > rangeMin a")
    case True
    have "sorted [rangeMin a..rangeMax a - 1]" by simp
    from rangeLoop_cases [OF this, where a = a] show ?thesis
      using True by (auto simp: allocatePort_def allocateFromRange_def split: prod.splits sum.splits)
  next
    case False
    from probeLoop_cases [where probe = probe and a = a and k = 0 and left = maxPortAttempts] show ?thesis
      using False by (auto simp: allocatePort_def allocateByProbe_def split: prod.splits sum.splits)
  qed
  then show thesis using got failed by blast
qed

lemma leasedPorts_simps [simp]:
  "leasedPorts (lease_port port a) = insert port (leasedPorts a)" "leasedPorts (Release port a) = leasedPorts a - {port}"
  by (simp_all add: lease_port_def Release_def)

subsection \<open>Any sequence of calls\<close>

text \<open>
  A history of one allocator: the calls its users make, in the order the mutex serializes
  them, each allocation with what the operating system would answer. \<open>handed\<close> lists the
  ports given out and not released since, one entry for each time.
\<close>

datatype port_op = AllocatePort prober | ReleasePort int

fun port_step :: "PortAllocator \<times> int list \<Rightarrow> port_op \<Rightarrow> PortAllocator \<times> int list" where
  "port_step (a, handed) (AllocatePort probe) =
     (case allocatePort probe a of (Inr port, a') \<Rightarrow> (a', port # handed) | (Inl e, a') \<Rightarrow> (a', handed))"
| "port_step (a, handed) (ReleasePort port) = (Release port a, removeAll port handed)"

lemma port_step_inv:
  assumes "distinct (snd s)" "set (snd s) = leasedPorts (fst s)"
  shows "distinct (snd (port_step s op)) \<and> set (snd (port_step s op)) = leasedPorts (fst (port_step s op))"
proof (cases s)
  case (Pair a handed)
  show ?thesis
  proof (cases op)
    case (AllocatePort probe)
    show ?thesis using assms unfolding Pair AllocatePort
      by (cases rule: allocatePort_cases [of probe a]) auto
  qed (use assms Pair in \<open>auto simp: distinct_removeAll\<close>)
qed

lemma port_run_inv:
  "distinct (snd s) \<Longrightarrow> set (snd s) = leasedPorts (fst s) \<Longrightarrow>
    distinct (snd (foldl port_step s ops)) \<and> set (snd (foldl port_step s ops)) = leasedPorts (fst (foldl port_step s ops))"
proof (induction ops arbitrary: s)
  case (Cons op ops)
  then show ?case using port_step_inv [of s op] by simp
qed simp

text \<open>
  C23: an allocator never hands out a port twice. After any sequence of allocations and
  releases, whatever the operating system answers, the ports out and not released are
  pairwise different; the next allocation gives one that is not among them, or an
  \<^verbatim>\<open>ErrAllocation\<close> and no change; and a ranged allocator gives the lowest such port of its
  range, failing only when the whole range is out.
\<close>
theorem ports_never_twice:
  assumes "leasedPorts a\<^sub>0 = {}" and "(a, handed) = foldl port_step (a\<^sub>0, []) ops"
  shows "distinct handed \<and>
    (case allocatePort probe a of
       (Inr port, a') \<Rightarrow> port \<notin> set handed \<and> a' = lease_port port a \<and>
         (rangeMin a < rangeMax a \<longrightarrow> rangeMin a \<le> port \<and> port < rangeMax a \<and> {rangeMin a..<port} \<subseteq> set handed)
     | (Inl e, a') \<Rightarrow> a' = a \<and> errors_Is e ErrAllocation \<and>
         (rangeMin a < rangeMax a \<longrightarrow> {rangeMin a..<rangeMax a} \<subseteq> set handed))"
proof -
  have inv: "distinct handed" "set handed = leasedPorts a"
    using port_run_inv [of "(a\<^sub>0, [])" ops] assms(1) unfolding assms(2) [symmetric] by simp_all
  show ?thesis
  proof (cases "rangeMin a < rangeMax a")
    case True
    have "sorted [rangeMin a..rangeMax a - 1]" by simp
    from rangeLoop_cases [OF this, where a = a] show ?thesis
      using True inv by (auto simp: allocatePort_def allocateFromRange_def split: prod.splits sum.splits)
  next
    case False
    then show ?thesis using inv by (cases rule: allocatePort_cases [of probe a]) auto
  qed
qed

definition busy_os :: prober where
  "busy_os h attempt = Inl (Errorf h [])"

theorem ports_never_twice_witness:
  "distinct [9001, 9000 :: int] \<and> errors_Is (Wrap ErrAllocation ''coordination: allocate port''
     (Some (Errorf ''no free port in range [%d,%d)'' [AInt 9000, AInt 9002]))) ErrAllocation"
proof -
  let ?a = "\<lparr>host = [], rangeMin = 9000, rangeMax = 9002, leasedPorts = {9000, 9001}\<rparr>"
  have "(?a, [9001, 9000]) = foldl port_step (NewRangePortAllocator 9000 9002, [])
      [AllocatePort busy_os, AllocatePort busy_os, ReleasePort 9000, AllocatePort busy_os, ReleasePort 9001, AllocatePort busy_os]"
    by code_simp
  moreover have "leasedPorts (NewRangePortAllocator 9000 9002) = {}" by (simp add: NewRangePortAllocator_def)
  ultimately show ?thesis using ports_never_twice [of "NewRangePortAllocator 9000 9002" ?a "[9001, 9000]" _ busy_os]
    by (auto simp: Wrap_def)
qed

text \<open>
  A ranged allocator that is only asked for ports gives its range from the bottom up: the ports
  out are the lowest ones, as many as it was asked for, up to the whole range.
\<close>

lemma range_allocated:
  "fst (foldl port_step (NewRangePortAllocator lo hi, []) (map AllocatePort probes)) =
      \<lparr>host = [], rangeMin = lo, rangeMax = hi, leasedPorts = {lo..<min hi (lo + int (length probes))}\<rparr>"
  if "lo < hi"
proof (induction probes rule: rev_induct)
  case (snoc probe probes)
  let ?s = "foldl port_step (NewRangePortAllocator lo hi, []) (map AllocatePort probes)" and ?n = "int (length probes)"
  let ?a = "\<lparr>host = [], rangeMin = lo, rangeMax = hi, leasedPorts = {lo..<min hi (lo + ?n)}\<rparr>"
  obtain handed where s: "?s = (?a, handed)" using snoc.IH by (metis prod.collapse)
  have ap: "allocatePort probe ?a = rangeLoop ?a [lo..hi - 1]" using that by (simp add: allocatePort_def allocateFromRange_def)
  have "sorted [lo..hi - 1]" by simp
  note cases = rangeLoop_cases [OF this, where a = ?a, folded ap]
  consider (got) port where "allocatePort probe ?a = (Inr port, lease_port port ?a)" "lo \<le> port" "port < hi" "port \<notin> {lo..<min hi (lo + ?n)}"
      "\<forall>p \<in> {lo..<hi}. p < port \<longrightarrow> p \<in> {lo..<min hi (lo + ?n)}"
    | (full) e where "allocatePort probe ?a = (Inl e, ?a)" "{lo..hi - 1} \<subseteq> {lo..<min hi (lo + ?n)}"
  proof (cases "fst (allocatePort probe ?a)")
    case (Inl e)
    then show thesis using cases by (intro full [of e]) (auto split: prod.splits)
  next
    case (Inr port)
    then show thesis using cases by (intro got [of port]) (auto split: prod.splits)
  qed
  then show ?case
  proof cases
    case got
    have "\<not> lo + ?n < port" using got(3) got(5) [rule_format, of "lo + ?n"] by auto
    then have "port = lo + ?n" using got(2-4) by auto
    then show ?thesis using got(1,3) s by (auto simp: lease_port_def)
  next
    case full
    have "hi - 1 \<in> {lo..<min hi (lo + ?n)}" by (rule subsetD [OF full(2)]) (use that in simp)
    then show ?thesis using full(1) s by auto
  qed
qed (use that in \<open>simp add: NewRangePortAllocator_def\<close>)

lemma range_hands_out:
  assumes "lo \<le> q" "q < hi" "q - lo < int (length probes)"
  shows "q \<in> set (snd (foldl port_step (NewRangePortAllocator lo hi, []) (map AllocatePort probes)))"
proof -
  have "q \<in> leasedPorts (fst (foldl port_step (NewRangePortAllocator lo hi, []) (map AllocatePort probes)))"
    using assms by (subst range_allocated) auto
  then show ?thesis using port_run_inv [of "(NewRangePortAllocator lo hi, [])"] by (simp add: NewRangePortAllocator_def)
qed

subsection \<open>Paths\<close>

text \<open>
  \<^verbatim>\<open>path.Clean\<close> reduces a path lexically: it drops empty and dot elements and lets a dot-dot
  take the element before it away, at the root of a rooted path itself; what is left is
  written with single slashes, the empty path as a dot. \<^verbatim>\<open>path.Join\<close> joins the elements
  that are not empty and cleans the result, unless there are none.
\<close>

fun split_slash :: "string \<Rightarrow> string list" where
  "split_slash [] = [[]]"
| "split_slash (c # s) = (if c = CHR ''/'' then [] # split_slash s
     else (case split_slash s of [] \<Rightarrow> [[c]] | e # es \<Rightarrow> (c # e) # es))"

definition rooted :: "string \<Rightarrow> bool" where
  "rooted p \<longleftrightarrow> (case p of c # _ \<Rightarrow> c = CHR ''/'' | [] \<Rightarrow> False)"

definition clean_elem :: "bool \<Rightarrow> string list \<Rightarrow> string \<Rightarrow> string list" where
  "clean_elem r out e =
     (if e = [] \<or> e = ''.'' then out
      else if e = ''..'' then
        (if out \<noteq> [] \<and> last out \<noteq> ''..'' then butlast out else if r then out else out @ [''..''])
      else out @ [e])"

definition elems :: "string \<Rightarrow> string list" where
  "elems p = foldl (clean_elem (rooted p)) [] (split_slash p)"

definition Clean :: "string \<Rightarrow> string" where
  "Clean p = (let es = elems p in
     if rooted p then CHR ''/'' # join ''/'' es else if es = [] then ''.'' else join ''/'' es)"

definition path_Join :: "string list \<Rightarrow> string" where
  "path_Join es = (case filter (\<lambda>e. e \<noteq> []) es of [] \<Rightarrow> [] | es' \<Rightarrow> Clean (join ''/'' es'))"

subsection \<open>Scratch directories\<close>

record Scratch =
  Root :: string

definition Sub :: "Scratch \<Rightarrow> string list \<Rightarrow> string" where
  "Sub s parts = path_Join (Root s # parts)"

definition validComponent :: "string \<Rightarrow> bool" where
  "validComponent s \<longleftrightarrow> s \<noteq> [] \<and> s \<noteq> ''.'' \<and> s \<noteq> ''..'' \<and> CHR ''/'' \<notin> set s"

definition MakeScratch :: "string \<Rightarrow> string \<Rightarrow> Scratch option" where
  "MakeScratch base key = (if \<not> validComponent key then None else Some \<lparr>Root = path_Join [base, key]\<rparr>)"

subsection \<open>Splitting and joining\<close>

lemma split_slash_ne [simp]: "split_slash s \<noteq> []"
  by (induction s) (auto split: list.splits)

lemma split_slash_append: "split_slash (s @ CHR ''/'' # t) = split_slash s @ split_slash t"
proof (induction s)
  case (Cons c s)
  then show ?case by (cases "split_slash s") auto
qed simp

lemma split_slash_plain: "CHR ''/'' \<notin> set s \<Longrightarrow> split_slash s = [s]"
  by (induction s) auto

lemma rooted_append: "s \<noteq> [] \<Longrightarrow> rooted (s @ t) = rooted s"
  by (cases s) (auto simp: rooted_def)

definition plain :: "string \<Rightarrow> bool" where
  "plain e \<longleftrightarrow> e \<noteq> [] \<and> e \<noteq> ''.'' \<and> CHR ''/'' \<notin> set e"

lemma validComponent_plain: "validComponent e \<longleftrightarrow> plain e \<and> e \<noteq> ''..''"
  by (auto simp: validComponent_def plain_def)

lemma split_slash_no_slash: "e \<in> set (split_slash s) \<Longrightarrow> CHR ''/'' \<notin> set e"
  by (induction s arbitrary: e) (auto split: if_splits list.splits)

text \<open>
  The elements of a clean path: what is left has dot-dots only in front, and none when the
  path is rooted.
\<close>

definition clean_form :: "bool \<Rightarrow> string list \<Rightarrow> bool" where
  "clean_form r es \<longleftrightarrow> (\<forall>e \<in> set es. plain e) \<and>
     (\<exists>n ds. es = replicate n ''..'' @ ds \<and> ''..'' \<notin> set ds \<and> (r \<longrightarrow> n = 0))"

lemma clean_elem_form:
  assumes "clean_form r out" and "CHR ''/'' \<notin> set e"
  shows "clean_form r (clean_elem r out e)"
proof -
  obtain n ds where out: "out = replicate n ''..'' @ ds" "''..'' \<notin> set ds" "r \<longrightarrow> n = 0"
    using assms(1) by (auto simp: clean_form_def)
  consider "e = [] \<or> e = ''.''" | "e = ''..''" | "validComponent e"
    using assms(2) by (auto simp: validComponent_def)
  then show ?thesis
  proof cases
    case 1
    then show ?thesis using assms(1) by (auto simp: clean_elem_def)
  next
    case 2
    show ?thesis
    proof (cases "ds = []")
      case True
      then have "clean_elem r out e = (if r then [] else replicate (Suc n) ''..'')"
        using 2 out by (cases n) (auto simp: clean_elem_def last_replicate simp flip: replicate_append_same)
      then show ?thesis by (auto simp: clean_form_def plain_def intro!: exI [of _ "Suc n"] simp del: replicate_Suc)
    next
      case False
      then have "last ds \<noteq> ''..''" using out(2) last_in_set by metis
      then have "clean_elem r out e = replicate n ''..'' @ butlast ds"
        using 2 out False by (auto simp: clean_elem_def butlast_append)
      then show ?thesis using assms(1) out
        by (auto simp: clean_form_def dest: in_set_butlastD intro!: exI [of _ n] exI [of _ "butlast ds"])
    qed
  next
    case 3
    then have "clean_elem r out e = replicate n ''..'' @ (ds @ [e])"
      using out by (auto simp: clean_elem_def validComponent_def)
    then show ?thesis using assms(1) out 3
      by (auto simp: clean_form_def validComponent_plain intro!: exI [of _ n] exI [of _ "ds @ [e]"])
  qed
qed

lemma clean_fold_form:
  "clean_form r out \<Longrightarrow> \<forall>e \<in> set es. CHR ''/'' \<notin> set e \<Longrightarrow> clean_form r (foldl (clean_elem r) out es)"
  by (induction es arbitrary: out) (auto simp: clean_elem_form)

lemma elems_form: "clean_form (rooted p) (elems p)"
  unfolding elems_def by (rule clean_fold_form) (auto simp: clean_form_def dest: split_slash_no_slash)

lemma elems_Cons_valid:
  assumes "base \<noteq> []" and "validComponent key"
  shows "elems (base @ CHR ''/'' # key) = elems base @ [key]" "rooted (base @ CHR ''/'' # key) = rooted base"
  using assms by (auto simp: elems_def rooted_append split_slash_append split_slash_plain validComponent_def clean_elem_def)

text \<open>A path in clean form is read back as its elements.\<close>

lemma split_slash_join:
  "es \<noteq> [] \<Longrightarrow> \<forall>e \<in> set es. CHR ''/'' \<notin> set e \<Longrightarrow> split_slash (join ''/'' es) = es"
  by (induction "''/''" es rule: join.induct) (auto simp: split_slash_plain split_slash_append)

lemma clean_fold_id:
  assumes "clean_form r es"
  shows "foldl (clean_elem r) [] es = es"
proof -
  obtain n ds where es: "es = replicate n ''..'' @ ds" "''..'' \<notin> set ds" "r \<longrightarrow> n = 0" "\<forall>e \<in> set es. plain e"
    using assms by (auto simp: clean_form_def)
  have dots: "foldl (clean_elem r) (replicate m ''..'') (replicate k ''..'') = replicate (m + k) ''..''" if "\<not> r" for m k
  proof (induction k arbitrary: m)
    case (Suc k)
    have "clean_elem r (replicate m ''..'') ''..'' = replicate (Suc m) ''..''"
      using that by (cases m) (auto simp: clean_elem_def last_replicate simp flip: replicate_append_same)
    then show ?case using Suc.IH [of "Suc m"] by simp
  qed simp
  have rest: "foldl (clean_elem r) out ds = out @ ds" if "\<forall>e \<in> set ds. plain e \<and> e \<noteq> ''..''" for out and ds
    using that by (induction ds arbitrary: out) (auto simp: clean_elem_def plain_def)
  have "foldl (clean_elem r) [] (replicate n ''..'') = replicate n ''..''"
    using dots [of 0 n] es(3) by (cases r) auto
  then show ?thesis using rest [of ds] es by auto
qed

lemma rooted_join: "\<forall>e \<in> set es. plain e \<Longrightarrow> \<not> rooted (join ''/'' es)"
  by (cases "(''/'', es)" rule: join.cases) (auto simp: rooted_def plain_def neq_Nil_conv split: list.splits)

lemma join_ne: "\<forall>e \<in> set es. plain e \<Longrightarrow> es \<noteq> [] \<Longrightarrow> join ''/'' es \<noteq> []"
  by (cases "(''/'', es)" rule: join.cases) (auto simp: plain_def)

lemma Clean_reads:
  "elems (Clean p) = elems p" "rooted (Clean p) = rooted p"
proof -
  have form: "\<forall>e \<in> set (elems p). plain e" using elems_form [of p] by (simp add: clean_form_def)
  have sp: "split_slash (join ''/'' (elems p)) = elems p" if "elems p \<noteq> []"
    using that form by (intro split_slash_join) (auto simp: plain_def)
  show r: "rooted (Clean p) = rooted p"
    using rooted_join [OF form] by (auto simp: Clean_def Let_def rooted_def split: list.splits)
  have "elems (Clean p) = foldl (clean_elem (rooted p)) [] (split_slash (Clean p))" by (simp add: elems_def r)
  also have "\<dots> = foldl (clean_elem (rooted p)) [] (elems p)"
    using sp by (auto simp: Clean_def Let_def clean_elem_def)
  also have "\<dots> = elems p" using clean_fold_id [OF elems_form] .
  finally show "elems (Clean p) = elems p" .
qed

text \<open>
  A scratch root lies strictly beneath its base. \<^verbatim>\<open>MakeScratch\<close> refuses every key that is
  not a single plain path element; the root it makes for another is that key directly
  under the base, and a path \<^verbatim>\<open>Sub\<close> makes below it of such elements has the root's elements
  as a prefix. So the roots of two keys are different directories and neither contains the
  other.
\<close>
theorem MakeScratch_beneath:
  assumes "base \<noteq> []"
  shows "(\<not> validComponent key \<longrightarrow> MakeScratch base key = None) \<and>
    (\<forall>s. MakeScratch base key = Some s \<longrightarrow>
       rooted (Root s) = rooted base \<and> elems (Root s) = elems base @ [key] \<and>
       (\<forall>parts. (\<forall>e \<in> set parts. validComponent e) \<longrightarrow>
          rooted (Sub s parts) = rooted base \<and> elems (Sub s parts) = elems base @ key # parts))"
proof (intro conjI impI allI)
  show "MakeScratch base key = None" if "\<not> validComponent key" using that by (simp add: MakeScratch_def)
next
  fix s assume s: "MakeScratch base key = Some s"
  then have valid: "validComponent key" by (auto simp: MakeScratch_def split: if_splits)
  then have root: "Root s = Clean (base @ CHR ''/'' # key)"
    using s assms by (auto simp: MakeScratch_def path_Join_def validComponent_def split: if_splits)
  then show r: "rooted (Root s) = rooted base" "elems (Root s) = elems base @ [key]"
    using elems_Cons_valid [OF assms valid] by (simp_all add: Clean_reads)
  have ne: "Root s \<noteq> []" using r(2) by (auto simp: elems_def clean_elem_def)
  fix parts assume parts: "\<forall>e \<in> set parts. validComponent e"
  have step: "rooted (join ''/'' (p # ps)) = rooted p \<and> elems (join ''/'' (p # ps)) = elems p @ ps"
    if "p \<noteq> []" "\<forall>e \<in> set ps. validComponent e" for p ps
    using that
  proof (induction ps arbitrary: p)
    case (Cons e ps)
    have "join ''/'' (p # e # ps) = join ''/'' ((p @ CHR ''/'' # e) # ps)" by (cases ps) auto
    then show ?case using Cons.IH [of "p @ CHR ''/'' # e"] Cons.prems elems_Cons_valid [of p e] by simp
  qed simp
  have "filter (\<lambda>e. e \<noteq> []) (Root s # parts) = Root s # parts"
    using ne parts by (auto simp: validComponent_def intro: filter_True)
  then have "Sub s parts = Clean (join ''/'' (Root s # parts))" unfolding Sub_def path_Join_def by (simp only: list.case)
  then show "rooted (Sub s parts) = rooted base" "elems (Sub s parts) = elems base @ key # parts"
    using step [OF ne parts] r by (simp_all add: Clean_reads)
qed

theorem MakeScratch_beneath_witness:
  "MakeScratch ''/tmp/../torx'' ''..'' = None \<and> elems (Sub \<lparr>Root = ''/torx/n1''\<rparr> [''data'']) = [''torx'', ''n1'', ''data'']"
proof -
  have "MakeScratch ''/tmp/../torx'' ''n1'' = Some \<lparr>Root = ''/torx/n1''\<rparr>" "elems ''/tmp/../torx'' = [''torx'']"
    "\<not> validComponent ''..''" "validComponent ''data''"
    by code_simp+
  then show ?thesis using MakeScratch_beneath [of "''/tmp/../torx''" "''n1''"] MakeScratch_beneath [of "''/tmp/../torx''" "''..''"]
    by simp
qed

end
