(* ===== verification/Torx_Worker.thy ===== *)
theory Torx_Worker
  imports Torx_Results Torx_Coordination Torx_Spec
begin

text \<open>
  Nodes, assignments and the worker: \<^verbatim>\<open>src/node.go\<close>, the data of \<^verbatim>\<open>src/wire.go\<close>, \<^verbatim>\<open>src/worker.go\<close>,
  and the parts of \<^verbatim>\<open>src/job.go\<close> a worker drives. A job's own methods act on a world \<open>'w\<close> that
  only they know; each gives the error it returned or the value it panicked with, and the
  world it leaves. The results tree is a parameter: where a job's directory is and which
  writes to it fail. So are the registered backend builders and the files of a control
  group. A declared service is the outcome of its \<^verbatim>\<open>Spec\<close>, the same whenever it is asked.
  Code of the job that runs outside \<^verbatim>\<open>recovered\<close> can panic past the worker: the
  outcome of \<open>execute\<close> is a \<open>run\<close>.
\<close>

subsection \<open>Nodes and their descriptions\<close>

record BackendDescriptor =
  bKind :: string
  bHost :: string
  bConfig :: string

record Node =
  name :: string
  role :: string
  addr :: string
  resources :: Resources
  nscratch :: Scratch
  ports :: "PortAllocator option"
  descriptor :: BackendDescriptor

definition defaultNodeAddr :: string where
  "defaultNodeAddr = ''127.0.0.1''"

definition Addr :: "Node \<Rightarrow> string" where
  "Addr n = (if addr n \<noteq> [] then addr n else if bHost (descriptor n) \<noteq> [] then bHost (descriptor n) else defaultNodeAddr)"

record NodeDescriptor =
  dName :: string
  dRole :: string
  dAddress :: string
  dScratch :: string
  dBackend :: BackendDescriptor
  dPorts :: "PortRange option"

record LocalBackend =
  lbNetNS :: string
  lbCgroup :: string

definition noBackend :: LocalBackend where
  "noBackend = \<lparr>lbNetNS = [], lbCgroup = []\<rparr>"

text \<open>The strict decoder of JSON is a parameter.\<close>

definition localBackendFrom :: "(string \<Rightarrow> string + LocalBackend) \<Rightarrow> BackendDescriptor \<Rightarrow> string + LocalBackend" where
  "localBackendFrom decode d = (if bConfig d = [] then Inr noBackend
     else case decode (bConfig d) of Inl err \<Rightarrow> Inl (''local backend config: '' @ err) | Inr b \<Rightarrow> Inr b)"

definition descriptorOf :: "Node \<Rightarrow> NodeDescriptor" where
  "descriptorOf n = \<lparr>dName = name n, dRole = role n, dAddress = Addr n, dScratch = Root (nscratch n),
     dBackend = descriptor n,
     dPorts = (case ports n of
        None \<Rightarrow> None
      | Some a \<Rightarrow> (case Range a of (lo, hi, ranged) \<Rightarrow> if ranged then Some \<lparr>prMin = lo, prMax = hi\<rparr> else None))\<rparr>"

text \<open>
  The worker's nodes share one probing allocator, the last value \<open>buildNodes\<close> threads, unless
  they carry a range; a node's \<open>ports\<close> of \<open>None\<close> here stands for that shared allocator.
\<close>

definition no_resources :: Resources where
  "no_resources = \<lparr>CPUs = None, MemoryMB = None, Labels = {}\<rparr>"

definition buildNode :: "NodeDescriptor \<Rightarrow> Node" where
  "buildNode d = \<lparr>name = dName d, role = dRole d, addr = dAddress d, resources = no_resources,
     nscratch = \<lparr>Root = dScratch d\<rparr>,
     ports = (case dPorts d of None \<Rightarrow> None | Some r \<Rightarrow> Some (NewRangePortAllocator (prMin r) (prMax r))),
     descriptor = dBackend d\<rparr>"

fun buildNodes :: "(BackendDescriptor \<Rightarrow> backend_error option run) \<Rightarrow> NodeDescriptor list \<Rightarrow> (backend_error + Node list) run" where
  "buildNodes build [] = Value (Inr [])"
| "buildNodes build (d # ds) =
     (case build (dBackend d) of
        Panicked v \<Rightarrow> Panicked v
      | Value (Some err) \<Rightarrow> Value (Inl err)
      | Value None \<Rightarrow> (case buildNodes build ds of
          Panicked v \<Rightarrow> Panicked v | Value (Inl err) \<Rightarrow> Value (Inl err) | Value (Inr ns) \<Rightarrow> Value (Inr (buildNode d # ns))))"

subsection \<open>Assignments\<close>

record SessionConfig =
  sResultsDir :: string
  TimeoutMS :: int

record Assignment =
  SchemaVersion :: int
  JobID :: string
  aParams :: Params
  aNodes :: "NodeDescriptor list"
  Session :: SessionConfig
  aSeed :: uint64

definition currentSchema :: int where
  "currentSchema = 1"

definition stampSchema :: "Assignment \<Rightarrow> Assignment" where
  "stampSchema a = a\<lparr>SchemaVersion := currentSchema\<rparr>"

definition checkSchema :: "Assignment \<Rightarrow> int + Assignment" where
  "checkSchema a = (if SchemaVersion a \<noteq> currentSchema then Inl (SchemaVersion a) else Inr a)"

subsection \<open>A job's code and its context\<close>

record JobContext =
  jcParams :: Params
  seed :: uint64
  resultsDir :: string

record 'w job_life =
  Declare :: "JobContext \<Rightarrow> NodeSpec list run list run"
  BindAll :: "Node list list \<Rightarrow> 'w \<Rightarrow> unit run \<times> 'w"
  Setup :: "JobContext \<Rightarrow> 'w \<Rightarrow> string option run \<times> 'w"
  RunBody :: "JobContext \<Rightarrow> 'w \<Rightarrow> string option run \<times> 'w"
  Teardown :: "JobContext \<Rightarrow> bool \<Rightarrow> 'w \<Rightarrow> string option run \<times> 'w"
  summary :: "'w \<Rightarrow> string"
  data :: "'w \<Rightarrow> string"
  persistErrors :: "'w \<Rightarrow> string list"

text \<open>
  \<^verbatim>\<open>PoolSpec\<close> concatenates the declared services' specs, asking each in turn; \<^verbatim>\<open>Bind\<close> deals the
  nodes out to them, asking again.
\<close>

fun jcNodes :: "NodeSpec list run list \<Rightarrow> NodeSpec list \<Rightarrow> NodeSpec list run" where
  "jcNodes [] nodes = Value nodes"
| "jcNodes (Panicked v # svcs) nodes = Panicked v"
| "jcNodes (Value spec # svcs) nodes = jcNodes svcs (nodes @ spec)"

definition jcPoolSpec :: "NodeSpec list run list \<Rightarrow> PoolSpec run" where
  "jcPoolSpec svcs = (case jcNodes svcs [] of Panicked v \<Rightarrow> Panicked v | Value nodes \<Rightarrow> Value \<lparr>Nodes = nodes\<rparr>)"

fun dealNodes :: "NodeSpec list run list \<Rightarrow> 'n list \<Rightarrow> 'n list list run" where
  "dealNodes [] nodes = Value []"
| "dealNodes (Panicked v # svcs) nodes = Panicked v"
| "dealNodes (Value svc # svcs) nodes =
     (if length svc > length nodes then Panicked ''slice bounds out of range''
      else (case dealNodes svcs (drop (length svc) nodes) of
        Panicked v \<Rightarrow> Panicked v | Value rest \<Rightarrow> Value (take (length svc) nodes # rest)))"

definition step_outcome :: "string option run \<Rightarrow> step_error option" where
  "step_outcome r = (case r of Panicked v \<Rightarrow> Some (Panic v) | Value None \<Rightarrow> None | Value (Some e) \<Rightarrow> Some (Returned e))"

subsection \<open>Running a job\<close>

definition zeroResult :: "string \<Rightarrow> int \<Rightarrow> int \<Rightarrow> JobResult" where
  "zeroResult jid start stop = \<lparr>resID = jid, resParams = [], Status = StatusPass, Start = start, Stop = stop,
     Summary = [], Data = [], ErrorOf = None, Dirty = False, PersistErr = [], resSeed = 0\<rparr>"

definition setupAndRun :: "'w job_life \<Rightarrow> JobContext \<Rightarrow> 'w \<Rightarrow> step_error option \<times> 'w" where
  "setupAndRun job jc w =
     (case Setup job jc w of (r, w1) \<Rightarrow>
        case step_outcome r of
          Some e \<Rightarrow> (Some e, w1)
        | None \<Rightarrow> (case RunBody job jc w1 of (r2, w2) \<Rightarrow> (step_outcome r2, w2)))"

definition runJob :: "int \<Rightarrow> int \<Rightarrow> string \<Rightarrow> 'w job_life \<Rightarrow> JobContext \<Rightarrow> 'w \<Rightarrow> JobResult \<times> 'w" where
  "runJob start stop jid job jc w =
     (case setupAndRun job jc w of (runErr, w1) \<Rightarrow>
        case Teardown job jc (runErr = None) w1 of (td, w2) \<Rightarrow>
          let tdErr = step_outcome td;
              res = (zeroResult jid start stop)\<lparr>Summary := summary job w2, Data := data job w2\<rparr>;
              res = (case runErr of
                  Some e \<Rightarrow> res\<lparr>Status := StatusFail, ErrorOf := Some (case tdErr of
                      None \<Rightarrow> StepFailed e | Some t \<Rightarrow> AlsoTeardown (StepFailed e) t)\<rparr>
                | None \<Rightarrow> (case tdErr of
                      Some t \<Rightarrow> res\<lparr>Status := StatusFail, ErrorOf := Some (StepFailed t)\<rparr>
                    | None \<Rightarrow> res\<lparr>Status := StatusPass\<rparr>));
              res = (if tdErr \<noteq> None then res\<lparr>Dirty := True\<rparr> else res)
          in (res, w2))"

subsection \<open>Executing an assignment\<close>

record tree =
  jobResultsDir :: "string \<Rightarrow> string \<Rightarrow> string \<times> string option"
  traceOpen :: "string \<Rightarrow> string option"
  traceClose :: "string \<Rightarrow> string option"
  writeResultJSON :: "string \<Rightarrow> JobResult \<Rightarrow> string option"

definition noteOpt :: "string list \<Rightarrow> string option \<Rightarrow> string list" where
  "noteOpt errs e = (case e of None \<Rightarrow> errs | Some m \<Rightarrow> errs @ [m])"

definition finish :: "tree \<Rightarrow> string \<Rightarrow> bool \<Rightarrow> string list \<Rightarrow> string list \<Rightarrow> Assignment \<Rightarrow> JobResult \<Rightarrow> JobResult" where
  "finish t jobDir traced persistErrs jobErrs a res =
     (let errs = (if traced then noteOpt persistErrs (traceClose t jobDir) else persistErrs) @ jobErrs;
          res = res\<lparr>resParams := aParams a, resSeed := aSeed a, PersistErr := join ''; '' errs\<rparr>
      in case writeResultJSON t jobDir res of
           None \<Rightarrow> res
         | Some e \<Rightarrow> res\<lparr>PersistErr := join ''; '' (errs @ [e])\<rparr>)"

record 'w worker =
  wEnc :: "val \<Rightarrow> string"
  wRegistry :: job_registry
  wLife :: "job_code \<Rightarrow> 'w job_life"
  wDecode :: "string \<Rightarrow> string + LocalBackend"
  wReset :: "string \<Rightarrow> string option"
  wBuilders :: "string \<Rightarrow> (BackendDescriptor \<Rightarrow> string option run) option"
  wTree :: tree
  wStart :: int
  wStop :: int

definition openTrace :: "tree \<Rightarrow> string \<Rightarrow> string list \<Rightarrow> bool \<times> string list" where
  "openTrace t jobDir errs = (if jobDir \<noteq> [] then (case traceOpen t jobDir of
     None \<Rightarrow> (True, errs) | Some e \<Rightarrow> (False, errs @ [e])) else (False, errs))"

text \<open>\<open>wBuilders\<close> is the registry of backend kinds, \<open>wReset\<close> what lifting the limits of a control group fails with.\<close>

definition buildBackend :: "'w worker \<Rightarrow> BackendDescriptor \<Rightarrow> backend_error option run" where
  "buildBackend k d =
     (if bKind d = [] \<or> bKind d = ''local'' then
        (case localBackendFrom (wDecode k) d of
           Inl err \<Rightarrow> Value (Some (BackendError err))
         | Inr b \<Rightarrow> if lbCgroup b = [] then Value None else Value (map_option BackendError (wReset k (lbCgroup b))))
      else (case wBuilders k (bKind d) of
          Some build \<Rightarrow> (case build d of Panicked v \<Rightarrow> Panicked v | Value e \<Rightarrow> Value (map_option BackendError e))
        | None \<Rightarrow> Value (Some (UnknownBackend (bKind d)))))"

definition executeBound :: "'w worker \<Rightarrow> string \<Rightarrow> 'w job_life \<Rightarrow> JobContext \<Rightarrow> NodeSpec list run list \<Rightarrow> Node list \<Rightarrow> 'w \<Rightarrow>
    (failure + JobResult) run \<times> 'w" where
  "executeBound k jid job jc svcs nodes w =
     (case jcPoolSpec svcs of
        Panicked v \<Rightarrow> (Panicked v, w)
      | Value spec \<Rightarrow>
          if length nodes \<noteq> PoolSpec_Size spec
          then (Value (Inl (NodeCount (length nodes) (PoolSpec_Size spec))), w)
          else (case dealNodes svcs nodes of
              Panicked v \<Rightarrow> (Value (Inl (StepFailed (Panic v))), w)
            | Value dealt \<Rightarrow> (case BindAll job dealt w of
                (Panicked v, w1) \<Rightarrow> (Value (Inl (StepFailed (Panic v))), w1)
              | (Value _, w1) \<Rightarrow> (case runJob (wStart k) (wStop k) jid job jc w1 of (res, w2) \<Rightarrow> (Value (Inr res), w2)))))"

definition executeJob :: "'w worker \<Rightarrow> Assignment \<Rightarrow> string \<Rightarrow> string \<Rightarrow> 'w \<Rightarrow>
    (failure + JobResult) run \<times> 'w job_life option \<times> 'w" where
  "executeJob k a jid jobDir w =
     (case lookupJob (wRegistry k) (JobID a) of
        None \<Rightarrow> (Value (Inl (WorkerUnknownJob (JobID a))), None, w)
      | Some (Panicked v) \<Rightarrow> (Value (Inl (StepFailed (Panic v))), None, w)
      | Some (Value code) \<Rightarrow>
          (let job = wLife k code;
               jc = \<lparr>jcParams = aParams a, seed = aSeed a, resultsDir = jobDir\<rparr>
           in case Declare job jc of
                Panicked v \<Rightarrow> (Value (Inl (StepFailed (Panic v))), Some job, w)
              | Value svcs \<Rightarrow> (case buildNodes (buildBackend k) (aNodes a) of
                  Panicked v \<Rightarrow> (Panicked v, Some job, w)
                | Value (Inl err) \<Rightarrow> (Value (Inl (BackendFailed err)), Some job, w)
                | Value (Inr nodes) \<Rightarrow> (case executeBound k jid job jc svcs nodes w of (out, w') \<Rightarrow> (out, Some job, w')))))"

definition execute :: "'w worker \<Rightarrow> Assignment \<Rightarrow> 'w \<Rightarrow> JobResult run \<times> 'w" where
  "execute k a w =
     (let jid = variantID (wEnc k) (JobID a) (aParams a) in
      case jobResultsDir (wTree k) (sResultsDir (Session a)) jid of (jobDir, dirErr) \<Rightarrow>
      case openTrace (wTree k) jobDir (noteOpt [] dirErr) of (traced, errs) \<Rightarrow>
      case executeJob k a jid jobDir w of (out, job, w') \<Rightarrow>
        (case out of
           Panicked v \<Rightarrow> Panicked v
         | Value r \<Rightarrow> Value (finish (wTree k) jobDir traced errs (case job of None \<Rightarrow> [] | Some l \<Rightarrow> persistErrors l w') a
             (case r of
                Inl err \<Rightarrow> (zeroResult jid (wStart k) (wStop k))\<lparr>Status := StatusFail, ErrorOf := Some err\<rparr>
              | Inr res \<Rightarrow> res)), w'))"

subsection \<open>Lemmas\<close>

lemma jcNodes_Value [simp]: "jcNodes (map Value specs) nodes = Value (nodes @ concat specs)"
  by (induction specs arbitrary: nodes) simp_all

lemma jcNodes_Panicked: "jcNodes svcs nodes = Panicked v \<longleftrightarrow> (\<exists>specs rest. svcs = map Value specs @ Panicked v # rest)"
proof (induction svcs nodes rule: jcNodes.induct)
  case (2 u svcs nodes)
  have "(\<exists>specs rest. Panicked u # svcs = map Value specs @ Panicked v # rest) \<longleftrightarrow> u = v"
    by (auto simp: Cons_eq_append_conv Cons_eq_map_conv)
  then show ?case by simp
next
  case (3 spec svcs nodes)
  have "(\<exists>specs rest. Value spec # svcs = map Value specs @ Panicked v # rest) \<longleftrightarrow>
      (\<exists>specs rest. svcs = map Value specs @ Panicked v # rest)"
    by (auto simp: Cons_eq_append_conv Cons_eq_map_conv)
  then show ?case using 3 by simp
qed simp

lemma jcPoolSpec_Panicked: "jcPoolSpec svcs = Panicked v \<longleftrightarrow> (\<exists>specs rest. svcs = map Value specs @ Panicked v # rest)"
  unfolding jcNodes_Panicked [of svcs "[]" v, symmetric] by (simp add: jcPoolSpec_def split: run.splits)

lemma dealNodes_total:
  "length nodes = length (concat specs) \<Longrightarrow>
    \<exists>dealt. dealNodes (map Value specs) nodes = Value dealt \<and> concat dealt = nodes \<and> map length dealt = map length specs"
proof (induction specs arbitrary: nodes)
  case (Cons svc specs)
  then have "length (drop (length svc) nodes) = length (concat specs)" by simp
  then obtain rest where "dealNodes (map Value specs) (drop (length svc) nodes) = Value rest" "concat rest = drop (length svc) nodes"
    "map length rest = map length specs" using Cons.IH by blast
  then show ?case using Cons.prems by auto
qed simp

lemma buildNodes_built: "buildNodes b ds = Value (Inr ns) \<longleftrightarrow> (\<forall>d \<in> set ds. b (dBackend d) = Value None) \<and> ns = map buildNode ds"
proof (induction ds arbitrary: ns)
  case (Cons d ds)
  show ?case
  proof (cases "b (dBackend d) = Value None")
    case True
    then have "buildNodes b (d # ds) = Value (Inr ns) \<longleftrightarrow> (\<exists>ns'. buildNodes b ds = Value (Inr ns') \<and> ns = buildNode d # ns')"
      by (auto split: run.splits sum.splits)
    then show ?thesis using True Cons.IH by auto
  next
    case False
    then show ?thesis by (auto split: run.splits option.splits)
  qed
qed auto

lemma buildNodes_Panicked:
  "buildNodes b ds = Panicked v \<longleftrightarrow>
    (\<exists>pre d post. ds = pre @ d # post \<and> (\<forall>e \<in> set pre. b (dBackend e) = Value None) \<and> b (dBackend d) = Panicked v)"
proof (induction ds)
  case (Cons d ds)
  let ?P = "\<lambda>ds. \<exists>pre d post. ds = pre @ d # post \<and> (\<forall>e \<in> set pre. b (dBackend e) = Value None) \<and> b (dBackend d) = Panicked v"
  have split: "?P (d # ds) \<longleftrightarrow> b (dBackend d) = Panicked v \<or> b (dBackend d) = Value None \<and> ?P ds"
  proof
    assume "?P (d # ds)"
    then obtain pre e post where p: "d # ds = pre @ e # post" "\<forall>e \<in> set pre. b (dBackend e) = Value None" "b (dBackend e) = Panicked v" by blast
    show "b (dBackend d) = Panicked v \<or> b (dBackend d) = Value None \<and> ?P ds"
    proof (cases pre)
      case (Cons x xs)
      then have "ds = xs @ e # post" "\<forall>e \<in> set xs. b (dBackend e) = Value None" "b (dBackend d) = Value None" using p by auto
      then show ?thesis using p(3) by blast
    qed (use p in simp)
  next
    assume "b (dBackend d) = Panicked v \<or> b (dBackend d) = Value None \<and> ?P ds"
    then show "?P (d # ds)"
    proof (elim disjE conjE exE)
      fix pre e post assume "b (dBackend d) = Value None" "ds = pre @ e # post" "\<forall>e \<in> set pre. b (dBackend e) = Value None"
        "b (dBackend e) = Panicked v"
      then show ?thesis by (intro exI [of _ "d # pre"] exI [of _ e] exI [of _ post]) simp
    qed (use append_Nil in fastforce)
  qed
  have "buildNodes b (d # ds) = Panicked v \<longleftrightarrow> b (dBackend d) = Panicked v \<or> b (dBackend d) = Value None \<and> buildNodes b ds = Panicked v"
    by (simp split: run.splits option.splits sum.splits)
  then show ?case unfolding split Cons .
qed simp

text \<open>Only a registered builder can panic.\<close>

definition builder_panics :: "'w worker \<Rightarrow> BackendDescriptor \<Rightarrow> string \<Rightarrow> bool" where
  "builder_panics k d v \<longleftrightarrow> bKind d \<noteq> [] \<and> bKind d \<noteq> ''local'' \<and>
     (case wBuilders k (bKind d) of None \<Rightarrow> False | Some build \<Rightarrow> build d = Panicked v)"

lemma buildBackend_Panicked: "buildBackend k d = Panicked v \<longleftrightarrow> builder_panics k d v"
  by (auto simp: buildBackend_def builder_panics_def split: option.splits run.splits sum.splits)

lemma runJob_ID: "runJob start stop jid job jc w = (res, w') \<Longrightarrow> resID res = jid \<and> Start res = start \<and> Stop res = stop"
  by (auto simp: runJob_def Let_def zeroResult_def split: prod.splits option.splits if_splits)

lemma finish_simps [simp]:
  "resID (finish t d tr es js a res) = resID res" "resParams (finish t d tr es js a res) = aParams a"
  "Status (finish t d tr es js a res) = Status res" "ErrorOf (finish t d tr es js a res) = ErrorOf res"
  "Dirty (finish t d tr es js a res) = Dirty res" "resSeed (finish t d tr es js a res) = aSeed a"
  by (simp_all add: finish_def Let_def split: option.splits)

lemma runJob_cases:
  assumes "runJob start stop jid job jc w = (res, w')"
  obtains (passed) "Status res = StatusPass" "ErrorOf res = None" "\<not> Dirty res"
  | (failed) "Status res = StatusFail" "ErrorOf res \<noteq> None"
  using assms by (auto simp: runJob_def Let_def zeroResult_def split: prod.splits option.splits if_splits)

lemma executeBound_cases:
  assumes "executeBound k jid job jc svcs nodes w = (Value out, w')"
  obtains (refused) f where "out = Inl f" | (ran) w1 res where "out = Inr res" "runJob (wStart k) (wStop k) jid job jc w1 = (res, w')"
  using assms by (auto simp: executeBound_def split: if_splits prod.splits run.splits)

lemma executeBound_Panicked: "fst (executeBound k jid job jc svcs nodes w) = Panicked v \<longleftrightarrow> jcPoolSpec svcs = Panicked v"
  by (auto simp: executeBound_def split: run.splits prod.splits)

lemma executeJob_cases:
  assumes "executeJob k a jid jobDir w = (Value out, l, w')"
  obtains (refused) f where "out = Inl f" | (ran) job jc w1 res where "out = Inr res" "l = Some job"
    "runJob (wStart k) (wStop k) jid job jc w1 = (res, w')"
proof (cases out)
  case (Inr res)
  then obtain code svcs nodes where
    "executeBound k jid (wLife k code) \<lparr>jcParams = aParams a, seed = aSeed a, resultsDir = jobDir\<rparr> svcs nodes w = (Value out, w')"
    "l = Some (wLife k code)"
    using assms by (auto simp: executeJob_def Let_def split: option.splits run.splits sum.splits prod.splits)
  then show ?thesis using Inr ran by (auto elim!: executeBound_cases)
qed (use refused in blast)

text \<open>The job's own code has got so far that its services are declared.\<close>

definition declared :: "'w worker \<Rightarrow> Assignment \<Rightarrow> string \<Rightarrow> NodeSpec list run list \<Rightarrow> bool" where
  "declared k a jobDir svcs \<longleftrightarrow> (\<exists>code. lookupJob (wRegistry k) (JobID a) = Some (Value code) \<and>
     Declare (wLife k code) \<lparr>jcParams = aParams a, seed = aSeed a, resultsDir = jobDir\<rparr> = Value svcs)"

lemma executeJob_Panicked:
  "fst (executeJob k a jid jobDir w) = Panicked v \<longleftrightarrow>
    (\<exists>svcs. declared k a jobDir svcs \<and> (buildNodes (buildBackend k) (aNodes a) = Panicked v \<or>
       (\<exists>ns. buildNodes (buildBackend k) (aNodes a) = Value (Inr ns)) \<and> jcPoolSpec svcs = Panicked v))"
proof (cases "\<exists>svcs. declared k a jobDir svcs")
  case True
  then obtain code svcs where d: "lookupJob (wRegistry k) (JobID a) = Some (Value code)"
    "Declare (wLife k code) \<lparr>jcParams = aParams a, seed = aSeed a, resultsDir = jobDir\<rparr> = Value svcs"
    by (auto simp: declared_def)
  have "fst (executeJob k a jid jobDir w) = Panicked v \<longleftrightarrow> buildNodes (buildBackend k) (aNodes a) = Panicked v \<or>
      (\<exists>ns. buildNodes (buildBackend k) (aNodes a) = Value (Inr ns)) \<and> jcPoolSpec svcs = Panicked v"
    using executeBound_Panicked [of k jid "wLife k code"]
    by (auto simp: executeJob_def Let_def d split: run.splits sum.splits prod.splits) (metis fst_conv)+
  then show ?thesis by (simp add: declared_def d)
next
  case False
  then show ?thesis by (auto simp: executeJob_def declared_def Let_def split: option.splits run.splits)
qed

lemma execute_Value:
  assumes "fst (execute k a w) = Value res"
  shows "resID res = variantID (wEnc k) (JobID a) (aParams a) \<and> resParams res = aParams a \<and> resSeed res = aSeed a \<and>
    (Status res = StatusPass \<and> ErrorOf res = None \<and> \<not> Dirty res \<or> Status res = StatusFail \<and> ErrorOf res \<noteq> None)"
proof -
  let ?jid = "variantID (wEnc k) (JobID a) (aParams a)"
  obtain jobDir dirErr where dir: "jobResultsDir (wTree k) (sResultsDir (Session a)) ?jid = (jobDir, dirErr)" by fastforce
  obtain traced errs where tr: "openTrace (wTree k) jobDir (noteOpt [] dirErr) = (traced, errs)" by fastforce
  obtain out l w' where ex: "executeJob k a ?jid jobDir w = (out, l, w')" by (metis prod_cases3)
  note e = assms [unfolded execute_def Let_def dir tr ex prod.case fst_conv]
  obtain r where r: "out = Value r" using e by (cases out) auto
  from ex [unfolded r] show ?thesis
  proof (cases rule: executeJob_cases)
    case (refused f)
    then show ?thesis using e r by (auto simp: zeroResult_def)
  next
    case (ran job jc w1 res0)
    from ran(3) show ?thesis
      by (cases rule: runJob_cases) (use ran(1) runJob_ID [OF ran(3)] e r in auto)
  qed
qed

lemma execute_Panicked:
  "fst (execute k a w) = Panicked v \<longleftrightarrow>
    fst (executeJob k a (variantID (wEnc k) (JobID a) (aParams a))
      (fst (jobResultsDir (wTree k) (sResultsDir (Session a)) (variantID (wEnc k) (JobID a) (aParams a)))) w) = Panicked v"
  by (auto simp: execute_def Let_def split: prod.splits run.splits)

subsection \<open>Properties\<close>

text \<open>
  C35: a result the worker gives is under the id of the variant, with its parameters and
  seed; it passes or fails, fails with an error and passes with none, and one that leaves
  its nodes in doubt is never a pass. The worker gives none, and the panic is let through,
  exactly in two cases, both after the job was found and its Declare returned: a registered
  backend builder panics, those of the nodes before it having succeeded, or every node is
  built and a declared service's Spec panics, those before it having returned.
\<close>
theorem execute_result:
  "(\<forall>res. fst (execute k a w) = Value res \<longrightarrow>
      resID res = variantID (wEnc k) (JobID a) (aParams a) \<and> resParams res = aParams a \<and> resSeed res = aSeed a \<and>
      (Status res = StatusPass \<and> ErrorOf res = None \<and> \<not> Dirty res \<or> Status res = StatusFail \<and> ErrorOf res \<noteq> None)) \<and>
   (\<forall>v. fst (execute k a w) = Panicked v \<longleftrightarrow>
      (\<exists>svcs. declared k a (fst (jobResultsDir (wTree k) (sResultsDir (Session a)) (variantID (wEnc k) (JobID a) (aParams a)))) svcs \<and>
        ((\<exists>pre d post. aNodes a = pre @ d # post \<and> (\<forall>e \<in> set pre. buildBackend k (dBackend e) = Value None) \<and> builder_panics k (dBackend d) v) \<or>
         (\<forall>d \<in> set (aNodes a). buildBackend k (dBackend d) = Value None) \<and> (\<exists>specs rest. svcs = map Value specs @ Panicked v # rest))))"
  by (intro conjI allI impI execute_Value)
    (simp_all add: execute_Panicked executeJob_Panicked buildNodes_built buildNodes_Panicked buildBackend_Panicked jcPoolSpec_Panicked)

text \<open>A job whose body panics, and a worker that knows it: on it a panic of a declared service's \<^verbatim>\<open>Spec\<close> is let through.\<close>

definition demo_life :: "string list job_life" where
  "demo_life = \<lparr>Declare = (\<lambda>jc. Value []), BindAll = (\<lambda>ns w. (Value (), w)),
     Setup = (\<lambda>jc w. (Value None, w @ [''setup''])), RunBody = (\<lambda>jc w. (Panicked ''nil map'', w @ [''run''])),
     Teardown = (\<lambda>jc passed w. (Value None, w @ [if passed then ''pass'' else ''fail''])),
     summary = (\<lambda>w. []), data = (\<lambda>w. []), persistErrors = (\<lambda>w. [])\<rparr>"

definition demo_worker :: "NodeSpec list run list \<Rightarrow> string list worker" where
  "demo_worker svcs = \<lparr>wEnc = (\<lambda>_. ''v''), wRegistry = [(''j'', Value \<lparr>jMatrix = None, jResolve = None\<rparr>)],
     wLife = (\<lambda>_. demo_life\<lparr>Declare := (\<lambda>_. Value svcs)\<rparr>), wDecode = (\<lambda>_. Inr noBackend), wReset = (\<lambda>_. None), wBuilders = (\<lambda>_. None),
     wTree = \<lparr>jobResultsDir = (\<lambda>_ _. ([], None)), traceOpen = (\<lambda>_. None), traceClose = (\<lambda>_. None), writeResultJSON = (\<lambda>_ _. None)\<rparr>,
     wStart = 0, wStop = 1\<rparr>"

definition demo_assignment :: Assignment where
  "demo_assignment = \<lparr>SchemaVersion = 1, JobID = ''j'', aParams = [], aNodes = [], Session = \<lparr>sResultsDir = [], TimeoutMS = 0\<rparr>, aSeed = 7\<rparr>"

theorem execute_result_witness:
  "(\<exists>res. fst (execute (demo_worker [Value []]) demo_assignment []) = Value res \<and> resID res = ''j'' \<and> Status res = StatusFail \<and> ErrorOf res \<noteq> None) \<and>
   fst (execute (demo_worker [Value [], Panicked ''nil map'']) demo_assignment []) = Panicked ''nil map''"
proof -
  have d: "declared (demo_worker svcs) demo_assignment dir svcs' \<longleftrightarrow> svcs' = svcs" for svcs svcs' dir
    by (auto simp: declared_def demo_worker_def demo_assignment_def lookupJob_def)
  note R = execute_result [of "demo_worker _" demo_assignment "[]", unfolded d]
  have n: "aNodes demo_assignment = []" by (simp add: demo_assignment_def)
  have panics: "fst (execute (demo_worker [Value [], Panicked ''nil map'']) demo_assignment []) = Panicked ''nil map''"
    unfolding conjunct2 [OF R, rule_format]
    by (intro exI [of _ "[Value [], Panicked ''nil map'']"] conjI refl disjI2 exI [of _ "[[]]"] exI [of _ "[]"]) (simp_all add: n)
  have "fst (execute (demo_worker [Value []]) demo_assignment []) \<noteq> Panicked v" for v
    unfolding conjunct2 [OF R, rule_format] by (auto simp: n Cons_eq_append_conv Cons_eq_map_conv)
  then obtain res where res: "fst (execute (demo_worker [Value []]) demo_assignment []) = Value res" by (meson run.exhaust)
  have "map_run Status (fst (execute (demo_worker [Value []]) demo_assignment [])) = Value StatusFail" by code_simp
  then have "Status res = StatusFail" using res by simp
  moreover have "variantID (wEnc (demo_worker [Value []])) (JobID demo_assignment) (aParams demo_assignment) = ''j''" by code_simp
  ultimately show ?thesis using conjunct1 [OF R, rule_format, OF res] res panics by auto
qed

text \<open>
  A job's code runs in order and is always torn down: Setup first, the body only when
  Setup succeeded, then Teardown once, on the world they left and told whether they
  passed. The job passes when none of them failed, and leaves its nodes in doubt exactly
  when Teardown did.
\<close>
theorem runJob_lifecycle:
  assumes "Setup job jc w = (r1, w1)" and "RunBody job jc w1 = (r2, w2)"
  defines "e \<equiv> (if step_outcome r1 \<noteq> None then step_outcome r1 else step_outcome r2)"
  defines "w3 \<equiv> (if step_outcome r1 \<noteq> None then w1 else w2)"
  assumes "Teardown job jc (e = None) w3 = (r3, w4)"
  shows "\<exists>res. runJob start stop jid job jc w = (res, w4) \<and>
    (Status res = StatusPass \<longleftrightarrow> e = None \<and> step_outcome r3 = None) \<and> (Dirty res \<longleftrightarrow> step_outcome r3 \<noteq> None) \<and>
    Summary res = summary job w4 \<and> Data res = data job w4"
proof -
  have "setupAndRun job jc w = (e, w3)" using assms(1,2) by (auto simp: setupAndRun_def e_def w3_def split: option.splits)
  then show ?thesis using assms(5) by (auto simp: runJob_def Let_def zeroResult_def split: option.splits)
qed

theorem runJob_lifecycle_witness:
  "\<exists>res. runJob 1 2 ''j'' demo_life \<lparr>jcParams = [], seed = 7, resultsDir = []\<rparr> [] = (res, [''setup'', ''run'', ''fail'']) \<and>
    Status res \<noteq> StatusPass \<and> \<not> Dirty res"
  using runJob_lifecycle [of demo_life "\<lparr>jcParams = [], seed = 7, resultsDir = []\<rparr>" "[]" "Value None" "[''setup'']"
      "Panicked ''nil map''" "[''setup'', ''run'']" "Value None" "[''setup'', ''run'', ''fail'']" 1 2 "''j''"]
  by (auto simp: demo_life_def step_outcome_def)

text \<open>
  A node survives the trip to a worker. The nodes a worker rebuilds from the driver's
  descriptors have, one for one, the names, roles, addresses, scratch roots and transports
  of the originals, and the same range of ports where the original had one; a second trip
  changes nothing more.
\<close>
theorem buildNodes_descriptorOf:
  assumes "\<forall>n \<in> set nodes. b (descriptor n) = Value None"
  shows "\<exists>built. buildNodes b (map descriptorOf nodes) = Value (Inr built) \<and>
    list_all2 (\<lambda>n n'. name n' = name n \<and> role n' = role n \<and> Addr n' = Addr n \<and> nscratch n' = nscratch n \<and>
      descriptor n' = descriptor n \<and>
      (case ports n' of None \<Rightarrow> (\<forall>a. ports n = Some a \<longrightarrow> Range a = (0, 0, False))
       | Some a' \<Rightarrow> \<exists>a. ports n = Some a \<and> Range a' = Range a)) nodes built \<and>
    map descriptorOf built = map descriptorOf nodes"
proof -
  have addr: "Addr (buildNode (descriptorOf n)) = Addr n" for n
    by (auto simp: buildNode_def descriptorOf_def Addr_def defaultNodeAddr_def)
  have "dBackend (descriptorOf n) = descriptor n" for n by (simp add: descriptorOf_def)
  then have "buildNodes b (map descriptorOf nodes) = Value (Inr (map (\<lambda>n. buildNode (descriptorOf n)) nodes))"
    using assms unfolding buildNodes_built by simp
  moreover have "descriptorOf (buildNode (descriptorOf n)) = descriptorOf n" for n
    using addr [of n] by (auto simp: descriptorOf_def buildNode_def Range_def NewRangePortAllocator_def split: option.splits)
  ultimately show ?thesis using addr
    by (intro exI [of _ "map (\<lambda>n. buildNode (descriptorOf n)) nodes"])
       (auto simp: list_all2_conv_all_nth buildNode_def descriptorOf_def Range_def NewRangePortAllocator_def split: option.splits)
qed

definition demo_node :: Node where
  "demo_node = \<lparr>name = ''n1'', role = ''db'', addr = [], resources = no_resources, nscratch = \<lparr>Root = ''/s/n1''\<rparr>,
     ports = Some (NewRangePortAllocator 7000 7100), descriptor = \<lparr>bKind = ''ssh'', bHost = ''10.0.0.2'', bConfig = []\<rparr>\<rparr>"

theorem buildNodes_descriptorOf_witness:
  "\<exists>built. buildNodes (\<lambda>_. Value None) [descriptorOf demo_node] = Value (Inr built) \<and> map descriptorOf built = [descriptorOf demo_node] \<and>
     map Addr built = [''10.0.0.2'']"
proof -
  have "Addr demo_node = ''10.0.0.2''" by code_simp
  with buildNodes_descriptorOf [of "[demo_node]" "\<lambda>_. Value None"] show ?thesis by (auto simp: list_all2_Cons1)
qed

end
