(* ===== verification/Torx_Driver.thy ===== *)
theory Torx_Driver
  imports Torx_Worker Torx_Pool
begin

text \<open>
  The driver, \<^verbatim>\<open>src/driver.go\<close>: sizing the requested jobs, scheduling them on the pool and
  collecting their results. \<^verbatim>\<open>Run\<close> and the goroutines it starts are a step relation. The
  state holds what they share (the pool), what \<^verbatim>\<open>Run\<close> keeps in its variables, where \<^verbatim>\<open>Run\<close>
  stands (\<open>pc\<close>), the jobs running, and the goroutines that have given their nodes back and
  wait to hand over a result on the unbuffered channel. A step is one atomic action of
  some goroutine: a call on the pool, a look at the context, a receive. The context may be
  cancelled at any moment. What a launcher may return for an assignment is a parameter,
  \<open>launches\<close>; so are the job's \<^verbatim>\<open>Declare\<close>, the reporters and the results tree. A panic of
  a declared service's \<^verbatim>\<open>Spec\<close> while jobs are sized is not recovered and ends \<^verbatim>\<open>Run\<close>: what
  sizes jobs gives a \<open>run\<close>.
\<close>

subsection \<open>Options and sizing\<close>

record Reporter =
  Report :: "JobResult list \<Rightarrow> string option"
  Finish :: "SuiteResult \<Rightarrow> string option"

record RunOptions =
  MaxParallel :: int
  Timeout :: int
  ExitFirst :: bool
  ResultsDir :: string
  oSeed :: uint64
  Reporters :: "Reporter list"
  RunDir :: string

record 'w system =
  sRes :: "node \<Rightarrow> Resources"
  sNode :: "node \<Rightarrow> Node"
  sWorker :: "'w worker"

definition vid :: "'w system \<Rightarrow> JobRequest \<Rightarrow> string" where
  "vid sys req = variantID (wEnc (sWorker sys)) (ID req) (rParams req)"

definition chooseRunDir :: "(string \<Rightarrow> string + bool) \<Rightarrow> (string \<Rightarrow> string + string) \<Rightarrow> RunOptions \<Rightarrow> string \<times> string" where
  "chooseRunDir stat makeRunDir opts =
     (if RunDir opts \<noteq> [] \<and> ResultsDir opts \<noteq> [] then ([], ''driver: RunDir and ResultsDir are mutually exclusive'')
      else if RunDir opts \<noteq> [] then
        (case stat (RunDir opts) of
           Inl err \<Rightarrow> ([], ''run directory: '' @ err)
         | Inr isDir \<Rightarrow> if \<not> isDir then ([], ''run directory '' @ RunDir opts @ '' is not a directory'') else (RunDir opts, []))
      else if ResultsDir opts \<noteq> [] then
        (case makeRunDir (ResultsDir opts) of
           Inr d \<Rightarrow> (d, [])
         | Inl err \<Rightarrow> ([], ''cannot create results tree under '' @ ResultsDir opts @ '': '' @ err))
      else ([], []))"

definition noteErr :: "string \<Rightarrow> string option \<Rightarrow> string" where
  "noteErr persistErr err = (case err of None \<Rightarrow> persistErr
     | Some e \<Rightarrow> if persistErr = [] then e else persistErr @ ''; '' @ e)"

definition sizeJob :: "'w system \<Rightarrow> JobRequest \<Rightarrow> uint64 \<Rightarrow> (failure + PoolSpec) run" where
  "sizeJob sys req runSeed =
     (case lookupJob (wRegistry (sWorker sys)) (ID req) of
        None \<Rightarrow> Value (Inl (DriverUnknownJob (ID req)))
      | Some (Panicked v) \<Rightarrow> Value (Inl (DeclarePanicked (ID req) v))
      | Some (Value code) \<Rightarrow>
          (case Declare (wLife (sWorker sys) code)
               \<lparr>jcParams = rParams req, seed = VariantSeed runSeed (vid sys req), resultsDir = []\<rparr> of
             Panicked v \<Rightarrow> Value (Inl (DeclarePanicked (ID req) v))
           | Value svcs \<Rightarrow> (case jcPoolSpec svcs of Panicked v \<Rightarrow> Panicked v | Value spec \<Rightarrow> Value (Inr spec))))"

text \<open>Division of integers rounds toward zero in the source.\<close>

definition quo :: "int \<Rightarrow> int \<Rightarrow> int" where
  "quo a b = sgn a * sgn b * (\<bar>a\<bar> div \<bar>b\<bar>)"

definition buildAssignment :: "'w system \<Rightarrow> JobRequest \<Rightarrow> SubPool \<Rightarrow> RunOptions \<Rightarrow> Assignment" where
  "buildAssignment sys req sub opts = \<lparr>SchemaVersion = 0, JobID = ID req, aParams = rParams req,
     aNodes = map (\<lambda>n. descriptorOf (sNode sys n)) (sub_nodes sub),
     Session = \<lparr>sResultsDir = ResultsDir opts, TimeoutMS = quo (Timeout opts) 1000000\<rparr>,
     aSeed = VariantSeed (oSeed opts) (vid sys req)\<rparr>"

subsection \<open>The driver's state\<close>

record plan =
  pReq :: JobRequest
  pSpec :: PoolSpec

datatype pc = Top | Guard | Scan nat | Take nat | CheckActive | Receiving | Closing | Done

record driver =
  dpool :: Pool
  pending :: "plan list"
  running :: "(JobRequest \<times> SubPool) list"
  sending :: "JobResult list"
  active :: int
  results :: "JobResult list"
  persistErr :: string
  stop :: bool
  ctxErr :: bool
  at_pc :: pc

definition record_result :: "RunOptions \<Rightarrow> JobResult \<Rightarrow> driver \<Rightarrow> driver" where
  "record_result opts res d = d\<lparr>results := results d @ [res],
     persistErr := foldl (\<lambda>pe rep. noteErr pe (Report rep (results d @ [res]))) (persistErr d) (Reporters opts)\<rparr>"

definition planOne :: "'w system \<Rightarrow> RunOptions \<Rightarrow> node list \<Rightarrow> driver \<Rightarrow> JobRequest \<Rightarrow> driver run" where
  "planOne sys opts order d req =
     (case discErr req of
        Some err \<Rightarrow> Value (record_result opts (failResult (vid sys req) (rParams req) (DiscoveryFailed err)) d)
      | None \<Rightarrow> (case sizeJob sys req (oSeed opts) of
          Panicked v \<Rightarrow> Panicked v
        | Value (Inl err) \<Rightarrow> Value (record_result opts (failResult (vid sys req) (rParams req) err) d)
        | Value (Inr spec) \<Rightarrow> Value (
            if \<not> CanEverFit (sRes sys) order (dpool d) spec
            then record_result opts (failResult (vid sys req) (rParams req) (NeedsNodes (PoolSpec_Size spec))) d
            else d\<lparr>pending := pending d @ [\<lparr>pReq = req, pSpec = spec\<rparr>]\<rparr>)))"

fun planAll :: "'w system \<Rightarrow> RunOptions \<Rightarrow> node list \<Rightarrow> driver \<Rightarrow> JobRequest list \<Rightarrow> driver run" where
  "planAll sys opts order d [] = Value d"
| "planAll sys opts order d (req # reqs) =
     (case planOne sys opts order d req of Panicked v \<Rightarrow> Panicked v | Value d' \<Rightarrow> planAll sys opts order d' reqs)"

definition maxParallel :: "RunOptions \<Rightarrow> int" where
  "maxParallel opts = (if MaxParallel opts < 1 then 1 else MaxParallel opts)"

definition freshRun :: "bool \<Rightarrow> Pool \<Rightarrow> string \<Rightarrow> driver" where
  "freshRun cancelled p perr = \<lparr>dpool = p, pending = [], running = [], sending = [], active = 0, results = [], persistErr = perr,
     stop = False, ctxErr = cancelled, at_pc = Top\<rparr>"

definition startRun :: "'w system \<Rightarrow> RunOptions \<Rightarrow> node list \<Rightarrow> bool \<Rightarrow> Pool \<Rightarrow> string \<Rightarrow> JobRequest list \<Rightarrow> driver run" where
  "startRun sys opts order cancelled p perr requests =
     (case planAll sys opts order (freshRun cancelled p perr) requests of
        Panicked v \<Rightarrow> Panicked v
      | Value d \<Rightarrow> Value (d\<lparr>pending := sort_key (\<lambda>pl. - int (PoolSpec_Size (pSpec pl))) (pending d)\<rparr>))"

subsection \<open>Steps\<close>

definition remove_nth :: "nat \<Rightarrow> 'a list \<Rightarrow> 'a list" where
  "remove_nth i xs = take i xs @ drop (Suc i) xs"

definition takeJob :: "'w system \<Rightarrow> RunOptions \<Rightarrow> nat \<Rightarrow> driver \<Rightarrow> driver" where
  "takeJob sys opts idx d =
     (let p = pending d ! idx;
          d = d\<lparr>pending := remove_nth idx (pending d), at_pc := Guard\<rparr>
      in case Allocate (sRes sys) (dpool d) (pSpec p) of
           Inl err \<Rightarrow> record_result opts (failResult (vid sys (pReq p)) (rParams (pReq p)) (AllocationFailed err)) d
         | Inr (sub, pool') \<Rightarrow> d\<lparr>dpool := pool', active := active d + 1, running := running d @ [(pReq p, sub)]\<rparr>)"

fun closeFold :: "'w system \<Rightarrow> RunOptions \<Rightarrow> driver \<Rightarrow> plan list \<Rightarrow> driver" where
  "closeFold sys opts d [] = d"
| "closeFold sys opts d (pl # pls) =
     closeFold sys opts (record_result opts (failResult (vid sys (pReq pl)) (rParams (pReq pl)) NoCleanNodes) d) pls"

definition closeRun :: "'w system \<Rightarrow> RunOptions \<Rightarrow> driver \<Rightarrow> driver" where
  "closeRun sys opts d =
     (if stop d then d else closeFold sys opts d (pending d))\<lparr>at_pc := Done\<rparr>"

fun mainStep :: "'w system \<Rightarrow> RunOptions \<Rightarrow> pc \<Rightarrow> driver \<Rightarrow> driver" where
  "mainStep sys opts Top d = d\<lparr>at_pc := (if pending d \<noteq> [] \<or> active d > 0 then Guard else Closing)\<rparr>"
| "mainStep sys opts Guard d =
     d\<lparr>at_pc := (if \<not> stop d \<and> \<not> ctxErr d \<and> active d < maxParallel opts then Scan 0 else CheckActive)\<rparr>"
| "mainStep sys opts (Scan i) d =
     d\<lparr>at_pc := (if i < length (pending d)
        then (if CanAllocate (sRes sys) (dpool d) (pSpec (pending d ! i)) then Take i else Scan (Suc i))
        else CheckActive)\<rparr>"
| "mainStep sys opts (Take i) d = takeJob sys opts i d"
| "mainStep sys opts CheckActive d = d\<lparr>at_pc := (if active d = 0 then Closing else Receiving)\<rparr>"
| "mainStep sys opts Closing d = closeRun sys opts d"
| "mainStep sys opts Receiving d = d"
| "mainStep sys opts Done d = d"

definition receive :: "RunOptions \<Rightarrow> nat \<Rightarrow> driver \<Rightarrow> driver" where
  "receive opts k d =
     (let res = sending d ! k;
          d = record_result opts res (d\<lparr>sending := remove_nth k (sending d), active := active d - 1\<rparr>)
      in d\<lparr>stop := stop d \<or> (ExitFirst opts \<and> Status res = StatusFail) \<or> ctxErr d, at_pc := Top\<rparr>)"

definition runOneEnd :: "'w system \<Rightarrow> nat \<Rightarrow> string + JobResult \<Rightarrow> driver \<Rightarrow> driver" where
  "runOneEnd sys k out d =
     (case running d ! k of (req, sub) \<Rightarrow>
        let res = (case out of Inr r \<Rightarrow> r | Inl err \<Rightarrow> failResult (vid sys req) (rParams req) (LaunchFailed err))
        in d\<lparr>dpool := fst (if Dirty res then Evict (dpool d) (Some sub) else Free (dpool d) (Some sub)),
             running := remove_nth k (running d), sending := sending d @ [res]\<rparr>)"

inductive drv_step :: "'w system \<Rightarrow> RunOptions \<Rightarrow> (Assignment \<Rightarrow> string + JobResult \<Rightarrow> bool) \<Rightarrow> driver \<Rightarrow> driver \<Rightarrow> bool"
  for sys opts launches where
  main: "at_pc d \<noteq> Receiving \<Longrightarrow> at_pc d \<noteq> Done \<Longrightarrow> drv_step sys opts launches d (mainStep sys opts (at_pc d) d)"
| receive: "at_pc d = Receiving \<Longrightarrow> k < length (sending d) \<Longrightarrow> drv_step sys opts launches d (receive opts k d)"
| job_end: "k < length (running d) \<Longrightarrow>
    launches (buildAssignment sys (fst (running d ! k)) (snd (running d ! k)) opts) out \<Longrightarrow>
    drv_step sys opts launches d (runOneEnd sys k out d)"
| cancel: "\<not> ctxErr d \<Longrightarrow> drv_step sys opts launches d (d\<lparr>ctxErr := True\<rparr>)"

inductive_cases drv_stepE: "drv_step sys opts launches d d'"

definition drv_reach :: "'w system \<Rightarrow> RunOptions \<Rightarrow> (Assignment \<Rightarrow> string + JobResult \<Rightarrow> bool) \<Rightarrow> driver \<Rightarrow> driver \<Rightarrow> bool" where
  "drv_reach sys opts launches = (drv_step sys opts launches)\<^sup>*\<^sup>*"

definition suiteOf :: "RunOptions \<Rightarrow> string \<Rightarrow> (string \<Rightarrow> SuiteResult \<Rightarrow> string option) \<Rightarrow> driver \<Rightarrow> SuiteResult" where
  "suiteOf opts runDir writeRunJSON d =
     (let suite = \<lparr>Jobs = results d, suiteSeed = oSeed opts, Cancelled = ctxErr d, suitePersistErr = persistErr d\<rparr>;
          pe = foldl (\<lambda>pe rep. noteErr pe (Finish rep suite)) (persistErr d) (Reporters opts);
          suite = suite\<lparr>suitePersistErr := pe\<rparr>
      in if runDir \<noteq> [] then suite\<lparr>suitePersistErr := noteErr pe (writeRunJSON runDir suite)\<rparr> else suite)"

subsection \<open>Lists with one element taken out\<close>

lemma remove_nth_split: "i < length xs \<Longrightarrow> xs = take i xs @ xs ! i # drop (Suc i) xs"
  by (simp add: id_take_nth_drop)

lemma length_remove_nth [simp]: "i < length xs \<Longrightarrow> length (remove_nth i xs) = length xs - 1"
  by (simp add: remove_nth_def)

lemma mset_remove_nth:
  assumes "i < length xs"
  shows "mset xs = add_mset (xs ! i) (mset (remove_nth i xs))"
proof -
  have "mset (ys @ y # zs) = add_mset y (mset (ys @ zs))" for ys zs and y :: 'a by simp
  from this [of "take i xs" "xs ! i" "drop (Suc i) xs"] show ?thesis
    unfolding remove_nth_def id_take_nth_drop [OF assms, symmetric] .
qed

lemma set_remove_nth: "set (remove_nth i xs) \<subseteq> set xs"
  by (auto simp: remove_nth_def dest: in_set_takeD in_set_dropD)

lemma map_remove_nth: "map f (remove_nth i xs) = remove_nth i (map f xs)"
  by (simp add: remove_nth_def take_map drop_map)

lemma leased_sorted_wrt: "leased gs B \<longleftrightarrow> sorted_wrt (\<lambda>a b. a \<inter> b = {}) gs \<and> \<Union> (set gs) = B"
proof -
  have "sorted_wrt (\<lambda>a b. a \<inter> b = {}) gs \<longleftrightarrow> (\<forall>i < length gs. \<forall>j < length gs. i \<noteq> j \<longrightarrow> gs ! i \<inter> gs ! j = {})"
    (is "?L \<longleftrightarrow> ?R")
  proof
    assume L: ?L
    have "gs ! i \<inter> gs ! j = {}" if "i < length gs" "j < length gs" "i \<noteq> j" for i j
    proof (cases "i < j")
      case True
      then show ?thesis using sorted_wrt_nth_less [OF L _ that(2)] by simp
    next
      case False
      then have "gs ! j \<inter> gs ! i = {}" using sorted_wrt_nth_less [OF L _ that(1)] that(3) by simp
      then show ?thesis by (simp add: Int_commute)
    qed
    then show ?R by blast
  qed (simp add: sorted_wrt_iff_nth_less)
  then show ?thesis by (simp add: leased_def)
qed

lemma leased_remove_empty:
  assumes "leased (gs[k := {}]) B" and "k < length gs"
  shows "leased (remove_nth k gs) B"
proof -
  have "gs[k := {}] = take k gs @ {} # drop (Suc k) gs" using assms(2) by (simp add: upd_conv_take_nth_drop)
  then show ?thesis using assms(1) by (auto simp: leased_sorted_wrt remove_nth_def sorted_wrt_append)
qed

subsection \<open>What steps leave alone\<close>

lemma record_result_simps [simp]:
  "dpool (record_result opts res d) = dpool d" "pending (record_result opts res d) = pending d"
  "running (record_result opts res d) = running d" "sending (record_result opts res d) = sending d"
  "active (record_result opts res d) = active d" "results (record_result opts res d) = results d @ [res]"
  "stop (record_result opts res d) = stop d" "ctxErr (record_result opts res d) = ctxErr d"
  "at_pc (record_result opts res d) = at_pc d"
  by (simp_all add: record_result_def)

lemma closeRun_simps [simp]:
  "dpool (closeRun sys opts d) = dpool d" "pending (closeRun sys opts d) = pending d"
  "running (closeRun sys opts d) = running d" "sending (closeRun sys opts d) = sending d"
  "active (closeRun sys opts d) = active d" "stop (closeRun sys opts d) = stop d"
  "ctxErr (closeRun sys opts d) = ctxErr d" "at_pc (closeRun sys opts d) = Done"
  "results (closeRun sys opts d) = results d @
     (if stop d then [] else map (\<lambda>pl. failResult (vid sys (pReq pl)) (rParams (pReq pl)) NoCleanNodes) (pending d))"
proof -
  have "dpool (closeFold sys opts d pls) = dpool d \<and> pending (closeFold sys opts d pls) = pending d \<and>
      running (closeFold sys opts d pls) = running d \<and> sending (closeFold sys opts d pls) = sending d \<and>
      active (closeFold sys opts d pls) = active d \<and> stop (closeFold sys opts d pls) = stop d \<and>
      ctxErr (closeFold sys opts d pls) = ctxErr d \<and>
      results (closeFold sys opts d pls) = results d @ map (\<lambda>pl. failResult (vid sys (pReq pl)) (rParams (pReq pl)) NoCleanNodes) pls" for pls
    by (induction pls arbitrary: d) auto
  from this [of "pending d"] show "dpool (closeRun sys opts d) = dpool d" "pending (closeRun sys opts d) = pending d"
    "running (closeRun sys opts d) = running d" "sending (closeRun sys opts d) = sending d"
    "active (closeRun sys opts d) = active d" "stop (closeRun sys opts d) = stop d"
    "ctxErr (closeRun sys opts d) = ctxErr d" "at_pc (closeRun sys opts d) = Done"
    "results (closeRun sys opts d) = results d @
       (if stop d then [] else map (\<lambda>pl. failResult (vid sys (pReq pl)) (rParams (pReq pl)) NoCleanNodes) (pending d))"
    by (cases "stop d"; simp add: closeRun_def)+
qed

lemma receive_simps [simp]:
  "dpool (receive opts k d) = dpool d" "pending (receive opts k d) = pending d" "running (receive opts k d) = running d"
  "sending (receive opts k d) = remove_nth k (sending d)" "active (receive opts k d) = active d - 1"
  "results (receive opts k d) = results d @ [sending d ! k]" "at_pc (receive opts k d) = Top"
  "ctxErr (receive opts k d) = ctxErr d" "stop d \<Longrightarrow> stop (receive opts k d)"
  by (simp_all add: receive_def Let_def)

definition endResult :: "'w system \<Rightarrow> JobRequest \<Rightarrow> string + JobResult \<Rightarrow> JobResult" where
  "endResult sys req out = (case out of Inr r \<Rightarrow> r | Inl err \<Rightarrow> failResult (vid sys req) (rParams req) (LaunchFailed err))"

lemma runOneEnd_simps [simp]:
  "pending (runOneEnd sys k out d) = pending d" "running (runOneEnd sys k out d) = remove_nth k (running d)"
  "sending (runOneEnd sys k out d) = sending d @ [endResult sys (fst (running d ! k)) out]"
  "active (runOneEnd sys k out d) = active d" "results (runOneEnd sys k out d) = results d"
  "stop (runOneEnd sys k out d) = stop d" "ctxErr (runOneEnd sys k out d) = ctxErr d" "at_pc (runOneEnd sys k out d) = at_pc d"
  "dpool (runOneEnd sys k out d) =
     (if Dirty (endResult sys (fst (running d ! k)) out) then fst (Evict (dpool d) (Some (snd (running d ! k))))
      else fst (Free (dpool d) (Some (snd (running d ! k)))))"
  by (cases "running d ! k"; simp add: runOneEnd_def endResult_def Let_def)+

lemma takeJob_Inr:
  assumes "Allocate (sRes sys) (dpool d) (pSpec (pending d ! i)) = Inr (sub, p')"
  shows "takeJob sys opts i d = d\<lparr>pending := remove_nth i (pending d), at_pc := Guard, dpool := p', active := active d + 1,
    running := running d @ [(pReq (pending d ! i), sub)]\<rparr>"
  using assms by (simp add: takeJob_def Let_def)

lemma CanAllocate_Allocate:
  assumes "CanAllocate r p spec"
  obtains sub p' where "Allocate r p spec = Inr (sub, p')"
  using assms by (auto simp: CanAllocate_def Allocate_def Let_def)

subsection \<open>The nodes of running jobs\<close>

text \<open>
  The driver as a client of the pool's leases: the sub-pools of the running jobs are the
  grants outstanding.
\<close>

definition lease_inv :: "driver \<Rightarrow> bool" where
  "lease_inv d \<longleftrightarrow> pool_wf (dpool d) \<and> leased (map (\<lambda>j. live_nodes (snd j)) (running d)) (inUse (dpool d)) \<and>
     (\<forall>j \<in> set (running d). \<not> freed (snd j) \<and> distinct (sub_nodes (snd j)))"

lemma lease_inv_cong:
  "lease_inv d \<Longrightarrow> dpool d' = dpool d \<Longrightarrow> running d' = running d \<Longrightarrow> lease_inv d'"
  by (simp add: lease_inv_def)

lemma lease_inv_take:
  assumes "lease_inv d" and "Allocate (sRes sys) (dpool d) spec = Inr (sub, p')"
    and "dpool d' = p'" and "running d' = running d @ [(req, sub)]"
  shows "lease_inv d'"
proof -
  have acq: "pool_acquire (sRes sys) (dpool d) spec = Some (sub, p')" using assms(2) by (simp add: pool_acquire_def)
  have p: "pool_wf (dpool d)" "leased (map (\<lambda>j. live_nodes (snd j)) (running d)) (inUse (dpool d))"
    using assms(1) by (simp_all add: lease_inv_def)
  show ?thesis
    using pool_lease.acquire_leased [OF p acq] pool_lease.acquire_granted [OF p(1) acq] assms(1,3,4)
    by (auto simp: lease_inv_def)
qed

lemma lease_inv_end:
  assumes inv: "lease_inv d" and k: "k < length (running d)"
  shows "lease_inv (runOneEnd sys k out d)"
proof -
  let ?gs = "map (\<lambda>j. live_nodes (snd j)) (running d)" and ?s = "snd (running d ! k)"
  have p: "pool_wf (dpool d)" "leased ?gs (inUse (dpool d))" using inv by (simp_all add: lease_inv_def)
  have g: "k < length ?gs" "?gs ! k = live_nodes ?s" using k by simp_all
  have s: "\<not> freed ?s \<and> distinct (sub_nodes ?s)" using inv k by (simp add: lease_inv_def)
  note F = pool_lease.release_leased [OF p g s] and E = pool_lease.discard_leased [OF p g s]
  have "leased (remove_nth k ?gs) (inUse (dpool (runOneEnd sys k out d)))" "pool_wf (dpool (runOneEnd sys k out d))"
    using F E leased_remove_empty [OF _ g(1)] by auto
  then show ?thesis using inv set_remove_nth [of k "running d"] by (auto simp: lease_inv_def map_remove_nth)
qed

subsection \<open>Counting, and where the loop stands\<close>

definition busy_inv :: "RunOptions \<Rightarrow> driver \<Rightarrow> bool" where
  "busy_inv opts d \<longleftrightarrow> active d = int (length (running d) + length (sending d)) \<and> active d \<le> maxParallel opts"

definition can_take :: "'w system \<Rightarrow> driver \<Rightarrow> plan \<Rightarrow> bool" where
  "can_take sys d pl \<longleftrightarrow> CanAllocate (sRes sys) (dpool d) (pSpec pl)"

definition pc_inv :: "'w system \<Rightarrow> RunOptions \<Rightarrow> driver \<Rightarrow> bool" where
  "pc_inv sys opts d = (case at_pc d of
     Scan i \<Rightarrow> i \<le> length (pending d) \<and> active d < maxParallel opts \<and>
       (active d = 0 \<longrightarrow> (\<forall>j < i. \<not> can_take sys d (pending d ! j)))
   | Take i \<Rightarrow> i < length (pending d) \<and> active d < maxParallel opts \<and> can_take sys d (pending d ! i)
   | CheckActive \<Rightarrow> active d = 0 \<longrightarrow> stop d \<or> ctxErr d \<or> (\<forall>pl \<in> set (pending d). \<not> can_take sys d pl)
   | Receiving \<Rightarrow> active d > 0
   | Closing \<Rightarrow> active d = 0 \<and> (stop d \<or> ctxErr d \<or> (\<forall>pl \<in> set (pending d). \<not> can_take sys d pl))
   | Done \<Rightarrow> active d = 0 \<and> (stop d \<or> ctxErr d \<or> (\<forall>pl \<in> set (pending d). \<not> can_take sys d pl))
   | _ \<Rightarrow> True)"

lemma maxParallel_pos: "maxParallel opts \<ge> 1"
  by (simp add: maxParallel_def)

lemma CanAllocate_mono:
  assumes "CanAllocate r p spec" "pool_wf p" "pool_wf p'" "set (free p) \<subseteq> set (free p')"
  shows "CanAllocate r p' spec"
  using assms feasible_mono [of "free p" "free p'" r "Nodes spec"] unfolding CanAllocate_def matchSpecs_iff_feasible pool_wf_def by blast

text \<open>A job that ends never takes away what could be allocated: its nodes were not free.\<close>

lemma can_take_end:
  assumes "lease_inv d" "k < length (running d)" "can_take sys d pl"
  shows "can_take sys (runOneEnd sys' k out d) pl"
proof -
  have "set (free (dpool d)) \<subseteq> set (free (dpool (runOneEnd sys' k out d)))"
    by (simp add: Free_def Evict_def)
  moreover have "pool_wf (dpool d)" "pool_wf (dpool (runOneEnd sys' k out d))"
    using assms(1) lease_inv_end [OF assms(1,2), of sys' out] unfolding lease_inv_def by blast+
  ultimately show ?thesis using assms(3) CanAllocate_mono unfolding can_take_def by blast
qed

lemma can_take_cong: "dpool d' = dpool d \<Longrightarrow> can_take sys d' pl = can_take sys d pl"
  by (simp add: can_take_def)

definition sched_inv :: "'w system \<Rightarrow> RunOptions \<Rightarrow> driver \<Rightarrow> bool" where
  "sched_inv sys opts d \<longleftrightarrow> lease_inv d \<and> busy_inv opts d \<and> pc_inv sys opts d"

lemma sched_inv_take:
  assumes inv: "sched_inv sys opts d" and pc: "at_pc d = Take i"
  obtains sub p' where "Allocate (sRes sys) (dpool d) (pSpec (pending d ! i)) = Inr (sub, p')"
    "takeJob sys opts i d = d\<lparr>pending := remove_nth i (pending d), at_pc := Guard, dpool := p', active := active d + 1,
      running := running d @ [(pReq (pending d ! i), sub)]\<rparr>"
    "i < length (pending d)"
proof -
  have "CanAllocate (sRes sys) (dpool d) (pSpec (pending d ! i))" "i < length (pending d)"
    using inv pc by (simp_all add: sched_inv_def pc_inv_def can_take_def)
  then show ?thesis using that takeJob_Inr CanAllocate_Allocate by metis
qed

lemma sched_inv_main:
  assumes inv: "sched_inv sys opts d"
  shows "sched_inv sys opts (mainStep sys opts (at_pc d) d)"
proof (cases "at_pc d")
  case (Take i)
  obtain sub p' where a: "Allocate (sRes sys) (dpool d) (pSpec (pending d ! i)) = Inr (sub, p')"
    and t: "takeJob sys opts i d = d\<lparr>pending := remove_nth i (pending d), at_pc := Guard, dpool := p', active := active d + 1,
      running := running d @ [(pReq (pending d ! i), sub)]\<rparr>"
    using sched_inv_take [OF inv Take] by blast
  have "lease_inv (takeJob sys opts i d)"
    by (rule lease_inv_take [OF _ a]) (use inv t in \<open>simp_all add: sched_inv_def\<close>)
  then show ?thesis using inv Take t by (simp add: sched_inv_def busy_inv_def pc_inv_def)
next
  case (Scan i)
  have l: "lease_inv (mainStep sys opts (at_pc d) d)" "busy_inv opts (mainStep sys opts (at_pc d) d)"
    using inv Scan by (auto simp: sched_inv_def busy_inv_def intro: lease_inv_cong)
  have "pc_inv sys opts (mainStep sys opts (at_pc d) d)"
  proof (cases "i < length (pending d)")
    case True
    then show ?thesis using inv Scan
      by (auto simp: sched_inv_def pc_inv_def can_take_def less_Suc_eq)
  next
    case False
    then have "i = length (pending d)" using inv Scan by (simp add: sched_inv_def pc_inv_def)
    then show ?thesis using inv Scan by (auto simp: sched_inv_def pc_inv_def can_take_def in_set_conv_nth)
  qed
  then show ?thesis using l by (simp add: sched_inv_def)
next
  case Top
  then show ?thesis using inv by (auto simp: sched_inv_def busy_inv_def pc_inv_def intro: lease_inv_cong)
next
  case Guard
  then show ?thesis using inv maxParallel_pos [of opts]
    by (auto simp: sched_inv_def busy_inv_def pc_inv_def can_take_def intro: lease_inv_cong)
next
  case CheckActive
  then show ?thesis using inv
    by (auto simp: sched_inv_def busy_inv_def pc_inv_def can_take_def intro: lease_inv_cong)
next
  case Closing
  then show ?thesis using inv
    by (auto simp: sched_inv_def busy_inv_def pc_inv_def can_take_def intro: lease_inv_cong)
qed (use inv in simp_all)

lemma sched_inv_end:
  assumes inv: "sched_inv sys opts d" and k: "k < length (running d)"
  shows "sched_inv sys opts (runOneEnd sys k out d)"
proof -
  have l: "lease_inv d" using inv by (simp add: sched_inv_def)
  have pos: "active d > 0" using inv k by (simp add: sched_inv_def busy_inv_def)
  have "pc_inv sys opts (runOneEnd sys k out d)"
    using inv pos can_take_end [OF l k] by (auto simp: sched_inv_def pc_inv_def split: pc.splits)
  then show ?thesis using lease_inv_end [OF l k] inv k by (auto simp: sched_inv_def busy_inv_def)
qed

lemma sched_inv_step:
  assumes "drv_step sys opts launches d d'" and inv: "sched_inv sys opts d"
  shows "sched_inv sys opts d'"
  using assms(1)
proof (cases rule: drv_step.cases)
  case main
  then show ?thesis using sched_inv_main [OF inv] by simp
next
  case (receive k)
  then show ?thesis using inv
    by (auto simp: sched_inv_def busy_inv_def pc_inv_def intro: lease_inv_cong)
next
  case (job_end k out)
  then show ?thesis using sched_inv_end [OF inv] by simp
next
  case cancel
  then show ?thesis using inv
    by (auto simp: sched_inv_def busy_inv_def pc_inv_def can_take_def intro: lease_inv_cong split: pc.splits)
qed

subsection \<open>Where every request is\<close>

definition placed :: "'w system \<Rightarrow> driver \<Rightarrow> string multiset" where
  "placed sys d = mset (map resID (results d)) + mset (map resID (sending d)) +
     mset (map (\<lambda>j. vid sys (fst j)) (running d)) + mset (map (\<lambda>pl. vid sys (pReq pl)) (pending d))"

definition acct_inv :: "'w system \<Rightarrow> JobRequest list \<Rightarrow> driver \<Rightarrow> bool" where
  "acct_inv sys reqs d \<longleftrightarrow>
     (if at_pc d = Done \<and> \<not> stop d then mset (map resID (results d)) else placed sys d) = mset (map (vid sys) reqs)"

definition size_inv :: "'w system \<Rightarrow> RunOptions \<Rightarrow> driver \<Rightarrow> bool" where
  "size_inv sys opts d \<longleftrightarrow>
     (\<forall>pl \<in> set (pending d). sizeJob sys (pReq pl) (oSeed opts) = Value (Inr (pSpec pl))) \<and>
     (\<forall>j \<in> set (running d). \<exists>spec. sizeJob sys (fst j) (oSeed opts) = Value (Inr spec) \<and>
        list_all2 (\<lambda>s n. SatisfiedBy s (sRes sys n)) (Nodes spec) (sub_nodes (snd j)))"

definition launcher_ids :: "'w system \<Rightarrow> (Assignment \<Rightarrow> string + JobResult \<Rightarrow> bool) \<Rightarrow> bool" where
  "launcher_ids sys launches \<longleftrightarrow>
     (\<forall>a r. launches a (Inr r) \<longrightarrow> resID r = variantID (wEnc (sWorker sys)) (JobID a) (aParams a))"

lemma endResult_ID:
  assumes "launcher_ids sys launches" "launches (buildAssignment sys req sub opts) out"
  shows "resID (endResult sys req out) = vid sys req"
  using assms by (auto simp: launcher_ids_def endResult_def buildAssignment_def vid_def split: sum.splits)

lemma mset_map_remove_nth: "i < length xs \<Longrightarrow> mset (map f xs) = add_mset (f (xs ! i)) (mset (map f (remove_nth i xs)))"
  using mset_remove_nth [of i "map f xs"] by (simp only: map_remove_nth length_map nth_map)

lemma mainStep_fields:
  assumes "at_pc d \<noteq> Closing" "\<And>i. at_pc d \<noteq> Take i"
  shows "placed sys (mainStep sys opts (at_pc d) d) = placed sys d" "size_inv sys opts (mainStep sys opts (at_pc d) d) = size_inv sys opts d"
  using assms by (cases "at_pc d"; simp add: placed_def size_inv_def)+

lemma mainStep_not_done:
  assumes "at_pc d \<noteq> Closing" "at_pc d \<noteq> Done"
  shows "at_pc (mainStep sys opts (at_pc d) d) \<noteq> Done"
  using assms by (cases "at_pc d") (auto simp: takeJob_def Let_def split: sum.splits)

lemma idle: "busy_inv opts d \<Longrightarrow> active d = 0 \<Longrightarrow> running d = [] \<and> sending d = []"
  by (simp add: busy_inv_def flip: of_nat_add)

lemma placed_results: "mset (map resID (results d)) \<subseteq># placed sys d"
  unfolding placed_def add.assoc by (rule mset_subset_eq_add_left)

lemma placed_cancel [simp]: "placed sys (d\<lparr>ctxErr := True\<rparr>) = placed sys d"
  by (simp add: placed_def)

lemma acct_inv_cong:
  "acct_inv sys reqs d \<Longrightarrow> at_pc d' = at_pc d \<Longrightarrow> stop d' = stop d \<Longrightarrow> results d' = results d \<Longrightarrow>
    placed sys d' = placed sys d \<Longrightarrow> acct_inv sys reqs d'"
  by (simp only: acct_inv_def)

lemma acct_invI: "placed sys d = mset (map (vid sys) reqs) \<Longrightarrow> at_pc d \<noteq> Done \<Longrightarrow> acct_inv sys reqs d"
  by (simp add: acct_inv_def)

lemma acct_main:
  assumes inv: "acct_inv sys reqs d" "sched_inv sys opts d" and pc: "at_pc d \<noteq> Done"
  shows "acct_inv sys reqs (mainStep sys opts (at_pc d) d)"
proof -
  have pl: "placed sys d = mset (map (vid sys) reqs)" using inv(1) pc by (simp add: acct_inv_def)
  consider "at_pc d = Closing" | i where "at_pc d = Take i" | "at_pc d \<noteq> Closing" "\<And>i. at_pc d \<noteq> Take i" by blast
  then show ?thesis
  proof cases
    case 1
    then have "running d = [] \<and> sending d = []" using inv(2) idle by (auto simp: sched_inv_def pc_inv_def)
    then show ?thesis using pl 1 by (auto simp: acct_inv_def placed_def o_def)
  next
    case (2 i)
    obtain sub p' where t: "takeJob sys opts i d = d\<lparr>pending := remove_nth i (pending d), at_pc := Guard, dpool := p',
        active := active d + 1, running := running d @ [(pReq (pending d ! i), sub)]\<rparr>" "i < length (pending d)"
      using sched_inv_take [OF inv(2) 2] by blast
    then have "placed sys (takeJob sys opts i d) = placed sys d"
      using mset_map_remove_nth [OF t(2), of "\<lambda>pl. vid sys (pReq pl)"] by (simp add: placed_def)
    then show ?thesis using 2 t(1) pl by (simp add: acct_inv_def)
  next
    case 3
    show ?thesis
      by (rule acct_invI) (use pl mainStep_fields(1) [OF 3, of sys opts] mainStep_not_done [OF 3(1) pc] in \<open>simp_all only:\<close>, blast)
  qed
qed

lemma acct_step:
  assumes "drv_step sys opts launches d d'" and inv: "acct_inv sys reqs d" "sched_inv sys opts d" and ids: "launcher_ids sys launches"
  shows "acct_inv sys reqs d'"
  using assms(1)
proof (cases rule: drv_step.cases)
  case main
  then show ?thesis using acct_main [OF inv] by simp
next
  case (receive k)
  have "placed sys (receive opts k d) = placed sys d"
    using mset_map_remove_nth [OF receive(3), of resID] by (simp add: placed_def)
  then show ?thesis using inv(1) receive by (simp add: acct_inv_def)
next
  case (job_end k out)
  have "active d > 0" using job_end(2) inv(2) by (simp add: sched_inv_def busy_inv_def)
  then have nd: "at_pc d \<noteq> Done" using inv(2) by (auto simp: sched_inv_def pc_inv_def)
  have "resID (endResult sys (fst (running d ! k)) out) = vid sys (fst (running d ! k))"
    using endResult_ID [OF ids job_end(3)] .
  then have "placed sys (runOneEnd sys k out d) = placed sys d"
    using mset_map_remove_nth [OF job_end(2), of "\<lambda>j. vid sys (fst j)"] by (simp add: placed_def)
  then show ?thesis using inv(1) job_end nd by (simp add: acct_inv_def)
next
  case cancel
  show ?thesis unfolding cancel(1) by (rule acct_inv_cong [OF inv(1)]) simp_all
qed

lemma size_step:
  assumes "drv_step sys opts launches d d'" and inv: "size_inv sys opts d" "sched_inv sys opts d"
  shows "size_inv sys opts d'"
  using assms(1)
proof (cases rule: drv_step.cases)
  case main
  consider "at_pc d = Closing" | i where "at_pc d = Take i" | "at_pc d \<noteq> Closing" "\<And>i. at_pc d \<noteq> Take i" by blast
  then show ?thesis
  proof cases
    case (2 i)
    obtain sub p' where a: "Allocate (sRes sys) (dpool d) (pSpec (pending d ! i)) = Inr (sub, p')"
      and t: "takeJob sys opts i d = d\<lparr>pending := remove_nth i (pending d), at_pc := Guard, dpool := p',
        active := active d + 1, running := running d @ [(pReq (pending d ! i), sub)]\<rparr>" "i < length (pending d)"
      using sched_inv_take [OF inv(2) 2] by blast
    have "matchSpecs (sRes sys) (free (dpool d)) (Nodes (pSpec (pending d ! i))) = Some (sub_nodes sub)"
      using Allocate_Inr(7) [OF a] inv(2) by (simp add: sched_inv_def lease_inv_def)
    then have "list_all2 (\<lambda>s n. SatisfiedBy s (sRes sys n)) (Nodes (pSpec (pending d ! i))) (sub_nodes sub)"
      using matchSpecs_Some(1,4) by (simp add: list_all2_conv_all_nth)
    moreover have "sizeJob sys (pReq (pending d ! i)) (oSeed opts) = Value (Inr (pSpec (pending d ! i)))"
      using inv(1) t(2) by (simp add: size_inv_def)
    ultimately show ?thesis using main 2 t(1) inv(1) set_remove_nth [of i "pending d"] by (auto simp: size_inv_def)
  qed (use main inv(1) mainStep_fields(2) [of d sys opts] in \<open>auto simp: size_inv_def\<close>)
next
  case (receive k)
  then show ?thesis using inv(1) by (simp add: size_inv_def)
next
  case (job_end k out)
  then show ?thesis using inv(1) set_remove_nth [of k "running d"] by (auto simp: size_inv_def)
next
  case cancel
  then show ?thesis using inv(1) by (simp add: size_inv_def)
qed

subsection \<open>The start\<close>

definition planned :: "'w system \<Rightarrow> RunOptions \<Rightarrow> node list \<Rightarrow> Pool \<Rightarrow> plan \<Rightarrow> bool" where
  "planned sys opts order p pl \<longleftrightarrow> sizeJob sys (pReq pl) (oSeed opts) = Value (Inr (pSpec pl)) \<and> CanEverFit (sRes sys) order p (pSpec pl)"

lemma planOne_fields:
  assumes "planOne sys opts order d req = Value d'" and "list_all (planned sys opts order (dpool d)) (pending d)"
  shows "dpool d' = dpool d" "running d' = running d" "sending d' = sending d" "active d' = active d" "stop d' = stop d"
    "ctxErr d' = ctxErr d" "at_pc d' = at_pc d" "placed sys d' = add_mset (vid sys req) (placed sys d)"
    "list_all (planned sys opts order (dpool d')) (pending d')"
  using assms by (auto simp: planOne_def placed_def planned_def split: option.splits sum.splits run.splits if_splits)

lemma plan_fold:
  assumes "planAll sys opts order d reqs = Value d'" and "list_all (planned sys opts order (dpool d)) (pending d)"
  shows "dpool d' = dpool d \<and> running d' = running d \<and> sending d' = sending d \<and> active d' = active d \<and>
    stop d' = stop d \<and> ctxErr d' = ctxErr d \<and> at_pc d' = at_pc d \<and>
    placed sys d' = placed sys d + mset (map (vid sys) reqs) \<and> list_all (planned sys opts order (dpool d')) (pending d')"
  using assms
proof (induction reqs arbitrary: d)
  case (Cons req reqs)
  obtain d1 where d1: "planOne sys opts order d req = Value d1" "planAll sys opts order d1 reqs = Value d'"
    using Cons.prems(1) by (auto split: run.splits)
  note f = planOne_fields [OF d1(1) Cons.prems(2)]
  show ?case using Cons.IH [OF d1(2) f(9)] f by auto
qed simp

lemma startRun_fields:
  assumes "startRun sys opts order cancelled p perr reqs = Value d"
  shows "dpool d = p" "running d = []" "sending d = []" "active d = 0" "\<not> stop d" "ctxErr d = cancelled" "at_pc d = Top"
    "placed sys d = mset (map (vid sys) reqs)" "size_inv sys opts d"
    "\<forall>pl \<in> set (pending d). CanEverFit (sRes sys) order p (pSpec pl)"
    "sorted_wrt (\<lambda>a b. PoolSpec_Size (pSpec a) \<ge> PoolSpec_Size (pSpec b)) (pending d)"
proof -
  obtain e where e: "planAll sys opts order (freshRun cancelled p perr) reqs = Value e"
    and d: "d = e\<lparr>pending := sort_key (\<lambda>pl. - int (PoolSpec_Size (pSpec pl))) (pending e)\<rparr>"
    using assms by (auto simp: startRun_def split: run.splits)
  have empty: "placed sys (freshRun cancelled p perr) = {#}" by (simp add: freshRun_def placed_def)
  have f: "dpool e = p" "running e = []" "sending e = []" "active e = 0" "\<not> stop e" "ctxErr e = cancelled" "at_pc e = Top"
    "placed sys e = mset (map (vid sys) reqs)" "list_all (planned sys opts order p) (pending e)"
    using plan_fold [OF e] empty by (auto simp: freshRun_def)
  show "dpool d = p" "running d = []" "sending d = []" "active d = 0" "\<not> stop d" "ctxErr d = cancelled" "at_pc d = Top"
    using f by (simp_all add: d)
  have "placed sys d = placed sys e" by (simp add: placed_def d)
  then show "placed sys d = mset (map (vid sys) reqs)" using f(8) by simp
  show "size_inv sys opts d" "\<forall>pl \<in> set (pending d). CanEverFit (sRes sys) order p (pSpec pl)"
    using f(2,9) by (simp_all add: d size_inv_def list_all_iff planned_def)
  have "sorted (map (\<lambda>pl. - int (PoolSpec_Size (pSpec pl))) (pending d))" by (simp add: d)
  then show "sorted_wrt (\<lambda>a b. PoolSpec_Size (pSpec a) \<ge> PoolSpec_Size (pSpec b)) (pending d)"
    by (simp add: sorted_map)
qed

text \<open>Only a request's own sizing can end a run before it begins.\<close>

lemma startRun_Panicked:
  assumes "startRun sys opts order cancelled p perr reqs = Panicked v"
  shows "\<exists>req. req \<in> set reqs \<and> discErr req = None \<and> sizeJob sys req (oSeed opts) = Panicked v"
proof -
  have "\<exists>req. req \<in> set reqs \<and> discErr req = None \<and> sizeJob sys req (oSeed opts) = Panicked v"
    if "planAll sys opts order d reqs = Panicked v" for d
    using that
  proof (induction reqs arbitrary: d)
    case (Cons req reqs)
    show ?case
    proof (cases "planOne sys opts order d req")
      case (Value d')
      then show ?thesis using Cons.IH [of d'] Cons.prems by auto
    next
      case (Panicked u)
      then have "discErr req = None \<and> sizeJob sys req (oSeed opts) = Panicked u"
        by (auto simp: planOne_def split: option.splits run.splits sum.splits)
      then show ?thesis using Cons.prems Panicked by auto
    qed
  qed simp
  then show ?thesis using assms by (auto simp: startRun_def split: run.splits)
qed

lemma start_inv:
  assumes "distinct nodes" and "startRun sys opts order c (NewPool nodes) perr reqs = Value d"
  shows "sched_inv sys opts d" "acct_inv sys reqs d"
proof -
  note s = startRun_fields [OF assms(2)]
  show "sched_inv sys opts d"
    using s maxParallel_pos [of opts] pool_wf_NewPool [OF assms(1)]
    by (simp add: sched_inv_def lease_inv_def busy_inv_def pc_inv_def leased_def) (simp add: NewPool_def)
  show "acct_inv sys reqs d" using s by (simp add: acct_inv_def)
qed

lemma reach_inv:
  assumes "distinct nodes" and s: "startRun sys opts order c (NewPool nodes) perr reqs = Value d0" and "drv_reach sys opts launches d0 d"
  shows "sched_inv sys opts d" "size_inv sys opts d" "launcher_ids sys launches \<Longrightarrow> acct_inv sys reqs d"
proof -
  have "sched_inv sys opts d \<and> size_inv sys opts d \<and> (launcher_ids sys launches \<longrightarrow> acct_inv sys reqs d)"
    using assms(3) unfolding drv_reach_def
  proof (induction rule: rtranclp_induct)
    case base
    then show ?case using start_inv [OF assms(1) s] startRun_fields(9) [OF s] by blast
  next
    case (step d d')
    then show ?case using sched_inv_step [OF step(2)] size_step [OF step(2)] acct_step [OF step(2)] by blast
  qed
  then show "sched_inv sys opts d" "size_inv sys opts d" "launcher_ids sys launches \<Longrightarrow> acct_inv sys reqs d" by blast+
qed

subsection \<open>Every run ends\<close>

definition work :: "driver \<Rightarrow> nat" where
  "work d = (if ctxErr d then 0 else 1) + 3 * length (pending d) + 2 * length (running d) + length (sending d)"

definition rank :: "driver \<Rightarrow> nat" where
  "rank d = (case at_pc d of
     Top \<Rightarrow> length (pending d) + 6 | Guard \<Rightarrow> length (pending d) + 5 | Scan i \<Rightarrow> 4 + (length (pending d) - i)
   | Take i \<Rightarrow> 3 | CheckActive \<Rightarrow> 3 | Receiving \<Rightarrow> 2 | Closing \<Rightarrow> 1 | Done \<Rightarrow> 0)"

lemma step_decreases:
  assumes "drv_step sys opts launches d d'" and inv: "sched_inv sys opts d"
  shows "(d', d) \<in> measures [work, rank]"
  using assms(1)
proof (cases rule: drv_step.cases)
  case main
  show ?thesis
  proof (cases "at_pc d")
    case (Take i)
    then have i: "i < length (pending d)" using inv by (simp add: sched_inv_def pc_inv_def)
    obtain sub p' where "takeJob sys opts i d = d\<lparr>pending := remove_nth i (pending d), at_pc := Guard, dpool := p',
        active := active d + 1, running := running d @ [(pReq (pending d ! i), sub)]\<rparr>"
      using sched_inv_take [OF inv Take] by blast
    then have "work (takeJob sys opts i d) < work d" using i by (simp add: work_def)
    then show ?thesis using main Take by simp
  next
    case (Scan i)
    then show ?thesis using main by (auto simp: work_def rank_def)
  qed (use main in \<open>auto simp: work_def rank_def\<close>)
next
  case (receive k)
  then have "work d' < work d" by (simp add: work_def)
  then show ?thesis by simp
next
  case (job_end k out)
  then have "work d' < work d" by (simp add: work_def)
  then show ?thesis by simp
next
  case cancel
  then have "work d' < work d" by (simp add: work_def)
  then show ?thesis by simp
qed

lemma step_possible:
  assumes inv: "sched_inv sys opts d" and "at_pc d \<noteq> Done" and total: "\<And>a. \<exists>out. launches a out"
  shows "\<exists>d'. drv_step sys opts launches d d' \<and> ctxErr d' = ctxErr d"
proof (cases "at_pc d = Receiving")
  case True
  then have "active d > 0" using inv by (simp add: sched_inv_def pc_inv_def)
  then have "running d \<noteq> [] \<or> sending d \<noteq> []" using inv by (auto simp: sched_inv_def busy_inv_def)
  then show ?thesis
  proof
    assume "running d \<noteq> []"
    then have "0 < length (running d)" by simp
    moreover obtain out where "launches (buildAssignment sys (fst (running d ! 0)) (snd (running d ! 0)) opts) out"
      using total by blast
    ultimately show ?thesis
      by (intro exI [of _ "runOneEnd sys 0 out d"] conjI drv_step.job_end) simp_all
  next
    assume "sending d \<noteq> []"
    then have "0 < length (sending d)" by simp
    then show ?thesis by (intro exI [of _ "receive opts 0 d"] conjI drv_step.receive [OF True]) simp_all
  qed
next
  case False
  have "ctxErr (mainStep sys opts (at_pc d) d) = ctxErr d"
    by (cases "at_pc d") (auto simp: takeJob_def Let_def split: sum.splits)
  then show ?thesis using drv_step.main [OF False assms(2)] by blast
qed

lemma reach_done_blames:
  assumes "drv_reach sys opts launches d d'" and "at_pc d \<noteq> Done"
  shows "at_pc d' = Done \<longrightarrow> \<not> stop d' \<longrightarrow>
    (\<forall>pl \<in> set (pending d'). failResult (vid sys (pReq pl)) (rParams (pReq pl)) NoCleanNodes \<in> set (results d'))"
  using assms(1) unfolding drv_reach_def
proof (induction rule: rtranclp_induct)
  case base
  then show ?case using assms(2) by simp
next
  case (step d' d'')
  from step(2) show ?case
  proof (cases rule: drv_step.cases)
    case main
    then show ?thesis by (cases "at_pc d' = Closing") (use mainStep_not_done [of d' sys opts] in auto)
  next
    case (job_end k out)
    then show ?thesis using step(3) by simp
  next
    case cancel
    then show ?thesis using step(3) by simp
  qed simp
qed

lemma reach_pending:
  assumes "drv_reach sys opts launches d d'"
  shows "set (pending d') \<subseteq> set (pending d)"
  using assms unfolding drv_reach_def
proof (induction rule: rtranclp_induct)
  case (step d' d'')
  have "set (pending d'') \<subseteq> set (pending d')"
    using step(2)
  proof (cases rule: drv_step.cases)
    case main
    then show ?thesis
      by (cases "at_pc d'") (auto simp: takeJob_def Let_def split: sum.splits dest: set_remove_nth [THEN subsetD])
  qed simp_all
  then show ?case using step(3) by blast
qed simp

fun mains :: "'w system \<Rightarrow> RunOptions \<Rightarrow> nat \<Rightarrow> driver \<Rightarrow> driver" where
  "mains sys opts 0 d = d"
| "mains sys opts (Suc n) d = mains sys opts n (mainStep sys opts (at_pc d) d)"

fun mains_ok :: "'w system \<Rightarrow> RunOptions \<Rightarrow> nat \<Rightarrow> driver \<Rightarrow> bool" where
  "mains_ok sys opts 0 d = True"
| "mains_ok sys opts (Suc n) d = (at_pc d \<noteq> Receiving \<and> at_pc d \<noteq> Done \<and> mains_ok sys opts n (mainStep sys opts (at_pc d) d))"

lemma mains_reach: "mains_ok sys opts n d \<Longrightarrow> drv_reach sys opts launches d (mains sys opts n d)"
proof (induction n arbitrary: d)
  case (Suc n)
  then have "drv_step sys opts launches d (mainStep sys opts (at_pc d) d)" by (intro drv_step.main) auto
  then show ?case using Suc unfolding drv_reach_def by (simp add: converse_rtranclp_into_rtranclp)
qed (simp add: drv_reach_def)

subsection \<open>Properties\<close>

text \<open>
  C13: at every moment of a run, under every interleaving of the driver with its jobs, at
  most MaxParallel jobs are running (one when it is less), no two of them share a node, no
  node of theirs is free, and when the driver is about to allocate for the job it chose,
  the allocation succeeds.
\<close>
theorem driver_isolation:
  assumes "distinct nodes" and "startRun sys opts order c (NewPool nodes) perr reqs = Value d0" and "drv_reach sys opts launches d0 d"
  shows "int (length (running d)) \<le> maxParallel opts \<and>
    (\<forall>i < length (running d). \<forall>j < length (running d). i \<noteq> j \<longrightarrow>
       set (sub_nodes (snd (running d ! i))) \<inter> set (sub_nodes (snd (running d ! j))) = {}) \<and>
    (\<forall>j \<in> set (running d). set (sub_nodes (snd j)) \<inter> set (free (dpool d)) = {}) \<and>
    (\<forall>i. at_pc d = Take i \<longrightarrow> (\<exists>sub p'. Allocate (sRes sys) (dpool d) (pSpec (pending d ! i)) = Inr (sub, p')))"
proof -
  note inv = reach_inv(1) [OF assms]
  have l: "leased (map (\<lambda>j. live_nodes (snd j)) (running d)) (inUse (dpool d))" and wf: "pool_wf (dpool d)"
    and live: "\<And>j. j \<in> set (running d) \<Longrightarrow> live_nodes (snd j) = set (sub_nodes (snd j))"
    using inv by (auto simp: sched_inv_def lease_inv_def live_nodes_def)
  have "int (length (running d)) \<le> maxParallel opts" using inv by (auto simp: sched_inv_def busy_inv_def)
  moreover have "set (sub_nodes (snd (running d ! i))) \<inter> set (sub_nodes (snd (running d ! j))) = {}"
    if "i < length (running d)" "j < length (running d)" "i \<noteq> j" for i j
  proof -
    have "live_nodes (snd (running d ! i)) \<inter> live_nodes (snd (running d ! j)) = {}" using l that by (simp add: leased_def)
    then show ?thesis using that live [of "running d ! i"] live [of "running d ! j"] by simp
  qed
  moreover have "set (sub_nodes (snd j)) \<inter> set (free (dpool d)) = {}" if "j \<in> set (running d)" for j
  proof -
    have "live_nodes (snd j) \<subseteq> inUse (dpool d)" using l that by (auto simp: leased_def)
    then show ?thesis using wf live [OF that] by (auto simp: pool_wf_def)
  qed
  moreover have "\<exists>sub p'. Allocate (sRes sys) (dpool d) (pSpec (pending d ! i)) = Inr (sub, p')" if "at_pc d = Take i" for i
    using sched_inv_take [OF inv that] by metis
  ultimately show ?thesis by simp
qed

text \<open>A system of one registered job that needs one node, for the examples.\<close>

definition one_node :: "nat job_life" where
  "one_node = \<lparr>Declare = (\<lambda>jc. Value [Value [demo_any]]), BindAll = (\<lambda>ns w. (Value (), w)),
     Setup = (\<lambda>jc w. (Value None, w)), RunBody = (\<lambda>jc w. (Value None, w)), Teardown = (\<lambda>jc passed w. (Value None, w)),
     summary = (\<lambda>w. []), data = (\<lambda>w. []), persistErrors = (\<lambda>w. [])\<rparr>"

definition demo_sys :: "nat system" where
  "demo_sys = \<lparr>sRes = demo_res, sNode = (\<lambda>n. demo_node),
     sWorker = \<lparr>wEnc = plain_enc, wRegistry = [(''j'', Value \<lparr>jMatrix = None, jResolve = None\<rparr>)], wLife = (\<lambda>_. one_node),
       wDecode = (\<lambda>_. Inr noBackend), wReset = (\<lambda>_. None), wBuilders = (\<lambda>_. None), wTree = \<lparr>jobResultsDir = (\<lambda>_ _. ([], None)), traceOpen = (\<lambda>_. None), traceClose = (\<lambda>_. None),
         writeResultJSON = (\<lambda>_ _. None)\<rparr>, wStart = 0, wStop = 1\<rparr>\<rparr>"

definition demo_opts :: RunOptions where
  "demo_opts = \<lparr>MaxParallel = 2, Timeout = 0, ExitFirst = False, ResultsDir = [], oSeed = 5, Reporters = [], RunDir = []\<rparr>"

definition demo_reqs :: "JobRequest list" where
  "demo_reqs = [\<lparr>ID = ''j'', rParams = [(''n'', JNum 1)], discErr = None\<rparr>, \<lparr>ID = ''j'', rParams = [(''n'', JNum 2)], discErr = None\<rparr>]"

definition begun :: "RunOptions \<Rightarrow> bool \<Rightarrow> node list \<Rightarrow> driver" where
  "begun opts c nodes = (case startRun demo_sys opts [] c (NewPool nodes) [] demo_reqs of
     Value d \<Rightarrow> d | Panicked v \<Rightarrow> freshRun c (NewPool nodes) v)"

lemma demo_declares:
  "lookupJob (wRegistry (sWorker demo_sys)) j = (if j = ''j'' then Some (Value \<lparr>jMatrix = None, jResolve = None\<rparr>) else None)"
  "Declare (wLife (sWorker demo_sys) code) jc = Value [Value [demo_any]]" "wBuilders (sWorker demo_sys) kd = None"
  by (simp_all add: demo_sys_def one_node_def lookupJob_def)

lemma demo_begun: "startRun demo_sys opts [] c (NewPool nodes) [] demo_reqs = Value (begun opts c nodes)"
proof -
  have "sizeJob demo_sys req sd \<noteq> Panicked v" for req sd v
    by (simp add: sizeJob_def demo_declares jcPoolSpec_def)
  then show ?thesis unfolding begun_def
    by (cases "startRun demo_sys opts [] c (NewPool nodes) [] demo_reqs") (auto dest: startRun_Panicked)
qed

definition demo_start :: driver where
  "demo_start = begun demo_opts False [7, 8]"

definition demo_cancelled :: driver where
  "demo_cancelled = begun demo_opts True [7, 8]"

text \<open>A launcher that runs the worker in the driver's own process: it returns when no panic is let through.\<close>

definition in_process :: "'w system \<Rightarrow> Assignment \<Rightarrow> string + JobResult \<Rightarrow> bool" where
  "in_process sys a out \<longleftrightarrow> (\<exists>w r. fst (execute (sWorker sys) a w) = Value r \<and> out = Inr r)"

lemma in_process_ids: "launcher_ids sys (in_process sys)"
  using execute_Value [of "sWorker sys"] by (auto simp: launcher_ids_def in_process_def)

lemma in_process_demo: "\<exists>out. in_process demo_sys a out"
proof -
  have "\<not> builder_panics (sWorker demo_sys) d v" for d v by (simp add: builder_panics_def demo_declares)
  then have "fst (execute (sWorker demo_sys) a 0) \<noteq> Panicked v" for v
    unfolding execute_Panicked executeJob_Panicked buildNodes_Panicked buildBackend_Panicked
    by (auto simp: declared_def demo_declares jcPoolSpec_def)
  then show ?thesis unfolding in_process_def by (meson run.exhaust)
qed

theorem driver_isolation_witness:
  "set (sub_nodes (snd (running (mains demo_sys demo_opts 7 demo_start) ! 0))) \<inter>
     set (sub_nodes (snd (running (mains demo_sys demo_opts 7 demo_start) ! 1))) = {}"
proof -
  have "mains_ok demo_sys demo_opts 7 demo_start" by code_simp
  then have r: "drv_reach demo_sys demo_opts (in_process demo_sys) (begun demo_opts False [7, 8]) (mains demo_sys demo_opts 7 demo_start)"
    unfolding demo_start_def by (rule mains_reach)
  have "length (running (mains demo_sys demo_opts 7 demo_start)) = 2" by code_simp
  then show ?thesis using driver_isolation [OF _ demo_begun r] by simp
qed

text \<open>
  C4: no request is lost or recorded twice. When a run is over and was not stopped (by its
  first failure or a cancelled context), the ids of its results are exactly those of the
  requests, each as often as it was requested; when it was stopped, the results are those
  of a part of the requests. This holds of a launcher whose results carry the id of the
  variant assigned, as the worker's do.
\<close>
theorem every_request_once:
  assumes "distinct nodes" and "startRun sys opts order c (NewPool nodes) perr reqs = Value d0" and "drv_reach sys opts launches d0 d"
    and "at_pc d = Done" and "launcher_ids sys launches"
  shows "mset (map resID (results d)) \<subseteq># mset (map (vid sys) reqs) \<and>
    (\<not> stop d \<longrightarrow> mset (map resID (results d)) = mset (map (vid sys) reqs))"
proof (cases "stop d")
  case True
  then have "placed sys d = mset (map (vid sys) reqs)"
    using reach_inv(3) [OF assms(1,2,3,5)] by (simp add: acct_inv_def)
  then have "mset (map resID (results d)) \<subseteq># mset (map (vid sys) reqs)"
    using placed_results [of d sys] by simp
  then show ?thesis using True by blast
next
  case False
  then show ?thesis using reach_inv(3) [OF assms(1,2,3,5)] assms(4) by (simp add: acct_inv_def)
qed

theorem every_request_once_witness:
  "mset (map resID (results (mains demo_sys demo_opts 4 demo_cancelled))) = mset [''j[n=1]'', ''j[n=2]'']"
proof -
  have "mains_ok demo_sys demo_opts 4 demo_cancelled" by code_simp
  then have r: "drv_reach demo_sys demo_opts (in_process demo_sys) (begun demo_opts True [7, 8]) (mains demo_sys demo_opts 4 demo_cancelled)"
    unfolding demo_cancelled_def by (rule mains_reach)
  have e: "at_pc (mains demo_sys demo_opts 4 demo_cancelled) = Done" "\<not> stop (mains demo_sys demo_opts 4 demo_cancelled)"
    "map (vid demo_sys) demo_reqs = [''j[n=1]'', ''j[n=2]'']"
    by code_simp+
  show ?thesis using every_request_once [OF _ demo_begun r e(1) in_process_ids] e(2,3) by simp
qed

text \<open>
  C14: every run ends. Whatever the interleaving, there is no infinite sequence of steps;
  and as long as launches return, a run that is not over can always go on, without the
  context being cancelled: it never waits for a result that no job will send. A run that
  does not begin was ended by a panic that sizing one of its requests let through.
\<close>
theorem run_completes:
  assumes "distinct nodes" and "\<And>a. \<exists>out. launches a out"
  shows "case startRun sys opts order c (NewPool nodes) perr reqs of
      Value d0 \<Rightarrow>
        \<not> (\<exists>f. f 0 = d0 \<and> (\<forall>n. drv_step sys opts launches (f n) (f (Suc n)))) \<and>
        (\<forall>d. drv_reach sys opts launches d0 d \<longrightarrow> at_pc d \<noteq> Done \<longrightarrow> (\<exists>d'. drv_step sys opts launches d d' \<and> ctxErr d' = ctxErr d))
    | Panicked v \<Rightarrow> \<exists>req. req \<in> set reqs \<and> discErr req = None \<and> sizeJob sys req (oSeed opts) = Panicked v"
proof (cases "startRun sys opts order c (NewPool nodes) perr reqs")
  case (Panicked v)
  then show ?thesis using startRun_Panicked by simp
next
  case (Value d0)
  have "False" if f: "f 0 = d0" "\<And>n. drv_step sys opts launches (f n) (f (Suc n))" for f
  proof -
    have inv: "sched_inv sys opts (f n)" for n
    proof (induction n)
      case 0
      then show ?case using f(1) start_inv(1) [OF assms(1) Value] by simp
    next
      case (Suc n)
      then show ?case by (rule sched_inv_step [OF f(2)])
    qed
    have "(f (Suc n), f n) \<in> measures [work, rank]" for n using step_decreases [OF f(2) inv] .
    then show False using wf_measures wf_iff_no_infinite_down_chain by blast
  qed
  moreover have "\<exists>d'. drv_step sys opts launches d d' \<and> ctxErr d' = ctxErr d" if "drv_reach sys opts launches d0 d" "at_pc d \<noteq> Done" for d
    using step_possible reach_inv(1) [OF assms(1) Value] assms(2) that by blast
  ultimately show ?thesis unfolding Value run.case by blast
qed

theorem run_completes_witness:
  "\<exists>d'. drv_step demo_sys demo_opts (in_process demo_sys) (mains demo_sys demo_opts 7 demo_start) d'"
proof -
  have "mains_ok demo_sys demo_opts 7 demo_start" by code_simp
  then have r: "drv_reach demo_sys demo_opts (in_process demo_sys) (begun demo_opts False [7, 8]) (mains demo_sys demo_opts 7 demo_start)"
    unfolding demo_start_def by (rule mains_reach)
  have "at_pc (mains demo_sys demo_opts 7 demo_start) \<noteq> Done" by code_simp
  then show ?thesis using run_completes [where nodes = "[7, 8]" and launches = "in_process demo_sys" and sys = demo_sys and opts = demo_opts and
      order = "[]" and c = False and perr = "[]" and reqs = demo_reqs] in_process_demo r
    by (auto simp: demo_begun)
qed

text \<open>
  A job failed for want of clean nodes had none. When a run ends that was neither
  stopped nor cancelled, the jobs still pending are recorded as failed, no further job of
  theirs could ever be allocated on the nodes that are left, all of them free, and so some
  node of the pool was lost to quarantine.
\<close>
theorem no_clean_nodes_honest:
  assumes "distinct nodes" and "startRun sys opts [] c (NewPool nodes) perr reqs = Value d0" and "drv_reach sys opts launches d0 d"
    and "at_pc d = Done" and "\<not> stop d" and "\<not> ctxErr d" and "pl \<in> set (pending d)"
  shows "failResult (vid sys (pReq pl)) (rParams (pReq pl)) NoCleanNodes \<in> set (results d) \<and> inUse (dpool d) = {} \<and>
    \<not> CanEverFit (sRes sys) [] (dpool d) (pSpec pl) \<and> \<not> set nodes \<subseteq> set (free (dpool d))"
proof -
  note inv = reach_inv(1) [OF assms(1-3)]
  have "at_pc d0 \<noteq> Done" by (simp add: startRun_fields(7) [OF assms(2)])
  from reach_done_blames [OF assms(3) this] have blamed: "failResult (vid sys (pReq pl)) (rParams (pReq pl)) NoCleanNodes \<in> set (results d)"
    using assms(4,5,7) by blast
  have fits: "CanEverFit (sRes sys) [] (NewPool nodes) (pSpec pl)"
    using startRun_fields(10) [OF assms(2)] reach_pending [OF assms(3)] assms(7) by blast
  moreover have idle: "running d = []" using inv assms(4) idle by (auto simp: sched_inv_def pc_inv_def)
  then have "inUse (dpool d) = {}" using inv by (simp add: sched_inv_def lease_inv_def leased_def)
  moreover have no: "\<not> feasible (sRes sys) (free (dpool d)) (Nodes (pSpec pl))"
    using inv assms(4-7) by (simp add: sched_inv_def pc_inv_def can_take_def CanAllocate_def flip: matchSpecs_iff_feasible)
  moreover have "\<not> set nodes \<subseteq> set (free (dpool d))"
  proof
    assume "set nodes \<subseteq> set (free (dpool d))"
    moreover have "distinct (free (dpool d))" using inv by (simp add: sched_inv_def lease_inv_def pool_wf_def)
    moreover have "feasible (sRes sys) nodes (Nodes (pSpec pl))"
      using fits by (simp add: CanEverFit_def NewPool_def flip: matchSpecs_iff_feasible)
    ultimately show False using no feasible_mono [OF assms(1)] by blast
  qed
  ultimately show ?thesis using blamed unfolding CanEverFit_def matchSpecs_iff_feasible by simp
qed

text \<open>A run on one node, in doubt after the first job: the second is left without.\<close>

definition dirty_result :: JobResult where
  "dirty_result = (failResult ''j[n=1]'' [(''n'', JNum 1)] (StepFailed (Returned ''teardown'')))\<lparr>Dirty := True\<rparr>"

definition one_node_start :: driver where
  "one_node_start = begun demo_opts False [7]"

definition one_node_end :: driver where
  "one_node_end = mains demo_sys demo_opts 6 (receive demo_opts 0
     (runOneEnd demo_sys 0 (Inr dirty_result) (mains demo_sys demo_opts 8 one_node_start)))"

lemma one_node_reach: "drv_reach demo_sys demo_opts (\<lambda>_ _. True) one_node_start one_node_end"
proof -
  let ?d1 = "mains demo_sys demo_opts 8 one_node_start"
  let ?d2 = "runOneEnd demo_sys 0 (Inr dirty_result) ?d1"
  let ?d3 = "receive demo_opts 0 ?d2"
  have ok: "mains_ok demo_sys demo_opts 8 one_node_start" "mains_ok demo_sys demo_opts 6 ?d3" by code_simp+
  have "0 < length (running ?d1)" "0 < length (sending ?d2)" "at_pc ?d2 = Receiving" by code_simp+
  then have "drv_step demo_sys demo_opts (\<lambda>_ _. True) ?d1 ?d2" "drv_step demo_sys demo_opts (\<lambda>_ _. True) ?d2 ?d3"
    by (auto intro: drv_step.intros)
  then have "drv_reach demo_sys demo_opts (\<lambda>_ _. True) ?d1 ?d3"
    unfolding drv_reach_def by (meson r_into_rtranclp rtranclp.rtrancl_into_rtrancl)
  then show ?thesis
    using mains_reach [OF ok(1)] mains_reach [OF ok(2)] unfolding drv_reach_def one_node_end_def by (meson rtranclp_trans)
qed

theorem no_clean_nodes_honest_witness:
  "failResult ''j[n=2]'' [(''n'', JNum 2)] NoCleanNodes \<in> set (results one_node_end) \<and> \<not> set [7] \<subseteq> set (free (dpool one_node_end))"
proof -
  let ?pl = "\<lparr>pReq = demo_reqs ! 1, pSpec = \<lparr>Nodes = [demo_any]\<rparr>\<rparr>"
  have "at_pc one_node_end = Done" "\<not> stop one_node_end" "\<not> ctxErr one_node_end" by code_simp+
  moreover have "pending one_node_end = [?pl]" by code_simp
  moreover have "vid demo_sys (pReq ?pl) = ''j[n=2]''" "rParams (pReq ?pl) = [(''n'', JNum 2)]" by code_simp+
  ultimately show ?thesis
    using no_clean_nodes_honest [OF _ demo_begun one_node_reach [unfolded one_node_start_def], of ?pl] by simp
qed

text \<open>
  C36: a run whose context is cancelled before its first job starts blames quarantine:
  \<^verbatim>\<open>stop\<close> is only set after a result, so every job that was sized is recorded as failed for
  want of clean nodes, with the whole pool free.
\<close>
theorem cancelled_run_blames_quarantine:
  "case startRun sys opts order True (NewPool nodes) perr reqs of
      Value d0 \<Rightarrow> \<exists>d. drv_reach sys opts launches d0 d \<and> at_pc d = Done \<and> dpool d = NewPool nodes \<and>
        results d = results d0 @ map (\<lambda>pl. failResult (vid sys (pReq pl)) (rParams (pReq pl)) NoCleanNodes) (pending d0)
    | Panicked v \<Rightarrow> \<exists>req. req \<in> set reqs \<and> discErr req = None \<and> sizeJob sys req (oSeed opts) = Panicked v"
proof (cases "startRun sys opts order True (NewPool nodes) perr reqs")
  case (Value d0)
  note s = startRun_fields [OF Value]
  let ?n = "if pending d0 = [] then 2 else 4 :: nat"
  have "mains_ok sys opts ?n d0 \<and> at_pc (mains sys opts ?n d0) = Done \<and> dpool (mains sys opts ?n d0) = NewPool nodes \<and>
      results (mains sys opts ?n d0) = results d0 @
        map (\<lambda>pl. failResult (vid sys (pReq pl)) (rParams (pReq pl)) NoCleanNodes) (pending d0)"
    using s by (auto simp: numeral_eq_Suc)
  then show ?thesis unfolding Value run.case using mains_reach by blast
qed (use startRun_Panicked in simp)

lemma execute_NodeCount:
  assumes "\<And>jid dir. fst (executeJob k a jid dir w) \<noteq> Value (Inl (NodeCount got want))" and "fst (execute k a w) = Value r"
  shows "ErrorOf r \<noteq> Some (NodeCount got want)"
proof -
  have job: "ErrorOf res \<noteq> Some (NodeCount got want)" if "runJob s e jid job jc w1 = (res, w')" for s e jid jc res w' w1 and job :: "'a job_life"
    using that by (auto simp: runJob_def Let_def zeroResult_def split: prod.splits option.splits if_splits)
  let ?jid = "variantID (wEnc k) (JobID a) (aParams a)"
  obtain dir dirErr where dir: "jobResultsDir (wTree k) (sResultsDir (Session a)) ?jid = (dir, dirErr)" by fastforce
  obtain traced errs where tr: "openTrace (wTree k) dir (noteOpt [] dirErr) = (traced, errs)" by fastforce
  obtain out l w' where ex: "executeJob k a ?jid dir w = (out, l, w')" by (metis prod_cases3)
  obtain o' where o: "out = Value o'" and e: "ErrorOf r = (case o' of Inl err \<Rightarrow> Some err | Inr res \<Rightarrow> ErrorOf res)"
    using assms(2) by (auto simp: execute_def Let_def dir tr ex split: sum.splits run.splits)
  from ex [unfolded o] show ?thesis
    by (cases rule: executeJob_cases) (use assms(1) [of ?jid dir] ex o e job in auto)
qed

text \<open>
  The worker agrees with the driver about a job's size. For every job running, the
  sub-pool has a node for each of the job's specs, in order and meeting it; and when
  Declare is pure (it does not look at where results go), a worker running the assignment
  never fails for a wrong number of nodes.
\<close>
theorem worker_agrees:
  assumes "distinct nodes" and "startRun sys opts order c (NewPool nodes) perr reqs = Value d0" and "drv_reach sys opts launches d0 d"
    and "(req, sub) \<in> set (running d)"
    and pure: "\<And>code jc dir. Declare (wLife (sWorker sys) code) (jc\<lparr>resultsDir := dir\<rparr>) = Declare (wLife (sWorker sys) code) jc"
  shows "(\<exists>spec. sizeJob sys req (oSeed opts) = Value (Inr spec) \<and> list_all2 (\<lambda>s n. SatisfiedBy s (sRes sys n)) (Nodes spec) (sub_nodes sub)) \<and>
    (\<forall>r. fst (execute (sWorker sys) (buildAssignment sys req sub opts) w) = Value r \<longrightarrow> ErrorOf r \<noteq> Some (NodeCount got want))"
proof -
  obtain spec where spec: "sizeJob sys req (oSeed opts) = Value (Inr spec)"
    "list_all2 (\<lambda>s n. SatisfiedBy s (sRes sys n)) (Nodes spec) (sub_nodes sub)"
    using reach_inv(2) [OF assms(1-3)] assms(4) by (fastforce simp: size_inv_def)
  then obtain code svcs where j: "lookupJob (wRegistry (sWorker sys)) (ID req) = Some (Value code)"
    "Declare (wLife (sWorker sys) code) \<lparr>jcParams = rParams req, seed = VariantSeed (oSeed opts) (vid sys req), resultsDir = []\<rparr> = Value svcs"
    "jcPoolSpec svcs = Value spec"
    by (auto simp: sizeJob_def split: option.splits run.splits)
  let ?a = "buildAssignment sys req sub opts"
  have decl: "Declare (wLife (sWorker sys) code) \<lparr>jcParams = aParams ?a, seed = aSeed ?a, resultsDir = dir\<rparr> = Value svcs" for dir
    using pure [of code dir "\<lparr>jcParams = aParams ?a, seed = aSeed ?a, resultsDir = []\<rparr>"] j(2) by (simp add: buildAssignment_def)
  have len: "length (aNodes ?a) = PoolSpec_Size spec"
    using spec(2) by (simp add: buildAssignment_def PoolSpec_Size_def list_all2_lengthD)
  have built: "length ns = PoolSpec_Size spec" if "buildNodes (buildBackend (sWorker sys)) (aNodes ?a) = Value (Inr ns)" for ns
    using that len by (simp add: buildNodes_built)
  have id: "JobID ?a = ID req" by (simp add: buildAssignment_def)
  have "fst (executeJob (sWorker sys) ?a jid dir w) \<noteq> Value (Inl (NodeCount got want))" for jid dir
    unfolding executeJob_def id j(1) option.case run.case Let_def decl using built
    by (auto simp: executeBound_def j(3) split: sum.splits prod.splits run.splits)
  then have "\<forall>r. fst (execute (sWorker sys) ?a w) = Value r \<longrightarrow> ErrorOf r \<noteq> Some (NodeCount got want)"
    by (intro allI impI) (rule execute_NodeCount)
  then show ?thesis using spec by blast
qed

theorem worker_agrees_witness:
  assumes "fst (execute (sWorker demo_sys) (buildAssignment demo_sys (demo_reqs ! 0) \<lparr>sub_nodes = [7], freed = False\<rparr> demo_opts) 0) = Value r"
  shows "ErrorOf r \<noteq> Some (NodeCount 1 2)"
proof -
  have "mains_ok demo_sys demo_opts 7 demo_start" by code_simp
  then have r: "drv_reach demo_sys demo_opts (in_process demo_sys) (begun demo_opts False [7, 8]) (mains demo_sys demo_opts 7 demo_start)"
    unfolding demo_start_def by (rule mains_reach)
  have "running (mains demo_sys demo_opts 7 demo_start) ! 0 = (demo_reqs ! 0, \<lparr>sub_nodes = [7], freed = False\<rparr>)"
    "0 < length (running (mains demo_sys demo_opts 7 demo_start))" by code_simp+
  then have j: "(demo_reqs ! 0, \<lparr>sub_nodes = [7], freed = False\<rparr>) \<in> set (running (mains demo_sys demo_opts 7 demo_start))"
    using nth_mem by metis
  have "Declare (wLife (sWorker demo_sys) code) (jc\<lparr>resultsDir := dir\<rparr>) = Declare (wLife (sWorker demo_sys) code) jc" for code jc dir
    by (simp add: demo_sys_def one_node_def)
  then show ?thesis using worker_agrees [OF _ demo_begun r j, of 0 1 2] assms by simp
qed

end
