(* ===== verification/Log_Model.thy ===== *)
theory Log_Model
  imports Lin_Check "HOL-Library.Multiset"
begin

text \<open>
  The log checker, \<^verbatim>\<open>src/logcheck/logcheck.go\<close>: what a history of appends, and of reads of a
  key's last entry, says against the final log. An offset is a natural number, a Go map with
  slices for values a function that is empty where the map has no entry, and the map of
  entries a partial function. An anomaly's \<^verbatim>\<open>Detail\<close> is its format and what is printed in
  it. \<^verbatim>\<open>slices.BinarySearch\<close> on a sorted slice is the position of the first element not
  below the target, and whether that is the target. Indexing a log with an entry at offset
  0 panics, \<open>None\<close>.
\<close>

subsection \<open>Histories and logs\<close>

datatype attempt_outcome = AOK | AFailed | AUnknown

record Attempt =
  tOp :: int
  tCall :: int
  tReturn :: int
  tOutcome :: attempt_outcome
  tOffset :: nat

record Append =
  aValue :: string
  aKey :: string
  Attempts :: "Attempt list"
  Idempotent :: bool
  AfterKey :: "nat option"
  AfterLog :: "nat option"

record Entry =
  eOffset :: nat
  eKey :: string
  eValue :: string

datatype farg = FNat nat | FInt int | FStr string | FNats "nat list" | FBool bool | FInts "int list"

record Anomaly =
  Kind :: string
  anValue :: string
  anKey :: string
  anOps :: "int list"
  Detail :: "string \<times> farg list"

record log =
  byOffset :: "nat \<Rightarrow> Entry option"
  byValue :: "string \<Rightarrow> nat list"
  byKey :: "string \<Rightarrow> nat list"
  offsets :: "nat list"
  collisions :: "Anomaly list"

definition empty_log :: log where
  "empty_log = \<lparr>byOffset = (\<lambda>_. None), byValue = (\<lambda>_. []), byKey = (\<lambda>_. []), offsets = [], collisions = []\<rparr>"

definition add_entry :: "log \<Rightarrow> Entry \<Rightarrow> log" where
  "add_entry l e = (case byOffset l (eOffset e) of
     Some first \<Rightarrow> l\<lparr>collisions := collisions l @
       [\<lparr>Kind = ''collision'', anValue = eValue e, anKey = eKey e, anOps = [],
         Detail = (''the log holds %s (key %q) at %d, where it already holds %s (key %q)'',
           [FStr (eValue e), FStr (eKey e), FNat (eOffset e), FStr (eValue first), FStr (eKey first)])\<rparr>]\<rparr>
   | None \<Rightarrow> l\<lparr>byOffset := (byOffset l)(eOffset e \<mapsto> e),
       byValue := (byValue l)(eValue e := byValue l (eValue e) @ [eOffset e]),
       byKey := (byKey l)(eKey e := byKey l (eKey e) @ [eOffset e]),
       offsets := offsets l @ [eOffset e]\<rparr>)"

definition index :: "Entry list \<Rightarrow> log option" where
  "index entries = (if \<exists>e \<in> set entries. eOffset e = 0 then None
     else (let l = foldl add_entry empty_log entries in
       Some (l\<lparr>byValue := (\<lambda>v. sort (byValue l v)), byKey := (\<lambda>k. sort (byKey l k)), offsets := sort (offsets l)\<rparr>)))"

definition bsearch :: "nat list \<Rightarrow> nat \<Rightarrow> nat \<times> bool" where
  "bsearch offs x = (length (takeWhile (\<lambda>y. y < x) offs), x \<in> set offs)"

definition entry_before :: "nat list \<Rightarrow> nat \<Rightarrow> nat" where
  "entry_before offs off = (let i = fst (bsearch offs off) in if i = 0 then 0 else offs ! (i - 1))"

subsection \<open>When copies were sent\<close>

record placing =
  outs :: "int list"
  placedAt :: "bool list"
  leftOver :: "int list"
  refused :: "int list"
  firstCall :: int

definition place :: "Append \<Rightarrow> nat list \<Rightarrow> placing \<Rightarrow> Attempt \<Rightarrow> placing" where
  "place a offs p t =
     (let p = p\<lparr>firstCall := min (firstCall p) (tCall t)\<rparr> in
      if tOutcome t = AOK \<and> \<not> Idempotent a \<and> snd (bsearch offs (tOffset t)) then
        (let i = fst (bsearch offs (tOffset t)) in
         p\<lparr>outs := (if \<not> placedAt p ! i \<or> tCall t < outs p ! i then (outs p)[i := tCall t] else outs p),
           placedAt := (placedAt p)[i := True]\<rparr>)
      else if tOutcome t = AFailed then p\<lparr>refused := refused p @ [tCall t]\<rparr>
      else p\<lparr>leftOver := leftOver p @ [tCall t]\<rparr>)"

fun fill :: "int list \<Rightarrow> int \<Rightarrow> nat \<Rightarrow> int list \<Rightarrow> bool list \<Rightarrow> int list" where
  "fill lft fst' j (x # xs) (b # bs) =
     (if b then x # fill lft fst' j xs bs
      else (if lft = [] then fst' else lft ! min j (length lft - 1)) # fill lft fst' (Suc j) xs bs)"
| "fill lft fst' j xs bs = xs"

definition calls :: "Append \<Rightarrow> nat list \<Rightarrow> int list" where
  "calls a offs =
     (let p = foldl (place a offs) \<lparr>outs = replicate (length offs) 0, placedAt = replicate (length offs) False,
              leftOver = [], refused = [], firstCall = MaxInt64\<rparr> (Attempts a);
          lft = sort (if leftOver p = [] then refused p else leftOver p)
      in fill lft (firstCall p) 0 (outs p) (placedAt p))"

definition ops_of :: "Append \<Rightarrow> int list" where
  "ops_of a = map tOp (Attempts a)"

subsection \<open>Appends against the log\<close>

definition could :: "Append \<Rightarrow> nat" where
  "could a = length (filter (\<lambda>t. tOutcome t \<noteq> AFailed) (Attempts a))"

definition anomaly :: "string \<Rightarrow> Append \<Rightarrow> int list \<Rightarrow> string \<Rightarrow> farg list \<Rightarrow> Anomaly" where
  "anomaly k a ops fmt args = \<lparr>Kind = k, anValue = aValue a, anKey = aKey a, anOps = ops, Detail = (fmt, args)\<rparr>"

definition checkCopies :: "Append \<Rightarrow> nat list \<Rightarrow> Anomaly list" where
  "checkCopies a offs =
     (if could a = 0 \<and> length offs > 0 then
        [anomaly ''failed-visible'' a (ops_of a) ''the log refused every attempt at %s, and holds it at %v''
           [FStr (aValue a), FNats offs]]
      else if length offs > 1 \<and> (Idempotent a \<or> length offs > could a) then
        [anomaly ''duplicate'' a (ops_of a) ''the log holds %s at %v, from %d attempts not refused (idempotent: %v)''
           [FStr (aValue a), FNats offs, FNat (could a), FBool (Idempotent a)]]
      else [])"

fun checkAcks :: "log \<Rightarrow> Append \<Rightarrow> (nat \<Rightarrow> int option) \<Rightarrow> Attempt list \<Rightarrow> Anomaly list" where
  "checkAcks l a acked [] = []"
| "checkAcks l a acked (t # ts) =
     (if tOutcome t \<noteq> AOK then checkAcks l a acked ts
      else if acked (tOffset t) \<noteq> None \<and> \<not> Idempotent a then
        anomaly ''lost'' a [the (acked (tOffset t)), tOp t]
          ''%s was acked at %d by two attempts sent without an idempotency key, each an append of its own, and the log holds one there at most''
          [FStr (aValue a), FNat (tOffset t)] # checkAcks l a acked ts
      else
        (case byOffset l (tOffset t) of
           None \<Rightarrow> [anomaly ''lost'' a [tOp t] ''%s was acked at %d, and the log holds nothing there''
               [FStr (aValue a), FNat (tOffset t)]]
         | Some e \<Rightarrow> if eValue e \<noteq> aValue a \<or> eKey e \<noteq> aKey a then
               [anomaly ''ack-mismatch'' a [tOp t] ''%s (key %q) was acked at %d, and the log holds %s (key %q) there''
                 [FStr (aValue a), FStr (aKey a), FNat (tOffset t), FStr (eValue e), FStr (eKey e)]]
             else []) @ checkAcks l a (acked(tOffset t \<mapsto> tOp t)) ts)"

definition checkFiled :: "log \<Rightarrow> Append \<Rightarrow> nat list \<Rightarrow> Anomaly list" where
  "checkFiled l a offs = concat (map (\<lambda>off. case byOffset l off of
       None \<Rightarrow> []
     | Some e \<Rightarrow> if eKey e = aKey a \<or> (\<exists>t \<in> set (Attempts a). tOutcome t = AOK \<and> tOffset t = off) then []
         else [anomaly ''misfiled'' a (ops_of a) ''the log holds %s at %d under key %q, and it was appended under key %q''
           [FStr (aValue a), FNat off, FStr (eKey e), FStr (aKey a)]]) offs)"

definition checkCondition :: "log \<Rightarrow> Append \<Rightarrow> nat list \<Rightarrow> Anomaly list" where
  "checkCondition l a offs = concat (map (\<lambda>off.
       (case AfterKey a of None \<Rightarrow> [] | Some k \<Rightarrow>
          let prev = entry_before (byKey l (aKey a)) off in
          if prev \<noteq> k then [anomaly ''condition'' a (ops_of a) ''the log holds %s at %d, after %d under key %q, though it was conditional on %d''
            [FStr (aValue a), FNat off, FNat prev, FStr (aKey a), FNat k]] else []) @
       (case AfterLog a of None \<Rightarrow> [] | Some k \<Rightarrow>
          let prev = entry_before (offsets l) off in
          if prev \<noteq> k then [anomaly ''condition'' a (ops_of a) ''the log holds %s at %d, after %d, though it was conditional on the log's last entry being %d''
            [FStr (aValue a), FNat off, FNat prev, FNat k]] else [])) offs)"

definition checkAppend :: "log \<Rightarrow> Append \<Rightarrow> Anomaly list" where
  "checkAppend l a =
     (if Attempts a = [] then []
      else let offs = byValue l (aValue a) in
        checkCopies a offs @ checkAcks l a (\<lambda>_. None) (Attempts a) @ checkFiled l a offs @ checkCondition l a offs)"

definition checkPhantoms :: "Append list \<Rightarrow> log \<Rightarrow> Anomaly list" where
  "checkPhantoms appends l =
     (let appended = set (map aValue (filter (\<lambda>a. Attempts a \<noteq> []) appends)) in
      concat (map (\<lambda>off. case byOffset l off of
          None \<Rightarrow> []
        | Some e \<Rightarrow> if eValue e \<in> appended then []
            else [\<lparr>Kind = ''phantom'', anValue = eValue e, anKey = eKey e, anOps = [],
              Detail = (''the log holds %s at %d (key %q), which no client appended'', [FStr (eValue e), FNat off, FStr (eKey e)])\<rparr>])
        (offsets l)))"

subsection \<open>Real-time order\<close>

type_synonym sent = "Append \<times> int \<times> nat"

definition byCall :: "Append list \<Rightarrow> log \<Rightarrow> sent list" where
  "byCall appends l = sort_key (\<lambda>(a, call, off). call)
     (concat (map (\<lambda>a. let offs = byValue l (aValue a) in
        if Attempts a = [] \<or> offs = [] then [] else map (\<lambda>(call, off). (a, call, off)) (zip (calls a offs) offs)) appends))"

definition byRet :: "Append list \<Rightarrow> log \<Rightarrow> sent list" where
  "byRet appends l = sort_key (\<lambda>(a, ret, off). ret)
     (concat (map (\<lambda>a. let offs = byValue l (aValue a) in
        if Attempts a = [] \<or> offs = [] then []
        else map (\<lambda>t. (a, tReturn t, tOffset t)) (filter (\<lambda>t. tOutcome t = AOK \<and> snd (bsearch offs (tOffset t))) (Attempts a))) appends))"

fun advance :: "int \<Rightarrow> sent option \<Rightarrow> sent list \<Rightarrow> sent option \<times> sent list" where
  "advance call dn [] = (dn, [])"
| "advance call dn (k # ks) =
     (if fst (snd k) < call
      then advance call (case dn of None \<Rightarrow> Some k | Some d \<Rightarrow> if snd (snd k) > snd (snd d) then Some k else dn) ks
      else (dn, k # ks))"

fun sweep :: "sent option \<Rightarrow> sent list \<Rightarrow> sent list \<Rightarrow> Anomaly list" where
  "sweep dn acks [] = []"
| "sweep dn acks (b # bs) =
     (case advance (fst (snd b)) dn acks of (dn', acks') \<Rightarrow>
        (case dn' of
           Some d \<Rightarrow> if snd (snd d) > snd (snd b)
             then [anomaly ''realtime-order'' (fst b) (ops_of (fst d) @ ops_of (fst b))
               ''the log holds %s at %d, before %s at %d, which was acked before %s was sent''
               [FStr (aValue (fst b)), FNat (snd (snd b)), FStr (aValue (fst d)), FNat (snd (snd d)), FStr (aValue (fst b))]]
             else []
         | None \<Rightarrow> []) @ sweep dn' acks' bs)"

definition realtimeOrder :: "Append list \<Rightarrow> log \<Rightarrow> Anomaly list" where
  "realtimeOrder appends l = sweep None (byRet appends l) (byCall appends l)"

definition CheckLog :: "Append list \<Rightarrow> Entry list \<Rightarrow> Anomaly list option" where
  "CheckLog appends entries = (case index entries of
     None \<Rightarrow> None
   | Some l \<Rightarrow> Some (concat (map (checkAppend l) appends) @ checkPhantoms appends l @ collisions l @ realtimeOrder appends l))"

subsection \<open>The index\<close>

definition good_log :: "Entry list \<Rightarrow> log \<Rightarrow> bool" where
  "good_log entries l \<longleftrightarrow> (\<forall>o' e. byOffset l o' = Some e \<longleftrightarrow> e \<in> set entries \<and> eOffset e = o') \<and>
     (\<forall>v. mset (byValue l v) = mset (map eOffset (filter (\<lambda>e. eValue e = v) entries))) \<and>
     (\<forall>k. mset (byKey l k) = mset (map eOffset (filter (\<lambda>e. eKey e = k) entries))) \<and>
     mset (offsets l) = mset (map eOffset entries) \<and> collisions l = []"

lemma add_entry_good:
  assumes "good_log es l" and "eOffset e \<notin> eOffset ` set es"
  shows "good_log (es @ [e]) (add_entry l e)"
proof -
  have "byOffset l (eOffset e) = None"
  proof (cases "byOffset l (eOffset e)")
    case (Some e')
    then have "e' \<in> set es" "eOffset e' = eOffset e" using assms(1) by (simp_all add: good_log_def)
    then show ?thesis using assms(2) by (metis imageI)
  qed simp
  then have l': "add_entry l e = l\<lparr>byOffset := (byOffset l)(eOffset e \<mapsto> e),
       byValue := (byValue l)(eValue e := byValue l (eValue e) @ [eOffset e]),
       byKey := (byKey l)(eKey e := byKey l (eKey e) @ [eOffset e]),
       offsets := offsets l @ [eOffset e]\<rparr>" by (simp add: add_entry_def)
  have "((byOffset l)(eOffset e \<mapsto> e)) o' = Some e' \<longleftrightarrow> e' \<in> set (es @ [e]) \<and> eOffset e' = o'" for o' e'
    using assms by (auto simp: good_log_def) (metis imageI)
  then show ?thesis using assms(1) unfolding good_log_def l' by simp
qed

lemma add_entries:
  "good_log es l \<Longrightarrow> distinct (map eOffset (es @ ys)) \<Longrightarrow> good_log (es @ ys) (foldl add_entry l ys)"
proof (induction ys arbitrary: es l)
  case (Cons e ys)
  then have "good_log (es @ [e]) (add_entry l e)" by (intro add_entry_good) auto
  from Cons.IH [OF this] Cons.prems(2) show ?case by simp
qed simp

lemma collisions_grow: "collisions l \<noteq> [] \<Longrightarrow> collisions (foldl add_entry l ys) \<noteq> []"
  by (induction ys arbitrary: l) (auto simp: add_entry_def split: option.splits)

lemma add_entries_collide:
  "good_log es l \<Longrightarrow> distinct (map eOffset es) \<Longrightarrow> \<not> distinct (map eOffset (es @ ys)) \<Longrightarrow> collisions (foldl add_entry l ys) \<noteq> []"
proof (induction ys arbitrary: es l)
  case (Cons e ys)
  show ?case
  proof (cases "eOffset e \<in> eOffset ` set es")
    case True
    then obtain e0 where "byOffset l (eOffset e) = Some e0" using Cons.prems(1) unfolding good_log_def by (metis imageE)
    then have "collisions (add_entry l e) \<noteq> []" by (simp add: add_entry_def)
    then show ?thesis using collisions_grow by simp
  next
    case False
    then show ?thesis using Cons.IH [OF add_entry_good [OF Cons.prems(1) False]] Cons.prems(2,3) by auto
  qed
qed simp

text \<open>The index of a log without collisions, and when there are none.\<close>

definition offs_where :: "(Entry \<Rightarrow> bool) \<Rightarrow> Entry list \<Rightarrow> nat list" where
  "offs_where P entries = sort (map eOffset (filter P entries))"

lemma good_log_empty: "good_log [] empty_log"
  by (simp add: good_log_def empty_log_def)

lemma index_good:
  assumes "distinct (map eOffset entries)" "\<forall>e \<in> set entries. eOffset e \<noteq> 0"
  obtains l where "index entries = Some l" "\<And>o' e. byOffset l o' = Some e \<longleftrightarrow> e \<in> set entries \<and> eOffset e = o'"
    "\<And>v. byValue l v = offs_where (\<lambda>e. eValue e = v) entries" "\<And>k. byKey l k = offs_where (\<lambda>e. eKey e = k) entries"
    "offsets l = offs_where (\<lambda>_. True) entries" "collisions l = []"
proof -
  let ?l = "foldl add_entry empty_log entries"
  have "good_log entries ?l" using add_entries [OF good_log_empty, of entries] assms(1) by simp
  then have g: "\<And>o' e. byOffset ?l o' = Some e \<longleftrightarrow> e \<in> set entries \<and> eOffset e = o'"
    "\<And>v. mset (byValue ?l v) = mset (map eOffset (filter (\<lambda>e. eValue e = v) entries))"
    "\<And>k. mset (byKey ?l k) = mset (map eOffset (filter (\<lambda>e. eKey e = k) entries))"
    "mset (offsets ?l) = mset (map eOffset entries)" "collisions ?l = []"
    by (simp_all add: good_log_def)
  have s: "sort xs = sort ys" if "mset xs = mset ys" for xs ys :: "nat list"
    using that by (metis properties_for_sort mset_sort sorted_sort)
  let ?l' = "?l\<lparr>byValue := (\<lambda>v. sort (byValue ?l v)), byKey := (\<lambda>k. sort (byKey ?l k)), offsets := sort (offsets ?l)\<rparr>"
  have "index entries = Some ?l'" using assms(2) by (auto simp: index_def Let_def)
  moreover have "byOffset ?l' o' = Some e \<longleftrightarrow> e \<in> set entries \<and> eOffset e = o'" for o' e using g(1) by simp
  moreover have "byValue ?l' v = offs_where (\<lambda>e. eValue e = v) entries" for v
    using s [OF g(2)] by (simp add: offs_where_def)
  moreover have "byKey ?l' k = offs_where (\<lambda>e. eKey e = k) entries" for k
    using s [OF g(3)] by (simp add: offs_where_def)
  moreover have "offsets ?l' = offs_where (\<lambda>_. True) entries" using s [OF g(4)] by (simp add: offs_where_def)
  moreover have "collisions ?l' = []" using g(5) by simp
  ultimately show ?thesis by (rule that)
qed

lemma index_collides:
  assumes "index entries = Some l" "collisions l = []"
  shows "distinct (map eOffset entries)" "\<forall>e \<in> set entries. eOffset e \<noteq> 0"
proof -
  show nz: "\<forall>e \<in> set entries. eOffset e \<noteq> 0" using assms(1) by (auto simp: index_def split: if_splits)
  have "collisions (foldl add_entry empty_log entries) = []" using assms by (auto simp: index_def Let_def split: if_splits)
  then show "distinct (map eOffset entries)" using add_entries_collide [OF good_log_empty, of entries] by auto
qed

lemma offs_where_props [simp]:
  "sorted (offs_where P entries)" "set (offs_where P entries) = {eOffset e | e. e \<in> set entries \<and> P e}"
  by (auto simp: offs_where_def)

lemma distinct_offs_where: "distinct (map eOffset entries) \<Longrightarrow> distinct (offs_where P entries)"
  by (simp add: offs_where_def distinct_map_filter)

subsection \<open>The sweep\<close>

abbreviation when_of :: "sent \<Rightarrow> int" where "when_of k \<equiv> fst (snd k)"
abbreviation off_of :: "sent \<Rightarrow> nat" where "off_of k \<equiv> snd (snd k)"

lemma advance_spec:
  "advance call dn acks = (dn', acks') \<Longrightarrow>
    acks' = dropWhile (\<lambda>k. when_of k < call) acks \<and>
    ((\<forall>d. dn' = Some d \<longrightarrow> off_of d \<le> x) \<longleftrightarrow>
      (\<forall>d. dn = Some d \<longrightarrow> off_of d \<le> x) \<and> (\<forall>k \<in> set (takeWhile (\<lambda>k. when_of k < call) acks). off_of k \<le> x))"
proof (induction acks arbitrary: dn)
  case (Cons k ks)
  show ?case
  proof (cases "when_of k < call")
    case True
    let ?dn = "case dn of None \<Rightarrow> Some k | Some d \<Rightarrow> if off_of k > off_of d then Some k else dn"
    have "(\<forall>d. ?dn = Some d \<longrightarrow> off_of d \<le> x) \<longleftrightarrow> (\<forall>d. dn = Some d \<longrightarrow> off_of d \<le> x) \<and> off_of k \<le> x"
      by (cases k) (auto split: option.splits)
    then show ?thesis using Cons.IH [of ?dn] Cons.prems True by (cases k) auto
  next
    case False
    then show ?thesis using Cons.prems by (cases k) auto
  qed
qed simp

lemma sweep_empty:
  assumes "sorted (map when_of acks)" "sorted (map when_of bs)"
  shows "sweep dn acks bs = [] \<longleftrightarrow>
    (\<forall>b \<in> set bs. (\<forall>d. dn = Some d \<longrightarrow> off_of d \<le> off_of b) \<and> (\<forall>k \<in> set acks. when_of k < when_of b \<longrightarrow> off_of k \<le> off_of b))"
  using assms
proof (induction bs arbitrary: dn acks)
  case (Cons b bs)
  obtain dn' acks' where adv: "advance (when_of b) dn acks = (dn', acks')" by fastforce
  note A = advance_spec [OF adv]
  let ?early = "takeWhile (\<lambda>k. when_of k < when_of b) acks"
  have acks: "acks = ?early @ acks'" using A by simp
  have late: "\<not> when_of k < when_of b" if "k \<in> set acks'" for k
  proof -
    have "sorted (map when_of acks')" using Cons.prems(1) acks by (metis map_append sorted_append)
    moreover have "acks' = [] \<or> \<not> when_of (hd acks') < when_of b" using A hd_dropWhile [of "\<lambda>k. when_of k < when_of b" acks] by blast
    ultimately show ?thesis using that by (cases acks') auto
  qed
  have early: "k \<in> set ?early \<longleftrightarrow> k \<in> set acks \<and> when_of k < when_of b" for k
    using late acks set_takeWhileD by (metis (no_types, lifting) Un_iff set_append)
  have "sorted (map when_of acks')" using Cons.prems(1) acks by (metis map_append sorted_append)
  then have IH: "sweep dn' acks' bs = [] \<longleftrightarrow>
      (\<forall>c \<in> set bs. (\<forall>d. dn' = Some d \<longrightarrow> off_of d \<le> off_of c) \<and> (\<forall>k \<in> set acks'. when_of k < when_of c \<longrightarrow> off_of k \<le> off_of c))"
    using Cons.IH Cons.prems(2) by simp
  have later: "when_of b \<le> when_of c" if "c \<in> set bs" for c using Cons.prems(2) that by simp
  have split: "(\<forall>k \<in> set acks. when_of k < when_of c \<longrightarrow> off_of k \<le> off_of c) \<longleftrightarrow>
      (\<forall>k \<in> set ?early. off_of k \<le> off_of c) \<and> (\<forall>k \<in> set acks'. when_of k < when_of c \<longrightarrow> off_of k \<le> off_of c)"
    if "when_of b \<le> when_of c" for c
  proof -
    have all: "set acks = set ?early \<union> set acks'" using acks by (metis set_append)
    have "when_of k < when_of c" if "k \<in> set ?early" for k using early [of k] that \<open>when_of b \<le> when_of c\<close> by simp
    then show ?thesis unfolding all by blast
  qed
  have now: "(\<forall>k \<in> set acks. when_of k < when_of b \<longrightarrow> off_of k \<le> off_of b) \<longleftrightarrow> (\<forall>k \<in> set ?early. off_of k \<le> off_of b)"
    using early by blast
  have "sweep dn acks (b # bs) = [] \<longleftrightarrow> (\<forall>d. dn' = Some d \<longrightarrow> off_of d \<le> off_of b) \<and> sweep dn' acks' bs = []"
    by (auto simp: adv split: option.splits if_splits)
  also have "\<dots> \<longleftrightarrow> (\<forall>c \<in> set (b # bs). (\<forall>d. dn = Some d \<longrightarrow> off_of d \<le> off_of c) \<and>
      (\<forall>k \<in> set acks. when_of k < when_of c \<longrightarrow> off_of k \<le> off_of c))"
    using IH A now split later by auto
  finally show ?case .
qed simp

subsection \<open>The estimate of when a copy was sent\<close>

definition named :: "Append \<Rightarrow> nat list \<Rightarrow> Attempt \<Rightarrow> bool" where
  "named a offs t \<longleftrightarrow> tOutcome t = AOK \<and> \<not> Idempotent a \<and> tOffset t \<in> set offs"

lemma bsearch_nth:
  assumes "sorted offs" "distinct offs" "x \<in> set offs"
  shows "fst (bsearch offs x) < length offs" "offs ! fst (bsearch offs x) = x"
proof -
  have "dropWhile (\<lambda>y. y < x) offs \<noteq> []" using assms(3) by (auto simp: dropWhile_eq_Nil_conv)
  then have ne: "fst (bsearch offs x) < length offs"
    by (metis append_Nil2 bsearch_def fst_conv length_takeWhile_le nat_less_le takeWhile_dropWhile_id append_eq_conv_conj take_all)
  obtain i where i: "i < length offs" "offs ! i = x" using assms(3) by (metis in_set_conv_nth)
  have "fst (bsearch offs x) = i"
    unfolding bsearch_def fst_conv
  proof (rule antisym)
    show "length (takeWhile (\<lambda>y. y < x) offs) \<le> i"
      using i nth_length_takeWhile [of "\<lambda>y. y < x" offs] takeWhile_nth [of i "\<lambda>y. y < x" offs] set_takeWhileD [of "takeWhile (\<lambda>y. y < x) offs ! i" "\<lambda>y. y < x" offs] nth_mem
      by (metis less_irrefl not_le_imp_less)
    have "offs ! length (takeWhile (\<lambda>y. y < x) offs) \<ge> x"
      using ne nth_length_takeWhile [of "\<lambda>y. y < x" offs] by (simp add: bsearch_def)
    then show "i \<le> length (takeWhile (\<lambda>y. y < x) offs)"
      using assms(1,2) i ne sorted_wrt_nth_less [of "(<)" offs] by (metis bsearch_def fst_conv leD not_le_imp_less strict_sorted_iff)
  qed
  then show "fst (bsearch offs x) < length offs" "offs ! fst (bsearch offs x) = x" using i by simp_all
qed

text \<open>What the pass over the attempts leaves: each named copy with the call of an attempt its ack names it in, the rest aside.\<close>

definition placing_inv :: "Append \<Rightarrow> nat list \<Rightarrow> Attempt list \<Rightarrow> placing \<Rightarrow> bool" where
  "placing_inv a offs ts p \<longleftrightarrow> length (outs p) = length offs \<and> length (placedAt p) = length offs \<and>
     (\<forall>i < length offs. placedAt p ! i \<longrightarrow> (\<exists>t \<in> set ts. named a offs t \<and> tOffset t = offs ! i \<and> outs p ! i = tCall t)) \<and>
     (\<forall>i < length offs. \<not> placedAt p ! i \<longrightarrow> (\<forall>t \<in> set ts. named a offs t \<longrightarrow> tOffset t \<noteq> offs ! i)) \<and>
     leftOver p = map tCall (filter (\<lambda>t. \<not> named a offs t \<and> tOutcome t \<noteq> AFailed) ts) \<and>
     refused p = map tCall (filter (\<lambda>t. tOutcome t = AFailed) ts) \<and>
     firstCall p = foldl min MaxInt64 (map tCall ts)"

lemma place_inv:
  assumes "placing_inv a offs ts p" "sorted offs" "distinct offs"
  shows "placing_inv a offs (ts @ [t]) (place a offs p t)"
proof (cases "named a offs t")
  case True
  let ?i = "fst (bsearch offs (tOffset t))"
  have i: "?i < length offs" "offs ! ?i = tOffset t"
    using bsearch_nth [OF assms(2,3)] True by (auto simp: named_def)
  have pl: "place a offs p t = p\<lparr>firstCall := min (firstCall p) (tCall t),
      outs := (if \<not> placedAt p ! ?i \<or> tCall t < outs p ! ?i then (outs p)[?i := tCall t] else outs p),
      placedAt := (placedAt p)[?i := True]\<rparr>"
    using True by (simp add: place_def named_def bsearch_def Let_def)
  have ok: "tOutcome t \<noteq> AFailed" using True by (simp add: named_def)
  have other: "tOffset t \<noteq> offs ! j" if "j < length offs" "j \<noteq> ?i" for j
    using that i assms(3) by (metis nth_eq_iff_index_eq)
  note inv = assms(1) [unfolded placing_inv_def]
  have "\<exists>u \<in> set (ts @ [t]). named a offs u \<and> tOffset u = offs ! j \<and> outs (place a offs p t) ! j = tCall u"
    if j: "j < length offs" "placedAt (place a offs p t) ! j" for j
  proof (cases "j = ?i \<and> (\<not> placedAt p ! ?i \<or> tCall t < outs p ! ?i)")
    case here: True
    then have "outs (place a offs p t) ! j = tCall t" using i inv by (auto simp: pl)
    then show ?thesis using True i here by auto
  next
    case False
    then have "placedAt p ! j" "outs (place a offs p t) ! j = outs p ! j"
      using j inv i(1) by (cases "j = ?i"; simp add: pl)+
    then obtain u where "u \<in> set ts" "named a offs u" "tOffset u = offs ! j" "outs p ! j = tCall u" using inv j(1) by blast
    then show ?thesis using \<open>outs (place a offs p t) ! j = outs p ! j\<close> by auto
  qed
  moreover have "tOffset u \<noteq> offs ! j"
    if "j < length offs" "\<not> placedAt (place a offs p t) ! j" "u \<in> set (ts @ [t])" "named a offs u" for j u
  proof -
    have "j \<noteq> ?i" "\<not> placedAt p ! j" using that(1,2) inv i by (auto simp: pl nth_list_update split: if_splits)
    then show ?thesis using that inv other by auto
  qed
  moreover have "length (outs (place a offs p t)) = length offs" "length (placedAt (place a offs p t)) = length offs"
    using inv by (auto simp: pl)
  ultimately show ?thesis using inv True ok unfolding placing_inv_def by (simp add: pl)
next
  case False
  then have pl: "place a offs p t = (let p = p\<lparr>firstCall := min (firstCall p) (tCall t)\<rparr> in
      if tOutcome t = AFailed then p\<lparr>refused := refused p @ [tCall t]\<rparr> else p\<lparr>leftOver := leftOver p @ [tCall t]\<rparr>)"
    by (auto simp: place_def named_def bsearch_def Let_def)
  show ?thesis using assms(1) False unfolding placing_inv_def pl Let_def by auto
qed

lemma place_fold:
  "placing_inv a offs us p \<Longrightarrow> sorted offs \<Longrightarrow> distinct offs \<Longrightarrow> placing_inv a offs (us @ ts) (foldl (place a offs) p ts)"
proof (induction ts arbitrary: us p)
  case (Cons t ts)
  then show ?case using Cons.IH [OF place_inv [OF Cons.prems]] by simp
qed simp

lemma fill_length: "length bs = length xs \<Longrightarrow> length (fill lft f j xs bs) = length xs"
  by (induction lft f j xs bs rule: fill.induct) auto

lemma fill_nth:
  "length bs = length xs \<Longrightarrow> i < length xs \<Longrightarrow> fill lft f j xs bs ! i =
    (if bs ! i then xs ! i else if lft = [] then f else lft ! min (j + length (filter Not (take i bs))) (length lft - 1))"
proof (induction lft f j xs bs arbitrary: i rule: fill.induct)
  case (1 lft f j x xs b bs)
  then show ?case by (cases i) auto
qed auto

text \<open>The j-th smallest of some numbers is at most a bound that more than j of them are at most.\<close>

lemma sort_nth_le:
  fixes xs :: "int list"
  assumes "j < length (filter (\<lambda>c. c \<le> T) xs)"
  shows "j < length xs" "sort xs ! j \<le> T"
proof -
  show j: "j < length xs" using assms length_filter_le order_less_le_trans by blast
  show "sort xs ! j \<le> T"
  proof (rule ccontr)
    assume gt: "\<not> sort xs ! j \<le> T"
    have "{i. i < length (sort xs) \<and> sort xs ! i \<le> T} \<subseteq> {..<j}"
    proof
      fix i assume "i \<in> {i. i < length (sort xs) \<and> sort xs ! i \<le> T}"
      moreover from this have "\<not> j \<le> i" using gt sorted_nth_mono [of "sort xs" j i] by auto
      ultimately show "i \<in> {..<j}" by simp
    qed
    then have "card {i. i < length (sort xs) \<and> sort xs ! i \<le> T} \<le> j" by (metis card_lessThan card_mono finite_lessThan)
    then have "length (filter (\<lambda>c. c \<le> T) (sort xs)) \<le> j" by (simp add: length_filter_conv_card)
    moreover have "length (filter (\<lambda>c. c \<le> T) (sort xs)) = length (filter (\<lambda>c. c \<le> T) xs)"
      by (metis mset_filter mset_sort size_mset)
    ultimately show False using assms by simp
  qed
qed

lemma calls_shape:
  assumes "sorted offs" "distinct offs"
  obtains p where "placing_inv a offs (Attempts a) p" "length (calls a offs) = length offs"
    "\<And>i. i < length offs \<Longrightarrow> calls a offs ! i = (let lft = sort (if leftOver p = [] then refused p else leftOver p) in
       if placedAt p ! i then outs p ! i else if lft = [] then firstCall p
       else lft ! min (length (filter Not (take i (placedAt p)))) (length lft - 1))"
proof -
  let ?start = "\<lparr>outs = replicate (length offs) 0, placedAt = replicate (length offs) False, leftOver = [], refused = [], firstCall = MaxInt64\<rparr>"
  let ?p = "foldl (place a offs) ?start (Attempts a)"
  have "placing_inv a offs [] ?start" by (simp add: placing_inv_def)
  from place_fold [OF this assms, of "Attempts a"] have inv: "placing_inv a offs (Attempts a) ?p" by simp
  then have len: "length (outs ?p) = length offs" "length (placedAt ?p) = length offs" by (simp_all add: placing_inv_def)
  show ?thesis
  proof (rule that [OF inv])
    show "length (calls a offs) = length offs" using len by (simp add: calls_def Let_def fill_length)
    fix i assume i: "i < length offs"
    show "calls a offs ! i = (let lft = sort (if leftOver ?p = [] then refused ?p else leftOver ?p) in
       if placedAt ?p ! i then outs ?p ! i else if lft = [] then firstCall ?p
       else lft ! min (length (filter Not (take i (placedAt ?p)))) (length lft - 1))"
      using fill_nth [of "placedAt ?p" "outs ?p" i] len i by (simp add: calls_def Let_def)
  qed
qed

end
