(* ===== verification/Log_Sound.thy ===== *)
theory Log_Sound
  imports Log_Model
begin

text \<open>
  What the log checker's verdict on the appends means. An honest log is one whose entries
  were placed one after another, each by an attempt that was sent before, was not refused,
  and was told the truth if it was acked: on such a log the checker finds nothing. And when
  it finds nothing, everything acked is in the log where it should be.
\<close>

subsection \<open>Honest logs\<close>

record placement =
  plTime :: int
  plOff :: nat
  plApp :: nat
  plAtt :: nat

definition att :: "Append list \<Rightarrow> placement \<Rightarrow> Attempt" where
  "att appends p = Attempts (appends ! plApp p) ! plAtt p"

definition entry_of :: "Append list \<Rightarrow> placement \<Rightarrow> Entry" where
  "entry_of appends p = \<lparr>eOffset = plOff p, eKey = aKey (appends ! plApp p), eValue = aValue (appends ! plApp p)\<rparr>"

definition lastOff :: "placement list \<Rightarrow> nat" where
  "lastOff ps = (if ps = [] then 0 else plOff (last ps))"

definition honest_place :: "Append list \<Rightarrow> placement list \<Rightarrow> nat \<Rightarrow> bool" where
  "honest_place appends run i \<longleftrightarrow>
     (let p = run ! i; a = appends ! plApp p in
      plApp p < length appends \<and> plAtt p < length (Attempts a) \<and> plOff p \<noteq> 0 \<and>
      tOutcome (att appends p) \<noteq> AFailed \<and> tCall (att appends p) \<le> plTime p \<and>
      (\<forall>k. AfterKey a = Some k \<longrightarrow> lastOff (filter (\<lambda>q. aKey (appends ! plApp q) = aKey a) (take i run)) = k) \<and>
      (\<forall>k. AfterLog a = Some k \<longrightarrow> lastOff (take i run) = k))"

definition acks_true :: "Append list \<Rightarrow> placement list \<Rightarrow> bool" where
  "acks_true appends run \<longleftrightarrow>
     (\<forall>i < length appends. \<forall>j < length (Attempts (appends ! i)). tOutcome (Attempts (appends ! i) ! j) = AOK \<longrightarrow>
        (\<exists>p \<in> set run. plApp p = i \<and> (Idempotent (appends ! i) \<or> plAtt p = j) \<and>
           plOff p = tOffset (Attempts (appends ! i) ! j) \<and> plTime p \<le> tReturn (Attempts (appends ! i) ! j)))"

definition honest :: "Append list \<Rightarrow> Entry list \<Rightarrow> placement list \<Rightarrow> bool" where
  "honest appends entries run \<longleftrightarrow>
     distinct (map aValue appends) \<and>
     sorted_wrt (\<lambda>p q. plTime p \<le> plTime q \<and> plOff p < plOff q) run \<and>
     (\<forall>i < length run. honest_place appends run i) \<and>
     distinct (map (\<lambda>p. (plApp p, plAtt p)) run) \<and>
     (\<forall>p \<in> set run. \<forall>q \<in> set run. plApp p = plApp q \<longrightarrow> Idempotent (appends ! plApp p) \<longrightarrow> p = q) \<and>
     acks_true appends run \<and> distinct entries \<and> set entries = entry_of appends ` set run"

lemma entry_of_simps [simp]:
  "eOffset (entry_of appends p) = plOff p" "eKey (entry_of appends p) = aKey (appends ! plApp p)"
  "eValue (entry_of appends p) = aValue (appends ! plApp p)"
  by (simp_all add: entry_of_def)

lemma honest_placeD:
  assumes "honest appends entries run" "p \<in> set run"
  shows "plApp p < length appends" "plAtt p < length (Attempts (appends ! plApp p))" "plOff p \<noteq> 0"
    "tOutcome (att appends p) \<noteq> AFailed" "tCall (att appends p) \<le> plTime p"
  using assms by (auto simp: honest_def honest_place_def Let_def in_set_conv_nth)

lemma honest_order:
  assumes "honest appends entries run" "p \<in> set run" "q \<in> set run"
  shows "plOff p = plOff q \<Longrightarrow> p = q" "plOff p \<le> plOff q \<Longrightarrow> plTime p \<le> plTime q" "plTime p < plTime q \<Longrightarrow> plOff p < plOff q"
proof -
  have s: "sorted_wrt (\<lambda>p q. plTime p \<le> plTime q \<and> plOff p < plOff q) run" using assms(1) by (simp add: honest_def)
  obtain i j where ij: "i < length run" "run ! i = p" "j < length run" "run ! j = q" using assms(2,3) by (auto simp: in_set_conv_nth)
  have lt: "plTime p \<le> plTime q \<and> plOff p < plOff q" if "i < j" using sorted_wrt_nth_less [OF s that ij(3)] ij by simp
  have gt: "plTime q \<le> plTime p \<and> plOff q < plOff p" if "j < i" using sorted_wrt_nth_less [OF s that ij(1)] ij by simp
  show "plOff p = plOff q \<Longrightarrow> p = q" "plOff p \<le> plOff q \<Longrightarrow> plTime p \<le> plTime q" "plTime p < plTime q \<Longrightarrow> plOff p < plOff q"
  proof -
    have cases: "plTime p \<le> plTime q \<and> plOff p < plOff q \<or> p = q \<or> plTime q \<le> plTime p \<and> plOff q < plOff p"
      using lt gt ij by (cases i j rule: linorder_cases) auto
    show "plOff p = plOff q \<Longrightarrow> p = q" "plOff p \<le> plOff q \<Longrightarrow> plTime p \<le> plTime q" "plTime p < plTime q \<Longrightarrow> plOff p < plOff q"
      using cases by auto
  qed
qed

lemma honest_offsets:
  assumes "honest appends entries run"
  shows "distinct (map eOffset entries)" "\<forall>e \<in> set entries. eOffset e \<noteq> 0"
    "offs_where P entries = map plOff (filter (\<lambda>p. P (entry_of appends p)) run)"
proof -
  have e: "set entries = entry_of appends ` set run" "distinct entries" using assms by (simp_all add: honest_def)
  show d: "distinct (map eOffset entries)"
    using e honest_order(1) [OF assms] by (auto simp: distinct_map inj_on_def)
  show "\<forall>e \<in> set entries. eOffset e \<noteq> 0" using e honest_placeD(3) [OF assms] by auto
  have "sorted_wrt (<) (map plOff run)"
  proof -
    have "sorted_wrt (\<lambda>p q. plTime p \<le> plTime q \<and> plOff p < plOff q) run" using assms by (simp add: honest_def)
    then show ?thesis unfolding sorted_wrt_map by (rule sorted_wrt_mono_rel [rotated]) simp
  qed
  then have "sorted_wrt (<) (map plOff (filter (\<lambda>p. P (entry_of appends p)) run))"
    by (simp add: sorted_wrt_map sorted_wrt_filter)
  moreover have "sorted_wrt (<) (offs_where P entries)"
    using distinct_offs_where [OF d] by (simp add: strict_sorted_iff)
  moreover have "set (offs_where P entries) = set (map plOff (filter (\<lambda>p. P (entry_of appends p)) run))"
    using e(1) by (force simp: image_iff)
  ultimately show "offs_where P entries = map plOff (filter (\<lambda>p. P (entry_of appends p)) run)"
    by (simp add: strict_sorted_equal)
qed

lemma honest_value:
  assumes "honest appends entries run" "i < length appends" "p \<in> set run"
  shows "aValue (appends ! plApp p) = aValue (appends ! i) \<longleftrightarrow> plApp p = i"
proof -
  have "distinct (map aValue appends)" using assms(1) by (simp add: honest_def)
  then show ?thesis using nth_eq_iff_index_eq [of "map aValue appends" "plApp p" i] honest_placeD(1) [OF assms(1,3)] assms(2) by simp
qed

abbreviation copies :: "Append list \<Rightarrow> placement list \<Rightarrow> nat \<Rightarrow> nat list" where
  "copies appends run i \<equiv> map plOff (filter (\<lambda>p. plApp p = i) run)"

lemma honest_copies:
  assumes "honest appends entries run" "i < length appends"
  shows "offs_where (\<lambda>e. eValue e = aValue (appends ! i)) entries = copies appends run i"
proof -
  have "filter (\<lambda>p. aValue (appends ! plApp p) = aValue (appends ! i)) run = filter (\<lambda>p. plApp p = i) run"
    using honest_value [OF assms] by (intro filter_cong) auto
  then show ?thesis using honest_offsets(3) [OF assms(1)] by simp
qed

text \<open>Which attempt placed a copy, when its ack names an offset.\<close>

lemma honest_ack:
  assumes "honest appends entries run" "i < length appends" "t \<in> set (Attempts (appends ! i))" "tOutcome t = AOK"
  obtains p where "p \<in> set run" "plApp p = i" "plOff p = tOffset t" "plTime p \<le> tReturn t"
    "\<not> Idempotent (appends ! i) \<Longrightarrow> att appends p = t"
proof -
  obtain j where j: "j < length (Attempts (appends ! i))" "Attempts (appends ! i) ! j = t" using assms(3) by (auto simp: in_set_conv_nth)
  have "acks_true appends run" using assms(1) by (simp add: honest_def)
  then obtain p where "p \<in> set run" "plApp p = i" "Idempotent (appends ! i) \<or> plAtt p = j" "plOff p = tOffset t" "plTime p \<le> tReturn t"
    using assms(2,4) j unfolding acks_true_def by blast
  then show ?thesis using that j(2) by (auto simp: att_def)
qed

lemma placed_by_ok:
  assumes h: "honest appends entries run" and p: "p \<in> set run" and ok: "tOutcome (att appends p) = AOK" "\<not> Idempotent (appends ! plApp p)"
  shows "tOffset (att appends p) = plOff p"
proof -
  note P = honest_placeD [OF h p]
  have "acks_true appends run" using h by (simp add: honest_def)
  then obtain q where q: "q \<in> set run" "plApp q = plApp p" "plAtt q = plAtt p" "plOff q = tOffset (att appends p)"
    using P(1,2) ok unfolding acks_true_def att_def by blast
  have "distinct (map (\<lambda>p. (plApp p, plAtt p)) run)" using h by (simp add: honest_def)
  then have "q = p" using q p by (auto simp: distinct_map inj_on_def)
  then show ?thesis using q by simp
qed

subsection \<open>The estimate is early enough\<close>

lemma honest_copies_props:
  assumes "honest appends entries run" "i < length appends"
  shows "sorted (copies appends run i)" "distinct (copies appends run i)"
  using offs_where_props(1) distinct_offs_where [OF honest_offsets(1) [OF assms(1)]] honest_copies [OF assms] by metis+

text \<open>A copy no ack names was placed by an attempt the pass left aside; different copies, by different attempts.\<close>

lemma unnamed_copy:
  assumes h: "honest appends entries run" and p: "p \<in> set run" "plApp p = i" and i: "i < length appends"
    and un: "\<forall>t \<in> set (Attempts (appends ! i)). named (appends ! i) (copies appends run i) t \<longrightarrow> tOffset t \<noteq> plOff p"
  shows "\<not> named (appends ! i) (copies appends run i) (att appends p) \<and> tOutcome (att appends p) \<noteq> AFailed"
proof -
  have t: "att appends p \<in> set (Attempts (appends ! i))" using honest_placeD(2) [OF h p(1)] p(2) by (simp add: att_def)
  show ?thesis using un t placed_by_ok [OF h p(1)] p(2) honest_placeD(4) [OF h p(1)] by (auto simp: named_def)
qed

lemma early_attempts:
  assumes h: "honest appends entries run" and i: "i < length appends" and K: "K \<subseteq> {..<length (copies appends run i)}"
    and inv: "\<And>k. k \<in> K \<Longrightarrow> \<forall>t \<in> set (Attempts (appends ! i)). named (appends ! i) (copies appends run i) t \<longrightarrow> tOffset t \<noteq> copies appends run i ! k"
    and T: "\<And>k p. k \<in> K \<Longrightarrow> p \<in> set run \<Longrightarrow> plOff p = copies appends run i ! k \<Longrightarrow> plTime p \<le> T"
  shows "card K \<le> length (filter (\<lambda>c. c \<le> T)
    (map tCall (filter (\<lambda>t. \<not> named (appends ! i) (copies appends run i) t \<and> tOutcome t \<noteq> AFailed) (Attempts (appends ! i)))))"
proof -
  let ?a = "appends ! i" and ?offs = "copies appends run i"
  let ?Q = "\<lambda>t. (\<not> named ?a ?offs t \<and> tOutcome t \<noteq> AFailed) \<and> tCall t \<le> T"
  define pl where "pl k = filter (\<lambda>p. plApp p = i) run ! k" for k
  have pl: "pl k \<in> set run" "plApp (pl k) = i" "plOff (pl k) = ?offs ! k" if "k \<in> K" for k
  proof -
    have "k < length (filter (\<lambda>p. plApp p = i) run)" using K that by auto
    then have "pl k \<in> set (filter (\<lambda>p. plApp p = i) run)" "plOff (pl k) = ?offs ! k"
      unfolding pl_def by (rule nth_mem, simp)
    then show "pl k \<in> set run" "plApp (pl k) = i" "plOff (pl k) = ?offs ! k" by simp_all
  qed
  have good: "plAtt (pl k) < length (Attempts ?a) \<and> ?Q (Attempts ?a ! plAtt (pl k))" if "k \<in> K" for k
    using unnamed_copy [OF h pl(1,2) [OF that] i] inv [OF that] pl(3) [OF that] honest_placeD [OF h pl(1) [OF that]]
      T [OF that pl(1,3) [OF that]] pl(2) [OF that] by (simp add: att_def)
  have "inj_on (\<lambda>k. plAtt (pl k)) K"
  proof (rule inj_onI)
    fix k k' assume k: "k \<in> K" "k' \<in> K" "plAtt (pl k) = plAtt (pl k')"
    have "distinct (map (\<lambda>p. (plApp p, plAtt p)) run)" using h by (simp add: honest_def)
    then have "pl k = pl k'" using k pl by (auto simp: distinct_map inj_on_def)
    then have "?offs ! k = ?offs ! k'" using pl(3) k(1,2) by metis
    then show "k = k'" using honest_copies_props(2) [OF h i] K k(1,2) nth_eq_iff_index_eq [of ?offs k k'] by auto
  qed
  moreover have "(\<lambda>k. plAtt (pl k)) ` K \<subseteq> {j. j < length (Attempts ?a) \<and> ?Q (Attempts ?a ! j)}" using good by auto
  ultimately have "card K \<le> card {j. j < length (Attempts ?a) \<and> ?Q (Attempts ?a ! j)}" by (intro card_inj_on_le) auto
  also have "\<dots> = length (filter ?Q (Attempts ?a))" by (simp add: length_filter_conv_card)
  also have "\<dots> = length (filter (\<lambda>c. c \<le> T) (map tCall (filter (\<lambda>t. \<not> named ?a ?offs t \<and> tOutcome t \<noteq> AFailed) (Attempts ?a))))"
    by (simp add: filter_map o_def conj_commute)
  finally show ?thesis .
qed

lemma card_unplaced: "i < length bs \<Longrightarrow> \<not> bs ! i \<Longrightarrow> card {k. k \<le> i \<and> \<not> bs ! k} = Suc (length (filter Not (take i bs)))"
proof -
  assume i: "i < length bs" "\<not> bs ! i"
  have "{k. k \<le> i \<and> \<not> bs ! k} = insert i {k. k < i \<and> \<not> bs ! k}" using i by auto
  moreover have "length (filter Not (take i bs)) = card {k. k < i \<and> \<not> bs ! k}"
    using i by (auto simp: length_filter_conv_card intro!: arg_cong [where f = card])
  ultimately show ?thesis by simp
qed

lemma calls_le:
  assumes h: "honest appends entries run" and i: "i < length appends" and k: "k < length (copies appends run i)"
    and p: "p \<in> set run" "plOff p = copies appends run i ! k"
  shows "calls (appends ! i) (copies appends run i) ! k \<le> plTime p"
proof -
  let ?a = "appends ! i" and ?offs = "copies appends run i"
  obtain pg where inv: "placing_inv ?a ?offs (Attempts ?a) pg"
    and val: "calls ?a ?offs ! k = (let lft = sort (if leftOver pg = [] then refused pg else leftOver pg) in
       if placedAt pg ! k then outs pg ! k else if lft = [] then firstCall pg
       else lft ! min (length (filter Not (take k (placedAt pg)))) (length lft - 1))"
    using calls_shape [OF honest_copies_props [OF h i], of ?a] k by metis
  note I = inv [unfolded placing_inv_def]
  show ?thesis
  proof (cases "placedAt pg ! k")
    case True
    then obtain t where t: "t \<in> set (Attempts ?a)" "named ?a ?offs t" "tOffset t = ?offs ! k" "outs pg ! k = tCall t" using I k by blast
    obtain q where q: "q \<in> set run" "plApp q = i" "plOff q = tOffset t" "att appends q = t"
      using honest_ack [OF h i t(1)] t(2) by (metis named_def)
    have "q = p" using honest_order(1) [OF h q(1) p(1)] q(3) t(3) p(2) by simp
    then show ?thesis using honest_placeD(5) [OF h q(1)] q(4) t(4) True val by simp
  next
    case False
    let ?K = "{m. m \<le> k \<and> \<not> placedAt pg ! m}" and ?j = "length (filter Not (take k (placedAt pg)))"
    have K: "?K \<subseteq> {..<length ?offs}" using k by auto
    have sorted: "?offs ! m \<le> ?offs ! k" if "m \<le> k" for m using honest_copies_props(1) [OF h i] that k by (intro sorted_nth_mono) auto
    have "card ?K \<le> length (filter (\<lambda>c. c \<le> plTime p) (leftOver pg))"
    proof -
      have "card ?K \<le> length (filter (\<lambda>c. c \<le> plTime p)
          (map tCall (filter (\<lambda>t. \<not> named ?a ?offs t \<and> tOutcome t \<noteq> AFailed) (Attempts ?a))))"
      proof (rule early_attempts [OF h i K])
        show "\<forall>t \<in> set (Attempts ?a). named ?a ?offs t \<longrightarrow> tOffset t \<noteq> ?offs ! m" if "m \<in> ?K" for m
          using I that k by auto
        show "plTime q \<le> plTime p" if "m \<in> ?K" "q \<in> set run" "plOff q = ?offs ! m" for m q
          using honest_order(2) [OF h that(2) p(1)] sorted [of m] that(1,3) p(2) by simp
      qed
      then show ?thesis using I by simp
    qed
    moreover have "card ?K = Suc ?j" using card_unplaced [of k "placedAt pg"] False k I by simp
    ultimately have j: "?j < length (filter (\<lambda>c. c \<le> plTime p) (leftOver pg))" by simp
    have "leftOver pg \<noteq> []" using j by auto
    moreover have "min ?j (length (leftOver pg) - 1) = ?j" using sort_nth_le(1) [OF j] by simp
    moreover have "sort (leftOver pg) \<noteq> []" using \<open>leftOver pg \<noteq> []\<close> by (metis length_0_conv length_sort)
    ultimately show ?thesis using val False sort_nth_le(2) [OF j] by (simp add: Let_def)
  qed
qed

subsection \<open>Each check on an honest log\<close>

lemma checkCopies_honest:
  assumes h: "honest appends entries run" and i: "i < length appends"
  shows "checkCopies (appends ! i) (copies appends run i) = []"
proof -
  let ?a = "appends ! i" and ?ps = "filter (\<lambda>p. plApp p = i) run"
  have "distinct (map (\<lambda>p. (plApp p, plAtt p)) run)" using h by (simp add: honest_def)
  then have inj: "distinct ?ps" "inj_on plAtt (set ?ps)" by (auto simp: distinct_map inj_on_def)
  have "plAtt ` set ?ps \<subseteq> {j. j < length (Attempts ?a) \<and> tOutcome (Attempts ?a ! j) \<noteq> AFailed}"
    using honest_placeD(2,4) [OF h] by (auto simp: att_def)
  then have "card (set ?ps) \<le> card {j. j < length (Attempts ?a) \<and> tOutcome (Attempts ?a ! j) \<noteq> AFailed}"
    using inj(2) by (intro card_inj_on_le) auto
  moreover have "could ?a = card {j. j < length (Attempts ?a) \<and> tOutcome (Attempts ?a ! j) \<noteq> AFailed}"
    by (simp add: could_def length_filter_conv_card)
  ultimately have le: "length ?ps \<le> could ?a" using distinct_card [OF inj(1)] by linarith
  moreover have "length ?ps \<le> 1" if "Idempotent ?a"
  proof -
    have "\<forall>p \<in> set ?ps. \<forall>q \<in> set ?ps. p = q" using h that by (auto simp: honest_def)
    then have "card (set ?ps) \<le> Suc 0" using card_le_Suc0_iff_eq [of "set ?ps"] by blast
    then show ?thesis using distinct_card [OF inj(1)] by linarith
  qed
  moreover have "?ps \<noteq> [] \<Longrightarrow> could ?a \<noteq> 0" using le by (cases ?ps) auto
  ultimately show ?thesis by (auto simp: checkCopies_def)
qed

lemma checkAcks_empty:
  "checkAcks l a acked ts = [] \<longleftrightarrow>
    (\<forall>t \<in> set ts. tOutcome t = AOK \<longrightarrow> (\<exists>e. byOffset l (tOffset t) = Some e \<and> eValue e = aValue a \<and> eKey e = aKey a)) \<and>
    (Idempotent a \<or> distinct (map tOffset (filter (\<lambda>t. tOutcome t = AOK) ts)) \<and>
       (\<forall>t \<in> set ts. tOutcome t = AOK \<longrightarrow> acked (tOffset t) = None))"
proof (induction ts arbitrary: acked)
  case (Cons t ts)
  then show ?case by (cases "Idempotent a"; cases "tOutcome t"; cases "acked (tOffset t)"; cases "byOffset l (tOffset t)") (auto simp: image_iff)
qed simp

lemma takeWhile_run:
  assumes "sorted_wrt (\<lambda>p q. plTime p \<le> plTime q \<and> plOff p < plOff q) run" "i < length run"
  shows "takeWhile (\<lambda>y. y < plOff (run ! i)) (map plOff (filter P run)) = map plOff (filter P (take i run))"
proof -
  have run: "run = take i run @ run ! i # drop (Suc i) run" using assms(2) by (rule id_take_nth_drop)
  have "\<forall>p \<in> set (take i run). plOff p < plOff (run ! i)" "\<forall>p \<in> set (drop (Suc i) run). plOff (run ! i) < plOff p"
    using assms(1) by (subst (asm) run, simp add: sorted_wrt_append)+
  then have "takeWhile (\<lambda>y. y < plOff (run ! i)) (map plOff (filter P (take i run @ run ! i # drop (Suc i) run))) = map plOff (filter P (take i run))"
  proof -
    let ?Q = "\<lambda>y. y < plOff (run ! i)" and ?rest = "map plOff (filter P (run ! i # drop (Suc i) run))"
    assume early: "\<forall>p \<in> set (take i run). plOff p < plOff (run ! i)" and late: "\<forall>p \<in> set (drop (Suc i) run). plOff (run ! i) < plOff p"
    have "\<forall>y \<in> set ?rest. \<not> ?Q y" using late by auto
    then have "takeWhile ?Q ?rest = []" by (cases ?rest) auto
    moreover have "takeWhile ?Q (map plOff (filter P (take i run)) @ ?rest) = map plOff (filter P (take i run)) @ takeWhile ?Q ?rest"
      using early by (intro takeWhile_append2) auto
    ultimately show ?thesis by simp
  qed
  then show ?thesis using run by simp
qed

lemma entry_before_run:
  assumes "honest appends entries run" "i < length run"
  shows "entry_before (offs_where Q entries) (plOff (run ! i)) = lastOff (filter (\<lambda>p. Q (entry_of appends p)) (take i run))"
proof -
  have s: "sorted_wrt (\<lambda>p q. plTime p \<le> plTime q \<and> plOff p < plOff q) run" using assms(1) by (simp add: honest_def)
  let ?xs = "takeWhile (\<lambda>y. y < plOff (run ! i)) (offs_where Q entries)"
  have xs: "?xs = map plOff (filter (\<lambda>p. Q (entry_of appends p)) (take i run))"
    using takeWhile_run [OF s assms(2)] honest_offsets(3) [OF assms(1)] by simp
  have "offs_where Q entries ! (length ?xs - 1) = last ?xs" if "?xs \<noteq> []"
    using that by (metis last_conv_nth takeWhile_nth diff_less length_greater_0_conv zero_less_one)
  then have "entry_before (offs_where Q entries) (plOff (run ! i)) = (if ?xs = [] then 0 else last ?xs)"
    by (auto simp: entry_before_def bsearch_def Let_def)
  then show ?thesis unfolding xs by (auto simp: lastOff_def last_map)
qed

lemma checkCondition_honest:
  assumes h: "honest appends entries run" and i: "i < length appends"
    and l: "\<And>k. byKey l k = offs_where (\<lambda>e. eKey e = k) entries" "offsets l = offs_where (\<lambda>_. True) entries"
  shows "checkCondition l (appends ! i) (copies appends run i) = []"
proof -
  have "entry_before (byKey l (aKey (appends ! i))) (plOff p) = k" if p: "p \<in> set run" "plApp p = i" "AfterKey (appends ! i) = Some k" for p k
  proof -
    obtain n where n: "n < length run" "run ! n = p" using p(1) unfolding in_set_conv_nth by blast
    then have "honest_place appends run n" using h by (simp add: honest_def)
    then show ?thesis using entry_before_run [OF h n(1), of "\<lambda>e. eKey e = aKey (appends ! i)"] p n
      by (simp add: honest_place_def Let_def l)
  qed
  moreover have "entry_before (offsets l) (plOff p) = k" if p: "p \<in> set run" "plApp p = i" "AfterLog (appends ! i) = Some k" for p k
  proof -
    obtain n where n: "n < length run" "run ! n = p" using p(1) unfolding in_set_conv_nth by blast
    then have "honest_place appends run n" using h by (simp add: honest_def)
    then show ?thesis using entry_before_run [OF h n(1), of "\<lambda>_. True"] p n
      by (simp add: honest_place_def Let_def l)
  qed
  ultimately show ?thesis by (auto simp: checkCondition_def Let_def split: option.splits)
qed

lemma distinct_map_filter_wrt: "sorted_wrt (\<lambda>x y. P x \<longrightarrow> P y \<longrightarrow> f x \<noteq> f y) xs \<Longrightarrow> distinct (map f (filter P xs))"
  by (induction xs) force+

lemma distinct_acks:
  assumes h: "honest appends entries run" and i: "i < length appends" and "\<not> Idempotent (appends ! i)"
  shows "distinct (map tOffset (filter (\<lambda>t. tOutcome t = AOK) (Attempts (appends ! i))))"
proof -
  let ?ts = "Attempts (appends ! i)"
  have "j = j'" if j: "j < length ?ts" "j' < length ?ts" "tOutcome (?ts ! j) = AOK" "tOutcome (?ts ! j') = AOK"
      "tOffset (?ts ! j) = tOffset (?ts ! j')" for j j'
  proof -
    have "acks_true appends run" using h by (simp add: honest_def)
    then obtain p q where "p \<in> set run" "q \<in> set run" "plAtt p = j" "plAtt q = j'" "plOff p = tOffset (?ts ! j)" "plOff q = tOffset (?ts ! j')"
      using i j assms(3) unfolding acks_true_def by blast
    then show ?thesis using honest_order(1) [OF h] j(5) by metis
  qed
  then have "sorted_wrt (\<lambda>x y. tOutcome x = AOK \<longrightarrow> tOutcome y = AOK \<longrightarrow> tOffset x \<noteq> tOffset y) ?ts"
    unfolding sorted_wrt_iff_nth_less by (metis less_irrefl less_trans)
  then show ?thesis by (rule distinct_map_filter_wrt)
qed

lemma checkAppend_honest:
  assumes h: "honest appends entries run" and i: "i < length appends"
    and l: "\<And>o' e. byOffset l o' = Some e \<longleftrightarrow> e \<in> set entries \<and> eOffset e = o'" "\<And>v. byValue l v = offs_where (\<lambda>e. eValue e = v) entries"
      "\<And>k. byKey l k = offs_where (\<lambda>e. eKey e = k) entries" "offsets l = offs_where (\<lambda>_. True) entries"
  shows "checkAppend l (appends ! i) = []"
proof -
  let ?a = "appends ! i"
  have e: "set entries = entry_of appends ` set run" using h by (simp add: honest_def)
  have offs: "byValue l (aValue ?a) = copies appends run i" using l(2) honest_copies [OF h i] by simp
  have "checkAcks l ?a (\<lambda>_. None) (Attempts ?a) = []"
  proof -
    have "\<exists>e. byOffset l (tOffset t) = Some e \<and> eValue e = aValue ?a \<and> eKey e = aKey ?a"
      if t: "t \<in> set (Attempts ?a)" "tOutcome t = AOK" for t
    proof -
      obtain p where "p \<in> set run" "plApp p = i" "plOff p = tOffset t" using honest_ack [OF h i t] by metis
      then show ?thesis using l(1) e by (intro exI [of _ "entry_of appends p"]) auto
    qed
    then show ?thesis using distinct_acks [OF h i] by (auto simp: checkAcks_empty)
  qed
  moreover have "checkFiled l ?a (copies appends run i) = []"
  proof -
    have "eKey x = aKey ?a" if x: "byOffset l (plOff p) = Some x" "p \<in> set run" "plApp p = i" for x p
    proof -
      have "x \<in> entry_of appends ` set run" "eOffset x = plOff p" using x(1) l(1) e by simp_all
      then obtain q where "q \<in> set run" "x = entry_of appends q" "plOff q = plOff p" by auto
      then show ?thesis using honest_order(1) [OF h _ x(2)] x(3) by auto
    qed
    then show ?thesis by (auto simp: checkFiled_def split: option.splits)
  qed
  ultimately show ?thesis
    using checkCopies_honest [OF h i] checkCondition_honest [OF h i l(3,4)] offs by (simp add: checkAppend_def Let_def)
qed

lemma byCall_mem:
  assumes "b \<in> set (byCall appends l)"
  obtains a k where "a \<in> set appends" "k < length (byValue l (aValue a))" "k < length (calls a (byValue l (aValue a)))"
    "b = (a, calls a (byValue l (aValue a)) ! k, byValue l (aValue a) ! k)"
  using assms by (auto simp: byCall_def Let_def set_zip split: if_splits)

lemma byRet_mem:
  assumes "b \<in> set (byRet appends l)"
  obtains a t where "a \<in> set appends" "t \<in> set (Attempts a)" "tOutcome t = AOK" "tOffset t \<in> set (byValue l (aValue a))"
    "b = (a, tReturn t, tOffset t)"
  using assms by (auto simp: byRet_def Let_def bsearch_def split: if_splits)

lemma realtimeOrder_empty:
  "realtimeOrder appends l = [] \<longleftrightarrow>
    (\<forall>b \<in> set (byCall appends l). \<forall>k \<in> set (byRet appends l). when_of k < when_of b \<longrightarrow> off_of k \<le> off_of b)"
proof -
  have "sorted (map when_of (byRet appends l))" "sorted (map when_of (byCall appends l))"
    unfolding byRet_def byCall_def by (simp_all add: case_prod_unfold)
  from sweep_empty [OF this] show ?thesis by (simp add: realtimeOrder_def)
qed

lemma realtimeOrder_honest:
  assumes h: "honest appends entries run" and l: "\<And>v. byValue l v = offs_where (\<lambda>e. eValue e = v) entries"
  shows "realtimeOrder appends l = []"
  unfolding realtimeOrder_empty
proof (intro ballI impI)
  fix b k assume b: "b \<in> set (byCall appends l)" and k: "k \<in> set (byRet appends l)" and lt: "when_of k < when_of b"
  have nth: "\<exists>i < length appends. appends ! i = a" if "a \<in> set appends" for a using that by (simp add: in_set_conv_nth)
  obtain i m where i: "i < length appends" and m: "m < length (copies appends run i)"
      "b = (appends ! i, calls (appends ! i) (copies appends run i) ! m, copies appends run i ! m)"
    using byCall_mem [OF b] nth l honest_copies [OF h] by metis
  obtain j t where j: "j < length appends" and t: "t \<in> set (Attempts (appends ! j))" "tOutcome t = AOK" "k = (appends ! j, tReturn t, tOffset t)"
    using byRet_mem [OF k] nth by metis
  have "copies appends run i ! m \<in> set (copies appends run i)" using m(1) by (rule nth_mem)
  then obtain p where p: "p \<in> set run" "plOff p = copies appends run i ! m" by auto
  obtain q where q: "q \<in> set run" "plOff q = tOffset t" "plTime q \<le> tReturn t" using honest_ack [OF h j t(1,2)] by metis
  have "plTime q < plTime p" using calls_le [OF h i m(1) p] q(3) lt m(2) t(3) by simp
  then show "off_of k \<le> off_of b" using honest_order(3) [OF h q(1) p(1)] q(2) p(2) m(2) t(3) by simp
qed

text \<open>
  C9: the checker raises no false alarm. A log that is honest (its entries placed one after
  another, each under its append's key, by an attempt sent before and not refused; at most
  one entry to an attempt, and to an idempotent append; an ack naming an entry of its
  append's, its attempt's own when there is no idempotency key, that was in the log by the
  ack's return; conditions met when the entry was placed) is found to contradict nothing.
\<close>
theorem CheckLog_no_false_alarm:
  assumes "honest appends entries run"
  shows "CheckLog appends entries = Some []"
proof -
  note o = honest_offsets(1,2) [OF assms]
  obtain l where l: "index entries = Some l" "\<And>o' e. byOffset l o' = Some e \<longleftrightarrow> e \<in> set entries \<and> eOffset e = o'"
    "\<And>v. byValue l v = offs_where (\<lambda>e. eValue e = v) entries" "\<And>k. byKey l k = offs_where (\<lambda>e. eKey e = k) entries"
    "offsets l = offs_where (\<lambda>_. True) entries" "collisions l = []"
    using index_good [OF o] by blast
  have "checkAppend l a = []" if "a \<in> set appends" for a
    using checkAppend_honest [OF assms _ l(2-5)] that by (auto simp: in_set_conv_nth)
  moreover have "checkPhantoms appends l = []"
  proof -
    have "eValue e \<in> aValue ` {a \<in> set appends. Attempts a \<noteq> []}" if x: "byOffset l x = Some e" for x e
    proof -
      have "e \<in> entry_of appends ` set run" using x l(2) assms by (simp add: honest_def)
      then obtain p where p: "p \<in> set run" "e = entry_of appends p" by blast
      then have "Attempts (appends ! plApp p) \<noteq> []" "appends ! plApp p \<in> set appends" using honest_placeD(1,2) [OF assms p(1)] by auto
      then show ?thesis using p(2) by auto
    qed
    then show ?thesis by (auto simp: checkPhantoms_def Let_def split: option.splits)
  qed
  ultimately show ?thesis using l(1,6) realtimeOrder_honest [OF assms l(3)] by (simp add: CheckLog_def)
qed

text \<open>Three appends, one resent without a key and one never answered.\<close>

definition demo_appends :: "Append list" where
  "demo_appends =
     [\<lparr>aValue = ''x'', aKey = ''k'', Attempts = [\<lparr>tOp = 0, tCall = 1, tReturn = 0, tOutcome = AUnknown, tOffset = 0\<rparr>,
        \<lparr>tOp = 1, tCall = 3, tReturn = 6, tOutcome = AOK, tOffset = 3\<rparr>], Idempotent = False, AfterKey = None, AfterLog = None\<rparr>,
      \<lparr>aValue = ''y'', aKey = ''k'', Attempts = [\<lparr>tOp = 2, tCall = 1, tReturn = 4, tOutcome = AOK, tOffset = 2\<rparr>],
        Idempotent = True, AfterKey = Some 1, AfterLog = None\<rparr>,
      \<lparr>aValue = ''z'', aKey = ''q'', Attempts = [\<lparr>tOp = 3, tCall = 2, tReturn = 5, tOutcome = AFailed, tOffset = 0\<rparr>],
        Idempotent = True, AfterKey = None, AfterLog = None\<rparr>]"

definition demo_run :: "placement list" where
  "demo_run = [\<lparr>plTime = 2, plOff = 1, plApp = 0, plAtt = 0\<rparr>, \<lparr>plTime = 3, plOff = 2, plApp = 1, plAtt = 0\<rparr>,
     \<lparr>plTime = 5, plOff = 3, plApp = 0, plAtt = 1\<rparr>]"

definition demo_entries :: "Entry list" where
  "demo_entries = [\<lparr>eOffset = 1, eKey = ''k'', eValue = ''x''\<rparr>, \<lparr>eOffset = 2, eKey = ''k'', eValue = ''y''\<rparr>,
     \<lparr>eOffset = 3, eKey = ''k'', eValue = ''x''\<rparr>]"

lemma demo_honest: "honest demo_appends demo_entries demo_run"
proof -
  have i3: "i < 3 \<longleftrightarrow> i = 0 \<or> i = 1 \<or> i = 2" for i :: nat by auto
  have "\<forall>i < length demo_run. honest_place demo_appends demo_run i"
    by (auto simp: demo_run_def demo_appends_def honest_place_def att_def Let_def lastOff_def less_Suc_eq numeral_eq_Suc)
  moreover have "acks_true demo_appends demo_run"
    by (auto simp: acks_true_def demo_run_def demo_appends_def less_Suc_eq numeral_eq_Suc)
  moreover have "set demo_entries = entry_of demo_appends ` set demo_run"
    by (simp add: demo_entries_def demo_run_def demo_appends_def entry_of_def)
  ultimately show ?thesis unfolding honest_def
    by (simp add: demo_run_def) (simp add: demo_appends_def demo_entries_def)
qed

theorem CheckLog_no_false_alarm_witness: "CheckLog demo_appends demo_entries = Some []"
  by (rule CheckLog_no_false_alarm [OF demo_honest])

subsection \<open>What a clean verdict guarantees\<close>

lemma calls_ge:
  assumes "sorted offs" "distinct offs" "k < length offs" "Attempts a \<noteq> []" "\<forall>t \<in> set (Attempts a). tCall t \<le> MaxInt64"
  shows "\<exists>t \<in> set (Attempts a). tCall t \<le> calls a offs ! k"
proof -
  obtain pg where inv: "placing_inv a offs (Attempts a) pg"
    and val: "calls a offs ! k = (let lft = sort (if leftOver pg = [] then refused pg else leftOver pg) in
       if placedAt pg ! k then outs pg ! k else if lft = [] then firstCall pg
       else lft ! min (length (filter Not (take k (placedAt pg)))) (length lft - 1))"
    using calls_shape [OF assms(1,2), of a] assms(3) by metis
  note I = inv [unfolded placing_inv_def]
  let ?lft = "sort (if leftOver pg = [] then refused pg else leftOver pg)"
  have min: "foldl min x xs = x \<or> foldl min x xs \<in> set xs" for x :: int and xs
  proof (induction xs arbitrary: x)
    case (Cons y ys)
    then show ?case using Cons.IH [of "min x y"] by (auto simp: min_def)
  qed simp
  have le: "foldl min x xs \<le> x" for x :: int and xs
  proof (induction xs arbitrary: x)
    case (Cons y ys)
    then show ?case using order_trans [OF Cons.IH [of "min x y"]] by simp
  qed simp
  consider "placedAt pg ! k" | "\<not> placedAt pg ! k" "?lft \<noteq> []" | "\<not> placedAt pg ! k" "?lft = []" by blast
  then show ?thesis
  proof cases
    case 1
    then obtain t where "t \<in> set (Attempts a)" "outs pg ! k = tCall t" using I assms(3) by blast
    then show ?thesis using val 1 by auto
  next
    case 2
    have "min n (length xs - 1) < length xs" if "xs \<noteq> []" for n and xs :: "int list" using that by (cases xs) auto
    note this [OF 2(2), of "length (filter Not (take k (placedAt pg)))"]
    then have "calls a offs ! k \<in> set ?lft" unfolding val Let_def using 2 by (simp only: if_False nth_mem)
    then show ?thesis using I by (auto split: if_splits)
  next
    case 3
    then have "calls a offs ! k = foldl min MaxInt64 (map tCall (Attempts a))" using val I by (simp add: Let_def)
    moreover obtain t ts where "Attempts a = t # ts" using assms(4) by (cases "Attempts a") auto
    moreover have "foldl min MaxInt64 (map tCall (t # ts)) = foldl min (tCall t) (map tCall ts)"
      using assms(5) \<open>Attempts a = t # ts\<close> by (simp add: min_absorb2)
    ultimately show ?thesis using min [of "tCall t" "map tCall ts"] by auto
  qed
qed

text \<open>
  C20: a clean verdict means what it says. When the checker finds nothing, offsets are
  positive and no two entries share one; every entry is of a value some client appended;
  every acked append is in the log where its ack said, under its key; no append that was
  refused every time is in the log, none is there more often than it had attempts not
  refused, an idempotent one at most once; every copy is under its append's key; and an
  append sent, in all its attempts, after another's ack had returned is in the log after it.
\<close>
theorem CheckLog_clean:
  assumes "CheckLog appends entries = Some []" and "\<forall>a \<in> set appends. \<forall>t \<in> set (Attempts a). tCall t \<le> MaxInt64"
  shows "distinct (map eOffset entries) \<and> (\<forall>e \<in> set entries. eOffset e \<noteq> 0) \<and>
    (\<forall>e \<in> set entries. \<exists>a \<in> set appends. Attempts a \<noteq> [] \<and> aValue a = eValue e) \<and>
    (\<forall>a \<in> set appends. Attempts a \<noteq> [] \<longrightarrow>
       (\<forall>t \<in> set (Attempts a). tOutcome t = AOK \<longrightarrow> (\<exists>e \<in> set entries. eOffset e = tOffset t \<and> eValue e = aValue a \<and> eKey e = aKey a)) \<and>
       length (filter (\<lambda>e. eValue e = aValue a) entries) \<le> (if Idempotent a then min 1 (could a) else could a) \<and>
       (\<forall>e \<in> set entries. eValue e = aValue a \<longrightarrow> eKey e = aKey a)) \<and>
    (\<forall>a \<in> set appends. \<forall>b \<in> set appends. \<forall>t \<in> set (Attempts a). \<forall>e \<in> set entries.
       Attempts b \<noteq> [] \<longrightarrow> tOutcome t = AOK \<longrightarrow> (\<forall>u \<in> set (Attempts b). tReturn t < tCall u) \<longrightarrow> eValue e = aValue b \<longrightarrow>
       tOffset t \<le> eOffset e)"
proof -
  obtain l where l0: "index entries = Some l" using assms(1) by (auto simp: CheckLog_def split: option.splits)
  have parts: "\<forall>a \<in> set appends. checkAppend l a = []" "checkPhantoms appends l = []" "collisions l = []" "realtimeOrder appends l = []"
    using assms(1) l0 by (auto simp: CheckLog_def)
  note d = index_collides [OF l0 parts(3)]
  have l: "\<And>o' e. byOffset l o' = Some e \<longleftrightarrow> e \<in> set entries \<and> eOffset e = o'"
    "\<And>v. byValue l v = offs_where (\<lambda>e. eValue e = v) entries" "offsets l = offs_where (\<lambda>_. True) entries"
    using index_good [OF d] l0 by (metis option.inject)+
  have ph: "\<exists>a \<in> set appends. Attempts a \<noteq> [] \<and> aValue a = eValue e" if "e \<in> set entries" for e
  proof -
    have "eOffset e \<in> set (offsets l)" "byOffset l (eOffset e) = Some e" using that l by auto
    then have "eValue e \<in> set (map aValue (filter (\<lambda>a. Attempts a \<noteq> []) appends))"
      using parts(2) by (force simp: checkPhantoms_def Let_def split: option.splits if_splits)
    then show ?thesis by auto
  qed
  have app: "checkCopies a (byValue l (aValue a)) = []" "checkAcks l a (\<lambda>_. None) (Attempts a) = []" "checkFiled l a (byValue l (aValue a)) = []"
    if "a \<in> set appends" "Attempts a \<noteq> []" for a
    using bspec [OF parts(1) that(1)] that(2) by (simp_all add: checkAppend_def Let_def)
  have acks: "\<exists>e \<in> set entries. eOffset e = tOffset t \<and> eValue e = aValue a \<and> eKey e = aKey a"
    if "a \<in> set appends" "t \<in> set (Attempts a)" "tOutcome t = AOK" for a t
  proof -
    have "Attempts a \<noteq> []" using that(2) by auto
    then show ?thesis using app(2) [OF that(1)] that(2,3) l(1) unfolding checkAcks_empty by blast
  qed
  have cop: "length (filter (\<lambda>e. eValue e = aValue a) entries) \<le> (if Idempotent a then min 1 (could a) else could a)"
    if "a \<in> set appends" "Attempts a \<noteq> []" for a
  proof -
    have "length (byValue l (aValue a)) = length (filter (\<lambda>e. eValue e = aValue a) entries)" using l(2) by (simp add: offs_where_def)
    then show ?thesis using app(1) [OF that] by (auto simp: checkCopies_def split: if_splits)
  qed
  have filed: "eKey e = aKey a" if a: "a \<in> set appends" "Attempts a \<noteq> []" "e \<in> set entries" "eValue e = aValue a" for a e
  proof -
    have o: "eOffset e \<in> set (byValue l (aValue a))" "byOffset l (eOffset e) = Some e" using a l by auto
    have "eKey e = aKey a \<or> (\<exists>t \<in> set (Attempts a). tOutcome t = AOK \<and> tOffset t = eOffset e)"
      using app(3) [OF a(1,2)] o by (force simp: checkFiled_def split: option.splits if_splits)
    then show ?thesis
    proof
      assume "\<exists>t \<in> set (Attempts a). tOutcome t = AOK \<and> tOffset t = eOffset e"
      then obtain e' where "e' \<in> set entries" "eOffset e' = eOffset e" "eKey e' = aKey a" using acks [OF a(1)] by metis
      then show ?thesis using d(1) a(3) by (metis distinct_map inj_onD)
    qed
  qed
  have rt: "tOffset t \<le> eOffset e"
    if a: "a \<in> set appends" "b \<in> set appends" "t \<in> set (Attempts a)" "e \<in> set entries" "Attempts b \<noteq> []" "tOutcome t = AOK"
      "\<forall>u \<in> set (Attempts b). tReturn t < tCall u" "eValue e = aValue b" for a b t e
  proof -
    let ?offs = "byValue l (aValue b)"
    have so: "sorted ?offs" "distinct ?offs" using l(2) distinct_offs_where [OF d(1)] by simp_all
    have "eOffset e \<in> set ?offs" using l(2) a(4,8) by auto
    then obtain k where k: "k < length ?offs" "?offs ! k = eOffset e" by (auto simp: in_set_conv_nth)
    obtain u where "u \<in> set (Attempts b)" "tCall u \<le> calls b ?offs ! k" using calls_ge [OF so k(1) a(5)] assms(2) a(2) by blast
    then have lt: "tReturn t < calls b ?offs ! k" using a(7) by force
    have len: "length (calls b ?offs) = length ?offs" using calls_shape [OF so, of b] by metis
    have "(b, calls b ?offs ! k, ?offs ! k) \<in> set (byCall appends l)"
    proof -
      have "(calls b ?offs ! k, ?offs ! k) \<in> set (zip (calls b ?offs) ?offs)" using k(1) len by (auto simp: set_zip)
      then show ?thesis using a(2,5) k(1) by (force simp: byCall_def Let_def)
    qed
    moreover obtain x where "x \<in> set entries" "eOffset x = tOffset t" "eValue x = aValue a" using acks [OF a(1,3,6)] by blast
    then have "tOffset t \<in> set (byValue l (aValue a))" using l(2) by force
    then have "(a, tReturn t, tOffset t) \<in> set (byRet appends l)"
      using a(1,3,6) by (force simp: byRet_def Let_def bsearch_def)
    ultimately show ?thesis using parts(4) lt k(2) unfolding realtimeOrder_empty by force
  qed
  show ?thesis using d ph acks cop filed rt by blast
qed

theorem CheckLog_clean_witness:
  "distinct (map eOffset demo_entries) \<and> (\<exists>e \<in> set demo_entries. eOffset e = 3 \<and> eValue e = ''x'')"
proof -
  have c: "CheckLog demo_appends demo_entries = Some []" by code_simp
  have "\<forall>a \<in> set demo_appends. \<forall>t \<in> set (Attempts a). tCall t \<le> MaxInt64" by (simp add: demo_appends_def MaxInt64_def)
  note r = CheckLog_clean [OF c this]
  have "\<exists>e \<in> set demo_entries. eOffset e = tOffset t \<and> eValue e = aValue a \<and> eKey e = aKey a"
    if "a \<in> set demo_appends" "t \<in> set (Attempts a)" "tOutcome t = AOK" for a t
    using r that by (metis empty_iff empty_set)
  from this [of "demo_appends ! 0" "Attempts (demo_appends ! 0) ! 1"] have "\<exists>e \<in> set demo_entries. eOffset e = 3 \<and> eValue e = ''x''"
    by (auto simp: demo_appends_def)
  then show ?thesis using r by blast
qed

end
