(* ===== verification/Log_Reads.thy ===== *)
theory Log_Reads
  imports Log_Sound "HOL-Library.List_Lexorder" "HOL-Library.Char_ord"
begin

text \<open>
  Reads of a key's last entry against the log: \<^verbatim>\<open>CheckReads\<close>, \<^verbatim>\<open>windows\<close> and \<^verbatim>\<open>explain\<close> of
  \<^verbatim>\<open>src/logcheck/logcheck.go\<close>, on the search of the linearize package. The context each
  key's search is given is a parameter, as it stands by then. A search that does not
  return, or panics, is \<open>None\<close>.
\<close>

subsection \<open>Windows\<close>

record Read =
  rdOp :: int
  rdKey :: string
  rdCall :: int
  rdReturn :: int
  rdOffset :: nat
  rdValue :: string

record readIn =
  riOff :: nat
  riOp :: int
  riRead :: bool

type_synonym window = "int \<times> int"

definition MinInt64 :: int where
  "MinInt64 = - (2 ^ 63)"

definition ownHi :: "Append \<Rightarrow> nat \<Rightarrow> int" where
  "ownHi a off = foldl (\<lambda>hi t. if tOutcome t = AOK \<and> tOffset t = off then min hi (tReturn t) else hi) Pending (Attempts a)"

definition ownOf :: "log \<Rightarrow> (nat \<Rightarrow> window option) \<Rightarrow> Append \<Rightarrow> nat \<Rightarrow> window option" where
  "ownOf l m a = (if Attempts a = [] then m
     else let offs = byValue l (aValue a) in
       foldl (\<lambda>m (call, off). m(off \<mapsto> (call, ownHi a off))) m (zip (calls a offs) offs))"

definition own :: "Append list \<Rightarrow> log \<Rightarrow> nat \<Rightarrow> window option" where
  "own appends l = foldl (ownOf l) (\<lambda>_. None) appends"

fun floors :: "(nat \<Rightarrow> window option) \<Rightarrow> int \<Rightarrow> nat list \<Rightarrow> (nat \<times> int) list" where
  "floors ow f [] = []"
| "floors ow f (off # offs) =
     (let f' = (case ow off of Some w \<Rightarrow> max f (fst w) | None \<Rightarrow> f) in (off, f') # floors ow f' offs)"

definition floorAt :: "(nat \<times> int) list \<Rightarrow> nat \<Rightarrow> int" where
  "floorAt fs off = (case map_of fs off of Some f \<Rightarrow> f | None \<Rightarrow> 0)"

definition seeRead :: "(nat \<Rightarrow> int) \<Rightarrow> (nat \<Rightarrow> int option) \<Rightarrow> Read \<Rightarrow> nat \<Rightarrow> int option" where
  "seeRead flo sn r = (if rdOffset r = 0 \<or> rdReturn r < flo (rdOffset r) then sn
     else (case sn (rdOffset r) of
         None \<Rightarrow> sn(rdOffset r \<mapsto> rdReturn r)
       | Some b \<Rightarrow> if rdReturn r < b then sn(rdOffset r \<mapsto> rdReturn r) else sn))"

fun backward :: "(nat \<Rightarrow> window option) \<Rightarrow> (nat \<Rightarrow> int) \<Rightarrow> (nat \<Rightarrow> int option) \<Rightarrow> int \<Rightarrow> nat list \<Rightarrow> (nat \<times> window) list" where
  "backward ow flo sn ceil [] = []"
| "backward ow flo sn ceil (off # offs) =
     (let ceil = (case sn off of Some b \<Rightarrow> min ceil b | None \<Rightarrow> ceil) in
      case ow off of
        None \<Rightarrow> backward ow flo sn ceil offs
      | Some w \<Rightarrow>
          (let ceil = min ceil (snd w);
               w = (if flo off \<le> ceil then (flo off, ceil) else w)
           in (off, w) # backward ow flo sn ceil offs))"

definition windows :: "Append list \<Rightarrow> log \<Rightarrow> Read list \<Rightarrow> (nat \<times> window) list" where
  "windows appends l reads =
     (let ow = own appends l; flo = floorAt (floors ow MinInt64 (offsets l)) in
      backward ow flo (foldl (seeRead flo) (\<lambda>_. None) reads) Pending (rev (offsets l)))"

subsection \<open>One key's history\<close>

definition dirty :: "log \<Rightarrow> Read \<Rightarrow> bool" where
  "dirty l r \<longleftrightarrow> rdOffset r \<noteq> 0 \<and>
     (case byOffset l (rdOffset r) of None \<Rightarrow> True | Some e \<Rightarrow> eValue e \<noteq> rdValue r \<or> eKey e \<noteq> rdKey r)"

definition dirtyRead :: "Read \<Rightarrow> Anomaly" where
  "dirtyRead r = \<lparr>Kind = ''dirty-read'', anValue = rdValue r, anKey = rdKey r, anOps = [rdOp r],
     Detail = (''a read of %q returned %s at %d, which the log does not hold there'', [FStr (rdKey r), FStr (rdValue r), FNat (rdOffset r)])\<rparr>"

definition keyCopies :: "log \<Rightarrow> string \<Rightarrow> Append \<Rightarrow> nat list" where
  "keyCopies l k a = (if Attempts a = [] then []
     else filter (\<lambda>off. case byOffset l off of Some e \<Rightarrow> eKey e = k | None \<Rightarrow> False) (byValue l (aValue a)))"

definition placedOffs :: "Append list \<Rightarrow> log \<Rightarrow> string \<Rightarrow> nat list" where
  "placedOffs appends l k = sort (concat (map (keyCopies l k) appends))"

definition windowAt :: "(nat \<times> window) list \<Rightarrow> nat \<Rightarrow> window" where
  "windowAt ws off = (case map_of ws off of Some w \<Rightarrow> w | None \<Rightarrow> (0, 0))"

definition appendOp :: "(nat \<times> window) list \<Rightarrow> Append \<Rightarrow> nat \<Rightarrow> (readIn, nat) Op" where
  "appendOp landed a off = \<lparr>Client = 0, Call = fst (windowAt landed off), Return = snd (windowAt landed off), Group = 0,
     Input = \<lparr>riOff = off, riOp = tOp (hd (Attempts a)), riRead = False\<rparr>, Output = 0\<rparr>"

definition readOp :: "Read \<Rightarrow> (readIn, nat) Op" where
  "readOp r = \<lparr>Client = 0, Call = rdCall r, Return = rdReturn r, Group = 0,
     Input = \<lparr>riOff = 0, riOp = rdOp r, riRead = True\<rparr>, Output = rdOffset r\<rparr>"

definition keyHistory :: "Append list \<Rightarrow> log \<Rightarrow> Read list \<Rightarrow> (nat \<times> window) list \<Rightarrow> string \<Rightarrow> (readIn, nat) Op list" where
  "keyHistory appends l clean landed k =
     concat (map (\<lambda>a. map (appendOp landed a) (keyCopies l k a)) appends) @
     map readOp (filter (\<lambda>r. rdKey r = k \<and> \<not> (rdOffset r \<noteq> 0 \<and> \<not> snd (bsearch (placedOffs appends l k) (rdOffset r)))) clean)"

definition last_entry :: "nat list \<Rightarrow> nat \<Rightarrow> nat" where
  "last_entry offs pos = (if pos = 0 then 0 else offs ! (pos - 1))"

definition read_model :: "nat list \<Rightarrow> (nat, readIn, nat) Model" where
  "read_model offs = \<lparr>Init = 0,
     Step = (\<lambda>pos inp out. if riRead inp then (last_entry offs pos = out, pos)
        else (pos < length offs \<and> offs ! pos = riOff inp, pos + 1)),
     Same = None\<rparr>"

definition gap :: "(readIn, nat) Op \<Rightarrow> (readIn, nat) Op \<Rightarrow> int" where
  "gap stuck x = (if Return x < Call stuck then wrap64 (Call stuck - Return x)
     else if Return stuck < Call x then wrap64 (Call x - Return stuck) else 0)"

definition explain :: "string \<Rightarrow> (readIn, nat) Op list \<Rightarrow> nat Result \<Rightarrow> nat list \<Rightarrow> Anomaly" where
  "explain key hist res offs =
     (let i = nat (Stuck res); stuck = hist ! i; st = (case State res of Some s \<Rightarrow> s | None \<Rightarrow> 0);
          near = sort_key (gap stuck) (map ((!) hist) (filter (\<lambda>j. j \<noteq> i) [0..<length hist]));
          nearOps = map (\<lambda>x. riOp (Input x)) (take 8 near)
      in \<lparr>Kind = ''nonlinearizable-read'', anValue = [], anKey = key, anOps = riOp (Input stuck) # nearOps,
          Detail = (''key %q: after %d appends (the last at %d), no order places op %d'' @
              (if riRead (Input stuck) then '', a read [%d,%d] of the entry at %d'' else '', an append at %d'') @
              (if near \<noteq> [] then ''; near it, ops'' @ concat (map (\<lambda>_. '' %d'') nearOps) else []),
            [FStr key, FNat st, FNat (last_entry offs st), FInt (riOp (Input stuck))] @
              (if riRead (Input stuck) then [FInt (Call stuck), FInt (Return stuck), FNat (Output stuck)] else [FNat (riOff (Input stuck))]) @
              map FInt nearOps)\<rparr>)"

definition checkKey :: "ctx \<Rightarrow> Limits \<Rightarrow> string \<Rightarrow> (readIn, nat) Op list \<Rightarrow> nat list \<Rightarrow>
    (Anomaly list \<times> (string \<times> check_error option) list) option" where
  "checkKey ctx lims key hist offs = (case CheckWithin ctx (read_model offs) hist lims of
     None \<Rightarrow> None
   | Some Panics \<Rightarrow> None
   | Some (Returns res err) \<Rightarrow> (case Outcome res of
       Illegal \<Rightarrow> Some ([explain key hist res offs], [])
     | Unknown \<Rightarrow> Some ([], [(key, err)])
     | Ok \<Rightarrow> Some ([], [])))"

fun checkKeys :: "(string \<Rightarrow> ctx) \<Rightarrow> Limits \<Rightarrow> (string \<Rightarrow> (readIn, nat) Op list) \<Rightarrow> (string \<Rightarrow> nat list) \<Rightarrow> string list \<Rightarrow>
    (Anomaly list \<times> (string \<times> check_error option) list) option" where
  "checkKeys ctx lims hist offs [] = Some ([], [])"
| "checkKeys ctx lims hist offs (k # ks) =
     (case checkKey (ctx k) lims k (hist k) (offs k) of
        None \<Rightarrow> None
      | Some (bad, unknown) \<Rightarrow> (case checkKeys ctx lims hist offs ks of
          None \<Rightarrow> None
        | Some (bad', unknown') \<Rightarrow> Some (bad @ bad', unknown @ unknown')))"

definition keysOf :: "log \<Rightarrow> Read list \<Rightarrow> (string \<Rightarrow> (readIn, nat) Op list) \<Rightarrow> string list" where
  "keysOf l clean hist = sort (remdups (filter (\<lambda>k. hist k \<noteq> [])
     (List.map_filter (\<lambda>off. map_option eKey (byOffset l off)) (offsets l) @ map rdKey clean)))"

definition CheckReads :: "(string \<Rightarrow> ctx) \<Rightarrow> Append list \<Rightarrow> Entry list \<Rightarrow> Read list \<Rightarrow> Limits \<Rightarrow>
    (Anomaly list \<times> (string \<times> check_error option) list) option" where
  "CheckReads ctx appends entries reads lims = (case index entries of
     None \<Rightarrow> None
   | Some l \<Rightarrow>
       (let bad = map dirtyRead (filter (dirty l) reads);
            clean = filter (\<lambda>r. \<not> dirty l r) reads;
            landed = windows appends l clean;
            hist = keyHistory appends l clean landed
        in case checkKeys ctx lims hist (placedOffs appends l) (keysOf l clean hist) of
             None \<Rightarrow> None
           | Some (bad', unknown) \<Rightarrow> Some (bad @ bad', unknown)))"

subsection \<open>Linearizing by points\<close>

fun legal_list :: "('s, 'i, 'o) Model \<Rightarrow> 's \<Rightarrow> ('i, 'o) Op list \<Rightarrow> bool" where
  "legal_list m s [] = True"
| "legal_list m s (x # xs) = (case Step m s (Input x) (Output x) of (ok, s') \<Rightarrow> ok \<and> legal_list m s' xs)"

lemma legal_run_list: "legal_run m ops s ord \<noteq> None \<longleftrightarrow> legal_list m s (map ((!) ops) ord)"
  by (induction ord arbitrary: s) (auto split: prod.splits)

text \<open>
  A history whose operations each have a point between call and return is linearizable when
  every way to line them up that follows the points is legal.
\<close>

lemma linearizable_by_points:
  fixes key :: "'l \<Rightarrow> 'k :: linorder" and pt :: "'l \<Rightarrow> int"
  assumes inside: "\<And>x. x \<in> set labs \<Longrightarrow> Call (opOf x) \<le> pt x \<and> pt x \<le> Return (opOf x)"
    and mono: "\<And>x y. x \<in> set labs \<Longrightarrow> y \<in> set labs \<Longrightarrow> key x \<le> key y \<Longrightarrow> pt x \<le> pt y"
    and nogroup: "\<And>x. x \<in> set labs \<Longrightarrow> Group (opOf x) = 0"
    and legal: "\<And>ys. mset ys = mset labs \<Longrightarrow> sorted (map key ys) \<Longrightarrow> legal_list m (Init m) (map opOf ys)"
  shows "linearizable m (map opOf labs)"
proof -
  let ?ops = "map opOf labs" and ?ord = "sort_key (\<lambda>j. key (labs ! j)) [0..<length labs]"
  let ?ys = "map ((!) labs) ?ord"
  have ord: "distinct ?ord" "set ?ord = {..<length ?ops}" by auto
  have nth: "?ord ! a < length labs" if "a < length ?ord" for a using nth_mem [OF that] by simp
  have op: "?ops ! (?ord ! a) = opOf (?ys ! a)" "?ys ! a \<in> set labs" if "a < length ?ord" for a
    using nth [OF that] that by simp_all
  have s: "sorted (map key ?ys)" by (simp add: o_def)
  have "real_time ?ops ?ord"
    unfolding real_time_def
  proof (intro allI impI)
    fix a b assume a: "a < length ?ord" and b: "b < length ?ord" and lt: "Return (?ops ! (?ord ! a)) < Call (?ops ! (?ord ! b))"
    show "a < b"
    proof (rule ccontr)
      assume "\<not> a < b"
      then have "key (?ys ! b) \<le> key (?ys ! a)" using s a b sorted_nth_mono [OF s, of b a] by simp
      then have "pt (?ys ! b) \<le> pt (?ys ! a)" using mono op(2) [OF a] op(2) [OF b] by blast
      moreover have "pt (?ys ! a) \<le> Return (opOf (?ys ! a))" "Call (opOf (?ys ! b)) \<le> pt (?ys ! b)"
        using inside op(2) [OF a] op(2) [OF b] by blast+
      ultimately show False using lt unfolding op(1) [OF a] op(1) [OF b] by linarith
    qed
  qed
  moreover have "grp ?ops (?ord ! a) = 0" if "a < length ?ord" for a
    using nogroup [OF op(2) [OF that]] op(1) [OF that] by (simp add: op_group_def)
  then have "groups_together ?ops ?ord" unfolding groups_together_def by (metis order.strict_trans)
  moreover have "mset ?ys = mset labs"
  proof -
    have "mset ?ys = image_mset ((!) labs) (mset [0..<length labs])" by (simp add: image_mset.compositionality)
    also have "\<dots> = mset (map ((!) labs) [0..<length labs])" by simp
    finally show ?thesis by (simp only: map_nth)
  qed
  then have "legal_list m (Init m) (map opOf ?ys)" using legal s by blast
  then have "legal_run m ?ops (Init m) ?ord \<noteq> None"
  proof -
    have "map ((!) ?ops) ?ord = map opOf ?ys" using nth by (intro nth_equalityI) auto
    from this [symmetric] show ?thesis using \<open>legal_list m (Init m) (map opOf ?ys)\<close> unfolding legal_run_list by (simp only:)
  qed
  ultimately show ?thesis using ord unfolding linearizable_def linearization_def by blast
qed

subsection \<open>Folds that only add or lower\<close>

lemma foldl_upd_Some:
  "foldl (\<lambda>m (c, x). m(x \<mapsto> (c, g x))) m ps y = Some w \<Longrightarrow> m y = Some w \<or> (\<exists>c. (c, y) \<in> set ps \<and> w = (c, g y))"
proof (induction ps arbitrary: m)
  case (Cons cx ps)
  obtain c x where cx: "cx = (c, x)" by fastforce
  from Cons.IH [of "m(x \<mapsto> (c, g x))"] Cons.prems show ?case by (auto simp: cx split: if_splits)
qed simp

lemma foldl_upd_dom:
  "m y \<noteq> None \<or> y \<in> snd ` set ps \<Longrightarrow> foldl (\<lambda>m (c, x). m(x \<mapsto> (c, g x))) m ps y \<noteq> None"
proof (induction ps arbitrary: m)
  case (Cons cx ps)
  obtain c x where cx: "cx = (c, x)" by fastforce
  from Cons.IH [of "m(x \<mapsto> (c, g x))"] Cons.prems show ?case by (auto simp: cx)
qed simp

lemma own_Some:
  "foldl (ownOf l) m appends off = Some w \<Longrightarrow> m off = Some w \<or>
    (\<exists>a c. a \<in> set appends \<and> Attempts a \<noteq> [] \<and> (c, off) \<in> set (zip (calls a (byValue l (aValue a))) (byValue l (aValue a))) \<and> w = (c, ownHi a off))"
proof (induction appends arbitrary: m)
  case (Cons a appends)
  from Cons.IH [of "ownOf l m a"] Cons.prems have "ownOf l m a off = Some w \<or>
      (\<exists>a c. a \<in> set appends \<and> Attempts a \<noteq> [] \<and> (c, off) \<in> set (zip (calls a (byValue l (aValue a))) (byValue l (aValue a))) \<and> w = (c, ownHi a off))"
    by simp
  moreover have "ownOf l m a off = Some w \<Longrightarrow> m off = Some w \<or> Attempts a \<noteq> [] \<and>
      (\<exists>c. (c, off) \<in> set (zip (calls a (byValue l (aValue a))) (byValue l (aValue a))) \<and> w = (c, ownHi a off))"
    using foldl_upd_Some [of "ownHi a" m "zip (calls a (byValue l (aValue a))) (byValue l (aValue a))" off w]
    by (auto simp: ownOf_def Let_def split: if_splits)
  ultimately show ?case by auto
qed simp

lemma own_dom:
  assumes "m off \<noteq> None \<or> (\<exists>a \<in> set appends. Attempts a \<noteq> [] \<and> off \<in> snd ` set (zip (calls a (byValue l (aValue a))) (byValue l (aValue a))))"
  shows "foldl (ownOf l) m appends off \<noteq> None"
  using assms
proof (induction appends arbitrary: m)
  case (Cons a appends)
  have "ownOf l m a off \<noteq> None" if "m off \<noteq> None \<or> Attempts a \<noteq> [] \<and> off \<in> snd ` set (zip (calls a (byValue l (aValue a))) (byValue l (aValue a)))"
    using that foldl_upd_dom [of m off "zip (calls a (byValue l (aValue a))) (byValue l (aValue a))" "ownHi a"]
    by (auto simp: ownOf_def Let_def)
  then show ?case using Cons.IH [of "ownOf l m a"] Cons.prems by auto
qed simp

lemma ownHi_bounds:
  assumes "\<forall>t \<in> set (Attempts a). tOutcome t = AOK \<longrightarrow> tOffset t = off \<longrightarrow> T \<le> tReturn t" "T \<le> Pending"
  shows "T \<le> ownHi a off" "ownHi a off \<le> Pending"
proof -
  have "T \<le> hi \<Longrightarrow> \<forall>t \<in> set ts. tOutcome t = AOK \<longrightarrow> tOffset t = off \<longrightarrow> T \<le> tReturn t \<Longrightarrow>
      T \<le> foldl (\<lambda>hi t. if tOutcome t = AOK \<and> tOffset t = off then min hi (tReturn t) else hi) hi ts \<and>
      foldl (\<lambda>hi t. if tOutcome t = AOK \<and> tOffset t = off then min hi (tReturn t) else hi) hi ts \<le> hi" for hi ts
  proof (induction ts arbitrary: hi)
    case (Cons t ts)
    let ?hi = "if tOutcome t = AOK \<and> tOffset t = off then min hi (tReturn t) else hi"
    have "T \<le> ?hi" "?hi \<le> hi" using Cons.prems by auto
    then show ?case using Cons.IH [of ?hi] Cons.prems(2) by auto
  qed simp
  then show "T \<le> ownHi a off" "ownHi a off \<le> Pending" using assms by (auto simp: ownHi_def)
qed

lemma fst_floors [simp]: "map fst (floors ow f offs) = offs"
  by (induction offs arbitrary: f) (auto simp: Let_def)

lemma floors_bounds:
  assumes "sorted_wrt (<) offs" "(off, v) \<in> set (floors ow f offs)" "f \<le> T" "\<And>x w. x \<in> set offs \<Longrightarrow> x \<le> off \<Longrightarrow> ow x = Some w \<Longrightarrow> fst w \<le> T"
  shows "f \<le> v \<and> v \<le> T"
  using assms
proof (induction offs arbitrary: f)
  case (Cons y ys)
  let ?f = "case ow y of Some w \<Rightarrow> max f (fst w) | None \<Rightarrow> f"
  have "off \<in> set (map fst (floors ow f (y # ys)))" using Cons.prems(2) by force
  then have "off = y \<or> off \<in> set ys" unfolding fst_floors by simp
  then have "y \<le> off" using Cons.prems(1) by auto
  then have T: "?f \<le> T" using Cons.prems(3) Cons.prems(4) [of y] by (cases "ow y") simp_all
  have f: "f \<le> ?f" by (auto split: option.splits)
  show ?case
  proof (cases "(off, v) = (y, ?f)")
    case True
    then show ?thesis using T f by simp
  next
    case False
    then have "(off, v) \<in> set (floors ow ?f ys)" using Cons.prems(2) by (auto simp: Let_def)
    moreover have "sorted_wrt (<) ys" using Cons.prems(1) by simp
    moreover have "fst w \<le> T" if "x \<in> set ys" "x \<le> off" "ow x = Some w" for x w using Cons.prems(4) [of x w] that by simp
    ultimately have "?f \<le> v \<and> v \<le> T" using Cons.IH [of ?f] T by blast
    then show ?thesis using f by linarith
  qed
qed simp

lemma seen_Some:
  "foldl (seeRead flo) sn reads off = Some b \<Longrightarrow> sn off = Some b \<or> (\<exists>r \<in> set reads. rdOffset r = off \<and> off \<noteq> 0 \<and> b = rdReturn r)"
proof (induction reads arbitrary: sn)
  case (Cons r reads)
  have "seeRead flo sn r off = Some b \<Longrightarrow> sn off = Some b \<or> (rdOffset r = off \<and> off \<noteq> 0 \<and> b = rdReturn r)"
    by (auto simp: seeRead_def split: if_splits option.splits)
  then show ?case using Cons.IH [of "seeRead flo sn r"] Cons.prems by auto
qed simp

lemma backward_window:
  assumes "sorted_wrt (>) offs" "off \<in> set offs" "ow off \<noteq> None" "T \<le> c" "flo off \<le> T"
    and "\<And>x b. x \<in> set offs \<Longrightarrow> off \<le> x \<Longrightarrow> sn x = Some b \<Longrightarrow> T \<le> b"
    and "\<And>x w. x \<in> set offs \<Longrightarrow> off \<le> x \<Longrightarrow> ow x = Some w \<Longrightarrow> T \<le> snd w"
  shows "\<exists>h. map_of (backward ow flo sn c offs) off = Some (flo off, h) \<and> T \<le> h \<and> h \<le> c"
  using assms
proof (induction offs arbitrary: c)
  case (Cons y ys)
  have y: "off \<le> y" using Cons.prems(1,2) by auto
  let ?c = "case sn y of Some b \<Rightarrow> min c b | None \<Rightarrow> c"
  have c: "T \<le> ?c" "?c \<le> c" using Cons.prems(4,6) y by (auto split: option.splits)
  show ?case
  proof (cases "y = off")
    case True
    then obtain w where w: "ow off = Some w" using Cons.prems(3) by blast
    have "T \<le> min ?c (snd w)" using c(1) Cons.prems(7) [of off w] w True by simp
    then show ?thesis using w True c Cons.prems(5) by (auto simp: Let_def)
  next
    case False
    have IH: "\<exists>h. map_of (backward ow flo sn c' ys) off = Some (flo off, h) \<and> T \<le> h \<and> h \<le> c'" if "T \<le> c'" for c'
    proof (rule Cons.IH)
      show "sorted_wrt (>) ys" "off \<in> set ys" using Cons.prems(1,2) False by auto
      show "T \<le> b" if "x \<in> set ys" "off \<le> x" "sn x = Some b" for x b using Cons.prems(6) [of x b] that by simp
      show "T \<le> snd w" if "x \<in> set ys" "off \<le> x" "ow x = Some w" for x w using Cons.prems(7) [of x w] that by simp
    qed (use Cons.prems(3,5) that in simp_all)
    show ?thesis
    proof (cases "ow y")
      case None
      then show ?thesis using IH [OF c(1)] c(2) by (auto simp: Let_def)
    next
      case (Some w)
      then have "T \<le> min ?c (snd w)" using c(1) Cons.prems(7) [of y w] y by simp
      from IH [OF this] show ?thesis using c(2) Some False by (auto simp: Let_def)
    qed
  qed
qed simp

end
