(* ===== verification/Log_Reads_Sound.thy ===== *)
theory Log_Reads_Sound
  imports Log_Reads "HOL-Library.Product_Lexorder"
begin

text \<open>
  What the verdict on reads means. A run of an honest log with reads is one in which each
  read looked at the log at one instant between its call and its return and returned the
  last entry its key had then. On such a run \<^verbatim>\<open>CheckReads\<close> reports nothing: the windows it
  draws hold the instants entries landed, and those instants are a linearization.
\<close>

subsection \<open>Honest reads\<close>

abbreviation keyOf :: "Append list \<Rightarrow> placement \<Rightarrow> string" where
  "keyOf appends p \<equiv> aKey (appends ! plApp p)"

definition read_at :: "Append list \<Rightarrow> placement list \<Rightarrow> Read \<Rightarrow> nat \<Rightarrow> int \<Rightarrow> bool" where
  "read_at appends run r n T \<longleftrightarrow>
     (let ps = filter (\<lambda>p. keyOf appends p = rdKey r) (take n run) in
      n \<le> length run \<and> rdCall r \<le> T \<and> T \<le> rdReturn r \<and>
      (\<forall>p \<in> set (take n run). plTime p \<le> T) \<and> (\<forall>p \<in> set (drop n run). T \<le> plTime p) \<and>
      rdOffset r = lastOff ps \<and> (ps \<noteq> [] \<longrightarrow> rdValue r = aValue (appends ! plApp (last ps))))"

definition honest_reads :: "Append list \<Rightarrow> placement list \<Rightarrow> Read list \<Rightarrow> bool" where
  "honest_reads appends run reads \<longleftrightarrow> (\<forall>r \<in> set reads. \<exists>n T. read_at appends run r n T)"

definition int64_run :: "Append list \<Rightarrow> placement list \<Rightarrow> Read list \<Rightarrow> bool" where
  "int64_run appends run reads \<longleftrightarrow> (\<forall>p \<in> set run. is_int64 (tCall (att appends p)) \<and> plTime p \<le> MaxInt64) \<and>
     (\<forall>r \<in> set reads. is_int64 (rdCall r) \<and> is_int64 (rdReturn r))"

definition indexes :: "Append list \<Rightarrow> placement list \<Rightarrow> log \<Rightarrow> bool" where
  "indexes appends run l \<longleftrightarrow>
     (\<forall>x e. byOffset l x = Some e \<longleftrightarrow> (\<exists>p \<in> set run. e = entry_of appends p \<and> plOff p = x)) \<and>
     (\<forall>i < length appends. byValue l (aValue (appends ! i)) = copies appends run i) \<and>
     offsets l = map plOff run"

lemma honest_index:
  assumes h: "honest appends entries run"
  obtains l where "index entries = Some l" "indexes appends run l"
proof -
  obtain l where l: "index entries = Some l" "\<And>o' e. byOffset l o' = Some e \<longleftrightarrow> e \<in> set entries \<and> eOffset e = o'"
    "\<And>v. byValue l v = offs_where (\<lambda>e. eValue e = v) entries" "\<And>k. byKey l k = offs_where (\<lambda>e. eKey e = k) entries"
    "offsets l = offs_where (\<lambda>_. True) entries" "collisions l = []"
    using index_good [OF honest_offsets(1,2) [OF h]] by blast
  have "set entries = entry_of appends ` set run" using h by (simp add: honest_def)
  then have "byOffset l x = Some e \<longleftrightarrow> (\<exists>p \<in> set run. e = entry_of appends p \<and> plOff p = x)" for x e
    unfolding l(2) by auto
  moreover have "offsets l = map plOff run" unfolding l(5) honest_offsets(3) [OF h] by simp
  ultimately have "indexes appends run l" unfolding indexes_def l(3) using honest_copies [OF h] by blast
  with l(1) show ?thesis by (rule that)
qed

lemma read_atD:
  assumes "read_at appends run r n T"
  shows "n \<le> length run" "rdCall r \<le> T" "T \<le> rdReturn r" "p \<in> set (take n run) \<Longrightarrow> plTime p \<le> T" "p \<in> set (drop n run) \<Longrightarrow> T \<le> plTime p"
    "rdOffset r = lastOff (filter (\<lambda>p. keyOf appends p = rdKey r) (take n run))"
  using assms by (auto simp: read_at_def Let_def)

text \<open>The entry a read returned, if it returned one.\<close>

lemma read_entry:
  assumes h: "honest appends entries run" and r: "read_at appends run r n T" and nz: "rdOffset r \<noteq> 0"
  obtains p where "p \<in> set (take n run)" "p \<in> set run" "plOff p = rdOffset r" "keyOf appends p = rdKey r" "rdValue r = aValue (appends ! plApp p)"
proof -
  let ?ps = "filter (\<lambda>p. keyOf appends p = rdKey r) (take n run)"
  have off: "rdOffset r = lastOff ?ps" using r by (simp add: read_at_def Let_def)
  then have ne: "?ps \<noteq> []" using nz by (auto simp: lastOff_def)
  then have "last ?ps \<in> set ?ps" by (rule last_in_set)
  then have "last ?ps \<in> set (take n run)" "keyOf appends (last ?ps) = rdKey r" by auto
  moreover have "last ?ps \<in> set run" using calculation(1) by (rule in_set_takeD)
  moreover have "plOff (last ?ps) = rdOffset r" using off ne by (simp add: lastOff_def)
  moreover have "rdValue r = aValue (appends ! plApp (last ?ps))" using r ne by (simp add: read_at_def Let_def)
  ultimately show ?thesis by (intro that)
qed

lemma honest_not_dirty:
  assumes "honest appends entries run" "indexes appends run l" "read_at appends run r n T"
  shows "\<not> dirty l r"
proof (cases "rdOffset r = 0")
  case False
  obtain p where p: "p \<in> set run" "plOff p = rdOffset r" "keyOf appends p = rdKey r" "rdValue r = aValue (appends ! plApp p)"
    using read_entry [OF assms(1,3) False] by metis
  have "byOffset l (rdOffset r) = Some (entry_of appends p)" using assms(2) p(1,2) unfolding indexes_def by blast
  then show ?thesis using p(3,4) by (simp add: dirty_def)
qed (simp add: dirty_def)

subsection \<open>The windows hold the instants\<close>

lemma own_holds:
  assumes h: "honest appends entries run" and l: "indexes appends run l" and p: "p \<in> set run" and w: "own appends l (plOff p) = Some w"
    and T: "plTime p \<le> MaxInt64"
  shows "fst w \<le> plTime p" "plTime p \<le> snd w" "snd w \<le> Pending"
proof -
  obtain a c where a: "a \<in> set appends" "w = (c, ownHi a (plOff p))"
    "(c, plOff p) \<in> set (zip (calls a (byValue l (aValue a))) (byValue l (aValue a)))"
    using own_Some [of l "\<lambda>_. None" appends "plOff p" w] w unfolding own_def by blast
  obtain i where i: "i < length appends" "a = appends ! i" using a(1) by (auto simp: in_set_conv_nth)
  have v: "byValue l (aValue a) = copies appends run i" using l i by (simp add: indexes_def)
  obtain k where k: "k < length (copies appends run i)" "copies appends run i ! k = plOff p" "calls a (copies appends run i) ! k = c"
    using a(3) unfolding v set_zip by auto
  have "c \<le> plTime p" using calls_le [OF h i(1) k(1) p k(2) [symmetric]] k(3) i(2) by simp
  then show "fst w \<le> plTime p" using a(2) by simp
  have "plTime p \<le> tReturn t" if t: "t \<in> set (Attempts a)" "tOutcome t = AOK" "tOffset t = plOff p" for t
  proof -
    obtain q where q: "q \<in> set run" "plOff q = tOffset t" "plTime q \<le> tReturn t"
      using honest_ack [OF h i(1), of t] t i(2) by metis
    have "q = p" using honest_order(1) [OF h q(1) p] q(2) t(3) by simp
    then show ?thesis using q(3) by simp
  qed
  then have "\<forall>t \<in> set (Attempts a). tOutcome t = AOK \<longrightarrow> tOffset t = plOff p \<longrightarrow> plTime p \<le> tReturn t" by blast
  from ownHi_bounds [OF this] T show "plTime p \<le> snd w" "snd w \<le> Pending" using a(2) by (simp_all add: Pending_def)
qed

lemma own_covers:
  assumes h: "honest appends entries run" and l: "indexes appends run l" and p: "p \<in> set run"
  shows "own appends l (plOff p) \<noteq> None"
proof -
  let ?i = "plApp p" and ?a = "appends ! plApp p"
  note P = honest_placeD [OF h p]
  have v: "byValue l (aValue ?a) = copies appends run ?i" using l P(1) by (simp add: indexes_def)
  have "plOff p \<in> set (copies appends run ?i)" using p by auto
  moreover have "length (calls ?a (copies appends run ?i)) = length (copies appends run ?i)"
    using calls_shape [OF honest_copies_props [OF h P(1)]] by metis
  ultimately have "plOff p \<in> snd ` set (zip (calls ?a (byValue l (aValue ?a))) (byValue l (aValue ?a)))"
    unfolding v by (metis list.set_map map_snd_zip)
  moreover have "?a \<in> set appends" "Attempts ?a \<noteq> []" using P(1,2) by auto
  ultimately show ?thesis unfolding own_def by (intro own_dom) blast
qed

lemma window_holds:
  assumes h: "honest appends entries run" and l: "indexes appends run l" and p: "p \<in> set run"
    and reads: "honest_reads appends run reads" and t: "int64_run appends run reads"
  shows "\<exists>lo hi. map_of (windows appends l reads) (plOff p) = Some (lo, hi) \<and> MinInt64 \<le> lo \<and> lo \<le> plTime p \<and> plTime p \<le> hi \<and> hi \<le> Pending"
proof -
  let ?ow = "own appends l" and ?offs = "map plOff run"
  let ?flo = "floorAt (floors ?ow MinInt64 ?offs)"
  have offs: "offsets l = ?offs" using l by (simp add: indexes_def)
  have T: "q \<in> set run \<Longrightarrow> plTime q \<le> MaxInt64" for q using t by (simp add: int64_run_def)
  have srt: "sorted_wrt (<) ?offs" using h unfolding honest_def sorted_wrt_map by (auto elim: sorted_wrt_mono_rel [rotated])
  have min: "MinInt64 \<le> plTime p"
    using t p honest_placeD(5) [OF h p] by (fastforce simp: int64_run_def is_int64_def MinInt64_def)
  have lo: "fst w \<le> plTime p" if x: "x \<in> set ?offs" "x \<le> plOff p" "?ow x = Some w" for x w
  proof -
    obtain q where q: "q \<in> set run" "plOff q = x" using x(1) by auto
    then show ?thesis using own_holds(1) [OF h l q(1) _ T [OF q(1)], of w] honest_order(2) [OF h q(1) p] x(2,3) by fastforce
  qed
  have hi: "plTime p \<le> snd w" if x: "x \<in> set (rev ?offs)" "plOff p \<le> x" "?ow x = Some w" for x w
  proof -
    obtain q where q: "q \<in> set run" "plOff q = x" using x(1) by auto
    then show ?thesis using own_holds(2) [OF h l q(1) _ T [OF q(1)], of w] honest_order(2) [OF h p q(1)] x(2,3) by fastforce
  qed
  have flo: "MinInt64 \<le> ?flo (plOff p) \<and> ?flo (plOff p) \<le> plTime p"
  proof -
    have "plOff p \<in> set (map fst (floors ?ow MinInt64 ?offs))" using p by simp
    then obtain v where v: "map_of (floors ?ow MinInt64 ?offs) (plOff p) = Some v"
      by (metis list.set_map map_of_eq_None_iff not_Some_eq)
    from floors_bounds [OF srt map_of_SomeD [OF this] min lo] show ?thesis using v by (simp add: floorAt_def)
  qed
  have sn: "plTime p \<le> b" if x: "x \<in> set (rev ?offs)" "plOff p \<le> x" "foldl (seeRead ?flo) (\<lambda>_. None) reads x = Some b" for x b
  proof -
    obtain r where r: "r \<in> set reads" "rdOffset r = x" "x \<noteq> 0" "b = rdReturn r" using seen_Some [OF x(3)] by auto
    then obtain n T where n: "read_at appends run r n T" using reads unfolding honest_reads_def by blast
    obtain q where q: "q \<in> set (take n run)" "q \<in> set run" "plOff q = rdOffset r" using read_entry [OF h n] r(2,3) by metis
    have "plTime p \<le> plTime q" using honest_order(2) [OF h p q(2)] x(2) r(2) q(3) by simp
    also have "plTime q \<le> T" by (rule read_atD(4) [OF n q(1)])
    also have "T \<le> b" using read_atD(3) [OF n] r(4) by simp
    finally show ?thesis .
  qed
  have "\<exists>c. map_of (backward ?ow ?flo (foldl (seeRead ?flo) (\<lambda>_. None) reads) Pending (rev ?offs)) (plOff p) = Some (?flo (plOff p), c) \<and>
      plTime p \<le> c \<and> c \<le> Pending"
  proof (rule backward_window)
    show "sorted_wrt (>) (rev ?offs)" using srt by (simp only: sorted_wrt_rev)
    show "plOff p \<in> set (rev ?offs)" using p by simp
    show "?ow (plOff p) \<noteq> None" by (rule own_covers [OF h l p])
    show "plTime p \<le> Pending" using T [OF p] by (simp add: Pending_def)
    show "?flo (plOff p) \<le> plTime p" using flo by simp
  qed (fact sn, fact hi)
  then show ?thesis using flo unfolding windows_def Let_def offs by blast
qed

subsection \<open>One key's entries and reads\<close>

lemma mset_concat_classes:
  assumes "\<forall>x \<in> set xs. g x < n"
  shows "mset (concat (map (\<lambda>i. map f (filter (\<lambda>x. g x = i \<and> Q x) xs)) [0..<n])) = mset (map f (filter Q xs))"
  using assms
proof (induction xs)
  case (Cons x xs)
  have one: "(\<Sum>i\<leftarrow>[0..<n]. if g x = i then {#f x#} else {#}) = {#f x#}"
  proof -
    have "(\<Sum>i\<leftarrow>[0..<n]. if g x = i then {#f x#} else {#}) = (\<Sum>i \<in> {0..<n}. if g x = i then {#f x#} else {#})"
      by (simp add: sum_list_distinct_conv_sum_set)
    then show ?thesis using Cons.prems by simp
  qed
  have "mset (concat (map (\<lambda>i. map f (filter (\<lambda>y. g y = i \<and> Q y) (x # xs))) [0..<n])) =
      (\<Sum>i\<leftarrow>[0..<n]. (if Q x then if g x = i then {#f x#} else {#} else {#}) + mset (map f (filter (\<lambda>y. g y = i \<and> Q y) xs)))"
    unfolding mset_concat map_map by (intro arg_cong [where f = sum_list] map_cong) auto
  also have "\<dots> = (if Q x then {#f x#} else {#}) + mset (concat (map (\<lambda>i. map f (filter (\<lambda>y. g y = i \<and> Q y) xs)) [0..<n]))"
    unfolding mset_concat map_map sum_list_addf using one by (simp add: o_def)
  finally show ?case using Cons by simp
qed simp

lemma keyCopies_run:
  assumes h: "honest appends entries run" and l: "indexes appends run l" and i: "i < length appends"
  shows "keyCopies l k (appends ! i) = map plOff (filter (\<lambda>p. plApp p = i \<and> keyOf appends p = k) run)"
proof (cases "Attempts (appends ! i) = []")
  case True
  have "plApp p \<noteq> i" if "p \<in> set run" for p using honest_placeD(2) [OF h that] True by auto
  then show ?thesis using True by (simp add: keyCopies_def)
next
  case False
  have by_off: "byOffset l (plOff p) = Some (entry_of appends p)" if "p \<in> set run" for p
    using l that unfolding indexes_def by blast
  have "filter (\<lambda>off. case byOffset l off of Some e \<Rightarrow> eKey e = k | None \<Rightarrow> False) (copies appends run i) =
      map plOff (filter (\<lambda>p. plApp p = i \<and> keyOf appends p = k) run)"
    unfolding filter_map filter_filter by (intro arg_cong [where f = "map plOff"] filter_cong) (auto simp: by_off)
  then show ?thesis using False l i by (simp add: keyCopies_def indexes_def)
qed

lemma concat_appends: "concat (map f appends) = concat (map (\<lambda>i. f (appends ! i)) [0..<length appends])"
proof -
  have "map f appends = map (\<lambda>i. f (appends ! i)) [0..<length appends]" by (rule nth_equalityI) auto
  then show ?thesis by simp
qed

lemma run_offs_sorted:
  assumes h: "honest appends entries run"
  shows "sorted_wrt (<) (map plOff run)" "sorted_wrt (<) (map plOff (filter Q run))"
proof -
  show s: "sorted_wrt (<) (map plOff run)" using h unfolding honest_def sorted_wrt_map by (auto elim: sorted_wrt_mono_rel [rotated])
  then show "sorted_wrt (<) (map plOff (filter Q run))" unfolding sorted_wrt_map by (rule sorted_wrt_filter)
qed

lemma placedOffs_run:
  assumes h: "honest appends entries run" and l: "indexes appends run l"
  shows "placedOffs appends l k = map plOff (filter (\<lambda>p. keyOf appends p = k) run)"
proof -
  have "concat (map (keyCopies l k) appends) =
      concat (map (\<lambda>i. map plOff (filter (\<lambda>p. plApp p = i \<and> keyOf appends p = k) run)) [0..<length appends])"
    unfolding concat_appends [of "keyCopies l k"] using keyCopies_run [OF h l]
    by (intro arg_cong [where f = concat] map_cong) auto
  then have "mset (concat (map (keyCopies l k) appends)) = mset (map plOff (filter (\<lambda>p. keyOf appends p = k) run))"
    using mset_concat_classes [of run plApp "length appends" plOff "\<lambda>p. keyOf appends p = k"] honest_placeD(1) [OF h] by simp
  moreover have "sorted (map plOff (filter (\<lambda>p. keyOf appends p = k) run))"
    using run_offs_sorted(2) [OF h] by (rule strict_sorted_imp_sorted)
  ultimately show ?thesis unfolding placedOffs_def using properties_for_sort by metis
qed

type_synonym label = "placement + Read"

definition label_op :: "Append list \<Rightarrow> (nat \<times> window) list \<Rightarrow> label \<Rightarrow> (readIn, nat) Op" where
  "label_op appends landed x = (case x of Inl p \<Rightarrow> appendOp landed (appends ! plApp p) (plOff p) | Inr r \<Rightarrow> readOp r)"

definition labels :: "Append list \<Rightarrow> placement list \<Rightarrow> Read list \<Rightarrow> string \<Rightarrow> label list" where
  "labels appends run reads k =
     concat (map (\<lambda>i. map Inl (filter (\<lambda>p. plApp p = i \<and> keyOf appends p = k) run)) [0..<length appends]) @
     map Inr (filter (\<lambda>r. rdKey r = k) reads)"

lemma mset_labels:
  assumes "honest appends entries run"
  shows "mset (labels appends run reads k) =
    mset (map Inl (filter (\<lambda>p. keyOf appends p = k) run)) + mset (map Inr (filter (\<lambda>r. rdKey r = k) reads))"
  unfolding labels_def using mset_concat_classes [of run plApp "length appends" Inl "\<lambda>p. keyOf appends p = k"] honest_placeD(1) [OF assms]
  by simp

lemma keyHistory_labels:
  assumes h: "honest appends entries run" and l: "indexes appends run l" and r: "honest_reads appends run reads"
  shows "keyHistory appends l reads landed k = map (label_op appends landed) (labels appends run reads k)"
proof -
  have "map (appendOp landed (appends ! i)) (keyCopies l k (appends ! i)) =
      map (label_op appends landed) (map Inl (filter (\<lambda>p. plApp p = i \<and> keyOf appends p = k) run))" if "i < length appends" for i
    unfolding keyCopies_run [OF h l that] by (auto simp: label_op_def)
  then have a: "concat (map (\<lambda>a. map (appendOp landed a) (keyCopies l k a)) appends) =
      map (label_op appends landed) (concat (map (\<lambda>i. map Inl (filter (\<lambda>p. plApp p = i \<and> keyOf appends p = k) run)) [0..<length appends]))"
    unfolding concat_appends [of "\<lambda>a. map (appendOp landed a) (keyCopies l k a)"] map_concat map_map
    by (intro arg_cong [where f = concat] map_cong) auto
  have "rdOffset r \<in> set (placedOffs appends l (rdKey r))" if m: "r \<in> set reads" "rdOffset r \<noteq> 0" for r
  proof -
    obtain n T where n: "read_at appends run r n T" using r m(1) unfolding honest_reads_def by blast
    obtain p where "p \<in> set run" "plOff p = rdOffset r" "keyOf appends p = rdKey r" using read_entry [OF h n m(2)] by metis
    then show ?thesis unfolding placedOffs_run [OF h l] by force
  qed
  then have "filter (\<lambda>r. rdKey r = k \<and> \<not> (rdOffset r \<noteq> 0 \<and> \<not> snd (bsearch (placedOffs appends l k) (rdOffset r)))) reads =
      filter (\<lambda>r. rdKey r = k) reads"
    by (intro filter_cong) (auto simp: bsearch_def)
  then show ?thesis unfolding keyHistory_def labels_def a by (simp add: label_op_def)
qed

subsection \<open>The instants are a linearization\<close>

definition read_pos :: "placement list \<Rightarrow> nat \<Rightarrow> nat" where
  "read_pos run n = (if n = 0 then 0 else Suc (plOff (run ! (n - 1))))"

lemma read_pos_split:
  assumes h: "honest appends entries run" and n: "n \<le> length run" and p: "p \<in> set run"
  shows "p \<in> set (take n run) \<longleftrightarrow> plOff p < read_pos run n" "p \<in> set (drop n run) \<longleftrightarrow> read_pos run n \<le> plOff p"
proof -
  have d: "distinct run" using h unfolding honest_def by (metis distinct_map)
  obtain i where i: "i < length run" "run ! i = p" using p by (auto simp: in_set_conv_nth)
  have lt: "plOff (run ! a) < plOff (run ! b)" if "a < b" "b < length run" for a b
    using sorted_wrt_nth_less [OF run_offs_sorted(1) [OF h], of a b] that by simp
  have key: "plOff p < read_pos run n \<longleftrightarrow> i < n"
  proof (cases "n = 0")
    case False
    then have "n - 1 < length run" using n by simp
    then have "plOff (run ! i) \<le> plOff (run ! (n - 1)) \<longleftrightarrow> i \<le> n - 1"
      using lt [of i "n - 1"] lt [of "n - 1" i] i(1) by (cases i "n - 1" rule: linorder_cases) auto
    then show ?thesis using False i(2) by (auto simp: read_pos_def)
  qed (simp add: read_pos_def)
  have t: "p \<in> set (take n run) \<longleftrightarrow> i < n"
  proof
    assume "p \<in> set (take n run)"
    then obtain j where "j < n" "j < length run" "run ! j = p" by (auto simp: in_set_conv_nth)
    then show "i < n" using nth_eq_iff_index_eq [OF d, of i j] i by simp
  next
    assume "i < n"
    then show "p \<in> set (take n run)" using i unfolding in_set_take_conv by blast
  qed
  have "set (take n run) \<inter> set (drop n run) = {}" using d by (simp add: set_take_disj_set_drop_if_distinct)
  moreover have "set run = set (take n run) \<union> set (drop n run)" by (metis append_take_drop_id set_append)
  ultimately have "p \<in> set (drop n run) \<longleftrightarrow> p \<notin> set (take n run)" using p by blast
  then show "p \<in> set (take n run) \<longleftrightarrow> plOff p < read_pos run n" "p \<in> set (drop n run) \<longleftrightarrow> read_pos run n \<le> plOff p"
    unfolding t key [symmetric] by (simp_all add: not_less)
qed

definition instant :: "(Read \<Rightarrow> int) \<Rightarrow> label \<Rightarrow> int" where
  "instant tR x = (case x of Inl p \<Rightarrow> plTime p | Inr r \<Rightarrow> tR r)"

definition label_key :: "placement list \<Rightarrow> (Read \<Rightarrow> nat) \<Rightarrow> (Read \<Rightarrow> int) \<Rightarrow> label \<Rightarrow> nat \<times> int" where
  "label_key run nR tR x = (case x of Inl p \<Rightarrow> (Suc (2 * plOff p), plTime p) | Inr r \<Rightarrow> (2 * read_pos run (nR r), tR r))"

lemma label_key_order:
  assumes h: "honest appends entries run" and r: "\<And>r. r \<in> R \<Longrightarrow> read_at appends run r (nR r) (tR r)"
    and x: "x \<in> Inl ` set run \<union> Inr ` R" and y: "y \<in> Inl ` set run \<union> Inr ` R" and le: "label_key run nR tR x \<le> label_key run nR tR y"
  shows "instant tR x \<le> instant tR y"
proof (cases x)
  case px: (Inl p)
  then have p: "p \<in> set run" using x by auto
  show ?thesis
  proof (cases y)
    case (Inl q)
    then have "q \<in> set run" "plOff p \<le> plOff q" using y le px by (auto simp: label_key_def)
    then show ?thesis using honest_order(2) [OF h p] px Inl by (simp add: instant_def)
  next
    case (Inr s)
    then have s: "read_at appends run s (nR s) (tR s)" using y r by auto
    have "plOff p < read_pos run (nR s)" using le px Inr by (auto simp: label_key_def less_prod_def')
    then have "p \<in> set (take (nR s) run)" using read_pos_split(1) [OF h read_atD(1) [OF s] p] by blast
    then show ?thesis using read_atD(4) [OF s] px Inr by (simp add: instant_def)
  qed
next
  case rx: (Inr r')
  then have r': "read_at appends run r' (nR r') (tR r')" using x r by auto
  show ?thesis
  proof (cases y)
    case (Inl q)
    then have q: "q \<in> set run" using y by auto
    have "read_pos run (nR r') \<le> plOff q" using le rx Inl by (auto simp: label_key_def)
    then have "q \<in> set (drop (nR r') run)" using read_pos_split(2) [OF h read_atD(1) [OF r'] q] by blast
    then show ?thesis using read_atD(5) [OF r'] rx Inl by (simp add: instant_def)
  next
    case (Inr s)
    then have s: "read_at appends run s (nR s) (tR s)" using y r by auto
    show ?thesis
    proof (cases "read_pos run (nR r') < read_pos run (nR s)")
      case True
      then have n: "nR s \<noteq> 0" by (auto simp: read_pos_def intro: ccontr)
      then have le': "read_pos run (nR r') \<le> plOff (run ! (nR s - 1))" using True by (simp add: read_pos_def [of run "nR s"])
      let ?q = "run ! (nR s - 1)"
      have q: "?q \<in> set run" using n read_atD(1) [OF s] by simp
      have "?q \<in> set (drop (nR r') run)" using le' read_pos_split(2) [OF h read_atD(1) [OF r'] q] by blast
      moreover have "?q \<in> set (take (nR s) run)" using read_pos_split(1) [OF h read_atD(1) [OF s] q] n by (simp add: read_pos_def)
      ultimately have "tR r' \<le> tR s" using read_atD(5) [OF r'] read_atD(4) [OF s] by (meson order_trans)
      then show ?thesis using rx Inr by (simp add: instant_def)
    qed (use le rx Inr in \<open>auto simp: label_key_def instant_def\<close>)
  qed
qed

fun writes :: "label list \<Rightarrow> placement list" where
  "writes [] = []"
| "writes (Inl p # ys) = p # writes ys"
| "writes (Inr r # ys) = writes ys"

lemma writes_append [simp]: "writes (xs @ ys) = writes xs @ writes ys"
  by (induction xs rule: writes.induct) auto

lemma mset_writes: "mset (writes ys) = image_mset projl (filter_mset isl (mset ys))"
  by (induction ys rule: writes.induct) auto

lemma set_writes: "set (writes ys) = {p. Inl p \<in> set ys}"
  by (induction ys rule: writes.induct) auto

lemma writes_of_labels:
  assumes h: "honest appends entries run" and ys: "mset ys = mset (labels appends run reads k)" "sorted (map (label_key run nR tR) ys)"
  shows "writes ys = filter (\<lambda>p. keyOf appends p = k) run"
proof -
  let ?W = "filter (\<lambda>p. keyOf appends p = k) run"
  have m: "mset (writes ys) = mset ?W"
    unfolding mset_writes ys(1) mset_labels [OF h] by (simp add: filter_mset_image_mset multiset.map_comp o_def filter_mset_eq_conv)
  have "sorted (map plOff (writes ys))" using ys(2)
  proof (induction ys rule: writes.induct)
    case (2 p ys)
    have "plOff p \<le> plOff q" if "q \<in> set (writes ys)" for q
    proof -
      have "label_key run nR tR (Inl p) \<le> label_key run nR tR (Inl q)" using that 2(2) by (simp add: set_writes)
      then show ?thesis by (auto simp: label_key_def)
    qed
    then show ?case using 2 by simp
  qed auto
  moreover have "sorted (map plOff ?W)" using run_offs_sorted(2) [OF h] by (rule strict_sorted_imp_sorted)
  moreover have "mset (map plOff (writes ys)) = mset (map plOff ?W)" using m by simp
  ultimately have eq: "map plOff (writes ys) = map plOff ?W" by (metis properties_for_sort)
  have "set (writes ys) = set ?W" using m by (metis set_mset_mset)
  moreover have "inj_on plOff (set ?W)" using honest_order(1) [OF h] by (auto intro: inj_onI)
  ultimately show ?thesis using eq by (metis map_inj_on Un_absorb)
qed

lemma label_steps:
  "Step (read_model offs) s (Input (label_op appends landed (Inl p))) (Output (label_op appends landed (Inl p))) = (s < length offs \<and> offs ! s = plOff p, s + 1)"
  "Step (read_model offs) s (Input (label_op appends landed (Inr r))) (Output (label_op appends landed (Inr r))) = (last_entry offs s = rdOffset r, s)"
  by (simp_all add: read_model_def label_op_def appendOp_def readOp_def)

lemma labels_legal:
  assumes h: "honest appends entries run" and r: "\<And>r. r \<in> R \<Longrightarrow> rdKey r = k \<and> read_at appends run r (nR r) (tR r)"
    and W: "writes (xs @ ys) = filter (\<lambda>p. keyOf appends p = k) run" and R: "\<And>r. Inr r \<in> set ys \<Longrightarrow> r \<in> R"
    and s: "sorted (map (label_key run nR tR) (xs @ ys))"
  shows "legal_list (read_model (map plOff (filter (\<lambda>p. keyOf appends p = k) run))) (length (writes xs)) (map (label_op appends landed) ys)"
  using W R s
proof (induction ys arbitrary: xs)
  case (Cons y ys)
  let ?W = "filter (\<lambda>p. keyOf appends p = k) run" and ?m = "read_model (map plOff (filter (\<lambda>p. keyOf appends p = k) run))"
  have IH: "legal_list ?m (length (writes (xs @ [y]))) (map (label_op appends landed) ys)"
    using Cons.IH [of "xs @ [y]"] Cons.prems by simp
  have W: "?W = writes xs @ writes (y # ys)" using Cons.prems(1) by simp
  show ?case
  proof (cases y)
    case (Inl p)
    then have "?W = writes xs @ p # writes ys" using W by simp
    then have "map plOff ?W ! length (writes xs) = plOff p" "length (writes xs) < length ?W"
      using nth_append_length [of "map plOff (writes xs)" "plOff p"] by (simp_all add: nth_append)
    then show ?thesis using IH Inl by (simp add: label_steps)
  next
    case (Inr r')
    then have r': "rdKey r' = k" "read_at appends run r' (nR r') (tR r')" using Cons.prems(2) r by auto
    let ?n = "nR r'"
    have before: "p \<in> set (take ?n run)" if "p \<in> set (writes xs)" for p
    proof -
      have p: "p \<in> set run" using that W by (metis Un_iff filter_is_subset set_append subsetD)
      have "label_key run nR tR (Inl p) \<le> label_key run nR tR (Inr r')" using that Cons.prems(3) Inr by (auto simp: set_writes sorted_append)
      then have "plOff p < read_pos run ?n" by (auto simp: label_key_def less_prod_def')
      then show ?thesis using read_pos_split(1) [OF h read_atD(1) [OF r'(2)] p] by blast
    qed
    have after: "p \<notin> set (take ?n run)" if "p \<in> set (writes ys)" for p
    proof -
      have p: "p \<in> set run" using that W Inr by (metis Un_iff filter_is_subset set_append subsetD writes.simps(3))
      have "label_key run nR tR (Inr r') \<le> label_key run nR tR (Inl p)" using that Cons.prems(3) Inr by (auto simp: set_writes sorted_append)
      then have "read_pos run ?n \<le> plOff p" by (auto simp: label_key_def)
      then show ?thesis using read_pos_split(1) [OF h read_atD(1) [OF r'(2)] p] by simp
    qed
    have "writes xs = filter (\<lambda>p. p \<in> set (take ?n run)) ?W"
      using before after Inr unfolding W by (simp add: filter_id_conv filter_empty_conv)
    also have "\<dots> = filter (\<lambda>p. keyOf appends p = k) (filter (\<lambda>p. p \<in> set (take ?n run)) run)"
      by (simp add: conj_commute)
    also have "filter (\<lambda>p. p \<in> set (take ?n run)) run = take ?n run"
    proof -
      have "distinct run" using h unfolding honest_def by (metis distinct_map)
      then have "set (take ?n run) \<inter> set (drop ?n run) = {}" by (simp add: set_take_disj_set_drop_if_distinct)
      then have "filter (\<lambda>p. p \<in> set (take ?n run)) (take ?n run @ drop ?n run) = take ?n run"
        unfolding filter_append by (auto simp: filter_id_conv filter_empty_conv)
      then show ?thesis by simp
    qed
    finally have ws: "writes xs = filter (\<lambda>p. keyOf appends p = rdKey r') (take ?n run)" using r'(1) by simp
    have "last_entry (map plOff ?W) (length (writes xs)) = lastOff (writes xs)"
      unfolding W by (auto simp: last_entry_def lastOff_def nth_append last_conv_nth)
    also have "\<dots> = rdOffset r'" unfolding ws using read_atD(6) [OF r'(2)] by simp
    finally show ?thesis using IH Inr by (simp add: label_steps)
  qed
qed simp

lemma keyHistory_linearizable:
  assumes h: "honest appends entries run" and l: "indexes appends run l" and r: "honest_reads appends run reads" and t: "int64_run appends run reads"
  shows "linearizable (read_model (placedOffs appends l k)) (keyHistory appends l reads (windows appends l reads) k) \<and>
    history (keyHistory appends l reads (windows appends l reads) k)"
proof -
  let ?landed = "windows appends l reads" and ?labs = "labels appends run reads k"
  obtain nR tR where rd: "\<And>r. r \<in> set reads \<Longrightarrow> read_at appends run r (nR r) (tR r)"
    using r unfolding honest_reads_def by metis
  have labs: "x \<in> Inl ` set run \<union> Inr ` set reads" "\<And>r'. x = Inr r' \<Longrightarrow> r' \<in> set reads \<and> rdKey r' = k" if "x \<in> set ?labs" for x
    using that by (auto simp: labels_def)
  have inside: "Call (label_op appends ?landed x) \<le> instant tR x \<and> instant tR x \<le> Return (label_op appends ?landed x) \<and>
      is_int64 (Call (label_op appends ?landed x)) \<and> is_int64 (Return (label_op appends ?landed x))" if x: "x \<in> set ?labs" for x
  proof (cases x)
    case (Inl p)
    then have p: "p \<in> set run" using labs(1) [OF x] by auto
    obtain lo hi where w: "map_of ?landed (plOff p) = Some (lo, hi)" "MinInt64 \<le> lo" "lo \<le> plTime p" "plTime p \<le> hi" "hi \<le> Pending"
      using window_holds [OF h l p r t] by blast
    then show ?thesis using Inl
      by (simp add: label_op_def appendOp_def windowAt_def instant_def is_int64_def MinInt64_def Pending_def)
  next
    case (Inr r')
    then have r': "r' \<in> set reads" using labs(2) [OF x] by blast
    then have "is_int64 (rdCall r')" "is_int64 (rdReturn r')" using t by (simp_all add: int64_run_def)
    then show ?thesis using Inr read_atD(2,3) [OF rd [OF r']] by (simp add: label_op_def readOp_def instant_def)
  qed
  have "linearizable (read_model (placedOffs appends l k)) (map (label_op appends ?landed) ?labs)"
  proof (rule linearizable_by_points [where key = "label_key run nR tR" and pt = "instant tR"])
    show "Call (label_op appends ?landed x) \<le> instant tR x \<and> instant tR x \<le> Return (label_op appends ?landed x)"
      if "x \<in> set ?labs" for x using inside [OF that] by blast
    show "instant tR x \<le> instant tR y" if "x \<in> set ?labs" "y \<in> set ?labs" "label_key run nR tR x \<le> label_key run nR tR y" for x y
      using label_key_order [OF h rd labs(1) [OF that(1)] labs(1) [OF that(2)] that(3)] by blast
    show "Group (label_op appends ?landed x) = 0" for x by (cases x) (simp_all add: label_op_def appendOp_def readOp_def)
    fix ys assume ys: "mset ys = mset ?labs" "sorted (map (label_key run nR tR) ys)"
    have set_ys: "set ys = set ?labs" using ys(1) by (rule mset_eq_setD)
    have "legal_list (read_model (map plOff (filter (\<lambda>p. keyOf appends p = k) run))) (length (writes [])) (map (label_op appends ?landed) ys)"
    proof (rule labels_legal [OF h, where R = "{r \<in> set reads. rdKey r = k}"])
      show "rdKey r = k \<and> read_at appends run r (nR r) (tR r)" if "r \<in> {r \<in> set reads. rdKey r = k}" for r
        using that rd by blast
      show "writes ([] @ ys) = filter (\<lambda>p. keyOf appends p = k) run" using writes_of_labels [OF h ys] by simp
      show "r \<in> {r \<in> set reads. rdKey r = k}" if "Inr r \<in> set ys" for r using labs(2) that set_ys by blast
      show "sorted (map (label_key run nR tR) ([] @ ys))" using ys(2) by simp
    qed
    then show "legal_list (read_model (placedOffs appends l k)) (Init (read_model (placedOffs appends l k))) (map (label_op appends ?landed) ys)"
      unfolding placedOffs_run [OF h l] by (simp add: read_model_def)
  qed
  moreover have "history (map (label_op appends ?landed) ?labs)"
    unfolding history_def int64_times_def using inside by (auto intro: order_trans)
  ultimately show ?thesis unfolding keyHistory_labels [OF h l r] by blast
qed

subsection \<open>No false alarm\<close>

lemma checkKey_honest:
  assumes "linearizable (read_model offs) hist" "history hist"
  obtains unknown where "checkKey ctx lims key hist offs = Some ([], unknown)"
    "(\<forall>n. ctx n = None) \<and> Configurations lims \<le> 0 \<longrightarrow> unknown = []"
proof -
  obtain v where v: "CheckWithin ctx (read_model offs) hist lims = Some v" "verdict_ok ctx (read_model offs) hist lims v"
    using history_verdict [OF assms(2)] by blast
  obtain res err where res: "v = Returns res err" using v(2) by (auto simp: verdict_ok_def)
  have "same_sound (read_model offs)" by (simp add: same_sound_def read_model_def)
  then have il: "Outcome res \<noteq> Illegal" using Illegal_verdict [of ctx "read_model offs" hist lims res err] v(2) assms by (auto simp: res history_def)
  have "Outcome res = Unknown \<Longrightarrow> \<not> ((\<forall>n. ctx n = None) \<and> Configurations lims \<le> 0)" using v(2) by (auto simp: verdict_ok_def res)
  then show ?thesis using that [of "if Outcome res = Unknown then [(key, err)] else []"] il v(1)
    by (cases "Outcome res") (auto simp: checkKey_def res)
qed

lemma checkKeys_honest:
  assumes "\<And>k. linearizable (read_model (offs k)) (hist k) \<and> history (hist k)"
  shows "\<exists>unknown. checkKeys ctx lims hist offs ks = Some ([], unknown) \<and>
    ((\<forall>k n. ctx k n = None) \<and> Configurations lims \<le> 0 \<longrightarrow> unknown = [])"
proof (induction ks)
  case (Cons k ks)
  obtain u where u: "checkKey (ctx k) lims k (hist k) (offs k) = Some ([], u)" "(\<forall>n. ctx k n = None) \<and> Configurations lims \<le> 0 \<longrightarrow> u = []"
    using checkKey_honest [OF conjunct1 [OF assms] conjunct2 [OF assms]] by metis
  then show ?case using Cons.IH by auto
qed simp

text \<open>
  C10: no false alarm on reads. On the log of an honest run, with reads that each returned the
  last entry their key had at some instant between their call and their return,
  \<^verbatim>\<open>CheckReads\<close> returns and reports no anomaly, whatever the limits and the contexts of the
  searches. With no limit and no context cut short it leaves no key undecided either.
\<close>

theorem CheckReads_no_false_alarm:
  assumes "honest appends entries run" and "honest_reads appends run reads" and "int64_run appends run reads"
  shows "\<exists>unknown. CheckReads ctx appends entries reads lims = Some ([], unknown) \<and>
    ((\<forall>k n. ctx k n = None) \<and> Configurations lims \<le> 0 \<longrightarrow> unknown = [])"
proof -
  obtain l where l: "index entries = Some l" "indexes appends run l" using honest_index [OF assms(1)] by blast
  have "\<not> dirty l r" if m: "r \<in> set reads" for r
  proof -
    obtain n T where "read_at appends run r n T" using assms(2) m unfolding honest_reads_def by blast
    then show ?thesis by (rule honest_not_dirty [OF assms(1) l(2)])
  qed
  then have clean: "filter (dirty l) reads = []" "filter (\<lambda>r. \<not> dirty l r) reads = reads" by (simp_all add: filter_empty_conv filter_id_conv)
  obtain unknown where "checkKeys ctx lims (keyHistory appends l reads (windows appends l reads)) (placedOffs appends l)
      (keysOf l reads (keyHistory appends l reads (windows appends l reads))) = Some ([], unknown)"
    "(\<forall>k n. ctx k n = None) \<and> Configurations lims \<le> 0 \<longrightarrow> unknown = []"
    using checkKeys_honest [of "placedOffs appends l" "keyHistory appends l reads (windows appends l reads)" ctx lims] keyHistory_linearizable [OF assms(1) l(2) assms(2,3)] by metis
  then show ?thesis using l(1) clean by (simp add: CheckReads_def Let_def)
qed

text \<open>Reads of the three appends: one before all of them, one overlapping, one after.\<close>

definition demo_reads :: "Read list" where
  "demo_reads = [\<lparr>rdOp = 4, rdKey = ''k'', rdCall = 0, rdReturn = 1, rdOffset = 0, rdValue = []\<rparr>,
     \<lparr>rdOp = 5, rdKey = ''k'', rdCall = 2, rdReturn = 9, rdOffset = 2, rdValue = ''y''\<rparr>,
     \<lparr>rdOp = 6, rdKey = ''k'', rdCall = 7, rdReturn = 8, rdOffset = 3, rdValue = ''x''\<rparr>]"

lemma demo_reads_honest: "honest_reads demo_appends demo_run demo_reads"
proof -
  have "read_at demo_appends demo_run (demo_reads ! 0) 0 1" "read_at demo_appends demo_run (demo_reads ! 1) 2 4"
    "read_at demo_appends demo_run (demo_reads ! 2) 3 7"
    by (simp_all add: read_at_def demo_reads_def demo_run_def demo_appends_def lastOff_def)
  then show ?thesis unfolding honest_reads_def by (auto simp: demo_reads_def)
qed

theorem CheckReads_no_false_alarm_witness:
  "\<exists>unknown. CheckReads (\<lambda>_ _. None) demo_appends demo_entries demo_reads \<lparr>Configurations = 0\<rparr> = Some ([], unknown) \<and> unknown = []"
proof -
  have "int64_run demo_appends demo_run demo_reads"
    by (simp add: int64_run_def demo_run_def demo_reads_def demo_appends_def att_def is_int64_def MaxInt64_def)
  from CheckReads_no_false_alarm [OF demo_honest demo_reads_honest this, of "\<lambda>_ _. None" "\<lparr>Configurations = 0\<rparr>"]
  show ?thesis by simp
qed

end
