(* ===== verification/Txn_Model.thy ===== *)
theory Txn_Model
  imports Torx_Prelude "HOL-Library.Char_ord" "HOL-Library.List_Lexorder" "HOL-Library.AList"
begin

text \<open>
  The checker of transactional histories of \<^verbatim>\<open>src/listappend/listappend.go\<close>: transactions over
  lists, the version order the reads reveal, the dependencies that follow from it, and the
  cycles among them. Transactions are named by their positions. Go's iteration over a map is
  in no fixed order, so the orders of the three loops over keys that run that way are
  parameters. Searches that would not return are \<open>None\<close>.
\<close>

subsection \<open>Histories\<close>

datatype txn_status = Committed | Aborted | InDoubt

record Mop =
  mAppend :: bool
  mKey :: string
  mValue :: string
  mRead :: "string list"

record Txn =
  txID :: int
  txProcess :: int
  txCall :: int
  txReturn :: int
  txStatus :: txn_status
  txMops :: "Mop list"

record Options =
  optRealtime :: bool
  optProcess :: bool

datatype edge_kind = WW | WR | RW | Realtime | Process

fun kind_text :: "edge_kind \<Rightarrow> string" where
  "kind_text WW = ''ww''"
| "kind_text WR = ''wr''"
| "kind_text RW = ''rw''"
| "kind_text Realtime = ''realtime''"
| "kind_text Process = ''process''"

datatype larg = LInt int | LStr string | LStrs "string list"

record TxnAnomaly =
  taKind :: string
  taTxns :: "int list"
  taEdges :: "edge_kind list"
  taKey :: string
  taDetail :: "string \<times> larg list"

definition Forbidden :: "string \<Rightarrow> string list" where
  "Forbidden level =
     (let base = [''G0'', ''G1a'', ''G1b'', ''G1c'', ''incompatible-order'', ''duplicate'', ''internal''] in
      if level = ''read-committed'' then base
      else if level = ''snapshot-isolation'' then base @ [''nonrepeatable'', ''G-single'', ''G-nonadjacent'']
      else if level = ''serializable'' \<or> level = ''strict-serializable''
        then base @ [''nonrepeatable'', ''G-single'', ''G-nonadjacent'', ''G2'', ''lost'']
      else [])"

record edge =
  e_to :: nat
  e_kind :: edge_kind

type_synonym pair = "nat \<times> nat \<times> string"

record checker =
  c_txns :: "Txn list"
  c_opts :: Options
  c_writer :: "string \<Rightarrow> (string \<times> nat) list"
  c_appended :: "string \<Rightarrow> nat \<Rightarrow> string list"
  c_order :: "string \<Rightarrow> string list"
  c_took :: "bool list"
  c_adj :: "edge list list"
  c_pairs :: "pair list"
  c_out :: "TxnAnomaly list"

definition report :: "checker \<Rightarrow> TxnAnomaly \<Rightarrow> checker" where
  "report c a = c\<lparr>c_out := c_out c @ [a]\<rparr>"

definition idOf :: "checker \<Rightarrow> nat \<Rightarrow> int" where
  "idOf c i = txID (c_txns c ! i)"

abbreviation writerOf :: "checker \<Rightarrow> string \<Rightarrow> string \<Rightarrow> nat option" where
  "writerOf c k v \<equiv> map_of (c_writer c k) v"

subsection \<open>Who appended what\<close>

definition appendMop :: "nat \<Rightarrow> Txn \<Rightarrow> checker \<Rightarrow> Mop \<Rightarrow> checker" where
  "appendMop i t c m =
     (if \<not> mAppend m then c
      else
        let k = mKey m; v = mValue m;
            c1 = c\<lparr>c_appended := (c_appended c)(k := (c_appended c k)(i := c_appended c k i @ [v]))\<rparr>;
            c2 = (case writerOf c1 k v of
                Some j \<Rightarrow> if j \<noteq> i then report c1 \<lparr>taKind = ''duplicate'', taTxns = [idOf c j, txID t], taEdges = [], taKey = k,
                    taDetail = (''value %s appended to %s twice'', [LStr v, LStr k])\<rparr> else c1
              | None \<Rightarrow> c1)
        in c2\<lparr>c_writer := (c_writer c2)(k := AList.update v i (c_writer c2 k))\<rparr>)"

definition appends :: "checker \<Rightarrow> checker" where
  "appends c = foldl (\<lambda>c (i, t). foldl (appendMop i t) c (txMops t)) c (enumerate 0 (c_txns c))"

subsection \<open>A transaction against itself\<close>

type_synonym own_state = "(string \<Rightarrow> string list) \<times> (string \<Rightarrow> string list) \<times> (string \<Rightarrow> bool) \<times> checker"

fun internalMop :: "Txn \<Rightarrow> own_state \<Rightarrow> Mop \<Rightarrow> own_state" where
  "internalMop t (own, others, rd, c) m =
     (let k = mKey m; r = mRead m; mine = own k; n = length r - length mine in
      if mAppend m then (own(k := own k @ [mValue m]), others, rd, c)
      else if length r < length mine \<or> drop n r \<noteq> mine
      then (own, others, rd, report c \<lparr>taKind = ''internal'', taTxns = [txID t], taEdges = [], taKey = k,
          taDetail = (''txn %d appended %v to %s, then read %v'', [LInt (txID t), LStrs mine, LStr k, LStrs r])\<rparr>)
      else
        (own, others(k := take n r), rd(k := True),
         if rd k \<and> take n r \<noteq> others k
         then report c \<lparr>taKind = ''nonrepeatable'', taTxns = [txID t], taEdges = [], taKey = k,
           taDetail = (''txn %d read %s as %v of others' appends, having read %v'', [LInt (txID t), LStr k, LStrs (take n r), LStrs (others k)])\<rparr>
         else c))"

definition internalTxn :: "checker \<Rightarrow> Txn \<Rightarrow> checker" where
  "internalTxn c t = (if txStatus t \<noteq> Committed then c
     else snd (snd (snd (foldl (internalMop t) (\<lambda>_. [], \<lambda>_. [], \<lambda>_. False, c) (txMops t)))))"

definition internal :: "checker \<Rightarrow> checker" where
  "internal c = foldl internalTxn c (c_txns c)"

fun externalFrom :: "(string \<Rightarrow> bool) \<Rightarrow> Mop list \<Rightarrow> Mop list" where
  "externalFrom app [] = []"
| "externalFrom app (m # ms) =
     (if mAppend m then externalFrom (app(mKey m := True)) ms
      else if \<not> app (mKey m) then m # externalFrom app ms
      else externalFrom app ms)"

definition external :: "Txn \<Rightarrow> Mop list" where
  "external t = externalFrom (\<lambda>_. False) (txMops t)"

subsection \<open>The version orders\<close>

definition keyReads :: "checker \<Rightarrow> string \<Rightarrow> (string list \<times> int) list" where
  "keyReads c k = concat (map (\<lambda>t. if txStatus t \<noteq> Committed then []
     else map (\<lambda>m. (mRead m, txID t)) (filter (\<lambda>m. \<not> mAppend m \<and> mKey m = k) (txMops t))) (c_txns c))"

definition longest :: "(string list \<times> int) list \<Rightarrow> nat" where
  "longest rs = foldl (\<lambda>best i. if length (fst (rs ! i)) > length (fst (rs ! best)) then i else best) 0 [0..<length rs]"

fun dupScan :: "string \<Rightarrow> int \<Rightarrow> string list \<Rightarrow> string list \<Rightarrow> string list \<Rightarrow> TxnAnomaly list" where
  "dupScan k who r sn [] = []"
| "dupScan k who r sn (v # vs) =
     (if v \<in> set sn then [\<lparr>taKind = ''duplicate'', taTxns = [who], taEdges = [], taKey = k,
          taDetail = (''txn %d read %s with %s twice: %v'', [LInt who, LStr k, LStr v, LStrs r])\<rparr>] else []) @
     dupScan k who r (v # sn) vs"

definition misordered :: "string \<Rightarrow> string list \<times> int \<Rightarrow> string list \<times> int \<Rightarrow> TxnAnomaly list" where
  "misordered k ord r =
     (if length (fst r) > length (fst ord) \<or> take (length (fst r)) (fst ord) \<noteq> fst r
      then [\<lparr>taKind = ''incompatible-order'', taTxns = [snd r, snd ord], taEdges = [], taKey = k,
        taDetail = (''txn %d read %s as %v; txn %d as %v'', [LInt (snd r), LStr k, LStrs (fst r), LInt (snd ord), LStrs (fst ord)])\<rparr>]
      else [])"

definition orderKey :: "checker \<Rightarrow> string \<Rightarrow> checker" where
  "orderKey c k =
     (let rs = keyReads c k in
      if rs = [] then c
      else (let ord = rs ! longest rs in
        c\<lparr>c_order := (c_order c)(k := fst ord),
          c_out := c_out c @ concat (map (\<lambda>(r, who). dupScan k who r [] r) rs) @ concat (map (misordered k ord) rs)\<rparr>))"

definition orders :: "string list \<Rightarrow> checker \<Rightarrow> checker" where
  "orders ks c = foldl orderKey c ks"

subsection \<open>Who took effect\<close>

definition effectOf :: "checker \<Rightarrow> string \<Rightarrow> bool list \<Rightarrow> string \<Rightarrow> bool list" where
  "effectOf c k took v = (case writerOf c k v of
     Some w \<Rightarrow> if txStatus (c_txns c ! w) = InDoubt then took[w := True] else took
   | None \<Rightarrow> took)"

definition effects :: "string list \<Rightarrow> checker \<Rightarrow> checker" where
  "effects ks c = c\<lparr>c_took := foldl (\<lambda>took k. foldl (effectOf c k) took (c_order c k))
     (map (\<lambda>t. txStatus t = Committed) (c_txns c)) ks\<rparr>"

subsection \<open>What reads saw\<close>

record reported =
  rp_checked :: "(string \<times> string) set"
  rp_disordered :: "(string \<times> nat) set"
  rp_intermediate :: "(string \<times> nat) set"
  rp_missed :: "(string \<times> string) set"

definition readElem :: "Txn \<Rightarrow> string \<Rightarrow> reported \<times> checker \<Rightarrow> string \<Rightarrow> reported \<times> checker" where
  "readElem t k s v = (case s of (rp, c) \<Rightarrow>
     if (k, v) \<in> rp_checked rp then s
     else
       (rp\<lparr>rp_checked := insert (k, v) (rp_checked rp)\<rparr>,
        case writerOf c k v of
          None \<Rightarrow> report c \<lparr>taKind = ''G1a'', taTxns = [txID t], taEdges = [], taKey = k,
            taDetail = (''txn %d read %s, which no transaction appended to %s'', [LInt (txID t), LStr v, LStr k])\<rparr>
        | Some w \<Rightarrow> if txStatus (c_txns c ! w) = Aborted
            then report c \<lparr>taKind = ''G1a'', taTxns = [idOf c w, txID t], taEdges = [], taKey = k,
              taDetail = (''txn %d read %s, appended to %s by aborted txn %d'', [LInt (txID t), LStr v, LStr k, LInt (idOf c w)])\<rparr>
            else c))"

definition theirs :: "checker \<Rightarrow> nat \<Rightarrow> Mop \<Rightarrow> nat list" where
  "theirs c i m = sort (remdups (concat (map (\<lambda>v. case writerOf c (mKey m) v of
     Some w \<Rightarrow> if w \<noteq> i \<and> length (c_appended c (mKey m) w) > 1 then [w] else []
   | None \<Rightarrow> []) (mRead m))))"

definition readOrder :: "Txn \<Rightarrow> Mop \<Rightarrow> reported \<times> checker \<Rightarrow> nat \<Rightarrow> reported \<times> checker" where
  "readOrder t m s w = (case s of (rp, c) \<Rightarrow>
     let k = mKey m; got = filter (\<lambda>v. writerOf c k v = Some w) (mRead m); made = c_appended c k w; n = min (length got) (length made) in
     if take n got \<noteq> take n made \<and> (k, w) \<notin> rp_disordered rp
     then (rp\<lparr>rp_disordered := insert (k, w) (rp_disordered rp)\<rparr>,
       report c \<lparr>taKind = ''incompatible-order'', taTxns = [idOf c w, txID t], taEdges = [], taKey = k,
         taDetail = (''txn %d read %s as %v, with %v of what txn %d appended, in order, as %v'',
           [LInt (txID t), LStr k, LStrs (mRead m), LStrs got, LInt (idOf c w), LStrs made])\<rparr>)
     else s)"

definition readLast :: "nat \<Rightarrow> Txn \<Rightarrow> Mop \<Rightarrow> reported \<times> checker \<Rightarrow> reported \<times> checker" where
  "readLast i t m s = (case s of (rp, c) \<Rightarrow>
     let k = mKey m; others = rev (dropWhile (\<lambda>v. writerOf c k v = Some i) (rev (mRead m))) in
     if others = [] then s
     else (case writerOf c k (last others) of
         None \<Rightarrow> s
       | Some w \<Rightarrow>
           if (k, w) \<notin> rp_intermediate rp \<and> last (c_appended c k w) \<noteq> last others
           then (rp\<lparr>rp_intermediate := insert (k, w) (rp_intermediate rp)\<rparr>,
             report c \<lparr>taKind = ''G1b'', taTxns = [idOf c w, txID t], taEdges = [], taKey = k,
               taDetail = (''txn %d read %s ending in %s, an intermediate append of txn %d, which went on to append %v'',
                 [LInt (txID t), LStr k, LStr (last others), LInt (idOf c w), LStrs (c_appended c k w)])\<rparr>)
           else s))"

definition readLost :: "nat \<Rightarrow> Txn \<Rightarrow> Mop \<Rightarrow> reported \<times> checker \<Rightarrow> string \<times> nat \<Rightarrow> reported \<times> checker" where
  "readLost i t m s vw = (case s of (rp, c) \<Rightarrow> case vw of (v, w) \<Rightarrow>
     let k = mKey m; wt = c_txns c ! w in
     if txStatus wt = Committed \<and> txReturn wt < txCall t \<and> v \<notin> set (mRead m) \<and> w \<noteq> i \<and> (k, v) \<notin> rp_missed rp
     then (rp\<lparr>rp_missed := insert (k, v) (rp_missed rp)\<rparr>,
       report c \<lparr>taKind = ''lost'', taTxns = [txID wt, txID t], taEdges = [], taKey = k,
         taDetail = (''txn %d committed %s to %s before txn %d began, which read %v'',
           [LInt (txID wt), LStr v, LStr k, LInt (txID t), LStrs (mRead m)])\<rparr>)
     else s)"

definition readMop :: "nat \<Rightarrow> Txn \<Rightarrow> reported \<times> checker \<Rightarrow> Mop \<Rightarrow> reported \<times> checker" where
  "readMop i t s m =
     (if mAppend m then s
      else
        let c = snd s;
            s1 = foldl (readElem t (mKey m)) s (mRead m);
            s2 = foldl (readOrder t m) s1 (theirs c i m);
            s3 = readLast i t m s2
        in if optRealtime (c_opts c) then foldl (readLost i t m) s3 (sort_key fst (c_writer c (mKey m))) else s3)"

definition readTxn :: "checker \<Rightarrow> nat \<times> Txn \<Rightarrow> checker" where
  "readTxn c it = (case it of (i, t) \<Rightarrow>
     if txStatus t \<noteq> Committed then c
     else snd (foldl (readMop i t) (\<lparr>rp_checked = {}, rp_disordered = {}, rp_intermediate = {}, rp_missed = {}\<rparr>, c) (txMops t)))"

definition reads :: "checker \<Rightarrow> checker" where
  "reads c = foldl readTxn c (enumerate 0 (c_txns c))"

subsection \<open>The dependency graph\<close>

definition add :: "nat \<Rightarrow> nat \<Rightarrow> edge_kind \<Rightarrow> edge list list \<Rightarrow> edge list list" where
  "add i j kind adj =
     (if i = j then adj
      else if \<lparr>e_to = j, e_kind = kind\<rparr> \<in> set (adj ! i) then adj
      else adj[i := adj ! i @ [\<lparr>e_to = j, e_kind = kind\<rparr>]])"

definition wwKey :: "checker \<Rightarrow> edge list list \<Rightarrow> string \<Rightarrow> edge list list" where
  "wwKey c adj k = foldl (\<lambda>adj (u, v). case (writerOf c k u, writerOf c k v) of
     (Some a, Some b) \<Rightarrow> add a b WW adj | _ \<Rightarrow> adj) adj (zip (c_order c k) (tl (c_order c k)))"

type_synonym readers = "string \<Rightarrow> nat list"
type_synonym graph_state = "edge list list \<times> readers \<times> readers"

fun externalMop :: "checker \<Rightarrow> nat \<Rightarrow> graph_state \<Rightarrow> Mop \<Rightarrow> graph_state" where
  "externalMop c i (adj, latest, rds) m =
     (let k = mKey m; r = mRead m; ord = c_order c k; n = length r;
          adj1 = (if r \<noteq> [] then (case writerOf c k (last r) of Some w \<Rightarrow> add w i WR adj | None \<Rightarrow> adj) else adj);
          rds1 = (if n \<le> length ord \<and> take n ord = r then rds(k := List.insert i (rds k)) else rds);
          adj2 = (if n < length ord \<and> take n ord = r
             then (case writerOf c k (ord ! n) of Some w \<Rightarrow> add i w RW adj1 | None \<Rightarrow> adj1) else adj1);
          latest1 = (if ord = r then latest(k := List.insert i (latest k)) else latest)
      in (adj2, latest1, rds1))"

definition externalTxn :: "checker \<Rightarrow> graph_state \<Rightarrow> nat \<times> Txn \<Rightarrow> graph_state" where
  "externalTxn c g it = (case it of (i, t) \<Rightarrow> if txStatus t \<noteq> Committed then g else foldl (externalMop c i) g (external t))"

fun unreadMop :: "checker \<Rightarrow> readers \<Rightarrow> nat \<Rightarrow> edge list list \<times> readers \<Rightarrow> Mop \<Rightarrow> edge list list \<times> readers" where
  "unreadMop c latest i (adj, unread) m =
     (let k = mKey m; ord = c_order c k in
      if \<not> mAppend m \<or> mValue m \<in> set ord then (adj, unread)
      else
        let adj1 = (if ord \<noteq> [] then (case writerOf c k (last ord) of Some w \<Rightarrow> add w i WW adj | None \<Rightarrow> adj) else adj);
            adj2 = foldl (\<lambda>adj r. add r i RW adj) adj1 (sort (latest k));
            u = unread k
        in (adj2, if u = [] \<or> last u \<noteq> i then unread(k := u @ [i]) else unread))"

definition unreadTxn :: "checker \<Rightarrow> readers \<Rightarrow> edge list list \<times> readers \<Rightarrow> nat \<times> Txn \<Rightarrow> edge list list \<times> readers" where
  "unreadTxn c latest g it = (case it of (i, t) \<Rightarrow> if \<not> c_took c ! i then g else foldl (unreadMop c latest i) g (txMops t))"

fun pairsOf :: "string \<Rightarrow> nat list \<Rightarrow> pair list" where
  "pairsOf k [] = []"
| "pairsOf k (x # xs) = map (\<lambda>y. (x, y, k)) xs @ pairsOf k xs"

definition unreadKeys :: "checker \<Rightarrow> readers \<Rightarrow> string list" where
  "unreadKeys c unread = sort (remdups (filter (\<lambda>k. unread k \<noteq> []) (concat (map (\<lambda>t. map mKey (txMops t)) (c_txns c)))))"

definition lostPairs :: "checker \<Rightarrow> readers \<Rightarrow> readers \<Rightarrow> pair list" where
  "lostPairs c rds unread = concat (map (\<lambda>k. pairsOf k (filter (\<lambda>i. i \<in> set (rds k)) (unread k))) (unreadKeys c unread))"

definition firstReturn :: "checker \<Rightarrow> Txn \<Rightarrow> int \<times> nat list" where
  "firstReturn c t = foldl (\<lambda>(first, nx) (j, u).
      if txCall u > txReturn t \<and> c_took c ! j
      then (if txStatus u = Committed \<and> (first < 0 \<or> txReturn u < first) then txReturn u else first, nx @ [j])
      else (first, nx)) (-1, []) (enumerate 0 (c_txns c))"

definition realtimeTxn :: "checker \<Rightarrow> edge list list \<Rightarrow> nat \<times> Txn \<Rightarrow> edge list list" where
  "realtimeTxn c adj it = (case it of (i, t) \<Rightarrow>
     if txStatus t \<noteq> Committed then adj
     else (case firstReturn c t of (first, nx) \<Rightarrow>
       foldl (\<lambda>adj j. if first < 0 \<or> txCall (c_txns c ! j) \<le> first then add i j Realtime adj else adj) adj nx))"

fun processTxn :: "(int \<Rightarrow> nat option) \<times> edge list list \<Rightarrow> nat \<times> Txn \<Rightarrow> (int \<Rightarrow> nat option) \<times> edge list list" where
  "processTxn (lst, adj) (i, t) =
     (lst(txProcess t \<mapsto> i), case lst (txProcess t) of Some p \<Rightarrow> add p i Process adj | None \<Rightarrow> adj)"

definition edges :: "string list \<Rightarrow> checker \<Rightarrow> checker" where
  "edges ks c =
     (let ts = enumerate 0 (c_txns c);
          adj0 = foldl (wwKey c) (c_adj c) ks;
          (adj1, latest, rds) = foldl (externalTxn c) (adj0, \<lambda>_. [], \<lambda>_. []) ts;
          (adj2, unread) = foldl (unreadTxn c latest) (adj1, \<lambda>_. []) ts;
          adj3 = (if optRealtime (c_opts c) then foldl (realtimeTxn c) adj2 ts else adj2);
          adj4 = (if optProcess (c_opts c) then snd (foldl processTxn (\<lambda>_. None, adj3) ts) else adj3)
      in c\<lparr>c_adj := adj4, c_pairs := c_pairs c @ lostPairs c rds unread\<rparr>)"

end
