(* ===== verification/Txn_Cycles.thy ===== *)
theory Txn_Cycles
  imports Txn_Model "HOL-Library.Monad_Syntax"
begin

text \<open>
  The cycles of the dependency graph: \<^verbatim>\<open>sccs\<close>, \<^verbatim>\<open>path\<close>, \<^verbatim>\<open>cycleWithin\<close>, \<^verbatim>\<open>gSingle\<close>,
  \<^verbatim>\<open>nonadjacent\<close>, \<^verbatim>\<open>cycles\<close> and \<^verbatim>\<open>Check\<close> of \<^verbatim>\<open>src/listappend/listappend.go\<close>. The breadth-first
  searches of \<^verbatim>\<open>path\<close> and \<^verbatim>\<open>nonadjacent\<close> are one definition over the states they run on. Loops
  carry fuel: a search takes a state off its queue once, and a step of the component search
  passes an edge or leaves a transaction. Running out of fuel, a chain of predecessors that
  does not lead back, and a pop of an empty stack are all \<open>None\<close>.
\<close>

subsection \<open>Components\<close>

record tarjan =
  tj_index :: "int list"
  tj_low :: "int list"
  tj_on :: "bool list"
  tj_st :: "nat list"
  tj_next :: int
  tj_call :: "(nat \<times> nat) list"
  tj_out :: "nat list list"

definition tj_start :: "nat \<Rightarrow> tarjan" where
  "tj_start n = \<lparr>tj_index = replicate n (-1), tj_low = replicate n 0, tj_on = replicate n False, tj_st = [],
     tj_next = 0, tj_call = [], tj_out = []\<rparr>"

definition discover :: "nat \<Rightarrow> tarjan \<Rightarrow> tarjan" where
  "discover w t = t\<lparr>tj_index := (tj_index t)[w := tj_next t], tj_low := (tj_low t)[w := tj_next t], tj_next := tj_next t + 1,
     tj_st := w # tj_st t, tj_on := (tj_on t)[w := True], tj_call := (w, 0) # tj_call t\<rparr>"

fun popTo :: "nat \<Rightarrow> nat list \<Rightarrow> (nat list \<times> nat list) option" where
  "popTo v [] = None"
| "popTo v (w # st) = (if w = v then Some ([w], st) else map_option (\<lambda>(cmp, st'). (w # cmp, st')) (popTo v st))"

definition lower :: "nat \<Rightarrow> int \<Rightarrow> tarjan \<Rightarrow> tarjan" where
  "lower v x t = t\<lparr>tj_low := (tj_low t)[v := min (tj_low t ! v) x]\<rparr>"

definition followEdge :: "(edge_kind \<Rightarrow> bool) \<Rightarrow> nat \<Rightarrow> edge \<Rightarrow> tarjan \<Rightarrow> tarjan" where
  "followEdge ok v e t =
     (if \<not> ok (e_kind e) then t
      else if tj_index t ! e_to e < 0 then discover (e_to e) t
      else if tj_on t ! e_to e then lower v (tj_index t ! e_to e) t
      else t)"

definition closeComp :: "nat \<Rightarrow> tarjan \<Rightarrow> tarjan option" where
  "closeComp v t =
     (if tj_low t ! v \<noteq> tj_index t ! v then Some t
      else (case popTo v (tj_st t) of
          None \<Rightarrow> None
        | Some (cmp, st) \<Rightarrow>
            Some (t\<lparr>tj_st := st, tj_on := foldl (\<lambda>on w. on[w := False]) (tj_on t) cmp,
              tj_out := (if length cmp > 1 then tj_out t @ [sort cmp] else tj_out t)\<rparr>)))"

definition tarjanStep :: "(edge_kind \<Rightarrow> bool) \<Rightarrow> edge list list \<Rightarrow> tarjan \<Rightarrow> tarjan option" where
  "tarjanStep ok adj t = (case tj_call t of
     [] \<Rightarrow> Some t
   | (v, e) # rest \<Rightarrow>
       if e < length (adj ! v) then Some (followEdge ok v (adj ! v ! e) (t\<lparr>tj_call := (v, Suc e) # rest\<rparr>))
       else
         let t1 = t\<lparr>tj_call := rest\<rparr>;
             t2 = (case rest of [] \<Rightarrow> t1 | (p, _) # _ \<Rightarrow> lower p (tj_low t1 ! v) t1)
         in closeComp v t2)"

fun tarjanLoop :: "nat \<Rightarrow> (edge_kind \<Rightarrow> bool) \<Rightarrow> edge list list \<Rightarrow> tarjan \<Rightarrow> tarjan option" where
  "tarjanLoop 0 ok adj t = None"
| "tarjanLoop (Suc fuel) ok adj t = (if tj_call t = [] then Some t
     else Option.bind (tarjanStep ok adj t) (tarjanLoop fuel ok adj))"

definition sccFuel :: "edge list list \<Rightarrow> nat" where
  "sccFuel adj = Suc (2 * length adj + sum_list (map length adj))"

definition visitRoot :: "(edge_kind \<Rightarrow> bool) \<Rightarrow> edge list list \<Rightarrow> tarjan option \<Rightarrow> nat \<Rightarrow> tarjan option" where
  "visitRoot ok adj ot rt = Option.bind ot (\<lambda>t.
     if tj_index t ! rt \<ge> 0 then Some t else tarjanLoop (sccFuel adj) ok adj (discover rt t))"

definition sccs :: "(edge_kind \<Rightarrow> bool) \<Rightarrow> edge list list \<Rightarrow> nat list list option" where
  "sccs ok adj = map_option tj_out (foldl (visitRoot ok adj) (Some (tj_start (length adj))) [0..<length adj])"

subsection \<open>Breadth-first search\<close>

type_synonym 'a hops = "('a \<times> 'a \<times> edge_kind) list"
type_synonym 'a walk = "('a \<times> edge_kind) list"

fun walkBack :: "nat \<Rightarrow> 'a hops \<Rightarrow> 'a \<Rightarrow> 'a \<Rightarrow> 'a walk option" where
  "walkBack fuel seen src x = (if x = src then Some []
     else (case fuel of 0 \<Rightarrow> None | Suc f \<Rightarrow>
       (case map_of seen x of None \<Rightarrow> None | Some (p, k) \<Rightarrow> map_option ((#) (p, k)) (walkBack f seen src p))))"

datatype 'a scan = Found "'a walk option" | Scanned "'a hops" "'a list"

fun scanFrom :: "('a walk \<Rightarrow> bool) \<Rightarrow> 'a \<Rightarrow> 'a \<Rightarrow> 'a \<Rightarrow> 'a hops \<Rightarrow> 'a list \<Rightarrow> ('a \<times> edge_kind) list \<Rightarrow> 'a scan" where
  "scanFrom acc src dst s seen q [] = Scanned seen q"
| "scanFrom acc src dst s seen q ((x, k) # es) =
     (if x = dst then
        (case walkBack (length seen) seen src s of
           None \<Rightarrow> Found None
         | Some w \<Rightarrow> if acc (rev ((s, k) # w)) then Found (Some (rev ((s, k) # w))) else scanFrom acc src dst s seen q es)
      else if x = src \<or> map_of seen x \<noteq> None then scanFrom acc src dst s seen q es
      else scanFrom acc src dst s ((x, s, k) # seen) (q @ [x]) es)"

fun bfs :: "nat \<Rightarrow> ('a \<Rightarrow> ('a \<times> edge_kind) list) \<Rightarrow> ('a walk \<Rightarrow> bool) \<Rightarrow> 'a \<Rightarrow> 'a \<Rightarrow> 'a hops \<Rightarrow> 'a list \<Rightarrow> 'a walk option option" where
  "bfs fuel succs acc src dst seen [] = Some None"
| "bfs 0 succs acc src dst seen (s # q) = None"
| "bfs (Suc fuel) succs acc src dst seen (s # q) = (case scanFrom acc src dst s seen q (succs s) of
     Found None \<Rightarrow> None
   | Found (Some w) \<Rightarrow> Some (Some w)
   | Scanned seen' q' \<Rightarrow> bfs fuel succs acc src dst seen' q')"

definition nexts :: "edge list list \<Rightarrow> (nat \<Rightarrow> bool) \<Rightarrow> (edge_kind \<Rightarrow> bool) \<Rightarrow> nat \<Rightarrow> (nat \<times> edge_kind) list" where
  "nexts adj inn ok v = map (\<lambda>e. (e_to e, e_kind e)) (filter (\<lambda>e. ok (e_kind e) \<and> inn (e_to e)) (adj ! v))"

definition path :: "edge list list \<Rightarrow> nat \<Rightarrow> nat \<Rightarrow> (nat \<Rightarrow> bool) \<Rightarrow> (edge_kind \<Rightarrow> bool) \<Rightarrow> nat walk option option" where
  "path adj src dst inn ok = bfs (Suc (length adj)) (nexts adj inn ok) (\<lambda>_. True) src dst [] [src]"

fun cycleLoop :: "edge list list \<Rightarrow> (nat \<Rightarrow> bool) \<Rightarrow> (edge_kind \<Rightarrow> bool) \<Rightarrow> nat walk option \<Rightarrow> nat list \<Rightarrow> nat walk option option" where
  "cycleLoop adj inn ok best [] = Some best"
| "cycleLoop adj inn ok best (v # vs) = Option.bind (path adj v v inn ok) (\<lambda>cyc. case cyc of
     None \<Rightarrow> cycleLoop adj inn ok best vs
   | Some w \<Rightarrow> if best = None \<or> length w < length (the best)
       then (if length w = 2 then Some (Some w) else cycleLoop adj inn ok (Some w) vs)
       else cycleLoop adj inn ok best vs)"

definition cycleWithin :: "edge list list \<Rightarrow> nat list \<Rightarrow> (nat \<Rightarrow> bool) \<Rightarrow> (edge_kind \<Rightarrow> bool) \<Rightarrow> nat walk option option" where
  "cycleWithin adj cmp inn ok = cycleLoop adj inn ok None cmp"

definition noRW :: "edge_kind \<Rightarrow> bool" where
  "noRW k \<longleftrightarrow> k \<noteq> RW"

fun firstOf :: "('x \<Rightarrow> 'y option option) \<Rightarrow> 'x list \<Rightarrow> 'y option option" where
  "firstOf f [] = Some None"
| "firstOf f (x # xs) = Option.bind (f x) (\<lambda>r. case r of None \<Rightarrow> firstOf f xs | Some y \<Rightarrow> Some (Some y))"

definition gSingle :: "edge list list \<Rightarrow> nat list \<Rightarrow> (nat \<Rightarrow> bool) \<Rightarrow> nat walk option option" where
  "gSingle adj cmp inn = firstOf (\<lambda>a. firstOf (\<lambda>e.
      if e_kind e \<noteq> RW \<or> \<not> inn (e_to e) then Some None
      else map_option (map_option ((#) (a, RW))) (path adj (e_to e) a inn noRW)) (adj ! a)) cmp"

definition nextStates :: "edge list list \<Rightarrow> (nat \<Rightarrow> bool) \<Rightarrow> nat \<times> bool \<Rightarrow> ((nat \<times> bool) \<times> edge_kind) list" where
  "nextStates adj inn s = map (\<lambda>e. ((e_to e, e_kind e = RW), e_kind e))
     (filter (\<lambda>e. \<not> (\<not> inn (e_to e) \<or> (e_kind e = RW \<and> snd s))) (adj ! fst s))"

fun distinctVerts :: "nat list \<Rightarrow> nat list \<Rightarrow> bool" where
  "distinctVerts sn [] = True"
| "distinctVerts sn (v # vs) = (if v \<in> set sn then False else distinctVerts (v # sn) vs)"

definition keepWalk :: "(nat \<times> bool) walk \<Rightarrow> bool" where
  "keepWalk w \<longleftrightarrow> RW \<in> set (map snd w) \<and> distinctVerts [] (map (fst \<circ> fst) w)"

definition nonadjacent :: "edge list list \<Rightarrow> nat list \<Rightarrow> (nat \<Rightarrow> bool) \<Rightarrow> nat walk option option" where
  "nonadjacent adj cmp inn = firstOf (\<lambda>start. firstOf (\<lambda>startRW.
      map_option (map_option (map (\<lambda>((v, _), k). (v, k))))
        (bfs (Suc (2 * length adj)) (nextStates adj inn) keepWalk (start, startRW) (start, startRW) [] [(start, startRW)])) [False, True]) cmp"

subsection \<open>Reports\<close>

definition reportCycle :: "string \<Rightarrow> checker \<Rightarrow> nat walk \<Rightarrow> checker" where
  "reportCycle kind c w =
     (let ids = map (\<lambda>(v, _). idOf c v) w in
      report c \<lparr>taKind = kind, taTxns = ids, taEdges = map snd w, taKey = [],
        taDetail = (concat (map (\<lambda>_. ''%d -%s-> '') w) @ ''%d'',
          concat (map (\<lambda>(v, k). [LInt (idOf c v), LStr (kind_text k)]) w) @ [LInt (hd ids)])\<rparr>)"

definition reportPair :: "checker \<Rightarrow> pair \<Rightarrow> checker" where
  "reportPair c p = (case p of (x, y, k) \<Rightarrow>
     let a = idOf c x; b = idOf c y in
     report c \<lparr>taKind = ''G-single'', taTxns = [a, b], taEdges = [WW, RW], taKey = k,
       taDetail = (''txns %d and %d each read %s and appended to it, and no read saw either append: whichever appended first, the other read %s before that append and appended after it (%d -ww-> %d -rw-> %d, or the reverse)'',
         [LInt a, LInt b, LStr k, LStr k, LInt a, LInt b, LInt a])\<rparr>)"

definition pairWithin :: "checker \<Rightarrow> (nat \<Rightarrow> bool) \<Rightarrow> pair option" where
  "pairWithin c inn = find (\<lambda>(a, b, _). inn a \<and> inn b) (c_pairs c)"

text \<open>The pure cycles of a component, those with anti-dependencies, and all the rest.\<close>

definition dirtyCycles :: "checker \<Rightarrow> nat list \<Rightarrow> (nat \<Rightarrow> bool) \<Rightarrow> (bool \<times> checker) option" where
  "dirtyCycles c cmp inn = Option.bind (cycleWithin (c_adj c) cmp inn (\<lambda>k. k = WW)) (\<lambda>r. case r of
     Some w \<Rightarrow> Some (True, reportCycle ''G0'' c w)
   | None \<Rightarrow> Option.bind (cycleWithin (c_adj c) cmp inn noRW) (\<lambda>r. case r of
       Some w \<Rightarrow> Some (True, reportCycle ''G1c'' c w)
     | None \<Rightarrow> Some (False, c)))"

definition antiCycles :: "checker \<Rightarrow> nat list \<Rightarrow> (nat \<Rightarrow> bool) \<Rightarrow> (bool \<times> checker) option" where
  "antiCycles c cmp inn = Option.bind (gSingle (c_adj c) cmp inn) (\<lambda>r. case r of
     Some w \<Rightarrow> Some (True, reportCycle ''G-single'' c w)
   | None \<Rightarrow> (case pairWithin c inn of
       Some p \<Rightarrow> Some (True, reportPair c p)
     | None \<Rightarrow> Option.bind (nonadjacent (c_adj c) cmp inn) (\<lambda>r. case r of
         Some w \<Rightarrow> Some (True, reportCycle ''G-nonadjacent'' c w)
       | None \<Rightarrow> Some (False, c))))"

definition cyclesIn :: "checker \<Rightarrow> nat list \<Rightarrow> checker option" where
  "cyclesIn c cmp =
     (let inn = (\<lambda>v. v \<in> set cmp) in
      Option.bind (dirtyCycles c cmp inn) (\<lambda>(found1, c1).
      Option.bind (antiCycles c1 cmp inn) (\<lambda>(found2, c2).
      if found1 \<or> found2 then Some c2
      else Option.bind (cycleWithin (c_adj c2) cmp inn (\<lambda>_. True)) (\<lambda>r. case r of
          Some w \<Rightarrow> Some (reportCycle ''G2'' c2 w)
        | None \<Rightarrow> Some c2))))"

definition componentOf :: "nat \<Rightarrow> nat list list \<Rightarrow> nat list" where
  "componentOf n comps = foldl (\<lambda>component (i, cmp). foldl (\<lambda>component v. component[v := Suc i]) component cmp) (replicate n 0) (enumerate 0 comps)"

definition cycles :: "checker \<Rightarrow> checker option" where
  "cycles c = Option.bind (sccs (\<lambda>_. True) (c_adj c)) (\<lambda>comps.
     Option.bind (foldl (\<lambda>oc cmp. Option.bind oc (\<lambda>c. cyclesIn c cmp)) (Some c) comps) (\<lambda>c1.
     let component = componentOf (length (c_txns c)) comps in
     Some (foldl (\<lambda>c (a, b, k). if component ! a = 0 \<or> component ! a \<noteq> component ! b then reportPair c (a, b, k) else c) c1 (c_pairs c1))))"

subsection \<open>The whole check\<close>

record iteration =
  it_orders :: "string list"
  it_effects :: "string list"
  it_edges :: "string list"

definition newChecker :: "Txn list \<Rightarrow> Options \<Rightarrow> checker" where
  "newChecker txns opts = \<lparr>c_txns = txns, c_opts = opts, c_writer = (\<lambda>_. []), c_appended = (\<lambda>_ _. []), c_order = (\<lambda>_. []),
     c_took = [], c_adj = [], c_pairs = [], c_out = []\<rparr>"

definition CheckTxns :: "iteration \<Rightarrow> Txn list \<Rightarrow> Options \<Rightarrow> TxnAnomaly list option" where
  "CheckTxns it txns opts =
     (let c1 = appends (newChecker txns opts);
          c2 = internal c1;
          c3 = orders (it_orders it) c2;
          c4 = effects (it_effects it) c3;
          c5 = reads c4;
          c6 = c5\<lparr>c_adj := replicate (length txns) []\<rparr>;
          c7 = edges (it_edges it) c6
      in map_option c_out (cycles c7))"

end
