(* ===== verification/Txn_Bfs.thy ===== *)
theory Txn_Bfs
  imports Txn_Cycles
begin

text \<open>
  The breadth-first searches: they return, a walk they find is a walk of the graph, and a
  search that accepts every walk finds one if there is one.
\<close>

subsection \<open>Walks\<close>

fun is_walk :: "('a \<Rightarrow> ('a \<times> edge_kind) list) \<Rightarrow> 'a walk \<Rightarrow> 'a \<Rightarrow> 'a \<Rightarrow> bool" where
  "is_walk succs [] x y \<longleftrightarrow> x = y"
| "is_walk succs ((v, k) # w) x y \<longleftrightarrow> v = x \<and> (\<exists>z. (z, k) \<in> set (succs v) \<and> is_walk succs w z y)"

lemma is_walk_append: "is_walk succs (w @ w') x y \<longleftrightarrow> (\<exists>z. is_walk succs w x z \<and> is_walk succs w' z y)"
  by (induction succs w x y rule: is_walk.induct) auto

lemma is_walk_mono: "is_walk succs w x y \<Longrightarrow> (\<And>v. set (succs v) \<subseteq> set (succs' v)) \<Longrightarrow> is_walk succs' w x y"
  by (induction succs w x y rule: is_walk.induct) auto

lemma is_walk_rank:
  assumes "is_walk succs w x y" "w \<noteq> []" "\<And>v z k. (z, k) \<in> set (succs v) \<Longrightarrow> rank v < (rank z :: nat)"
  shows "rank x < rank y"
  using assms
proof (induction succs w x y rule: is_walk.induct)
  case (2 succs v k w x y)
  then obtain z where z: "v = x" "(z, k) \<in> set (succs v)" "is_walk succs w z y" by auto
  then have "rank x < rank z" using 2(4) by blast
  moreover have "rank z \<le> rank y"
  proof (cases "w = []")
    case False
    have "rank z < rank y" by (rule "2.IH" [OF z(3) False]) (rule 2(4))
    then show ?thesis by simp
  qed (use z(3) in simp)
  ultimately show ?case by simp
qed simp

subsection \<open>The predecessors a search keeps\<close>

definition known :: "'a \<Rightarrow> 'a hops \<Rightarrow> 'a set" where
  "known src hs = insert src (fst ` set hs)"

lemma known_simps [simp]: "known src [] = {src}" "known src ((x, h) # hs) = insert x (known src hs)" "src \<in> known src hs"
  by (auto simp: known_def)

lemma map_of_known: "x = src \<or> map_of hs x \<noteq> None \<longleftrightarrow> x \<in> known src hs"
  by (auto simp: known_def map_of_eq_None_iff)

fun hops_ok :: "('a \<Rightarrow> ('a \<times> edge_kind) list) \<Rightarrow> 'a \<Rightarrow> 'a hops \<Rightarrow> bool" where
  "hops_ok succs src [] \<longleftrightarrow> True"
| "hops_ok succs src ((x, p, k) # hs) \<longleftrightarrow> x \<notin> known src hs \<and> (x, k) \<in> set (succs p) \<and> p \<in> known src hs \<and> hops_ok succs src hs"

lemma hops_ok_append: "hops_ok succs src (xs @ hs) \<Longrightarrow> hops_ok succs src hs"
  by (induction xs) auto

lemma hops_ok_map_of: "hops_ok succs src (xs @ (y, p, k) # hs) \<Longrightarrow> map_of (xs @ (y, p, k) # hs) y = Some (p, k) \<and> y \<noteq> src"
  by (induction xs) (auto simp: known_def rev_image_eqI)

lemma walkBack_suffix:
  assumes "hops_ok succs src (xs @ hs)" "x \<in> known src hs" "length hs \<le> fuel"
  shows "\<exists>w. walkBack fuel (xs @ hs) src x = Some w \<and> is_walk succs (rev w) src x"
  using assms
proof (induction hs arbitrary: xs x fuel)
  case (Cons h hs)
  obtain y p k where h: "h = (y, p, k)" by (cases h)
  show ?case
  proof (cases "x = y")
    case False
    then show ?thesis using Cons.IH [of "xs @ [h]" x fuel] Cons.prems h by auto
  next
    case True
    note m = hops_ok_map_of [OF Cons.prems(1) [unfolded h]]
    obtain f where f: "fuel = Suc f" "length hs \<le> f" using Cons.prems(3) by (cases fuel) auto
    have ok: "(y, k) \<in> set (succs p)" "p \<in> known src hs" using hops_ok_append [OF Cons.prems(1)] h by auto
    obtain w where "walkBack f (xs @ h # hs) src p = Some w" "is_walk succs (rev w) src p"
      using Cons.IH [of "xs @ [h]" p f] Cons.prems(1) ok(2) f(2) by auto
    then show ?thesis using m True f(1) h ok(1) by (auto simp: is_walk_append)
  qed
qed auto

lemma walkBack_ok:
  assumes "hops_ok succs src hs" "x \<in> known src hs"
  obtains w where "walkBack (length hs) hs src x = Some w" "is_walk succs (rev w) src x"
  using walkBack_suffix [of succs src "[]" hs x "length hs"] assms by auto

subsection \<open>One state's edges\<close>

definition scan_ok :: "('a \<Rightarrow> ('a \<times> edge_kind) list) \<Rightarrow> ('a walk \<Rightarrow> bool) \<Rightarrow> 'a \<Rightarrow> 'a \<Rightarrow> 'a hops \<Rightarrow> 'a list \<Rightarrow> 'a set \<Rightarrow> 'a scan \<Rightarrow> bool" where
  "scan_ok succs acc src dst hs q E res \<longleftrightarrow> (case res of
      Found r \<Rightarrow> (\<exists>w. r = Some w \<and> is_walk succs w src dst \<and> w \<noteq> [] \<and> acc w)
    | Scanned hs' q' \<Rightarrow> (\<exists>new. hops_ok succs src hs' \<and> q' = q @ new \<and> distinct new \<and> known src hs' = known src hs \<union> set new \<and>
        set new \<inter> known src hs = {} \<and> set new \<subseteq> E \<and> ((\<forall>w. acc w) \<longrightarrow> dst \<notin> E) \<and> E - {dst} \<subseteq> known src hs'))"

lemma scan_ok_Scanned:
  assumes "scan_ok succs acc src dst hs q E (Scanned hs' q')"
  obtains new where "hops_ok succs src hs'" "q' = q @ new" "distinct new" "known src hs' = known src hs \<union> set new"
    "set new \<inter> known src hs = {}" "set new \<subseteq> E" "(\<forall>w. acc w) \<longrightarrow> dst \<notin> E" "E - {dst} \<subseteq> known src hs'"
  using assms unfolding scan_ok_def scan.case by blast

lemma scan_ok_skip:
  assumes "scan_ok succs acc src dst hs q E res" "x \<in> known src hs \<and> x \<noteq> dst \<or> x = dst \<and> \<not> (\<forall>w. acc w)"
  shows "scan_ok succs acc src dst hs q (insert x E) res"
proof (cases res)
  case (Scanned hs' q')
  obtain new where n: "hops_ok succs src hs'" "q' = q @ new" "distinct new" "known src hs' = known src hs \<union> set new"
    "set new \<inter> known src hs = {}" "set new \<subseteq> E" "(\<forall>w. acc w) \<longrightarrow> dst \<notin> E" "E - {dst} \<subseteq> known src hs'"
    using scan_ok_Scanned assms(1) Scanned by metis
  have "set new \<subseteq> insert x E" using n(6) by blast
  moreover have "(\<forall>w. acc w) \<longrightarrow> dst \<notin> insert x E" using n(7) assms(2) by blast
  moreover have "insert x E - {dst} \<subseteq> known src hs'" using n(4,8) assms(2) by blast
  ultimately show ?thesis unfolding scan_ok_def Scanned scan.case using n(1-5) by (intro exI [of _ new] conjI)
qed (use assms(1) in \<open>simp add: scan_ok_def\<close>)

lemma scan_ok_new:
  assumes "scan_ok succs acc src dst ((x, s, k) # hs) (q @ [x]) E res" "x \<notin> known src hs" "x \<noteq> dst"
  shows "scan_ok succs acc src dst hs q (insert x E) res"
proof (cases res)
  case (Scanned hs' q')
  let ?hs = "(x, s, k) # hs"
  obtain new where n: "hops_ok succs src hs'" "q' = (q @ [x]) @ new" "distinct new" "known src hs' = known src ?hs \<union> set new"
    "set new \<inter> known src ?hs = {}" "set new \<subseteq> E" "(\<forall>w. acc w) \<longrightarrow> dst \<notin> E" "E - {dst} \<subseteq> known src hs'"
    using scan_ok_Scanned assms(1) Scanned by metis
  have "q' = q @ (x # new)" "distinct (x # new)" "known src hs' = known src hs \<union> set (x # new)"
    "set (x # new) \<inter> known src hs = {}" "set (x # new) \<subseteq> insert x E"
    using n(2-6) assms(2) by auto
  moreover have "(\<forall>w. acc w) \<longrightarrow> dst \<notin> insert x E" using n(7) assms(3) by blast
  moreover have "insert x E - {dst} \<subseteq> known src hs'" using n(4,8) by auto
  ultimately show ?thesis unfolding scan_ok_def Scanned scan.case using n(1) by (intro exI [of _ "x # new"] conjI)
qed (use assms(1) in \<open>simp add: scan_ok_def\<close>)

lemma scanFrom_ok:
  assumes "hops_ok succs src hs" "s \<in> known src hs" "set es \<subseteq> set (succs s)"
  shows "scan_ok succs acc src dst hs q (fst ` set es) (scanFrom acc src dst s hs q es)"
  using assms
proof (induction es arbitrary: hs q)
  case Nil
  then show ?case by (simp add: scan_ok_def)
next
  case (Cons e es)
  obtain x k where e: "e = (x, k)" by fastforce
  have es: "set es \<subseteq> set (succs s)" "(x, k) \<in> set (succs s)" "fst ` set (e # es) = insert x (fst ` set es)" using Cons.prems(3) e by auto
  note IH = Cons.IH [OF Cons.prems(1,2) es(1)]
  consider (hit) "x = dst" | (old) "x \<noteq> dst" "x \<in> known src hs" | (new) "x \<noteq> dst" "x \<notin> known src hs" by blast
  then show ?case
  proof cases
    case hit
    obtain w where w: "walkBack (length hs) hs src s = Some w" "is_walk succs (rev w) src s" using walkBack_ok [OF Cons.prems(1,2)] by blast
    have walk: "is_walk succs (rev ((s, k) # w)) src dst" using w(2) es(2) hit by (auto simp: is_walk_append)
    show ?thesis
    proof (cases "acc (rev ((s, k) # w))")
      case True
      then have "scanFrom acc src dst s hs q (e # es) = Found (Some (rev ((s, k) # w)))" using w(1) hit e by simp
      then show ?thesis using walk True by (simp add: scan_ok_def del: rev.simps)
    next
      case False
      then have "scanFrom acc src dst s hs q (e # es) = scanFrom acc src dst s hs q es" using w(1) hit e by simp
      moreover have "\<not> (\<forall>w. acc w)" using False by blast
      ultimately show ?thesis using scan_ok_skip [OF IH, of x] hit es(3) by metis
    qed
  next
    case old
    then have "scanFrom acc src dst s hs q (e # es) = scanFrom acc src dst s hs q es"
      using e map_of_known [of x src hs] by simp
    then show ?thesis using scan_ok_skip [OF IH, of x] old es(3) by metis
  next
    case new
    let ?hs = "(x, s, k) # hs"
    have step: "scanFrom acc src dst s hs q (e # es) = scanFrom acc src dst s ?hs (q @ [x]) es"
      using new e map_of_known [of x src hs] by simp
    have "hops_ok succs src ?hs" "s \<in> known src ?hs" using Cons.prems es(2) new by auto
    from scan_ok_new [OF Cons.IH [OF this es(1)] new(2,1)] show ?thesis unfolding step es(3) .
  qed
qed

subsection \<open>The search\<close>

text \<open>What is known of a search that accepts every walk: a state off the queue leads only to known states.\<close>

definition closed_off :: "('a \<Rightarrow> ('a \<times> edge_kind) list) \<Rightarrow> ('a walk \<Rightarrow> bool) \<Rightarrow> 'a \<Rightarrow> 'a \<Rightarrow> 'a hops \<Rightarrow> 'a list \<Rightarrow> bool" where
  "closed_off succs acc src dst hs q \<longleftrightarrow> (\<forall>w. acc w) \<longrightarrow>
     (\<forall>v \<in> known src hs - set q. \<forall>(x, k) \<in> set (succs v). x \<noteq> dst \<and> x \<in> known src hs)"

lemma closed_off_no_walk:
  assumes "closed_off succs acc src dst hs []" "\<forall>w. acc w"
  shows "x \<in> known src hs \<Longrightarrow> w \<noteq> [] \<Longrightarrow> \<not> is_walk succs w x dst"
proof (induction w arbitrary: x)
  case (Cons e w)
  obtain v k where e: "e = (v, k)" by fastforce
  have c: "z \<noteq> dst \<and> z \<in> known src hs" if "(z, k) \<in> set (succs x)" for z
    using assms Cons.prems(1) that unfolding closed_off_def by fastforce
  show ?case
  proof
    assume "is_walk succs (e # w) x dst"
    then obtain z where z: "(z, k) \<in> set (succs x)" "is_walk succs w z dst" by (auto simp: e)
    then show False using Cons.IH [of z] c [OF z(1)] by (cases "w = []") auto
  qed
qed simp

definition search_result :: "('a \<Rightarrow> ('a \<times> edge_kind) list) \<Rightarrow> ('a walk \<Rightarrow> bool) \<Rightarrow> 'a \<Rightarrow> 'a \<Rightarrow> 'a walk option \<Rightarrow> bool" where
  "search_result succs acc src dst r \<longleftrightarrow> (case r of
     Some w \<Rightarrow> is_walk succs w src dst \<and> w \<noteq> [] \<and> acc w
   | None \<Rightarrow> (\<forall>w. acc w) \<longrightarrow> (\<forall>w. w \<noteq> [] \<longrightarrow> \<not> is_walk succs w src dst))"

lemma bfs_ok:
  assumes "hops_ok succs src hs" "set q \<subseteq> known src hs" "known src hs \<subseteq> V" "finite V"
    and closed: "\<And>v x k. v \<in> V \<Longrightarrow> (x, k) \<in> set (succs v) \<Longrightarrow> x \<in> V" and "length q + card (V - known src hs) \<le> fuel"
    and "closed_off succs acc src dst hs q"
  shows "\<exists>r. bfs fuel succs acc src dst hs q = Some r \<and> search_result succs acc src dst r"
  using assms(1-3,6,7)
proof (induction fuel arbitrary: hs q)
  case 0
  then have q: "q = []" by simp
  then show ?case using closed_off_no_walk [of succs acc src dst hs src] 0(5) by (auto simp: search_result_def)
next
  case (Suc fuel)
  show ?case
  proof (cases q)
    case Nil
    then show ?thesis using closed_off_no_walk [of succs acc src dst hs src] Suc.prems(5) by (auto simp: search_result_def)
  next
    case (Cons s q')
    then have s: "s \<in> known src hs" using Suc.prems(2) by auto
    note sc = scanFrom_ok [OF Suc.prems(1) s order.refl, of acc dst q']
    show ?thesis
    proof (cases "scanFrom acc src dst s hs q' (succs s)")
      case (Found r)
      then show ?thesis using sc Cons by (auto simp: scan_ok_def search_result_def)
    next
      case (Scanned hs' q'')
      obtain new where n: "hops_ok succs src hs'" "q'' = q' @ new" "distinct new" "known src hs' = known src hs \<union> set new"
        "set new \<inter> known src hs = {}" "set new \<subseteq> fst ` set (succs s)" "(\<forall>w. acc w) \<longrightarrow> dst \<notin> fst ` set (succs s)"
        "fst ` set (succs s) - {dst} \<subseteq> known src hs'"
        using scan_ok_Scanned sc Scanned by metis
      have V: "set new \<subseteq> V" using n(6) closed s Suc.prems(3) by fastforce
      have "q'' = q' @ new" "set q'' \<subseteq> known src hs'" using n(2,4) Suc.prems(2) Cons by auto
      moreover have "known src hs' \<subseteq> V" using n(4) V Suc.prems(3) by blast
      moreover have "length q'' + card (V - known src hs') \<le> fuel"
      proof -
        have "V - known src hs' = (V - known src hs) - set new" using n(4) by blast
        moreover have "set new \<subseteq> V - known src hs" using V n(5) by blast
        ultimately have "card (V - known src hs') = card (V - known src hs) - length new" "length new \<le> card (V - known src hs)"
          using card_Diff_subset [of "set new" "V - known src hs"] card_mono [of "V - known src hs" "set new"] assms(4) distinct_card [OF n(3)] by simp_all
        then show ?thesis using Suc.prems(4) Cons n(2) by simp
      qed
      moreover have "closed_off succs acc src dst hs' q''"
        unfolding closed_off_def
      proof (intro impI ballI)
        fix v e assume acc: "\<forall>w. acc w" and v: "v \<in> known src hs' - set q''" and e: "e \<in> set (succs v)"
        obtain x k where xk: "e = (x, k)" by fastforce
        have "v = s \<or> v \<in> known src hs - set q" using v n(2,4) Cons by auto
        then have "x \<noteq> dst \<and> x \<in> known src hs'"
        proof
          assume "v = s"
          then have "x \<in> fst ` set (succs s)" using e xk by force
          then show ?thesis using n(7,8) acc by blast
        next
          assume "v \<in> known src hs - set q"
          then have "x \<noteq> dst \<and> x \<in> known src hs" using Suc.prems(5) acc e xk unfolding closed_off_def by fastforce
          then show ?thesis using n(4) by blast
        qed
        then show "case e of (x, k) \<Rightarrow> x \<noteq> dst \<and> x \<in> known src hs'" by (simp add: xk)
      qed
      ultimately show ?thesis using Suc.IH [of hs' q''] n(1) Scanned Cons by simp
    qed
  qed
qed

subsection \<open>Paths and cycles of the dependency graph\<close>

definition wf_adj :: "edge list list \<Rightarrow> bool" where
  "wf_adj adj \<longleftrightarrow> (\<forall>es \<in> set adj. \<forall>e \<in> set es. e_to e < length adj)"

lemma edge_eq: "e = \<lparr>e_to = x, e_kind = k\<rparr> \<longleftrightarrow> e_to e = x \<and> e_kind e = k"
  by (cases e) simp

lemma edge_mem: "\<lparr>e_to = x, e_kind = k\<rparr> \<in> set es \<longleftrightarrow> (\<exists>e \<in> set es. e_to e = x \<and> e_kind e = k)"
  by (metis edge_eq)

lemma set_nexts: "(x, k) \<in> set (nexts adj inn ok v) \<longleftrightarrow> ok k \<and> inn x \<and> \<lparr>e_to = x, e_kind = k\<rparr> \<in> set (adj ! v)"
  unfolding edge_mem by (auto simp: nexts_def)

lemma set_nextStates:
  "(s', k) \<in> set (nextStates adj inn s) \<longleftrightarrow>
     inn (fst s') \<and> snd s' = (k = RW) \<and> \<not> (k = RW \<and> snd s) \<and> \<lparr>e_to = fst s', e_kind = k\<rparr> \<in> set (adj ! fst s)"
  unfolding edge_mem by (cases s') (auto simp: nextStates_def)

lemma wf_adjD: "wf_adj adj \<Longrightarrow> v < length adj \<Longrightarrow> e \<in> set (adj ! v) \<Longrightarrow> e_to e < length adj"
  unfolding wf_adj_def by (meson nth_mem)

lemma bfs_from_start:
  assumes "src \<in> V" "finite V" "\<And>v x k. v \<in> V \<Longrightarrow> (x, k) \<in> set (succs v) \<Longrightarrow> x \<in> V" "card V < fuel"
  obtains r where "bfs fuel succs acc src dst [] [src] = Some r" "search_result succs acc src dst r"
proof -
  have "card (V - {src}) < card V" using assms(1,2) by (rule card_Diff1_less [rotated])
  then have "length [src] + card (V - known src []) \<le> fuel" using assms(4) by simp
  moreover have "hops_ok succs src []" "set [src] \<subseteq> known src []" "known src [] \<subseteq> V" "closed_off succs acc src dst [] [src]"
    using assms(1) by (simp_all add: closed_off_def)
  ultimately show ?thesis using bfs_ok [of succs src "[]" "[src]" V fuel acc dst] assms(2,3) that by blast
qed

lemma path_result:
  assumes "wf_adj adj" "src < length adj"
  obtains r where "path adj src dst inn ok = Some r" "search_result (nexts adj inn ok) (\<lambda>_. True) src dst r"
proof (rule bfs_from_start [of src "{..<length adj}" "nexts adj inn ok" "Suc (length adj)" "\<lambda>_. True" dst])
  show "x \<in> {..<length adj}" if "v \<in> {..<length adj}" "(x, k) \<in> set (nexts adj inn ok v)" for v x k
    using wf_adjD [OF assms(1), of v] that by (fastforce simp: set_nexts)
qed (use assms(2) that in \<open>auto simp: path_def\<close>)

lemma nonadjacent_search:
  assumes "wf_adj adj" "fst s < length adj"
  obtains r where "bfs (Suc (2 * length adj)) (nextStates adj inn) keepWalk s s [] [s] = Some r" "search_result (nextStates adj inn) keepWalk s s r"
proof (rule bfs_from_start [of s "{..<length adj} \<times> UNIV" "nextStates adj inn" "Suc (2 * length adj)" keepWalk s])
  show "x \<in> {..<length adj} \<times> UNIV" if "v \<in> {..<length adj} \<times> UNIV" "(x, k) \<in> set (nextStates adj inn v)" for v x k
    using wf_adjD [OF assms(1), of "fst v"] that by (fastforce simp: set_nextStates mem_Times_iff)
  show "card ({..<length adj} \<times> (UNIV :: bool set)) < Suc (2 * length adj)" by (simp add: card_cartesian_product)
  show "finite ({..<length adj} \<times> (UNIV :: bool set))" by simp
qed (use assms(2) that in \<open>auto simp: mem_Times_iff\<close>)

text \<open>
  \<^verbatim>\<open>path\<close> decides reachability. Over a dependency graph whose edges lead to transactions,
  the search from a transaction returns; a path it returns is one of the graph, over accepted
  edges within the component; and it returns none only when there is none.
\<close>

theorem path_finds:
  assumes "wf_adj adj" and "src < length adj"
  shows "\<exists>r. path adj src dst inn ok = Some r \<and>
    (case r of
       Some w \<Rightarrow> w \<noteq> [] \<and> is_walk (nexts adj inn ok) w src dst
     | None \<Rightarrow> \<not> (\<exists>w. w \<noteq> [] \<and> is_walk (nexts adj inn ok) w src dst))"
proof -
  obtain r where r: "path adj src dst inn ok = Some r" "search_result (nexts adj inn ok) (\<lambda>_. True) src dst r"
    using path_result [OF assms] .
  then show ?thesis by (intro exI [of _ r]) (auto simp: search_result_def split: option.splits)
qed

definition demo_adj :: "edge list list" where
  "demo_adj = [[\<lparr>e_to = 1, e_kind = WW\<rparr>], [\<lparr>e_to = 2, e_kind = RW\<rparr>, \<lparr>e_to = 0, e_kind = WR\<rparr>], [\<lparr>e_to = 0, e_kind = RW\<rparr>]]"

theorem path_finds_witness:
  "path demo_adj 0 0 (\<lambda>_. True) noRW = Some (Some [(0, WW), (1, WR)]) \<and> is_walk (nexts demo_adj (\<lambda>_. True) noRW) [(0, WW), (1, WR)] 0 0"
proof -
  have p: "path demo_adj 0 0 (\<lambda>_. True) noRW = Some (Some [(0, WW), (1, WR)])" by code_simp
  have "wf_adj demo_adj" "0 < length demo_adj" by (simp_all add: wf_adj_def demo_adj_def)
  from path_finds [OF this, of 0 "\<lambda>_. True" noRW] show ?thesis using p by simp
qed

end
