(* ===== verification/Txn_Tarjan.thy ===== *)
theory Txn_Tarjan
  imports Txn_Bfs
begin

text \<open>
  The component search, an iterative Tarjan, is correct: it returns, and what it returns are
  the strongly connected components with more than one transaction, each once. The invariant
  is stated first over functions and sets (numbers, stack, open transactions, the successors
  looked at so far), where each move of the search keeps it, and then read off the lists.
\<close>

subsection \<open>The invariant\<close>

definition scc :: "(nat \<times> nat) set \<Rightarrow> nat \<Rightarrow> nat set" where
  "scc E v = {w. (v, w) \<in> E\<^sup>* \<and> (w, v) \<in> E\<^sup>*}"

text \<open>The open transaction a transaction on the stack belongs to: the last one at or below it.\<close>

definition owner :: "(nat \<Rightarrow> int) \<Rightarrow> nat list \<Rightarrow> nat \<Rightarrow> nat \<Rightarrow> bool" where
  "owner ix fr v x \<longleftrightarrow> ix v \<le> ix x \<and> (\<forall>g \<in> set fr. ix v < ix g \<longrightarrow> ix x < ix g)"

definition stack_ok :: "nat \<Rightarrow> (nat \<times> nat) set \<Rightarrow> (nat \<Rightarrow> int) \<Rightarrow> int \<Rightarrow> nat list \<Rightarrow> nat list \<Rightarrow> bool" where
  "stack_ok n E ix nx st fr \<longleftrightarrow>
     E \<subseteq> {..<n} \<times> {..<n} \<and> 0 \<le> nx \<and> (\<forall>v < n. ix v < nx) \<and>
     set st \<subseteq> {..<n} \<and> (\<forall>v \<in> set st. 0 \<le> ix v) \<and> sorted_wrt (\<lambda>x y. ix y < ix x) st \<and>
     sorted_wrt (\<lambda>x y. ix y < ix x) fr \<and> set fr \<subseteq> set st \<and>
     (\<forall>x \<in> set st. \<forall>y \<in> set st. ix x \<le> ix y \<longrightarrow> (x, y) \<in> E\<^sup>*) \<and>
     (\<forall>x \<in> set st. \<exists>g \<in> set fr. ix g \<le> ix x \<and> (x, g) \<in> E\<^sup>*)"

definition looked_ok :: "nat \<Rightarrow> (nat \<times> nat) set \<Rightarrow> (nat \<Rightarrow> int) \<Rightarrow> nat list \<Rightarrow> nat list \<Rightarrow> (nat \<Rightarrow> nat set) \<Rightarrow> bool" where
  "looked_ok n E ix st fr D \<longleftrightarrow>
     (\<forall>v < n. D v \<subseteq> E `` {v} \<and> (ix v < 0 \<longrightarrow> D v = {}) \<and> (0 \<le> ix v \<longrightarrow> v \<notin> set fr \<longrightarrow> D v = E `` {v}) \<and>
        (\<forall>w \<in> D v. 0 \<le> ix w) \<and> (0 \<le> ix v \<longrightarrow> v \<notin> set st \<longrightarrow> E `` {v} \<inter> set st = {}))"

definition low_ok :: "(nat \<times> nat) set \<Rightarrow> (nat \<Rightarrow> int) \<Rightarrow> (nat \<Rightarrow> int) \<Rightarrow> nat list \<Rightarrow> nat list \<Rightarrow> (nat \<Rightarrow> nat set) \<Rightarrow> bool" where
  "low_ok E ix low st fr D \<longleftrightarrow>
     (\<forall>v \<in> set fr. low v \<le> ix v \<and> (\<exists>y \<in> set st. ix y = low v \<and> (v, y) \<in> E\<^sup>*) \<and>
        (\<forall>x \<in> set st. owner ix fr v x \<longrightarrow> (\<forall>w \<in> D x \<inter> set st. low v \<le> ix w)))"

definition out_ok :: "nat \<Rightarrow> (nat \<times> nat) set \<Rightarrow> (nat \<Rightarrow> int) \<Rightarrow> nat list \<Rightarrow> nat list list \<Rightarrow> bool" where
  "out_ok n E ix st out \<longleftrightarrow> distinct out \<and>
     (\<forall>cmp \<in> set out. sorted cmp \<and> distinct cmp \<and> 1 < length cmp \<and>
        (\<forall>v \<in> set cmp. v < n \<and> 0 \<le> ix v \<and> v \<notin> set st \<and> set cmp = scc E v)) \<and>
     (\<forall>v < n. 0 \<le> ix v \<longrightarrow> v \<notin> set st \<longrightarrow> scc E v \<noteq> {v} \<longrightarrow> (\<exists>cmp \<in> set out. set cmp = scc E v))"

lemmas tj_oks = stack_ok_def looked_ok_def low_ok_def out_ok_def

lemma stack_okD:
  assumes "stack_ok n E ix nx st fr"
  shows "E \<subseteq> {..<n} \<times> {..<n}" "0 \<le> nx" "v < n \<Longrightarrow> ix v < nx" "v \<in> set st \<Longrightarrow> v < n" "v \<in> set st \<Longrightarrow> 0 \<le> ix v"
    "sorted_wrt (\<lambda>x y. ix y < ix x) st" "sorted_wrt (\<lambda>x y. ix y < ix x) fr" "v \<in> set fr \<Longrightarrow> v \<in> set st"
    "x \<in> set st \<Longrightarrow> y \<in> set st \<Longrightarrow> ix x \<le> ix y \<Longrightarrow> (x, y) \<in> E\<^sup>*"
    "x \<in> set st \<Longrightarrow> \<exists>g \<in> set fr. ix g \<le> ix x \<and> (x, g) \<in> E\<^sup>*"
  using assms unfolding stack_ok_def by (simp_all add: subset_iff)

lemma looked_okD:
  assumes "looked_ok n E ix st fr D" "v < n"
  shows "D v \<subseteq> E `` {v}" "ix v < 0 \<Longrightarrow> D v = {}" "0 \<le> ix v \<Longrightarrow> v \<notin> set fr \<Longrightarrow> D v = E `` {v}"
    "w \<in> D v \<Longrightarrow> 0 \<le> ix w" "0 \<le> ix v \<Longrightarrow> v \<notin> set st \<Longrightarrow> E `` {v} \<inter> set st = {}"
  using assms unfolding looked_ok_def by simp_all

lemma low_okD:
  assumes "low_ok E ix low st fr D" "v \<in> set fr"
  shows "low v \<le> ix v" "\<exists>y \<in> set st. ix y = low v \<and> (v, y) \<in> E\<^sup>*"
    "x \<in> set st \<Longrightarrow> owner ix fr v x \<Longrightarrow> w \<in> D x \<Longrightarrow> w \<in> set st \<Longrightarrow> low v \<le> ix w"
  using assms unfolding low_ok_def by blast+

lemma distinct_decreasing: "sorted_wrt (\<lambda>x y. ix y < (ix x :: int)) xs \<Longrightarrow> distinct xs"
  by (induction xs) auto

lemma scc_refl [simp]: "v \<in> scc E v"
  by (simp add: scc_def)

lemma rtrancl_closed:
  assumes "(x, y) \<in> E\<^sup>*" "x \<in> C" "\<And>v w. v \<in> C \<Longrightarrow> (v, w) \<in> E \<Longrightarrow> w \<in> C"
  shows "y \<in> C"
  using assms(1,2) by (induction rule: rtrancl_induct) (auto intro: assms(3))

subsection \<open>Moves\<close>

text \<open>An edge to a transaction on the stack, or done with.\<close>

lemma look_back:
  assumes st: "stack_ok n E ix nx st (v # fr)" and lk: "looked_ok n E ix st (v # fr) D" and lw: "low_ok E ix low st (v # fr) D"
    and e: "(v, w) \<in> E" "0 \<le> ix w" and low': "low' = (if w \<in> set st then low(v := min (low v) (ix w)) else low)"
  shows "looked_ok n E ix st (v # fr) (D(v := insert w (D v)))" "low_ok E ix low' st (v # fr) (D(v := insert w (D v)))"
proof -
  have v: "v < n" "v \<in> set st" using stack_okD(4,8) [OF st, of v] by auto
  show "looked_ok n E ix st (v # fr) (D(v := insert w (D v)))"
    unfolding looked_ok_def
  proof (intro allI impI conjI ballI)
    fix x assume x: "x < n"
    note old = looked_okD [OF lk x]
    show "(D(v := insert w (D v))) x \<subseteq> E `` {x}" using old(1) e(1) by (cases "x = v") auto
    show "(D(v := insert w (D v))) x = {}" if "ix x < 0" using that old(2) stack_okD(5) [OF st v(2)] by (cases "x = v") simp_all
    show "(D(v := insert w (D v))) x = E `` {x}" if "0 \<le> ix x" "x \<notin> set (v # fr)" using that old(3) by simp
    show "0 \<le> ix u" if "u \<in> (D(v := insert w (D v))) x" for u using that old(4) e(2) by (cases "x = v") auto
    show "E `` {x} \<inter> set st = {}" if "0 \<le> ix x" "x \<notin> set st" using old(5) that .
  qed
  have le: "low' g \<le> low g" for g using low' by simp
  have nv: "low' g = low g" if "g \<noteq> v" for g using low' that by simp
  show "low_ok E ix low' st (v # fr) (D(v := insert w (D v)))"
    unfolding low_ok_def
  proof (intro ballI conjI impI)
    fix g assume g: "g \<in> set (v # fr)"
    note old = low_okD [OF lw g]
    show "low' g \<le> ix g" using le [of g] old(1) by linarith
    show "\<exists>y \<in> set st. ix y = low' g \<and> (g, y) \<in> E\<^sup>*"
    proof (cases "low' g = low g")
      case False
      then have "g = v" "w \<in> set st" "low' g = ix w" using low' by (auto split: if_splits)
      then show ?thesis using e(1) by auto
    qed (use old(2) in simp)
    fix x u assume x: "x \<in> set st" "owner ix (v # fr) g x" and u: "u \<in> (D(v := insert w (D v))) x \<inter> set st"
    show "low' g \<le> ix u"
    proof (cases "x = v \<and> u = w")
      case False
      then have "low g \<le> ix u" using old(3) [OF x] u by (auto split: if_splits)
      then show ?thesis using le [of g] by linarith
    next
      case True
      then have w: "w \<in> set st" using u by blast
      have "\<not> ix g < ix v" using x(2) True unfolding owner_def by auto
      then have "g = v" using g stack_okD(7) [OF st] by auto
      then show ?thesis using w low' True by simp
    qed
  qed
qed

text \<open>A transaction seen for the first time, from the one open last or as a root.\<close>

lemma push:
  assumes st: "stack_ok n E ix nx st fr" and lk: "looked_ok n E ix st fr D" and lw: "low_ok E ix low st fr D" and ou: "out_ok n E ix st out"
    and w: "w < n" "ix w < 0"
    and src: "fr = [] \<and> D' = D \<or> (\<exists>v rest. fr = v # rest \<and> (v, w) \<in> E \<and> D' = D(v := insert w (D v)))"
  shows "stack_ok n E (ix(w := nx)) (nx + 1) (w # st) (w # fr)" "looked_ok n E (ix(w := nx)) (w # st) (w # fr) D'"
    "low_ok E (ix(w := nx)) (low(w := nx)) (w # st) (w # fr) D'" "out_ok n E (ix(w := nx)) (w # st) out"
proof -
  let ?ix = "ix(w := nx)"
  note fr = stack_okD(8) [OF st]
  have ws: "w \<notin> set st" using stack_okD(5) [OF st, of w] w(2) by auto
  then have wf: "w \<notin> set fr" using fr by blast
  have ix: "?ix x = ix x" "ix x < nx" if "x \<in> set st" for x using that ws stack_okD(3,4) [OF st] by auto
  have reach: "(x, w) \<in> E\<^sup>*" if x: "x \<in> set st" for x
  proof -
    obtain g where g: "g \<in> set fr" "(x, g) \<in> E\<^sup>*" using stack_okD(10) [OF st x] by blast
    then obtain v rest where v: "fr = v # rest" "(v, w) \<in> E" using src by auto
    have "ix g \<le> ix v" using stack_okD(7) [OF st] g(1) v(1) by auto
    then have "(g, v) \<in> E\<^sup>*" using stack_okD(9) [OF st fr fr] g(1) v(1) by simp
    then show ?thesis using g(2) v(2) by (meson rtrancl_trans rtrancl.rtrancl_into_rtrancl)
  qed
  show "stack_ok n E ?ix (nx + 1) (w # st) (w # fr)"
  proof -
    have s1: "sorted_wrt (\<lambda>x y. ?ix y < ?ix x) st"
    proof (rule sorted_wrt_mono_rel [of _ "\<lambda>x y. ix y < ix x"])
      show "\<And>x y. x \<in> set st \<Longrightarrow> y \<in> set st \<Longrightarrow> ix y < ix x \<Longrightarrow> ?ix y < ?ix x" using ix(1) by simp
    qed (rule stack_okD(6) [OF st])
    have s2: "sorted_wrt (\<lambda>x y. ?ix y < ?ix x) fr"
    proof (rule sorted_wrt_mono_rel [of _ "\<lambda>x y. ix y < ix x"])
      show "\<And>x y. x \<in> set fr \<Longrightarrow> y \<in> set fr \<Longrightarrow> ix y < ix x \<Longrightarrow> ?ix y < ?ix x" using ix(1) fr by simp
    qed (rule stack_okD(7) [OF st])
    have a: "(x, y) \<in> E\<^sup>*" if "x \<in> set (w # st)" "y \<in> set (w # st)" "?ix x \<le> ?ix y" for x y
    proof (cases "y = w")
      case True
      then show ?thesis using that(1) reach by auto
    next
      case False
      then have y: "y \<in> set st" using that(2) by simp
      then have "x \<in> set st" using that(1,3) ix(2) [OF y] False by (cases "x = w") auto
      then show ?thesis using stack_okD(9) [OF st _ y] y that(3) ix(1) by simp
    qed
    have b: "\<exists>g \<in> set (w # fr). ?ix g \<le> ?ix x \<and> (x, g) \<in> E\<^sup>*" if "x \<in> set (w # st)" for x
    proof (cases "x = w")
      case False
      then have x: "x \<in> set st" using that by simp
      then obtain g where "g \<in> set fr" "ix g \<le> ix x" "(x, g) \<in> E\<^sup>*" using stack_okD(10) [OF st] by blast
      then show ?thesis using ix(1) [OF x] ix(1) [OF fr] by auto
    qed auto
    have "0 \<le> nx + 1" "set (w # st) \<subseteq> {..<n}" "set (w # fr) \<subseteq> set (w # st)" "\<forall>v \<in> set (w # st). 0 \<le> ?ix v"
      using stack_okD(2,4,5) [OF st] fr w(1) by auto
    moreover have "\<forall>v < n. ?ix v < nx + 1" using stack_okD(3) [OF st] by (auto intro: less_imp_le)
    moreover have "sorted_wrt (\<lambda>x y. ?ix y < ?ix x) (w # st)" "sorted_wrt (\<lambda>x y. ?ix y < ?ix x) (w # fr)"
      using s1 s2 ix fr ws by auto
    ultimately show ?thesis unfolding stack_ok_def using a b stack_okD(1) [OF st] by blast
  qed
  note nx = stack_okD(2) [OF st]
  have D4: "D' x = D x \<or> x \<in> set fr \<and> (x, w) \<in> E \<and> D' x = insert w (D x)" for x
    using src by (elim disjE exE conjE; cases "x = hd fr"; simp)
  have D2: "D' w = {}" using D4 [of w] wf looked_okD(2) [OF lk w] by blast
  have D3: "D' x \<subseteq> insert w (D x)" for x using D4 [of x] by blast
  show "looked_ok n E ?ix (w # st) (w # fr) D'"
    unfolding looked_ok_def
  proof (intro allI impI conjI ballI)
    fix v assume v: "v < n"
    note old = looked_okD [OF lk v]
    show "D' v \<subseteq> E `` {v}" using D4 [of v] old(1) by auto
    show "D' v = {}" if neg: "?ix v < 0"
    proof -
      have "ix v < 0" using neg nx by (cases "v = w") auto
      moreover have "v \<notin> set fr" using stack_okD(5) [OF st fr] calculation by (meson not_le)
      ultimately show ?thesis using old(2) D4 [of v] by blast
    qed
    show "D' v = E `` {v}" if vis: "0 \<le> ?ix v" "v \<notin> set (w # fr)" using vis old(3) D4 [of v] by auto
    show "0 \<le> ?ix u" if u: "u \<in> D' v" for u using u old(4) [of u] D3 [of v] nx by (cases "u = w") auto
    show "E `` {v} \<inter> set (w # st) = {}" if vis: "0 \<le> ?ix v" "v \<notin> set (w # st)"
    proof -
      have v': "v \<notin> set fr" "0 \<le> ix v" "v \<notin> set st" using vis fr [of v] by auto
      have "w \<notin> D v" using old(4) [of w] w(2) by auto
      then show ?thesis using old(3) [OF v'(2,1)] old(5) [OF v'(2,3)] by simp
    qed
  qed
  show "low_ok E ?ix (low(w := nx)) (w # st) (w # fr) D'"
    unfolding low_ok_def
  proof (intro ballI conjI impI)
    fix g assume g: "g \<in> set (w # fr)"
    show "(low(w := nx)) g \<le> ?ix g" using g low_okD(1) [OF lw, of g] by (cases "g = w") auto
    show "\<exists>y \<in> set (w # st). ?ix y = (low(w := nx)) g \<and> (g, y) \<in> E\<^sup>*"
    proof (cases "g = w")
      case False
      then obtain y where "y \<in> set st" "ix y = low g" "(g, y) \<in> E\<^sup>*" using g low_okD(2) [OF lw, of g] by auto
      then show ?thesis using False ix(1) by auto
    qed auto
    fix x u assume x: "x \<in> set (w # st)" "owner ?ix (w # fr) g x" and u: "u \<in> D' x \<inter> set (w # st)"
    have xw: "x \<noteq> w" using u D2 by auto
    then have xs: "x \<in> set st" using x(1) by simp
    have gw: "g \<noteq> w"
    proof
      assume "g = w"
      then have "nx \<le> ix x" using x(2) xw by (simp add: owner_def)
      then show False using ix(2) [OF xs] by simp
    qed
    then have gf: "g \<in> set fr" using g by simp
    have own: "owner ix fr g x" using x(2) ix(1) [OF fr] ix(1) [OF fr [OF gf]] ix(1) [OF xs] unfolding owner_def by auto
    show "(low(w := nx)) g \<le> ?ix u"
    proof (cases "u = w")
      case True
      have "low g \<le> ix g" by (rule low_okD(1) [OF lw gf])
      then show ?thesis using True gw ix(2) [OF fr [OF gf]] by simp
    next
      case False
      then have "u \<in> D x \<inter> set st" using u D3 [of x] by auto
      then have "low g \<le> ix u" using low_okD(3) [OF lw gf xs own] by blast
      then show ?thesis using False gw by simp
    qed
  qed
  have "w \<notin> set cmp" if "cmp \<in> set out" for cmp using ou that w(2) unfolding out_ok_def by (metis not_le)
  then show "out_ok n E ?ix (w # st) out" using ou w nx unfolding out_ok_def by auto
qed

text \<open>The transaction open last is done, and part of a component that reaches further down.\<close>

lemma merge_up:
  assumes st: "stack_ok n E ix nx st (v # fr)" and lk: "looked_ok n E ix st (v # fr) D" and lw: "low_ok E ix low st (v # fr) D"
    and all: "D v = E `` {v}" and lt: "low v < ix v" and low': "low' = low(hd fr := min (low (hd fr)) (low v))"
  shows "fr \<noteq> []" "stack_ok n E ix nx st fr" "looked_ok n E ix st fr D" "low_ok E ix low' st fr D"
proof -
  note fr = stack_okD(8) [OF st] and ord = stack_okD(7) [OF st]
  have v: "v \<in> set st" using fr by simp
  obtain y where y: "y \<in> set st" "ix y = low v" "(v, y) \<in> E\<^sup>*" using low_okD(2) [OF lw, of v] by auto
  obtain g0 where g0: "g0 \<in> set (v # fr)" "ix g0 \<le> ix y" "(y, g0) \<in> E\<^sup>*" using stack_okD(10) [OF st y(1)] by blast
  then have g0f: "g0 \<in> set fr" "ix g0 < ix v" using y(2) lt by auto
  then show ne: "fr \<noteq> []" by auto
  show "stack_ok n E ix nx st fr"
  proof -
    have "\<exists>g \<in> set fr. ix g \<le> ix x \<and> (x, g) \<in> E\<^sup>*" if x: "x \<in> set st" for x
    proof -
      obtain g where g: "g \<in> set (v # fr)" "ix g \<le> ix x" "(x, g) \<in> E\<^sup>*" using stack_okD(10) [OF st x] by blast
      show ?thesis
      proof (cases "g = v")
        case True
        then have "(x, g0) \<in> E\<^sup>*" using g(3) y(3) g0(3) by (meson rtrancl_trans)
        then show ?thesis using g0f g(2) True by (intro bexI [of _ g0]) auto
      qed (use g in auto)
    qed
    moreover have "sorted_wrt (\<lambda>x y. ix y < ix x) fr" "set fr \<subseteq> set st" using ord fr by auto
    ultimately show ?thesis using st unfolding stack_ok_def by simp
  qed
  show "looked_ok n E ix st fr D"
    unfolding looked_ok_def
  proof (intro allI impI conjI ballI)
    fix x assume x: "x < n"
    note old = looked_okD [OF lk x]
    show "D x = E `` {x}" if "0 \<le> ix x" "x \<notin> set fr" using that old(3) all by (cases "x = v") auto
  qed (use looked_okD [OF lk] in blast)+
  have hd: "hd fr \<in> set fr" using ne by simp
  have le: "low' g \<le> low g" for g using low' by simp
  show "low_ok E ix low' st fr D"
    unfolding low_ok_def
  proof (intro ballI conjI impI)
    fix g assume g: "g \<in> set fr"
    then have g': "g \<in> set (v # fr)" "ix g < ix v" using ord by auto
    note old = low_okD [OF lw g'(1)]
    show "low' g \<le> ix g" using le [of g] old(1) by linarith
    show "\<exists>y \<in> set st. ix y = low' g \<and> (g, y) \<in> E\<^sup>*"
    proof (cases "low' g = low g")
      case False
      then have h: "g = hd fr" "low' g = low v" using low' by (auto split: if_splits simp: min_def)
      have "(g, v) \<in> E\<^sup>*" using stack_okD(9) [OF st fr [OF g'(1)] v] g'(2) by simp
      then have "(g, y) \<in> E\<^sup>*" using y(3) by (rule rtrancl_trans)
      then show ?thesis using y(1,2) h(2) by auto
    qed (use old(2) in simp)
    fix x w assume x: "x \<in> set st" "owner ix fr g x" and w: "w \<in> D x \<inter> set st"
    show "low' g \<le> ix w"
    proof (cases "ix x < ix v")
      case True
      then have "owner ix (v # fr) g x" using x(2) by (auto simp: owner_def)
      then have "low g \<le> ix w" using old(3) [OF x(1)] w by blast
      then show ?thesis using le [of g] by linarith
    next
      case False
      have "owner ix (v # fr) v x" using False ord by (auto simp: owner_def)
      then have lv: "low v \<le> ix w" using low_okD(3) [OF lw _ x(1)] w by auto
      have "\<not> ix g < ix (hd fr)"
      proof
        assume "ix g < ix (hd fr)"
        then have "ix x < ix (hd fr)" using x(2) hd by (simp add: owner_def)
        moreover have "ix (hd fr) < ix v" using ord hd by auto
        ultimately show False using False by simp
      qed
      then have "g = hd fr" using g ord ne by (cases fr) auto
      then show ?thesis using lv low' by simp
    qed
  qed
qed

text \<open>The transaction open last is done and nothing it reaches on the stack is below it: a component.\<close>

lemma close_off:
  assumes st: "stack_ok n E ix nx st (v # fr)" and lk: "looked_ok n E ix st (v # fr) D" and lw: "low_ok E ix low st (v # fr) D" and ou: "out_ok n E ix st out"
    and all: "D v = E `` {v}" and eq: "low v = ix v" and split: "st = seg @ v # st'" and low': "\<And>g. g \<in> set fr \<Longrightarrow> low' g = low g"
  shows "stack_ok n E ix nx st' fr" "looked_ok n E ix st' fr D" "low_ok E ix low' st' fr D"
    "out_ok n E ix st' (if length (seg @ [v]) > 1 then out @ [sort (seg @ [v])] else out)"
proof -
  let ?S = "set (seg @ [v])"
  define C where "C = {x. x < n \<and> 0 \<le> ix x \<and> x \<notin> set st}"
  note fr = stack_okD(8) [OF st] and ord = stack_okD(7) [OF st] and srt = stack_okD(6) [OF st]
  have v: "v \<in> set st" using fr by simp
  have below: "ix x < ix v" "x \<in> set st" if "x \<in> set st'" for x using that srt split by (auto simp: sorted_wrt_append)
  have above: "ix v \<le> ix x" "x \<in> set st" if "x \<in> ?S" for x using that srt split by (auto simp: sorted_wrt_append)
  have parts: "set st = ?S \<union> set st'" "?S \<inter> set st' = {}" using split below above by force+
  have frv: "ix g < ix v" if "g \<in> set fr" for g using that ord by auto
  have frs: "g \<in> set st'" if g: "g \<in> set fr" for g
    using fr [of g] frv [OF g] above(1) [of g] parts(1) g by auto
  have closed_S: "w \<in> ?S \<union> C" if x: "x \<in> ?S" and w: "(x, w) \<in> E" for x w
  proof -
    have xn: "x < n" "0 \<le> ix x" using stack_okD(4,5) [OF st above(2) [OF x]] .
    have "x \<notin> set fr" using frv [of x] above(1) [OF x] by auto
    then have D: "D x = E `` {x}" using looked_okD(3) [OF lk xn(1)] xn(2) all by (cases "x = v") auto
    then have wD: "w \<in> D x" using w by blast
    have wn: "w < n" "0 \<le> ix w" using stack_okD(1) [OF st] w looked_okD(4) [OF lk xn(1) wD] by auto
    show ?thesis
    proof (cases "w \<in> set st")
      case True
      have "owner ix (v # fr) v x" using above(1) [OF x] frv by (force simp: owner_def)
      then have "low v \<le> ix w" using low_okD(3) [OF lw _ above(2) [OF x] _ wD True] by simp
      then have "w \<notin> set st'" using eq below(1) [of w] by auto
      then show ?thesis using True parts(1) by blast
    qed (use wn in \<open>simp add: C_def\<close>)
  qed
  have closed_C: "w \<in> C" if x: "x \<in> C" and w: "(x, w) \<in> E" for x w
  proof -
    have xn: "x < n" "0 \<le> ix x" "x \<notin> set st" using x by (simp_all add: C_def)
    then have "x \<notin> set (v # fr)" using fr by blast
    then have "w \<in> D x" using looked_okD(3) [OF lk xn(1,2)] w by blast
    moreover have "w < n" using stack_okD(1) [OF st] w by auto
    ultimately show ?thesis using looked_okD(4) [OF lk xn(1)] looked_okD(5) [OF lk xn] w by (auto simp: C_def)
  qed
  have SC: "?S \<inter> C = {}" using parts(1) by (auto simp: C_def)
  have scc: "scc E x = ?S" if x: "x \<in> ?S" for x
  proof
    have to_v: "(z, v) \<in> E\<^sup>*" if z: "z \<in> ?S" for z
    proof -
      obtain g where g: "g \<in> set (v # fr)" "(z, g) \<in> E\<^sup>*" using stack_okD(10) [OF st above(2) [OF z]] by blast
      have "(g, v) \<in> E\<^sup>*" using stack_okD(9) [OF st fr [OF g(1)] v] frv g(1) by force
      with g(2) show ?thesis by (rule rtrancl_trans)
    qed
    have from_v: "(v, z) \<in> E\<^sup>*" if z: "z \<in> ?S" for z using stack_okD(9) [OF st v above(2) [OF z] above(1) [OF z]] .
    show "?S \<subseteq> scc E x"
    proof
      fix z assume z: "z \<in> ?S"
      have "(x, z) \<in> E\<^sup>*" by (rule rtrancl_trans [OF to_v [OF x] from_v [OF z]])
      moreover have "(z, x) \<in> E\<^sup>*" by (rule rtrancl_trans [OF to_v [OF z] from_v [OF x]])
      ultimately show "z \<in> scc E x" by (simp add: scc_def)
    qed
    show "scc E x \<subseteq> ?S"
    proof
      fix z assume "z \<in> scc E x"
      then have xz: "(x, z) \<in> E\<^sup>*" "(z, x) \<in> E\<^sup>*" by (simp_all add: scc_def)
      have "z \<in> ?S \<union> C" by (rule rtrancl_closed [OF xz(1)]) (use x closed_S closed_C in blast)+
      moreover have "x \<in> C" if "z \<in> C" by (rule rtrancl_closed [OF xz(2) that]) (rule closed_C)
      ultimately show "z \<in> ?S" using x SC by blast
    qed
  qed
  show "stack_ok n E ix nx st' fr"
  proof -
    have "\<exists>g \<in> set fr. ix g \<le> ix x \<and> (x, g) \<in> E\<^sup>*" if x: "x \<in> set st'" for x
      using stack_okD(10) [OF st below(2) [OF x]] below(1) [OF x] by force
    moreover have "sorted_wrt (\<lambda>x y. ix y < ix x) fr" "sorted_wrt (\<lambda>x y. ix y < ix x) st'" using ord srt split by (simp_all add: sorted_wrt_append)
    moreover have "set fr \<subseteq> set st'" using frs by blast
    moreover have "set st' \<subseteq> {..<n}" "\<forall>v \<in> set st'. 0 \<le> ix v" using stack_okD(4,5) [OF st below(2)] by auto
    moreover have "\<forall>x \<in> set st'. \<forall>y \<in> set st'. ix x \<le> ix y \<longrightarrow> (x, y) \<in> E\<^sup>*" using stack_okD(9) [OF st below(2) below(2)] by blast
    ultimately show ?thesis using stack_okD(1-3) [OF st] unfolding stack_ok_def by blast
  qed
  show "looked_ok n E ix st' fr D"
    unfolding looked_ok_def
  proof (intro allI impI conjI ballI)
    fix x assume x: "x < n"
    note old = looked_okD [OF lk x]
    show "D x = E `` {x}" if "0 \<le> ix x" "x \<notin> set fr" using that old(3) all by (cases "x = v") auto
    show "E `` {x} \<inter> set st' = {}" if vis: "0 \<le> ix x" "x \<notin> set st'"
    proof (cases "x \<in> set st")
      case True
      then have "x \<in> ?S" using parts(1) vis(2) by blast
      then have "E `` {x} \<subseteq> ?S \<union> C" using closed_S by blast
      moreover have "C \<inter> set st' = {}" using parts(1) unfolding C_def by blast
      ultimately show ?thesis using parts(2) by blast
    next
      case False
      then show ?thesis using old(5) vis(1) parts(1) by blast
    qed
  qed (use looked_okD [OF lk] in blast)+
  show "low_ok E ix low' st' fr D"
    unfolding low_ok_def
  proof (intro ballI conjI impI)
    fix g assume g: "g \<in> set fr"
    then have g': "g \<in> set (v # fr)" by simp
    note old = low_okD [OF lw g']
    show "low' g \<le> ix g" using old(1) low' [OF g] by simp
    obtain y where y: "y \<in> set st" "ix y = low g" "(g, y) \<in> E\<^sup>*" using old(2) by blast
    then have "y \<in> set st'" using above(1) [of y] old(1) frv [OF g] parts(1) by force
    then show "\<exists>y \<in> set st'. ix y = low' g \<and> (g, y) \<in> E\<^sup>*" using y low' [OF g] by auto
    fix x w assume x: "x \<in> set st'" "owner ix fr g x" and w: "w \<in> D x \<inter> set st'"
    have "owner ix (v # fr) g x" using x below(1) [OF x(1)] by (auto simp: owner_def)
    then show "low' g \<le> ix w" using old(3) [OF below(2) [OF x(1)]] w below(2) low' [OF g] by auto
  qed
  let ?cmp = "sort (seg @ [v])" and ?out = "if length (seg @ [v]) > 1 then out @ [sort (seg @ [v])] else out"
  have distinct: "distinct (seg @ [v])" using distinct_decreasing [OF srt] split by simp
  have in_out: "cmp \<in> set ?out \<longleftrightarrow> cmp \<in> set out \<or> length (seg @ [v]) > 1 \<and> cmp = ?cmp" for cmp by auto
  have old: "sorted cmp \<and> distinct cmp \<and> 1 < length cmp \<and> (\<forall>x \<in> set cmp. x < n \<and> 0 \<le> ix x \<and> x \<notin> set st \<and> set cmp = scc E x)" if "cmp \<in> set out" for cmp
    using ou that unfolding out_ok_def by blast
  have S: "set ?cmp = ?S" "length ?cmp = length (seg @ [v])" by simp_all
  show "out_ok n E ix st' ?out"
    unfolding out_ok_def
  proof (intro conjI)
    have "?cmp \<notin> set out" using old [of ?cmp] v S(1) by auto
    then show "distinct ?out" using ou unfolding out_ok_def by simp
    show "\<forall>cmp \<in> set ?out. sorted cmp \<and> distinct cmp \<and> 1 < length cmp \<and> (\<forall>x \<in> set cmp. x < n \<and> 0 \<le> ix x \<and> x \<notin> set st' \<and> set cmp = scc E x)"
    proof
      fix cmp assume "cmp \<in> set ?out"
      then consider "cmp \<in> set out" | "length (seg @ [v]) > 1" "cmp = ?cmp" unfolding in_out by blast
      then show "sorted cmp \<and> distinct cmp \<and> 1 < length cmp \<and> (\<forall>x \<in> set cmp. x < n \<and> 0 \<le> ix x \<and> x \<notin> set st' \<and> set cmp = scc E x)"
      proof cases
        case 1
        then show ?thesis using old [OF 1] parts(1) by auto
      next
        case 2
        have "x < n \<and> 0 \<le> ix x \<and> x \<notin> set st' \<and> set cmp = scc E x" if x: "x \<in> set cmp" for x
        proof -
          have xs: "x \<in> ?S" using x 2(2) S(1) by simp
          have "x < n" "0 \<le> ix x" using stack_okD(4,5) [OF st above(2) [OF xs]] .
          moreover have "x \<notin> set st'" using xs parts(2) by blast
          ultimately show ?thesis using scc [OF xs] S(1) 2(2) by simp
        qed
        then have "\<forall>x \<in> set cmp. x < n \<and> 0 \<le> ix x \<and> x \<notin> set st' \<and> set cmp = scc E x" by blast
        moreover have "sorted cmp" "distinct cmp" "1 < length cmp" unfolding 2(2) using distinct 2(1) by simp_all
        ultimately show ?thesis by (intro conjI)
      qed
    qed
  next
    show "\<forall>x < n. 0 \<le> ix x \<longrightarrow> x \<notin> set st' \<longrightarrow> scc E x \<noteq> {x} \<longrightarrow> (\<exists>cmp \<in> set ?out. set cmp = scc E x)"
    proof (intro allI impI)
    fix x assume x: "x < n" "0 \<le> ix x" "x \<notin> set st'" "scc E x \<noteq> {x}"
    show "\<exists>cmp \<in> set ?out. set cmp = scc E x"
    proof (cases "x \<in> set st")
      case False
      then obtain cmp where "cmp \<in> set out" "set cmp = scc E x" using ou x unfolding out_ok_def by blast
      then show ?thesis using in_out [of cmp] by (intro bexI [of _ cmp]) simp_all
    next
      case True
      then have xs: "x \<in> ?S" using parts(1) x(3) by blast
      have "?S \<noteq> {v}" using scc [OF xs] x(4) xs by auto
      then have "length (seg @ [v]) > 1" by (cases seg) auto
      then show ?thesis using scc [OF xs] S(1) in_out [of ?cmp] by (intro bexI [of _ ?cmp]) simp_all
    qed
    qed
  qed
qed

subsection \<open>The lists\<close>

definition succs_of :: "(edge_kind \<Rightarrow> bool) \<Rightarrow> edge list \<Rightarrow> nat set" where
  "succs_of ok es = e_to ` {e \<in> set es. ok (e_kind e)}"

definition rel :: "(edge_kind \<Rightarrow> bool) \<Rightarrow> edge list list \<Rightarrow> (nat \<times> nat) set" where
  "rel ok adj = {(v, w). v < length adj \<and> w \<in> succs_of ok (adj ! v)}"

definition looked :: "(edge_kind \<Rightarrow> bool) \<Rightarrow> edge list list \<Rightarrow> (nat \<Rightarrow> int) \<Rightarrow> (nat \<times> nat) list \<Rightarrow> nat \<Rightarrow> nat set" where
  "looked ok adj ix call v = (case map_of call v of
     Some e \<Rightarrow> succs_of ok (take e (adj ! v))
   | None \<Rightarrow> if 0 \<le> ix v then succs_of ok (adj ! v) else {})"

definition tj_inv :: "(edge_kind \<Rightarrow> bool) \<Rightarrow> edge list list \<Rightarrow> tarjan \<Rightarrow> bool" where
  "tj_inv ok adj t \<longleftrightarrow>
     (let n = length adj; E = rel ok adj; ix = (!) (tj_index t); fr = map fst (tj_call t); D = looked ok adj ix (tj_call t) in
      length (tj_index t) = n \<and> length (tj_low t) = n \<and> length (tj_on t) = n \<and>
      (\<forall>v < n. tj_on t ! v \<longleftrightarrow> v \<in> set (tj_st t)) \<and> (\<forall>(v, e) \<in> set (tj_call t). e \<le> length (adj ! v)) \<and>
      stack_ok n E ix (tj_next t) (tj_st t) fr \<and> looked_ok n E ix (tj_st t) fr D \<and>
      low_ok E ix ((!) (tj_low t)) (tj_st t) fr D \<and> out_ok n E ix (tj_st t) (tj_out t))"

lemma succs_of_simps [simp]: "succs_of ok [] = {}" "succs_of ok (es @ es') = succs_of ok es \<union> succs_of ok es'"
  "succs_of ok [e] = (if ok (e_kind e) then {e_to e} else {})"
  by (auto simp: succs_of_def)

lemma succs_of_take: "e < length es \<Longrightarrow> succs_of ok (take (Suc e) es) = (if ok (e_kind (es ! e)) then insert (e_to (es ! e)) else id) (succs_of ok (take e es))"
  by (simp add: take_Suc_conv_app_nth)

lemma rel_image: "v < length adj \<Longrightarrow> rel ok adj `` {v} = succs_of ok (adj ! v)"
  by (auto simp: rel_def)

lemma nth_upd: "i < length xs \<Longrightarrow> (!) (xs[i := x]) = ((!) xs)(i := x)"
  by (rule ext) (simp add: nth_list_update)

lemma popTo_split: "v \<in> set st \<Longrightarrow> \<exists>seg st'. popTo v st = Some (seg @ [v], st') \<and> st = seg @ v # st'"
proof (induction st)
  case (Cons w st)
  show ?case
  proof (cases "w = v")
    case True
    then show ?thesis by (intro exI [of _ "[]"] exI [of _ st]) simp
  next
    case False
    then obtain seg st' where "popTo v st = Some (seg @ [v], st')" "st = seg @ v # st'" using Cons by auto
    then show ?thesis using False by (intro exI [of _ "w # seg"] exI [of _ st']) simp
  qed
qed simp

lemma length_clear [simp]: "length (foldl (\<lambda>on w. on[w := False]) on ws) = length on"
  by (induction ws arbitrary: on) simp_all

lemma clear_on: "x < length on \<Longrightarrow> foldl (\<lambda>on w. on[w := False]) on ws ! x = (on ! x \<and> x \<notin> set ws)"
proof (induction ws arbitrary: on)
  case (Cons w ws)
  then show ?case using Cons.IH [of "on[w := False]"] by (cases "w = x") auto
qed simp

text \<open>What is left to do: every transaction to enter and leave, every edge to pass.\<close>

definition frame_work :: "edge list list \<Rightarrow> nat \<times> nat \<Rightarrow> nat" where
  "frame_work adj f = 1 + (length (adj ! fst f) - snd f)"

definition work :: "edge list list \<Rightarrow> tarjan \<Rightarrow> nat" where
  "work adj t = (\<Sum>v < length adj. if tj_index t ! v < 0 then 2 + length (adj ! v) else 0) + sum_list (map (frame_work adj) (tj_call t))"

lemma work_discover:
  assumes "w < length adj" "tj_index t ! w < 0" "length (tj_index t) = length adj" "0 \<le> tj_next t"
  shows "Suc (work adj (discover w t)) = work adj t"
proof -
  let ?f = "\<lambda>v. if tj_index t ! v < 0 then 2 + length (adj ! v) else 0"
  let ?g = "\<lambda>v. if tj_index (discover w t) ! v < 0 then 2 + length (adj ! v) else 0"
  have w: "w \<in> {..<length adj}" using assms(1) by simp
  have g: "?g v = (if v = w then 0 else ?f v)" for v using assms by (simp add: discover_def nth_list_update)
  have "(\<Sum>v < length adj. ?g v) = ?g w + (\<Sum>v \<in> {..<length adj} - {w}. ?g v)" using sum.remove [OF _ w, of ?g] by simp
  also have "\<dots> = (\<Sum>v \<in> {..<length adj} - {w}. ?f v)"
    using sum.cong [OF refl, of "{..<length adj} - {w}" ?g ?f] g by simp
  finally have "(\<Sum>v < length adj. ?g v) = (\<Sum>v \<in> {..<length adj} - {w}. ?f v)" .
  moreover have "(\<Sum>v < length adj. ?f v) = ?f w + (\<Sum>v \<in> {..<length adj} - {w}. ?f v)" using sum.remove [OF _ w, of ?f] by simp
  ultimately show ?thesis using assms(2) by (simp add: work_def discover_def frame_work_def)
qed

lemma tj_invD:
  assumes "tj_inv ok adj t"
  shows "length (tj_index t) = length adj" "length (tj_low t) = length adj" "length (tj_on t) = length adj"
    "v < length adj \<Longrightarrow> tj_on t ! v \<longleftrightarrow> v \<in> set (tj_st t)" "(v, e) \<in> set (tj_call t) \<Longrightarrow> e \<le> length (adj ! v)"
    "stack_ok (length adj) (rel ok adj) ((!) (tj_index t)) (tj_next t) (tj_st t) (map fst (tj_call t))"
    "looked_ok (length adj) (rel ok adj) ((!) (tj_index t)) (tj_st t) (map fst (tj_call t)) (looked ok adj ((!) (tj_index t)) (tj_call t))"
    "low_ok (rel ok adj) ((!) (tj_index t)) ((!) (tj_low t)) (tj_st t) (map fst (tj_call t)) (looked ok adj ((!) (tj_index t)) (tj_call t))"
    "out_ok (length adj) (rel ok adj) ((!) (tj_index t)) (tj_st t) (tj_out t)"
  using assms unfolding tj_inv_def Let_def by auto

lemma tj_invI:
  assumes "length (tj_index t) = length adj" "length (tj_low t) = length adj" "length (tj_on t) = length adj"
    "\<And>v. v < length adj \<Longrightarrow> tj_on t ! v \<longleftrightarrow> v \<in> set (tj_st t)" "\<And>v e. (v, e) \<in> set (tj_call t) \<Longrightarrow> e \<le> length (adj ! v)"
    "stack_ok (length adj) (rel ok adj) ((!) (tj_index t)) (tj_next t) (tj_st t) (map fst (tj_call t))"
    "looked_ok (length adj) (rel ok adj) ((!) (tj_index t)) (tj_st t) (map fst (tj_call t)) (looked ok adj ((!) (tj_index t)) (tj_call t))"
    "low_ok (rel ok adj) ((!) (tj_index t)) ((!) (tj_low t)) (tj_st t) (map fst (tj_call t)) (looked ok adj ((!) (tj_index t)) (tj_call t))"
    "out_ok (length adj) (rel ok adj) ((!) (tj_index t)) (tj_st t) (tj_out t)"
  shows "tj_inv ok adj t"
  using assms unfolding tj_inv_def Let_def by auto

lemma looked_advance:
  assumes "(v, e) # rest = call" "e < length (adj ! v)"
  shows "looked ok adj ix ((v, Suc e) # rest) =
    (if ok (e_kind (adj ! v ! e)) then (looked ok adj ix call)(v := insert (e_to (adj ! v ! e)) (looked ok adj ix call v)) else looked ok adj ix call)"
  using assms(2) unfolding assms(1) [symmetric] by (intro ext) (auto simp: looked_def succs_of_take)

lemma looked_new:
  assumes "w \<notin> fst ` set call" "ix w < 0" "looked ok adj ix call w = {}"
  shows "looked ok adj (ix(w := x)) ((w, 0) # call) = looked ok adj ix call"
proof
  fix v
  show "looked ok adj (ix(w := x)) ((w, 0) # call) v = looked ok adj ix call v"
    using assms(3) by (cases "v = w") (auto simp: looked_def split: option.splits)
qed

lemma looked_leave:
  assumes "distinct (map fst ((v, e) # rest))" "length (adj ! v) \<le> e" "0 \<le> ix v"
  shows "looked ok adj ix rest = looked ok adj ix ((v, e) # rest)" "looked ok adj ix rest v = succs_of ok (adj ! v)"
proof -
  have v: "map_of rest v = None" using assms(1) by (simp add: map_of_eq_None_iff)
  then show "looked ok adj ix rest v = succs_of ok (adj ! v)" using assms(3) by (simp add: looked_def)
  show "looked ok adj ix rest = looked ok adj ix ((v, e) # rest)"
  proof
    fix x show "looked ok adj ix rest x = looked ok adj ix ((v, e) # rest) x"
      using v assms(2,3) by (cases "x = v") (simp_all add: looked_def)
  qed
qed

lemma discover_inv:
  assumes inv: "tj_inv ok adj t" and w: "w < length adj" "tj_index t ! w < 0"
    and call: "call = tj_call t \<and> call = [] \<or> (\<exists>v e rest. tj_call t = (v, e) # rest \<and> call = (v, Suc e) # rest \<and> e < length (adj ! v) \<and>
        ok (e_kind (adj ! v ! e)) \<and> e_to (adj ! v ! e) = w)"
  shows "tj_inv ok adj (discover w (t\<lparr>tj_call := call\<rparr>))"
proof -
  let ?t = "discover w (t\<lparr>tj_call := call\<rparr>)" and ?ix = "(!) (tj_index t)" and ?fr = "map fst (tj_call t)"
  let ?D = "looked ok adj ?ix (tj_call t)" and ?E = "rel ok adj"
  note I = tj_invD [OF inv]
  have fr: "map fst call = ?fr" using call by auto
  have wf: "w \<notin> fst ` set call"
  proof
    assume "w \<in> fst ` set call"
    then have "w \<in> set ?fr" using fr by (metis list.set_map)
    then show False using stack_okD(5) [OF I(6)] stack_okD(8) [OF I(6)] w(2) by (meson not_le)
  qed
  have src: "?fr = [] \<and> looked ok adj ?ix call = ?D \<or>
      (\<exists>v rest. ?fr = v # rest \<and> (v, w) \<in> ?E \<and> looked ok adj ?ix call = ?D(v := insert w (?D v)))"
    using call
  proof (elim disjE exE conjE)
    fix v e rest assume c: "tj_call t = (v, e) # rest" "call = (v, Suc e) # rest" "e < length (adj ! v)" "ok (e_kind (adj ! v ! e))" "e_to (adj ! v ! e) = w"
    have "v < length adj" using stack_okD(4) [OF I(6)] stack_okD(8) [OF I(6)] c(1) by simp
    moreover have "w \<in> succs_of ok (adj ! v)" using c(3-5) nth_mem [OF c(3)] by (auto simp: succs_of_def)
    ultimately have "(v, w) \<in> ?E" by (simp add: rel_def)
    then show ?thesis using looked_advance [OF c(1) [symmetric] c(3), of ok ?ix] c by auto
  qed simp
  note P = push [OF I(6-9) w src]
  have "w \<notin> set ?fr" using wf fr by (metis list.set_map)
  then have "looked ok adj ?ix call w = {}" using wf w(2) by (simp add: looked_def map_of_eq_None_iff [THEN iffD2])
  then have L: "looked ok adj (?ix(w := tj_next t)) ((w, 0) # call) = looked ok adj ?ix call" using looked_new [of w call ?ix ok adj] wf w(2) by blast
  have F: "(!) (tj_index ?t) = ?ix(w := tj_next t)" "(!) (tj_low ?t) = ((!) (tj_low t))(w := tj_next t)" "tj_st ?t = w # tj_st t"
    "tj_next ?t = tj_next t + 1" "map fst (tj_call ?t) = w # ?fr" "tj_call ?t = (w, 0) # call" "tj_out ?t = tj_out t"
    using I(1,2) w(1) fr by (simp_all add: discover_def nth_upd)
  show ?thesis
  proof (rule tj_invI)
    show "tj_on ?t ! v \<longleftrightarrow> v \<in> set (tj_st ?t)" if "v < length adj" for v
      using I(3) I(4) [OF that] that w(1) by (auto simp: discover_def nth_list_update)
    show "e \<le> length (adj ! v)" if "(v, e) \<in> set (tj_call ?t)" for v e
      using that call I(5) [of v e] unfolding F(6) by auto
  qed (use I(1-3) P in \<open>simp_all only: F L\<close>, simp_all add: discover_def fr)
qed

lemma advance_inv:
  assumes inv: "tj_inv ok adj t" and c: "tj_call t = (v, e) # rest" and e: "e < length (adj ! v)" and wf: "wf_adj adj"
  shows "tj_inv ok adj (followEdge ok v (adj ! v ! e) (t\<lparr>tj_call := (v, Suc e) # rest\<rparr>))"
    "work adj (followEdge ok v (adj ! v ! e) (t\<lparr>tj_call := (v, Suc e) # rest\<rparr>)) < work adj t"
proof -
  let ?w = "e_to (adj ! v ! e)" and ?t = "t\<lparr>tj_call := (v, Suc e) # rest\<rparr>" and ?ix = "(!) (tj_index t)"
  note I = tj_invD [OF inv]
  have v: "v < length adj" using stack_okD(4) [OF I(6)] stack_okD(8) [OF I(6)] c by simp
  have w: "?w < length adj" using wf v nth_mem [OF e] unfolding wf_adj_def by (meson nth_mem)
  have less: "Suc (work adj ?t) = work adj t" using e c by (simp add: work_def frame_work_def)
  have c5: "e' \<le> length (adj ! x)" if "(x, e') \<in> set ((v, Suc e) # rest)" for x e' using that I(5) [of x e'] e c by auto
  show "tj_inv ok adj (followEdge ok v (adj ! v ! e) ?t)"
  proof (cases "ok (e_kind (adj ! v ! e)) \<and> ?ix ?w < 0")
    case True
    then have "followEdge ok v (adj ! v ! e) ?t = discover ?w ?t" by (simp add: followEdge_def)
    then show ?thesis using discover_inv [OF inv w, of "(v, Suc e) # rest"] True c e by auto
  next
    case nd: False
    have fr: "map fst (tj_call t) = v # map fst rest" using c by simp
    show ?thesis
    proof (cases "ok (e_kind (adj ! v ! e))")
      case False
      then have f: "followEdge ok v (adj ! v ! e) ?t = ?t" by (simp add: followEdge_def)
      have L: "looked ok adj ?ix ((v, Suc e) # rest) = looked ok adj ?ix (tj_call t)" using looked_advance [OF c [symmetric] e, of ok ?ix] False by simp
      show ?thesis unfolding f by (rule tj_invI) (use I c5 in \<open>simp_all add: L c\<close>)
    next
      case True
      let ?low = "if ?w \<in> set (tj_st t) then ((!) (tj_low t))(v := min (tj_low t ! v) (?ix ?w)) else (!) (tj_low t)"
      have vis: "0 \<le> ?ix ?w" using nd True by simp
      have E: "(v, ?w) \<in> rel ok adj" using v True nth_mem [OF e] by (auto simp: rel_def succs_of_def)
      note B = look_back [OF I(6) [unfolded fr] I(7) [unfolded fr] I(8) [unfolded fr] E vis refl]
      have L: "looked ok adj ?ix ((v, Suc e) # rest) = (looked ok adj ?ix (tj_call t))(v := insert ?w (looked ok adj ?ix (tj_call t) v))"
        using looked_advance [OF c [symmetric] e, of ok ?ix] True by simp
      let ?t' = "followEdge ok v (adj ! v ! e) ?t"
      have f: "?t' = (if ?w \<in> set (tj_st t) then lower v (?ix ?w) ?t else ?t)" using True vis I(4) [OF w] by (simp add: followEdge_def)
      have F: "tj_index ?t' = tj_index t" "tj_on ?t' = tj_on t" "tj_st ?t' = tj_st t" "tj_next ?t' = tj_next t" "tj_call ?t' = (v, Suc e) # rest"
        "tj_out ?t' = tj_out t" "(!) (tj_low ?t') = ?low" "length (tj_low ?t') = length adj"
        using I(2) v by (simp_all add: f lower_def nth_upd)
      show ?thesis by (rule tj_invI) (use I(1-4,6,9) c5 B in \<open>simp_all add: F L c del: fun_upd_apply\<close>)
    qed
  qed
  show "work adj (followEdge ok v (adj ! v ! e) ?t) < work adj t"
  proof (cases "ok (e_kind (adj ! v ! e)) \<and> ?ix ?w < 0")
    case True
    then have "followEdge ok v (adj ! v ! e) ?t = discover ?w ?t" by (simp add: followEdge_def)
    moreover have "Suc (work adj (discover ?w ?t)) = work adj ?t" using work_discover [of ?w adj ?t] w True I(1) stack_okD(2) [OF I(6)] by simp
    ultimately show ?thesis using less by simp
  next
    case False
    then have "work adj (followEdge ok v (adj ! v ! e) ?t) = work adj ?t" by (auto simp: followEdge_def lower_def work_def)
    then show ?thesis using less by simp
  qed
qed

lemma closed_inv:
  assumes inv: "tj_inv ok adj t" and c: "tj_call t = (v, e) # rest" and e: "\<not> e < length (adj ! v)"
    and t2: "t2 = (case rest of [] \<Rightarrow> t\<lparr>tj_call := rest\<rparr> | (p, _) # _ \<Rightarrow> lower p (tj_low t ! v) (t\<lparr>tj_call := rest\<rparr>))"
  shows "\<exists>t'. closeComp v t2 = Some t' \<and> tj_inv ok adj t' \<and> tj_index t' = tj_index t \<and> tj_call t' = rest"
proof -
  let ?ix = "(!) (tj_index t)" and ?low = "(!) (tj_low t)" and ?fr = "map fst rest" and ?E = "rel ok adj"
  note I = tj_invD [OF inv]
  have fr: "map fst (tj_call t) = v # ?fr" using c by simp
  note S = stack_okD [OF I(6) [unfolded fr]]
  have vst: "v \<in> set (tj_st t)" "v < length adj" "0 \<le> ?ix v" using S(8) [of v] S(4,5) by simp_all
  have d: "distinct (map fst ((v, e) # rest))" using distinct_decreasing [OF S(7)] by simp
  have L: "looked ok adj ?ix rest = looked ok adj ?ix (tj_call t)" "looked ok adj ?ix (tj_call t) v = ?E `` {v}"
    using looked_leave [OF d, where adj = adj and ix = ?ix and ok = ok] e vst(3) rel_image [OF vst(2), of ok] c by simp_all
  have p: "hd ?fr < length adj" if "rest \<noteq> []"
    using S(8) [of "hd ?fr"] S(4) [of "hd ?fr"] hd_in_set [of ?fr] that by simp
  let ?low' = "?low(hd ?fr := min (?low (hd ?fr)) (?low v))"
  have F: "tj_index t2 = tj_index t" "tj_on t2 = tj_on t" "tj_st t2 = tj_st t" "tj_next t2 = tj_next t" "tj_call t2 = rest" "tj_out t2 = tj_out t"
    "length (tj_low t2) = length adj" "rest \<noteq> [] \<Longrightarrow> (!) (tj_low t2) = ?low'" "tj_low t2 ! v = ?low v"
  proof -
    show "rest \<noteq> [] \<Longrightarrow> (!) (tj_low t2) = ?low'" using t2 p I(2) by (cases rest) (auto simp: lower_def nth_upd)
    show "tj_low t2 ! v = ?low v"
    proof (cases rest)
      case (Cons q rest')
      then have "fst q \<noteq> v" using d by auto
      then show ?thesis using t2 Cons by (auto simp: lower_def split: prod.splits)
    qed (use t2 in simp)
  qed (use t2 I(2) in \<open>auto simp: lower_def split: list.splits\<close>)
  have c5: "e' \<le> length (adj ! x)" if "(x, e') \<in> set rest" for x e' using that I(5) [of x e'] c by auto
  show ?thesis
  proof (cases "tj_low t2 ! v = tj_index t2 ! v")
    case False
    then have lt: "?low v < ?ix v" using low_okD(1) [OF I(8) [unfolded fr], of v] F(1,9) by simp
    note M = merge_up [OF I(6) [unfolded fr] I(7) [unfolded fr] I(8) [unfolded fr] L(2) lt refl]
    have ne: "rest \<noteq> []" using M(1) by simp
    have "tj_inv ok adj t2" by (rule tj_invI) (use I(1-4,9) c5 M in \<open>simp_all only: F(1-7) F(8) [OF ne] L\<close>)
    then show ?thesis using False F by (simp add: closeComp_def)
  next
    case True
    then have eq: "?low v = ?ix v" using F(1,9) by simp
    obtain seg st' where seg: "popTo v (tj_st t) = Some (seg @ [v], st')" "tj_st t = seg @ v # st'" using popTo_split [OF vst(1)] by blast
    have low': "(!) (tj_low t2) g = ?low g" if g: "g \<in> set ?fr" for g
    proof -
      have ne: "rest \<noteq> []" using g by auto
      then have hd: "hd ?fr \<in> set ?fr" using hd_in_set [of ?fr] by simp
      have "?low (hd ?fr) \<le> ?ix (hd ?fr)" using low_okD(1) [OF I(8) [unfolded fr], of "hd ?fr"] hd by simp
      also have "\<dots> < ?ix v" using S(7) hd unfolding sorted_wrt.simps by blast
      finally have "min (?low (hd ?fr)) (?low v) = ?low (hd ?fr)" using eq by simp
      then show ?thesis unfolding F(8) [OF ne] by simp
    qed
    note K = close_off [OF I(6) [unfolded fr] I(7) [unfolded fr] I(8) [unfolded fr] I(9) L(2) eq seg(2) low']
    let ?t' = "t2\<lparr>tj_st := st', tj_on := foldl (\<lambda>on w. on[w := False]) (tj_on t2) (seg @ [v]),
        tj_out := (if length (seg @ [v]) > 1 then tj_out t2 @ [sort (seg @ [v])] else tj_out t2)\<rparr>"
    have cl: "closeComp v t2 = Some ?t'" using True seg(1) F(3) by (simp add: closeComp_def)
    have on: "tj_on ?t' ! x \<longleftrightarrow> x \<in> set st'" if x: "x < length adj" for x
    proof -
      have "distinct (tj_st t)" by (rule distinct_decreasing [OF S(6)])
      then have "x \<in> set st' \<longleftrightarrow> x \<in> set (tj_st t) \<and> x \<notin> set (seg @ [v])" using seg(2) by auto
      then show ?thesis using clear_on [of x "tj_on t2" "seg @ [v]"] x I(3) I(4) [OF x] F(2) by simp
    qed
    have "tj_inv ok adj ?t'"
      by (rule tj_invI) (use I(1-3) c5 on K in \<open>simp_all add: F L del: length_append cong: if_cong split del: if_split\<close>)
    then show ?thesis using cl F by simp
  qed
qed

lemma tarjanStep_ok:
  assumes "tj_inv ok adj t" "wf_adj adj" "tj_call t \<noteq> []"
  obtains t' where "tarjanStep ok adj t = Some t'" "tj_inv ok adj t'" "work adj t' < work adj t"
    "\<And>v. v < length adj \<Longrightarrow> 0 \<le> tj_index t ! v \<Longrightarrow> 0 \<le> tj_index t' ! v"
proof -
  obtain v e rest where c: "tj_call t = (v, e) # rest" using assms(3) by (metis neq_Nil_conv prod.exhaust)
  note I = tj_invD [OF assms(1)]
  show ?thesis
  proof (cases "e < length (adj ! v)")
    case True
    let ?t = "followEdge ok v (adj ! v ! e) (t\<lparr>tj_call := (v, Suc e) # rest\<rparr>)"
    have "0 \<le> tj_index ?t ! x" if "x < length adj" "0 \<le> tj_index t ! x" for x
      using that by (cases "x = e_to (adj ! v ! e)") (auto simp: followEdge_def discover_def lower_def)
    then show ?thesis using that [of ?t] advance_inv [OF assms(1) c True assms(2)] c True by (simp add: tarjanStep_def)
  next
    case False
    define t2 where "t2 = (case rest of [] \<Rightarrow> t\<lparr>tj_call := rest\<rparr> | (p, _) # _ \<Rightarrow> lower p (tj_low t ! v) (t\<lparr>tj_call := rest\<rparr>))"
    obtain t' where t': "closeComp v t2 = Some t'" "tj_inv ok adj t'" "tj_index t' = tj_index t" "tj_call t' = rest"
      using closed_inv [OF assms(1) c False t2_def] by blast
    have "tarjanStep ok adj t = Some t'" using c False t'(1) unfolding t2_def by (cases rest) (auto simp: tarjanStep_def Let_def)
    moreover have "work adj t' < work adj t" using t'(3,4) c by (simp add: work_def frame_work_def)
    ultimately show ?thesis using that t'(2,3) by simp
  qed
qed

lemma tarjanLoop_ok:
  assumes "tj_inv ok adj t" "wf_adj adj" "work adj t < fuel"
  shows "\<exists>t'. tarjanLoop fuel ok adj t = Some t' \<and> tj_inv ok adj t' \<and> tj_call t' = [] \<and>
    (\<forall>v < length adj. 0 \<le> tj_index t ! v \<longrightarrow> 0 \<le> tj_index t' ! v)"
  using assms(1,3)
proof (induction fuel arbitrary: t)
  case (Suc fuel)
  show ?case
  proof (cases "tj_call t = []")
    case False
    obtain t1 where t1: "tarjanStep ok adj t = Some t1" "tj_inv ok adj t1" "work adj t1 < work adj t"
      "\<And>v. v < length adj \<Longrightarrow> 0 \<le> tj_index t ! v \<Longrightarrow> 0 \<le> tj_index t1 ! v"
      using tarjanStep_ok [OF Suc.prems(1) assms(2) False] by blast
    then obtain t' where "tarjanLoop fuel ok adj t1 = Some t'" "tj_inv ok adj t'" "tj_call t' = []"
      "\<forall>v < length adj. 0 \<le> tj_index t1 ! v \<longrightarrow> 0 \<le> tj_index t' ! v" using Suc.IH [OF t1(2)] Suc.prems(2) by auto
    then show ?thesis using t1(1,4) False by auto
  qed (use Suc.prems(1) in simp)
qed simp

subsection \<open>All the components\<close>

lemma tj_start_inv:
  assumes "wf_adj adj"
  shows "tj_inv ok adj (tj_start (length adj))"
proof -
  have ix: "(!) (replicate n (-1 :: int)) v = -1" if "v < n" for n v :: nat using that by simp
  have "rel ok adj \<subseteq> {..<length adj} \<times> {..<length adj}"
    using wf_adjD [OF assms] by (auto simp: rel_def succs_of_def)
  then show ?thesis
    by (intro tj_invI) (auto simp: tj_start_def stack_ok_def looked_ok_def low_ok_def out_ok_def looked_def)
qed

lemma work_bound: "tj_call t = [] \<Longrightarrow> work adj t \<le> 2 * length adj + sum_list (map length adj)"
proof -
  assume c: "tj_call t = []"
  have "work adj t \<le> (\<Sum>v < length adj. 2 + length (adj ! v))" unfolding work_def c by (simp add: sum_mono)
  also have "\<dots> = 2 * length adj + (\<Sum>v < length adj. length (adj ! v))" unfolding sum.distrib by simp
  also have "(\<Sum>v < length adj. length (adj ! v)) = sum_list (map length adj)"
    by (simp add: sum_list_sum_nth atLeast0LessThan)
  finally show ?thesis .
qed

lemma visitRoot_ok:
  assumes wf: "wf_adj adj" and inv: "tj_inv ok adj t" "tj_call t = []" and r: "r < length adj"
  obtains t' where "visitRoot ok adj (Some t) r = Some t'" "tj_inv ok adj t'" "tj_call t' = []"
    "\<And>v. v < length adj \<Longrightarrow> 0 \<le> tj_index t ! v \<Longrightarrow> 0 \<le> tj_index t' ! v" "0 \<le> tj_index t' ! r"
proof (cases "0 \<le> tj_index t ! r")
  case True
  then show ?thesis using that [of t] inv by (simp add: visitRoot_def)
next
  case False
  note I = tj_invD [OF inv(1)]
  let ?t = "discover r t"
  have "t\<lparr>tj_call := []\<rparr> = t" using inv(2) by (cases t) simp
  note eq = this
  have d: "tj_inv ok adj ?t" using discover_inv [OF inv(1) r, of "[]", unfolded eq] False inv(2) by simp
  have "Suc (work adj ?t) = work adj t" using work_discover [OF r, of t] False I(1) stack_okD(2) [OF I(6)] by simp
  then have "work adj ?t < sccFuel adj" using work_bound [OF inv(2), of adj] unfolding sccFuel_def by linarith
  from tarjanLoop_ok [OF d wf this] obtain t' where t': "tarjanLoop (sccFuel adj) ok adj ?t = Some t'" "tj_inv ok adj t'" "tj_call t' = []"
    "\<forall>v < length adj. 0 \<le> tj_index ?t ! v \<longrightarrow> 0 \<le> tj_index t' ! v" by blast
  have ix: "0 \<le> tj_index ?t ! v" if "v < length adj" "0 \<le> tj_index t ! v \<or> v = r" for v
    using that I(1) stack_okD(2) [OF I(6)] by (cases "v = r") (auto simp: discover_def)
  show ?thesis
  proof (rule that [of t'])
    show "visitRoot ok adj (Some t) r = Some t'" using t'(1) False by (simp add: visitRoot_def)
    show "0 \<le> tj_index t' ! v" if "v < length adj" "0 \<le> tj_index t ! v" for v using t'(4) ix that by blast
    show "0 \<le> tj_index t' ! r" using t'(4) ix r by blast
  qed (use t'(2,3) in simp_all)
qed

lemma visitRoots_ok:
  assumes "wf_adj adj" "k \<le> length adj"
  shows "\<exists>t. foldl (visitRoot ok adj) (Some (tj_start (length adj))) [0..<k] = Some t \<and> tj_inv ok adj t \<and> tj_call t = [] \<and>
    (\<forall>v < k. 0 \<le> tj_index t ! v)"
  using assms(2)
proof (induction k)
  case 0
  then show ?case using tj_start_inv [OF assms(1)] by (simp add: tj_start_def)
next
  case (Suc k)
  then obtain t where t: "foldl (visitRoot ok adj) (Some (tj_start (length adj))) [0..<k] = Some t" "tj_inv ok adj t" "tj_call t = []"
    "\<forall>v < k. 0 \<le> tj_index t ! v" by auto
  have k: "k < length adj" using Suc.prems by simp
  obtain t' where t': "visitRoot ok adj (Some t) k = Some t'" "tj_inv ok adj t'" "tj_call t' = []"
    "\<And>v. v < length adj \<Longrightarrow> 0 \<le> tj_index t ! v \<Longrightarrow> 0 \<le> tj_index t' ! v" "0 \<le> tj_index t' ! k"
    using visitRoot_ok [OF assms(1) t(2,3) k] by blast
  have "0 \<le> tj_index t' ! v" if "v < Suc k" for v using t(4) t'(4,5) that k by (cases "v = k") auto
  then show ?case using t(1) t' by simp
qed

definition components :: "nat \<Rightarrow> (nat \<times> nat) set \<Rightarrow> nat list list \<Rightarrow> bool" where
  "components n E comps \<longleftrightarrow> distinct comps \<and>
     (\<forall>cmp \<in> set comps. sorted cmp \<and> distinct cmp \<and> 1 < length cmp \<and> (\<forall>v \<in> set cmp. v < n \<and> set cmp = scc E v)) \<and>
     (\<forall>v < n. scc E v \<noteq> {v} \<longrightarrow> (\<exists>cmp \<in> set comps. set cmp = scc E v))"

lemma sccs_ok:
  assumes "wf_adj adj"
  shows "\<exists>comps. sccs ok adj = Some comps \<and> components (length adj) (rel ok adj) comps"
proof -
  obtain t where t: "foldl (visitRoot ok adj) (Some (tj_start (length adj))) [0..<length adj] = Some t" "tj_inv ok adj t" "tj_call t = []"
    "\<forall>v < length adj. 0 \<le> tj_index t ! v" using visitRoots_ok [OF assms order.refl] by blast
  note I = tj_invD [OF t(2)]
  have st: "tj_st t = []"
  proof (rule ccontr)
    assume "tj_st t \<noteq> []"
    then obtain g where "g \<in> set (map fst (tj_call t))" using stack_okD(10) [OF I(6), of "hd (tj_st t)"] by auto
    then show False using t(3) by simp
  qed
  have "components (length adj) (rel ok adj) (tj_out t)" using I(9) st t(4) unfolding out_ok_def components_def by simp
  then show ?thesis using t(1) by (simp add: sccs_def)
qed

text \<open>
  C6: \<^verbatim>\<open>sccs\<close> finds the strongly connected components. It returns, whatever the graph; what it
  returns are sorted lists of at least two transactions, each list a whole component, no list
  twice; and every component of more than one transaction is among them.
\<close>

theorem sccs_correct:
  assumes "wf_adj adj"
  shows "\<exists>comps. sccs ok adj = Some comps \<and> distinct comps \<and>
    (\<forall>cmp \<in> set comps. sorted cmp \<and> distinct cmp \<and> 1 < length cmp \<and> (\<forall>v \<in> set cmp. set cmp = scc (rel ok adj) v)) \<and>
    (\<forall>v < length adj. scc (rel ok adj) v \<noteq> {v} \<longrightarrow> (\<exists>cmp \<in> set comps. v \<in> set cmp))"
proof -
  obtain comps where c: "sccs ok adj = Some comps" "components (length adj) (rel ok adj) comps" using sccs_ok [OF assms] by blast
  have "\<exists>cmp \<in> set comps. v \<in> set cmp" if "v < length adj" "scc (rel ok adj) v \<noteq> {v}" for v
    using c(2) that scc_refl unfolding components_def by metis
  then show ?thesis using c unfolding components_def by (intro exI [of _ comps]) simp
qed

theorem sccs_correct_witness: "sccs (\<lambda>_. True) demo_adj = Some [[0, 1, 2]] \<and> scc (rel (\<lambda>_. True) demo_adj) 0 = {0, 1, 2}"
proof -
  have s: "sccs (\<lambda>_. True) demo_adj = Some [[0, 1, 2]]" by code_simp
  have "wf_adj demo_adj" by (simp add: wf_adj_def demo_adj_def)
  from sccs_correct [OF this, of "\<lambda>_. True"] show ?thesis using s by simp
qed

end
