(* ===== verification/Txn_Report.thy ===== *)
theory Txn_Report
  imports Txn_Tarjan
begin

text \<open>
  What the cycle search reports. Every cycle it reports is a cycle of the dependency graph, of
  the shape its kind says, and a graph with a cycle is never passed over.
\<close>

subsection \<open>The shapes of cycles\<close>

abbreviation any :: "nat \<Rightarrow> bool" where
  "any \<equiv> \<lambda>_. True"

definition closed_walk :: "edge list list \<Rightarrow> nat walk \<Rightarrow> bool" where
  "closed_walk adj w \<longleftrightarrow> w \<noteq> [] \<and> (\<exists>v < length adj. is_walk (nexts adj any (\<lambda>_. True)) w v v)"

text \<open>No two anti-dependencies in a row, given whether the edge before the first is one.\<close>

fun apart :: "bool \<Rightarrow> edge_kind list \<Rightarrow> bool" where
  "apart rw [] \<longleftrightarrow> True"
| "apart rw (k # ks) \<longleftrightarrow> \<not> (rw \<and> k = RW) \<and> apart (k = RW) ks"

definition shape :: "string \<Rightarrow> edge_kind list \<Rightarrow> bool" where
  "shape kind ks \<longleftrightarrow>
     (kind = ''G0'' \<and> set ks \<subseteq> {WW}) \<or> (kind = ''G1c'' \<and> RW \<notin> set ks) \<or> (kind = ''G-single'' \<and> count_list ks RW = 1) \<or>
     (kind = ''G-nonadjacent'' \<and> RW \<in> set ks \<and> apart (last ks = RW) ks) \<or> kind = ''G2''"

text \<open>A report of a cycle, or of two transactions that lost an update.\<close>

definition real_cycle :: "checker \<Rightarrow> TxnAnomaly \<Rightarrow> bool" where
  "real_cycle c a \<longleftrightarrow> (\<exists>w. closed_walk (c_adj c) w \<and> taTxns a = map (\<lambda>(v, _). idOf c v) w \<and> taEdges a = map snd w \<and> shape (taKind a) (taEdges a))"

definition real_pair :: "checker \<Rightarrow> TxnAnomaly \<Rightarrow> bool" where
  "real_pair c a \<longleftrightarrow> taKind a = ''G-single'' \<and> (\<exists>(x, y, k) \<in> set (c_pairs c). taTxns a = [idOf c x, idOf c y] \<and> taKey a = k)"

lemma is_walk_kinds: "is_walk (nexts adj inn ok) w x y \<Longrightarrow> \<forall>k \<in> snd ` set w. ok k"
  by (induction "nexts adj inn ok" w x y rule: is_walk.induct) (auto simp: set_nexts)

lemma is_walk_any: "is_walk (nexts adj inn ok) w x y \<Longrightarrow> is_walk (nexts adj any (\<lambda>_. True)) w x y"
  by (erule is_walk_mono) (auto simp: nexts_def)

lemma closed_walkI: "is_walk (nexts adj inn ok) w v v \<Longrightarrow> w \<noteq> [] \<Longrightarrow> v < length adj \<Longrightarrow> closed_walk adj w"
  unfolding closed_walk_def using is_walk_any by blast

subsection \<open>The searches\<close>

lemma firstOf_ok:
  assumes "\<And>x. x \<in> set xs \<Longrightarrow> \<exists>r. f x = Some r"
  shows "\<exists>r. firstOf f xs = Some r \<and> (\<forall>y. r = Some y \<longrightarrow> (\<exists>x \<in> set xs. f x = Some (Some y)))"
  using assms
proof (induction xs)
  case (Cons x xs)
  obtain r where r: "f x = Some r" using Cons.prems [of x] by auto
  obtain r' where "firstOf f xs = Some r'" "\<forall>y. r' = Some y \<longrightarrow> (\<exists>x \<in> set xs. f x = Some (Some y))" using Cons by auto
  then show ?case using r by (cases r) auto
qed simp

lemma firstOf_post:
  assumes "\<And>x. x \<in> set xs \<Longrightarrow> \<exists>r. f x = Some r \<and> (\<forall>y. r = Some y \<longrightarrow> P y)"
  shows "\<exists>r. firstOf f xs = Some r \<and> (\<forall>y. r = Some y \<longrightarrow> P y)"
proof -
  obtain r where r: "firstOf f xs = Some r" "\<forall>y. r = Some y \<longrightarrow> (\<exists>x \<in> set xs. f x = Some (Some y))"
    using firstOf_ok [of xs f] assms by blast
  have "P y" if y: "r = Some y" for y
  proof -
    obtain x where x: "x \<in> set xs" "f x = Some (Some y)" using r(2) y by blast
    obtain r' where "f x = Some r'" "\<forall>y. r' = Some y \<longrightarrow> P y" using assms [OF x(1)] by blast
    then show ?thesis using x(2) by simp
  qed
  then show ?thesis using r(1) by blast
qed

lemma cycleLoop_ok:
  assumes "wf_adj adj" "\<forall>v \<in> set vs. v < length adj"
  shows "\<exists>r. cycleLoop adj inn ok best vs = Some r \<and>
    (\<forall>w. r = Some w \<longrightarrow> best = Some w \<or> (\<exists>v \<in> set vs. is_walk (nexts adj inn ok) w v v \<and> w \<noteq> [])) \<and>
    (r = None \<longrightarrow> best = None \<and> (\<forall>v \<in> set vs. \<forall>w. w \<noteq> [] \<longrightarrow> \<not> is_walk (nexts adj inn ok) w v v))"
  using assms(2)
proof (induction vs arbitrary: best)
  case (Cons v vs)
  have "v < length adj" using Cons.prems by simp
  then obtain r where r: "path adj v v inn ok = Some r" "search_result (nexts adj inn ok) (\<lambda>_. True) v v r"
    using path_result [OF assms(1)] by blast
  have IH: "\<exists>r. cycleLoop adj inn ok best vs = Some r \<and>
      (\<forall>w. r = Some w \<longrightarrow> best = Some w \<or> (\<exists>v \<in> set vs. is_walk (nexts adj inn ok) w v v \<and> w \<noteq> [])) \<and>
      (r = None \<longrightarrow> best = None \<and> (\<forall>v \<in> set vs. \<forall>w. w \<noteq> [] \<longrightarrow> \<not> is_walk (nexts adj inn ok) w v v))" for best
    using Cons.IH [of best] Cons.prems by simp
  show ?case
  proof (cases r)
    case None
    then have "\<forall>w. w \<noteq> [] \<longrightarrow> \<not> is_walk (nexts adj inn ok) w v v" using r(2) by (simp add: search_result_def)
    then show ?thesis using IH [of best] r(1) None by auto
  next
    case (Some w)
    then have w: "is_walk (nexts adj inn ok) w v v" "w \<noteq> []" using r(2) by (simp_all add: search_result_def)
    show ?thesis
    proof (cases "best = None \<or> length w < length (the best)")
      case True
      show ?thesis
      proof (cases "length w = 2")
        case True
        then show ?thesis using r(1) Some w \<open>best = None \<or> _\<close> by auto
      next
        case False
        obtain r' where r': "cycleLoop adj inn ok (Some w) vs = Some r'"
          "\<forall>w'. r' = Some w' \<longrightarrow> w = w' \<or> (\<exists>v \<in> set vs. is_walk (nexts adj inn ok) w' v v \<and> w' \<noteq> [])" "r' \<noteq> None"
          using IH [of "Some w"] by auto
        have "cycleLoop adj inn ok best (v # vs) = Some r'" using r(1) Some True False r'(1) by simp
        then show ?thesis using r'(2,3) w by auto
      qed
    next
      case False
      then have "cycleLoop adj inn ok best (v # vs) = cycleLoop adj inn ok best vs" "best \<noteq> None" using r(1) Some by auto
      then show ?thesis using IH [of best] by auto
    qed
  qed
qed simp

lemma cycleWithin_ok:
  assumes "wf_adj adj" "\<forall>v \<in> set cmp. v < length adj"
  obtains r where "cycleWithin adj cmp inn ok = Some r"
    "\<And>w. r = Some w \<Longrightarrow> closed_walk adj w \<and> (\<forall>k \<in> set (map snd w). ok k)"
    "\<And>v w. r = None \<Longrightarrow> v \<in> set cmp \<Longrightarrow> w \<noteq> [] \<Longrightarrow> \<not> is_walk (nexts adj inn ok) w v v"
proof -
  obtain r where r: "cycleLoop adj inn ok None cmp = Some r"
    "\<forall>w. r = Some w \<longrightarrow> (\<exists>v \<in> set cmp. is_walk (nexts adj inn ok) w v v \<and> w \<noteq> [])"
    "r = None \<longrightarrow> (\<forall>v \<in> set cmp. \<forall>w. w \<noteq> [] \<longrightarrow> \<not> is_walk (nexts adj inn ok) w v v)"
    using cycleLoop_ok [OF assms, of inn ok None] by auto
  show ?thesis
  proof (rule that [of r])
    show "cycleWithin adj cmp inn ok = Some r" using r(1) by (simp add: cycleWithin_def)
    show "closed_walk adj w \<and> (\<forall>k \<in> set (map snd w). ok k)" if w: "r = Some w" for w
    proof -
      obtain v where v: "v \<in> set cmp" "is_walk (nexts adj inn ok) w v v" "w \<noteq> []" using r(2) w by blast
      then have "closed_walk adj w" using closed_walkI assms(2) by blast
      then show ?thesis using is_walk_kinds [OF v(2)] by simp
    qed
  qed (use r(3) in blast)
qed

lemma gSingle_ok:
  assumes "wf_adj adj" "\<forall>v \<in> set cmp. v < length adj"
  obtains r where "gSingle adj cmp inn = Some r" "\<And>w. r = Some w \<Longrightarrow> closed_walk adj w \<and> count_list (map snd w) RW = 1"
proof -
  let ?f = "\<lambda>a e. if e_kind e \<noteq> RW \<or> \<not> inn (e_to e) then Some None else map_option (map_option ((#) (a, RW))) (path adj (e_to e) a inn noRW)"
  have inner: "\<exists>r. firstOf (?f a) (adj ! a) = Some r \<and> (\<forall>w. r = Some w \<longrightarrow> closed_walk adj w \<and> count_list (map snd w) RW = 1)" if a: "a \<in> set cmp" for a
  proof -
    have an: "a < length adj" using assms(2) a by blast
    have edge: "\<exists>r. ?f a e = Some r \<and> (\<forall>w. r = Some w \<longrightarrow> closed_walk adj w \<and> count_list (map snd w) RW = 1)" if e: "e \<in> set (adj ! a)" for e
    proof (cases "e_kind e \<noteq> RW \<or> \<not> inn (e_to e)")
      case False
      have "e_to e < length adj" by (rule wf_adjD [OF assms(1) an e])
      then obtain r where r: "path adj (e_to e) a inn noRW = Some r" "search_result (nexts adj inn noRW) (\<lambda>_. True) (e_to e) a r"
        using path_result [OF assms(1)] by blast
      have "closed_walk adj ((a, RW) # w) \<and> count_list (map snd ((a, RW) # w)) RW = 1" if w: "r = Some w" for w
      proof -
        have walk: "is_walk (nexts adj inn noRW) w (e_to e) a" using r(2) w by (simp add: search_result_def)
        have "(e_to e, RW) \<in> set (nexts adj any (\<lambda>_. True) a)" using e False unfolding set_nexts edge_mem by auto
        then have "is_walk (nexts adj any (\<lambda>_. True)) ((a, RW) # w) a a" using is_walk_any [OF walk] by auto
        moreover have "RW \<notin> set (map snd w)" using is_walk_kinds [OF walk] by (auto simp: noRW_def)
        ultimately show ?thesis using an by (auto simp: closed_walk_def count_list_0_iff)
      qed
      then show ?thesis using r(1) False by auto
    qed auto
    then show ?thesis by (rule firstOf_post)
  qed
  from firstOf_post [of cmp "\<lambda>a. firstOf (?f a) (adj ! a)", OF inner] show ?thesis using that unfolding gSingle_def by blast
qed

lemma states_walk:
  "is_walk (nextStates adj inn) w s s' \<Longrightarrow>
    is_walk (nexts adj any (\<lambda>_. True)) (map (\<lambda>((v, _), k). (v, k)) w) (fst s) (fst s') \<and> apart (snd s) (map snd w) \<and>
    (w \<noteq> [] \<longrightarrow> snd s' = (last (map snd w) = RW))"
proof (induction w arbitrary: s)
  case (Cons e w)
  obtain x k where e: "e = (x, k)" by fastforce
  then obtain z where z: "x = s" "(z, k) \<in> set (nextStates adj inn s)" "is_walk (nextStates adj inn) w z s'" using Cons.prems by auto
  note IH = Cons.IH [OF z(3)]
  have n: "snd z = (k = RW)" "\<not> (k = RW \<and> snd s)" "\<lparr>e_to = fst z, e_kind = k\<rparr> \<in> set (adj ! fst s)" using z(2) unfolding set_nextStates by blast+
  have "(fst z, k) \<in> set (nexts adj any (\<lambda>_. True) (fst s))" using n(3) by (simp add: set_nexts)
  then show ?case using IH n(1,2) e z(1) z(3) by (cases "w = []") (auto simp: case_prod_unfold)
qed simp

lemma nonadjacent_ok:
  assumes "wf_adj adj" "\<forall>v \<in> set cmp. v < length adj"
  obtains r where "nonadjacent adj cmp inn = Some r"
    "\<And>w. r = Some w \<Longrightarrow> closed_walk adj w \<and> RW \<in> set (map snd w) \<and> apart (last (map snd w) = RW) (map snd w)"
proof -
  let ?g = "\<lambda>start rw. map_option (map_option (map (\<lambda>((v, _), k). (v, k))))
        (bfs (Suc (2 * length adj)) (nextStates adj inn) keepWalk (start, rw) (start, rw) [] [(start, rw)])"
  have one: "\<exists>r. ?g start rw = Some r \<and> (\<forall>w. r = Some w \<longrightarrow> closed_walk adj w \<and> RW \<in> set (map snd w) \<and> apart (last (map snd w) = RW) (map snd w))"
    if s: "start \<in> set cmp" for start rw
  proof -
    have sn: "fst (start, rw) < length adj" using assms(2) s by simp
    obtain r where r: "bfs (Suc (2 * length adj)) (nextStates adj inn) keepWalk (start, rw) (start, rw) [] [(start, rw)] = Some r"
      "search_result (nextStates adj inn) keepWalk (start, rw) (start, rw) r" using nonadjacent_search [OF assms(1) sn] by blast
    have "closed_walk adj w \<and> RW \<in> set (map snd w) \<and> apart (last (map snd w) = RW) (map snd w)"
      if w: "map_option (map (\<lambda>((v, _), k). (v, k))) r = Some w" for w
    proof -
      obtain w0 where w0: "r = Some w0" "w = map (\<lambda>((v, _), k). (v, k)) w0" using w by auto
      then have walk: "is_walk (nextStates adj inn) w0 (start, rw) (start, rw)" "w0 \<noteq> []" "keepWalk w0" using r(2) by (simp_all add: search_result_def)
      have k: "map snd w = map snd w0" unfolding w0(2) by (simp add: case_prod_unfold)
      show ?thesis using states_walk [OF walk(1)] walk(2,3) sn w0(2) unfolding k closed_walk_def keepWalk_def by auto
    qed
    then show ?thesis using r(1) by auto
  qed
  have inner: "\<exists>r. firstOf (?g start) [False, True] = Some r \<and> (\<forall>w. r = Some w \<longrightarrow> closed_walk adj w \<and> RW \<in> set (map snd w) \<and> apart (last (map snd w) = RW) (map snd w))"
    if s: "start \<in> set cmp" for start
    by (rule firstOf_post) (rule one [OF s])
  from firstOf_post [of cmp "\<lambda>s. firstOf (?g s) [False, True]", OF inner] show ?thesis using that unfolding nonadjacent_def by blast
qed

subsection \<open>What is reported\<close>

definition adds :: "checker \<Rightarrow> checker \<Rightarrow> bool" where
  "adds c c' \<longleftrightarrow> (\<exists>new. c' = c\<lparr>c_out := c_out c @ new\<rparr> \<and> (\<forall>a \<in> set new. real_cycle c a \<or> real_pair c a))"

lemma real_out [simp]:
  "real_cycle (c\<lparr>c_out := out\<rparr>) a = real_cycle c a" "real_pair (c\<lparr>c_out := out\<rparr>) a = real_pair c a" "idOf (c\<lparr>c_out := out\<rparr>) v = idOf c v"
  by (simp_all add: real_cycle_def real_pair_def idOf_def)

lemma adds_refl [simp]: "adds c c"
  unfolding adds_def by (intro exI [of _ "[]"]) simp

lemma adds_fields: "adds c c' \<Longrightarrow> c_adj c' = c_adj c \<and> c_pairs c' = c_pairs c \<and> c_txns c' = c_txns c \<and> length (c_out c) \<le> length (c_out c')"
  by (auto simp: adds_def)

lemma adds_trans: "adds c c' \<Longrightarrow> adds c' c'' \<Longrightarrow> adds c c''"
proof -
  assume "adds c c'" "adds c' c''"
  then obtain n1 n2 where n: "c' = c\<lparr>c_out := c_out c @ n1\<rparr>" "\<forall>a \<in> set n1. real_cycle c a \<or> real_pair c a"
    "c'' = c'\<lparr>c_out := c_out c' @ n2\<rparr>" "\<forall>a \<in> set n2. real_cycle c' a \<or> real_pair c' a" unfolding adds_def by blast
  then have "c'' = c\<lparr>c_out := c_out c @ n1 @ n2\<rparr>" "\<forall>a \<in> set (n1 @ n2). real_cycle c a \<or> real_pair c a" by auto
  then show ?thesis unfolding adds_def by blast
qed

lemma reportCycle_adds:
  assumes "closed_walk (c_adj c) w" "shape kind (map snd w)"
  shows "adds c (reportCycle kind c w)" "length (c_out c) < length (c_out (reportCycle kind c w))"
proof -
  let ?a = "last (c_out (reportCycle kind c w))"
  have r: "reportCycle kind c w = c\<lparr>c_out := c_out c @ [?a]\<rparr>" by (simp add: reportCycle_def Let_def report_def)
  have "real_cycle c ?a" unfolding real_cycle_def
    by (rule exI [of _ w]) (use assms in \<open>simp add: reportCycle_def Let_def report_def\<close>)
  then show "adds c (reportCycle kind c w)" unfolding adds_def using r by (metis empty_iff empty_set set_ConsD)
  show "length (c_out c) < length (c_out (reportCycle kind c w))" by (simp add: reportCycle_def Let_def report_def)
qed

lemma reportPair_adds:
  assumes "p \<in> set (c_pairs c)"
  shows "adds c (reportPair c p)" "length (c_out c) < length (c_out (reportPair c p))"
proof -
  obtain x y k where p: "p = (x, y, k)" by (cases p)
  let ?a = "last (c_out (reportPair c p))"
  have r: "reportPair c p = c\<lparr>c_out := c_out c @ [?a]\<rparr>" by (simp add: reportPair_def Let_def report_def p)
  have "real_pair c ?a" unfolding real_pair_def using assms by (auto simp: reportPair_def Let_def report_def p)
  then show "adds c (reportPair c p)" unfolding adds_def using r by (metis empty_iff empty_set set_ConsD)
  show "length (c_out c) < length (c_out (reportPair c p))" by (simp add: reportPair_def Let_def report_def p)
qed

lemma dirtyCycles_ok:
  assumes "wf_adj (c_adj c)" "\<forall>v \<in> set cmp. v < length (c_adj c)"
  shows "\<exists>found c'. dirtyCycles c cmp inn = Some (found, c') \<and> adds c c' \<and> (found \<longrightarrow> length (c_out c) < length (c_out c'))"
proof -
  obtain r where r: "cycleWithin (c_adj c) cmp inn (\<lambda>k. k = WW) = Some r"
    "\<And>w. r = Some w \<Longrightarrow> closed_walk (c_adj c) w \<and> (\<forall>k \<in> set (map snd w). k = WW)"
    by (rule cycleWithin_ok [OF assms, where inn = inn and ok = "\<lambda>k. k = WW"]) blast
  show ?thesis
  proof (cases r)
    case (Some w)
    then have "closed_walk (c_adj c) w" "shape ''G0'' (map snd w)" using r(2) by (auto simp: shape_def)
    from reportCycle_adds [OF this] show ?thesis using r(1) Some by (intro exI [of _ True] exI) (simp add: dirtyCycles_def)
  next
    case None
    obtain r' where r': "cycleWithin (c_adj c) cmp inn noRW = Some r'"
      "\<And>w. r' = Some w \<Longrightarrow> closed_walk (c_adj c) w \<and> (\<forall>k \<in> set (map snd w). noRW k)"
      by (rule cycleWithin_ok [OF assms, where inn = inn and ok = noRW]) blast
    show ?thesis
    proof (cases r')
      case (Some w)
      then have "closed_walk (c_adj c) w" "shape ''G1c'' (map snd w)" using r'(2) by (auto simp: shape_def noRW_def)
      from reportCycle_adds [OF this] show ?thesis using r(1) r'(1) None Some by (intro exI [of _ True] exI) (simp add: dirtyCycles_def)
    qed (use r(1) r'(1) None in \<open>intro exI [of _ False] exI [of _ c], simp add: dirtyCycles_def\<close>)
  qed
qed

lemma antiCycles_ok:
  assumes "wf_adj (c_adj c)" "\<forall>v \<in> set cmp. v < length (c_adj c)"
  shows "\<exists>found c'. antiCycles c cmp inn = Some (found, c') \<and> adds c c' \<and> (found \<longrightarrow> length (c_out c) < length (c_out c'))"
proof -
  obtain r where r: "gSingle (c_adj c) cmp inn = Some r" "\<And>w. r = Some w \<Longrightarrow> closed_walk (c_adj c) w \<and> count_list (map snd w) RW = 1"
    by (rule gSingle_ok [OF assms, where inn = inn]) blast
  show ?thesis
  proof (cases r)
    case (Some w)
    then have "closed_walk (c_adj c) w" "shape ''G-single'' (map snd w)" using r(2) by (auto simp: shape_def)
    from reportCycle_adds [OF this] show ?thesis using r(1) Some by (intro exI [of _ True] exI) (simp add: antiCycles_def)
  next
    case none: None
    show ?thesis
    proof (cases "pairWithin c inn")
      case (Some p)
      then have "p \<in> set (c_pairs c)" unfolding pairWithin_def by (metis find_Some_iff nth_mem)
      from reportPair_adds [OF this] show ?thesis using r(1) none Some by (intro exI [of _ True] exI) (simp add: antiCycles_def)
    next
      case None
      obtain r' where r': "nonadjacent (c_adj c) cmp inn = Some r'"
        "\<And>w. r' = Some w \<Longrightarrow> closed_walk (c_adj c) w \<and> RW \<in> set (map snd w) \<and> apart (last (map snd w) = RW) (map snd w)"
        by (rule nonadjacent_ok [OF assms, where inn = inn]) blast
      show ?thesis
      proof (cases r')
        case (Some w)
        then have "closed_walk (c_adj c) w" "shape ''G-nonadjacent'' (map snd w)" using r'(2) unfolding shape_def by auto
        from reportCycle_adds [OF this] show ?thesis using r(1) r'(1) none None Some by (intro exI [of _ True] exI) (simp add: antiCycles_def)
      qed (use r(1) r'(1) none None in \<open>intro exI [of _ False] exI [of _ c], simp add: antiCycles_def\<close>)
    qed
  qed
qed

lemma cyclesIn_ok:
  assumes "wf_adj (c_adj c)" "\<forall>v \<in> set cmp. v < length (c_adj c)"
  shows "\<exists>c'. cyclesIn c cmp = Some c' \<and> adds c c' \<and>
    (length (c_out c) < length (c_out c') \<or> (\<forall>v \<in> set cmp. \<forall>w. w \<noteq> [] \<longrightarrow> \<not> is_walk (nexts (c_adj c) (\<lambda>v. v \<in> set cmp) (\<lambda>_. True)) w v v))"
proof -
  let ?inn = "\<lambda>v. v \<in> set cmp"
  obtain f1 c1 where c1: "dirtyCycles c cmp ?inn = Some (f1, c1)" "adds c c1" "f1 \<longrightarrow> length (c_out c) < length (c_out c1)"
    using dirtyCycles_ok [OF assms] by blast
  note F1 = adds_fields [OF c1(2)]
  obtain f2 c2 where c2: "antiCycles c1 cmp ?inn = Some (f2, c2)" "adds c1 c2" "f2 \<longrightarrow> length (c_out c1) < length (c_out c2)"
    using antiCycles_ok [of c1 cmp ?inn] assms F1 by auto
  note F2 = adds_fields [OF c2(2)]
  have add2: "adds c c2" using c1(2) c2(2) by (rule adds_trans)
  show ?thesis
  proof (cases "f1 \<or> f2")
    case True
    then have "length (c_out c) < length (c_out c2)" using c1(3) c2(3) F1 F2 by linarith
    then show ?thesis using c1(1) c2(1) True add2 by (simp add: cyclesIn_def)
  next
    case False
    have adj: "c_adj c2 = c_adj c" using F1 F2 by simp
    obtain r where r: "cycleWithin (c_adj c) cmp ?inn (\<lambda>_. True) = Some r"
      "\<And>w. r = Some w \<Longrightarrow> closed_walk (c_adj c) w \<and> (\<forall>k \<in> set (map snd w). True)"
      "\<And>v w. r = None \<Longrightarrow> v \<in> set cmp \<Longrightarrow> w \<noteq> [] \<Longrightarrow> \<not> is_walk (nexts (c_adj c) ?inn (\<lambda>_. True)) w v v"
      by (rule cycleWithin_ok [OF assms, where inn = ?inn and ok = "\<lambda>_. True"]) blast
    show ?thesis
    proof (cases r)
      case None
      then show ?thesis using r(3) c1(1) c2(1) False add2 r(1) adj by (simp add: cyclesIn_def)
    next
      case (Some w)
      then have "closed_walk (c_adj c2) w" "shape ''G2'' (map snd w)" using r(2) adj by (auto simp: shape_def)
      from reportCycle_adds [OF this] have "adds c (reportCycle ''G2'' c2 w)" "length (c_out c) < length (c_out (reportCycle ''G2'' c2 w))"
        using adds_trans [OF add2] F1 F2 by auto
      then show ?thesis using c1(1) c2(1) False r(1) Some adj by (simp add: cyclesIn_def)
    qed
  qed
qed

lemma cyclesFold_ok:
  assumes "wf_adj (c_adj c)" "\<forall>cmp \<in> set comps. \<forall>v \<in> set cmp. v < length (c_adj c)"
  shows "\<exists>c'. foldl (\<lambda>oc cmp. Option.bind oc (\<lambda>c. cyclesIn c cmp)) (Some c) comps = Some c' \<and> adds c c' \<and>
    (length (c_out c) < length (c_out c') \<or>
      (\<forall>cmp \<in> set comps. \<forall>v \<in> set cmp. \<forall>w. w \<noteq> [] \<longrightarrow> \<not> is_walk (nexts (c_adj c) (\<lambda>v. v \<in> set cmp) (\<lambda>_. True)) w v v))"
  using assms
proof (induction comps arbitrary: c)
  case (Cons cmp comps)
  obtain c1 where c1: "cyclesIn c cmp = Some c1" "adds c c1"
    "length (c_out c) < length (c_out c1) \<or> (\<forall>v \<in> set cmp. \<forall>w. w \<noteq> [] \<longrightarrow> \<not> is_walk (nexts (c_adj c) (\<lambda>v. v \<in> set cmp) (\<lambda>_. True)) w v v)"
    using cyclesIn_ok [OF Cons.prems(1), of cmp] Cons.prems(2) by auto
  note F1 = adds_fields [OF c1(2)]
  obtain c2 where c2: "foldl (\<lambda>oc cmp. Option.bind oc (\<lambda>c. cyclesIn c cmp)) (Some c1) comps = Some c2" "adds c1 c2"
    "length (c_out c1) < length (c_out c2) \<or>
      (\<forall>cmp \<in> set comps. \<forall>v \<in> set cmp. \<forall>w. w \<noteq> [] \<longrightarrow> \<not> is_walk (nexts (c_adj c1) (\<lambda>v. v \<in> set cmp) (\<lambda>_. True)) w v v)"
    using Cons.IH [of c1] Cons.prems F1 by auto
  have "length (c_out c) < length (c_out c2) \<or>
      (\<forall>cmp \<in> set (cmp # comps). \<forall>v \<in> set cmp. \<forall>w. w \<noteq> [] \<longrightarrow> \<not> is_walk (nexts (c_adj c) (\<lambda>v. v \<in> set cmp) (\<lambda>_. True)) w v v)"
    using c1(3) c2(3) F1 adds_fields [OF c2(2)] by auto
  then show ?case using c1(1) c2(1) adds_trans [OF c1(2) c2(2)] by auto
qed simp

definition no_loops :: "edge list list \<Rightarrow> bool" where
  "no_loops adj \<longleftrightarrow> (\<forall>v < length adj. \<forall>e \<in> set (adj ! v). e_to e \<noteq> v)"

abbreviation all_rel :: "edge list list \<Rightarrow> (nat \<times> nat) set" where
  "all_rel \<equiv> rel (\<lambda>_. True)"

lemma next_rel: "v < length adj \<Longrightarrow> (z, k) \<in> set (nexts adj inn ok v) \<Longrightarrow> (v, z) \<in> all_rel adj"
  unfolding set_nexts edge_mem by (auto simp: rel_def succs_of_def)

lemma walk_reach:
  assumes "wf_adj adj"
  shows "is_walk (nexts adj inn ok) w x y \<Longrightarrow> x < length adj \<Longrightarrow> (x, y) \<in> (all_rel adj)\<^sup>* \<and> y < length adj"
proof (induction w arbitrary: x)
  case (Cons e w)
  obtain v k where e: "e = (v, k)" by fastforce
  then obtain z where z: "v = x" "(z, k) \<in> set (nexts adj inn ok x)" "is_walk (nexts adj inn ok) w z y" using Cons.prems(1) by auto
  have "z < length adj" using z(2) wf_adjD [OF assms Cons.prems(2)] unfolding set_nexts edge_mem by blast
  then show ?case using Cons.IH [OF z(3)] next_rel [OF Cons.prems(2) z(2)] by (auto intro: converse_rtrancl_into_rtrancl)
qed simp

lemma walk_in_scc:
  assumes "wf_adj adj"
  shows "is_walk (nexts adj any ok) w x y \<Longrightarrow> x < length adj \<Longrightarrow> (v, x) \<in> (all_rel adj)\<^sup>* \<Longrightarrow> (y, v) \<in> (all_rel adj)\<^sup>* \<Longrightarrow>
    is_walk (nexts adj (\<lambda>z. z \<in> scc (all_rel adj) v) ok) w x y"
proof (induction w arbitrary: x)
  case (Cons e w)
  obtain u k where e: "e = (u, k)" by fastforce
  then obtain z where z: "u = x" "(z, k) \<in> set (nexts adj any ok x)" "is_walk (nexts adj any ok) w z y" using Cons.prems(1) by auto
  have zn: "z < length adj" using z(2) wf_adjD [OF assms Cons.prems(2)] unfolding set_nexts edge_mem by blast
  have vz: "(v, z) \<in> (all_rel adj)\<^sup>*" using Cons.prems(3) next_rel [OF Cons.prems(2) z(2)] by (rule rtrancl_into_rtrancl)
  have "(z, v) \<in> (all_rel adj)\<^sup>*" using walk_reach [OF assms z(3) zn] Cons.prems(4) by (meson rtrancl_trans)
  then have "(z, k) \<in> set (nexts adj (\<lambda>z. z \<in> scc (all_rel adj) v) ok x)" using z(2) vz unfolding set_nexts by (simp add: scc_def)
  then show ?case using Cons.IH [OF z(3) zn vz Cons.prems(4)] z(1) e by auto
qed simp

lemma closed_walk_scc:
  assumes "wf_adj adj" "no_loops adj" "closed_walk adj w"
  obtains v where "v < length adj" "scc (all_rel adj) v \<noteq> {v}" "w \<noteq> []" "is_walk (nexts adj (\<lambda>z. z \<in> scc (all_rel adj) v) (\<lambda>_. True)) w v v"
proof -
  obtain v where v: "w \<noteq> []" "v < length adj" "is_walk (nexts adj any (\<lambda>_. True)) w v v" using assms(3) unfolding closed_walk_def by blast
  have walk: "is_walk (nexts adj (\<lambda>z. z \<in> scc (all_rel adj) v) (\<lambda>_. True)) w v v" by (rule walk_in_scc [OF assms(1) v(3,2)]) simp_all
  obtain e w' where w: "w = e # w'" using v(1) by (cases w) auto
  obtain u k where e: "e = (u, k)" by fastforce
  then obtain z where z: "(z, k) \<in> set (nexts adj (\<lambda>z. z \<in> scc (all_rel adj) v) (\<lambda>_. True) v)" using walk w by auto
  then have "z \<in> scc (all_rel adj) v" "z \<noteq> v" using assms(2) v(2) unfolding set_nexts no_loops_def edge_mem by blast+
  then have "scc (all_rel adj) v \<noteq> {v}" by blast
  then show ?thesis using v(1,2) walk that by blast
qed

lemma pairsFold_adds:
  assumes "set ps \<subseteq> set (c_pairs c)"
  shows "adds c (foldl (\<lambda>c (a, b, k). if cond a b then reportPair c (a, b, k) else c) c ps)"
  using assms
proof (induction ps arbitrary: c)
  case (Cons p ps)
  obtain a b k where p: "p = (a, b, k)" by (cases p)
  let ?c = "if cond a b then reportPair c p else c"
  have a: "adds c ?c" using reportPair_adds(1) [of p c] Cons.prems by simp
  have "set ps \<subseteq> set (c_pairs ?c)" using Cons.prems adds_fields [OF a] by simp
  from adds_trans [OF a Cons.IH [OF this]] show ?case unfolding p foldl.simps prod.case .
qed simp

lemma cycles_ok:
  assumes wf: "wf_adj (c_adj c)" "no_loops (c_adj c)"
  shows "\<exists>c'. cycles c = Some c' \<and> adds c c' \<and> ((\<exists>w. closed_walk (c_adj c) w) \<longrightarrow> length (c_out c) < length (c_out c'))"
proof -
  obtain comps where comps: "sccs (\<lambda>_. True) (c_adj c) = Some comps" "components (length (c_adj c)) (all_rel (c_adj c)) comps"
    using sccs_ok [OF wf(1)] by blast
  have inn: "\<forall>cmp \<in> set comps. \<forall>v \<in> set cmp. v < length (c_adj c)" using comps(2) unfolding components_def by blast
  obtain c1 where c1: "foldl (\<lambda>oc cmp. Option.bind oc (\<lambda>c. cyclesIn c cmp)) (Some c) comps = Some c1" "adds c c1"
    "length (c_out c) < length (c_out c1) \<or>
      (\<forall>cmp \<in> set comps. \<forall>v \<in> set cmp. \<forall>w. w \<noteq> [] \<longrightarrow> \<not> is_walk (nexts (c_adj c) (\<lambda>v. v \<in> set cmp) (\<lambda>_. True)) w v v)"
    using cyclesFold_ok [OF wf(1) inn] by blast
  let ?m = "componentOf (length (c_txns c)) comps"
  let ?c' = "foldl (\<lambda>c (a, b, k). if ?m ! a = 0 \<or> ?m ! a \<noteq> ?m ! b then reportPair c (a, b, k) else c) c1 (c_pairs c1)"
  have add: "adds c1 ?c'" by (rule pairsFold_adds) simp
  have "cycles c = Some ?c'" using comps(1) c1(1) by (simp add: cycles_def Let_def)
  moreover have "adds c ?c'" using c1(2) add by (rule adds_trans)
  moreover have "length (c_out c) < length (c_out ?c')" if w: "closed_walk (c_adj c) w" for w
  proof -
    obtain v where v: "v < length (c_adj c)" "scc (all_rel (c_adj c)) v \<noteq> {v}" "w \<noteq> []"
      "is_walk (nexts (c_adj c) (\<lambda>z. z \<in> scc (all_rel (c_adj c)) v) (\<lambda>_. True)) w v v" using closed_walk_scc [OF wf w] by blast
    obtain cmp where "cmp \<in> set comps" "set cmp = scc (all_rel (c_adj c)) v" using comps(2) v(1,2) unfolding components_def by blast
    then have "\<exists>cmp \<in> set comps. \<exists>v \<in> set cmp. is_walk (nexts (c_adj c) (\<lambda>v. v \<in> set cmp) (\<lambda>_. True)) w v v" using v(4) scc_refl by metis
    then have "length (c_out c) < length (c_out c1)" using c1(3) v(3) by blast
    then show ?thesis using adds_fields [OF add] by linarith
  qed
  ultimately show ?thesis by blast
qed

end
