(* ===== verification/Txn_Graph.thy ===== *)
theory Txn_Graph
  imports Txn_Report
begin

text \<open>
  What each pass of the checker leaves for the next: who appended what, the positions the
  dependency graph speaks of, and that the whole check returns on every history.
\<close>

subsection \<open>Who appended what\<close>

definition appendsTo :: "string \<Rightarrow> Txn \<Rightarrow> string list" where
  "appendsTo k t = map mValue (filter (\<lambda>m. mAppend m \<and> mKey m = k) (txMops t))"

type_synonym step = "nat \<times> Txn \<times> Mop"

definition steps :: "nat \<Rightarrow> Txn list \<Rightarrow> step list" where
  "steps n txns = concat (map (\<lambda>(i, t). map (\<lambda>m. (i, t, m)) (txMops t)) (enumerate n txns))"

lemma steps_Cons [simp]: "steps n [] = []" "steps n (t # ts) = map (\<lambda>m. (n, t, m)) (txMops t) @ steps (Suc n) ts"
  by (simp_all add: steps_def)

lemma appends_steps: "appends c = foldl (\<lambda>c (i, t, m). appendMop i t c m) c (steps 0 (c_txns c))"
proof -
  have "foldl (\<lambda>c (i, t). foldl (appendMop i t) c (txMops t)) c (enumerate n ts) = foldl (\<lambda>c (i, t, m). appendMop i t c m) c (steps n ts)" for n ts c
  proof (induction ts arbitrary: n c)
    case (Cons t ts)
    have "foldl (appendMop n t) c (txMops t) = foldl (\<lambda>c (i, t, m). appendMop i t c m) c (map (\<lambda>m. (n, t, m)) (txMops t))"
      by (simp add: foldl_map)
    then show ?case using Cons.IH by simp
  qed simp
  then show ?thesis by (simp add: appends_def)
qed

lemma set_steps: "(i, t, m) \<in> set (steps n ts) \<longleftrightarrow> n \<le> i \<and> i < n + length ts \<and> t = ts ! (i - n) \<and> m \<in> set (txMops t)"
proof (induction ts arbitrary: n)
  case (Cons t' ts)
  have "(i, t, m) \<in> set (steps n (t' # ts)) \<longleftrightarrow> i = n \<and> t = t' \<and> m \<in> set (txMops t') \<or> (i, t, m) \<in> set (steps (Suc n) ts)" by auto
  also have "\<dots> \<longleftrightarrow> n \<le> i \<and> i < n + length (t' # ts) \<and> t = (t' # ts) ! (i - n) \<and> m \<in> set (txMops t)"
    unfolding Cons.IH by (cases "i = n") (auto simp: Suc_le_eq nth_Cons')
  finally show ?case .
qed simp

lemma filter_steps: "n \<le> i \<Longrightarrow> i < n + length ts \<Longrightarrow>
  filter (\<lambda>(j, t, m). j = i \<and> P m) (steps n ts) = map (\<lambda>m. (i, ts ! (i - n), m)) (filter P (txMops (ts ! (i - n))))"
proof (induction ts arbitrary: n)
  case (Cons t ts)
  have none: "filter (\<lambda>(j, t, m). j = i \<and> P m) (steps (Suc i) ts) = []" by (auto simp: filter_empty_conv set_steps)
  show ?case
  proof (cases "i = n")
    case True
    then show ?thesis using none by (simp add: filter_map o_def)
  next
    case False
    then have "i - n = Suc (i - Suc n)" using Cons.prems(1) by simp
    then show ?thesis using False Cons.IH [of "Suc n"] Cons.prems by (simp add: filter_map o_def)
  qed
qed simp

definition same_append :: "step \<Rightarrow> step \<Rightarrow> bool" where
  "same_append x y = (case (x, y) of ((i, t, m), (j, u, m')) \<Rightarrow> mAppend m \<and> mAppend m' \<and> mKey m = mKey m' \<and> mValue m = mValue m')"

definition written :: "step list \<Rightarrow> checker \<Rightarrow> bool" where
  "written xs c \<longleftrightarrow>
     (\<forall>k i. c_appended c k i = map (\<lambda>(j, t, m). mValue m) (filter (\<lambda>(j, t, m). j = i \<and> mAppend m \<and> mKey m = k) xs)) \<and>
     (\<forall>k v w. (v, w) \<in> set (c_writer c k) \<longrightarrow> (\<exists>t m. (w, t, m) \<in> set xs \<and> mAppend m \<and> mKey m = k \<and> mValue m = v)) \<and>
     (\<forall>i t m. (i, t, m) \<in> set xs \<longrightarrow> mAppend m \<longrightarrow> writerOf c (mKey m) (mValue m) \<noteq> None)"

lemma set_AList_update: "set (AList.update v i al) \<subseteq> insert (v, i) (set al)"
  by (induction al) auto

lemma appendMop_fields [simp]:
  "c_txns (appendMop i t c m) = c_txns c" "c_opts (appendMop i t c m) = c_opts c" "c_order (appendMop i t c m) = c_order c"
  "c_took (appendMop i t c m) = c_took c" "c_adj (appendMop i t c m) = c_adj c" "c_pairs (appendMop i t c m) = c_pairs c"
  by (auto simp: appendMop_def Let_def report_def split: option.splits)

lemma appendMop_writer:
  "mAppend m \<Longrightarrow> c_writer (appendMop i t c m) = (c_writer c)(mKey m := AList.update (mValue m) i (c_writer c (mKey m)))"
  "mAppend m \<Longrightarrow> c_appended (appendMop i t c m) = (c_appended c)(mKey m := (c_appended c (mKey m))(i := c_appended c (mKey m) i @ [mValue m]))"
  by (auto simp: appendMop_def Let_def report_def split: option.splits)

lemma written_step:
  assumes w: "written xs c"
  shows "written (xs @ [(i, t, m)]) (appendMop i t c m)"
proof (cases "mAppend m")
  case False
  then have "appendMop i t c m = c" by (simp add: appendMop_def)
  then show ?thesis using w False unfolding written_def by (auto; blast)
next
  case True
  note W = appendMop_writer [OF True, of i t c]
  show ?thesis
    unfolding written_def
  proof (intro conjI allI impI)
    fix k j
    show "c_appended (appendMop i t c m) k j =
        map (\<lambda>(j, t, m). mValue m) (filter (\<lambda>(j', t, m). j' = j \<and> mAppend m \<and> mKey m = k) (xs @ [(i, t, m)]))"
      using w True unfolding written_def W(2) by auto
  next
    fix k v u assume "(v, u) \<in> set (c_writer (appendMop i t c m) k)"
    then have "(v, u) \<in> set (c_writer c k) \<or> k = mKey m \<and> v = mValue m \<and> u = i"
      using set_AList_update [of "mValue m" i "c_writer c (mKey m)"] unfolding W(1) by (auto split: if_splits)
    then show "\<exists>t' m'. (u, t', m') \<in> set (xs @ [(i, t, m)]) \<and> mAppend m' \<and> mKey m' = k \<and> mValue m' = v"
    proof
      assume "(v, u) \<in> set (c_writer c k)"
      then obtain t' m' where "(u, t', m') \<in> set xs" "mAppend m'" "mKey m' = k" "mValue m' = v" using w unfolding written_def by blast
      then show ?thesis by auto
    qed (use True in auto)
  next
    fix j t' m' assume m': "(j, t', m') \<in> set (xs @ [(i, t, m)])" "mAppend m'"
    have "m' = m \<or> writerOf c (mKey m') (mValue m') \<noteq> None" using w m' unfolding written_def by auto
    then show "writerOf (appendMop i t c m) (mKey m') (mValue m') \<noteq> None" unfolding W(1) by (auto simp: update_conv')
  qed
qed

lemma written_fold:
  "written xs c \<Longrightarrow> written (xs @ ys) (foldl (\<lambda>c (i, t, m). appendMop i t c m) c ys)"
proof (induction ys arbitrary: xs c)
  case (Cons y ys)
  obtain i t m where y: "y = (i, t, m)" by (cases y)
  then show ?case using Cons.IH [of "xs @ [y]" "appendMop i t c m"] written_step [OF Cons.prems, of i t m] by simp
qed simp

lemma appends_fields [simp]:
  "c_txns (appends c) = c_txns c" "c_opts (appends c) = c_opts c" "c_order (appends c) = c_order c"
  "c_took (appends c) = c_took c" "c_adj (appends c) = c_adj c" "c_pairs (appends c) = c_pairs c"
proof -
  have "c_txns (foldl (\<lambda>c (i, t, m). appendMop i t c m) c xs) = c_txns c \<and> c_opts (foldl (\<lambda>c (i, t, m). appendMop i t c m) c xs) = c_opts c \<and>
      c_order (foldl (\<lambda>c (i, t, m). appendMop i t c m) c xs) = c_order c \<and> c_took (foldl (\<lambda>c (i, t, m). appendMop i t c m) c xs) = c_took c \<and>
      c_adj (foldl (\<lambda>c (i, t, m). appendMop i t c m) c xs) = c_adj c \<and> c_pairs (foldl (\<lambda>c (i, t, m). appendMop i t c m) c xs) = c_pairs c" for xs
    by (induction xs arbitrary: c) (auto split: prod.splits)
  then show "c_txns (appends c) = c_txns c" "c_opts (appends c) = c_opts c" "c_order (appends c) = c_order c"
    "c_took (appends c) = c_took c" "c_adj (appends c) = c_adj c" "c_pairs (appends c) = c_pairs c"
    by (simp_all add: appends_steps)
qed

text \<open>What the first pass leaves: each transaction's appends, and for each value one that appended it.\<close>

definition writers_of :: "Txn list \<Rightarrow> checker \<Rightarrow> bool" where
  "writers_of txns c \<longleftrightarrow> c_txns c = txns \<and>
     (\<forall>k i. i < length txns \<longrightarrow> c_appended c k i = appendsTo k (txns ! i)) \<and>
     (\<forall>k v w. (v, w) \<in> set (c_writer c k) \<longrightarrow> w < length txns \<and> v \<in> set (appendsTo k (txns ! w))) \<and>
     (\<forall>k v i. i < length txns \<longrightarrow> v \<in> set (appendsTo k (txns ! i)) \<longrightarrow> writerOf c k v \<noteq> None)"

lemma appends_writers: "writers_of txns (appends (newChecker txns opts))"
proof -
  let ?c = "appends (newChecker txns opts)"
  have "written [] (newChecker txns opts)" by (simp add: written_def newChecker_def)
  from written_fold [OF this, of "steps 0 txns"] have w: "written (steps 0 txns) ?c" by (simp add: appends_steps newChecker_def)
  have "c_appended ?c k i = appendsTo k (txns ! i)" if "i < length txns" for k i
    using w filter_steps [of 0 i txns "\<lambda>m. mAppend m \<and> mKey m = k"] that unfolding written_def by (simp add: appendsTo_def o_def)
  moreover have "u < length txns \<and> v \<in> set (appendsTo k (txns ! u))" if m: "(v, u) \<in> set (c_writer ?c k)" for k v u
  proof -
    obtain t m where "(u, t, m) \<in> set (steps 0 txns)" "mAppend m" "mKey m = k" "mValue m = v" using w m unfolding written_def by blast
    then show ?thesis unfolding set_steps by (auto simp: appendsTo_def)
  qed
  moreover have "writerOf ?c k v \<noteq> None" if v: "i < length txns" "v \<in> set (appendsTo k (txns ! i))" for k v i
  proof -
    obtain m where m: "m \<in> set (txMops (txns ! i))" "mAppend m" "mKey m = k" "mValue m = v" using v(2) by (auto simp: appendsTo_def)
    then have "(i, txns ! i, m) \<in> set (steps 0 txns)" using v(1) unfolding set_steps by simp
    then show ?thesis using w m(2-4) unfolding written_def by blast
  qed
  ultimately show ?thesis unfolding writers_of_def by (simp add: newChecker_def)
qed

lemma writers_ofD:
  assumes "writers_of txns c"
  shows "c_txns c = txns" "i < length txns \<Longrightarrow> c_appended c k i = appendsTo k (txns ! i)"
    "(v, w) \<in> set (c_writer c k) \<Longrightarrow> w < length txns \<and> v \<in> set (appendsTo k (txns ! w))"
    "writerOf c k v = Some w \<Longrightarrow> w < length txns \<and> v \<in> set (appendsTo k (txns ! w))"
    "i < length txns \<Longrightarrow> v \<in> set (appendsTo k (txns ! i)) \<Longrightarrow> writerOf c k v \<noteq> None"
  using assms unfolding writers_of_def by (auto dest: map_of_SomeD)

subsection \<open>What the passes leave alone\<close>

lemma report_fields [simp]:
  "c_txns (report c a) = c_txns c" "c_opts (report c a) = c_opts c" "c_writer (report c a) = c_writer c" "c_appended (report c a) = c_appended c"
  "c_order (report c a) = c_order c" "c_took (report c a) = c_took c" "c_adj (report c a) = c_adj c" "c_pairs (report c a) = c_pairs c"
  by (simp_all add: report_def)

definition only_out :: "checker \<Rightarrow> checker \<Rightarrow> bool" where
  "only_out c c' \<longleftrightarrow> (\<exists>out. c' = c\<lparr>c_out := out\<rparr>)"

lemma only_out_simps [simp, intro]: "only_out c c" "only_out c (report c a)" "only_out c c' \<Longrightarrow> only_out c (report c' a)"
proof -
  have "c = c\<lparr>c_out := c_out c\<rparr>" by simp
  then show "only_out c c" unfolding only_out_def by blast
  show "only_out c (report c a)" by (auto simp: only_out_def report_def)
  show "only_out c c' \<Longrightarrow> only_out c (report c' a)" by (auto simp: only_out_def report_def)
qed

lemma only_out_trans: "only_out c c' \<Longrightarrow> only_out c' c'' \<Longrightarrow> only_out c c''"
  by (auto simp: only_out_def)

lemma only_out_fold:
  assumes "\<And>s x. only_out (g s) (g (f s x))"
  shows "only_out (g s) (g (foldl f s xs))"
  by (induction xs arbitrary: s) (auto intro: only_out_trans assms)

lemma only_out_fields:
  assumes "only_out c c'"
  shows "c_txns c' = c_txns c" "c_opts c' = c_opts c" "c_writer c' = c_writer c" "c_appended c' = c_appended c"
    "c_order c' = c_order c" "c_took c' = c_took c" "c_adj c' = c_adj c" "c_pairs c' = c_pairs c"
  using assms by (auto simp: only_out_def)

lemma internal_only: "only_out c (internal c)"
proof -
  have mop: "only_out (snd (snd (snd s))) (snd (snd (snd (internalMop t s m))))" for t s m
    by (cases s) (auto simp: Let_def)
  have "only_out c (internalTxn c t)" for c t
    using only_out_fold [where g = "\<lambda>s. snd (snd (snd s))" and f = "internalMop t" and s = "(\<lambda>_. [], \<lambda>_. [], \<lambda>_. False, c)", OF mop]
    by (auto simp: internalTxn_def)
  then show ?thesis unfolding internal_def using only_out_fold [where g = id and f = internalTxn] by simp
qed

lemma reads_only: "only_out c (reads c)"
proof -
  have el: "only_out (snd s) (snd (readElem t k s v))" for t k s v
    by (auto simp: readElem_def split: prod.splits option.splits)
  have od: "only_out (snd s) (snd (readOrder t m s w))" for t m s w
    by (auto simp: readOrder_def Let_def split: prod.splits)
  have la: "only_out (snd s) (snd (readLast i t m s))" for i t m s
    by (auto simp: readLast_def Let_def split: prod.splits option.splits)
  have lo: "only_out (snd s) (snd (readLost i t m s vw))" for i t m s vw
    by (auto simp: readLost_def Let_def split: prod.splits)
  have mop: "only_out (snd s) (snd (readMop i t s m))" for i t s m
  proof -
    let ?s1 = "foldl (readElem t (mKey m)) s (mRead m)" and ?s2 = "foldl (readOrder t m) (foldl (readElem t (mKey m)) s (mRead m)) (theirs (snd s) i m)"
    have "only_out (snd s) (snd ?s1)" by (rule only_out_fold) (rule el)
    moreover have "only_out (snd ?s1) (snd ?s2)" by (rule only_out_fold) (rule od)
    ultimately have s3: "only_out (snd s) (snd (readLast i t m ?s2))" using la only_out_trans by blast
    have "only_out (snd (readLast i t m ?s2)) (snd (foldl (readLost i t m) (readLast i t m ?s2) xs))" for xs by (rule only_out_fold) (rule lo)
    then show ?thesis using s3 only_out_trans unfolding readMop_def Let_def by auto
  qed
  have "only_out c (readTxn c it)" for c it
    using only_out_fold [where g = snd and f = "readMop (fst it) (snd it)", OF mop, of "(_, c)"] by (auto simp: readTxn_def split: prod.splits)
  then show ?thesis unfolding reads_def using only_out_fold [where g = id and f = readTxn] by simp
qed

lemma orders_fields:
  "c_txns (orders ks c) = c_txns c \<and> c_opts (orders ks c) = c_opts c \<and> c_writer (orders ks c) = c_writer c \<and> c_appended (orders ks c) = c_appended c \<and>
   c_took (orders ks c) = c_took c \<and> c_adj (orders ks c) = c_adj c \<and> c_pairs (orders ks c) = c_pairs c"
  unfolding orders_def
proof (induction ks arbitrary: c)
  case (Cons k ks)
  then show ?case by (simp add: orderKey_def Let_def)
qed simp

lemma length_took: "length (c_took (effects ks c)) = length (c_txns c)"
proof -
  have e: "length (effectOf c k took v) = length took" for k took v by (auto simp: effectOf_def split: option.splits)
  have "length (foldl (effectOf c k) took vs) = length took" for k took vs by (induction vs arbitrary: took) (auto simp: e)
  then have "length (foldl (\<lambda>took k. foldl (effectOf c k) took (c_order c k)) took ks) = length took" for took by (induction ks arbitrary: took) auto
  then show ?thesis by (simp add: effects_def)
qed

subsection \<open>The graph, whatever its edges are to satisfy\<close>

definition edges_in :: "(nat \<Rightarrow> nat \<Rightarrow> bool) \<Rightarrow> edge list list \<Rightarrow> bool" where
  "edges_in Q adj \<longleftrightarrow> (\<forall>i < length adj. \<forall>e \<in> set (adj ! i). Q i (e_to e))"

lemma length_add [simp]: "length (add i j k adj) = length adj"
  by (simp add: add_def)

lemma add_in: "edges_in Q adj \<Longrightarrow> (i \<noteq> j \<Longrightarrow> Q i j) \<Longrightarrow> edges_in Q (add i j k adj)"
proof -
  assume a: "edges_in Q adj" "i \<noteq> j \<Longrightarrow> Q i j"
  show ?thesis
    unfolding edges_in_def
  proof (intro allI impI ballI)
    fix x e assume x: "x < length (add i j k adj)" and e: "e \<in> set (add i j k adj ! x)"
    then have "e \<in> set (adj ! x) \<or> x = i \<and> i \<noteq> j \<and> e_to e = j" by (cases "x = i") (auto simp: add_def split: if_splits)
    then show "Q x (e_to e)" using a x unfolding edges_in_def by auto
  qed
qed

lemma edges_in_fold:
  assumes "\<And>s x. x \<in> set xs \<Longrightarrow> edges_in Q (g s) \<Longrightarrow> edges_in Q (g (f s x))"
  shows "edges_in Q (g s) \<Longrightarrow> edges_in Q (g (foldl f s xs))"
  using assms by (induction xs arbitrary: s) auto

definition reader_of :: "checker \<Rightarrow> (string \<Rightarrow> string list \<Rightarrow> bool) \<Rightarrow> readers \<Rightarrow> bool" where
  "reader_of c P rds \<longleftrightarrow> (\<forall>k. \<forall>i \<in> set (rds k). i < length (c_txns c) \<and> txStatus (c_txns c ! i) = Committed \<and>
     (\<exists>m \<in> set (external (c_txns c ! i)). mKey m = k \<and> P k (mRead m)))"

definition prefix_read :: "checker \<Rightarrow> string \<Rightarrow> string list \<Rightarrow> bool" where
  "prefix_read c k r \<longleftrightarrow> length r \<le> length (c_order c k) \<and> take (length r) (c_order c k) = r"

definition graph_inv :: "checker \<Rightarrow> (nat \<Rightarrow> nat \<Rightarrow> bool) \<Rightarrow> graph_state \<Rightarrow> bool" where
  "graph_inv c Q g = (case g of (adj, latest, rds) \<Rightarrow>
     edges_in Q adj \<and> reader_of c (\<lambda>k r. r = c_order c k) latest \<and> reader_of c (prefix_read c) rds)"

lemma reader_of_insert:
  assumes "reader_of c P rds" "i < length (c_txns c)" "txStatus (c_txns c ! i) = Committed" "m \<in> set (external (c_txns c ! i))" "P (mKey m) (mRead m)"
  shows "reader_of c P (rds(mKey m := List.insert i (rds (mKey m))))"
  using assms unfolding reader_of_def by auto

lemma externalMop_inv:
  assumes g: "graph_inv c Q g" and i: "i < length (c_txns c)" "txStatus (c_txns c ! i) = Committed" and m: "m \<in> set (external (c_txns c ! i))"
    and wr: "\<And>w. mRead m \<noteq> [] \<Longrightarrow> writerOf c (mKey m) (last (mRead m)) = Some w \<Longrightarrow> w \<noteq> i \<Longrightarrow> Q w i"
    and rw: "\<And>w. length (mRead m) < length (c_order c (mKey m)) \<Longrightarrow> take (length (mRead m)) (c_order c (mKey m)) = mRead m \<Longrightarrow>
      writerOf c (mKey m) (c_order c (mKey m) ! length (mRead m)) = Some w \<Longrightarrow> i \<noteq> w \<Longrightarrow> Q i w"
  shows "graph_inv c Q (externalMop c i g m)"
proof -
  obtain adj latest rds where gg: "g = (adj, latest, rds)" by (cases g)
  let ?k = "mKey m" and ?r = "mRead m" and ?ord = "c_order c (mKey m)"
  have G: "edges_in Q adj" "reader_of c (\<lambda>k r. r = c_order c k) latest" "reader_of c (prefix_read c) rds"
    using g gg by (simp_all add: graph_inv_def)
  let ?adj1 = "if ?r \<noteq> [] then (case writerOf c ?k (last ?r) of Some w \<Rightarrow> add w i WR adj | None \<Rightarrow> adj) else adj"
  have a1: "edges_in Q ?adj1" using G(1) wr by (auto split: option.splits intro: add_in)
  have "edges_in Q (if length ?r < length ?ord \<and> take (length ?r) ?ord = ?r
      then (case writerOf c ?k (?ord ! length ?r) of Some w \<Rightarrow> add i w RW a | None \<Rightarrow> a) else a)" if "edges_in Q a" for a
    using that rw by (auto split: option.splits intro: add_in)
  note this [OF a1]
  moreover have "reader_of c (prefix_read c) (if length ?r \<le> length ?ord \<and> take (length ?r) ?ord = ?r then rds(?k := List.insert i (rds ?k)) else rds)"
    using reader_of_insert [OF G(3) i m] G(3) by (simp add: prefix_read_def)
  moreover have "reader_of c (\<lambda>k r. r = c_order c k) (if ?ord = ?r then latest(?k := List.insert i (latest ?k)) else latest)"
    using reader_of_insert [OF G(2) i m] G(2) by simp
  ultimately show ?thesis by (simp add: gg graph_inv_def Let_def)
qed

definition unread_of :: "checker \<Rightarrow> nat \<Rightarrow> readers \<Rightarrow> bool" where
  "unread_of c n unread \<longleftrightarrow> (\<forall>k. sorted_wrt (<) (unread k) \<and> (\<forall>j \<in> set (unread k). j < n \<and> j < length (c_txns c) \<and> c_took c ! j \<and>
     (\<exists>m \<in> set (txMops (c_txns c ! j)). mAppend m \<and> mKey m = k \<and> mValue m \<notin> set (c_order c k))))"

lemma sorted_wrt_less_last: "sorted_wrt (<) xs \<Longrightarrow> x \<in> set xs \<Longrightarrow> x \<le> (last xs :: nat)"
  by (induction xs rule: rev_induct) (auto simp: sorted_wrt_append)

lemma unreadMop_inv:
  assumes g: "edges_in Q (fst g)" "unread_of c (Suc i) (snd g)" and i: "i < length (c_txns c)" "c_took c ! i" and m: "m \<in> set (txMops (c_txns c ! i))"
    and uw: "\<And>w. mAppend m \<Longrightarrow> mValue m \<notin> set (c_order c (mKey m)) \<Longrightarrow> c_order c (mKey m) \<noteq> [] \<Longrightarrow>
      writerOf c (mKey m) (last (c_order c (mKey m))) = Some w \<Longrightarrow> w \<noteq> i \<Longrightarrow> Q w i"
    and ur: "\<And>r. mAppend m \<Longrightarrow> mValue m \<notin> set (c_order c (mKey m)) \<Longrightarrow> r \<in> set (latest (mKey m)) \<Longrightarrow> r \<noteq> i \<Longrightarrow> Q r i"
  shows "edges_in Q (fst (unreadMop c latest i g m))" "unread_of c (Suc i) (snd (unreadMop c latest i g m))"
proof -
  obtain adj unread where gg: "g = (adj, unread)" by (cases g)
  let ?k = "mKey m" and ?ord = "c_order c (mKey m)"
  have all: "edges_in Q (fst (unreadMop c latest i g m)) \<and> unread_of c (Suc i) (snd (unreadMop c latest i g m))"
  proof (cases "\<not> mAppend m \<or> mValue m \<in> set ?ord")
    case True
    then show ?thesis using g gg by (simp add: Let_def)
  next
    case False
    have a1: "edges_in Q (if ?ord \<noteq> [] then (case writerOf c ?k (last ?ord) of Some w \<Rightarrow> add w i WW adj | None \<Rightarrow> adj) else adj)"
      using g(1) gg uw False by (auto split: option.splits intro: add_in)
    have "edges_in Q (foldl (\<lambda>adj r. add r i RW adj) a (sort (latest ?k)))" if "edges_in Q a" for a
      using edges_in_fold [where g = id and f = "\<lambda>adj r. add r i RW adj" and xs = "sort (latest ?k)" and Q = Q and s = a] that ur False
      by (auto intro: add_in)
    note a2 = this [OF a1]
    have old: "sorted_wrt (<) (unread k)" "\<And>j. j \<in> set (unread k) \<Longrightarrow> j < Suc i \<and> j < length (c_txns c) \<and> c_took c ! j \<and>
        (\<exists>m \<in> set (txMops (c_txns c ! j)). mAppend m \<and> mKey m = k \<and> mValue m \<notin> set (c_order c k))" for k
      using g(2) gg unfolding unread_of_def by auto
    note last = sorted_wrt_less_last [OF old(1) [of ?k]]
    have "unread_of c (Suc i) (if unread ?k = [] \<or> last (unread ?k) \<noteq> i then unread(?k := unread ?k @ [i]) else unread)"
    proof (cases "unread ?k = [] \<or> last (unread ?k) \<noteq> i")
      case True
      have "j < i" if j: "j \<in> set (unread ?k)" for j
      proof -
        have "unread ?k \<noteq> []" using j by auto
        then have "last (unread ?k) < i" using True old(2) [OF last_in_set] by force
        then show ?thesis using last [OF j] by simp
      qed
      moreover have "\<exists>m' \<in> set (txMops (c_txns c ! i)). mAppend m' \<and> mKey m' = ?k \<and> mValue m' \<notin> set ?ord" using m False by blast
      ultimately show ?thesis using True old i unfolding unread_of_def by (auto simp: sorted_wrt_append)
    qed (use g(2) gg in simp)
    then show ?thesis using a2 False gg by (simp add: Let_def)
  qed
  then show "edges_in Q (fst (unreadMop c latest i g m))" "unread_of c (Suc i) (snd (unreadMop c latest i g m))" by simp_all
qed

lemma drop_ConsD: "drop n xs = t # ts \<Longrightarrow> n < length xs \<and> t = xs ! n \<and> drop (Suc n) xs = ts"
  by (metis drop_Suc drop_eq_Nil list.distinct(1) list.sel(3) not_le nth_via_drop tl_drop)

lemma enumerate_mem: "(i, t) \<in> set (enumerate 0 ts) \<longleftrightarrow> i < length ts \<and> t = ts ! i"
  by (auto simp: in_set_enumerate_eq)

lemma firstReturn_mem:
  assumes "j \<in> set (snd (firstReturn c t))"
  shows "j < length (c_txns c) \<and> txReturn t < txCall (c_txns c ! j) \<and> c_took c ! j"
proof -
  let ?f = "\<lambda>(first, nx) (j, u). if txCall u > txReturn t \<and> c_took c ! j
      then (if txStatus u = Committed \<and> (first < 0 \<or> txReturn u < first) then txReturn u else first, nx @ [j]) else (first, nx)"
  have "set (snd (foldl ?f s xs)) \<subseteq> set (snd s) \<union> {j. \<exists>u. (j, u) \<in> set xs \<and> txReturn t < txCall u \<and> c_took c ! j}" for s :: "int \<times> nat list" and xs
  proof (induction xs arbitrary: s)
    case (Cons x xs)
    obtain j u where x: "x = (j, u)" by fastforce
    obtain first nx where s: "s = (first, nx)" by fastforce
    have "set (snd (?f s x)) \<subseteq> set (snd s) \<union> (if txReturn t < txCall u \<and> c_took c ! j then {j} else {})" by (auto simp: s x)
    then show ?case using Cons.IH [of "?f s x"] x by (auto split: if_splits)
  qed simp
  from this [of "(-1, [])" "enumerate 0 (c_txns c)"] have "j \<in> {j. \<exists>u. (j, u) \<in> set (enumerate 0 (c_txns c)) \<and> txReturn t < txCall u \<and> c_took c ! j}"
    using assms unfolding firstReturn_def by auto
  then show ?thesis by (auto simp: enumerate_mem)
qed

text \<open>The edges by their reasons: whatever holds of every pair the passes link holds of every edge.\<close>

locale linked =
  fixes c :: checker and Q :: "nat \<Rightarrow> nat \<Rightarrow> bool"
  assumes ww: "\<And>k u v a b. (u, v) \<in> set (zip (c_order c k) (tl (c_order c k))) \<Longrightarrow> writerOf c k u = Some a \<Longrightarrow> writerOf c k v = Some b \<Longrightarrow> a \<noteq> b \<Longrightarrow> Q a b"
    and wr: "\<And>i m w. i < length (c_txns c) \<Longrightarrow> txStatus (c_txns c ! i) = Committed \<Longrightarrow> m \<in> set (external (c_txns c ! i)) \<Longrightarrow>
      mRead m \<noteq> [] \<Longrightarrow> writerOf c (mKey m) (last (mRead m)) = Some w \<Longrightarrow> w \<noteq> i \<Longrightarrow> Q w i"
    and rw: "\<And>i m w. i < length (c_txns c) \<Longrightarrow> txStatus (c_txns c ! i) = Committed \<Longrightarrow> m \<in> set (external (c_txns c ! i)) \<Longrightarrow>
      length (mRead m) < length (c_order c (mKey m)) \<Longrightarrow> take (length (mRead m)) (c_order c (mKey m)) = mRead m \<Longrightarrow>
      writerOf c (mKey m) (c_order c (mKey m) ! length (mRead m)) = Some w \<Longrightarrow> i \<noteq> w \<Longrightarrow> Q i w"
    and uw: "\<And>i m w. i < length (c_txns c) \<Longrightarrow> c_took c ! i \<Longrightarrow> m \<in> set (txMops (c_txns c ! i)) \<Longrightarrow> mAppend m \<Longrightarrow>
      mValue m \<notin> set (c_order c (mKey m)) \<Longrightarrow> c_order c (mKey m) \<noteq> [] \<Longrightarrow> writerOf c (mKey m) (last (c_order c (mKey m))) = Some w \<Longrightarrow> w \<noteq> i \<Longrightarrow> Q w i"
    and ur: "\<And>i m r m'. i < length (c_txns c) \<Longrightarrow> c_took c ! i \<Longrightarrow> m \<in> set (txMops (c_txns c ! i)) \<Longrightarrow> mAppend m \<Longrightarrow>
      mValue m \<notin> set (c_order c (mKey m)) \<Longrightarrow> r < length (c_txns c) \<Longrightarrow> txStatus (c_txns c ! r) = Committed \<Longrightarrow>
      m' \<in> set (external (c_txns c ! r)) \<Longrightarrow> mKey m' = mKey m \<Longrightarrow> mRead m' = c_order c (mKey m) \<Longrightarrow> r \<noteq> i \<Longrightarrow> Q r i"
    and rt: "\<And>i j. optRealtime (c_opts c) \<Longrightarrow> i < length (c_txns c) \<Longrightarrow> txStatus (c_txns c ! i) = Committed \<Longrightarrow> j < length (c_txns c) \<Longrightarrow>
      c_took c ! j \<Longrightarrow> txReturn (c_txns c ! i) < txCall (c_txns c ! j) \<Longrightarrow> i \<noteq> j \<Longrightarrow> Q i j"
    and pr: "\<And>i j. optProcess (c_opts c) \<Longrightarrow> i < j \<Longrightarrow> j < length (c_txns c) \<Longrightarrow> txProcess (c_txns c ! i) = txProcess (c_txns c ! j) \<Longrightarrow> Q i j"
begin

lemma wwKeys_in: "edges_in Q adj \<Longrightarrow> edges_in Q (foldl (wwKey c) adj ks)"
proof (rule edges_in_fold [where g = id, simplified])
  fix adj k assume a: "edges_in Q adj"
  show "edges_in Q (wwKey c adj k)"
    unfolding wwKey_def
  proof (rule edges_in_fold [where g = id, simplified])
    fix adj uv assume uv: "uv \<in> set (zip (c_order c k) (tl (c_order c k)))" and adj: "edges_in Q adj"
    obtain u v where p: "uv = (u, v)" by fastforce
    show "edges_in Q (case uv of (u, v) \<Rightarrow> case (writerOf c k u, writerOf c k v) of (Some a, Some b) \<Rightarrow> add a b WW adj | _ \<Rightarrow> adj)"
      using adj ww [of u v k] uv p by (auto split: option.splits intro: add_in)
  qed (rule a)
qed

lemma externals_in:
  assumes "edges_in Q adj"
  shows "graph_inv c Q (foldl (externalTxn c) (adj, \<lambda>_. [], \<lambda>_. []) (enumerate 0 (c_txns c)))"
proof -
  have txn: "graph_inv c Q (externalTxn c g (i, t))" if g: "graph_inv c Q g" and i: "i < length (c_txns c)" "t = c_txns c ! i" for g i t
  proof (cases "txStatus t = Committed")
    case True
    have "graph_inv c Q (foldl (externalMop c i) g ms)" if "set ms \<subseteq> set (external t)" "graph_inv c Q g" for ms g
      using that
    proof (induction ms arbitrary: g)
      case (Cons m ms)
      have m: "m \<in> set (external (c_txns c ! i))" using Cons.prems(1) i(2) by simp
      have "graph_inv c Q (externalMop c i g m)"
        by (rule externalMop_inv [OF Cons.prems(2) i(1) True [unfolded i(2)] m]) (use wr [OF i(1) _ m] rw [OF i(1) _ m] True i(2) in auto)
      then show ?case using Cons by simp
    qed simp
    then show ?thesis using g True by (simp add: externalTxn_def)
  qed (use g in \<open>simp add: externalTxn_def\<close>)
  have "graph_inv c Q (foldl (externalTxn c) g xs)" if "set xs \<subseteq> set (enumerate 0 (c_txns c))" "graph_inv c Q g" for g xs
    using that
  proof (induction xs arbitrary: g)
    case (Cons x xs)
    obtain i t where x: "x = (i, t)" by fastforce
    then have "graph_inv c Q (externalTxn c g x)" using txn Cons.prems by (auto simp: enumerate_mem)
    then show ?case using Cons by simp
  qed simp
  then show ?thesis using assms by (simp add: graph_inv_def reader_of_def)
qed

lemma unreads_in:
  assumes "edges_in Q adj" and lat: "reader_of c (\<lambda>k r. r = c_order c k) latest"
  shows "edges_in Q (fst (foldl (unreadTxn c latest) (adj, \<lambda>_. []) (enumerate 0 (c_txns c))))"
    "unread_of c (length (c_txns c)) (snd (foldl (unreadTxn c latest) (adj, \<lambda>_. []) (enumerate 0 (c_txns c))))"
proof -
  have mono: "unread_of c n u \<Longrightarrow> unread_of c (Suc n) u" for n u by (auto simp: unread_of_def less_Suc_eq)
  have txn: "edges_in Q (fst (unreadTxn c latest g (i, t))) \<and> unread_of c (Suc i) (snd (unreadTxn c latest g (i, t)))"
    if g: "edges_in Q (fst g)" "unread_of c i (snd g)" and i: "i < length (c_txns c)" "t = c_txns c ! i" for g i t
  proof (cases "c_took c ! i")
    case True
    have "edges_in Q (fst (foldl (unreadMop c latest i) g ms)) \<and> unread_of c (Suc i) (snd (foldl (unreadMop c latest i) g ms))"
      if "set ms \<subseteq> set (txMops t)" "edges_in Q (fst g)" "unread_of c (Suc i) (snd g)" for ms g
      using that
    proof (induction ms arbitrary: g)
      case (Cons m ms)
      have m: "m \<in> set (txMops (c_txns c ! i))" using Cons.prems(1) i(2) by simp
      have ur': "Q r i" if h: "mAppend m" "mValue m \<notin> set (c_order c (mKey m))" "r \<in> set (latest (mKey m))" "r \<noteq> i" for r
      proof -
        obtain m' where "r < length (c_txns c)" "txStatus (c_txns c ! r) = Committed" "m' \<in> set (external (c_txns c ! r))" "mKey m' = mKey m"
          "mRead m' = c_order c (mKey m)" using lat h(3) unfolding reader_of_def by blast
        then show ?thesis using ur [OF i(1) True m h(1,2)] h(4) by blast
      qed
      have uw': "Q w i" if "mAppend m" "mValue m \<notin> set (c_order c (mKey m))" "c_order c (mKey m) \<noteq> []"
        "writerOf c (mKey m) (last (c_order c (mKey m))) = Some w" "w \<noteq> i" for w using uw [OF i(1) True m] that .
      note u = unreadMop_inv [OF Cons.prems(2,3) i(1) True m, where latest = latest, OF uw' ur']
      have "set ms \<subseteq> set (txMops t)" using Cons.prems(1) by simp
      from Cons.IH [OF this u] show ?case unfolding foldl.simps .
    qed simp
    then show ?thesis using g mono True by (simp add: unreadTxn_def)
  qed (use g mono in \<open>simp add: unreadTxn_def\<close>)
  have "edges_in Q (fst (foldl (unreadTxn c latest) g (enumerate n ts))) \<and> unread_of c (n + length ts) (snd (foldl (unreadTxn c latest) g (enumerate n ts)))"
    if "edges_in Q (fst g)" "unread_of c n (snd g)" "drop n (c_txns c) = ts" for g n ts
    using that
  proof (induction ts arbitrary: g n)
    case (Cons t ts)
    have n: "n < length (c_txns c)" "t = c_txns c ! n" "drop (Suc n) (c_txns c) = ts"
      using drop_ConsD [OF Cons.prems(3)] by simp_all
    show ?case using Cons.IH [of "unreadTxn c latest g (n, t)" "Suc n"] txn [OF Cons.prems(1,2) n(1,2)] n(3) by simp
  qed simp
  from this [of "(adj, \<lambda>_. [])" 0 "c_txns c"] show
    "edges_in Q (fst (foldl (unreadTxn c latest) (adj, \<lambda>_. []) (enumerate 0 (c_txns c))))"
    "unread_of c (length (c_txns c)) (snd (foldl (unreadTxn c latest) (adj, \<lambda>_. []) (enumerate 0 (c_txns c))))"
    using assms(1) by (simp_all add: unread_of_def)
qed

lemma realtime_in:
  assumes "edges_in Q adj" "optRealtime (c_opts c)"
  shows "edges_in Q (foldl (realtimeTxn c) adj (enumerate 0 (c_txns c)))"
proof (rule edges_in_fold [where g = id, simplified])
  fix adj it assume it: "it \<in> set (enumerate 0 (c_txns c))" and adj: "edges_in Q adj"
  obtain i t where p: "it = (i, t)" by fastforce
  obtain first nx where f: "firstReturn c t = (first, nx)" by fastforce
  have i: "i < length (c_txns c)" "t = c_txns c ! i" using it p by (simp_all add: enumerate_mem)
  show "edges_in Q (realtimeTxn c adj it)"
  proof (cases "txStatus t = Committed")
    case True
    have "edges_in Q (foldl (\<lambda>adj j. if first < 0 \<or> txCall (c_txns c ! j) \<le> first then add i j Realtime adj else adj) adj nx)"
    proof (rule edges_in_fold [where g = id, simplified])
      fix adj j assume j: "j \<in> set nx" and a: "edges_in Q adj"
      have "j < length (c_txns c)" "txReturn t < txCall (c_txns c ! j)" "c_took c ! j" using firstReturn_mem [of j c t] j f by simp_all
      then have "i \<noteq> j \<Longrightarrow> Q i j" using rt [OF assms(2) i(1)] True i(2) by blast
      then show "edges_in Q (if first < 0 \<or> txCall (c_txns c ! j) \<le> first then add i j Realtime adj else adj)" using a by (auto intro: add_in)
    qed (rule adj)
    then show ?thesis using True p f by (simp add: realtimeTxn_def)
  qed (use adj p in \<open>simp add: realtimeTxn_def\<close>)
qed (rule assms(1))

lemma process_in:
  assumes "edges_in Q adj" "optProcess (c_opts c)"
  shows "edges_in Q (snd (foldl processTxn (\<lambda>_. None, adj) (enumerate 0 (c_txns c))))"
proof -
  have "edges_in Q (snd (foldl processTxn g (enumerate n ts)))"
    if "edges_in Q (snd g)" "\<forall>p i. fst g p = Some i \<longrightarrow> i < n \<and> txProcess (c_txns c ! i) = p" "drop n (c_txns c) = ts" for g n ts
    using that
  proof (induction ts arbitrary: g n)
    case (Cons t ts)
    have n: "n < length (c_txns c)" "t = c_txns c ! n" "drop (Suc n) (c_txns c) = ts"
      using drop_ConsD [OF Cons.prems(3)] by simp_all
    obtain lst adj where g: "g = (lst, adj)" by fastforce
    have "edges_in Q (snd (processTxn g (n, t)))"
      using Cons.prems(1,2) g pr [OF assms(2) _ n(1)] n(2) by (auto split: option.splits intro!: add_in)
    moreover have "\<forall>p i. fst (processTxn g (n, t)) p = Some i \<longrightarrow> i < Suc n \<and> txProcess (c_txns c ! i) = p"
      using Cons.prems(2) g n(2) by (auto simp: less_Suc_eq)
    ultimately show ?case using Cons.IH [of "processTxn g (n, t)" "Suc n"] n(3) by simp
  qed simp
  from this [of "(\<lambda>_. None, adj)" 0 "c_txns c"] show ?thesis using assms(1) by simp
qed

text \<open>The whole pass, and the lost updates it lists.\<close>

lemma edges_edges_in:
  assumes "edges_in Q (c_adj c)"
  shows "edges_in Q (c_adj (edges ks c))"
    "\<forall>p \<in> set (c_pairs (edges ks c)). p \<in> set (c_pairs c) \<or>
      (\<exists>unread rds k. unread_of c (length (c_txns c)) unread \<and> reader_of c (prefix_read c) rds \<and> p \<in> set (pairsOf k (filter (\<lambda>i. i \<in> set (rds k)) (unread k))))"
proof -
  let ?ts = "enumerate 0 (c_txns c)" and ?adj0 = "foldl (wwKey c) (c_adj c) ks"
  obtain adj1 latest rds where g1: "foldl (externalTxn c) (?adj0, \<lambda>_. [], \<lambda>_. []) ?ts = (adj1, latest, rds)" using prod_cases3 by blast
  have inv1: "edges_in Q adj1" "reader_of c (\<lambda>k r. r = c_order c k) latest" "reader_of c (prefix_read c) rds"
    using externals_in [OF wwKeys_in [OF assms, of ks]] g1 by (simp_all add: graph_inv_def)
  obtain adj2 unread where g2: "foldl (unreadTxn c latest) (adj1, \<lambda>_. []) ?ts = (adj2, unread)" by fastforce
  have inv2: "edges_in Q adj2" "unread_of c (length (c_txns c)) unread" using unreads_in [OF inv1(1,2)] g2 by simp_all
  let ?adj3 = "if optRealtime (c_opts c) then foldl (realtimeTxn c) adj2 ?ts else adj2"
  have a3: "edges_in Q ?adj3" using inv2(1) realtime_in [OF inv2(1)] by simp
  let ?adj4 = "if optProcess (c_opts c) then snd (foldl processTxn (\<lambda>_. None, ?adj3) ?ts) else ?adj3"
  have e: "edges ks c = c\<lparr>c_adj := ?adj4, c_pairs := c_pairs c @ lostPairs c rds unread\<rparr>"
    unfolding edges_def Let_def g1 g2 prod.case by simp
  have a4: "edges_in Q ?adj4"
  proof (cases "optProcess (c_opts c)")
    case True
    then show ?thesis using process_in [OF a3 True] by (simp only: if_True)
  qed (use a3 in simp)
  show "edges_in Q (c_adj (edges ks c))" unfolding e using a4 by simp
  have "p \<in> set (c_pairs c) \<or> (\<exists>k. p \<in> set (pairsOf k (filter (\<lambda>i. i \<in> set (rds k)) (unread k))))" if "p \<in> set (c_pairs (edges ks c))" for p
    using that unfolding e lostPairs_def by auto
  then show "\<forall>p \<in> set (c_pairs (edges ks c)). p \<in> set (c_pairs c) \<or>
      (\<exists>unread rds k. unread_of c (length (c_txns c)) unread \<and> reader_of c (prefix_read c) rds \<and> p \<in> set (pairsOf k (filter (\<lambda>i. i \<in> set (rds k)) (unread k))))"
    using inv1(3) inv2(2) by blast
qed

end

lemma edges_fields:
  "c_txns (edges ks c) = c_txns c" "c_out (edges ks c) = c_out c" "length (c_adj (edges ks c)) = length (c_adj c)"
proof -
  show "c_txns (edges ks c) = c_txns c" "c_out (edges ks c) = c_out c" by (simp_all add: edges_def Let_def split: prod.splits)
  have ww: "length (wwKey c adj k) = length adj" for adj k
  proof -
    have "length (foldl (\<lambda>adj (u, v). case (writerOf c k u, writerOf c k v) of (Some a, Some b) \<Rightarrow> add a b WW adj | _ \<Rightarrow> adj) adj xs) = length adj" for adj xs
      by (induction xs arbitrary: adj) (auto split: prod.splits option.splits)
    then show ?thesis by (simp add: wwKey_def)
  qed
  have l0: "length (foldl (wwKey c) adj ks) = length adj" for adj by (induction ks arbitrary: adj) (simp_all add: ww)
  have e1: "length (fst (externalMop c i g m)) = length (fst g)" for i g m by (cases g) (auto simp: Let_def split: option.splits)
  have e2: "length (fst (foldl (externalMop c i) g ms)) = length (fst g)" for i g ms by (induction ms arbitrary: g) (simp_all only: foldl.simps e1)
  have e3: "length (fst (foldl (externalTxn c) g xs)) = length (fst g)" for g xs
    by (induction xs arbitrary: g) (auto simp: externalTxn_def e2 split: prod.splits)
  have r: "length (foldl (\<lambda>adj r. add r i RW adj) adj xs) = length adj" for i adj xs by (induction xs arbitrary: adj) simp_all
  have u1: "length (fst (unreadMop c latest i g m)) = length (fst g)" for latest i g m by (cases g) (auto simp: Let_def r split: option.splits)
  have u2: "length (fst (foldl (unreadMop c latest i) g ms)) = length (fst g)" for latest i g ms by (induction ms arbitrary: g) (simp_all only: foldl.simps u1)
  have u3: "length (fst (foldl (unreadTxn c latest) g xs)) = length (fst g)" for latest g xs
    by (induction xs arbitrary: g) (auto simp: unreadTxn_def u2 split: prod.splits)
  have t1: "length (foldl (\<lambda>adj j. if P j then add i j Realtime adj else adj) adj xs) = length adj" for P i adj xs by (induction xs arbitrary: adj) simp_all
  have t2: "length (foldl (realtimeTxn c) adj xs) = length adj" for adj xs
    by (induction xs arbitrary: adj) (auto simp: realtimeTxn_def t1 split: prod.splits)
  have p1: "length (snd (processTxn g x)) = length (snd g)" for g x by (cases g; cases x) (auto split: option.splits)
  have p2: "length (snd (foldl processTxn g xs)) = length (snd g)" for g xs by (induction xs arbitrary: g) (simp_all only: foldl.simps p1)
  let ?ts = "enumerate 0 (c_txns c)" and ?adj0 = "foldl (wwKey c) (c_adj c) ks"
  obtain adj1 latest rds where g1: "foldl (externalTxn c) (?adj0, \<lambda>_. [], \<lambda>_. []) ?ts = (adj1, latest, rds)" using prod_cases3 by blast
  obtain adj2 unread where g2: "foldl (unreadTxn c latest) (adj1, \<lambda>_. []) ?ts = (adj2, unread)" by fastforce
  have "length adj1 = length (c_adj c)" using e3 [of "(?adj0, \<lambda>_. [], \<lambda>_. [])" ?ts] g1 l0 by simp
  moreover have "length adj2 = length adj1" using u3 [of latest "(adj1, \<lambda>_. [])" ?ts] g2 by simp
  ultimately show "length (c_adj (edges ks c)) = length (c_adj c)"
    unfolding edges_def Let_def g1 g2 prod.case by (simp add: t2 p2)
qed

subsection \<open>Edges that are there\<close>

text \<open>An edge once added stays; the reads before an append, and the transactions of a process, are linked.\<close>

definition edge_at :: "nat \<Rightarrow> nat \<Rightarrow> edge_kind \<Rightarrow> edge list list \<Rightarrow> bool" where
  "edge_at i j k adj \<longleftrightarrow> i < length adj \<and> \<lparr>e_to = j, e_kind = k\<rparr> \<in> set (adj ! i)"

lemma edge_at_add [intro]: "edge_at i j k adj \<Longrightarrow> edge_at i j k (add a b k' adj)"
  by (cases "a < length adj") (auto simp: edge_at_def add_def nth_list_update list_update_beyond)

lemma edge_at_new: "i < length adj \<Longrightarrow> i \<noteq> j \<Longrightarrow> edge_at i j k (add i j k adj)"
  by (auto simp: edge_at_def add_def)

lemma edge_at_fold: "(\<And>s x. edge_at i j k (g s) \<Longrightarrow> edge_at i j k (g (f s x))) \<Longrightarrow> edge_at i j k (g s) \<Longrightarrow> edge_at i j k (g (foldl f s xs))"
  by (induction xs arbitrary: s) auto

lemma edge_at_externalMop: "edge_at i j k (fst g) \<Longrightarrow> edge_at i j k (fst (externalMop c n g m))"
  by (cases g) (auto simp: Let_def split: option.splits)

lemma edge_at_externalTxn:
  assumes "edge_at i j k (fst g)"
  shows "edge_at i j k (fst (externalTxn c g it))"
proof -
  have "edge_at i j k (fst (foldl (externalMop c n) g ms))" for n ms by (rule edge_at_fold [where g = fst]) (simp_all add: edge_at_externalMop assms)
  then show ?thesis using assms by (auto simp: externalTxn_def split: prod.splits)
qed

lemma edge_at_unreadTxn:
  assumes "edge_at i j k (fst u)"
  shows "edge_at i j k (fst (unreadTxn c latest u it))"
proof -
  have rw: "edge_at i j k (foldl (\<lambda>adj r. add r n RW adj) adj rs)" if "edge_at i j k adj" for n adj rs
    by (rule edge_at_fold [where g = "\<lambda>s. s"]) (use that in auto)
  have "edge_at i j k (fst (unreadMop c latest n u m))" if "edge_at i j k (fst u)" for n u m
    using that by (cases u) (auto simp: Let_def intro!: rw split: option.splits)
  then have "edge_at i j k (fst (foldl (unreadMop c latest n) u ms))" for n ms by (rule edge_at_fold [where g = fst]) (simp_all add: assms)
  then show ?thesis using assms by (auto simp: unreadTxn_def split: prod.splits)
qed

lemma edge_at_realtimeTxn:
  assumes "edge_at i j k adj"
  shows "edge_at i j k (realtimeTxn c adj it)"
proof -
  have "edge_at i j k (foldl (\<lambda>adj j. if first < 0 \<or> txCall (c_txns c ! j) \<le> first then add n j Realtime adj else adj) adj nx)" for first n nx
    by (rule edge_at_fold [where g = "\<lambda>s. s"]) (use assms in auto)
  then show ?thesis using assms by (auto simp: realtimeTxn_def split: prod.splits)
qed

lemma edge_at_processTxn: "edge_at i j k (snd p) \<Longrightarrow> edge_at i j k (snd (processTxn p it))"
  by (cases p; cases it) (auto split: option.splits)

lemma foldl_reaches:
  assumes "x \<in> set xs" "\<And>s. I s \<Longrightarrow> P (f s x)" "\<And>s y. P s \<Longrightarrow> P (f s y)" "\<And>s y. I s \<Longrightarrow> I (f s y)" "I s"
  shows "P (foldl f s xs)"
proof -
  obtain ys zs where xs: "xs = ys @ x # zs" using split_list [OF assms(1)] by blast
  have I: "I (foldl f s ys)" for ys using assms(4,5) by (induction ys rule: rev_induct) auto
  have "P (foldl f t zs)" if "P t" for t zs using that assms(3) by (induction zs arbitrary: t) auto
  then show ?thesis using xs assms(2) [OF I] by simp
qed

lemma edge_at_rw:
  assumes i: "i < length (c_txns c)" "txStatus (c_txns c ! i) = Committed" "m \<in> set (external (c_txns c ! i))" and l: "i < length adj"
    and r: "length (mRead m) < length (c_order c (mKey m))" "take (length (mRead m)) (c_order c (mKey m)) = mRead m"
      "writerOf c (mKey m) (c_order c (mKey m) ! length (mRead m)) = Some w" "i \<noteq> w"
  shows "edge_at i w RW (fst (foldl (externalTxn c) (adj, lat, rds) (enumerate 0 (c_txns c))))"
proof -
  have len: "length (fst (externalMop c n g m)) = length (fst g)" for n g m by (cases g) (auto simp: Let_def split: option.splits)
  have lens: "length (fst (foldl (externalMop c n) g ms)) = length (fst g)" for n g ms by (induction ms arbitrary: g) (simp_all only: foldl.simps len)
  have mop: "edge_at i w RW (fst (externalMop c i g m))" if "i < length (fst g)" for g
    using that r by (cases g) (auto simp: Let_def intro!: edge_at_new split: option.splits)
  have txn: "edge_at i w RW (fst (externalTxn c g (i, c_txns c ! i)))" if "i < length (fst g)" for g
  proof -
    have "edge_at i w RW (fst (foldl (externalMop c i) g (external (c_txns c ! i))))"
      by (rule foldl_reaches [OF i(3), where P = "\<lambda>g. edge_at i w RW (fst g)" and I = "\<lambda>g. i < length (fst g)"])
        (use mop that in \<open>simp_all only: len edge_at_externalMop\<close>)
    then show ?thesis using i(2) by (simp add: externalTxn_def)
  qed
  have keep: "i < length (fst (externalTxn c g y))" if "i < length (fst g)" for g y
    using that by (cases y) (simp add: externalTxn_def lens)
  have "(i, c_txns c ! i) \<in> set (enumerate 0 (c_txns c))" using i(1) by (simp add: enumerate_mem)
  from foldl_reaches [OF this, where P = "\<lambda>g. edge_at i w RW (fst g)" and I = "\<lambda>g. i < length (fst g)" and f = "externalTxn c" and s = "(adj, lat, rds)"]
  show ?thesis using txn keep edge_at_externalTxn l by simp
qed

lemma process_last:
  assumes "i < n" "n \<le> length ts" "\<forall>l. i < l \<and> l < n \<longrightarrow> txProcess (ts ! l) \<noteq> txProcess (ts ! i)"
  shows "fst (foldl processTxn s (enumerate 0 (take n ts))) (txProcess (ts ! i)) = Some i"
  using assms
proof (induction n)
  case (Suc n)
  obtain lst adj where f: "foldl processTxn s (enumerate 0 (take n ts)) = (lst, adj)" by fastforce
  have e: "enumerate 0 (take (Suc n) ts) = enumerate 0 (take n ts) @ [(n, ts ! n)]" using Suc.prems(2) by (simp add: take_Suc_conv_app_nth enumerate_append_eq)
  show ?case
  proof (cases "i = n")
    case False
    then have "lst (txProcess (ts ! i)) = Some i" "txProcess (ts ! n) \<noteq> txProcess (ts ! i)" using Suc f by (simp_all add: less_Suc_eq)
    then show ?thesis unfolding e by (simp add: f)
  qed (simp add: e f)
qed simp

lemma edge_at_process:
  assumes "i < j" "j < length ts" "txProcess (ts ! i) = txProcess (ts ! j)" "\<forall>l. i < l \<and> l < j \<longrightarrow> txProcess (ts ! l) \<noteq> txProcess (ts ! i)" "i < length adj"
  shows "edge_at i j Process (snd (foldl processTxn (lst, adj) (enumerate 0 ts)))"
proof -
  obtain lst' adj' where f: "foldl processTxn (lst, adj) (enumerate 0 (take j ts)) = (lst', adj')" by fastforce
  have len: "length (snd (foldl processTxn p xs)) = length (snd p)" for p xs
    by (induction xs arbitrary: p) (auto split: option.splits prod.splits)
  have "i < length adj'" using len [of "(lst, adj)" "enumerate 0 (take j ts)"] f assms(5) by simp
  moreover have "lst' (txProcess (ts ! j)) = Some i" using process_last [OF assms(1) _ assms(4), of "(lst, adj)"] f assms(2,3) by simp
  ultimately have "edge_at i j Process (snd (processTxn (lst', adj') (j, ts ! j)))" using assms(1) by (auto intro: edge_at_new)
  then have "edge_at i j Process (snd (foldl processTxn (processTxn (lst', adj') (j, ts ! j)) xs))" for xs
    by (rule edge_at_fold [where g = snd, rotated]) (rule edge_at_processTxn)
  moreover have "enumerate 0 ts = enumerate 0 (take j ts) @ (j, ts ! j) # enumerate (Suc j) (drop (Suc j) ts)"
    using assms(2) by (subst id_take_nth_drop [OF assms(2)]) (simp add: enumerate_append_eq)
  ultimately show ?thesis by (simp add: f)
qed

subsection \<open>The check returns and reports the cycles\<close>

definition examined :: "iteration \<Rightarrow> Txn list \<Rightarrow> Options \<Rightarrow> checker" where
  "examined it txns opts = (reads (effects (it_effects it) (orders (it_orders it) (internal (appends (newChecker txns opts))))))
     \<lparr>c_adj := replicate (length txns) []\<rparr>"

definition dependencies :: "iteration \<Rightarrow> Txn list \<Rightarrow> Options \<Rightarrow> checker" where
  "dependencies it txns opts = edges (it_edges it) (examined it txns opts)"

lemma CheckTxns_cycles: "CheckTxns it txns opts = map_option c_out (cycles (dependencies it txns opts))"
  by (simp add: CheckTxns_def Let_def dependencies_def examined_def)

lemma examined_fields [simp]:
  "c_txns (examined it txns opts) = txns" "c_opts (examined it txns opts) = opts" "c_adj (examined it txns opts) = replicate (length txns) []"
  "c_pairs (examined it txns opts) = []" "length (c_took (examined it txns opts)) = length txns" "writers_of txns (examined it txns opts)"
proof -
  let ?c1 = "appends (newChecker txns opts)"
  let ?c2 = "internal ?c1"
  let ?c3 = "orders (it_orders it) ?c2"
  let ?c4 = "effects (it_effects it) ?c3"
  note f2 = only_out_fields [OF internal_only [of ?c1]]
  note f3 = orders_fields [of "it_orders it" ?c2]
  note f5 = only_out_fields [OF reads_only [of ?c4]]
  have f4: "c_txns ?c4 = c_txns ?c3" "c_opts ?c4 = c_opts ?c3" "c_writer ?c4 = c_writer ?c3" "c_appended ?c4 = c_appended ?c3" "c_pairs ?c4 = c_pairs ?c3"
    by (simp_all add: effects_def)
  show "c_txns (examined it txns opts) = txns" "c_opts (examined it txns opts) = opts" "c_adj (examined it txns opts) = replicate (length txns) []"
    "c_pairs (examined it txns opts) = []" "length (c_took (examined it txns opts)) = length txns"
    using f2 f3 f4 f5 length_took [of "it_effects it" ?c3] by (simp_all add: examined_def newChecker_def)
  show "writers_of txns (examined it txns opts)"
    using appends_writers [of txns opts] f2 f3 f4 f5 by (simp add: examined_def writers_of_def)
qed

interpretation dep: linked "examined it txns opts" "\<lambda>i j. i < length txns \<and> j < length txns \<and> i \<noteq> j" for it txns opts
proof unfold_locales
  note W = writers_ofD(4) [OF examined_fields(6)]
  show "a < length txns \<and> b < length txns \<and> a \<noteq> b"
    if "writerOf (examined it txns opts) k u = Some a" "writerOf (examined it txns opts) k v = Some b" "a \<noteq> b" for k u v a b
    using W that by blast
qed (use writers_ofD(4) [OF examined_fields(6) [of txns it opts]] in auto)

lemma edges_in_wf: "edges_in (\<lambda>i j. i < length adj \<and> j < length adj \<and> i \<noteq> j) adj \<Longrightarrow> wf_adj adj \<and> no_loops adj"
  unfolding edges_in_def wf_adj_def no_loops_def by (force simp: in_set_conv_nth)

lemma dependencies_wf: "wf_adj (c_adj (dependencies it txns opts)) \<and> no_loops (c_adj (dependencies it txns opts))"
proof -
  have "edges_in (\<lambda>i j. i < length txns \<and> j < length txns \<and> i \<noteq> j) (c_adj (examined it txns opts))" by (simp add: edges_in_def)
  from dep.edges_edges_in(1) [OF this, of "it_edges it"]
  show ?thesis using edges_in_wf [of "c_adj (dependencies it txns opts)"] edges_fields(3) [of "it_edges it" "examined it txns opts"]
    by (simp add: dependencies_def)
qed

lemma CheckTxns_ok:
  obtains new where "CheckTxns it txns opts = Some (c_out (dependencies it txns opts) @ new)"
    "\<forall>a \<in> set new. real_cycle (dependencies it txns opts) a \<or> real_pair (dependencies it txns opts) a"
    "(\<exists>w. closed_walk (c_adj (dependencies it txns opts)) w) \<longrightarrow> new \<noteq> []"
proof -
  let ?c = "dependencies it txns opts"
  obtain c' where c': "cycles ?c = Some c'" "adds ?c c'" "(\<exists>w. closed_walk (c_adj ?c) w) \<longrightarrow> length (c_out ?c) < length (c_out c')"
    using cycles_ok dependencies_wf by blast
  obtain new where new: "c' = ?c\<lparr>c_out := c_out ?c @ new\<rparr>" "\<forall>a \<in> set new. real_cycle ?c a \<or> real_pair ?c a" using c'(2) unfolding adds_def by blast
  show ?thesis by (rule that [of new]) (use c' new in \<open>auto simp: CheckTxns_cycles\<close>)
qed

text \<open>
  A read that stops just short of an append, in the order of the key, by a transaction of the same
  process that came before the reader, whatever became of it: with the order of processes asked for
  the two make a cycle.
\<close>

lemma dependencies_cycle:
  assumes ij: "i < j" "j < length txns" "txProcess (txns ! i) = txProcess (txns ! j)" "\<forall>l. i < l \<and> l < j \<longrightarrow> txProcess (txns ! l) \<noteq> txProcess (txns ! i)"
    and j: "txStatus (txns ! j) = Committed" "m \<in> set (external (txns ! j))" and o: "optProcess opts"
    and r: "length (mRead m) < length (c_order (examined it txns opts) (mKey m))"
      "take (length (mRead m)) (c_order (examined it txns opts) (mKey m)) = mRead m"
      "writerOf (examined it txns opts) (mKey m) (c_order (examined it txns opts) (mKey m) ! length (mRead m)) = Some i"
  shows "closed_walk (c_adj (dependencies it txns opts)) [(i, Process), (j, RW)]"
proof -
  let ?c = "examined it txns opts"
  let ?ts = "enumerate 0 txns" and ?adj0 = "foldl (wwKey ?c) (replicate (length txns) []) (it_edges it)"
  obtain adj1 latest rds where g1: "foldl (externalTxn ?c) (?adj0, \<lambda>_. [], \<lambda>_. []) ?ts = (adj1, latest, rds)" using prod_cases3 by blast
  obtain adj2 unread where g2: "foldl (unreadTxn ?c latest) (adj1, \<lambda>_. []) ?ts = (adj2, unread)" by fastforce
  let ?adj3 = "if optRealtime opts then foldl (realtimeTxn ?c) adj2 ?ts else adj2"
  have e: "c_adj (dependencies it txns opts) = snd (foldl processTxn (\<lambda>_. None, ?adj3) ?ts)"
    using o unfolding dependencies_def edges_def Let_def examined_fields g1 g2 prod.case by simp
  have len: "length (c_adj (dependencies it txns opts)) = length txns" using edges_fields(3) [of "it_edges it" ?c] by (simp add: dependencies_def)
  have l0: "length ?adj0 = length txns"
  proof -
    have ww: "length (wwKey ?c adj k) = length adj" for adj k
    proof -
      have "length (foldl (\<lambda>adj (u, v). case (writerOf ?c k u, writerOf ?c k v) of (Some a, Some b) \<Rightarrow> add a b WW adj | _ \<Rightarrow> adj) adj xs) = length adj" for adj xs
        by (induction xs arbitrary: adj) (auto split: prod.splits option.splits)
      then show ?thesis by (simp add: wwKey_def)
    qed
    have "length (foldl (wwKey ?c) adj ks) = length adj" for adj ks by (induction ks arbitrary: adj) (simp_all add: ww)
    then show ?thesis by simp
  qed
  have "edge_at j i RW adj1" using edge_at_rw [of j ?c m ?adj0 i "\<lambda>_. []" "\<lambda>_. []"] ij(1,2) j r l0 g1 by simp
  then have "edge_at j i RW (fst (foldl (unreadTxn ?c latest) (adj1, \<lambda>_. []) ?ts))"
    by (intro edge_at_fold [where g = fst] edge_at_unreadTxn) simp_all
  then have a2: "edge_at j i RW adj2" using g2 by simp
  then have "edge_at j i RW (foldl (realtimeTxn ?c) adj2 ?ts)" by (intro edge_at_fold [where g = "\<lambda>s. s"] edge_at_realtimeTxn) simp_all
  then have "edge_at j i RW ?adj3" using a2 by simp
  then have rw: "edge_at j i RW (c_adj (dependencies it txns opts))"
    unfolding e by (intro edge_at_fold [where g = snd] edge_at_processTxn) simp_all
  have "length (snd (foldl processTxn p xs)) = length (snd p)" for p xs
    by (induction xs arbitrary: p) (auto split: option.splits prod.splits)
  then have "length ?adj3 = length txns" using len unfolding e by simp
  then have "edge_at i j Process (c_adj (dependencies it txns opts))" unfolding e using edge_at_process [OF ij] ij(1,2) by simp
  then have "(j, Process) \<in> set (nexts (c_adj (dependencies it txns opts)) any (\<lambda>_. True) i)" "(i, RW) \<in> set (nexts (c_adj (dependencies it txns opts)) any (\<lambda>_. True) j)"
    using rw by (force simp: edge_at_def nexts_def)+
  then show ?thesis using ij(1,2) len by (auto simp: closed_walk_def)
qed

text \<open>
  C17: the check of a transactional history returns on every history, in whatever order maps are
  iterated, and reports the cycles of the dependency graph it built: every cycle it reports is
  one of the graph, of the shape its kind names (ww only, no rw, one rw, no two rw in a row),
  every other report of this pass is one of the lost updates listed, and when the graph has a
  cycle at all, something is reported.
\<close>

theorem CheckTxns_reports_cycles:
  "\<exists>new. CheckTxns it txns opts = Some (c_out (dependencies it txns opts) @ new) \<and>
    (\<forall>a \<in> set new. real_cycle (dependencies it txns opts) a \<or> real_pair (dependencies it txns opts) a) \<and>
    ((\<exists>w. closed_walk (c_adj (dependencies it txns opts)) w) \<longrightarrow> new \<noteq> [])"
  by (rule CheckTxns_ok [of it txns opts]) blast

text \<open>Two transactions that each read what the other is about to append to: write skew.\<close>

definition skew :: "Txn list" where
  "skew = [\<lparr>txID = 1, txProcess = 1, txCall = 1, txReturn = 4, txStatus = Committed,
      txMops = [\<lparr>mAppend = False, mKey = ''x'', mValue = [], mRead = []\<rparr>, \<lparr>mAppend = True, mKey = ''y'', mValue = ''1'', mRead = []\<rparr>]\<rparr>,
    \<lparr>txID = 2, txProcess = 2, txCall = 2, txReturn = 3, txStatus = Committed,
      txMops = [\<lparr>mAppend = False, mKey = ''y'', mValue = [], mRead = []\<rparr>, \<lparr>mAppend = True, mKey = ''x'', mValue = ''2'', mRead = []\<rparr>]\<rparr>]"

definition skew_keys :: iteration where
  "skew_keys = \<lparr>it_orders = [''x'', ''y''], it_effects = [''x'', ''y''], it_edges = [''y'', ''x'']\<rparr>"

theorem CheckTxns_reports_cycles_witness:
  "\<exists>new. CheckTxns skew_keys skew \<lparr>optRealtime = True, optProcess = False\<rparr> = Some new \<and> new \<noteq> []"
proof -
  let ?c = "dependencies skew_keys skew \<lparr>optRealtime = True, optProcess = False\<rparr>"
  have "c_adj ?c = [[\<lparr>e_to = 1, e_kind = RW\<rparr>], [\<lparr>e_to = 0, e_kind = RW\<rparr>]]" by code_simp
  then have "closed_walk (c_adj ?c) [(0, RW), (1, RW)]" by (auto simp: closed_walk_def nexts_def)
  then show ?thesis using CheckTxns_reports_cycles [of skew_keys skew "\<lparr>optRealtime = True, optProcess = False\<rparr>"] by auto
qed

end
