(* ===== verification/Txn_Serial.thy ===== *)
theory Txn_Serial
  imports Txn_Graph
begin

text \<open>
  Serial histories: those of transactions that took effect one after another, each reading
  what the ones before it left. The lists they read, and what the passes of the checker make
  of them.
\<close>

subsection \<open>Serial histories\<close>

definition content :: "Txn list \<Rightarrow> (nat \<Rightarrow> bool) \<Rightarrow> string \<Rightarrow> nat list \<Rightarrow> string list" where
  "content txns eff k xs = concat (map (\<lambda>i. if eff i then appendsTo k (txns ! i) else []) xs)"

fun honestMops :: "(string \<Rightarrow> string list) \<Rightarrow> Mop list \<Rightarrow> bool" where
  "honestMops s [] \<longleftrightarrow> True"
| "honestMops s (m # ms) \<longleftrightarrow>
     (if mAppend m then honestMops (s(mKey m := s (mKey m) @ [mValue m])) ms else mRead m = s (mKey m) \<and> honestMops s ms)"

definition pre :: "nat list \<Rightarrow> nat \<Rightarrow> nat list" where
  "pre ser i = takeWhile (\<lambda>j. j \<noteq> i) ser"

definition rank :: "nat list \<Rightarrow> nat \<Rightarrow> nat" where
  "rank ser i = length (pre ser i)"

definition unique_appends :: "Txn list \<Rightarrow> bool" where
  "unique_appends txns \<longleftrightarrow> (\<forall>k. \<forall>i < length txns. distinct (appendsTo k (txns ! i)) \<and>
     (\<forall>j < length txns. i \<noteq> j \<longrightarrow> set (appendsTo k (txns ! i)) \<inter> set (appendsTo k (txns ! j)) = {}))"

definition serial :: "Txn list \<Rightarrow> Options \<Rightarrow> (nat \<Rightarrow> bool) \<Rightarrow> nat list \<Rightarrow> bool" where
  "serial txns opts eff ser \<longleftrightarrow>
     distinct ser \<and> set ser = {..<length txns} \<and> unique_appends txns \<and>
     (\<forall>i < length txns. (txStatus (txns ! i) = Committed \<longrightarrow> eff i \<and> honestMops (\<lambda>k. content txns eff k (pre ser i)) (txMops (txns ! i))) \<and>
        (txStatus (txns ! i) = Aborted \<longrightarrow> \<not> eff i)) \<and>
     (optRealtime opts \<longrightarrow> (\<forall>i < length txns. \<forall>j < length txns. txStatus (txns ! i) = Committed \<longrightarrow> eff j \<longrightarrow> i \<noteq> j \<longrightarrow>
        txReturn (txns ! i) < txCall (txns ! j) \<longrightarrow> rank ser i < rank ser j)) \<and>
     (optProcess opts \<longrightarrow> (\<forall>j < length txns. \<forall>i < j. txProcess (txns ! i) = txProcess (txns ! j) \<longrightarrow> rank ser i < rank ser j))"

lemma serialD:
  assumes "serial txns opts eff ser"
  shows "distinct ser" "set ser = {..<length txns}" "unique_appends txns"
    "i < length txns \<Longrightarrow> txStatus (txns ! i) = Committed \<Longrightarrow> eff i"
    "i < length txns \<Longrightarrow> txStatus (txns ! i) = Committed \<Longrightarrow> honestMops (\<lambda>k. content txns eff k (pre ser i)) (txMops (txns ! i))"
    "i < length txns \<Longrightarrow> txStatus (txns ! i) = Aborted \<Longrightarrow> \<not> eff i"
    "optRealtime opts \<Longrightarrow> i < length txns \<Longrightarrow> j < length txns \<Longrightarrow> txStatus (txns ! i) = Committed \<Longrightarrow> eff j \<Longrightarrow> i \<noteq> j \<Longrightarrow>
      txReturn (txns ! i) < txCall (txns ! j) \<Longrightarrow> rank ser i < rank ser j"
    "optProcess opts \<Longrightarrow> i < j \<Longrightarrow> j < length txns \<Longrightarrow> txProcess (txns ! i) = txProcess (txns ! j) \<Longrightarrow> rank ser i < rank ser j"
  using assms unfolding serial_def by blast+

lemma unique_appendsD:
  assumes "unique_appends txns" "i < length txns"
  shows "distinct (appendsTo k (txns ! i))"
    "v \<in> set (appendsTo k (txns ! i)) \<Longrightarrow> j < length txns \<Longrightarrow> v \<in> set (appendsTo k (txns ! j)) \<Longrightarrow> i = j"
  using assms unfolding unique_appends_def by blast+

lemma set_content: "v \<in> set (content txns eff k xs) \<longleftrightarrow> (\<exists>i \<in> set xs. eff i \<and> v \<in> set (appendsTo k (txns ! i)))"
  by (auto simp: content_def)

lemma content_Nil [simp]: "content txns eff k [] = []"
  by (simp add: content_def)

lemma content_append: "content txns eff k (xs @ ys) = content txns eff k xs @ content txns eff k ys"
  by (simp add: content_def)

lemma content_Cons: "content txns eff k (i # xs) = (if eff i then appendsTo k (txns ! i) else []) @ content txns eff k xs"
  by (simp add: content_def)

lemma ser_split:
  assumes "i \<in> set ser"
  obtains post where "ser = pre ser i @ i # post"
proof -
  have "dropWhile (\<lambda>j. j \<noteq> i) ser \<noteq> []" using assms by (simp add: dropWhile_eq_Nil_conv)
  then have "dropWhile (\<lambda>j. j \<noteq> i) ser = i # tl (dropWhile (\<lambda>j. j \<noteq> i) ser)" using hd_dropWhile [of "\<lambda>j. j \<noteq> i" ser] by (metis list.collapse)
  then show ?thesis using that [of "tl (dropWhile (\<lambda>j. j \<noteq> i) ser)"] takeWhile_dropWhile_id [of "\<lambda>j. j \<noteq> i" ser] unfolding pre_def by simp
qed

lemma pre_rank:
  assumes "distinct ser" "i \<in> set ser" "j \<in> set ser"
  shows "j \<in> set (pre ser i) \<longleftrightarrow> rank ser j < rank ser i" "rank ser i = rank ser j \<longleftrightarrow> i = j"
proof -
  have nth: "ser ! rank ser x = x \<and> rank ser x < length ser" if x: "x \<in> set ser" for x
  proof -
    obtain post where p: "ser = pre ser x @ x # post" by (rule ser_split [OF x])
    have "length ser = length (pre ser x) + Suc (length post)" by (subst p) simp
    then have "rank ser x < length ser" by (simp add: rank_def)
    then show ?thesis using nth_length_takeWhile [of "\<lambda>j. j \<noteq> x" ser] unfolding rank_def pre_def by blast
  qed
  note ni = nth [OF assms(2)] and nj = nth [OF assms(3)]
  show "rank ser i = rank ser j \<longleftrightarrow> i = j"
  proof
    assume "rank ser i = rank ser j"
    then have "ser ! rank ser i = ser ! rank ser j" by (rule arg_cong)
    then show "i = j" unfolding conjunct1 [OF ni] conjunct1 [OF nj] .
  qed simp
  have pr: "pre ser i = take (rank ser i) ser" unfolding rank_def pre_def by (rule takeWhile_eq_take)
  show "j \<in> set (pre ser i) \<longleftrightarrow> rank ser j < rank ser i"
  proof
    assume "j \<in> set (pre ser i)"
    then obtain a where a: "a < rank ser i" "a < length ser" "ser ! a = j" unfolding pr in_set_take_conv by blast
    then have "a = rank ser j" using nth_eq_iff_index_eq [OF assms(1) a(2), of "rank ser j"] nj by simp
    then show "rank ser j < rank ser i" using a(1) by simp
  next
    assume "rank ser j < rank ser i"
    then show "j \<in> set (pre ser i)" unfolding pr in_set_take_conv using nj by blast
  qed
qed

abbreviation full :: "Txn list \<Rightarrow> (nat \<Rightarrow> bool) \<Rightarrow> nat list \<Rightarrow> string \<Rightarrow> string list" where
  "full txns eff ser k \<equiv> content txns eff k ser"

lemma distinct_content:
  assumes "unique_appends txns" "distinct xs" "set xs \<subseteq> {..<length txns}"
  shows "distinct (content txns eff k xs)"
  using assms(2,3)
proof (induction xs)
  case (Cons i xs)
  have "set (appendsTo k (txns ! i)) \<inter> set (content txns eff k xs) = {}"
  proof (rule ccontr)
    assume "set (appendsTo k (txns ! i)) \<inter> set (content txns eff k xs) \<noteq> {}"
    then obtain v j where v: "v \<in> set (appendsTo k (txns ! i))" "j \<in> set xs" "v \<in> set (appendsTo k (txns ! j))" by (auto simp: set_content)
    then have "i = j" using unique_appendsD(2) [OF assms(1), of i v k j] Cons.prems(2) by auto
    then show False using v(2) Cons.prems(1) by simp
  qed
  then show ?case using Cons unique_appendsD(1) [OF assms(1), of i k] by (auto simp: content_Cons)
qed (simp add: content_def)

subsection \<open>What transactions read\<close>

lemma honest_read:
  "honestMops s ms \<Longrightarrow> m \<in> set ms \<Longrightarrow> \<not> mAppend m \<Longrightarrow>
    \<exists>ms1 ms2. ms = ms1 @ ms2 \<and> mRead m = s (mKey m) @ map mValue (filter (\<lambda>m'. mAppend m' \<and> mKey m' = mKey m) ms1)"
proof (induction ms arbitrary: s)
  case (Cons a ms)
  show ?case
  proof (cases "a = m")
    case True
    then show ?thesis using Cons.prems(1,3) by (intro exI [of _ "[]"] exI [of _ "a # ms"]) simp
  next
    case False
    let ?s = "if mAppend a then s(mKey a := s (mKey a) @ [mValue a]) else s"
    have "honestMops ?s ms" using Cons.prems(1) by (auto split: if_splits)
    then obtain ms1 ms2 where "ms = ms1 @ ms2" "mRead m = ?s (mKey m) @ map mValue (filter (\<lambda>m'. mAppend m' \<and> mKey m' = mKey m) ms1)"
      using Cons.IH [of ?s] Cons.prems(2,3) False by auto
    then show ?thesis by (intro exI [of _ "a # ms1"] exI [of _ ms2]) auto
  qed
qed simp

lemma external_read:
  "honestMops s ms \<Longrightarrow> m \<in> set (externalFrom app ms) \<Longrightarrow> (\<And>k. \<not> app k \<Longrightarrow> s k = base k) \<Longrightarrow>
    mRead m = base (mKey m) \<and> m \<in> set ms \<and> \<not> mAppend m"
proof (induction ms arbitrary: s app)
  case (Cons a ms)
  show ?case
  proof (cases "mAppend a")
    case True
    then have h: "honestMops (s(mKey a := s (mKey a) @ [mValue a])) ms" "m \<in> set (externalFrom (app(mKey a := True)) ms)" using Cons.prems(1,2) by auto
    have "\<And>k. \<not> (app(mKey a := True)) k \<Longrightarrow> (s(mKey a := s (mKey a) @ [mValue a])) k = base k" using Cons.prems(3) by (auto split: if_splits)
    from Cons.IH [OF h this] show ?thesis by simp
  next
    case False
    then have h: "mRead a = s (mKey a)" "honestMops s ms" using Cons.prems(1) by auto
    show ?thesis
    proof (cases "m = a \<and> \<not> app (mKey a)")
      case True
      then show ?thesis using h(1) Cons.prems(3) False by simp
    next
      case n: False
      then have "m \<in> set (externalFrom app ms)" using Cons.prems(2) False by (auto split: if_splits)
      from Cons.IH [OF h(2) this Cons.prems(3)] show ?thesis by simp
    qed
  qed
qed simp

lemma serial_external:
  assumes "serial txns opts eff ser" "i < length txns" "txStatus (txns ! i) = Committed" "m \<in> set (external (txns ! i))"
  shows "mRead m = content txns eff (mKey m) (pre ser i)" "m \<in> set (txMops (txns ! i))" "\<not> mAppend m"
  using external_read [OF serialD(5) [OF assms(1-3)], of m "\<lambda>_. False" "\<lambda>k. content txns eff k (pre ser i)"] assms(4) unfolding external_def by auto

text \<open>A read returns what came before the transaction, then its own appends so far.\<close>

lemma serial_read:
  assumes s: "serial txns opts eff ser" and i: "i < length txns" "txStatus (txns ! i) = Committed" and m: "m \<in> set (txMops (txns ! i))" "\<not> mAppend m"
  obtains mine later where "mRead m = content txns eff (mKey m) (pre ser i) @ mine" "appendsTo (mKey m) (txns ! i) = mine @ later"
proof -
  obtain ms1 ms2 where "txMops (txns ! i) = ms1 @ ms2"
    "mRead m = content txns eff (mKey m) (pre ser i) @ map mValue (filter (\<lambda>m'. mAppend m' \<and> mKey m' = mKey m) ms1)"
    using honest_read [OF serialD(5) [OF s i] m] by blast
  then show ?thesis using that by (simp add: appendsTo_def)
qed

lemma serial_read_prefix:
  assumes s: "serial txns opts eff ser" and i: "i < length txns" "txStatus (txns ! i) = Committed" and m: "m \<in> set (txMops (txns ! i))" "\<not> mAppend m"
  obtains rest where "full txns eff ser (mKey m) = mRead m @ rest"
proof -
  obtain mine later where r: "mRead m = content txns eff (mKey m) (pre ser i) @ mine" "appendsTo (mKey m) (txns ! i) = mine @ later"
    using serial_read [OF assms] .
  obtain post where "ser = pre ser i @ i # post" using ser_split [of i ser] serialD(2) [OF s] i(1) by auto
  then have "full txns eff ser (mKey m) = content txns eff (mKey m) (pre ser i) @ appendsTo (mKey m) (txns ! i) @ content txns eff (mKey m) post"
    using serialD(4) [OF s i] content_append [of txns eff "mKey m" "pre ser i" "i # post"] by (simp add: content_Cons)
  then show ?thesis using that r by simp
qed

subsection \<open>The order of the elements\<close>

lemma in_full:
  assumes s: "serial txns opts eff ser" and v: "v \<in> set (full txns eff ser k)"
  obtains j where "j < length txns" "eff j" "v \<in> set (appendsTo k (txns ! j))"
  using v serialD(2) [OF s] by (auto simp: set_content)

lemma in_pre:
  assumes s: "serial txns opts eff ser" and i: "i < length txns" and j: "j < length txns" "eff j" "v \<in> set (appendsTo k (txns ! j))"
  shows "v \<in> set (content txns eff k (pre ser i)) \<longleftrightarrow> rank ser j < rank ser i"
proof -
  have ij: "i \<in> set ser" "j \<in> set ser" using serialD(2) [OF s] i j(1) by auto
  have sub: "x < length txns" if "x \<in> set (pre ser i)" for x
    using that set_takeWhileD [of x "\<lambda>j. j \<noteq> i" ser] serialD(2) [OF s] by (auto simp: pre_def)
  have "v \<in> set (content txns eff k (pre ser i)) \<longleftrightarrow> j \<in> set (pre ser i)"
  proof
    assume "v \<in> set (content txns eff k (pre ser i))"
    then obtain x where x: "x \<in> set (pre ser i)" "v \<in> set (appendsTo k (txns ! x))" by (auto simp: set_content)
    then have "j = x" using unique_appendsD(2) [OF serialD(3) [OF s] j(1) j(3) sub] by blast
    then show "j \<in> set (pre ser i)" using x(1) by simp
  qed (use j in \<open>auto simp: set_content\<close>)
  then show ?thesis using pre_rank(1) [OF serialD(1) [OF s] ij] by simp
qed

lemma rank_inj:
  assumes s: "serial txns opts eff ser" and "i < length txns" "j < length txns" "i \<noteq> j" "rank ser i \<le> rank ser j"
  shows "rank ser i < rank ser j"
  using pre_rank(2) [OF serialD(1) [OF s], of i j] serialD(2) [OF s] assms(2-5) by auto

lemma full_split:
  assumes s: "serial txns opts eff ser" and i: "i < length txns"
  obtains rest where "full txns eff ser k = content txns eff k (pre ser i) @ (if eff i then appendsTo k (txns ! i) else []) @ rest"
proof -
  have "i \<in> set ser" using serialD(2) [OF s] i by simp
  then obtain post where p: "ser = pre ser i @ i # post" by (rule ser_split)
  have "full txns eff ser k = content txns eff k (pre ser i @ i # post)" using p by (rule arg_cong)
  then show ?thesis using that [of "content txns eff k post"] by (simp add: content_append content_Cons)
qed

lemma distinct_full: "serial txns opts eff ser \<Longrightarrow> distinct (full txns eff ser k)"
  using distinct_content [OF serialD(3) serialD(1)] serialD(2) by blast

lemma nth_rank:
  assumes s: "serial txns opts eff ser" and ab: "a < b" "b < length (full txns eff ser k)"
    and i: "i < length txns" "eff i" "full txns eff ser k ! a \<in> set (appendsTo k (txns ! i))"
    and j: "j < length txns" "eff j" "full txns eff ser k ! b \<in> set (appendsTo k (txns ! j))"
  shows "rank ser i \<le> rank ser j"
proof (rule ccontr)
  assume "\<not> rank ser i \<le> rank ser j"
  then have v: "full txns eff ser k ! b \<in> set (content txns eff k (pre ser i))" using in_pre [OF s i(1) j] by simp
  obtain rest where f: "full txns eff ser k = content txns eff k (pre ser i) @ rest" using full_split [OF s i(1)] by blast
  obtain b' where b': "b' < length (content txns eff k (pre ser i))" "content txns eff k (pre ser i) ! b' = full txns eff ser k ! b"
    using v by (auto simp: in_set_conv_nth)
  have "full txns eff ser k ! b' = full txns eff ser k ! b" using b' f by (simp add: nth_append)
  moreover have "b' < length (full txns eff ser k)" using b'(1) f by simp
  ultimately have "b' = b" using nth_eq_iff_index_eq [OF distinct_full [OF s] _ ab(2)] by blast
  then have "full txns eff ser k ! a = content txns eff k (pre ser i) ! a" "a < length (content txns eff k (pre ser i))" using ab b'(1) f by (simp_all add: nth_append)
  then have "full txns eff ser k ! a \<in> set (content txns eff k (pre ser i))" by simp
  then show False using in_pre [OF s i(1) i] by simp
qed

lemma last_content:
  "content txns eff k xs \<noteq> [] \<Longrightarrow> \<exists>j \<in> set xs. eff j \<and> appendsTo k (txns ! j) \<noteq> [] \<and> last (content txns eff k xs) = last (appendsTo k (txns ! j))"
proof (induction xs rule: rev_induct)
  case (snoc j xs)
  show ?case
  proof (cases "eff j \<and> appendsTo k (txns ! j) \<noteq> []")
    case True
    then show ?thesis by (intro bexI [of _ j]) (simp_all add: content_append content_Cons last_append)
  next
    case False
    then have "content txns eff k (xs @ [j]) = content txns eff k xs" by (auto simp: content_append content_def)
    then show ?thesis using snoc by auto
  qed
qed (simp add: content_def)

subsection \<open>The passes report nothing\<close>

text \<open>What the first pass leaves, as the contract the later passes rely on.\<close>

locale indexed =
  fixes txns :: "Txn list" and opts :: Options and c :: checker
  assumes wo: "writers_of txns c" and op: "c_opts c = opts"
begin

lemma writer:
  assumes ser: "serial txns opts eff ser"
  shows "writerOf c k v = Some w \<longleftrightarrow> w < length txns \<and> v \<in> set (appendsTo k (txns ! w))"
proof
  assume w: "w < length txns \<and> v \<in> set (appendsTo k (txns ! w))"
  then obtain x where x: "writerOf c k v = Some x" using writers_ofD(5) [OF wo, of w v k] by auto
  then have "w = x" using unique_appendsD(2) [OF serialD(3) [OF ser], of w v k x] writers_ofD(4) [OF wo x] w by blast
  then show "writerOf c k v = Some w" using x by simp
qed (rule writers_ofD(4) [OF wo])

lemma full_writer:
  assumes ser: "serial txns opts eff ser"
  shows "v \<in> set (full txns eff ser k) \<Longrightarrow> \<exists>w. writerOf c k v = Some w \<and> w < length txns \<and> eff w"
proof -
  assume "v \<in> set (full txns eff ser k)"
  then obtain j where "j < length txns" "eff j" "v \<in> set (appendsTo k (txns ! j))" using in_full [OF ser] by blast
  then show ?thesis using writer [OF ser] by blast
qed

lemma writer_eff:
  assumes ser: "serial txns opts eff ser"
  shows "v \<in> set (full txns eff ser k) \<Longrightarrow> writerOf c k v = Some w \<Longrightarrow> w < length txns \<and> eff w \<and> v \<in> set (appendsTo k (txns ! w))"
  using full_writer [OF ser, of v k] writer [OF ser, of k v w] by auto

lemma in_order:
  assumes ser: "serial txns opts eff ser"
  shows "w < length txns \<Longrightarrow> eff w \<Longrightarrow> v \<in> set (appendsTo k (txns ! w)) \<Longrightarrow> v \<in> set (full txns eff ser k)"
  using serialD(2) [OF ser] by (auto simp: set_content)

lemma filter_full:
  assumes ser: "serial txns opts eff ser"
  shows "distinct xs \<Longrightarrow> set xs \<subseteq> {..<length txns} \<Longrightarrow> w < length txns \<Longrightarrow>
    filter (\<lambda>v. writerOf c k v = Some w) (content txns eff k xs) = (if w \<in> set xs \<and> eff w then appendsTo k (txns ! w) else [])"
proof (induction xs)
  case (Cons i xs)
  have "filter (\<lambda>v. writerOf c k v = Some w) (appendsTo k (txns ! i)) = (if i = w then appendsTo k (txns ! w) else [])"
  proof (cases "i = w")
    case True
    then show ?thesis using Cons.prems(3) by (simp add: writer [OF ser] filter_True)
  next
    case False
    then show ?thesis using unique_appendsD(2) [OF serialD(3) [OF ser], of i _ k w] Cons.prems(2,3) by (auto simp: writer [OF ser] filter_empty_conv)
  qed
  then show ?case using Cons by (auto simp: content_Cons)
qed simp

end

lemma internalMop_honest:
  "honestMops s ms \<Longrightarrow> \<forall>k. s k = base k @ own k \<Longrightarrow> \<forall>k. rd k \<longrightarrow> others k = base k \<Longrightarrow>
    snd (snd (snd (foldl (internalMop t) (own, others, rd, c) ms))) = c"
proof (induction ms arbitrary: s own others rd)
  case (Cons m ms)
  let ?k = "mKey m"
  show ?case
  proof (cases "mAppend m")
    case True
    have "honestMops (s(?k := s ?k @ [mValue m])) ms" using Cons.prems(1) True by simp
    moreover have "\<forall>k. (s(?k := s ?k @ [mValue m])) k = base k @ (own(?k := own ?k @ [mValue m])) k" using Cons.prems(2) by simp
    ultimately have "snd (snd (snd (foldl (internalMop t) (own(?k := own ?k @ [mValue m]), others, rd, c) ms))) = c" using Cons.prems(3) by (rule Cons.IH)
    then show ?thesis using True by (simp add: Let_def)
  next
    case False
    have h: "mRead m = base ?k @ own ?k" "honestMops s ms" using Cons.prems(1) spec [OF Cons.prems(2), of ?k] False by simp_all
    have st: "internalMop t (own, others, rd, c) m = (own, others(?k := base ?k), rd(?k := True), c)"
      using False spec [OF Cons.prems(3), of ?k] by (auto simp: h(1) Let_def)
    have "snd (snd (snd (foldl (internalMop t) (own, others(?k := base ?k), rd(?k := True), c) ms))) = c"
      by (rule Cons.IH [OF h(2) Cons.prems(2)]) (use Cons.prems(3) in simp)
    then show ?thesis using st by (simp only: foldl.simps)
  qed
qed simp

lemma internal_serial:
  assumes s: "serial txns opts eff ser" and "c_txns c = txns"
  shows "internal c = c"
proof -
  have "internalTxn c t = c" if "t \<in> set txns" for t
  proof (cases "txStatus t = Committed")
    case True
    obtain i where i: "i < length txns" "t = txns ! i" using \<open>t \<in> set txns\<close> by (auto simp: in_set_conv_nth)
    have "snd (snd (snd (foldl (internalMop t) (\<lambda>_. [], \<lambda>_. [], \<lambda>_. False, c) (txMops t)))) = c"
      by (rule internalMop_honest [OF serialD(5) [OF s i(1) True [unfolded i(2)], folded i(2)], where base = "\<lambda>k. content txns eff k (pre ser i)"]) simp_all
    then show ?thesis using True by (simp add: internalTxn_def)
  qed (simp add: internalTxn_def)
  then have "foldl internalTxn c ts = c" if "set ts \<subseteq> set txns" for ts using that by (induction ts) auto
  then show ?thesis using assms(2) by (simp add: internal_def)
qed

lemma appends_serial:
  assumes u: "unique_appends txns"
  shows "c_out (appends (newChecker txns opts)) = []"
proof -
  have "c_out (foldl (\<lambda>c (i, t, m). appendMop i t c m) c ys) = []"
    if "written xs c" "xs @ ys = steps 0 txns" "c_out c = []" for xs ys c
    using that
  proof (induction ys arbitrary: xs c)
    case (Cons y ys)
    obtain i t m where y: "y = (i, t, m)" by (cases y)
    have st: "set (xs @ [y]) \<subseteq> set (steps 0 txns)" unfolding Cons.prems(2) [symmetric] by auto
    have "c_out (appendMop i t c m) = []"
    proof (cases "mAppend m")
      case True
      have "j = i" if w: "writerOf c (mKey m) (mValue m) = Some j" for j
      proof -
        obtain t' m' where m': "(j, t', m') \<in> set xs" "mAppend m'" "mKey m' = mKey m" "mValue m' = mValue m"
          using Cons.prems(1) map_of_SomeD [OF w] unfolding written_def by blast
        have "j < length txns" "mValue m \<in> set (appendsTo (mKey m) (txns ! j))"
          using subsetD [OF st, of "(j, t', m')"] m' by (auto simp: set_steps appendsTo_def intro!: image_eqI [of _ _ m'])
        moreover have "i < length txns" "mValue m \<in> set (appendsTo (mKey m) (txns ! i))"
          using subsetD [OF st, of y] y True by (auto simp: set_steps appendsTo_def)
        ultimately show ?thesis using unique_appendsD(2) [OF u] by blast
      qed
      then show ?thesis using Cons.prems(3) by (auto simp: appendMop_def Let_def split: option.splits)
    qed (use Cons.prems(3) in \<open>simp add: appendMop_def\<close>)
    then show ?case using Cons.IH [of "xs @ [y]" "appendMop i t c m"] written_step [OF Cons.prems(1), of i t m] Cons.prems(2) y by simp
  qed simp
  from this [of "[]" "newChecker txns opts" "steps 0 txns"] show ?thesis by (simp add: appends_steps written_def newChecker_def)
qed

subsubsection \<open>The orders\<close>

lemma longest_max:
  assumes "rs \<noteq> []"
  shows "longest rs < length rs" "\<forall>r \<in> set rs. length (fst r) \<le> length (fst (rs ! longest rs))"
proof -
  let ?f = "\<lambda>best i. if length (fst (rs ! i)) > length (fst (rs ! best)) then i else best"
  have "foldl ?f 0 [0..<n] < length rs \<and> (\<forall>i < n. length (fst (rs ! i)) \<le> length (fst (rs ! foldl ?f 0 [0..<n])))" if "n \<le> length rs" for n
    using that
  proof (induction n)
    case (Suc n)
    then show ?case by (auto simp: less_Suc_eq)
  qed (use assms in simp)
  from this [of "length rs", folded longest_def] show "longest rs < length rs" "\<forall>r \<in> set rs. length (fst r) \<le> length (fst (rs ! longest rs))"
    unfolding all_set_conv_all_nth by simp_all
qed

lemma dupScan_distinct: "distinct vs \<Longrightarrow> set vs \<inter> set sn = {} \<Longrightarrow> dupScan k who r sn vs = []"
  by (induction vs arbitrary: sn) auto

lemma keyReads_full:
  assumes s: "serial txns opts eff ser" and "c_txns c = txns" and r: "(r, who) \<in> set (keyReads c k)"
  shows "\<exists>rest. full txns eff ser k = r @ rest"
proof -
  obtain t m where t: "t \<in> set txns" "txStatus t = Committed" "m \<in> set (txMops t)" "\<not> mAppend m" "mKey m = k" "r = mRead m"
    using r assms(2) by (auto simp: keyReads_def split: if_splits)
  then obtain i where i: "i < length txns" "t = txns ! i" by (auto simp: in_set_conv_nth)
  then show ?thesis using serial_read_prefix [OF s i(1), of m] t by blast
qed

definition in_full_order :: "Txn list \<Rightarrow> (nat \<Rightarrow> bool) \<Rightarrow> nat list \<Rightarrow> checker \<Rightarrow> bool" where
  "in_full_order txns eff ser c \<longleftrightarrow> (\<forall>k. (\<exists>rest. full txns eff ser k = c_order c k @ rest))"

lemma orderKey_serial:
  assumes s: "serial txns opts eff ser" and c: "c_txns c = txns" "in_full_order txns eff ser c"
  shows "c_out (orderKey c k) = c_out c \<and> in_full_order txns eff ser (orderKey c k) \<and> c_txns (orderKey c k) = txns"
proof (cases "keyReads c k = []")
  case False
  let ?rs = "keyReads c k"
  let ?ord = "?rs ! longest ?rs"
  note full = keyReads_full [OF s c(1), where k = k]
  have o: "?ord \<in> set ?rs" "\<forall>r \<in> set ?rs. length (fst r) \<le> length (fst ?ord)" using longest_max [OF False] by auto
  obtain rest where ro: "full txns eff ser k = fst ?ord @ rest" using full [of "fst ?ord" "snd ?ord"] o(1) by auto
  have dup: "dupScan k (snd x) (fst x) [] (fst x) = []" if "x \<in> set ?rs" for x
    using full [of "fst x" "snd x"] distinct_full [OF s, of k] that by (auto intro!: dupScan_distinct)
  have mis: "misordered k ?ord x = []" if x: "x \<in> set ?rs" for x
  proof -
    obtain rest' where "full txns eff ser k = fst x @ rest'" using full [of "fst x" "snd x"] x by auto
    then have "take (length (fst x)) (fst ?ord @ rest) = fst x" unfolding ro by simp
    then show ?thesis using o(2) x by (auto simp: misordered_def)
  qed
  have "c_out (orderKey c k) = c_out c" using False dup mis by (auto simp: orderKey_def Let_def case_prod_beta)
  moreover have "in_full_order txns eff ser (orderKey c k)" using c(2) ro False by (auto simp: in_full_order_def orderKey_def Let_def)
  ultimately show ?thesis using c(1) False by (simp add: orderKey_def Let_def)
qed (use c in \<open>simp add: orderKey_def\<close>)

lemma orders_serial:
  assumes s: "serial txns opts eff ser"
  shows "c_txns c = txns \<Longrightarrow> in_full_order txns eff ser c \<Longrightarrow> c_out (orders ks c) = c_out c \<and> in_full_order txns eff ser (orders ks c)"
  unfolding orders_def
proof (induction ks arbitrary: c)
  case (Cons k ks)
  then show ?case using orderKey_serial [OF s Cons.prems, of k] by simp
qed simp

subsubsection \<open>The effects and the reads\<close>

context indexed
begin

lemma effects_serial:
  assumes ser: "serial txns opts eff ser" and o: "in_full_order txns eff ser c"
  shows "\<forall>i < length txns. c_took (effects ks c) ! i \<longrightarrow> eff i"
proof -
  let ?ok = "\<lambda>took. length took = length txns \<and> (\<forall>i < length txns. took ! i \<longrightarrow> eff i)"
  have tx: "c_txns c = txns" by (rule writers_ofD(1) [OF wo])
  have step: "?ok (effectOf c k took v)" if took: "?ok took" and v: "v \<in> set (c_order c k)" for took k v
  proof -
    have "v \<in> set (full txns eff ser k)" using o v unfolding in_full_order_def by (metis UnI1 set_append)
    then have "eff w" "w < length txns" if "writerOf c k v = Some w" for w using writer_eff [OF ser] that by blast+
    then show ?thesis using took by (auto simp: effectOf_def nth_list_update split: option.splits)
  qed
  have key: "?ok (foldl (effectOf c k) took vs)" if "?ok took" "set vs \<subseteq> set (c_order c k)" for took k vs
    using that
  proof (induction vs arbitrary: took)
    case (Cons v vs)
    have "?ok (effectOf c k took v)" by (rule step [OF Cons.prems(1)]) (use Cons.prems(2) in simp)
    then have "?ok (foldl (effectOf c k) (effectOf c k took v) vs)" by (rule Cons.IH) (use Cons.prems(2) in simp)
    then show ?case unfolding foldl.simps .
  qed simp
  have all: "?ok (foldl (\<lambda>took k. foldl (effectOf c k) took (c_order c k)) took ks)" if "?ok took" for took
    using that
  proof (induction ks arbitrary: took)
    case (Cons k ks)
    then show ?case using key [OF Cons.prems subset_refl, of k] by simp
  qed simp
  have "?ok (map (\<lambda>t. txStatus t = Committed) (c_txns c))" using serialD(4) [OF ser] tx by simp
  from all [OF this] show ?thesis by (simp add: effects_def)
qed

lemma read_elems:
  assumes ser: "serial txns opts eff ser" and i: "i < length txns" "txStatus (txns ! i) = Committed" and m: "m \<in> set (txMops (txns ! i))" "\<not> mAppend m"
    and sc: "snd s = c"
  shows "set vs \<subseteq> set (mRead m) \<Longrightarrow> snd (foldl (readElem (txns ! i) (mKey m)) s vs) = c"
  using sc
proof (induction vs arbitrary: s)
  case (Cons v vs)
  obtain rest where f: "full txns eff ser (mKey m) = mRead m @ rest" using serial_read_prefix [OF ser i m] .
  have "v \<in> set (full txns eff ser (mKey m))" using Cons.prems(1) unfolding f by auto
  then obtain w where w: "writerOf c (mKey m) v = Some w" "w < length txns" "eff w" using full_writer [OF ser] by blast
  have "txStatus (c_txns c ! w) \<noteq> Aborted" using serialD(6) [OF ser w(2)] w(3) writers_ofD(1) [OF wo] by auto
  then have "snd (readElem (txns ! i) (mKey m) s v) = c" using w(1) Cons.prems(2) by (cases s) (simp add: readElem_def)
  then show ?case using Cons by simp
qed simp

lemma read_order:
  assumes ser: "serial txns opts eff ser" and i: "i < length txns" "txStatus (txns ! i) = Committed" and m: "m \<in> set (txMops (txns ! i))" "\<not> mAppend m"
    and sc: "snd s = c"
  shows "set ws \<subseteq> {..<length txns} \<Longrightarrow> snd (foldl (readOrder (txns ! i) m) s ws) = c"
  using sc
proof (induction ws arbitrary: s)
  case (Cons w ws)
  let ?k = "mKey m"
  let ?got = "filter (\<lambda>v. writerOf c ?k v = Some w) (mRead m)"
  obtain rest where f: "full txns eff ser ?k = mRead m @ rest" using serial_read_prefix [OF ser i m] .
  have w: "w < length txns" using Cons.prems(1) by simp
  have "?got @ filter (\<lambda>v. writerOf c ?k v = Some w) rest = (if eff w then appendsTo ?k (txns ! w) else [])"
    using filter_full [OF ser serialD(1) [OF ser] _ w, of ?k] serialD(2) [OF ser] w unfolding f by simp
  then have "?got = [] \<or> (\<exists>more. c_appended c ?k w = ?got @ more)" using writers_ofD(2) [OF wo w, of ?k] by (metis append_is_Nil_conv)
  then have "snd (readOrder (txns ! i) m s w) = c" using Cons.prems(2) by (cases s) (auto simp: readOrder_def Let_def)
  then show ?case using Cons by simp
qed simp

lemma theirs_lt: "set (theirs c i m) \<subseteq> {..<length txns}"
  using writers_ofD(4) [OF wo] by (auto simp: theirs_def split: option.splits if_splits)

lemma read_last:
  assumes ser: "serial txns opts eff ser" and i: "i < length txns" "txStatus (txns ! i) = Committed" and m: "m \<in> set (txMops (txns ! i))" "\<not> mAppend m"
    and sc: "snd s = c"
  shows "snd (readLast i (txns ! i) m s) = c"
proof -
  let ?k = "mKey m"
  let ?pre = "content txns eff ?k (pre ser i)"
  obtain mine later where r: "mRead m = ?pre @ mine" "appendsTo ?k (txns ! i) = mine @ later" using serial_read [OF ser i m] .
  have "writerOf c ?k v = Some i" if "v \<in> set mine" for v using writer [OF ser] i(1) r(2) that by auto
  then have d1: "dropWhile (\<lambda>v. writerOf c ?k v = Some i) (rev mine @ rev ?pre) = dropWhile (\<lambda>v. writerOf c ?k v = Some i) (rev ?pre)"
    by (intro dropWhile_append2) auto
  have "writerOf c ?k v \<noteq> Some i" if v: "v \<in> set ?pre" for v
    using in_pre [OF ser i(1) i(1) serialD(4) [OF ser i], of v ?k] writer [OF ser] v by auto
  then have d2: "dropWhile (\<lambda>v. writerOf c ?k v = Some i) (rev ?pre) = rev ?pre"
    by (cases "rev ?pre") (auto simp: dropWhile_eq_self_iff intro: list.set_intros(1) dest: arg_cong [of _ _ set])
  have o: "rev (dropWhile (\<lambda>v. writerOf c ?k v = Some i) (rev (mRead m))) = ?pre" using d1 d2 r(1) by simp
  show ?thesis
  proof (cases "?pre = []")
    case True
    then show ?thesis using o sc by (cases s) (simp add: readLast_def Let_def)
  next
    case False
    then obtain j where j: "j \<in> set (pre ser i)" "appendsTo ?k (txns ! j) \<noteq> []" "last ?pre = last (appendsTo ?k (txns ! j))"
      using last_content by blast
    have "j < length txns" using j(1) set_takeWhileD [of j "\<lambda>j. j \<noteq> i" ser] serialD(2) [OF ser] by (auto simp: pre_def)
    then have "writerOf c ?k (last ?pre) = Some j" "c_appended c ?k j = appendsTo ?k (txns ! j)" using writer [OF ser] j(2,3) writers_ofD(2) [OF wo] by auto
    then show ?thesis using o sc j(3) by (cases s) (simp add: readLast_def Let_def)
  qed
qed

lemma read_lost:
  assumes ser: "serial txns opts eff ser" and i: "i < length txns" "txStatus (txns ! i) = Committed" and m: "m \<in> set (txMops (txns ! i))" "\<not> mAppend m"
    and rt: "optRealtime opts" and sc: "snd s = c"
  shows "set xs \<subseteq> set (c_writer c (mKey m)) \<Longrightarrow> snd (foldl (readLost i (txns ! i) m) s xs) = c"
  using sc
proof (induction xs arbitrary: s)
  case (Cons x xs)
  obtain v w where x: "x = (v, w)" by fastforce
  have w: "w < length txns" "v \<in> set (appendsTo (mKey m) (txns ! w))" using writers_ofD(3) [OF wo, of v w "mKey m"] Cons.prems(1) x by auto
  obtain mine where r: "mRead m = content txns eff (mKey m) (pre ser i) @ mine" using serial_read [OF ser i m] by blast
  have seen: "v \<in> set (mRead m)" if h: "txStatus (txns ! w) = Committed" "txReturn (txns ! w) < txCall (txns ! i)" "w \<noteq> i"
  proof -
    have "rank ser w < rank ser i" by (rule serialD(7) [OF ser rt w(1) i(1) h(1) serialD(4) [OF ser i] h(3) h(2)])
    then show ?thesis using in_pre [OF ser i(1) w(1) serialD(4) [OF ser w(1) h(1)] w(2)] r by simp
  qed
  then have "snd (readLost i (txns ! i) m s x) = c" using x Cons.prems(2) writers_ofD(1) [OF wo] by (cases s) (auto simp: readLost_def Let_def)
  then show ?case using Cons by simp
qed simp

lemma readMop_serial:
  assumes ser: "serial txns opts eff ser" and i: "i < length txns" "txStatus (txns ! i) = Committed" and m: "m \<in> set (txMops (txns ! i))" and sc: "snd s = c"
  shows "snd (readMop i (txns ! i) s m) = c"
proof (cases "mAppend m")
  case False
  let ?s1 = "foldl (readElem (txns ! i) (mKey m)) s (mRead m)"
  let ?s2 = "foldl (readOrder (txns ! i) m) ?s1 (theirs c i m)"
  have "snd ?s1 = c" by (rule read_elems [OF ser i m False sc]) simp
  then have "snd ?s2 = c" by (rule read_order [OF ser i m False _ theirs_lt])
  then have s3: "snd (readLast i (txns ! i) m ?s2) = c" by (rule read_last [OF ser i m False])
  show ?thesis
  proof (cases "optRealtime opts")
    case True
    have "snd (foldl (readLost i (txns ! i) m) (readLast i (txns ! i) m ?s2) (sort_key fst (c_writer c (mKey m)))) = c"
      by (rule read_lost [OF ser i m False True s3]) simp
    then show ?thesis using False sc op True by (simp add: readMop_def Let_def)
  qed (use s3 False sc op in \<open>simp add: readMop_def Let_def\<close>)
qed (use sc in \<open>simp add: readMop_def\<close>)

lemma reads_serial:
  assumes ser: "serial txns opts eff ser"
  shows "reads c = c"
proof -
  have mops: "snd (foldl (readMop i (txns ! i)) s ms) = c"
    if "i < length txns" "txStatus (txns ! i) = Committed" "set ms \<subseteq> set (txMops (txns ! i))" "snd s = c" for i s ms
    using that
  proof (induction ms arbitrary: s)
    case (Cons m ms)
    then show ?case using readMop_serial [OF ser, of i m s] by simp
  qed simp
  have txn: "readTxn c x = c" if h: "x \<in> set (enumerate 0 txns)" for x
  proof -
    obtain i t where "x = (i, t)" by fastforce
    then have x: "x = (i, txns ! i)" "i < length txns" using h by (simp_all add: enumerate_mem)
    then show ?thesis using mops [OF x(2) _ subset_refl] by (simp add: readTxn_def)
  qed
  then have "foldl readTxn c xs = c" if "set xs \<subseteq> set (enumerate 0 txns)" for xs using that by (induction xs) auto
  then show ?thesis using writers_ofD(1) [OF wo] by (simp add: reads_def)
qed

end

subsection \<open>The graph has no cycle\<close>

lemma examined_serial:
  assumes s: "serial txns opts eff ser"
  shows "c_out (examined it txns opts) = []" "in_full_order txns eff ser (examined it txns opts)"
    "\<forall>i < length txns. c_took (examined it txns opts) ! i \<longrightarrow> eff i"
proof -
  let ?c1 = "appends (newChecker txns opts)"
  let ?c3 = "orders (it_orders it) ?c1"
  let ?c4 = "effects (it_effects it) ?c3"
  have t1: "c_txns ?c1 = txns" "c_opts ?c1 = opts" "c_order ?c1 = (\<lambda>_. [])" by (simp_all add: newChecker_def)
  have c2: "internal ?c1 = ?c1" by (rule internal_serial [OF s t1(1)])
  have c3: "c_out ?c3 = []" "in_full_order txns eff ser ?c3"
    using orders_serial [OF s t1(1), of "it_orders it"] appends_serial [OF serialD(3) [OF s], of opts] t1(3) by (simp_all add: in_full_order_def)
  note f3 = orders_fields [of "it_orders it" ?c1]
  have w3: "writers_of txns ?c3" using appends_writers [of txns opts] f3 by (simp add: writers_of_def)
  then have w4: "writers_of txns ?c4" by (simp add: writers_of_def effects_def)
  have sh3: "indexed txns opts ?c3" by (rule indexed.intro [OF w3]) (use f3 t1 in simp)
  have sh4: "indexed txns opts ?c4" by (rule indexed.intro [OF w4]) (use f3 t1 in \<open>simp add: effects_def\<close>)
  have e: "examined it txns opts = ?c4\<lparr>c_adj := replicate (length txns) []\<rparr>"
    unfolding examined_def c2 indexed.reads_serial [OF sh4 s] ..
  show "c_out (examined it txns opts) = []" unfolding e using c3(1) by (simp add: effects_def)
  show "in_full_order txns eff ser (examined it txns opts)" unfolding e using c3(2) by (simp add: effects_def in_full_order_def)
  show "\<forall>i < length txns. c_took (examined it txns opts) ! i \<longrightarrow> eff i"
    unfolding e using indexed.effects_serial [OF sh3 s c3(2), of "it_effects it"] by simp
qed

text \<open>What the passes before it leave for the one that builds the graph.\<close>

locale ordered = indexed +
  assumes ord: "\<And>eff ser. serial txns opts eff ser \<Longrightarrow> in_full_order txns eff ser c"
    and took: "\<And>eff ser i. serial txns opts eff ser \<Longrightarrow> i < length txns \<Longrightarrow> c_took c ! i \<Longrightarrow> eff i"
begin

lemma tx: "c_txns c = txns"
  by (rule writers_ofD(1) [OF wo])

lemma order_nth:
  assumes ser: "serial txns opts eff ser" and "a < length (c_order c k)"
  shows "full txns eff ser k ! a = c_order c k ! a" "a < length (full txns eff ser k)" "c_order c k ! a \<in> set (full txns eff ser k)"
proof -
  obtain rest where f: "full txns eff ser k = c_order c k @ rest" using ord [OF ser] unfolding in_full_order_def by blast
  show "full txns eff ser k ! a = c_order c k ! a" "a < length (full txns eff ser k)" "c_order c k ! a \<in> set (full txns eff ser k)"
    unfolding f using assms(2) by (simp_all add: nth_append)
qed

lemma order_rank:
  assumes ser: "serial txns opts eff ser" and ab: "a < b" "b < length (c_order c k)" and w: "writerOf c k (c_order c k ! a) = Some i" "writerOf c k (c_order c k ! b) = Some j"
  shows "rank ser i \<le> rank ser j"
proof -
  have a: "a < length (c_order c k)" using ab by simp
  note wi = writer_eff [OF ser order_nth(3) [OF ser a] w(1)] and wj = writer_eff [OF ser order_nth(3) [OF ser ab(2)] w(2)]
  show ?thesis using nth_rank [OF ser ab(1) order_nth(2) [OF ser ab(2)], of i j] wi wj order_nth(1) [OF ser a] order_nth(1) [OF ser ab(2)] by simp
qed

lemma external_mem:
  assumes ser: "serial txns opts eff ser" and "i < length txns" "txStatus (txns ! i) = Committed" "m \<in> set (external (txns ! i))" "w < length txns" "eff w" "v \<in> set (appendsTo (mKey m) (txns ! w))"
  shows "v \<in> set (mRead m) \<longleftrightarrow> rank ser w < rank ser i"
  using in_pre [OF ser assms(2,5-7)] serial_external(1) [OF ser assms(2-4)] by simp

lemma ww_rank:
  assumes ser: "serial txns opts eff ser" and "(u, v) \<in> set (zip (c_order c k) (tl (c_order c k)))" "writerOf c k u = Some a" "writerOf c k v = Some b" "a \<noteq> b"
  shows "rank ser a < rank ser b"
proof -
  obtain n where n: "Suc n < length (c_order c k)" "u = c_order c k ! n" "v = c_order c k ! Suc n"
    using assms(2) by (auto simp: set_zip nth_tl less_diff_conv)
  have "rank ser a \<le> rank ser b" using order_rank [OF ser, of n "Suc n" k a b] n assms(3,4) by simp
  then show ?thesis using rank_inj [OF ser] writers_ofD(4) [OF wo] assms(3-5) by blast
qed

lemma rw_rank:
  assumes ser: "serial txns opts eff ser" and i: "i < length txns" "txStatus (txns ! i) = Committed" and m: "m \<in> set (external (txns ! i))"
    and n: "length (mRead m) < length (c_order c (mKey m))" "take (length (mRead m)) (c_order c (mKey m)) = mRead m"
    and w: "writerOf c (mKey m) (c_order c (mKey m) ! length (mRead m)) = Some w" "i \<noteq> w"
  shows "rank ser i < rank ser w"
proof -
  let ?v = "c_order c (mKey m) ! length (mRead m)"
  note we = writer_eff [OF ser order_nth(3) [OF ser n(1)] w(1)]
  have "distinct (c_order c (mKey m))" using ord [OF ser] distinct_full [OF ser, of "mKey m"] unfolding in_full_order_def by (metis distinct_append)
  then have "?v \<notin> set (take (length (mRead m)) (c_order c (mKey m)))" using n(1) by (auto simp: in_set_take_conv nth_eq_iff_index_eq)
  then have "\<not> rank ser w < rank ser i" using external_mem [OF ser i m, of w ?v] we n(2) by simp
  then show ?thesis using rank_inj [OF ser i(1) _ w(2)] we by simp
qed

lemma uw_rank:
  assumes ser: "serial txns opts eff ser" and i: "i < length txns" "c_took c ! i" and m: "m \<in> set (txMops (txns ! i))" "mAppend m" "mValue m \<notin> set (c_order c (mKey m))"
    and w: "c_order c (mKey m) \<noteq> []" "writerOf c (mKey m) (last (c_order c (mKey m))) = Some w" "w \<noteq> i"
  shows "rank ser w < rank ser i"
proof -
  let ?k = "mKey m"
  have v: "mValue m \<in> set (appendsTo ?k (txns ! i))" using m by (auto simp: appendsTo_def)
  have ei: "eff i" using took [OF ser] i by blast
  obtain b where b: "b < length (full txns eff ser ?k)" "full txns eff ser ?k ! b = mValue m" using in_order [OF ser i(1) ei v] by (auto simp: in_set_conv_nth)
  have b2: "\<not> b < length (c_order c ?k)" using b(2) order_nth(1) [OF ser, of b ?k] m(3) by (metis nth_mem)
  let ?a = "length (c_order c ?k) - 1"
  have a: "?a < length (c_order c ?k)" "last (c_order c ?k) = c_order c ?k ! ?a" using w(1) by (simp_all add: last_conv_nth)
  note we = writer_eff [OF ser order_nth(3) [OF ser a(1)] w(2) [unfolded a(2)]]
  have "?a < b" using a(1) b2 by simp
  from nth_rank [OF ser this b(1), of w i] have "rank ser w \<le> rank ser i" using we order_nth(1) [OF ser a(1)] i(1) ei v b(2) by simp
  then show ?thesis using rank_inj [OF ser _ i(1) w(3)] we by simp
qed

lemma pair_free:
  assumes ser: "serial txns opts eff ser" and "unread_of c (length txns) unread" "reader_of c (prefix_read c) rds" "x \<in> set (unread k)" "y \<in> set (rds k)"
  shows "\<not> rank ser x < rank ser y"
proof
  assume lt: "rank ser x < rank ser y"
  obtain m where m: "x < length txns" "c_took c ! x" "m \<in> set (txMops (txns ! x))" "mAppend m" "mKey m = k" "mValue m \<notin> set (c_order c k)"
    using assms(2,4) unfolding unread_of_def tx by blast
  obtain m' where m': "y < length txns" "txStatus (txns ! y) = Committed" "m' \<in> set (external (txns ! y))" "mKey m' = k" "prefix_read c k (mRead m')"
    using assms(3,5) unfolding reader_of_def tx by blast
  have "mValue m \<in> set (appendsTo k (txns ! x))" using m by (auto simp: appendsTo_def)
  then have "mValue m \<in> set (mRead m')" using external_mem [OF ser m'(1-3) m(1)] took [OF ser m(1,2)] m'(4) lt by simp
  then show False using m'(5) m(6) unfolding prefix_read_def by (metis in_set_takeD)
qed

end

text \<open>The orders of the model are such contracts: of every history, and of the serial ones.\<close>

interpretation ex: ordered txns opts "examined it txns opts" for txns opts it
proof unfold_locales
  show "writers_of txns (examined it txns opts)" "c_opts (examined it txns opts) = opts" by simp_all
qed (use examined_serial in blast)+

lemma serial_linked:
  assumes s: "serial txns opts eff ser"
  shows "linked (examined it txns opts) (\<lambda>i j. rank ser i < rank ser j)"
proof unfold_locales
  let ?c = "examined it txns opts"
  show "rank ser a < rank ser b" if "(u, v) \<in> set (zip (c_order ?c k) (tl (c_order ?c k)))" "writerOf ?c k u = Some a" "writerOf ?c k v = Some b" "a \<noteq> b" for k u v a b
    by (rule ex.ww_rank [OF s that])
  show "rank ser w < rank ser i" if h: "i < length (c_txns ?c)" "txStatus (c_txns ?c ! i) = Committed" "m \<in> set (external (c_txns ?c ! i))" "mRead m \<noteq> []"
    "writerOf ?c (mKey m) (last (mRead m)) = Some w" "w \<noteq> i" for i m w
  proof -
    have h': "i < length txns" "txStatus (txns ! i) = Committed" "m \<in> set (external (txns ! i))" using h(1-3) by simp_all
    have l: "last (mRead m) \<in> set (mRead m)" using h(4) by simp
    obtain rest where "full txns eff ser (mKey m) = mRead m @ rest"
      using serial_read_prefix [OF s h'(1,2) serial_external(2,3) [OF s h']] .
    then have "last (mRead m) \<in> set (full txns eff ser (mKey m))" using l by simp
    from ex.writer_eff [OF s this h(5)] show ?thesis using ex.external_mem [OF s h', of w "last (mRead m)"] l by simp
  qed
  show "rank ser i < rank ser w" if "i < length (c_txns ?c)" "txStatus (c_txns ?c ! i) = Committed" "m \<in> set (external (c_txns ?c ! i))"
    "length (mRead m) < length (c_order ?c (mKey m))" "take (length (mRead m)) (c_order ?c (mKey m)) = mRead m"
    "writerOf ?c (mKey m) (c_order ?c (mKey m) ! length (mRead m)) = Some w" "i \<noteq> w" for i m w
    using ex.rw_rank [OF s, of i m it w] that by simp
  show "rank ser w < rank ser i" if "i < length (c_txns ?c)" "c_took ?c ! i" "m \<in> set (txMops (c_txns ?c ! i))" "mAppend m"
    "mValue m \<notin> set (c_order ?c (mKey m))" "c_order ?c (mKey m) \<noteq> []" "writerOf ?c (mKey m) (last (c_order ?c (mKey m))) = Some w" "w \<noteq> i" for i m w
    using ex.uw_rank [OF s, of i it m w] that by simp
  show "rank ser r < rank ser i" if h: "i < length (c_txns ?c)" "c_took ?c ! i" "m \<in> set (txMops (c_txns ?c ! i))" "mAppend m"
    "mValue m \<notin> set (c_order ?c (mKey m))" "r < length (c_txns ?c)" "txStatus (c_txns ?c ! r) = Committed" "m' \<in> set (external (c_txns ?c ! r))"
    "mKey m' = mKey m" "mRead m' = c_order ?c (mKey m)" "r \<noteq> i" for i m r m'
  proof -
    have v: "mValue m \<in> set (appendsTo (mKey m) (txns ! i))" using h(3,4) by (auto simp: appendsTo_def)
    have "eff i" using ex.took [OF s, of i it] h(1,2) by simp
    then have "\<not> rank ser i < rank ser r" using ex.external_mem [OF s, of r m' i "mValue m"] h v by simp
    then show ?thesis using rank_inj [OF s, of r i] h by simp
  qed
  show "rank ser i < rank ser j" if "optRealtime (c_opts ?c)" "i < length (c_txns ?c)" "txStatus (c_txns ?c ! i) = Committed" "j < length (c_txns ?c)"
    "c_took ?c ! j" "txReturn (c_txns ?c ! i) < txCall (c_txns ?c ! j)" "i \<noteq> j" for i j
    using serialD(7) [OF s, of i j] ex.took [OF s, of j it] that by simp
  show "rank ser i < rank ser j" if "optProcess (c_opts ?c)" "i < j" "j < length (c_txns ?c)" "txProcess (c_txns ?c ! i) = txProcess (c_txns ?c ! j)" for i j
    using serialD(8) [OF s, of i j] that by simp
qed

lemma pairsOf_mem: "(x, y, k') \<in> set (pairsOf k xs) \<Longrightarrow> distinct xs \<Longrightarrow> x \<in> set xs \<and> y \<in> set xs \<and> x \<noteq> y"
  by (induction xs) auto

lemma serial_dependencies:
  assumes s: "serial txns opts eff ser"
  shows "edges_in (\<lambda>i j. rank ser i < rank ser j) (c_adj (dependencies it txns opts))" "c_pairs (dependencies it txns opts) = []"
proof -
  let ?c = "examined it txns opts"
  note L = linked.edges_edges_in [OF serial_linked [OF s, of it], of "it_edges it"]
  have e0: "edges_in (\<lambda>i j. rank ser i < rank ser j) (c_adj ?c)" by (simp add: edges_in_def)
  show "edges_in (\<lambda>i j. rank ser i < rank ser j) (c_adj (dependencies it txns opts))" unfolding dependencies_def by (rule L(1) [OF e0])
  have "p \<notin> set (c_pairs (dependencies it txns opts))" for p
  proof
    assume "p \<in> set (c_pairs (dependencies it txns opts))"
    then obtain unread rds k where u: "unread_of ?c (length txns) unread" "reader_of ?c (prefix_read ?c) rds" "p \<in> set (pairsOf k (filter (\<lambda>i. i \<in> set (rds k)) (unread k)))"
      using L(2) [OF e0] unfolding dependencies_def by auto
    obtain x y k' where p: "p = (x, y, k')" by (cases p)
    have "sorted_wrt (<) (unread k)" using u(1) unfolding unread_of_def by blast
    then have "distinct (unread k)" using strict_sorted_iff by blast
    then have xy: "x \<in> set (unread k)" "x \<in> set (rds k)" "y \<in> set (unread k)" "y \<in> set (rds k)" "x \<noteq> y"
      using pairsOf_mem [of x y k' k "filter (\<lambda>i. i \<in> set (rds k)) (unread k)"] u(3) p by auto
    have "x < length txns" "y < length txns" using u(1) xy(1,3) unfolding unread_of_def by auto
    then show False using ex.pair_free [OF s u(1,2) xy(1,4)] ex.pair_free [OF s u(1,2) xy(3,2)] rank_inj [OF s, of x y] xy(5) by simp
  qed
  then show "c_pairs (dependencies it txns opts) = []" by (metis all_not_in_conv set_empty)
qed

lemma is_walk_within:
  "is_walk succs w x y \<Longrightarrow> x \<in> S \<Longrightarrow> (\<And>v z k. v \<in> S \<Longrightarrow> (z, k) \<in> set (succs v) \<Longrightarrow> z \<in> S) \<Longrightarrow>
    is_walk (\<lambda>v. if v \<in> S then succs v else []) w x y"
  by (induction succs w x y rule: is_walk.induct) auto

lemma ranked_no_cycle:
  assumes "wf_adj adj" and e: "edges_in (\<lambda>i j. f i < (f j :: nat)) adj"
  shows "\<not> closed_walk adj w"
proof
  assume "closed_walk adj w"
  then obtain v where w: "w \<noteq> []" "v < length adj" "is_walk (nexts adj any (\<lambda>_. True)) w v v" unfolding closed_walk_def by blast
  let ?S = "{..<length adj}"
  have "is_walk (\<lambda>v. if v \<in> ?S then nexts adj any (\<lambda>_. True) v else []) w v v"
    by (rule is_walk_within [OF w(3)]) (use w(2) wf_adjD [OF assms(1)] in \<open>fastforce simp: set_nexts\<close>)+
  moreover have "f x < f z" if z: "(z, k) \<in> set (if x \<in> ?S then nexts adj any (\<lambda>_. True) x else [])" for x z k
    using z e unfolding edges_in_def by (fastforce simp: set_nexts split: if_splits)
  ultimately show False using is_walk_rank [OF _ w(1)] by blast
qed

lemma serial_clean:
  assumes "serial txns opts eff ser"
  shows "CheckTxns it txns opts = Some []"
proof -
  let ?c = "dependencies it txns opts"
  note D = serial_dependencies [OF assms, of it]
  have out: "c_out ?c = []" using examined_serial(1) [OF assms] edges_fields(2) by (simp add: dependencies_def)
  have none: "\<not> closed_walk (c_adj ?c) w" for w by (rule ranked_no_cycle [OF _ D(1)]) (simp add: dependencies_wf)
  obtain new where n: "CheckTxns it txns opts = Some (c_out ?c @ new)" "\<forall>a \<in> set new. real_cycle ?c a \<or> real_pair ?c a"
    by (rule CheckTxns_ok [of it txns opts])
  have "\<not> real_cycle ?c a" "\<not> real_pair ?c a" for a using none D(2) unfolding real_cycle_def real_pair_def by simp_all
  then have "a \<notin> set new" for a using n(2) by blast
  then have "new = []" by (metis all_not_in_conv set_empty)
  then show ?thesis using n(1) out by simp
qed

text \<open>
  C3: the check of transactional histories raises no false alarm. Take any history whose
  transactions took effect one after another in some order - the committed ones, and whichever of
  those in doubt did - each committed one reading what the ones before it had appended, then its
  own appends; each value appended once; the order respecting, where the options ask for it, that
  one transaction returned before another was called, and the order of each process. On it the
  check returns and reports nothing, in whatever order maps are iterated.
\<close>

theorem CheckTxns_no_false_alarm:
  assumes "serial txns opts eff ser"
  shows "CheckTxns it txns opts = Some []"
  by (rule serial_clean [OF assms])

text \<open>
  Three transactions, the second of which timed out and took effect all the same: it is the
  first to append, and the third reads what it left.
\<close>

definition timed_out :: "Txn list" where
  "timed_out = [\<lparr>txID = 1, txProcess = 1, txCall = 1, txReturn = 2, txStatus = Committed,
      txMops = [\<lparr>mAppend = False, mKey = ''x'', mValue = [], mRead = [''2'']\<rparr>, \<lparr>mAppend = True, mKey = ''x'', mValue = ''1'', mRead = []\<rparr>]\<rparr>,
    \<lparr>txID = 2, txProcess = 2, txCall = 1, txReturn = 3, txStatus = InDoubt, txMops = [\<lparr>mAppend = True, mKey = ''x'', mValue = ''2'', mRead = []\<rparr>]\<rparr>,
    \<lparr>txID = 3, txProcess = 1, txCall = 4, txReturn = 5, txStatus = Committed,
      txMops = [\<lparr>mAppend = False, mKey = ''x'', mValue = [], mRead = [''2'', ''1'']\<rparr>]\<rparr>]"

lemma timed_out_nth:
  "length timed_out = Suc (Suc (Suc 0))" "appendsTo k (timed_out ! 0) = (if k = ''x'' then [''1''] else [])"
  "appendsTo k (timed_out ! Suc 0) = (if k = ''x'' then [''2''] else [])" "appendsTo k (timed_out ! Suc (Suc 0)) = []"
  by (simp_all add: timed_out_def appendsTo_def)

lemma timed_out_serial: "serial timed_out \<lparr>optRealtime = True, optProcess = True\<rparr> (\<lambda>_. True) [Suc 0, 0, 2]"
proof -
  have u: "unique_appends timed_out" unfolding unique_appends_def by (simp add: timed_out_nth All_less_Suc)
  have rk: "pre [Suc 0, 0, 2] 0 = [Suc 0]" "pre [Suc 0, 0, 2] (Suc 0) = []" "pre [Suc 0, 0, 2] (Suc (Suc 0)) = [Suc 0, 0]" by (simp_all add: pre_def)
  have st: "txStatus (timed_out ! 0) = Committed" "txStatus (timed_out ! Suc 0) = InDoubt" "txStatus (timed_out ! Suc (Suc 0)) = Committed"
    by (simp_all add: timed_out_def)
  have ho: "honestMops (\<lambda>k. content timed_out (\<lambda>_. True) k [Suc 0]) (txMops (timed_out ! 0))"
    "honestMops (\<lambda>k. content timed_out (\<lambda>_. True) k [Suc 0, 0]) (txMops (timed_out ! Suc (Suc 0)))"
    by (simp_all add: content_def appendsTo_def) (simp_all add: timed_out_def)
  have tm: "txReturn (timed_out ! 0) = 2" "txReturn (timed_out ! Suc (Suc 0)) = 5" "txCall (timed_out ! 0) = 1" "txCall (timed_out ! Suc 0) = 1"
    "txCall (timed_out ! Suc (Suc 0)) = 4" "txProcess (timed_out ! 0) = 1" "txProcess (timed_out ! Suc 0) = 2" "txProcess (timed_out ! Suc (Suc 0)) = 1"
    by (simp_all add: timed_out_def)
  have "set [Suc 0, 0, 2] = {..<length timed_out}" by (auto simp: timed_out_nth)
  then show ?thesis
    unfolding serial_def using u by (simp add: timed_out_nth(1) All_less_Suc rk st ho tm rank_def)
qed

theorem CheckTxns_no_false_alarm_witness:
  "CheckTxns skew_keys timed_out \<lparr>optRealtime = True, optProcess = True\<rparr> = Some []"
  by (rule CheckTxns_no_false_alarm [OF timed_out_serial])

text \<open>
  A transaction whose client gave up before it took effect, as the status of a transaction in
  doubt allows: the client's next transaction does not see it, a later one does.
\<close>

definition gave_up :: "Txn list" where
  "gave_up = [\<lparr>txID = 1, txProcess = 1, txCall = 1, txReturn = 2, txStatus = InDoubt, txMops = [\<lparr>mAppend = True, mKey = ''x'', mValue = ''1'', mRead = []\<rparr>]\<rparr>,
    \<lparr>txID = 2, txProcess = 1, txCall = 3, txReturn = 4, txStatus = Committed, txMops = [\<lparr>mAppend = False, mKey = ''x'', mValue = [], mRead = []\<rparr>]\<rparr>,
    \<lparr>txID = 3, txProcess = 2, txCall = 5, txReturn = 6, txStatus = Committed, txMops = [\<lparr>mAppend = False, mKey = ''x'', mValue = [], mRead = [''1'']\<rparr>]\<rparr>]"

lemma gave_up_nth:
  "length gave_up = Suc (Suc (Suc 0))" "appendsTo k (gave_up ! 0) = (if k = ''x'' then [''1''] else [])"
  "appendsTo k (gave_up ! Suc 0) = []" "appendsTo k (gave_up ! Suc (Suc 0)) = []"
  by (simp_all add: gave_up_def appendsTo_def)

lemma gave_up_serial: "serial gave_up \<lparr>optRealtime = True, optProcess = False\<rparr> (\<lambda>_. True) [Suc 0, 0, 2]"
proof -
  have u: "unique_appends gave_up" unfolding unique_appends_def by (simp add: gave_up_nth All_less_Suc)
  have rk: "pre [Suc 0, 0, 2] 0 = [Suc 0]" "pre [Suc 0, 0, 2] (Suc 0) = []" "pre [Suc 0, 0, 2] (Suc (Suc 0)) = [Suc 0, 0]" by (simp_all add: pre_def)
  have st: "txStatus (gave_up ! 0) = InDoubt" "txStatus (gave_up ! Suc 0) = Committed" "txStatus (gave_up ! Suc (Suc 0)) = Committed"
    by (simp_all add: gave_up_def)
  have ho: "honestMops (\<lambda>k. content gave_up (\<lambda>_. True) k []) (txMops (gave_up ! Suc 0))"
    "honestMops (\<lambda>k. content gave_up (\<lambda>_. True) k [Suc 0, 0]) (txMops (gave_up ! Suc (Suc 0)))"
    by (simp_all add: content_def appendsTo_def) (simp_all add: gave_up_def)
  have tm: "txReturn (gave_up ! Suc 0) = 4" "txReturn (gave_up ! Suc (Suc 0)) = 6" "txCall (gave_up ! 0) = 1" "txCall (gave_up ! Suc 0) = 3"
    "txCall (gave_up ! Suc (Suc 0)) = 5" by (simp_all add: gave_up_def)
  have "set [Suc 0, 0, 2] = {..<length gave_up}" by (auto simp: gave_up_nth)
  then show ?thesis
    unfolding serial_def using u ho(1) by (simp add: gave_up_nth(1) All_less_Suc rk st ho(2) tm rank_def)
qed

text \<open>The order of a key is the longest of its committed reads, when the key is visited.\<close>

lemma orders_order: "c_order (orders ks c) k = (if k \<in> set ks \<and> keyReads c k \<noteq> [] then fst (keyReads c k ! longest (keyReads c k)) else c_order c k)"
proof (induction ks arbitrary: c)
  case (Cons k' ks)
  have "keyReads (orderKey c k') k = keyReads c k" by (simp add: orderKey_def keyReads_def Let_def)
  then show ?case using Cons [of "orderKey c k'"] by (auto simp: orders_def orderKey_def Let_def)
qed (simp add: orders_def)

lemma examined_order:
  assumes "k \<in> set (it_orders it)"
  shows "c_order (examined it txns opts) k =
    (let rs = keyReads (newChecker txns opts) k in if rs = [] then [] else fst (rs ! longest rs))"
proof -
  let ?c2 = "internal (appends (newChecker txns opts))"
  note f2 = only_out_fields [OF internal_only [of "appends (newChecker txns opts)"]]
  have "c_order (appends (newChecker txns opts)) k = []" by (simp add: newChecker_def)
  moreover have "keyReads ?c2 k = keyReads (newChecker txns opts) k" using f2(1) by (simp add: keyReads_def)
  moreover have "c_order (examined it txns opts) k = c_order (orders (it_orders it) ?c2) k"
    using only_out_fields(5) [OF reads_only [of "effects (it_effects it) (orders (it_orders it) ?c2)"]] by (simp add: examined_def effects_def)
  ultimately show ?thesis using assms f2(5) orders_order [of "it_orders it" ?c2 k] by (simp add: Let_def)
qed

lemma read_in_order:
  assumes s: "serial txns opts' eff ser" and l: "l < length txns" "txStatus (txns ! l) = Committed" "m \<in> set (txMops (txns ! l))" "\<not> mAppend m"
    and k: "mKey m \<in> set (it_orders it)"
  shows "\<exists>rest. c_order (examined it txns opts) (mKey m) = mRead m @ rest"
proof -
  let ?rs = "keyReads (newChecker txns opts) (mKey m)"
  let ?ord = "?rs ! longest ?rs"
  have t: "c_txns (newChecker txns opts) = txns" by (simp add: newChecker_def)
  have mem: "(mRead m, txID (txns ! l)) \<in> set ?rs"
    unfolding keyReads_def t using l by (auto intro!: bexI [of _ "txns ! l"])
  then have ne: "?rs \<noteq> []" by auto
  have o: "?ord \<in> set ?rs" "length (mRead m) \<le> length (fst ?ord)" using longest_max [OF ne] mem by fastforce+
  obtain r1 r2 where "full txns eff ser (mKey m) = mRead m @ r1" "full txns eff ser (mKey m) = fst ?ord @ r2"
    using keyReads_full [OF s t mem] keyReads_full [OF s t, of "fst ?ord" "snd ?ord" "mKey m"] o(1) by auto
  then have "take (length (mRead m)) (fst ?ord @ r2) = take (length (mRead m)) (mRead m @ r1)" by simp
  then have "take (length (mRead m)) (fst ?ord) = mRead m" using o(2) by simp
  then have "\<exists>rest. fst ?ord = mRead m @ rest" by (metis append_take_drop_id)
  then show ?thesis using examined_order [OF k, of txns opts] ne by (simp add: Let_def)
qed

text \<open>
  C37: with the order of processes asked for, a transaction in doubt is taken to precede its
  process's next one, though it may take effect at any time after its client gave up. Let a history
  be strictly serializable, or only serializable. Let a transaction in doubt be followed in its process, with no other
  in between, by a committed one, whose read of a key, with no append of its own before it, stops just
  short of a value the one in doubt appended, as a later committed read of that key shows. Without the order
  of processes nothing is reported; with it the same history is reported, in whatever order the maps
  are iterated, the key being one that is visited.
\<close>

theorem late_effect_reported:
  assumes s: "serial txns \<lparr>optRealtime = rt, optProcess = False\<rparr> eff ser"
    and ij: "i < j" "j < length txns" "txProcess (txns ! i) = txProcess (txns ! j)" "\<forall>l. i < l \<and> l < j \<longrightarrow> txProcess (txns ! l) \<noteq> txProcess (txns ! i)"
    and st: "txStatus (txns ! i) = InDoubt" "txStatus (txns ! j) = Committed"
    and m: "m \<in> set (external (txns ! j))" "mKey m \<in> set (it_orders it)" and v: "v \<in> set (appendsTo (mKey m) (txns ! i))"
    and l: "l < length txns" "txStatus (txns ! l) = Committed" "m' \<in> set (txMops (txns ! l))" "\<not> mAppend m'" "mKey m' = mKey m" "mRead m' = mRead m @ v # after"
  shows "CheckTxns it txns \<lparr>optRealtime = rt, optProcess = False\<rparr> = Some [] \<and>
    (\<exists>out. CheckTxns it txns \<lparr>optRealtime = rt, optProcess = True\<rparr> = Some out \<and> out \<noteq> [])"
proof -
  let ?o = "\<lparr>optRealtime = rt, optProcess = True\<rparr>"
  let ?c = "examined it txns ?o" and ?k = "mKey m"
  let ?ord = "c_order ?c ?k"
  obtain rest where "?ord = mRead m' @ rest" using read_in_order [OF s l(1-4), of it ?o] l(5) m(2) by auto
  then have ord: "?ord = mRead m @ v # after @ rest" using l(6) by simp
  have "writerOf ?c ?k v = Some i"
  proof -
    obtain x where x: "writerOf ?c ?k v = Some x" using writers_ofD(5) [OF examined_fields(6), of i txns v ?k it ?o] ij(1,2) v by auto
    then have "i = x" using unique_appendsD(2) [OF serialD(3) [OF s], of i v ?k x] writers_ofD(4) [OF examined_fields(6) x] ij(1,2) v by auto
    then show ?thesis using x by simp
  qed
  then have "closed_walk (c_adj (dependencies it txns ?o)) [(i, Process), (j, RW)]"
    using dependencies_cycle [OF ij st(2) m(1), of ?o it] unfolding ord by simp
  moreover obtain new where "CheckTxns it txns ?o = Some (c_out (dependencies it txns ?o) @ new)"
    "(\<exists>w. closed_walk (c_adj (dependencies it txns ?o)) w) \<longrightarrow> new \<noteq> []" by (rule CheckTxns_ok [of it txns ?o])
  ultimately show ?thesis using serial_clean [OF s] by auto
qed

theorem late_effect_reported_witness:
  "CheckTxns skew_keys gave_up \<lparr>optRealtime = True, optProcess = False\<rparr> = Some [] \<and>
   (\<exists>out. CheckTxns skew_keys gave_up \<lparr>optRealtime = True, optProcess = True\<rparr> = Some out \<and> out \<noteq> []) \<and>
   map_option (map (\<lambda>a. (taKind a, taTxns a, taEdges a))) (CheckTxns skew_keys gave_up \<lparr>optRealtime = True, optProcess = True\<rparr>) =
     Some [(''G-single'', [2, 1], [RW, Process])]"
proof -
  let ?m = "\<lparr>mAppend = False, mKey = ''x'', mValue = [], mRead = []\<rparr>" and ?m' = "\<lparr>mAppend = False, mKey = ''x'', mValue = [], mRead = [''1'']\<rparr>"
  have "map_option (map (\<lambda>a. (taKind a, taTxns a, taEdges a))) (CheckTxns skew_keys gave_up \<lparr>optRealtime = True, optProcess = True\<rparr>) =
     Some [(''G-single'', [2, 1], [RW, Process])]" by code_simp
  moreover have "?m \<in> set (external (gave_up ! 1))" "mKey ?m \<in> set (it_orders skew_keys)" "''1'' \<in> set (appendsTo (mKey ?m) (gave_up ! 0))"
    "1 < length gave_up" "2 < length gave_up" "txProcess (gave_up ! 0) = txProcess (gave_up ! 1)" "txStatus (gave_up ! 0) = InDoubt" "txStatus (gave_up ! 1) = Committed"
    "txStatus (gave_up ! 2) = Committed" "?m' \<in> set (txMops (gave_up ! 2))"
    by (simp_all add: gave_up_def external_def skew_keys_def appendsTo_def)
  ultimately show ?thesis using late_effect_reported [OF gave_up_serial, of 0 1 ?m skew_keys "''1''" 2 ?m' "[]"] by auto
qed

end
