(* ===== verification/Obj_Text.thy ===== *)
theory Obj_Text
  imports Torx_Text "HOL-Library.Char_ord" "HOL-Library.List_Lexorder" "HOL-Library.AList"
begin

text \<open>
  The text the object store reads: what it uses of Go's \<^verbatim>\<open>strings\<close>, \<^verbatim>\<open>bytes\<close>, \<^verbatim>\<open>strconv\<close>,
  \<^verbatim>\<open>encoding/hex\<close> and \<^verbatim>\<open>net/url\<close>, and the parsers of \<^verbatim>\<open>src/objstore/objstore.go\<close> built on them:
  chunked bodies, ranges, entity tags and access keys. Strings and byte slices are both lists
  of bytes, compared as Go compares them.
\<close>

type_synonym bytes = string

subsection \<open>Prefixes and cuts\<close>

definition hasPrefix :: "string \<Rightarrow> string \<Rightarrow> bool" where
  "hasPrefix s p \<longleftrightarrow> take (length p) s = p"

definition cutPrefix :: "string \<Rightarrow> string \<Rightarrow> string option" where
  "cutPrefix s p = (if hasPrefix s p then Some (drop (length p) s) else None)"

definition trimPrefix :: "string \<Rightarrow> string \<Rightarrow> string" where
  "trimPrefix s p = (if hasPrefix s p then drop (length p) s else s)"

text \<open>\<open>cut\<close> of a separator that is not there gives the whole string and the empty one.\<close>

fun cut :: "string \<Rightarrow> string \<Rightarrow> string \<times> string \<times> bool" where
  "cut sep [] = ([], [], sep = [])"
| "cut sep (c # s) =
     (if hasPrefix (c # s) sep then ([], drop (length sep) (c # s), True)
      else (case cut sep s of (a, b, ok) \<Rightarrow> (c # a, b, ok)))"

fun indexOf :: "string \<Rightarrow> string \<Rightarrow> nat option" where
  "indexOf [] sep = (if sep = [] then Some 0 else None)"
| "indexOf (c # s) sep = (if hasPrefix (c # s) sep then Some 0 else map_option Suc (indexOf s sep))"

fun splitOn :: "char \<Rightarrow> string \<Rightarrow> string list" where
  "splitOn sep [] = [[]]"
| "splitOn sep (c # s) = (if c = sep then [] # splitOn sep s
     else (case splitOn sep s of p # ps \<Rightarrow> (c # p) # ps | [] \<Rightarrow> [[c]]))"

subsection \<open>White space and case\<close>

definition byte :: "nat \<Rightarrow> char" where
  "byte n = char_of n"

text \<open>The white space of Unicode, encoded: tab to carriage return, space, and the wide ones.\<close>

definition spaces :: "string list" where
  "spaces = map (\<lambda>n. [byte n]) [9, 10, 11, 12, 13, 32] @ [[byte 0xC2, byte 0x85], [byte 0xC2, byte 0xA0], [byte 0xE1, byte 0x9A, byte 0x80]] @
     map (\<lambda>n. [byte 0xE2, byte 0x80, byte n]) ([0x80..<0x8B] @ [0xA8, 0xA9, 0xAF]) @
     [[byte 0xE2, byte 0x81, byte 0x9F], [byte 0xE3, byte 0x80, byte 0x80]]"

function trimLeft :: "string list \<Rightarrow> string \<Rightarrow> string" where
  "trimLeft sps s = (case find (\<lambda>sp. sp \<noteq> [] \<and> hasPrefix s sp) sps of
     None \<Rightarrow> s | Some sp \<Rightarrow> trimLeft sps (drop (length sp) s))"
  by pat_completeness auto
termination trimLeft
proof (relation "measure (\<lambda>(sps, s). length s)")
  fix sps s sp assume "find (\<lambda>sp. sp \<noteq> [] \<and> hasPrefix s sp) sps = Some sp"
  then have "sp \<noteq> []" "hasPrefix s sp" by (auto simp: find_Some_iff)
  then have "0 < length sp" "length sp \<le> length s" by (auto simp: hasPrefix_def dest: arg_cong [of _ _ length])
  then show "((sps, drop (length sp) s), sps, s) \<in> measure (\<lambda>(sps, s). length s)" by (cases sp) auto
qed simp

declare trimLeft.simps [simp del]

definition trimSpace :: "string \<Rightarrow> string" where
  "trimSpace s = rev (trimLeft (map rev spaces) (rev (trimLeft spaces s)))"

text \<open>\<open>strings.Trim\<close> with one character to trim.\<close>

definition trimChar :: "char \<Rightarrow> string \<Rightarrow> string" where
  "trimChar c s = rev (dropWhile (\<lambda>x. x = c) (rev (dropWhile (\<lambda>x. x = c) s)))"

definition lowerChar :: "char \<Rightarrow> char" where
  "lowerChar c = (if 65 \<le> (of_char c :: nat) \<and> (of_char c :: nat) \<le> 90 then char_of ((of_char c :: nat) + 32) else c)"

definition toLower :: "string \<Rightarrow> string" where
  "toLower s = map lowerChar s"

text \<open>
  \<open>strings.EqualFold\<close> against an ASCII string folds letters, and two characters that are not
  ASCII: the Kelvin sign is a k, the long s an s.
\<close>

fun foldCase :: "string \<Rightarrow> string" where
  "foldCase [] = []"
| "foldCase (a # s) =
     (if hasPrefix (a # s) [byte 0xE2, byte 0x84, byte 0xAA] then CHR ''k'' # foldCase (drop 2 s)
      else if hasPrefix (a # s) [byte 0xC5, byte 0xBF] then CHR ''s'' # foldCase (drop 1 s)
      else lowerChar a # foldCase s)"

subsection \<open>Numbers\<close>

definition hexDigit :: "char \<Rightarrow> nat option" where
  "hexDigit c = (let n = (of_char c :: nat) in
     if 48 \<le> n \<and> n \<le> 57 then Some (n - 48)
     else if 97 \<le> n \<and> n \<le> 102 then Some (n - 87)
     else if 65 \<le> n \<and> n \<le> 70 then Some (n - 55) else None)"

definition digitIn :: "nat \<Rightarrow> char \<Rightarrow> nat option" where
  "digitIn b c = (case hexDigit c of Some d \<Rightarrow> if d < b then Some d else None | None \<Rightarrow> None)"

fun digitsIn :: "nat \<Rightarrow> nat \<Rightarrow> string \<Rightarrow> nat option" where
  "digitsIn b acc [] = Some acc"
| "digitsIn b acc (c # s) = (case digitIn b c of Some d \<Rightarrow> digitsIn b (acc * b + d) s | None \<Rightarrow> None)"

definition parseUint :: "nat \<Rightarrow> nat \<Rightarrow> string \<Rightarrow> nat option" where
  "parseUint b bits s = (if s = [] then None
     else case digitsIn b 0 s of Some n \<Rightarrow> if n < 2 ^ bits then Some n else None | None \<Rightarrow> None)"

definition decimal :: "string \<Rightarrow> int option" where
  "decimal s = (let neg = (s \<noteq> [] \<and> hd s = CHR ''-''); ds = (if s \<noteq> [] \<and> (hd s = CHR ''-'' \<or> hd s = CHR ''+'') then tl s else s) in
     if ds = [] then None
     else map_option (\<lambda>n. if neg then - int n else int n) (digitsIn 10 0 ds))"

definition parseInt64 :: "string \<Rightarrow> int option" where
  "parseInt64 s = (case decimal s of Some n \<Rightarrow> if is_int64 n then Some n else None | None \<Rightarrow> None)"

text \<open>\<open>strconv.Atoi\<close> with its value on an error: zero, or the nearest integer.\<close>

definition atoi :: "string \<Rightarrow> int \<times> bool" where
  "atoi s = (case decimal s of
     None \<Rightarrow> (0, False)
   | Some n \<Rightarrow> if MaxInt64 < n then (MaxInt64, False) else if n < - (2 ^ 63) then (- (2 ^ 63), False) else (n, True))"

definition hexChar :: "nat \<Rightarrow> char" where
  "hexChar d = (if d < 10 then char_of (48 + d) else char_of (87 + d))"

definition hexEncode :: "bytes \<Rightarrow> string" where
  "hexEncode bs = concat (map (\<lambda>c. let n = (of_char c :: nat) in [hexChar (n div 16), hexChar (n mod 16)]) bs)"

fun hexNat :: "nat \<Rightarrow> string" where
  "hexNat n = (if n < 16 then [hexChar n] else hexNat (n div 16) @ [hexChar (n mod 16)])"

declare hexNat.simps [simp del]

text \<open>\<open>%016x\<close> of an integer that is not negative.\<close>

definition hex016 :: "nat \<Rightarrow> string" where
  "hex016 n = replicate (16 - length (hexNat n)) CHR ''0'' @ hexNat n"

text \<open>\<open>url.PathUnescape\<close>.\<close>

fun pathUnescape :: "string \<Rightarrow> string option" where
  "pathUnescape [] = Some []"
| "pathUnescape (c # s) =
     (if c \<noteq> CHR ''%'' then map_option ((#) c) (pathUnescape s)
      else case s of
        a # b # r \<Rightarrow> (case (hexDigit a, hexDigit b) of
            (Some x, Some y) \<Rightarrow> map_option ((#) (char_of (16 * x + y))) (pathUnescape r)
          | _ \<Rightarrow> None)
      | _ \<Rightarrow> None)"

subsection \<open>Entity tags and access keys\<close>

definition quote :: "string \<Rightarrow> string" where
  "quote s = CHR 0x22 # s @ [CHR 0x22]"

definition etagMatch :: "string \<Rightarrow> string \<Rightarrow> bool" where
  "etagMatch header tag = list_ex (\<lambda>v. let v = trimSpace v in
     v = ''*'' \<or> v = tag \<or> quote (trimChar (CHR 0x22) v) = tag) (splitOn CHR '','' header)"

definition accessKey :: "string \<Rightarrow> string" where
  "accessKey auth = (case cut ''Credential='' auth of (_, cred, ok) \<Rightarrow>
     if \<not> ok then [] else fst (cut ''/'' cred))"

subsection \<open>Chunked bodies\<close>

definition crlf :: string where
  "crlf = [CHR 0x0D, CHR 0x0A]"

datatype chunk_error = NoFinalChunk | BadSize string | CutShort | WrongLength nat string

text \<open>The loop over the chunks, with the payload so far.\<close>

function unchunkLoop :: "bytes \<Rightarrow> bytes \<Rightarrow> chunk_error + bytes" where
  "unchunkLoop out body =
     (case cut crlf body of (line, rest, ok) \<Rightarrow>
        if \<not> ok then Inl NoFinalChunk
        else let sz = fst (cut '';'' line) in
          case parseUint 16 31 (trimSpace sz) of
            None \<Rightarrow> Inl (BadSize sz)
          | Some n \<Rightarrow>
              if n = 0 then Inr out
              else if length rest < n + 2 \<or> take 2 (drop n rest) \<noteq> crlf then Inl CutShort
              else unchunkLoop (out @ take n rest) (drop (n + 2) rest))"
  by pat_completeness auto

lemma cut_length: "cut sep s = (a, b, ok) \<Longrightarrow> length b \<le> length s"
proof (induction s arbitrary: a b ok)
  case (Cons c s)
  obtain a' b' ok' where "cut sep s = (a', b', ok')" using prod_cases3 by blast
  then show ?case using Cons.IH [of a' b' ok'] Cons.prems by (auto split: if_splits)
qed simp

termination unchunkLoop
  by (relation "measure (\<lambda>(out, body). length body)") (auto dest!: cut_length [OF sym])

declare unchunkLoop.simps [simp del]

definition unchunk :: "bytes \<Rightarrow> string \<Rightarrow> chunk_error + bytes" where
  "unchunk body decodedLength = (case unchunkLoop [] body of
     Inl e \<Rightarrow> Inl e
   | Inr out \<Rightarrow> if decodedLength \<noteq> [] \<and> decodedLength \<noteq> itoa (int (length out)) then Inl (WrongLength (length out) decodedLength) else Inr out)"

subsection \<open>Ranges\<close>

definition parseRange :: "string \<Rightarrow> int \<Rightarrow> (int \<times> int) option" where
  "parseRange h n = (case cutPrefix h ''bytes='' of
     None \<Rightarrow> None
   | Some spec \<Rightarrow>
       if CHR '','' \<in> set spec then None
       else (case cut ''-'' spec of (a, b, _) \<Rightarrow>
         if a = [] then
           (case parseInt64 b of
              None \<Rightarrow> None
            | Some k \<Rightarrow> if k \<le> 0 then None else if n > 0 then Some (max 0 (n - k), n) else None)
         else (case parseInt64 a of
             None \<Rightarrow> None
           | Some lo \<Rightarrow>
               if lo \<ge> n then None
               else if b = [] then Some (lo, n)
               else (case parseInt64 b of
                   None \<Rightarrow> None
                 | Some hi \<Rightarrow> if hi < lo then None else Some (lo, min hi (n - 1) + 1)))))"

subsection \<open>Facts about text\<close>

lemma hasPrefix_append [simp]: "hasPrefix (p @ s) p"
  by (simp add: hasPrefix_def)

lemma hasPrefix_hd: "hasPrefix s p \<Longrightarrow> p \<noteq> [] \<Longrightarrow> s \<noteq> [] \<and> hd s = hd p"
  unfolding hasPrefix_def by (metis hd_take length_greater_0_conv take_Nil)

lemma cut_first:
  assumes "sep \<noteq> []" "hd sep \<notin> set a"
  shows "cut sep (a @ sep @ b) = (a, b, True)"
  using assms(2)
proof (induction a)
  case Nil
  then show ?case using assms(1) by (cases sep) (simp_all add: hasPrefix_def)
next
  case (Cons c a)
  have "\<not> hasPrefix (c # a @ sep @ b) sep" using hasPrefix_hd [of "c # a @ sep @ b" sep] assms(1) Cons.prems by auto
  then show ?case using Cons by simp
qed

lemma cut_none:
  assumes "sep \<noteq> []" "hd sep \<notin> set a"
  shows "cut sep a = (a, [], False)"
  using assms(2)
proof (induction a)
  case (Cons c a)
  have "\<not> hasPrefix (c # a) sep" using hasPrefix_hd [of "c # a" sep] assms(1) Cons.prems by auto
  then show ?case using Cons by simp
qed (use assms(1) in simp)

lemma cut_parts: "cut sep s = (a, b, True) \<Longrightarrow> s = a @ sep @ b"
proof (induction s arbitrary: a b)
  case (Cons c s)
  show ?case
  proof (cases "hasPrefix (c # s) sep")
    case True
    then have "a = []" "b = drop (length sep) (c # s)" using Cons.prems by simp_all
    then show ?thesis using append_take_drop_id [of "length sep" "c # s"] True unfolding hasPrefix_def by (simp del: drop_Suc_Cons)
  next
    case False
    obtain a' b' ok' where "cut sep s = (a', b', ok')" using prod_cases3 by blast
    then show ?thesis using Cons.IH [of a' b'] Cons.prems False by auto
  qed
qed simp

text \<open>Printable ASCII has nothing to trim.\<close>

definition printable :: "string \<Rightarrow> bool" where
  "printable s \<longleftrightarrow> (\<forall>c \<in> set s. 33 \<le> (of_char c :: nat) \<and> (of_char c :: nat) < 128)"

lemma trimLeft_id:
  assumes "printable s" "\<forall>sp \<in> set sps. sp \<noteq> [] \<longrightarrow> \<not> printable [hd sp]"
  shows "trimLeft sps s = s"
proof -
  have "find (\<lambda>sp. sp \<noteq> [] \<and> hasPrefix s sp) sps = None"
    unfolding find_None_iff
  proof (intro notI, elim exE conjE)
    fix sp assume sp: "sp \<in> set sps" "sp \<noteq> []" "hasPrefix s sp"
    then have "hd sp \<in> set s" using hasPrefix_hd [of s sp] hd_in_set [of s] by simp
    then show False using assms sp(1,2) by (auto simp: printable_def)
  qed
  then show ?thesis by (subst trimLeft.simps) simp
qed

lemma trimSpace_id: "printable s \<Longrightarrow> trimSpace s = s"
proof -
  assume s: "printable s"
  have "\<forall>sp \<in> set spaces. sp \<noteq> [] \<longrightarrow> \<not> printable [hd sp]"
    by (simp add: spaces_def byte_def printable_def upt_conv_Cons)
  then have "trimLeft spaces s = s" by (rule trimLeft_id [OF s])
  moreover have "\<forall>sp \<in> set (map rev spaces). sp \<noteq> [] \<longrightarrow> \<not> printable [hd sp]"
    by (simp add: spaces_def byte_def printable_def upt_conv_Cons)
  then have "trimLeft (map rev spaces) (rev s) = rev s" by (rule trimLeft_id [rotated]) (use s in \<open>simp add: printable_def\<close>)
  ultimately show ?thesis by (simp add: trimSpace_def)
qed

lemma of_char_of: "n < 256 \<Longrightarrow> of_char (char_of n :: char) = (n :: nat)"
  by simp

lemma hexChar_of: "d < 16 \<Longrightarrow> (of_char (hexChar d) :: nat) = (if d < 10 then 48 + d else 87 + d)"
  by (simp add: hexChar_def)

lemma hexDigit_hexChar: "d < 16 \<Longrightarrow> hexDigit (hexChar d) = Some d"
  by (simp add: hexDigit_def hexChar_of Let_def)

lemma digitsIn_append: "digitsIn b acc (s @ t) = (case digitsIn b acc s of Some n \<Rightarrow> digitsIn b n t | None \<Rightarrow> None)"
  by (induction s arbitrary: acc) (auto split: option.splits)

lemma hexNat_digits: "digitsIn 16 0 (hexNat n) = Some n"
proof (induction n rule: hexNat.induct)
  case (1 n)
  show ?case
  proof (cases "n < 16")
    case True
    then show ?thesis by (subst hexNat.simps) (simp add: digitIn_def hexDigit_hexChar)
  next
    case False
    then have "digitsIn 16 0 (hexNat (n div 16)) = Some (n div 16)" using 1 by simp
    then show ?thesis using False by (subst hexNat.simps) (simp add: digitsIn_append digitIn_def hexDigit_hexChar)
  qed
qed

lemma hexNat_printable: "printable (hexNat n) \<and> hexNat n \<noteq> [] \<and> CHR '';'' \<notin> set (hexNat n) \<and> CHR 0x0D \<notin> set (hexNat n)"
proof (induction n rule: hexNat.induct)
  case (1 n)
  have c: "33 \<le> (of_char (hexChar d) :: nat) \<and> (of_char (hexChar d) :: nat) < 128 \<and> CHR '';'' \<noteq> hexChar d \<and> CHR 0x0D \<noteq> hexChar d" if "d < 16" for d
  proof -
    have "(of_char CHR '';'' :: nat) = 59" "(of_char CHR 0x0D :: nat) = 13" by simp_all
    then have "hexChar d = CHR '';'' \<Longrightarrow> (if d < 10 then 48 + d else 87 + d) = 59" "hexChar d = CHR 0x0D \<Longrightarrow> (if d < 10 then 48 + d else 87 + d) = 13"
      using hexChar_of [OF that] by simp_all
    then show ?thesis using hexChar_of [OF that] that by (auto split: if_splits)
  qed
  show ?case
  proof (cases "n < 16")
    case True
    then show ?thesis using c [OF True] by (subst (1 2 3 4) hexNat.simps) (simp add: printable_def)
  next
    case False
    then show ?thesis using 1 c [of "n mod 16"] by (subst (1 2 3 4) hexNat.simps) (simp add: printable_def)
  qed
qed

lemma parseUint_hexNat: "n < 2 ^ bits \<Longrightarrow> parseUint 16 bits (trimSpace (hexNat n)) = Some n"
  using hexNat_printable [of n] by (simp add: trimSpace_id parseUint_def hexNat_digits)

subsection \<open>Chunked bodies, both ways\<close>

text \<open>
  A streaming upload as a client frames it: chunks that are not empty, each with the
  extension of its signature, then one of size zero and its trailers.
\<close>

definition extension :: "string \<Rightarrow> bool" where
  "extension ext \<longleftrightarrow> CHR 0x0D \<notin> set ext \<and> (ext = [] \<or> hd ext = CHR '';'')"

definition chunkText :: "string \<times> bytes \<Rightarrow> bytes" where
  "chunkText c = hexNat (length (snd c)) @ fst c @ crlf @ snd c @ crlf"

definition chunked :: "(string \<times> bytes) list \<Rightarrow> string \<Rightarrow> bytes" where
  "chunked cs ext = concat (map chunkText cs) @ ''0'' @ ext @ crlf"

definition chunks_ok :: "(string \<times> bytes) list \<Rightarrow> bool" where
  "chunks_ok cs \<longleftrightarrow> (\<forall>(ext, d) \<in> set cs. extension ext \<and> d \<noteq> [] \<and> length d < 2 ^ 31)"

lemma size_line:
  assumes "extension ext"
  shows "cut crlf (hexNat n @ ext @ crlf @ rest) = (hexNat n @ ext, rest, True)" "fst (cut '';'' (hexNat n @ ext)) = hexNat n"
proof -
  show "cut crlf (hexNat n @ ext @ crlf @ rest) = (hexNat n @ ext, rest, True)"
    using cut_first [of crlf "hexNat n @ ext" rest] hexNat_printable [of n] assms by (simp add: crlf_def extension_def)
  show "fst (cut '';'' (hexNat n @ ext)) = hexNat n"
  proof (cases ext)
    case Nil
    then show ?thesis using cut_none [of "'';''" "hexNat n"] hexNat_printable [of n] by simp
  next
    case (Cons c e)
    then show ?thesis using cut_first [of "'';''" "hexNat n" e] hexNat_printable [of n] assms by (simp add: extension_def)
  qed
qed

lemma hexNat_0: "hexNat 0 = ''0''"
  by code_simp

lemma unchunk_step:
  assumes "extension ext" "d \<noteq> []" "length d < 2 ^ 31"
  shows "unchunkLoop out (chunkText (ext, d) @ rest) = unchunkLoop (out @ d) rest"
proof -
  have c: "chunkText (ext, d) @ rest = hexNat (length d) @ ext @ crlf @ d @ crlf @ rest" by (simp add: chunkText_def)
  note p = parseUint_hexNat [OF assms(3)]
  have d: "\<not> (length (d @ crlf @ rest) < length d + 2 \<or> take 2 (drop (length d) (d @ crlf @ rest)) \<noteq> crlf)" "drop (length d + 2) (d @ crlf @ rest) = rest"
    by (simp_all add: crlf_def)
  show ?thesis
    unfolding c by (subst unchunkLoop.simps) (use d assms(2) in \<open>simp add: size_line [OF assms(1)] p Let_def\<close>)
qed

lemma unchunk_last:
  assumes "extension ext"
  shows "unchunkLoop out (''0'' @ ext @ crlf @ trailers) = Inr out"
proof -
  have p: "parseUint 16 31 (trimSpace (hexNat 0)) = Some 0" by (rule parseUint_hexNat) simp
  show ?thesis
    unfolding hexNat_0 [symmetric] by (subst unchunkLoop.simps) (simp only: size_line [OF assms] p Let_def split if_True if_False simp_thms option.case)
qed

lemma unchunkLoop_chunked:
  "chunks_ok cs \<Longrightarrow> extension ext \<Longrightarrow> unchunkLoop out (chunked cs ext @ trailers) = Inr (out @ concat (map snd cs))"
proof (induction cs arbitrary: out)
  case Nil
  then show ?case using unchunk_last [of ext out trailers] by (simp add: chunked_def)
next
  case (Cons c cs)
  obtain e d where c: "c = (e, d)" by fastforce
  have "unchunkLoop out (chunkText (e, d) @ chunked cs ext @ trailers) = unchunkLoop (out @ d) (chunked cs ext @ trailers)"
    by (rule unchunk_step) (use Cons.prems(1) c in \<open>auto simp: chunks_ok_def\<close>)
  then show ?case using Cons.IH [of "out @ d"] Cons.prems c by (simp add: chunked_def chunks_ok_def)
qed

lemma cut_torn:
  assumes "CHR 0x0D \<notin> set a" "k < length a + 2"
  shows "\<exists>x y. cut crlf (take k (a @ crlf @ b)) = (x, y, False)"
proof -
  have "take k (a @ crlf @ b) = take k a \<or> take k (a @ crlf @ b) = a @ [CHR 0x0D]"
    using assms(2) by (cases "k \<le> length a") (auto simp: crlf_def take_Cons' not_le less_Suc_eq)
  then show ?thesis
  proof
    assume t: "take k (a @ crlf @ b) = take k a"
    have "hd crlf \<notin> set (take k a)" using assms(1) by (auto simp: crlf_def dest: in_set_takeD)
    then show ?thesis using cut_none [of crlf "take k a"] t by (simp add: crlf_def)
  next
    assume t: "take k (a @ crlf @ b) = a @ [CHR 0x0D]"
    have "cut crlf (a @ [CHR 0x0D]) = (a @ [CHR 0x0D], [], False)" using assms(1)
      by (induction a) (auto simp: crlf_def hasPrefix_def)
    then show ?thesis using t by simp
  qed
qed

lemma unchunkLoop_torn:
  "chunks_ok cs \<Longrightarrow> extension ext \<Longrightarrow> k < length (chunked cs ext) \<Longrightarrow> \<exists>e. unchunkLoop out (take k (chunked cs ext)) = Inl e"
proof (induction cs arbitrary: out k)
  case Nil
  have "CHR 0x0D \<notin> set (''0'' @ ext)" "k < length (''0'' @ ext) + 2" using Nil.prems(2,3) by (auto simp: extension_def chunked_def crlf_def)
  then obtain x y where "cut crlf (take k ((''0'' @ ext) @ crlf @ [])) = (x, y, False)" using cut_torn by blast
  then show ?case by (subst unchunkLoop.simps) (simp add: chunked_def)
next
  case (Cons c cs)
  obtain e d where c: "c = (e, d)" by fastforce
  have ok: "extension e" "d \<noteq> []" "length d < 2 ^ 31" "chunks_ok cs" using Cons.prems(1) c by (auto simp: chunks_ok_def)
  let ?L = "hexNat (length d) @ e" and ?R = "chunked cs ext"
  have body: "chunked (c # cs) ext = ?L @ crlf @ d @ crlf @ ?R" by (simp add: c chunked_def chunkText_def)
  have L: "CHR 0x0D \<notin> set ?L" using hexNat_printable [of "length d"] ok(1) by (simp add: extension_def)
  consider "k < length ?L + 2" | "length ?L + 2 \<le> k" "k < length ?L + 2 + (length d + 2)" | "length ?L + 2 + (length d + 2) \<le> k" by linarith
  then show ?case
  proof cases
    case 1
    then obtain x y where "cut crlf (take k (?L @ crlf @ d @ crlf @ ?R)) = (x, y, False)" using cut_torn [OF L] by blast
    then show ?thesis unfolding body by (subst unchunkLoop.simps) simp
  next
    case 2
    let ?k = "k - (length ?L + 2)"
    have t: "take k (chunked (c # cs) ext) = hexNat (length d) @ e @ crlf @ take ?k (d @ crlf @ ?R)"
      unfolding body using 2(1) by (simp add: crlf_def take_Cons' not_le numeral_2_eq_2)
    have "length (take ?k (d @ crlf @ ?R)) < length d + 2" using 2 by auto
    then show ?thesis
      unfolding t by (subst unchunkLoop.simps) (use ok(2) in \<open>simp add: size_line [OF ok(1)] parseUint_hexNat [OF ok(3)] Let_def\<close>)
  next
    case 3
    let ?k = "k - (length ?L + 2 + (length d + 2))"
    have "take k (chunked (c # cs) ext) = chunkText (e, d) @ take ?k ?R"
      unfolding body chunkText_def using 3 by (simp add: crlf_def take_Cons' not_le numeral_2_eq_2)
    moreover have "?k < length ?R" using Cons.prems(3) 3 unfolding body by (simp add: crlf_def)
    ultimately show ?thesis using unchunk_step [OF ok(1-3)] Cons.IH [OF ok(4) Cons.prems(2)] by simp
  qed
qed

text \<open>
  A streaming upload is stored as its payload, and only whole. Whatever chunks a client
  frames its payload in and with whatever extensions and trailers, the store decodes exactly the
  payload, if the request declares its length or none; with a wrong length declared, and of a
  body cut off anywhere before the end of its final chunk, it decodes nothing.
\<close>

theorem unchunk_chunked:
  assumes "chunks_ok cs" "extension ext"
  shows "(\<forall>trailers declared. unchunk (chunked cs ext @ trailers) declared =
      (if declared = [] \<or> declared = itoa (int (length (concat (map snd cs)))) then Inr (concat (map snd cs))
       else Inl (WrongLength (length (concat (map snd cs))) declared))) \<and>
    (\<forall>k declared. k < length (chunked cs ext) \<longrightarrow> (\<exists>e. unchunk (take k (chunked cs ext)) declared = Inl e))"
proof -
  have "unchunkLoop [] (chunked cs ext @ trailers) = Inr (concat (map snd cs))" for trailers using unchunkLoop_chunked [OF assms, of "[]" trailers] by simp
  moreover have "\<exists>e. unchunk (take k (chunked cs ext)) declared = Inl e" if "k < length (chunked cs ext)" for k declared
    using unchunkLoop_torn [OF assms that, of "[]"] by (auto simp: unchunk_def)
  ultimately show ?thesis by (simp add: unchunk_def)
qed

theorem unchunk_chunked_witness:
  "unchunk (chunked [('';chunk-signature=ad'', ''hello, ''), ([], ''world'')] [] @ ''x-amz-checksum:0'' @ crlf) ''12'' = Inr ''hello, world'' \<and>
   (\<exists>e. unchunk (take 20 (chunked [([], ''world and all'')] [])) [] = Inl e)"
proof -
  have ok: "chunks_ok [('';chunk-signature=ad'', ''hello, ''), ([], ''world'')]" "chunks_ok [([], ''world and all'')]" "extension []"
    by (simp_all add: chunks_ok_def extension_def)
  have "itoa (int (length (concat (map snd [('';chunk-signature=ad'', ''hello, ''), ([], ''world'')])))) = ''12''" by code_simp
  moreover have "20 < length (chunked [([], ''world and all'')] [])" by code_simp
  ultimately show ?thesis
    using unchunk_chunked [OF ok(1,3)] unchunk_chunked [OF ok(2,3)] by auto
qed

subsection \<open>Ranges\<close>

lemma digit_hex: "d < 10 \<Longrightarrow> digitIn 10 (digit d) = Some d"
  by (simp add: digitIn_def hexDigit_def digit_def Let_def)

lemma utoa_digits: "digitsIn 10 0 (utoa n) = Some n \<and> utoa n \<noteq> [] \<and> (\<forall>c \<in> set (utoa n). 48 \<le> (of_char c :: nat) \<and> (of_char c :: nat) < 58)"
proof (induction n rule: utoa.induct)
  case (1 n)
  have d: "(of_char (digit d) :: nat) = 48 + d" if "d < 10" for d using that by (simp add: digit_def)
  show ?case
  proof (cases "n < 10")
    case True
    then show ?thesis by (subst (1 2 3) utoa.simps) (simp add: digit_hex d)
  next
    case False
    then show ?thesis using 1 by (subst (1 2 3) utoa.simps) (auto simp: digitsIn_append digit_hex d)
  qed
qed

lemma utoa_no: "(of_char c :: nat) < 48 \<Longrightarrow> c \<notin> set (utoa n)"
  using utoa_digits [of n] by auto

lemma parseInt64_utoa: "int n \<le> MaxInt64 \<Longrightarrow> parseInt64 (utoa n) = Some (int n)"
proof -
  assume n: "int n \<le> MaxInt64"
  have h: "hd (utoa n) \<in> set (utoa n)" using utoa_digits [of n] by simp
  have "CHR ''-'' \<notin> set (utoa n)" "CHR ''+'' \<notin> set (utoa n)" by (simp_all add: utoa_no)
  then have "hd (utoa n) \<noteq> CHR ''-''" "hd (utoa n) \<noteq> CHR ''+''" using h by metis+
  then have "decimal (utoa n) = Some (int n)" using utoa_digits [of n] by (auto simp: decimal_def Let_def)
  then show ?thesis using n by (simp add: parseInt64_def is_int64_def)
qed

lemma decimal_nonneg: "decimal s = Some n \<Longrightarrow> CHR ''-'' \<notin> set s \<Longrightarrow> 0 \<le> n"
  by (cases s) (auto simp: decimal_def Let_def split: if_splits)

lemma cut_before: "cut sep s = (a, b, ok) \<Longrightarrow> sep = [c] \<Longrightarrow> c \<notin> set a"
proof (induction s arbitrary: a b ok)
  case (Cons x s)
  obtain a' b' ok' where "cut sep s = (a', b', ok')" using prod_cases3 by blast
  then show ?case using Cons.IH [of a' b' ok'] Cons.prems by (auto simp: hasPrefix_def split: if_splits)
qed auto

lemma parseRange_within:
  assumes "parseRange h n = Some (lo, hi)" "0 \<le> n"
  shows "0 \<le> lo \<and> lo < hi \<and> hi \<le> n"
proof -
  obtain spec where spec: "cutPrefix h ''bytes='' = Some spec" "CHR '','' \<notin> set spec"
    using assms(1) by (auto simp: parseRange_def split: option.splits if_splits)
  obtain a b ok where c: "cut ''-'' spec = (a, b, ok)" using prod_cases3 by blast
  have "CHR ''-'' \<notin> set a" using cut_before [OF c] by simp
  then have "parseInt64 a = Some v \<Longrightarrow> 0 \<le> v" for v using decimal_nonneg [of a v] by (auto simp: parseInt64_def split: option.splits if_splits)
  then show ?thesis using assms spec c by (auto simp: parseRange_def split: option.splits if_splits)
qed

text \<open>
  A range is served within the object. A range the store accepts is a stretch of the object
  that is not empty, whatever the header says - numbers too large for 64 bits included; the forms
  a client sends, from a first byte on, up to a last byte, and so many last bytes, each give the
  bytes they name, cut at the object's end; and a range that starts past the end is refused.
\<close>

theorem parseRange_exact:
  assumes "0 \<le> n"
  shows "(\<forall>h lo hi. parseRange h n = Some (lo, hi) \<longrightarrow> 0 \<le> lo \<and> lo < hi \<and> hi \<le> n) \<and>
    (\<forall>a. int a \<le> MaxInt64 \<longrightarrow> parseRange (''bytes='' @ utoa a @ ''-'') n = (if int a < n then Some (int a, n) else None)) \<and>
    (\<forall>a b. int b \<le> MaxInt64 \<longrightarrow> a \<le> b \<longrightarrow>
      parseRange (''bytes='' @ utoa a @ ''-'' @ utoa b) n = (if int a < n then Some (int a, min (int b + 1) n) else None)) \<and>
    (\<forall>k. int k \<le> MaxInt64 \<longrightarrow> 0 < k \<longrightarrow> parseRange (''bytes=-'' @ utoa k) n = (if 0 < n then Some (max 0 (n - int k), n) else None))"
proof (intro conjI allI impI)
  have no: "CHR '','' \<notin> set (utoa x)" "CHR ''-'' \<notin> set (utoa x)" for x by (simp_all add: utoa_no)
  have cp: "cutPrefix (''bytes='' @ s) ''bytes='' = Some s" for s by (simp add: cutPrefix_def hasPrefix_def)
  have nn: "utoa x \<noteq> []" for x using utoa_digits [of x] by simp
  have ct: "cut ''-'' (utoa x @ ''-'' @ s) = (utoa x, s, True)" for x s by (rule cut_first) (simp_all add: no)
  show "parseRange (''bytes='' @ utoa a @ ''-'') n = (if int a < n then Some (int a, n) else None)" if "int a \<le> MaxInt64" for a
    using ct [of a "[]"] cp [of "utoa a @ ''-''"] no nn parseInt64_utoa [OF that] by (simp add: parseRange_def)
  show "parseRange (''bytes='' @ utoa a @ ''-'' @ utoa b) n = (if int a < n then Some (int a, min (int b + 1) n) else None)"
    if h: "int b \<le> MaxInt64" "a \<le> b" for a b
  proof -
    have "parseInt64 (utoa a) = Some (int a)" using h by (intro parseInt64_utoa) simp
    then show ?thesis using ct [of a "utoa b"] cp [of "utoa a @ ''-'' @ utoa b"] no nn parseInt64_utoa [OF h(1)] h(2) by (auto simp: parseRange_def)
  qed
  show "parseRange (''bytes=-'' @ utoa k) n = (if 0 < n then Some (max 0 (n - int k), n) else None)" if h: "int k \<le> MaxInt64" "0 < k" for k
  proof -
    have "cut ''-'' (''-'' @ utoa k) = ([], utoa k, True)" using cut_first [of "''-''" "[]" "utoa k"] by simp
    then show ?thesis using cp [of "''-'' @ utoa k"] no parseInt64_utoa [OF h(1)] h(2) by (simp add: parseRange_def)
  qed
qed (use parseRange_within [OF _ assms] in blast)+

theorem parseRange_exact_witness:
  "parseRange (''bytes='' @ utoa 2 @ ''-'' @ utoa 100) 7 = Some (2, 7) \<and> parseRange (''bytes=-'' @ utoa 3) 7 = Some (4, 7)"
  using parseRange_exact [of 7] by (auto simp: MaxInt64_def)

end
