(* ===== verification/Obj_Store.thy ===== *)
theory Obj_Store
  imports Obj_Text
begin

text \<open>
  The object store of \<^verbatim>\<open>src/objstore/objstore.go\<close>: what it holds, and its handlers, each of which
  takes effect in one stretch under the store's lock and is so a function from the store and a
  request to the store after it, the response recorded and the event of the history. Go's maps
  are association lists. The parts of Go's libraries that the store calls and whose results it
  only passes on - MD5, XML and the formats of times - are the fields of a record of parameters.
\<close>

subsection \<open>Requests, responses and events\<close>

record lib =
  l_md5 :: "bytes \<Rightarrow> bytes"
  l_escape :: "string \<Rightarrow> string"
  l_quote :: "string \<Rightarrow> string"
  l_format :: "string \<Rightarrow> int \<Rightarrow> string"
  l_parseTime :: "string \<Rightarrow> int option"
  l_deletes :: "bytes \<Rightarrow> string + (bool \<times> string list)"
  l_complete :: "bytes \<Rightarrow> string + (int \<times> string) list"

type_synonym header = "(string \<times> string list) list"

record http_request =
  hMethod :: string
  hPath :: string
  hQuery :: header
  hHeader :: header
  hBody :: "bytes option"

definition headerGet :: "header \<Rightarrow> string \<Rightarrow> string" where
  "headerGet h name = (case map_of h name of Some (v # vs) \<Rightarrow> v | _ \<Rightarrow> [])"

abbreviation hdr :: "http_request \<Rightarrow> string \<Rightarrow> string" where
  "hdr r name \<equiv> headerGet (hHeader r) name"

abbreviation query :: "http_request \<Rightarrow> string \<Rightarrow> string" where
  "query r name \<equiv> headerGet (hQuery r) name"

definition queryHas :: "http_request \<Rightarrow> string \<Rightarrow> bool" where
  "queryHas r name \<longleftrightarrow> name \<in> fst ` set (hQuery r)"

type_synonym OpKind = string

definition Mutating :: "OpKind \<Rightarrow> bool" where
  "Mutating op \<longleftrightarrow> op \<in> {''put'', ''copy'', ''delete'', ''deletes'', ''mp-complete'', ''bucket''}"

record request =
  rq_op :: OpKind
  rq_client :: string
  rq_bucket :: string
  rq_key :: string
  rq_uploadID :: string
  rq_part :: int
  rq_match :: string

record Event =
  ev_seq :: int
  ev_start :: int
  ev_end :: int
  ev_client :: string
  ev_op :: OpKind
  ev_bucket :: string
  ev_key :: string
  ev_keys :: "string list"
  ev_cond :: string
  ev_range :: string
  ev_fault :: string
  ev_applied :: bool
  ev_status :: int
  ev_etag :: string
  ev_size :: int

record recorder =
  w_header :: "(string \<times> string) list"
  w_status :: int
  w_body :: bytes

definition newRecorder :: recorder where
  "newRecorder = \<lparr>w_header = [], w_status = 0, w_body = []\<rparr>"

definition setHeader :: "string \<Rightarrow> string \<Rightarrow> recorder \<Rightarrow> recorder" where
  "setHeader k v w = w\<lparr>w_header := AList.update k v (w_header w)\<rparr>"

definition writeHeader :: "int \<Rightarrow> recorder \<Rightarrow> recorder" where
  "writeHeader status w = (if w_status w = 0 then w\<lparr>w_status := status\<rparr> else w)"

definition writeBody :: "bytes \<Rightarrow> recorder \<Rightarrow> recorder" where
  "writeBody p w = (writeHeader 200 w)\<lparr>w_body := w_body w @ p\<rparr>"

definition xmlHead :: string where
  "xmlHead = ''<?xml version='' @ quote ''1.0'' @ '' encoding='' @ quote ''UTF-8'' @ ''?>''"

definition writeError :: "lib \<Rightarrow> int \<Rightarrow> string \<Rightarrow> string \<Rightarrow> recorder \<Rightarrow> recorder" where
  "writeError L status code msg w =
     writeBody (xmlHead @ ''<Error><Code>'' @ code @ ''</Code><Message>'' @ l_escape L msg @ ''</Message></Error>'')
       (writeHeader status (setHeader ''Content-Type'' ''application/xml'' w))"

definition writeXML :: "string \<Rightarrow> recorder \<Rightarrow> recorder" where
  "writeXML text w = writeBody (xmlHead @ text) (setHeader ''Content-Type'' ''application/xml'' w)"

subsection \<open>What the store holds\<close>

record Object =
  oKey :: string
  oSize :: int
  oETag :: string
  oLastModified :: int
  oMeta :: "(string \<times> string) list"
  oContentType :: string

record object = Object +
  oData :: bytes

record upload =
  u_bucket :: string
  u_key :: string
  u_header :: header
  u_parts :: "(int \<times> bytes) list"

type_synonym bucket = "(string \<times> object) list"

record store =
  st_unique :: bool
  st_buckets :: "(string \<times> bucket) list"
  st_uploads :: "(string \<times> upload) list"
  st_nextID :: int64

definition newStore :: "bool \<Rightarrow> store" where
  "newStore unique = \<lparr>st_unique = unique, st_buckets = [], st_uploads = [], st_nextID = 0\<rparr>"

abbreviation bucketOf :: "store \<Rightarrow> string \<Rightarrow> bucket option" where
  "bucketOf s name \<equiv> map_of (st_buckets s) name"

definition setBucket :: "store \<Rightarrow> string \<Rightarrow> bucket \<Rightarrow> store" where
  "setBucket s name b = s\<lparr>st_buckets := AList.update name b (st_buckets s)\<rparr>"

definition objectAt :: "store \<Rightarrow> string \<Rightarrow> string \<Rightarrow> object option" where
  "objectAt s name k = (case bucketOf s name of Some b \<Rightarrow> map_of b k | None \<Rightarrow> None)"

definition copyInfo :: "object \<Rightarrow> Object" where
  "copyInfo o' = Object.truncate o'"

definition CreateBucket :: "string \<Rightarrow> store \<Rightarrow> store" where
  "CreateBucket name s = (if bucketOf s name = None then setBucket s name [] else s)"

definition GetObject :: "store \<Rightarrow> string \<Rightarrow> string \<Rightarrow> (bytes \<times> Object) option" where
  "GetObject s name k = map_option (\<lambda>o'. (oData o', copyInfo o')) (objectAt s name k)"

definition ListObjects :: "store \<Rightarrow> string \<Rightarrow> string \<Rightarrow> Object list" where
  "ListObjects s name pfx = (case bucketOf s name of
     Some b \<Rightarrow> sort_key oKey (map (\<lambda>(k, o'). copyInfo o') (filter (\<lambda>(k, o'). hasPrefix k pfx) b))
   | None \<Rightarrow> [])"

definition Usage :: "store \<Rightarrow> int \<times> int" where
  "Usage s = foldl (\<lambda>(n, bs) (name, b). foldl (\<lambda>(n, bs) (k, o'). (n + 1, bs + oSize o')) (n, bs) b) (0, 0) (st_buckets s)"

definition WriteTar :: "store \<Rightarrow> (string \<times> int \<times> int \<times> bytes) list" where
  "WriteTar s = concat (map (\<lambda>(name, b). map (\<lambda>(k, o'). (name @ ''/'' @ k, oSize o', oLastModified o', oData o')) (sort_key fst b))
     (sort_key fst (st_buckets s)))"

subsection \<open>Conditions and tags\<close>

definition precondition :: "lib \<Rightarrow> http_request \<Rightarrow> object option \<Rightarrow> recorder \<Rightarrow> bool \<times> recorder" where
  "precondition L r cur w =
     (if hdr r ''If-None-Match'' \<noteq> [] \<and> hdr r ''If-None-Match'' \<noteq> ''*''
        then (False, writeError L 501 ''NotImplemented'' ''If-None-Match on a write takes only *'' w)
      else if hdr r ''If-None-Match'' \<noteq> [] \<and> cur \<noteq> None
        then (False, writeError L 412 ''PreconditionFailed'' ''the object exists'' w)
      else if hdr r ''If-Match'' \<noteq> [] then
        (case cur of
           None \<Rightarrow> (False, writeError L 404 ''NoSuchKey'' ''no such key'' w)
         | Some o' \<Rightarrow> if \<not> etagMatch (hdr r ''If-Match'') (oETag o')
             then (False, writeError L 412 ''PreconditionFailed'' ''the ETag does not match'' w)
             else (True, w))
      else (True, w))"

definition sourceCondition :: "lib \<Rightarrow> http_request \<Rightarrow> object \<Rightarrow> recorder \<Rightarrow> bool \<times> recorder" where
  "sourceCondition L r src w =
     (case find (\<lambda>h. hdr r h \<noteq> []) [''X-Amz-Copy-Source-If-Modified-Since'', ''X-Amz-Copy-Source-If-Unmodified-Since''] of
        Some h \<Rightarrow> (False, writeError L 501 ''NotImplemented'' (''a copy takes no '' @ h) w)
      | None \<Rightarrow>
          if hdr r ''X-Amz-Copy-Source-If-Match'' \<noteq> [] \<and> \<not> etagMatch (hdr r ''X-Amz-Copy-Source-If-Match'') (oETag src)
            then (False, writeError L 412 ''PreconditionFailed'' ''the source's ETag does not match'' w)
          else if hdr r ''X-Amz-Copy-Source-If-None-Match'' \<noteq> [] \<and> etagMatch (hdr r ''X-Amz-Copy-Source-If-None-Match'') (oETag src)
            then (False, writeError L 412 ''PreconditionFailed'' ''the source's ETag matches'' w)
          else (True, w))"

definition meta :: "header \<Rightarrow> (string \<times> string) list" where
  "meta h = foldl (\<lambda>m (k, v). case cutPrefix (toLower k) ''x-amz-meta-'' of
     Some name \<Rightarrow> (case v of x # _ \<Rightarrow> AList.update name x m | [] \<Rightarrow> m)
   | None \<Rightarrow> m) [] h"

definition hexID :: "int64 \<Rightarrow> string" where
  "hexID n = (if 0 \<le> sint n then hex016 (nat (sint n))
     else let ds = hexNat (nat (- sint n)) in CHR ''-'' # replicate (15 - length ds) CHR ''0'' @ ds)"

definition md5Tag :: "lib \<Rightarrow> bytes \<Rightarrow> string" where
  "md5Tag L d = quote (hexEncode (l_md5 L d))"

definition etag :: "lib \<Rightarrow> bytes \<Rightarrow> store \<Rightarrow> string \<times> store" where
  "etag L d s = (if st_unique s
     then let n = st_nextID s + 1 in (quote (hexID n), s\<lparr>st_nextID := n\<rparr>)
     else (md5Tag L d, s))"

definition noBucket :: "lib \<Rightarrow> string \<Rightarrow> recorder \<Rightarrow> recorder" where
  "noBucket L name w = writeError L 404 ''NoSuchBucket'' (''no such bucket: '' @ name) w"

subsection \<open>The handlers\<close>

type_synonym outcome3 = "store \<times> recorder \<times> Event"

definition bucketOp :: "lib \<Rightarrow> http_request \<Rightarrow> request \<Rightarrow> Event \<Rightarrow> store \<Rightarrow> outcome3" where
  "bucketOp L r req ev s =
     (let b = bucketOf s (rq_bucket req); w = newRecorder in
      if hMethod r = ''PUT'' then
        (case b of
           None \<Rightarrow> (setBucket s (rq_bucket req) [], writeHeader 200 w, ev\<lparr>ev_applied := True\<rparr>)
         | Some _ \<Rightarrow> (s, writeHeader 200 w, ev))
      else if hMethod r = ''HEAD'' then (s, writeHeader (if b = None then 404 else 200) w, ev)
      else if hMethod r = ''DELETE'' then
        (case b of
           None \<Rightarrow> (s, writeError L 404 ''NoSuchBucket'' ''no such bucket'' w, ev)
         | Some objs \<Rightarrow>
             if objs \<noteq> [] then (s, writeError L 409 ''BucketNotEmpty'' ''bucket not empty'' w, ev)
             else (s\<lparr>st_buckets := AList.delete (rq_bucket req) (st_buckets s)\<rparr>, writeHeader 204 w, ev\<lparr>ev_applied := True\<rparr>))
      else (s, writeError L 405 ''MethodNotAllowed'' ''unsupported request'' w, ev))"

definition put :: "lib \<Rightarrow> int \<Rightarrow> http_request \<Rightarrow> request \<Rightarrow> bytes \<Rightarrow> Event \<Rightarrow> store \<Rightarrow> outcome3" where
  "put L now r req body ev s =
     (case bucketOf s (rq_bucket req) of
        None \<Rightarrow> (s, noBucket L (rq_bucket req) newRecorder, ev)
      | Some b \<Rightarrow>
          (case precondition L r (map_of b (rq_key req)) newRecorder of
             (False, w) \<Rightarrow> (s, w, ev)
           | (True, w) \<Rightarrow>
               (case etag L body s of (tag, s1) \<Rightarrow>
                  let o' = \<lparr>oKey = rq_key req, oSize = int (length body), oETag = tag, oLastModified = now, oMeta = meta (hHeader r),
                        oContentType = hdr r ''Content-Type'', oData = body\<rparr>
                  in (setBucket s1 (rq_bucket req) (AList.update (rq_key req) o' b),
                      writeHeader 200 (setHeader ''ETag'' tag w),
                      ev\<lparr>ev_applied := True, ev_size := oSize o'\<rparr>))))"

definition copyText :: "lib \<Rightarrow> int \<Rightarrow> string \<Rightarrow> string" where
  "copyText L now tag = ''<CopyObjectResult><LastModified>'' @ l_format L ''RFC3339Nano'' now @ ''</LastModified><ETag>'' @ l_escape L tag @
     ''</ETag></CopyObjectResult>''"

definition copySource :: "http_request \<Rightarrow> string" where
  "copySource r = (let src = hdr r ''X-Amz-Copy-Source'' in case pathUnescape src of Some u \<Rightarrow> u | None \<Rightarrow> src)"

definition copyConditions :: "lib \<Rightarrow> http_request \<Rightarrow> object \<Rightarrow> object option \<Rightarrow> recorder \<Rightarrow> bool \<times> recorder" where
  "copyConditions L r src cur w = (case sourceCondition L r src w of
     (False, w1) \<Rightarrow> (False, w1) | (True, w1) \<Rightarrow> precondition L r cur w1)"

definition copy :: "lib \<Rightarrow> int \<Rightarrow> http_request \<Rightarrow> request \<Rightarrow> Event \<Rightarrow> store \<Rightarrow> outcome3" where
  "copy L now r req ev s =
     (let src = copySource r in
      case cut ''/'' (trimPrefix src ''/'') of (srcBucket, srcKey, _) \<Rightarrow>
      case bucketOf s (rq_bucket req) of
        None \<Rightarrow> (s, noBucket L (rq_bucket req) newRecorder, ev)
      | Some b \<Rightarrow>
          (case objectAt s srcBucket srcKey of
             None \<Rightarrow> (s, writeError L 404 ''NoSuchKey'' (''no such key: '' @ src) newRecorder, ev)
           | Some from' \<Rightarrow>
               (case copyConditions L r from' (map_of b (rq_key req)) newRecorder of
                  (False, w) \<Rightarrow> (s, w, ev)
                | (True, w) \<Rightarrow>
                    (case (if st_unique s then etag L (oData from') s else (oETag from', s)) of (tag, s1) \<Rightarrow>
                       let replace = (hdr r ''X-Amz-Metadata-Directive'' = ''REPLACE'');
                           o' = \<lparr>oKey = rq_key req, oSize = oSize from', oETag = tag, oLastModified = now,
                             oMeta = (if replace then meta (hHeader r) else oMeta from'),
                             oContentType = (if replace then hdr r ''Content-Type'' else oContentType from'), oData = oData from'\<rparr>
                       in (setBucket s1 (rq_bucket req) (AList.update (rq_key req) o' b),
                           writeXML (copyText L now tag) w,
                           ev\<lparr>ev_applied := True, ev_size := oSize o'\<rparr>)))))"

definition truncateSecond :: "int \<Rightarrow> int" where
  "truncateSecond t = t - t mod 1000000000"

text \<open>What follows the lock in a read: the conditions, then the object or a range of it.\<close>

definition getConditions :: "lib \<Rightarrow> http_request \<Rightarrow> object \<Rightarrow> recorder \<Rightarrow> recorder option" where
  "getConditions L r o' w =
     (if hdr r ''If-Match'' \<noteq> [] \<and> \<not> etagMatch (hdr r ''If-Match'') (oETag o')
        then Some (writeError L 412 ''PreconditionFailed'' ''the ETag does not match'' w)
      else if hdr r ''If-None-Match'' \<noteq> [] \<and> etagMatch (hdr r ''If-None-Match'') (oETag o')
        then Some (writeHeader 304 (setHeader ''ETag'' (oETag o') w))
      else if hdr r ''If-Unmodified-Since'' \<noteq> [] \<and>
          (case l_parseTime L (hdr r ''If-Unmodified-Since'') of Some t \<Rightarrow> truncateSecond (oLastModified o') > t | None \<Rightarrow> False)
        then Some (writeError L 412 ''PreconditionFailed'' ''modified since'' w)
      else if hdr r ''If-Modified-Since'' \<noteq> [] \<and>
          (case l_parseTime L (hdr r ''If-Modified-Since'') of Some t \<Rightarrow> \<not> truncateSecond (oLastModified o') > t | None \<Rightarrow> False)
        then Some (writeHeader 304 w)
      else None)"

definition getHeaders :: "lib \<Rightarrow> object \<Rightarrow> recorder \<Rightarrow> recorder" where
  "getHeaders L o' w =
     (let w1 = setHeader ''Accept-Ranges'' ''bytes'' (setHeader ''Last-Modified'' (l_format L ''http'' (oLastModified o')) (setHeader ''ETag'' (oETag o') w));
          w2 = (if oContentType o' \<noteq> [] then setHeader ''Content-Type'' (oContentType o') w1 else w1)
      in foldl (\<lambda>w (k, v). setHeader (''x-amz-meta-'' @ k) v w) w2 (oMeta o'))"

definition slice :: "int \<Rightarrow> int \<Rightarrow> bytes \<Rightarrow> bytes" where
  "slice lo hi d = drop (nat lo) (take (nat hi) d)"

definition rangeText :: "int \<Rightarrow> int \<Rightarrow> int \<Rightarrow> string" where
  "rangeText start end' n = ''bytes '' @ itoa start @ ''-'' @ itoa (end' - 1) @ ''/'' @ itoa n"

definition serveObject :: "lib \<Rightarrow> http_request \<Rightarrow> request \<Rightarrow> object \<Rightarrow> Event \<Rightarrow> recorder \<times> Event" where
  "serveObject L r req o' ev =
     (let w = getHeaders L o' newRecorder; n = int (length (oData o')); rg = hdr r ''Range'' in
      case (if rg = [] then Some (0, n) else parseRange rg n) of
        None \<Rightarrow> (writeError L 416 ''InvalidRange'' ''the range is not satisfiable'' (setHeader ''Content-Range'' (''bytes */'' @ itoa n) w), ev)
      | Some (start, end') \<Rightarrow>
          let d = slice start end' (oData o');
              w1 = (if rg = [] then w
                else setHeader ''Content-Range'' (rangeText start end' n) w);
              w2 = writeHeader (if rg = [] then 200 else 206) (setHeader ''Content-Length'' (itoa (int (length d))) w1)
          in if rq_op req = ''get'' then (writeBody d w2, ev\<lparr>ev_size := int (length d)\<rparr>) else (w2, ev))"

definition getOp :: "lib \<Rightarrow> http_request \<Rightarrow> request \<Rightarrow> Event \<Rightarrow> store \<Rightarrow> outcome3" where
  "getOp L r req ev s =
     (case bucketOf s (rq_bucket req) of
        None \<Rightarrow> (s, noBucket L (rq_bucket req) newRecorder, ev)
      | Some b \<Rightarrow>
          (case map_of b (rq_key req) of
             None \<Rightarrow> (s, if rq_op req = ''head'' then writeHeader 404 newRecorder else writeError L 404 ''NoSuchKey'' ''no such key'' newRecorder, ev)
           | Some o' \<Rightarrow>
               (case getConditions L r o' newRecorder of
                  Some w \<Rightarrow> (s, w, ev)
                | None \<Rightarrow> (case serveObject L r req o' ev of (w, ev') \<Rightarrow> (s, w, ev')))))"

definition deleteOp :: "lib \<Rightarrow> request \<Rightarrow> Event \<Rightarrow> store \<Rightarrow> outcome3" where
  "deleteOp L req ev s =
     (case bucketOf s (rq_bucket req) of
        None \<Rightarrow> (s, noBucket L (rq_bucket req) newRecorder, ev)
      | Some b \<Rightarrow>
          if map_of b (rq_key req) \<noteq> None
          then (setBucket s (rq_bucket req) (AList.delete (rq_key req) b), writeHeader 204 newRecorder, ev\<lparr>ev_applied := True\<rparr>)
          else (s, writeHeader 204 newRecorder, ev))"

text \<open>\<open>parseDeletes\<close> and \<open>parseComplete\<close> on what the XML decoder gives.\<close>

definition parseDeletes :: "lib \<Rightarrow> bytes \<Rightarrow> string + (string list \<times> bool)" where
  "parseDeletes L body = (case l_deletes L body of Inl e \<Rightarrow> Inl e | Inr (quiet, ks) \<Rightarrow> Inr (ks, quiet))"

definition parseComplete :: "lib \<Rightarrow> bytes \<Rightarrow> string + (int \<times> string) list" where
  "parseComplete L body = (case l_complete L body of
     Inl e \<Rightarrow> Inl e | Inr ps \<Rightarrow> if ps = [] then Inl ''no parts'' else Inr ps)"

definition deleteKeys :: "string list \<Rightarrow> bucket \<Rightarrow> bucket \<times> string list" where
  "deleteKeys ks b = foldl (\<lambda>(b, deleted) k. if map_of b k \<noteq> None then (AList.delete k b, deleted @ [k]) else (b, deleted)) (b, []) ks"

definition deletesText :: "lib \<Rightarrow> string list \<Rightarrow> bool \<Rightarrow> string" where
  "deletesText L ks quiet = ''<DeleteResult xmlns='' @ quote ''http://s3.amazonaws.com/doc/2006-03-01/'' @ ''>'' @
     (if quiet then [] else concat (map (\<lambda>k. ''<Deleted><Key>'' @ l_escape L k @ ''</Key></Deleted>'') ks)) @ ''</DeleteResult>''"

definition deletes :: "lib \<Rightarrow> request \<Rightarrow> bytes \<Rightarrow> Event \<Rightarrow> store \<Rightarrow> outcome3" where
  "deletes L req body ev s =
     (case parseDeletes L body of
        Inl e \<Rightarrow> (s, writeError L 400 ''MalformedXML'' e newRecorder, ev)
      | Inr (ks, quiet) \<Rightarrow>
          (case bucketOf s (rq_bucket req) of
             None \<Rightarrow> (s, noBucket L (rq_bucket req) newRecorder, ev)
           | Some b \<Rightarrow>
               (case deleteKeys ks b of (b', deleted) \<Rightarrow>
                  (setBucket s (rq_bucket req) b',
                   writeXML (deletesText L ks quiet) newRecorder,
                   ev\<lparr>ev_applied := (deleted \<noteq> []), ev_keys := deleted\<rparr>))))"

subsection \<open>Listing\<close>

datatype list_entry = LObject Object | LPrefix string

text \<open>The prefix a key is grouped under, empty when it is listed itself.\<close>

definition groupOf :: "string \<Rightarrow> string \<Rightarrow> string \<Rightarrow> string" where
  "groupOf pfx delim k = (if delim = [] then []
     else case indexOf (drop (length pfx) k) delim of Some i \<Rightarrow> take (length pfx + i + length delim) k | None \<Rightarrow> [])"

definition lastRune :: string where
  "lastRune = [byte 0xF4, byte 0x8F, byte 0xBF, byte 0xBF]"

fun listLoop :: "bucket \<Rightarrow> string \<Rightarrow> string \<Rightarrow> string \<Rightarrow> nat \<Rightarrow> string list \<Rightarrow> string set \<Rightarrow> list_entry list \<Rightarrow> string \<Rightarrow> list_entry list \<times> bool \<times> string" where
  "listLoop b pfx delim startAfter maxKeys [] seen' entries next' = (entries, False, next')"
| "listLoop b pfx delim startAfter maxKeys (k # ks) seen' entries next' =
     (let g = groupOf pfx delim k in
      if g \<noteq> [] \<and> (g \<in> seen' \<or> g \<le> startAfter) then listLoop b pfx delim startAfter maxKeys ks seen' entries next'
      else if length entries = maxKeys then (entries, True, next')
      else if g \<noteq> [] then listLoop b pfx delim startAfter maxKeys ks (insert g seen') (entries @ [LPrefix g]) (g @ lastRune)
      else listLoop b pfx delim startAfter maxKeys ks seen' (entries @ [LObject (copyInfo (the (map_of b k)))]) k)"

definition listAfter :: "http_request \<Rightarrow> string" where
  "listAfter r = (let after = query r ''start-after''; tok = query r ''continuation-token'' in if tok \<noteq> [] then max after tok else after)"

definition listMax :: "http_request \<Rightarrow> nat" where
  "listMax r = (case atoi (query r ''max-keys'') of (v, ok) \<Rightarrow> if ok \<and> 0 \<le> v \<and> v < 1000 then nat v else 1000)"

definition listKeys :: "bucket \<Rightarrow> string \<Rightarrow> string \<Rightarrow> string list" where
  "listKeys b pfx after = sort (filter (\<lambda>k. hasPrefix k pfx \<and> after < k) (map fst b))"

definition listPage :: "bucket \<Rightarrow> http_request \<Rightarrow> list_entry list \<times> bool \<times> string" where
  "listPage b r = listLoop b (query r ''prefix'') (query r ''delimiter'') (query r ''start-after'') (listMax r)
     (listKeys b (query r ''prefix'') (listAfter r)) {} [] []"

definition entryText :: "lib \<Rightarrow> list_entry \<Rightarrow> string" where
  "entryText L e = (case e of
     LPrefix p \<Rightarrow> ''<CommonPrefixes><Prefix>'' @ l_escape L p @ ''</Prefix></CommonPrefixes>''
   | LObject o' \<Rightarrow> ''<Contents><Key>'' @ l_escape L (oKey o') @ ''</Key><LastModified>'' @ l_format L ''2006-01-02T15:04:05.000Z'' (oLastModified o') @
       ''</LastModified><ETag>'' @ l_escape L (oETag o') @ ''</ETag><Size>'' @ itoa (oSize o') @ ''</Size><StorageClass>STANDARD</StorageClass></Contents>'')"

definition boolText :: "bool \<Rightarrow> string" where
  "boolText b = (if b then ''true'' else ''false'')"

definition listText :: "lib \<Rightarrow> http_request \<Rightarrow> request \<Rightarrow> list_entry list \<Rightarrow> bool \<Rightarrow> string \<Rightarrow> string" where
  "listText L r req entries truncated next' =
     ''<ListBucketResult xmlns='' @ quote ''http://s3.amazonaws.com/doc/2006-03-01/'' @ ''>'' @
     ''<Name>'' @ l_escape L (rq_bucket req) @ ''</Name><Prefix>'' @ l_escape L (query r ''prefix'') @ ''</Prefix><KeyCount>'' @
     itoa (int (length entries)) @ ''</KeyCount><MaxKeys>'' @ itoa (int (listMax r)) @ ''</MaxKeys><IsTruncated>'' @ boolText truncated @ ''</IsTruncated>'' @
     (if query r ''delimiter'' \<noteq> [] then ''<Delimiter>'' @ l_escape L (query r ''delimiter'') @ ''</Delimiter>'' else []) @
     (if truncated then ''<NextContinuationToken>'' @ l_escape L next' @ ''</NextContinuationToken>'' else []) @
     concat (map (entryText L) entries) @ ''</ListBucketResult>''"

definition uploadsText :: "lib \<Rightarrow> request \<Rightarrow> string" where
  "uploadsText L req = ''<ListMultipartUploadsResult><Bucket>'' @ l_escape L (rq_bucket req) @
     ''</Bucket><IsTruncated>false</IsTruncated></ListMultipartUploadsResult>''"

definition listOp :: "lib \<Rightarrow> http_request \<Rightarrow> request \<Rightarrow> Event \<Rightarrow> store \<Rightarrow> outcome3" where
  "listOp L r req ev s =
     (if query r ''list-type'' \<noteq> ''2'' \<and> queryHas r ''uploads''
      then (s, writeXML (uploadsText L req) newRecorder, ev)
      else (case bucketOf s (rq_bucket req) of
          None \<Rightarrow> (s, noBucket L (rq_bucket req) newRecorder, ev)
        | Some b \<Rightarrow> (case listPage b r of (entries, truncated, next') \<Rightarrow> (s, writeXML (listText L r req entries truncated next') newRecorder, ev))))"

subsection \<open>Multipart uploads\<close>

definition createText :: "lib \<Rightarrow> request \<Rightarrow> string \<Rightarrow> string" where
  "createText L req id' = ''<InitiateMultipartUploadResult><Bucket>'' @ l_escape L (rq_bucket req) @ ''</Bucket><Key>'' @ l_escape L (rq_key req) @
     ''</Key><UploadId>'' @ id' @ ''</UploadId></InitiateMultipartUploadResult>''"

definition uploadID :: "int64 \<Rightarrow> string" where
  "uploadID n = ''upload-'' @ itoa (sint n)"

definition createMP :: "lib \<Rightarrow> http_request \<Rightarrow> request \<Rightarrow> Event \<Rightarrow> store \<Rightarrow> outcome3" where
  "createMP L r req ev s =
     (case bucketOf s (rq_bucket req) of
        None \<Rightarrow> (s, noBucket L (rq_bucket req) newRecorder, ev)
      | Some b \<Rightarrow>
          let n = st_nextID s + 1; id' = uploadID n in
          (s\<lparr>st_nextID := n, st_uploads := AList.update id' \<lparr>u_bucket = rq_bucket req, u_key = rq_key req, u_header = hHeader r, u_parts = []\<rparr> (st_uploads s)\<rparr>,
           writeXML (createText L req id') newRecorder, ev))"

definition uploadOf :: "store \<Rightarrow> request \<Rightarrow> upload option" where
  "uploadOf s req = (case map_of (st_uploads s) (rq_uploadID req) of
     Some u \<Rightarrow> if u_bucket u \<noteq> rq_bucket req \<or> u_key u \<noteq> rq_key req then None else Some u
   | None \<Rightarrow> None)"

definition putPart :: "lib \<Rightarrow> request \<Rightarrow> bytes \<Rightarrow> Event \<Rightarrow> store \<Rightarrow> outcome3" where
  "putPart L req body ev s =
     (case uploadOf s req of
        None \<Rightarrow> (s, writeError L 404 ''NoSuchUpload'' ''no such upload'' newRecorder, ev)
      | Some u \<Rightarrow>
          if rq_part req < 1 \<or> rq_part req > 10000 then (s, writeError L 400 ''InvalidArgument'' ''bad part number'' newRecorder, ev)
          else (s\<lparr>st_uploads := AList.update (rq_uploadID req) (u\<lparr>u_parts := AList.update (rq_part req) body (u_parts u)\<rparr>) (st_uploads s)\<rparr>,
            writeHeader 200 (setHeader ''ETag'' (md5Tag L body) newRecorder), ev))"

text \<open>The parts in the order the request names them: their bytes and their sums, or what is wrong.\<close>

fun joinParts :: "lib \<Rightarrow> upload \<Rightarrow> int option \<Rightarrow> (int \<times> string) list \<Rightarrow> string + (bytes \<times> bytes)" where
  "joinParts L u prev [] = Inr ([], [])"
| "joinParts L u prev ((n, tag) # ps) =
     (case map_of (u_parts u) n of
        None \<Rightarrow> Inl ''a part is missing or out of order''
      | Some chunk \<Rightarrow>
          if (case prev of Some p \<Rightarrow> n \<le> p | None \<Rightarrow> False) then Inl ''a part is missing or out of order''
          else if \<not> etagMatch tag (md5Tag L chunk) then Inl ''a part's ETag does not match''
          else (case joinParts L u (Some n) ps of
              Inl e \<Rightarrow> Inl e
            | Inr (d, mds) \<Rightarrow> Inr (chunk @ d, l_md5 L chunk @ mds)))"

definition completeText :: "lib \<Rightarrow> request \<Rightarrow> string \<Rightarrow> string" where
  "completeText L req tag = ''<CompleteMultipartUploadResult><Bucket>'' @ l_escape L (rq_bucket req) @ ''</Bucket><Key>'' @
     l_escape L (rq_key req) @ ''</Key><ETag>'' @ l_escape L tag @ ''</ETag></CompleteMultipartUploadResult>''"

definition partsTag :: "lib \<Rightarrow> bytes \<Rightarrow> nat \<Rightarrow> string" where
  "partsTag L mds n = quote (hexEncode (l_md5 L mds) @ ''-'' @ itoa (int n))"

definition complete :: "lib \<Rightarrow> int \<Rightarrow> http_request \<Rightarrow> request \<Rightarrow> bytes \<Rightarrow> Event \<Rightarrow> store \<Rightarrow> outcome3" where
  "complete L now r req body ev s =
     (case parseComplete L body of
        Inl e \<Rightarrow> (s, writeError L 400 ''MalformedXML'' e newRecorder, ev)
      | Inr parts \<Rightarrow>
          (case uploadOf s req of
             None \<Rightarrow> (s, writeError L 404 ''NoSuchUpload'' ''no such upload'' newRecorder, ev)
           | Some u \<Rightarrow>
               (case bucketOf s (rq_bucket req) of
                  None \<Rightarrow> (s, noBucket L (rq_bucket req) newRecorder, ev)
                | Some b \<Rightarrow>
                    (case precondition L r (map_of b (rq_key req)) newRecorder of
                       (False, w) \<Rightarrow> (s, w, ev)
                     | (True, w) \<Rightarrow>
                         (case joinParts L u None parts of
                            Inl e \<Rightarrow> (s, writeError L 400 ''InvalidPart'' e w, ev)
                          | Inr (d, mds) \<Rightarrow>
                              let s1 = s\<lparr>st_uploads := AList.delete (rq_uploadID req) (st_uploads s)\<rparr> in
                              (case (if st_unique s then etag L d s1
                                   else (partsTag L mds (length parts), s1)) of (tag, s2) \<Rightarrow>
                                 let o' = \<lparr>oKey = rq_key req, oSize = int (length d), oETag = tag, oLastModified = now, oMeta = meta (u_header u),
                                       oContentType = headerGet (u_header u) ''Content-Type'', oData = d\<rparr>
                                 in (setBucket s2 (rq_bucket req) (AList.update (rq_key req) o' b),
                                     writeXML (completeText L req tag) w,
                                     ev\<lparr>ev_applied := True, ev_size := oSize o'\<rparr>)))))))"

definition abortOp :: "request \<Rightarrow> Event \<Rightarrow> store \<Rightarrow> outcome3" where
  "abortOp req ev s = (s\<lparr>st_uploads := AList.delete (rq_uploadID req) (st_uploads s)\<rparr>, writeHeader 204 newRecorder, ev)"

subsection \<open>Dispatch\<close>

definition parse :: "http_request \<Rightarrow> request" where
  "parse r =
     (case cut ''/'' (trimPrefix (hPath r) ''/'') of (bkt, key, _) \<Rightarrow>
      let up = query r ''uploadId'' in
      \<lparr>rq_op =
         (if key = [] \<and> hMethod r = ''GET'' then ''list''
          else if key = [] \<and> hMethod r = ''POST'' \<and> queryHas r ''delete'' then ''deletes''
          else if key = [] then ''bucket''
          else if hMethod r = ''POST'' \<and> queryHas r ''uploads'' then ''mp-create''
          else if hMethod r = ''POST'' \<and> up \<noteq> [] then ''mp-complete''
          else if hMethod r = ''PUT'' \<and> up \<noteq> [] then ''mp-part''
          else if hMethod r = ''DELETE'' \<and> up \<noteq> [] then ''mp-abort''
          else if hMethod r = ''PUT'' \<and> hdr r ''X-Amz-Copy-Source'' \<noteq> [] then ''copy''
          else if hMethod r = ''PUT'' then ''put''
          else if hMethod r = ''GET'' then ''get''
          else if hMethod r = ''HEAD'' then ''head''
          else if hMethod r = ''DELETE'' then ''delete''
          else toLower (hMethod r)),
       rq_client = accessKey (hdr r ''Authorization''), rq_bucket = bkt, rq_key = key, rq_uploadID = up,
       rq_part = fst (atoi (query r ''partNumber'')), rq_match = []\<rparr>)"

definition awsChunked :: "header \<Rightarrow> bool" where
  "awsChunked h \<longleftrightarrow> hasPrefix (headerGet h ''X-Amz-Content-Sha256'') ''STREAMING-'' \<or>
     (case map_of h ''Content-Encoding'' of
        Some vs \<Rightarrow> list_ex (\<lambda>v. list_ex (\<lambda>e. foldCase (trimSpace e) = ''aws-chunked'') (splitOn CHR '','' v)) vs
      | None \<Rightarrow> False)"

definition handle :: "lib \<Rightarrow> int \<Rightarrow> http_request \<Rightarrow> request \<Rightarrow> bytes \<Rightarrow> Event \<Rightarrow> store \<Rightarrow> outcome3" where
  "handle L now r req body ev s =
     (let op = rq_op req in
      if op = ''bucket'' then bucketOp L r req ev s
      else if op = ''list'' then listOp L r req ev s
      else if op = ''deletes'' then deletes L req body ev s
      else if op = ''put'' then put L now r req body ev s
      else if op = ''copy'' then copy L now r req ev s
      else if op = ''get'' \<or> op = ''head'' then getOp L r req ev s
      else if op = ''delete'' then deleteOp L req ev s
      else if op = ''mp-create'' then createMP L r req ev s
      else if op = ''mp-part'' then putPart L req body ev s
      else if op = ''mp-complete'' then complete L now r req body ev s
      else if op = ''mp-abort'' then abortOp req ev s
      else (s, writeError L 405 ''MethodNotAllowed'' ''unsupported request'' newRecorder, ev))"

end
