(* ===== verification/Obj_Server.thy ===== *)
theory Obj_Server
  imports Obj_Store Torx_Spec
begin

text \<open>
  The server in front of the store: the rules that inject faults (\<^verbatim>\<open>src/objstore/fault.go\<close>), the
  life of a request in \<^verbatim>\<open>ServeHTTP\<close> (\<^verbatim>\<open>src/objstore/objstore.go\<close>) and the history. Requests are
  served concurrently, so the server is a step relation over the requests in flight: each step is
  a stretch of \<^verbatim>\<open>ServeHTTP\<close> between two points where others can act. What clients do, how long waits
  are, the clock and the random draws are whatever they are.
\<close>

subsection \<open>Rules\<close>

datatype fault_action = Fail | Drop | Delay | Stall | Hang | FailAfter | DropAfter | DelayAfter | OtherAction string

fun actionText :: "fault_action \<Rightarrow> string" where
  "actionText Fail = ''fail''"
| "actionText Drop = ''drop''"
| "actionText Delay = ''delay''"
| "actionText Stall = ''stall''"
| "actionText Hang = ''hang''"
| "actionText FailAfter = ''fail-after''"
| "actionText DropAfter = ''drop-after''"
| "actionText DelayAfter = ''delay-after''"
| "actionText (OtherAction a) = a"

record Rule =
  r_name :: string
  r_clients :: "string list"
  r_ops :: "OpKind list"
  r_prefix :: string
  r_prob :: float64
  r_action :: fault_action
  r_status :: int
  r_delay :: int

definition ruleStatus :: "Rule \<Rightarrow> int" where
  "ruleStatus r = (if r_status r \<noteq> 0 then r_status r else 500)"

definition float_le :: "float64 \<Rightarrow> float64 \<Rightarrow> bool" where
  "float_le a b \<longleftrightarrow> float_less a b \<or> (a = b \<and> a \<noteq> NaN)"

definition matches :: "Rule \<Rightarrow> request \<Rightarrow> bool" where
  "matches r req \<longleftrightarrow> \<not> float_le (r_prob r) (Fin 0) \<and>
     (r_clients r = [] \<or> rq_client req \<in> set (r_clients r)) \<and>
     (r_ops r = [] \<or> rq_op req \<in> set (r_ops r)) \<and>
     (r_prefix r = [] \<or> hasPrefix (rq_match req) (r_prefix r))"

text \<open>The first rule that matches and fires; the generator's draws are a sequence, and \<open>n\<close> is how many were made.\<close>

fun drawRule :: "(nat \<Rightarrow> float64) \<Rightarrow> (int \<times> Rule) list \<Rightarrow> request \<Rightarrow> nat \<Rightarrow> Rule option \<times> nat" where
  "drawRule rnd [] req n = (None, n)"
| "drawRule rnd ((i, r) # rs) req n =
     (if \<not> matches r req then drawRule rnd rs req n
      else if float_less (r_prob r) (Fin 1) then
        (if float_le (r_prob r) (rnd n) then drawRule rnd rs req (Suc n) else (Some r, Suc n))
      else (Some r, n))"

subsection \<open>Requests in flight\<close>

datatype answer = Reply recorder | HungUp | Silent

datatype phase =
    PBody
  | PHold Rule bytes
  | PEffect bytes
  | PAnswer recorder
  | PDone answer

record flight =
  f_http :: http_request
  f_req :: request
  f_ev :: Event
  f_fault :: "Rule option"
  f_phase :: phase

text \<open>The count of requests is kept exact: the source's has 64 bits, and wraps after \<open>2\<^sup>6\<^sup>3\<close> requests.\<close>

record server =
  sv_store :: store
  sv_rules :: "(int \<times> Rule) list"
  sv_ruleSeq :: int
  sv_rng :: nat
  sv_history :: "Event list"
  sv_seq :: int
  sv_closed :: bool
  sv_flights :: "flight list"

definition newServer :: "bool \<Rightarrow> server" where
  "newServer unique = \<lparr>sv_store = newStore unique, sv_rules = [], sv_ruleSeq = 0, sv_rng = 0, sv_history = [], sv_seq = 0, sv_closed = False, sv_flights = []\<rparr>"

definition AddRule :: "Rule \<Rightarrow> server \<Rightarrow> server \<times> int" where
  "AddRule r s = (let i = sv_ruleSeq s + 1 in (s\<lparr>sv_ruleSeq := i, sv_rules := sv_rules s @ [(i, r)]\<rparr>, i))"

definition RemoveRule :: "int \<Rightarrow> server \<Rightarrow> server" where
  "RemoveRule i s = s\<lparr>sv_rules := filter (\<lambda>(j, r). j \<noteq> i) (sv_rules s)\<rparr>"

definition ClearRules :: "server \<Rightarrow> server" where
  "ClearRules s = s\<lparr>sv_rules := []\<rparr>"

definition Rules :: "server \<Rightarrow> Rule list" where
  "Rules s = map snd (sv_rules s)"

definition Close :: "server \<Rightarrow> server" where
  "Close s = s\<lparr>sv_closed := True\<rparr>"

text \<open>\<open>History\<close> as it is read, and in the order the requests arrived as it is written.\<close>

definition History :: "server \<Rightarrow> Event list" where
  "History s = sv_history s"

definition WriteHistory :: "server \<Rightarrow> Event list" where
  "WriteHistory s = sort_key ev_seq (sv_history s)"

definition condText :: "http_request \<Rightarrow> string" where
  "condText r = foldl (\<lambda>cond h. if hdr r h \<noteq> [] then trimSpace (cond @ '' '' @ h @ '': '' @ hdr r h) else cond) []
     [''If-None-Match'', ''If-Match'', ''X-Amz-Copy-Source-If-Match'', ''X-Amz-Copy-Source-If-None-Match'']"

text \<open>A request taken in, up to the reading of its body; none is once the store is closed.\<close>

definition arrive :: "int \<Rightarrow> http_request \<Rightarrow> server \<Rightarrow> server" where
  "arrive now r s =
     (if sv_closed s then s
      else let req = parse r; n = sv_seq s + 1;
        ev = \<lparr>ev_seq = n, ev_start = now, ev_end = 0, ev_client = rq_client req, ev_op = rq_op req, ev_bucket = rq_bucket req, ev_key = rq_key req,
          ev_keys = [], ev_cond = condText r, ev_range = hdr r ''Range'', ev_fault = [], ev_applied = False, ev_status = 0, ev_etag = [], ev_size = 0\<rparr>
      in s\<lparr>sv_seq := n, sv_flights := sv_flights s @ [\<lparr>f_http = r, f_req = req, f_ev = ev, f_fault = None, f_phase = PBody\<rparr>]\<rparr>)"

text \<open>The end of a request: its status, then what the client gets.\<close>

definition ended :: "int \<Rightarrow> answer \<Rightarrow> flight \<Rightarrow> flight" where
  "ended status a f = f\<lparr>f_ev := (f_ev f)\<lparr>ev_status := status\<rparr>, f_phase := PDone a\<rparr>"

text \<open>
  The status of a rule is taken to be one a response can end with: of a status under 100 or
  over 999 the standard library makes a panic, and after one from 100 to 199 it answers 200.
\<close>

definition fail :: "lib \<Rightarrow> int \<Rightarrow> string \<Rightarrow> flight \<Rightarrow> flight" where
  "fail L status msg f = ended status (Reply (writeError L status
     (if status = 503 then ''SlowDown'' else if status = 403 then ''AccessDenied'' else ''InternalError'') msg newRecorder)) f"

definition matchText :: "lib \<Rightarrow> http_request \<Rightarrow> request \<Rightarrow> bytes \<Rightarrow> string" where
  "matchText L r req body =
     (if rq_op req = ''list'' then query r ''prefix''
      else if rq_op req = ''deletes'' then (case parseDeletes L body of Inr (k # ks, quiet) \<Rightarrow> k | _ \<Rightarrow> [])
      else rq_key req)"

definition chunkMsg :: "lib \<Rightarrow> chunk_error \<Rightarrow> string" where
  "chunkMsg L e = (case e of
     NoFinalChunk \<Rightarrow> ''aws-chunked body ends without a final chunk''
   | BadSize sz \<Rightarrow> ''aws-chunked chunk of size '' @ l_quote L sz
   | CutShort \<Rightarrow> ''aws-chunked chunk is cut short''
   | WrongLength n d \<Rightarrow> ''aws-chunked body decodes to '' @ itoa (int n) @ '' bytes, not the '' @ d @ '' of X-Amz-Decoded-Content-Length'')"

definition payload :: "http_request \<Rightarrow> bytes \<Rightarrow> chunk_error + bytes" where
  "payload r body = (if awsChunked (hHeader r) then unchunk body (hdr r ''X-Amz-Decoded-Content-Length'') else Inr body)"

text \<open>From the body to the fault: the request goes on, is held, or ends before it takes effect.\<close>

definition faulted :: "lib \<Rightarrow> Rule option \<Rightarrow> bytes \<Rightarrow> flight \<Rightarrow> flight" where
  "faulted L fault body f =
     (case fault of
        None \<Rightarrow> f\<lparr>f_phase := PEffect body\<rparr>
      | Some rl \<Rightarrow>
          let f1 = f\<lparr>f_ev := (f_ev f)\<lparr>ev_fault := r_name rl @ '':'' @ actionText (r_action rl)\<rparr>, f_fault := Some rl\<rparr> in
          (case r_action rl of
             Fail \<Rightarrow> fail L (ruleStatus rl) ''injected failure'' f1
           | Drop \<Rightarrow> ended (-1) HungUp f1
           | Delay \<Rightarrow> f1\<lparr>f_phase := PHold rl body\<rparr>
           | Stall \<Rightarrow> f1\<lparr>f_phase := PHold rl body\<rparr>
           | Hang \<Rightarrow> f1\<lparr>f_phase := PHold rl body\<rparr>
           | _ \<Rightarrow> f1\<lparr>f_phase := PEffect body\<rparr>))"

definition readBody :: "lib \<Rightarrow> (nat \<Rightarrow> float64) \<Rightarrow> server \<Rightarrow> flight \<Rightarrow> flight \<times> nat" where
  "readBody L rnd s f =
     (case hBody (f_http f) of
        None \<Rightarrow> (ended (-1) Silent f, sv_rng s)
      | Some raw \<Rightarrow>
          (case payload (f_http f) raw of
             Inl e \<Rightarrow> (ended 400 (Reply (writeError L 400 ''IncompleteBody'' (chunkMsg L e) newRecorder)) f, sv_rng s)
           | Inr body \<Rightarrow>
               let req = (f_req f)\<lparr>rq_match := matchText L (f_http f) (f_req f) body\<rparr> in
               (case drawRule rnd (sv_rules s) req (sv_rng s) of (fault, n) \<Rightarrow> (faulted L fault body (f\<lparr>f_req := req\<rparr>), n))))"

text \<open>The end of a fault's wait, waited out or not; a hung request is never served.\<close>

definition released :: "bool \<Rightarrow> Rule \<Rightarrow> bytes \<Rightarrow> flight \<Rightarrow> flight" where
  "released waited rl body f =
     (if waited \<and> r_action rl \<noteq> Hang then f\<lparr>f_phase := PEffect body\<rparr> else ended (-1) HungUp f)"

definition takeEffect :: "lib \<Rightarrow> int \<Rightarrow> bytes \<Rightarrow> flight \<Rightarrow> store \<Rightarrow> store \<times> flight" where
  "takeEffect L now body f st =
     (case handle L now (f_http f) (f_req f) body (f_ev f) st of (st', w, ev) \<Rightarrow>
        (st', f\<lparr>f_ev := ev\<lparr>ev_status := w_status w, ev_etag := (case map_of (w_header w) ''ETag'' of Some v \<Rightarrow> v | None \<Rightarrow> [])\<rparr>, f_phase := PAnswer w\<rparr>))"

definition flush :: "recorder \<Rightarrow> recorder" where
  "flush w = writeHeader 200 w"

definition answered :: "lib \<Rightarrow> bool \<Rightarrow> bool \<Rightarrow> recorder \<Rightarrow> flight \<Rightarrow> flight" where
  "answered L waited gone w f =
     (let reply = (if gone then ended (-1) Silent f else f\<lparr>f_phase := PDone (Reply (flush w))\<rparr>) in
      case f_fault f of
        None \<Rightarrow> reply
      | Some rl \<Rightarrow>
          (case r_action rl of
             FailAfter \<Rightarrow> fail L (ruleStatus rl) ''injected failure after the request took effect'' f
           | DropAfter \<Rightarrow> ended (-1) HungUp f
           | DelayAfter \<Rightarrow> if waited then reply else ended (-1) HungUp f
           | _ \<Rightarrow> reply))"

definition finishFlight :: "int \<Rightarrow> nat \<Rightarrow> server \<Rightarrow> server" where
  "finishFlight now i s = s\<lparr>sv_history := sv_history s @ [(f_ev (sv_flights s ! i))\<lparr>ev_end := now\<rparr>],
     sv_flights := take i (sv_flights s) @ drop (Suc i) (sv_flights s)\<rparr>"

subsection \<open>The server's steps\<close>

text \<open>
  What took effect, in the order it did: a bucket the job made, or a request, with the clock its
  handler read, its payload and its event.
\<close>

datatype effect = Created string | Served int http_request request bytes Event

fun applyEffect :: "lib \<Rightarrow> effect \<Rightarrow> store \<Rightarrow> store" where
  "applyEffect L (Created name) st = CreateBucket name st"
| "applyEffect L (Served now r req body ev) st = fst (handle L now r req body ev st)"

text \<open>What a step lets one see: nothing, something taking effect, or a request that is over.\<close>

datatype srv_label = Inner | Effect effect | Over flight

inductive srv_step :: "lib \<Rightarrow> (nat \<Rightarrow> float64) \<Rightarrow> server \<Rightarrow> srv_label \<Rightarrow> server \<Rightarrow> bool" for L rnd where
  arrives: "srv_step L rnd s Inner (arrive now r s)"
| creates: "srv_step L rnd s (Effect (Created name)) (s\<lparr>sv_store := CreateBucket name (sv_store s)\<rparr>)"
| adds: "srv_step L rnd s Inner (fst (AddRule rl s))"
| removes: "srv_step L rnd s Inner (RemoveRule i s)"
| clears: "srv_step L rnd s Inner (ClearRules s)"
| closes: "srv_step L rnd s Inner (Close s)"
| reads: "srv_step L rnd s Inner (s\<lparr>sv_rng := n, sv_flights := (sv_flights s)[i := f]\<rparr>)"
  if "i < length (sv_flights s)" "f_phase (sv_flights s ! i) = PBody" "readBody L rnd s (sv_flights s ! i) = (f, n)"
| holds: "srv_step L rnd s Inner (s\<lparr>sv_flights := (sv_flights s)[i := released waited rl body (sv_flights s ! i)]\<rparr>)"
  if "i < length (sv_flights s)" "f_phase (sv_flights s ! i) = PHold rl body" "\<not> waited \<longrightarrow> r_action rl \<noteq> Stall \<or> sv_closed s"
| effects: "srv_step L rnd s (Effect (Served now (f_http (sv_flights s ! i)) (f_req (sv_flights s ! i)) body (f_ev (sv_flights s ! i))))
    (s\<lparr>sv_store := st, sv_flights := (sv_flights s)[i := f]\<rparr>)"
  if "i < length (sv_flights s)" "f_phase (sv_flights s ! i) = PEffect body" "takeEffect L now body (sv_flights s ! i) (sv_store s) = (st, f)"
| answers: "srv_step L rnd s Inner (s\<lparr>sv_flights := (sv_flights s)[i := answered L waited gone w (sv_flights s ! i)]\<rparr>)"
  if "i < length (sv_flights s)" "f_phase (sv_flights s ! i) = PAnswer w"
| finishes: "srv_step L rnd s (Over (sv_flights s ! i)) (finishFlight now i s)"
  if "i < length (sv_flights s)" "f_phase (sv_flights s ! i) = PDone a"

inductive srv_runs :: "lib \<Rightarrow> (nat \<Rightarrow> float64) \<Rightarrow> bool \<Rightarrow> srv_label list \<Rightarrow> server \<Rightarrow> bool" for L rnd unique where
  starts: "srv_runs L rnd unique [] (newServer unique)"
| steps: "srv_runs L rnd unique ls s \<Longrightarrow> srv_step L rnd s l s' \<Longrightarrow> srv_runs L rnd unique (ls @ [l]) s'"

end
