(* ===== verification/Obj_Spec.thy ===== *)
theory Obj_Spec
  imports Obj_Server
begin

text \<open>
  What the object store promises: a map of buckets to maps of keys, on which every request acts
  at once. The three kinds of write - of a body, of a copy, of the parts of an upload - are one
  conditional write of different contents. The handlers implement it, and keep what the store
  holds in order.
\<close>

subsection \<open>The abstract store\<close>

record astore =
  a_objects :: "string \<rightharpoonup> (string \<rightharpoonup> object)"
  a_uploads :: "string \<rightharpoonup> upload"
  a_unique :: bool
  a_next :: int64

definition absStore :: "store \<Rightarrow> astore" where
  "absStore s = \<lparr>a_objects = (\<lambda>name. map_option map_of (bucketOf s name)), a_uploads = map_of (st_uploads s), a_unique = st_unique s, a_next = st_nextID s\<rparr>"

text \<open>When a write is let through, given what its key holds; and when a copy is, given its source.\<close>

definition putAllowed :: "http_request \<Rightarrow> object option \<Rightarrow> bool" where
  "putAllowed r cur \<longleftrightarrow> (hdr r ''If-None-Match'' = [] \<or> hdr r ''If-None-Match'' = ''*'' \<and> cur = None) \<and>
     (hdr r ''If-Match'' = [] \<or> (\<exists>o'. cur = Some o' \<and> etagMatch (hdr r ''If-Match'') (oETag o')))"

definition sourceAllowed :: "http_request \<Rightarrow> object \<Rightarrow> bool" where
  "sourceAllowed r src \<longleftrightarrow> hdr r ''X-Amz-Copy-Source-If-Modified-Since'' = [] \<and> hdr r ''X-Amz-Copy-Source-If-Unmodified-Since'' = [] \<and>
     (hdr r ''X-Amz-Copy-Source-If-Match'' = [] \<or> etagMatch (hdr r ''X-Amz-Copy-Source-If-Match'') (oETag src)) \<and>
     (hdr r ''X-Amz-Copy-Source-If-None-Match'' = [] \<or> \<not> etagMatch (hdr r ''X-Amz-Copy-Source-If-None-Match'') (oETag src))"

record heldContent =
  ct_data :: bytes
  ct_etag :: string
  ct_meta :: "(string \<times> string) list"
  ct_type :: string

definition putContent :: "lib \<Rightarrow> http_request \<Rightarrow> bytes \<Rightarrow> heldContent" where
  "putContent L r body = \<lparr>ct_data = body, ct_etag = md5Tag L body, ct_meta = meta (hHeader r), ct_type = hdr r ''Content-Type''\<rparr>"

definition copyContent :: "http_request \<Rightarrow> astore \<Rightarrow> heldContent option" where
  "copyContent r A = (case cut ''/'' (trimPrefix (copySource r) ''/'') of (b, k, _) \<Rightarrow>
     case a_objects A b of
       None \<Rightarrow> None
     | Some B \<Rightarrow> (case B k of
         None \<Rightarrow> None
       | Some src \<Rightarrow> if \<not> sourceAllowed r src then None
           else Some (if hdr r ''X-Amz-Metadata-Directive'' = ''REPLACE''
             then \<lparr>ct_data = oData src, ct_etag = oETag src, ct_meta = meta (hHeader r), ct_type = hdr r ''Content-Type''\<rparr>
             else \<lparr>ct_data = oData src, ct_etag = oETag src, ct_meta = oMeta src, ct_type = oContentType src\<rparr>)))"

definition a_upload :: "astore \<Rightarrow> request \<Rightarrow> upload option" where
  "a_upload A req = (case a_uploads A (rq_uploadID req) of
     Some u \<Rightarrow> if u_bucket u = rq_bucket req \<and> u_key u = rq_key req then Some u else None | None \<Rightarrow> None)"

text \<open>The parts a request names: in ascending order, each held and with the tag named. They make up the content.\<close>

definition partsHeld :: "lib \<Rightarrow> upload \<Rightarrow> (int \<times> string) list \<Rightarrow> bool" where
  "partsHeld L u parts \<longleftrightarrow> sorted_wrt (<) (map fst parts) \<and>
     (\<forall>(n, tag) \<in> set parts. case map_of (u_parts u) n of None \<Rightarrow> False | Some chunk \<Rightarrow> etagMatch tag (md5Tag L chunk))"

definition chunkOf :: "upload \<Rightarrow> int \<times> string \<Rightarrow> bytes" where
  "chunkOf u p = (case map_of (u_parts u) (fst p) of Some chunk \<Rightarrow> chunk | None \<Rightarrow> [])"

definition partsContent :: "lib \<Rightarrow> request \<Rightarrow> bytes \<Rightarrow> astore \<Rightarrow> heldContent option" where
  "partsContent L req body A = (case (parseComplete L body, a_upload A req) of
     (Inr parts, Some u) \<Rightarrow> if \<not> partsHeld L u parts then None
       else Some \<lparr>ct_data = concat (map (chunkOf u) parts),
         ct_etag = partsTag L (concat (map (\<lambda>p. l_md5 L (chunkOf u p)) parts)) (length parts),
         ct_meta = meta (u_header u), ct_type = headerGet (u_header u) ''Content-Type''\<rparr>
   | _ \<Rightarrow> None)"

definition condWrite :: "int \<Rightarrow> http_request \<Rightarrow> request \<Rightarrow> heldContent option \<Rightarrow> astore \<Rightarrow> astore option" where
  "condWrite now r req new A = (case (a_objects A (rq_bucket req), new) of
     (Some B, Some c) \<Rightarrow>
       if \<not> putAllowed r (B (rq_key req)) then None
       else let o' = \<lparr>oKey = rq_key req, oSize = int (length (ct_data c)),
                oETag = (if a_unique A then quote (hexID (a_next A + 1)) else ct_etag c), oLastModified = now,
                oMeta = ct_meta c, oContentType = ct_type c, oData = ct_data c\<rparr>
            in Some (A\<lparr>a_objects := (a_objects A)(rq_bucket req \<mapsto> B(rq_key req \<mapsto> o')), a_next := (if a_unique A then a_next A + 1 else a_next A)\<rparr>)
   | _ \<Rightarrow> None)"

definition orElse :: "'a option \<Rightarrow> 'a \<Rightarrow> 'a" where
  "orElse x d = (case x of Some y \<Rightarrow> y | None \<Rightarrow> d)"

definition erase :: "string \<Rightarrow> string set \<Rightarrow> astore \<Rightarrow> astore" where
  "erase name ks A = (case a_objects A name of
     Some B \<Rightarrow> A\<lparr>a_objects := (a_objects A)(name \<mapsto> B |` (- ks))\<rparr> | None \<Rightarrow> A)"

definition bucketSpec :: "http_request \<Rightarrow> request \<Rightarrow> astore \<Rightarrow> astore" where
  "bucketSpec r req A =
     (if hMethod r = ''PUT'' \<and> a_objects A (rq_bucket req) = None then A\<lparr>a_objects := (a_objects A)(rq_bucket req \<mapsto> Map.empty)\<rparr>
      else if hMethod r = ''DELETE'' \<and> a_objects A (rq_bucket req) = Some Map.empty then A\<lparr>a_objects := (a_objects A)(rq_bucket req := None)\<rparr>
      else A)"

definition uploadSpec :: "http_request \<Rightarrow> request \<Rightarrow> bytes \<Rightarrow> astore \<Rightarrow> astore" where
  "uploadSpec r req body A =
     (if rq_op req = ''mp-create'' then
        (if a_objects A (rq_bucket req) = None then A
         else A\<lparr>a_next := a_next A + 1, a_uploads := (a_uploads A)(uploadID (a_next A + 1) \<mapsto>
           \<lparr>u_bucket = rq_bucket req, u_key = rq_key req, u_header = hHeader r, u_parts = []\<rparr>)\<rparr>)
      else if rq_op req = ''mp-part'' then
        (case a_upload A req of
           Some u \<Rightarrow> if 1 \<le> rq_part req \<and> rq_part req \<le> 10000
             then A\<lparr>a_uploads := (a_uploads A)(rq_uploadID req \<mapsto> u\<lparr>u_parts := AList.update (rq_part req) body (u_parts u)\<rparr>)\<rparr> else A
         | None \<Rightarrow> A)
      else A\<lparr>a_uploads := (a_uploads A)(rq_uploadID req := None)\<rparr>)"

text \<open>What a request does to the store.\<close>

definition spec :: "lib \<Rightarrow> int \<Rightarrow> http_request \<Rightarrow> request \<Rightarrow> bytes \<Rightarrow> astore \<Rightarrow> astore" where
  "spec L now r req body A =
     (if rq_op req = ''put'' then orElse (condWrite now r req (Some (putContent L r body)) A) A
      else if rq_op req = ''copy'' then orElse (condWrite now r req (copyContent r A) A) A
      else if rq_op req = ''mp-complete'' then
        (case condWrite now r req (partsContent L req body A) A of
           Some A' \<Rightarrow> A'\<lparr>a_uploads := (a_uploads A)(rq_uploadID req := None)\<rparr> | None \<Rightarrow> A)
      else if rq_op req = ''delete'' then erase (rq_bucket req) {rq_key req} A
      else if rq_op req = ''deletes'' then (case parseDeletes L body of Inr (ks, quiet) \<Rightarrow> erase (rq_bucket req) (set ks) A | Inl e \<Rightarrow> A)
      else if rq_op req = ''bucket'' then bucketSpec r req A
      else if rq_op req \<in> {''mp-create'', ''mp-part'', ''mp-abort''} then uploadSpec r req body A
      else A)"

subsection \<open>What the store holds is in order\<close>

definition obj_ok :: "string \<Rightarrow> object \<Rightarrow> bool" where
  "obj_ok k o' \<longleftrightarrow> oKey o' = k \<and> oSize o' = int (length (oData o'))"

definition bucket_ok :: "bucket \<Rightarrow> bool" where
  "bucket_ok b \<longleftrightarrow> distinct (map fst b) \<and> (\<forall>k o'. map_of b k = Some o' \<longrightarrow> obj_ok k o')"

definition store_ok :: "store \<Rightarrow> bool" where
  "store_ok s \<longleftrightarrow> distinct (map fst (st_buckets s)) \<and> distinct (map fst (st_uploads s)) \<and> (\<forall>name b. bucketOf s name = Some b \<longrightarrow> bucket_ok b)"

lemma absStore_simps [simp]:
  "a_objects (absStore s) name = map_option map_of (bucketOf s name)" "a_uploads (absStore s) = map_of (st_uploads s)"
  "a_unique (absStore s) = st_unique s" "a_next (absStore s) = st_nextID s"
  by (simp_all add: absStore_def)

lemma bucketOf_setBucket: "bucketOf (setBucket s name b) = (\<lambda>n. bucketOf s n)(name \<mapsto> b)"
  by (simp add: setBucket_def update_conv' fun_eq_iff)

lemma absStore_setBucket: "absStore (setBucket s name b) = (absStore s)\<lparr>a_objects := (a_objects (absStore s))(name \<mapsto> map_of b)\<rparr>"
  unfolding absStore_def setBucket_def by (simp add: update_conv' fun_eq_iff)

lemma absStore_fields [simp]:
  "absStore (s\<lparr>st_nextID := n\<rparr>) = (absStore s)\<lparr>a_next := n\<rparr>" "absStore (s\<lparr>st_uploads := us\<rparr>) = (absStore s)\<lparr>a_uploads := map_of us\<rparr>"
  by (simp_all add: absStore_def)

lemma astore_same [simp]: "A\<lparr>a_next := a_next A\<rparr> = A" "A\<lparr>a_uploads := a_uploads A\<rparr> = A" "A\<lparr>a_objects := a_objects A\<rparr> = A"
  by simp_all

lemma objectAt_abs: "objectAt s name k = (case a_objects (absStore s) name of Some B \<Rightarrow> B k | None \<Rightarrow> None)"
  by (simp add: objectAt_def split: option.splits)

lemma precondition_allowed: "\<exists>w'. precondition L r cur w = (putAllowed r cur, if putAllowed r cur then w else w')"
  by (auto simp: precondition_def putAllowed_def split: option.splits)

lemma sourceCondition_allowed: "\<exists>w'. sourceCondition L r src w = (sourceAllowed r src, if sourceAllowed r src then w else w')"
  by (auto simp: sourceCondition_def sourceAllowed_def)

lemma copyConditions_allowed:
  "\<exists>w'. copyConditions L r src cur w = (sourceAllowed r src \<and> putAllowed r cur, if sourceAllowed r src \<and> putAllowed r cur then w else w')"
proof -
  obtain w1 where "sourceCondition L r src w = (sourceAllowed r src, if sourceAllowed r src then w else w1)" using sourceCondition_allowed by blast
  moreover obtain w2 where "precondition L r cur w = (putAllowed r cur, if putAllowed r cur then w else w2)" using precondition_allowed by blast
  ultimately show ?thesis by (cases "sourceAllowed r src"; cases "putAllowed r cur") (auto simp: copyConditions_def)
qed

lemma condWrite_None: "bucketOf s (rq_bucket req) = None \<Longrightarrow> condWrite now r req new (absStore s) = None"
  by (simp add: condWrite_def)

lemma put_spec: "absStore (fst (put L now r req body ev s)) = orElse (condWrite now r req (Some (putContent L r body)) (absStore s)) (absStore s)"
proof (cases "bucketOf s (rq_bucket req)")
  case None
  then show ?thesis by (simp add: put_def condWrite_None orElse_def)
next
  case (Some b)
  obtain w' where p: "precondition L r (map_of b (rq_key req)) newRecorder =
      (putAllowed r (map_of b (rq_key req)), if putAllowed r (map_of b (rq_key req)) then newRecorder else w')" using precondition_allowed by blast
  show ?thesis
  proof (cases "putAllowed r (map_of b (rq_key req))")
    case True
    then show ?thesis using p Some
      by (simp add: put_def etag_def Let_def condWrite_def orElse_def putContent_def absStore_setBucket update_conv')
  next
    case False
    then show ?thesis using p Some by (simp add: put_def condWrite_def orElse_def)
  qed
qed

lemma objectAt_ok: "store_ok s \<Longrightarrow> objectAt s name k = Some o' \<Longrightarrow> obj_ok k o'"
  unfolding store_ok_def objectAt_def bucket_ok_def by (auto split: option.splits)

lemma copy_spec:
  assumes ok: "store_ok s"
  shows "absStore (fst (copy L now r req ev s)) = orElse (condWrite now r req (copyContent r (absStore s)) (absStore s)) (absStore s)"
proof -
  obtain sb sk found where c: "cut ''/'' (trimPrefix (copySource r) ''/'') = (sb, sk, found)" using prod_cases3 by blast
  show ?thesis
  proof (cases "bucketOf s (rq_bucket req)")
    case None
    then show ?thesis using c by (simp add: copy_def condWrite_None orElse_def)
  next
    case (Some b)
    note B = this
    show ?thesis
    proof (cases "objectAt s sb sk")
      case None
      then have "copyContent r (absStore s) = None" using c by (auto simp: copyContent_def objectAt_def split: option.splits)
      then show ?thesis using c B None by (simp add: copy_def condWrite_def orElse_def)
    next
      case (Some src)
      then obtain sB where sB: "bucketOf s sb = Some sB" "map_of sB sk = Some src" by (auto simp: objectAt_def split: option.splits)
      have size: "oSize src = int (length (oData src))" using objectAt_ok [OF ok Some] by (simp add: obj_ok_def)
      obtain w' where p: "copyConditions L r src (map_of b (rq_key req)) newRecorder = (sourceAllowed r src \<and> putAllowed r (map_of b (rq_key req)),
          if sourceAllowed r src \<and> putAllowed r (map_of b (rq_key req)) then newRecorder else w')" using copyConditions_allowed by blast
      show ?thesis
      proof (cases "sourceAllowed r src \<and> putAllowed r (map_of b (rq_key req))")
        case True
        then show ?thesis using p c B Some sB size
          by (simp add: copy_def etag_def Let_def condWrite_def orElse_def copyContent_def absStore_setBucket update_conv')
      next
        case False
        have "condWrite now r req (copyContent r (absStore s)) (absStore s) = None" using False c B sB
          by (auto simp: condWrite_def copyContent_def Let_def split: option.splits)
        moreover have "copyConditions L r src (map_of b (rq_key req)) newRecorder = (False, w')" using p False by auto
        ultimately show ?thesis using c B Some by (simp add: copy_def orElse_def)
      qed
    qed
  qed
qed

lemma uploadOf_abs: "uploadOf s req = a_upload (absStore s) req"
  by (simp add: uploadOf_def a_upload_def split: option.splits)

lemma joinParts_from:
  "joinParts L u prev parts = Inr x \<longleftrightarrow> partsHeld L u parts \<and> (\<forall>p q. prev = Some p \<longrightarrow> q \<in> set parts \<longrightarrow> p < fst q) \<and>
    x = (concat (map (chunkOf u) parts), concat (map (\<lambda>p. l_md5 L (chunkOf u p)) parts))"
proof (induction parts arbitrary: prev x)
  case (Cons part parts)
  obtain n tag where part: "part = (n, tag)" by fastforce
  show ?case
  proof (cases "map_of (u_parts u) n")
    case None
    then show ?thesis by (simp add: part partsHeld_def)
  next
    case (Some chunk)
    have c: "chunkOf u (n, tag) = chunk" by (simp add: chunkOf_def Some)
    have held: "partsHeld L u (part # parts) \<longleftrightarrow> etagMatch tag (md5Tag L chunk) \<and> partsHeld L u parts \<and> (\<forall>q \<in> set parts. n < fst q)"
      by (auto simp: partsHeld_def part Some)
    have prev: "(case prev of Some p \<Rightarrow> n \<le> p | None \<Rightarrow> False) \<longleftrightarrow> (\<exists>p. prev = Some p \<and> n \<le> p)" by (cases prev) auto
    have step: "joinParts L u prev (part # parts) = Inr x \<longleftrightarrow> \<not> (\<exists>p. prev = Some p \<and> n \<le> p) \<and> etagMatch tag (md5Tag L chunk) \<and>
        (\<exists>d mds. joinParts L u (Some n) parts = Inr (d, mds) \<and> x = (chunk @ d, l_md5 L chunk @ mds))"
      unfolding part joinParts.simps Some option.case prev by (auto split: sum.splits)
    show ?thesis unfolding step held Cons.IH by (auto simp: part c not_le intro: less_trans)
  qed
qed (auto simp: partsHeld_def)

lemma joinParts_held:
  "joinParts L u None parts = Inr x \<longleftrightarrow> partsHeld L u parts \<and>
    x = (concat (map (chunkOf u) parts), concat (map (\<lambda>p. l_md5 L (chunkOf u p)) parts))"
  by (simp add: joinParts_from)

lemma complete_spec:
  "absStore (fst (complete L now r req body ev s)) =
     (case condWrite now r req (partsContent L req body (absStore s)) (absStore s) of
        Some A' \<Rightarrow> A'\<lparr>a_uploads := (a_uploads (absStore s))(rq_uploadID req := None)\<rparr> | None \<Rightarrow> absStore s)"
proof (cases "\<exists>parts u b d mds. parseComplete L body = Inr parts \<and> uploadOf s req = Some u \<and> bucketOf s (rq_bucket req) = Some b \<and>
    putAllowed r (map_of b (rq_key req)) \<and> joinParts L u None parts = Inr (d, mds)")
  case True
  then obtain parts u b d mds where h: "parseComplete L body = Inr parts" "uploadOf s req = Some u" "bucketOf s (rq_bucket req) = Some b"
    "putAllowed r (map_of b (rq_key req))" "joinParts L u None parts = Inr (d, mds)" by blast
  obtain w' where p: "precondition L r (map_of b (rq_key req)) newRecorder =
      (putAllowed r (map_of b (rq_key req)), if putAllowed r (map_of b (rq_key req)) then newRecorder else w')" using precondition_allowed by blast
  have "partsHeld L u parts" "d = concat (map (chunkOf u) parts)" "mds = concat (map (\<lambda>p. l_md5 L (chunkOf u p)) parts)"
    using h(5) by (simp_all add: joinParts_held)
  then show ?thesis using h p uploadOf_abs [of s req]
    by (simp add: complete_def etag_def Let_def condWrite_def partsContent_def absStore_setBucket update_conv' delete_conv')
next
  case False
  have "condWrite now r req (partsContent L req body (absStore s)) (absStore s) = None"
    using False uploadOf_abs [of s req] by (auto simp: condWrite_def partsContent_def joinParts_held Let_def split: option.splits sum.splits if_splits)
  moreover have "fst (complete L now r req body ev s) = s"
  proof -
    have p: "\<exists>w'. precondition L r (map_of b (rq_key req)) newRecorder =
      (putAllowed r (map_of b (rq_key req)), if putAllowed r (map_of b (rq_key req)) then newRecorder else w')" for b by (rule precondition_allowed)
    show ?thesis
    proof (cases "parseComplete L body")
      case (Inr parts)
      note P = this
      show ?thesis
      proof (cases "uploadOf s req")
        case (Some u)
        note U = this
        show ?thesis
        proof (cases "bucketOf s (rq_bucket req)")
          case (Some b)
          show ?thesis
          proof (cases "joinParts L u None parts")
            case (Inr x)
            then have "\<not> putAllowed r (map_of b (rq_key req))" using False P U Some by (cases x) auto
            then show ?thesis using P U Some p [of b] by (auto simp: complete_def)
          qed (use P U Some p [of b] in \<open>auto simp: complete_def\<close>)
        qed (use P U in \<open>simp add: complete_def\<close>)
      qed (use P in \<open>simp add: complete_def\<close>)
    qed (simp add: complete_def)
  qed
  ultimately show ?thesis by simp
qed

lemma deleteKeys_map: "map_of (fst (deleteKeys ks b)) = map_of b |` (- set ks)"
proof -
  have "map_of (fst (foldl (\<lambda>(b, deleted) k. if map_of b k \<noteq> None then (AList.delete k b, deleted @ [k]) else (b, deleted)) (b, acc) ks)) = map_of b |` (- set ks)" for acc
  proof (induction ks arbitrary: b acc)
    case Nil
    then show ?case by (simp add: fun_eq_iff restrict_map_def)
  next
    case (Cons k ks)
    have "map_of (AList.delete k b) |` (- set ks) = map_of b |` (- set (k # ks))" by (auto simp: fun_eq_iff restrict_map_def delete_conv')
    moreover have "map_of b k = None \<Longrightarrow> map_of b |` (- set ks) = map_of b |` (- set (k # ks))" by (auto simp: fun_eq_iff restrict_map_def)
    ultimately show ?case using Cons.IH [of "AList.delete k b" "acc @ [k]"] Cons.IH [of b acc] by auto
  qed
  then show ?thesis by (simp add: deleteKeys_def)
qed

lemma deletes_spec:
  "absStore (fst (deletes L req body ev s)) = (case parseDeletes L body of Inr (ks, quiet) \<Rightarrow> erase (rq_bucket req) (set ks) (absStore s) | Inl e \<Rightarrow> absStore s)"
proof -
  have "fst (case deleteKeys ks b of (b', deleted) \<Rightarrow> (setBucket s (rq_bucket req) b', f b' deleted)) = setBucket s (rq_bucket req) (fst (deleteKeys ks b))"
    for ks b and f :: "bucket \<Rightarrow> string list \<Rightarrow> recorder \<times> Event" by (simp add: case_prod_beta)
  then show ?thesis by (auto simp: deletes_def erase_def absStore_setBucket deleteKeys_map split: sum.splits option.splits)
qed

lemma deleteOp_spec: "absStore (fst (deleteOp L req ev s)) = erase (rq_bucket req) {rq_key req} (absStore s)"
proof (cases "bucketOf s (rq_bucket req)")
  case (Some b)
  show ?thesis
  proof (cases "map_of b (rq_key req)")
    case None
    then have "map_of b |` (- {rq_key req}) = map_of b" by (auto simp: fun_eq_iff restrict_map_def)
    moreover have "(a_objects (absStore s))(rq_bucket req \<mapsto> map_of b) = a_objects (absStore s)" using Some by (auto simp: fun_eq_iff)
    ultimately show ?thesis using Some None by (simp add: deleteOp_def erase_def)
  next
    case (Some o')
    then show ?thesis using \<open>bucketOf s (rq_bucket req) = Some b\<close>
      by (simp add: deleteOp_def erase_def absStore_setBucket delete_conv' restrict_complement_singleton_eq)
  qed
qed (simp add: deleteOp_def erase_def)

lemma nonempty_map: "xs \<noteq> [] \<Longrightarrow> \<exists>k y. map_of xs k = Some y"
  by (cases xs) auto

lemma bucketOp_spec: "absStore (fst (bucketOp L r req ev s)) = bucketSpec r req (absStore s)"
  by (auto dest: nonempty_map simp: bucketOp_def bucketSpec_def Let_def absStore_setBucket absStore_def setBucket_def update_conv' delete_conv' fun_eq_iff split: option.splits)

lemma uploads_spec:
  "absStore (fst (createMP L r req ev s)) = uploadSpec r (req\<lparr>rq_op := ''mp-create''\<rparr>) body (absStore s)"
  "absStore (fst (putPart L req body ev s)) = uploadSpec r (req\<lparr>rq_op := ''mp-part''\<rparr>) body (absStore s)"
  "absStore (fst (abortOp req ev s)) = uploadSpec r (req\<lparr>rq_op := ''mp-abort''\<rparr>) body (absStore s)"
  by (auto simp: createMP_def putPart_def abortOp_def uploadSpec_def uploadOf_def a_upload_def Let_def update_conv' delete_conv' split: option.splits)

lemma reads_same [simp]: "fst (getOp L r req ev s) = s" "fst (listOp L r req ev s) = s"
  by (simp_all add: getOp_def listOp_def split: option.splits prod.splits)

lemma op_same: "req\<lparr>rq_op := rq_op req\<rparr> = req"
  by simp

lemma handle_spec:
  assumes "store_ok s"
  shows "absStore (fst (handle L now r req body ev s)) = spec L now r req body (absStore s)"
proof -
  have u: "rq_op req = op \<Longrightarrow> req\<lparr>rq_op := op\<rparr> = req" for op by auto
  show ?thesis
    unfolding handle_def spec_def Let_def
    by (simp add: put_spec copy_spec [OF assms] complete_spec deletes_spec deleteOp_spec bucketOp_spec uploads_spec [where r = r and body = body] u)
qed

subsection \<open>The invariant\<close>

lemma newStore_ok: "store_ok (newStore unique)"
  by (simp add: store_ok_def newStore_def)

lemma setBucket_ok: "store_ok s \<Longrightarrow> bucket_ok b \<Longrightarrow> store_ok (setBucket s name b)"
  by (auto simp: store_ok_def setBucket_def update_conv' distinct_update split: if_splits)

lemma bucket_ok_update: "bucket_ok b \<Longrightarrow> obj_ok k o' \<Longrightarrow> bucket_ok (AList.update k o' b)"
  by (auto simp: bucket_ok_def update_conv' distinct_update split: if_splits)

lemma bucket_ok_delete: "bucket_ok b \<Longrightarrow> bucket_ok (AList.delete k b)"
  by (auto simp: bucket_ok_def delete_conv' distinct_delete split: if_splits)

lemma store_ok_bucket: "store_ok s \<Longrightarrow> bucketOf s name = Some b \<Longrightarrow> bucket_ok b"
  by (auto simp: store_ok_def)

lemma store_ok_fields:
  "store_ok s \<Longrightarrow> store_ok (s\<lparr>st_nextID := n\<rparr>)" "store_ok s \<Longrightarrow> distinct (map fst us) \<Longrightarrow> store_ok (s\<lparr>st_uploads := us\<rparr>)"
  "store_ok s \<Longrightarrow> store_ok (s\<lparr>st_buckets := AList.delete name (st_buckets s)\<rparr>)"
  by (auto simp: store_ok_def delete_conv' distinct_delete split: if_splits)

lemma write_ok:
  assumes "store_ok s" "bucketOf s name = Some b" "obj_ok k o'"
  shows "store_ok (setBucket s name (AList.update k o' b))"
  using assms by (intro setBucket_ok bucket_ok_update) (auto dest: store_ok_bucket)

lemma deleteKeys_ok: "bucket_ok b \<Longrightarrow> bucket_ok (fst (deleteKeys ks b))"
proof -
  have "bucket_ok b \<Longrightarrow> bucket_ok (fst (foldl (\<lambda>(b, deleted) k. if map_of b k \<noteq> None then (AList.delete k b, deleted @ [k]) else (b, deleted)) (b, acc) ks))" for acc b
    by (induction ks arbitrary: b acc) (auto intro: bucket_ok_delete)
  then show "bucket_ok b \<Longrightarrow> bucket_ok (fst (deleteKeys ks b))" by (simp add: deleteKeys_def)
qed

lemma put_ok: "store_ok s \<Longrightarrow> store_ok (fst (put L now r req body ev s))"
  by (auto simp: put_def etag_def Let_def obj_ok_def split: option.splits prod.splits bool.splits intro!: write_ok store_ok_fields)

lemma copy_ok:
  assumes ok: "store_ok s"
  shows "store_ok (fst (copy L now r req ev s))"
proof -
  have "obj_ok k o' \<Longrightarrow> oSize o' = int (length (oData o'))" for k o' by (simp add: obj_ok_def)
  note size = this [OF objectAt_ok [OF ok]]
  show ?thesis using ok by (auto simp: copy_def etag_def Let_def obj_ok_def split: option.splits prod.splits bool.splits dest: size intro!: write_ok store_ok_fields)
qed

lemma complete_ok:
  assumes ok: "store_ok s"
  shows "store_ok (fst (complete L now r req body ev s))"
proof -
  have d: "distinct (map fst (AList.delete k (st_uploads s)))" for k using ok by (simp add: store_ok_def distinct_delete)
  show ?thesis using ok
    by (auto simp: complete_def etag_def Let_def obj_ok_def split: option.splits prod.splits bool.splits sum.splits intro!: write_ok store_ok_fields d)
qed

lemma deletes_ok: "store_ok s \<Longrightarrow> store_ok (fst (deletes L req body ev s))"
proof -
  assume ok: "store_ok s"
  have "store_ok (setBucket s name (fst (deleteKeys ks b)))" if "bucketOf s name = Some b" for name ks b
    using setBucket_ok [OF ok deleteKeys_ok [OF store_ok_bucket [OF ok that]]] .
  then show ?thesis using ok by (auto simp: deletes_def case_prod_beta split: sum.splits option.splits)
qed

lemma deleteOp_ok: "store_ok s \<Longrightarrow> store_ok (fst (deleteOp L req ev s))"
  by (auto simp: deleteOp_def split: option.splits intro!: setBucket_ok bucket_ok_delete dest: store_ok_bucket)

lemma bucketOp_ok: "store_ok s \<Longrightarrow> store_ok (fst (bucketOp L r req ev s))"
  by (auto simp: bucketOp_def Let_def bucket_ok_def split: option.splits intro!: setBucket_ok store_ok_fields)

lemma uploads_ok:
  assumes "store_ok s"
  shows "store_ok (fst (createMP L r req ev s))" "store_ok (fst (putPart L req body ev s))" "store_ok (fst (abortOp req ev s))"
proof -
  have d: "distinct (map fst (st_uploads s))" using assms by (simp add: store_ok_def)
  have "s\<lparr>st_nextID := n, st_uploads := us\<rparr> = (s\<lparr>st_nextID := n\<rparr>)\<lparr>st_uploads := us\<rparr>" for n us by simp
  then show "store_ok (fst (createMP L r req ev s))"
    using assms d by (auto simp: createMP_def Let_def distinct_update split: option.splits intro!: store_ok_fields)
  show "store_ok (fst (putPart L req body ev s))" using assms d by (auto simp: putPart_def distinct_update split: option.splits intro!: store_ok_fields)
  show "store_ok (fst (abortOp req ev s))" using assms d by (auto simp: abortOp_def distinct_delete intro!: store_ok_fields)
qed

lemma handle_ok: "store_ok s \<Longrightarrow> store_ok (fst (handle L now r req body ev s))"
  unfolding handle_def Let_def by (simp add: put_ok copy_ok complete_ok deletes_ok deleteOp_ok bucketOp_ok uploads_ok)

subsection \<open>What the answers say\<close>

lemma w_status_simps [simp]:
  "w_status newRecorder = 0" "w_status (setHeader k v w) = w_status w" "w_status (writeHeader st w) = (if w_status w = 0 then st else w_status w)"
  "w_status (writeBody p w) = (if w_status w = 0 then 200 else w_status w)"
  by (simp_all add: newRecorder_def setHeader_def writeHeader_def writeBody_def)

lemma w_status_error [simp]: "st \<noteq> 0 \<Longrightarrow> w_status (writeError L st code msg w) = (if w_status w = 0 then st else w_status w)"
  by (simp add: writeError_def)

lemma w_status_xml [simp]: "w_status (writeXML x w) = (if w_status w = 0 then 200 else w_status w)"
  by (simp add: writeXML_def)

text \<open>
  An error leaves the store as it was; what is not marked as applied leaves the objects as they
  were; and what is applied was asked for by a mutating request and answered as a success.
\<close>

definition honest_answer :: "OpKind \<Rightarrow> store \<Rightarrow> Event \<Rightarrow> outcome3 \<Rightarrow> bool" where
  "honest_answer op s ev res = (case res of (s', w, ev') \<Rightarrow>
     (400 \<le> w_status w \<longrightarrow> s' = s \<and> ev' = ev) \<and>
     (\<not> ev_applied ev' \<longrightarrow> a_objects (absStore s') = a_objects (absStore s)) \<and>
     (ev_applied ev' \<longrightarrow> Mutating op \<and> 200 \<le> w_status w \<and> w_status w < 300))"

lemma honest_refused: "\<not> ev_applied ev \<Longrightarrow> honest_answer op s ev (s, w, ev)"
  by (simp add: honest_answer_def)

lemma honest_applied: "ev_applied ev' \<Longrightarrow> Mutating op \<Longrightarrow> 200 \<le> w_status w \<Longrightarrow> w_status w < 300 \<Longrightarrow> honest_answer op s ev (s', w, ev')"
  by (simp add: honest_answer_def)

lemma write_honest:
  assumes "\<not> ev_applied ev"
  shows "honest_answer ''put'' s ev (put L now r req body ev s)" "honest_answer ''copy'' s ev (copy L now r req ev s)"
    "honest_answer ''mp-complete'' s ev (complete L now r req body ev s)"
proof -
  note refused = honest_refused [OF assms]
  have m: "Mutating ''put''" "Mutating ''copy''" "Mutating ''mp-complete''" by (simp_all add: Mutating_def)
  have p: "precondition L r cur newRecorder = (True, w) \<Longrightarrow> w_status w = 0" for cur w using precondition_allowed [of L r cur newRecorder] by auto
  have c: "copyConditions L r src cur newRecorder = (True, w) \<Longrightarrow> w_status w = 0" for src cur w using copyConditions_allowed [of L r src cur newRecorder] by auto
  show "honest_answer ''put'' s ev (put L now r req body ev s)"
    unfolding put_def Let_def by (auto split: option.split prod.split bool.split intro!: refused honest_applied m simp: p)
  show "honest_answer ''copy'' s ev (copy L now r req ev s)"
    unfolding copy_def Let_def by (auto split: option.split prod.split bool.split intro!: refused honest_applied m simp: c simp del: append_Cons)
  show "honest_answer ''mp-complete'' s ev (complete L now r req body ev s)"
    unfolding complete_def Let_def by (auto split: option.split prod.split bool.split sum.split intro!: refused honest_applied m simp: p)
qed

lemma deleteKeys_none: "snd (deleteKeys ks b) = [] \<Longrightarrow> fst (deleteKeys ks b) = b"
proof -
  let ?f = "\<lambda>(b, deleted) k. if map_of b k \<noteq> None then (AList.delete k b, deleted @ [k]) else (b, deleted)"
  have st: "length (snd x) \<le> length (snd (?f x k))" for x k by (simp add: case_prod_beta)
  have le: "length (snd x) \<le> length (snd (foldl ?f x ks))" for x ks
  proof (induction ks arbitrary: x)
    case (Cons k ks)
    then show ?case using order_trans [OF st [of x k] Cons.IH [of "?f x k"]] by simp
  qed simp
  have ne: "snd x = []" if h: "snd (foldl ?f x ks) = []" for x ks using le [of x ks] unfolding h by simp
  have "snd (foldl ?f (b, []) ks) = [] \<Longrightarrow> fst (foldl ?f (b, []) ks) = b"
  proof (induction ks)
    case (Cons k ks)
    then show ?case using ne [of "(AList.delete k b, [k])" ks] by (auto split: if_splits)
  qed simp
  then show "snd (deleteKeys ks b) = [] \<Longrightarrow> fst (deleteKeys ks b) = b" by (simp add: deleteKeys_def)
qed

lemma other_honest:
  assumes "\<not> ev_applied ev"
  shows "honest_answer ''delete'' s ev (deleteOp L req ev s)" "honest_answer ''deletes'' s ev (deletes L req body ev s)" "honest_answer ''bucket'' s ev (bucketOp L r req ev s)"
    "honest_answer op s ev (createMP L r req ev s)" "honest_answer op s ev (putPart L req body ev s)" "honest_answer op s ev (abortOp req ev s)"
    "honest_answer op s ev (getOp L r req ev s)" "honest_answer op s ev (listOp L r req ev s)"
proof -
  show "honest_answer ''delete'' s ev (deleteOp L req ev s)" using assms
    by (auto simp: honest_answer_def deleteOp_def noBucket_def Mutating_def split: option.splits)
  have "a_objects (absStore (setBucket s name b)) = a_objects (absStore s)" if "bucketOf s name = Some b" for name b
    using that by (auto simp: absStore_setBucket fun_eq_iff)
  then show "honest_answer ''deletes'' s ev (deletes L req body ev s)" using assms
    by (auto simp: honest_answer_def deletes_def noBucket_def Mutating_def case_prod_beta split: option.splits sum.splits dest: deleteKeys_none)
  show "honest_answer ''bucket'' s ev (bucketOp L r req ev s)" using assms
    by (auto simp: honest_answer_def bucketOp_def Mutating_def Let_def split: option.splits)
  show "honest_answer op s ev (createMP L r req ev s)" "honest_answer op s ev (putPart L req body ev s)" "honest_answer op s ev (abortOp req ev s)" using assms
    by (auto simp: honest_answer_def createMP_def putPart_def abortOp_def noBucket_def Let_def absStore_def split: option.splits)
  have "fst (snd (s, x)) = fst x" for x :: "recorder \<times> Event" by simp
  show "honest_answer op s ev (listOp L r req ev s)" using assms
    by (auto simp: honest_answer_def listOp_def noBucket_def split: option.splits prod.splits)
  have so: "400 \<le> w_status (fst (serveObject L r req o' ev)) \<longrightarrow> snd (serveObject L r req o' ev) = ev" "ev_applied (snd (serveObject L r req o' ev)) = ev_applied ev" for o'
  proof -
    have m: "w_status (foldl (\<lambda>w (k, v). setHeader (p k) v w) w ms) = w_status w" for p :: "string \<Rightarrow> string" and w ms by (induction ms arbitrary: w) auto
    have g: "w_status (getHeaders L o' newRecorder) = 0" by (simp add: getHeaders_def Let_def m)
    have both: "(400 \<le> w_status (fst (serveObject L r req o' ev)) \<longrightarrow> snd (serveObject L r req o' ev) = ev) \<and> ev_applied (snd (serveObject L r req o' ev)) = ev_applied ev"
    proof (cases "if hdr r ''Range'' = [] then Some (0, int (length (oData o'))) else parseRange (hdr r ''Range'') (int (length (oData o')))")
      case None
      then show ?thesis unfolding serveObject_def Let_def None by simp
    next
      case (Some x)
      obtain a b where x: "x = (a, b)" by fastforce
      show ?thesis
      proof (cases "hdr r ''Range'' = []")
        case True
        then show ?thesis unfolding serveObject_def Let_def Some x by (simp add: g)
      next
        case False
        then show ?thesis unfolding serveObject_def Let_def Some x by (simp add: g)
      qed
    qed
    then show "400 \<le> w_status (fst (serveObject L r req o' ev)) \<longrightarrow> snd (serveObject L r req o' ev) = ev" "ev_applied (snd (serveObject L r req o' ev)) = ev_applied ev"
      by blast+
  qed
  show "honest_answer op s ev (getOp L r req ev s)" using assms so
    by (auto simp: honest_answer_def getOp_def noBucket_def case_prod_beta split: option.splits)
qed

lemma handle_honest: "\<not> ev_applied ev \<Longrightarrow> honest_answer (rq_op req) s ev (handle L now r req body ev s)"
proof -
  assume a: "\<not> ev_applied ev"
  have "honest_answer (rq_op req) s ev (s, writeError L 405 ''MethodNotAllowed'' ''unsupported request'' newRecorder, ev)" using a by (simp add: honest_answer_def)
  then show ?thesis unfolding handle_def Let_def using write_honest [OF a] other_honest [OF a] by simp
qed

subsection \<open>Runs of effects\<close>

definition runStore :: "lib \<Rightarrow> effect list \<Rightarrow> store \<Rightarrow> store" where
  "runStore L es s = foldl (\<lambda>s e. applyEffect L e s) s es"

fun specEffect :: "lib \<Rightarrow> effect \<Rightarrow> astore \<Rightarrow> astore" where
  "specEffect L (Created name) A = (if a_objects A name = None then A\<lparr>a_objects := (a_objects A)(name \<mapsto> Map.empty)\<rparr> else A)"
| "specEffect L (Served now r req body ev) A = spec L now r req body A"

definition emptyStore :: "bool \<Rightarrow> astore" where
  "emptyStore unique = \<lparr>a_objects = Map.empty, a_uploads = Map.empty, a_unique = unique, a_next = 0\<rparr>"

lemma applyEffect_spec: "store_ok s \<Longrightarrow> store_ok (applyEffect L e s) \<and> absStore (applyEffect L e s) = specEffect L e (absStore s)"
proof (cases e)
  case (Created name)
  assume "store_ok s"
  then show ?thesis using Created setBucket_ok [of s "[]" name] by (simp add: CreateBucket_def bucket_ok_def absStore_setBucket)
next
  case (Served now r req body ev)
  assume "store_ok s"
  then show ?thesis using Served handle_ok handle_spec by simp
qed

lemma runStore_simps [simp]: "runStore L [] s = s" "runStore L (e # es) s = runStore L es (applyEffect L e s)"
  "runStore L (es @ es') s = runStore L es' (runStore L es s)"
  by (simp_all add: runStore_def)

lemma runStore_spec: "store_ok s \<Longrightarrow> store_ok (runStore L es s) \<and> absStore (runStore L es s) = foldl (\<lambda>A e. specEffect L e A) (absStore s) es"
proof (induction es arbitrary: s)
  case (Cons e es)
  then show ?case using applyEffect_spec [OF Cons.prems, of L e] Cons.IH [of "applyEffect L e s"] by simp
qed simp

lemma absStore_new: "absStore (newStore unique) = emptyStore unique"
  by (simp add: absStore_def newStore_def emptyStore_def)

text \<open>
  C2: the store is an atomic map of keys to objects. Whatever requests take effect and in whatever
  order, what the store holds is what the specification says of the same sequence: a put, a copy
  and the completion of an upload each write their content at once if their bucket is there and
  their conditions hold of what the key holds then, and do nothing otherwise; deletes take their
  keys away; a bucket is removed only when empty; nothing else changes an object. And keys are
  unique, each object lies under its own key and its size is that of its data.
\<close>

theorem store_refines:
  "absStore (runStore L es (newStore unique)) = foldl (\<lambda>A e. specEffect L e A) (emptyStore unique) es \<and> store_ok (runStore L es (newStore unique))"
  using runStore_spec [OF newStore_ok, of L es unique] absStore_new [of unique] by simp

text \<open>
  C21: answers and events are honest. Of a request the store answers with an error, nothing took
  effect; when the event of a request does not say it was applied, every object is as it was; and
  when it does, the request was of a kind that mutates and was answered with a success.
\<close>

theorem handle_answers:
  assumes "\<not> ev_applied ev" and "handle L now r req body ev s = (s', w, ev')"
  shows "(400 \<le> w_status w \<longrightarrow> s' = s \<and> ev' = ev) \<and>
    (\<not> ev_applied ev' \<longrightarrow> (\<forall>name k. objectAt s' name k = objectAt s name k)) \<and>
    (ev_applied ev' \<longrightarrow> Mutating (rq_op req) \<and> 200 \<le> w_status w \<and> w_status w < 300)"
  using handle_honest [OF assms(1), of req s L now r body] unfolding assms(2) by (simp add: honest_answer_def objectAt_abs del: absStore_simps)

definition demo_lib :: lib where
  "demo_lib = \<lparr>l_md5 = (\<lambda>d. d), l_escape = (\<lambda>x. x), l_quote = (\<lambda>x. x), l_format = (\<lambda>_ _. []), l_parseTime = (\<lambda>_. None),
     l_deletes = (\<lambda>_. Inr (False, [])), l_complete = (\<lambda>_. Inr [])\<rparr>"

definition demo_put :: "header \<Rightarrow> http_request" where
  "demo_put h = \<lparr>hMethod = ''PUT'', hPath = ''/b/k'', hQuery = [], hHeader = h, hBody = Some ''v''\<rparr>"

definition demo_event :: Event where
  "demo_event = \<lparr>ev_seq = 1, ev_start = 0, ev_end = 0, ev_client = [], ev_op = ''put'', ev_bucket = ''b'', ev_key = ''k'',
     ev_keys = [], ev_cond = [], ev_range = [], ev_fault = [], ev_applied = False, ev_status = 0, ev_etag = [], ev_size = 0\<rparr>"

text \<open>A put that asks for a key that is not there, on a bucket that has it.\<close>

definition demo_store :: store where
  "demo_store = fst (handle demo_lib 7 (demo_put []) (parse (demo_put [])) ''v'' demo_event (CreateBucket ''b'' (newStore True)))"

theorem handle_answers_witness:
  "fst (handle demo_lib 8 (demo_put [(''If-None-Match'', [''*''])]) (parse (demo_put [])) ''w'' demo_event demo_store) = demo_store"
proof -
  obtain s' w ev' where h: "handle demo_lib 8 (demo_put [(''If-None-Match'', [''*''])]) (parse (demo_put [])) ''w'' demo_event demo_store = (s', w, ev')"
    using prod_cases3 by blast
  have "w_status (fst (snd (handle demo_lib 8 (demo_put [(''If-None-Match'', [''*''])]) (parse (demo_put [])) ''w'' demo_event demo_store))) = 412" by code_simp
  then have "400 \<le> w_status w" unfolding h by simp
  moreover have "\<not> ev_applied demo_event" by (simp add: demo_event_def)
  ultimately show ?thesis using handle_answers [OF _ h] h by simp
qed

end
