(* ===== verification/Obj_Tags.thy ===== *)
theory Obj_Tags
  imports Obj_Spec
begin

text \<open>
  Entity tags: with a tag for every write, a conditional write goes through only against the
  very object its condition was read from.
\<close>

subsection \<open>Tags of numbers\<close>

lemma digits_zeros: "digitsIn 16 0 (replicate j CHR ''0'' @ s) = digitsIn 16 0 s"
proof (induction j)
  case (Suc j)
  have "digitIn 16 CHR ''0'' = Some 0" by code_simp
  then show ?case using Suc by simp
qed simp

lemma hex016_inj: "hex016 m = hex016 n \<Longrightarrow> m = n"
proof -
  assume "hex016 m = hex016 n"
  then have "digitsIn 16 0 (hex016 m) = digitsIn 16 0 (hex016 n)" by simp
  then show "m = n" by (simp add: hex016_def digits_zeros hexNat_digits)
qed

text \<open>Digits are none of the characters that mean something in a list of tags.\<close>

definition plainTag :: "string \<Rightarrow> bool" where
  "plainTag s \<longleftrightarrow> (\<forall>c \<in> set s. 48 \<le> (of_char c :: nat) \<and> (of_char c :: nat) < 128)"

lemma hexNat_plain: "plainTag (hexNat n)"
proof (induction n rule: hexNat.induct)
  case (1 n)
  have c: "48 \<le> (of_char (hexChar d) :: nat) \<and> (of_char (hexChar d) :: nat) < 128" if "d < 16" for d
    using hexChar_of [OF that] that by auto
  show ?case
  proof (cases "n < 16")
    case True
    then show ?thesis using c by (subst hexNat.simps) (simp add: plainTag_def)
  next
    case False
    then show ?thesis using 1 c [of "n mod 16"] by (subst hexNat.simps) (simp add: plainTag_def)
  qed
qed

lemma hex016_plain: "plainTag (hex016 n)"
  using hexNat_plain [of n] by (auto simp: hex016_def plainTag_def)

lemma splitOn_none: "sep \<notin> set s \<Longrightarrow> splitOn sep s = [s]"
  by (induction s) auto

lemma etagMatch_plain:
  assumes "plainTag a"
  shows "etagMatch (quote a) (quote b) \<longleftrightarrow> a = b"
proof -
  have c: "(of_char CHR '','' :: nat) = 44" "(of_char CHR 0x22 :: nat) = 34" by simp_all
  then have n: "CHR '','' \<notin> set a" "CHR 0x22 \<notin> set a" using assms unfolding plainTag_def by fastforce+
  have s: "splitOn CHR '','' (quote a) = [quote a]" using n(1) by (intro splitOn_none) (simp add: quote_def)
  have "printable (quote a)" using assms c(2) by (auto simp: printable_def plainTag_def quote_def)
  then have t: "trimSpace (quote a) = quote a" by (rule trimSpace_id)
  have "dropWhile (\<lambda>x. x = CHR 0x22) (a @ [CHR 0x22]) = (if a = [] then [] else a @ [CHR 0x22])" using n(2) by (cases a) auto
  moreover have "dropWhile (\<lambda>x. x = CHR 0x22) (rev a) = rev a"
  proof (cases "rev a")
    case (Cons x xs)
    then have "x \<in> set a" by (metis list.set_intros(1) set_rev)
    then show ?thesis using Cons n(2) by auto
  qed simp
  ultimately have q: "trimChar CHR 0x22 (quote a) = a" by (cases "a = []") (simp_all add: trimChar_def quote_def)
  have "quote x = quote y \<longleftrightarrow> x = y" "quote x \<noteq> ''*''" for x y by (simp_all add: quote_def)
  then show ?thesis by (simp add: etagMatch_def Let_def s t q)
qed

subsection \<open>Numbered stores\<close>

text \<open>The first \<open>m\<close> numbers are given out; objects that are not of \<open>base\<close> have tags numbered after \<open>base\<close>'s.\<close>

definition numbered :: "nat \<Rightarrow> astore \<Rightarrow> nat \<Rightarrow> astore \<Rightarrow> bool" where
  "numbered k base m A \<longleftrightarrow> a_unique A \<and> a_next A = of_nat m \<and> k \<le> m \<and>
     (\<forall>name B key o'. a_objects A name = Some B \<longrightarrow> B key = Some o' \<longrightarrow>
       (\<exists>B0. a_objects base name = Some B0 \<and> B0 key = Some o') \<or> (\<exists>n. k < n \<and> n \<le> m \<and> oETag o' = quote (hex016 n)))"

text \<open>What a request can do to the objects: leave them, take some away, or write one with the next tag.\<close>

definition fresh_step :: "astore \<Rightarrow> astore \<Rightarrow> bool" where
  "fresh_step A A' \<longleftrightarrow> a_unique A' = a_unique A \<and> (a_next A' = a_next A \<or> a_next A' = a_next A + 1) \<and>
     (\<forall>name B' key o'. a_objects A' name = Some B' \<longrightarrow> B' key = Some o' \<longrightarrow>
       (\<exists>B. a_objects A name = Some B \<and> B key = Some o') \<or> (a_next A' = a_next A + 1 \<and> oETag o' = quote (hexID (a_next A'))))"

lemma condWrite_fresh: "a_unique A \<Longrightarrow> condWrite now r req new A = Some A' \<Longrightarrow> fresh_step A A'"
  by (auto simp: condWrite_def fresh_step_def Let_def split: option.splits if_splits)

lemma fresh_same: "fresh_step A A"
  by (auto simp: fresh_step_def)

lemma erase_fresh: "fresh_step A (erase name ks A)"
  by (auto simp: erase_def fresh_step_def restrict_map_def split: option.splits if_splits)

lemma spec_fresh:
  assumes u: "a_unique A"
  shows "fresh_step A (spec L now r req body A)"
proof -
  have w: "fresh_step A (orElse (condWrite now r req new A) A)" for new
    using condWrite_fresh [OF u] fresh_same by (auto simp: orElse_def split: option.splits)
  have c: "fresh_step A (case condWrite now r req new A of Some A' \<Rightarrow> A'\<lparr>a_uploads := U\<rparr> | None \<Rightarrow> A)" for new U
    using condWrite_fresh [OF u, of now r req new] fresh_same [of A] by (auto simp: fresh_step_def split: option.splits)
  have b: "fresh_step A (bucketSpec r req A)" by (auto simp: bucketSpec_def fresh_step_def split: if_splits)
  have up: "fresh_step A (uploadSpec r req body A)" by (auto simp: uploadSpec_def fresh_step_def split: if_splits option.splits)
  have d: "fresh_step A (case parseDeletes L body of Inr (ks, quiet) \<Rightarrow> erase (rq_bucket req) (set ks) A | Inl e \<Rightarrow> A)"
    using erase_fresh fresh_same by (auto split: sum.splits)
  show ?thesis unfolding spec_def using w c b up d erase_fresh fresh_same by simp
qed

lemma specEffect_fresh: "a_unique A \<Longrightarrow> fresh_step A (specEffect L e A)"
proof (cases e)
  case (Created name)
  then show ?thesis by (auto simp: fresh_step_def split: if_splits)
qed (simp add: spec_fresh)

lemma hexID_of_nat: "m < 2 ^ 63 \<Longrightarrow> hexID (of_nat m) = hex016 m"
proof -
  assume "m < 2 ^ 63"
  then have "sint (of_nat m :: int64) = int m" by (simp add: sint_uint unat_of_nat uint_nat take_bit_nat_eq_self signed_take_bit_int_eq_self)
  then show ?thesis by (simp add: hexID_def)
qed

lemma numbered_step:
  assumes n: "numbered k base m A" and f: "fresh_step A A'" and m: "Suc m < 2 ^ 63"
  shows "\<exists>m' \<le> Suc m. numbered k base m' A'"
proof -
  have A: "a_unique A" "a_next A = of_nat m" "k \<le> m" using n by (simp_all add: numbered_def)
  define m' where "m' = (if a_next A' = a_next A + 1 then Suc m else m)"
  have nx: "a_next A' = of_nat m'" using f A(2) unfolding fresh_step_def m'_def by auto
  have ob: "(\<exists>B0. a_objects base name = Some B0 \<and> B0 key = Some o') \<or> (\<exists>n. k < n \<and> n \<le> m' \<and> oETag o' = quote (hex016 n))"
    if h: "a_objects A' name = Some B'" "B' key = Some o'" for name B' key o'
  proof -
    consider (old) B where "a_objects A name = Some B" "B key = Some o'" | (new) "a_next A' = a_next A + 1" "oETag o' = quote (hexID (a_next A'))"
      using f h unfolding fresh_step_def by blast
    then show ?thesis
    proof cases
      case old
      then consider B0 where "a_objects base name = Some B0" "B0 key = Some o'" | n where "k < n" "n \<le> m" "oETag o' = quote (hex016 n)"
        using n unfolding numbered_def by blast
      then show ?thesis by cases (auto simp: m'_def)
    next
      case new
      then have "m' = Suc m" by (simp add: m'_def)
      moreover have "oETag o' = quote (hex016 m')" using new(2) nx hexID_of_nat [of m'] m \<open>m' = Suc m\<close> by simp
      ultimately show ?thesis using A(3) by (intro disjI2 exI [of _ m']) simp
    qed
  qed
  have "numbered k base m' A'" using f A nx ob unfolding numbered_def fresh_step_def m'_def by auto
  then show ?thesis by (intro exI [of _ m']) (simp add: m'_def)
qed

lemma numbered_run:
  "numbered k base m A \<Longrightarrow> m + length es < 2 ^ 63 \<Longrightarrow> \<exists>m' \<le> m + length es. numbered k base m' (foldl (\<lambda>A e. specEffect L e A) A es)"
proof (induction es arbitrary: m A)
  case (Cons e es)
  have "a_unique A" using Cons.prems(1) by (simp add: numbered_def)
  then obtain m1 where m1: "m1 \<le> Suc m" "numbered k base m1 (specEffect L e A)"
    using numbered_step [OF Cons.prems(1) specEffect_fresh, of L e] Cons.prems(2) by auto
  then obtain m' where "m' \<le> m1 + length es" "numbered k base m' (foldl (\<lambda>A e. specEffect L e A) (specEffect L e A) es)"
    using Cons.IH [OF m1(2)] Cons.prems(2) by auto
  then show ?case using m1(1) by (intro exI [of _ m']) simp
qed auto

text \<open>
  C16: with a tag for every write, a condition on a tag is a condition on the object. Take the
  object a key holds after some requests took effect, and the one it holds after any more of them
  (fewer than 2^63 in all); if the first one's tag matches the second's - so that a write
  conditional on it would go through - the two are the same object, data, metadata and time of
  writing: no write or delete came in between and was undone.
\<close>

theorem If_Match_same_object:
  assumes "length (es @ es') < 2 ^ 63"
    and "objectAt (runStore L es (newStore True)) name key = Some o1" "objectAt (runStore L (es @ es') (newStore True)) name key = Some o2"
    and "etagMatch (oETag o1) (oETag o2)"
  shows "o2 = o1"
proof -
  let ?A1 = "foldl (\<lambda>A e. specEffect L e A) (emptyStore True) es" and ?A2 = "foldl (\<lambda>A e. specEffect L e A) (emptyStore True) (es @ es')"
  note R = runStore_spec [OF newStore_ok, of L _ True, unfolded absStore_new]
  have e: "?A1 = absStore (runStore L es (newStore True))" "?A2 = absStore (runStore L (es @ es') (newStore True))"
    using R [of es] R [of "es @ es'"] by simp_all
  have a1: "\<exists>B. a_objects ?A1 name = Some B \<and> B key = Some o1" using assms(2) unfolding e(1) objectAt_def by (auto split: option.splits)
  have a2: "\<exists>B. a_objects ?A2 name = Some B \<and> B key = Some o2" using assms(3) unfolding e(2) objectAt_def by (auto split: option.splits)
  have "numbered 0 (emptyStore True) 0 (emptyStore True)" by (simp add: numbered_def emptyStore_def)
  then obtain m where m: "m \<le> length es" "numbered 0 (emptyStore True) m ?A1" using numbered_run [of 0 "emptyStore True" 0 "emptyStore True" es L] assms(1) by auto
  have none: "a_objects (emptyStore True) name = None" by (simp add: emptyStore_def)
  obtain n1 where n1: "n1 \<le> m" "oETag o1 = quote (hex016 n1)" using a1 m(2) none unfolding numbered_def by (metis option.distinct(1))
  have "numbered m ?A1 m ?A1" using m(2) unfolding numbered_def by auto
  then obtain m' where "numbered m ?A1 m' ?A2" using numbered_run [of m ?A1 m ?A1 es' L] assms(1) m(1) by auto
  then consider B where "a_objects ?A1 name = Some B" "B key = Some o2" | n where "m < n" "oETag o2 = quote (hex016 n)"
    using a2 unfolding numbered_def by blast
  then show ?thesis
  proof cases
    case 1
    then show ?thesis using a1 by auto
  next
    case (2 n)
    then have "hex016 n1 = hex016 n" using assms(4) n1(2) etagMatch_plain [OF hex016_plain] by simp
    then show ?thesis using hex016_inj [of n1 n] n1(1) 2(1) by simp
  qed
qed

definition demo_write :: "string \<Rightarrow> effect" where
  "demo_write body = Served 7 (demo_put []) (parse (demo_put [])) body demo_event"

theorem If_Match_same_object_witness:
  "\<exists>o1. objectAt (runStore demo_lib [Created ''b'', demo_write ''v''] (newStore True)) ''b'' ''k'' = Some o1 \<and>
     (\<forall>o2. objectAt (runStore demo_lib ([Created ''b'', demo_write ''v''] @ [Created ''c'']) (newStore True)) ''b'' ''k'' = Some o2 \<longrightarrow>
       etagMatch (oETag o1) (oETag o2) \<longrightarrow> o2 = o1) \<and>
     map_option (\<lambda>o2. etagMatch (oETag o1) (oETag o2)) (objectAt (runStore demo_lib ([Created ''b'', demo_write ''v''] @ [Created ''c'']) (newStore True)) ''b'' ''k'') = Some True"
proof -
  define o1 where "o1 = the (objectAt (runStore demo_lib [Created ''b'', demo_write ''v''] (newStore True)) ''b'' ''k'')"
  have "objectAt (runStore demo_lib [Created ''b'', demo_write ''v''] (newStore True)) ''b'' ''k'' \<noteq> None" by code_simp
  then have o1: "objectAt (runStore demo_lib [Created ''b'', demo_write ''v''] (newStore True)) ''b'' ''k'' = Some o1" by (auto simp: o1_def)
  have "map_option (\<lambda>o2. etagMatch (oETag o1) (oETag o2)) (objectAt (runStore demo_lib ([Created ''b'', demo_write ''v''] @ [Created ''c'']) (newStore True)) ''b'' ''k'') = Some True"
    unfolding o1_def by code_simp
  then show ?thesis using o1 If_Match_same_object [OF _ o1, of "[Created ''c'']"] by auto
qed

end
