(* ===== verification/Obj_List.thy ===== *)
theory Obj_List
  imports Obj_Spec "HOL-Library.Sublist"
begin

text \<open>
  Listing a bucket page by page: a client that follows the continuation tokens gets, from pages of
  any size, the listing it would get from one page that had no limit.
\<close>

subsection \<open>Keys in order\<close>









subsection \<open>The entries of a listing\<close>









subsection \<open>From one page to the next\<close>









subsection \<open>A client that follows the tokens\<close>

definition withToken :: "http_request \<Rightarrow> string \<Rightarrow> http_request" where
  "withToken r tok = r\<lparr>hQuery := AList.update ''continuation-token'' [tok] (hQuery r)\<rparr>"


lemma withToken_query:
  "query (withToken r tok) ''continuation-token'' = tok"
  "name \<noteq> ''continuation-token'' \<Longrightarrow> query (withToken r tok) name = query r name"
  by (simp_all add: withToken_def headerGet_def update_conv')

lemma withToken_simps [simp]:
  "query (withToken r tok) ''prefix'' = query r ''prefix''" "query (withToken r tok) ''delimiter'' = query r ''delimiter''"
  "query (withToken r tok) ''start-after'' = query r ''start-after''" "listMax (withToken r tok) = listMax r"
  by (simp_all add: withToken_query(2) listMax_def)







subsection \<open>What is listed\<close>


















end
