(* ===== verification/Obj_Runs.thy ===== *)
theory Obj_Runs
  imports Obj_Spec
begin

text \<open>
  Runs of the server, under every interleaving of the requests in flight: what the store holds is
  what the requests that took effect made of it, one after another; and what faults do.
\<close>

subsection \<open>What a run shows\<close>

fun effectsOf :: "srv_label list \<Rightarrow> effect list" where
  "effectsOf [] = []"
| "effectsOf (Effect e # ls) = e # effectsOf ls"
| "effectsOf (l # ls) = effectsOf ls"

fun overOf :: "srv_label list \<Rightarrow> flight list" where
  "overOf [] = []"
| "overOf (Over f # ls) = f # overOf ls"
| "overOf (l # ls) = overOf ls"

fun servedOf :: "effect list \<Rightarrow> int list" where
  "servedOf [] = []"
| "servedOf (Served now r req body ev # es) = ev_seq ev # servedOf es"
| "servedOf (Created name # es) = servedOf es"

lemma effectsOf_append [simp]: "effectsOf (ls @ ls') = effectsOf ls @ effectsOf ls'"
  by (induction ls rule: effectsOf.induct) auto

lemma overOf_append [simp]: "overOf (ls @ ls') = overOf ls @ overOf ls'"
  by (induction ls rule: overOf.induct) auto

lemma servedOf_append [simp]: "servedOf (es @ es') = servedOf es @ servedOf es'"
  by (induction es rule: servedOf.induct) auto

abbreviation seqOf :: "flight \<Rightarrow> int" where
  "seqOf f \<equiv> ev_seq (f_ev f)"

text \<open>Faults that stop a request before it takes effect, whatever happens.\<close>

definition before :: "fault_action \<Rightarrow> bool" where
  "before a \<longleftrightarrow> a \<in> {Fail, Drop, Hang}"

definition unfaulted :: "flight \<Rightarrow> bool" where
  "unfaulted f \<longleftrightarrow> (\<forall>rl. f_fault f = Some rl \<longrightarrow> \<not> before (r_action rl))"

text \<open>How a request that is over ended, given whether it took effect.\<close>

definition over_ok :: "bool \<Rightarrow> flight \<Rightarrow> answer \<Rightarrow> bool" where
  "over_ok served f a \<longleftrightarrow>
     (\<not> served \<longrightarrow> \<not> ev_applied (f_ev f)) \<and>
     (\<forall>rl. f_fault f = Some rl \<longrightarrow> served \<longrightarrow> \<not> before (r_action rl) \<and>
       (r_action rl = FailAfter \<longrightarrow> (\<exists>w. a = Reply w \<and> w_status w = ruleStatus rl)) \<and> (r_action rl = DropAfter \<longrightarrow> a = HungUp))"

definition flight_ok :: "int set \<Rightarrow> flight \<Rightarrow> bool" where
  "flight_ok served f \<longleftrightarrow> (case f_phase f of
     PBody \<Rightarrow> seqOf f \<notin> served \<and> \<not> ev_applied (f_ev f) \<and> f_fault f = None
   | PHold rl body \<Rightarrow> seqOf f \<notin> served \<and> \<not> ev_applied (f_ev f) \<and> f_fault f = Some rl \<and> r_action rl \<notin> {Fail, Drop}
   | PEffect body \<Rightarrow> seqOf f \<notin> served \<and> \<not> ev_applied (f_ev f) \<and> unfaulted f
   | PAnswer w \<Rightarrow> seqOf f \<in> served \<and> unfaulted f
   | PDone a \<Rightarrow> over_ok (seqOf f \<in> served) f a)"

subsection \<open>Each stretch keeps a flight in order\<close>

lemma ended_ok:
  assumes "seqOf f \<notin> served" "\<not> ev_applied (f_ev f)"
  shows "flight_ok served (ended st a f)"
  using assms by (simp add: flight_ok_def ended_def over_ok_def)

lemma ended_seq [simp]: "seqOf (ended st a f) = seqOf f" "f_fault (ended st a f) = f_fault f" "f_phase (ended st a f) = PDone a"
  "ev_applied (f_ev (ended st a f)) = ev_applied (f_ev f)"
  by (simp_all add: ended_def)

lemma faulted_ok:
  assumes "seqOf f \<notin> served" "\<not> ev_applied (f_ev f)" "f_fault f = None"
  shows "flight_ok served (faulted L fault body f) \<and> seqOf (faulted L fault body f) = seqOf f"
proof (cases fault)
  case None
  then show ?thesis using assms by (simp add: faulted_def flight_ok_def unfaulted_def)
next
  case (Some rl)
  then show ?thesis using assms
    by (cases "r_action rl") (simp_all add: faulted_def fail_def Let_def flight_ok_def unfaulted_def over_ok_def before_def)
qed

lemma readBody_ok:
  assumes "flight_ok served f" "f_phase f = PBody" "readBody L rnd s f = (f', n)"
  shows "flight_ok served f' \<and> seqOf f' = seqOf f"
proof -
  have f: "seqOf f \<notin> served" "\<not> ev_applied (f_ev f)" "f_fault f = None" using assms(1,2) by (simp_all add: flight_ok_def)
  have "flight_ok served (faulted L fault body (f\<lparr>f_req := req\<rparr>)) \<and> seqOf (faulted L fault body (f\<lparr>f_req := req\<rparr>)) = seqOf f" for fault body req
    using faulted_ok [of "f\<lparr>f_req := req\<rparr>" served L fault body] f by simp
  then show ?thesis using assms(3) ended_ok [OF f(1,2)]
    by (auto simp: readBody_def Let_def split: option.splits sum.splits prod.splits)
qed

lemma released_ok:
  assumes "flight_ok served f" "f_phase f = PHold rl body"
  shows "flight_ok served (released waited rl body f) \<and> seqOf (released waited rl body f) = seqOf f"
proof -
  have f: "seqOf f \<notin> served" "\<not> ev_applied (f_ev f)" "f_fault f = Some rl" "r_action rl \<notin> {Fail, Drop}" using assms by (simp_all add: flight_ok_def)
  show ?thesis using f ended_ok [OF f(1,2)] by (auto simp: released_def flight_ok_def unfaulted_def before_def)
qed

lemma takeEffect_seq:
  assumes "takeEffect L now body f st = (st', f')" "\<not> ev_applied (f_ev f)"
  shows "st' = fst (handle L now (f_http f) (f_req f) body (f_ev f) st)" "f_fault f' = f_fault f" "\<exists>w. f_phase f' = PAnswer w"
  using assms by (auto simp: takeEffect_def split: prod.splits)

lemma answered_ok:
  assumes "flight_ok served f" "f_phase f = PAnswer w"
  shows "flight_ok served (answered L waited gone w f) \<and> seqOf (answered L waited gone w f) = seqOf f"
proof -
  have f: "seqOf f \<in> served" "unfaulted f" using assms by (simp_all add: flight_ok_def)
  have nz: "ruleStatus rl \<noteq> 0" for rl by (simp add: ruleStatus_def)
  show ?thesis
  proof (cases "f_fault f")
    case None
    then show ?thesis using f by (simp add: answered_def Let_def flight_ok_def over_ok_def)
  next
    case (Some rl)
    then show ?thesis using f nz
      by (cases "r_action rl") (auto simp: answered_def fail_def Let_def flight_ok_def over_ok_def unfaulted_def before_def)
  qed
qed

lemma handler_seq:
  "ev_seq (snd (snd (bucketOp L r req ev s))) = ev_seq ev" "ev_seq (snd (snd (put L now r req body ev s))) = ev_seq ev"
  "ev_seq (snd (snd (copy L now r req ev s))) = ev_seq ev" "ev_seq (snd (snd (getOp L r req ev s))) = ev_seq ev"
  "ev_seq (snd (snd (deleteOp L req ev s))) = ev_seq ev" "ev_seq (snd (snd (deletes L req body ev s))) = ev_seq ev"
  "ev_seq (snd (snd (listOp L r req ev s))) = ev_seq ev" "ev_seq (snd (snd (createMP L r req ev s))) = ev_seq ev"
  "ev_seq (snd (snd (putPart L req body ev s))) = ev_seq ev" "ev_seq (snd (snd (complete L now r req body ev s))) = ev_seq ev"
  "ev_seq (snd (snd (abortOp req ev s))) = ev_seq ev"
proof -
  show "ev_seq (snd (snd (bucketOp L r req ev s))) = ev_seq ev" unfolding bucketOp_def Let_def by (simp split: option.split)
  show "ev_seq (snd (snd (put L now r req body ev s))) = ev_seq ev" unfolding put_def Let_def by (simp split: option.split prod.split bool.split)
  show "ev_seq (snd (snd (copy L now r req ev s))) = ev_seq ev" unfolding copy_def Let_def by (simp split: option.split prod.split bool.split)
  have "ev_seq (snd (serveObject L r req o' ev)) = ev_seq ev" for o' unfolding serveObject_def Let_def by (simp split: option.split prod.split)
  then show "ev_seq (snd (snd (getOp L r req ev s))) = ev_seq ev" unfolding getOp_def by (simp add: case_prod_beta split: option.split)
  show "ev_seq (snd (snd (deleteOp L req ev s))) = ev_seq ev" unfolding deleteOp_def by (simp split: option.split)
  show "ev_seq (snd (snd (deletes L req body ev s))) = ev_seq ev" unfolding deletes_def by (simp split: option.split prod.split sum.split)
  show "ev_seq (snd (snd (listOp L r req ev s))) = ev_seq ev" unfolding listOp_def by (simp split: option.split prod.split)
  show "ev_seq (snd (snd (createMP L r req ev s))) = ev_seq ev" unfolding createMP_def Let_def by (simp split: option.split)
  show "ev_seq (snd (snd (putPart L req body ev s))) = ev_seq ev" unfolding putPart_def by (simp split: option.split)
  show "ev_seq (snd (snd (complete L now r req body ev s))) = ev_seq ev" unfolding complete_def Let_def
    by (simp split: option.split prod.split bool.split sum.split)
  show "ev_seq (snd (snd (abortOp req ev s))) = ev_seq ev" by (simp add: abortOp_def)
qed

lemma handle_seq: "ev_seq (snd (snd (handle L now r req body ev s))) = ev_seq ev"
  unfolding handle_def Let_def by (simp add: handler_seq)

lemma takeEffect_ok:
  assumes "flight_ok served f" "f_phase f = PEffect body" "takeEffect L now body f st = (st', f')"
  shows "seqOf f \<notin> served" "seqOf f' = seqOf f" "flight_ok (insert (seqOf f) served) f'"
    "st' = applyEffect L (Served now (f_http f) (f_req f) body (f_ev f)) st"
proof -
  have f: "seqOf f \<notin> served" "\<not> ev_applied (f_ev f)" "unfaulted f" using assms(1,2) by (simp_all add: flight_ok_def)
  note T = takeEffect_seq [OF assms(3) f(2)]
  show "seqOf f \<notin> served" by (rule f(1))
  show s: "seqOf f' = seqOf f" using assms(3) handle_seq [of L now "f_http f" "f_req f" body "f_ev f" st] by (auto simp: takeEffect_def split: prod.splits)
  show "flight_ok (insert (seqOf f) served) f'" using T(2,3) s f(3) by (auto simp: flight_ok_def unfaulted_def)
  show "st' = applyEffect L (Served now (f_http f) (f_req f) body (f_ev f)) st" using T(1) by simp
qed

text \<open>A flight is in order still when another request takes effect.\<close>

lemma flight_ok_other: "flight_ok served f \<Longrightarrow> seqOf f \<noteq> n \<Longrightarrow> flight_ok (insert n served) f"
  by (auto simp: flight_ok_def split: phase.splits)

subsection \<open>The invariant of a run\<close>

definition flightSeqs :: "server \<Rightarrow> int list" where
  "flightSeqs s = map seqOf (sv_flights s)"

definition run_inv :: "lib \<Rightarrow> bool \<Rightarrow> srv_label list \<Rightarrow> server \<Rightarrow> bool" where
  "run_inv L unique ls s \<longleftrightarrow>
     sv_store s = runStore L (effectsOf ls) (newStore unique) \<and>
     map ev_seq (sv_history s) = map seqOf (overOf ls) \<and>
     distinct (flightSeqs s @ map seqOf (overOf ls)) \<and> set (flightSeqs s) \<union> set (map seqOf (overOf ls)) = {1..sv_seq s} \<and> 0 \<le> sv_seq s \<and>
     distinct (servedOf (effectsOf ls)) \<and> set (servedOf (effectsOf ls)) \<subseteq> {1..sv_seq s} \<and>
     (\<forall>f \<in> set (sv_flights s). flight_ok (set (servedOf (effectsOf ls))) f) \<and>
     (\<forall>f \<in> set (overOf ls). \<exists>a. f_phase f = PDone a \<and> over_ok (seqOf f \<in> set (servedOf (effectsOf ls))) f a)"

lemma run_invD:
  assumes "run_inv L unique ls s"
  shows "sv_store s = runStore L (effectsOf ls) (newStore unique)" "map ev_seq (sv_history s) = map seqOf (overOf ls)"
    "distinct (flightSeqs s @ map seqOf (overOf ls))" "set (flightSeqs s) \<union> set (map seqOf (overOf ls)) = {1..sv_seq s}" "0 \<le> sv_seq s"
    "distinct (servedOf (effectsOf ls))" "set (servedOf (effectsOf ls)) \<subseteq> {1..sv_seq s}"
    "\<forall>f \<in> set (sv_flights s). flight_ok (set (servedOf (effectsOf ls))) f"
    "\<forall>f \<in> set (overOf ls). \<exists>a. f_phase f = PDone a \<and> over_ok (seqOf f \<in> set (servedOf (effectsOf ls))) f a"
  using assms unfolding run_inv_def by blast+

text \<open>Replacing a flight by what became of it, when nothing took effect.\<close>

lemma inv_replace:
  assumes inv: "run_inv L unique ls s" and i: "i < length (sv_flights s)" and f: "flight_ok (set (servedOf (effectsOf ls))) f" "seqOf f = seqOf (sv_flights s ! i)"
  shows "run_inv L unique (ls @ [Inner]) (s\<lparr>sv_rng := n, sv_flights := (sv_flights s)[i := f]\<rparr>)"
proof -
  note I = run_invD [OF inv]
  have fs: "flightSeqs (s\<lparr>sv_rng := n, sv_flights := (sv_flights s)[i := f]\<rparr>) = flightSeqs s"
    using i f(2) by (simp add: flightSeqs_def map_update list_update_same_conv)
  have "set ((sv_flights s)[i := f]) \<subseteq> insert f (set (sv_flights s))" by (rule set_update_subset_insert)
  then have "\<forall>g \<in> set ((sv_flights s)[i := f]). flight_ok (set (servedOf (effectsOf ls))) g" using I(8) f(1) by blast
  then show ?thesis unfolding run_inv_def fs using I by simp
qed

lemma inv_arrive:
  assumes inv: "run_inv L unique ls s"
  shows "run_inv L unique (ls @ [Inner]) (arrive now r s)"
proof (cases "sv_closed s")
  case True
  then show ?thesis using inv by (simp add: arrive_def run_inv_def)
next
  case False
  note I = run_invD [OF inv]
  have new: "sv_seq s + 1 \<notin> {1..sv_seq s}" by simp
  have iv: "{1..sv_seq s + 1} = insert (sv_seq s + 1) {1..sv_seq s}" using I(5) by auto
  have n1: "sv_seq s + 1 \<notin> set (flightSeqs s)" "sv_seq s + 1 \<notin> set (map seqOf (overOf ls))" using I(4) new by blast+
  have n2: "sv_seq s + 1 \<notin> set (servedOf (effectsOf ls))" using I(7) new by blast
  let ?s = "arrive now r s"
  have f: "flightSeqs ?s = flightSeqs s @ [sv_seq s + 1]" "sv_seq ?s = sv_seq s + 1" "sv_store ?s = sv_store s" "sv_history ?s = sv_history s"
    "\<exists>f. sv_flights ?s = sv_flights s @ [f] \<and> flight_ok (set (servedOf (effectsOf ls))) f"
    using False n2 by (auto simp: arrive_def flightSeqs_def Let_def flight_ok_def)
  show ?thesis unfolding run_inv_def f(1-4) iv using I n1 f(5) by auto
qed

lemma inv_effect:
  assumes inv: "run_inv L unique ls s" and i: "i < length (sv_flights s)" "f_phase (sv_flights s ! i) = PEffect body"
    and t: "takeEffect L now body (sv_flights s ! i) (sv_store s) = (st, f)"
  shows "run_inv L unique (ls @ [Effect (Served now (f_http (sv_flights s ! i)) (f_req (sv_flights s ! i)) body (f_ev (sv_flights s ! i)))])
    (s\<lparr>sv_store := st, sv_flights := (sv_flights s)[i := f]\<rparr>)"
proof -
  note I = run_invD [OF inv]
  let ?f = "sv_flights s ! i" and ?S = "set (servedOf (effectsOf ls))"
  have fi: "?f \<in> set (sv_flights s)" using i(1) by simp
  note T = takeEffect_ok [OF bspec [OF I(8) fi] i(2) t]
  have fs: "flightSeqs (s\<lparr>sv_store := st, sv_flights := (sv_flights s)[i := f]\<rparr>) = flightSeqs s"
    using i(1) T(2) by (simp add: flightSeqs_def map_update list_update_same_conv)
  have d: "distinct (map seqOf (sv_flights s))" using I(3) by (simp add: flightSeqs_def)
  have sf: "seqOf ?f \<in> set (flightSeqs s)" using fi by (simp add: flightSeqs_def)
  have fl: "flight_ok (insert (seqOf ?f) ?S) g" if g: "g \<in> set ((sv_flights s)[i := f])" for g
  proof -
    obtain j where j: "j < length (sv_flights s)" "g = (sv_flights s)[i := f] ! j" using g by (auto simp: in_set_conv_nth)
    show ?thesis
    proof (cases "j = i")
      case True
      then show ?thesis using j T(3) by simp
    next
      case False
      then have "seqOf g \<noteq> seqOf ?f" "g \<in> set (sv_flights s)" using j i(1) nth_eq_iff_index_eq [OF d, of j i] by auto
      then show ?thesis using flight_ok_other [of ?S g] I(8) by blast
    qed
  qed
  have ov: "\<exists>a. f_phase g = PDone a \<and> over_ok (seqOf g \<in> insert (seqOf ?f) ?S) g a" if g: "g \<in> set (overOf ls)" for g
  proof -
    have "set (flightSeqs s) \<inter> seqOf ` set (overOf ls) = {}" using I(3) by simp
    then have "seqOf g \<noteq> seqOf ?f" using sf g by (metis disjoint_iff imageI)
    then show ?thesis using I(9) g by simp
  qed
  have up: "seqOf ?f \<in> {1..sv_seq s}" using I(4) sf by blast
  show ?thesis unfolding run_inv_def fs using I T(1,4) fl ov up by auto
qed

lemma inv_finish:
  assumes inv: "run_inv L unique ls s" and i: "i < length (sv_flights s)" "f_phase (sv_flights s ! i) = PDone a"
  shows "run_inv L unique (ls @ [Over (sv_flights s ! i)]) (finishFlight now i s)"
proof -
  note I = run_invD [OF inv]
  let ?f = "sv_flights s ! i" and ?s = "finishFlight now i s"
  have fi: "?f \<in> set (sv_flights s)" using i(1) by simp
  have sp: "sv_flights s = take i (sv_flights s) @ ?f # drop (Suc i) (sv_flights s)" by (rule id_take_nth_drop [OF i(1)])
  have q: "flightSeqs s = map seqOf (take i (sv_flights s)) @ seqOf ?f # map seqOf (drop (Suc i) (sv_flights s))"
    unfolding flightSeqs_def by (subst sp) simp
  have q': "flightSeqs ?s = map seqOf (take i (sv_flights s)) @ map seqOf (drop (Suc i) (sv_flights s))" by (simp add: flightSeqs_def finishFlight_def)
  have sub: "set (sv_flights ?s) \<subseteq> set (sv_flights s)" by (auto simp: finishFlight_def dest: in_set_takeD in_set_dropD)
  have ok: "over_ok (seqOf ?f \<in> set (servedOf (effectsOf ls))) ?f a" using bspec [OF I(8) fi] i(2) by (simp add: flight_ok_def)
  have f: "sv_store ?s = sv_store s" "sv_seq ?s = sv_seq s" "map ev_seq (sv_history ?s) = map ev_seq (sv_history s) @ [seqOf ?f]" by (simp_all add: finishFlight_def)
  have d: "distinct (flightSeqs ?s @ map seqOf (overOf (ls @ [Over ?f])))" using I(3) unfolding q q' by auto
  have e: "set (flightSeqs ?s) \<union> set (map seqOf (overOf (ls @ [Over ?f]))) = {1..sv_seq s}" using I(4) unfolding q q' by auto
  have fl: "\<forall>g \<in> set (sv_flights ?s). flight_ok (set (servedOf (effectsOf ls))) g" using I(8) sub by blast
  have ov: "\<forall>g \<in> set (overOf (ls @ [Over ?f])). \<exists>a. f_phase g = PDone a \<and> over_ok (seqOf g \<in> set (servedOf (effectsOf ls))) g a"
    using I(9) i(2) ok by auto
  show ?thesis unfolding run_inv_def f using I(1,2,5,6,7) d e fl ov by simp
qed

lemma inv_step:
  assumes inv: "run_inv L unique ls s" and "srv_step L rnd s l s'"
  shows "run_inv L unique (ls @ [l]) s'"
  using assms(2)
proof cases
  case (arrives now r)
  then show ?thesis using inv_arrive [OF inv] by simp
next
  case (creates name)
  then show ?thesis using inv by (simp add: run_inv_def flightSeqs_def)
next
  case (reads i f n)
  then have "sv_flights s ! i \<in> set (sv_flights s)" by simp
  then have "flight_ok (set (servedOf (effectsOf ls))) (sv_flights s ! i)" using run_invD(8) [OF inv] by blast
  from readBody_ok [OF this reads(4,5)] show ?thesis using inv_replace [OF inv reads(3)] reads(1,2) by simp
next
  case (holds i rl body waited)
  then have "sv_flights s ! i \<in> set (sv_flights s)" by simp
  then have "flight_ok (set (servedOf (effectsOf ls))) (sv_flights s ! i)" using run_invD(8) [OF inv] by blast
  from released_ok [OF this holds(4), of waited] show ?thesis using inv_replace [OF inv holds(3), of _ "sv_rng s"] holds(1,2) by simp
next
  case (effects i body now st f)
  then show ?thesis using inv_effect [OF inv effects(3-5)] by simp
next
  case (answers i w waited gone)
  then have "sv_flights s ! i \<in> set (sv_flights s)" by simp
  then have "flight_ok (set (servedOf (effectsOf ls))) (sv_flights s ! i)" using run_invD(8) [OF inv] by blast
  from answered_ok [OF this answers(4), of L waited gone] show ?thesis using inv_replace [OF inv answers(3), of _ "sv_rng s"] answers(1,2) by simp
next
  case (finishes i a now)
  then show ?thesis using inv_finish [OF inv finishes(3,4)] by simp
qed (use inv in \<open>simp_all add: run_inv_def flightSeqs_def AddRule_def RemoveRule_def ClearRules_def Close_def Let_def\<close>)

lemma run_inv: "srv_runs L rnd unique ls s \<Longrightarrow> run_inv L unique ls s"
proof (induction rule: srv_runs.induct)
  case starts
  then show ?case by (simp add: run_inv_def newServer_def flightSeqs_def)
next
  case (steps ls s l s')
  then show ?case using inv_step by blast
qed

text \<open>
  C7: concurrent requests act one after another, and faults do what they say. In every run of the
  server, whatever the interleaving, the waits and the draws: what the store holds is what the
  requests that took effect made of it, in the order they did, none of them twice; every request
  taken in is in flight or recorded in the history, once; a request that a fault failed, dropped or hung
  before it took effect never took effect, and one recorded as applied did; and one that took effect and was
  then failed or dropped was answered with the rule's status, or with nothing.
\<close>

theorem server_runs:
  assumes "srv_runs L rnd unique ls s"
  shows "sv_store s = runStore L (effectsOf ls) (newStore unique) \<and> distinct (servedOf (effectsOf ls)) \<and>
    map ev_seq (History s) = map seqOf (overOf ls) \<and> distinct (flightSeqs s @ map seqOf (overOf ls)) \<and>
    set (flightSeqs s) \<union> set (map seqOf (overOf ls)) = {1..sv_seq s} \<and>
    (\<forall>f \<in> set (overOf ls). \<forall>rl. f_fault f = Some rl \<longrightarrow> r_action rl \<in> {Fail, Drop, Hang} \<longrightarrow> seqOf f \<notin> set (servedOf (effectsOf ls))) \<and>
    (\<forall>f \<in> set (overOf ls). ev_applied (f_ev f) \<longrightarrow> seqOf f \<in> set (servedOf (effectsOf ls))) \<and>
    (\<forall>f \<in> set (overOf ls). \<forall>rl. f_fault f = Some rl \<longrightarrow> seqOf f \<in> set (servedOf (effectsOf ls)) \<longrightarrow>
      (r_action rl = FailAfter \<longrightarrow> (\<exists>w. f_phase f = PDone (Reply w) \<and> w_status w = ruleStatus rl)) \<and>
      (r_action rl = DropAfter \<longrightarrow> f_phase f = PDone HungUp))"
proof -
  note I = run_invD [OF run_inv [OF assms]]
  have o: "(\<forall>rl. f_fault f = Some rl \<longrightarrow> r_action rl \<in> {Fail, Drop, Hang} \<longrightarrow> seqOf f \<notin> set (servedOf (effectsOf ls))) \<and>
      (ev_applied (f_ev f) \<longrightarrow> seqOf f \<in> set (servedOf (effectsOf ls))) \<and>
      (\<forall>rl. f_fault f = Some rl \<longrightarrow> seqOf f \<in> set (servedOf (effectsOf ls)) \<longrightarrow>
        (r_action rl = FailAfter \<longrightarrow> (\<exists>w. f_phase f = PDone (Reply w) \<and> w_status w = ruleStatus rl)) \<and> (r_action rl = DropAfter \<longrightarrow> f_phase f = PDone HungUp))"
    if f: "f \<in> set (overOf ls)" for f
  proof -
    obtain a where a: "f_phase f = PDone a" "over_ok (seqOf f \<in> set (servedOf (effectsOf ls))) f a" using I(9) f by blast
    then show ?thesis unfolding over_ok_def before_def by auto
  qed
  show ?thesis using I(1-6) o by (simp add: History_def)
qed

text \<open>A put whose answer a fault drops after it took effect.\<close>

definition drop_rule :: Rule where
  "drop_rule = \<lparr>r_name = ''r'', r_clients = [], r_ops = [], r_prefix = [], r_prob = Fin 1, r_action = DropAfter, r_status = 0, r_delay = 0\<rparr>"

definition run1 :: server where
  "run1 = fst (AddRule drop_rule ((newServer True)\<lparr>sv_store := CreateBucket ''b'' (newStore True)\<rparr>))"

definition run2 :: server where
  "run2 = arrive 1 (demo_put []) run1"

definition run3 :: server where
  "run3 = (case readBody demo_lib (\<lambda>_. Fin 0) run2 (sv_flights run2 ! 0) of (f, n) \<Rightarrow> run2\<lparr>sv_rng := n, sv_flights := (sv_flights run2)[0 := f]\<rparr>)"

definition run4 :: server where
  "run4 = (case takeEffect demo_lib 2 ''v'' (sv_flights run3 ! 0) (sv_store run3) of (st, f) \<Rightarrow> run3\<lparr>sv_store := st, sv_flights := (sv_flights run3)[0 := f]\<rparr>)"

definition run4_reply :: recorder where
  "run4_reply = (case f_phase (sv_flights run4 ! 0) of PAnswer w \<Rightarrow> w | _ \<Rightarrow> newRecorder)"

definition run5 :: server where
  "run5 = run4\<lparr>sv_flights := (sv_flights run4)[0 := answered demo_lib True False run4_reply (sv_flights run4 ! 0)]\<rparr>"

definition run_labels :: "srv_label list" where
  "run_labels = [Effect (Created ''b''), Inner, Inner, Inner,
     Effect (Served 2 (f_http (sv_flights run3 ! 0)) (f_req (sv_flights run3 ! 0)) ''v'' (f_ev (sv_flights run3 ! 0))), Inner, Over (sv_flights run5 ! 0)]"

lemma demo_run: "srv_runs demo_lib (\<lambda>_. Fin 0) True run_labels (finishFlight 3 0 run5)"
proof -
  let ?R = "srv_runs demo_lib (\<lambda>_. Fin 0) True"
  have "?R ([] @ [Effect (Created ''b'')]) ((newServer True)\<lparr>sv_store := CreateBucket ''b'' (sv_store (newServer True))\<rparr>)"
    by (rule srv_runs.steps [OF srv_runs.starts srv_step.creates])
  then have "?R [Effect (Created ''b'')] ((newServer True)\<lparr>sv_store := CreateBucket ''b'' (newStore True)\<rparr>)" by (simp add: newServer_def)
  from srv_runs.steps [OF this srv_step.adds] have "?R [Effect (Created ''b''), Inner] run1" by (simp add: run1_def)
  from srv_runs.steps [OF this srv_step.arrives] have r2: "?R [Effect (Created ''b''), Inner, Inner] run2" by (simp add: run2_def)
  have "length (sv_flights run2) = 1 \<and> f_phase (sv_flights run2 ! 0) = PBody" by code_simp
  then have i2: "0 < length (sv_flights run2)" "f_phase (sv_flights run2 ! 0) = PBody" by simp_all
  obtain f n where f: "readBody demo_lib (\<lambda>_. Fin 0) run2 (sv_flights run2 ! 0) = (f, n)" by fastforce
  from srv_runs.steps [OF r2 srv_step.reads [OF i2 f]] have r3: "?R [Effect (Created ''b''), Inner, Inner, Inner] run3" by (simp add: run3_def f)
  have "length (sv_flights run3) = 1 \<and> (case f_phase (sv_flights run3 ! 0) of PEffect b \<Rightarrow> b = ''v'' | _ \<Rightarrow> False)" by code_simp
  then have i3: "0 < length (sv_flights run3)" "f_phase (sv_flights run3 ! 0) = PEffect ''v''" by (auto split: phase.splits)
  obtain st g where g: "takeEffect demo_lib 2 ''v'' (sv_flights run3 ! 0) (sv_store run3) = (st, g)" by fastforce
  from srv_runs.steps [OF r3 srv_step.effects [OF i3 g]] have r4: "?R ([Effect (Created ''b''), Inner, Inner, Inner] @
      [Effect (Served 2 (f_http (sv_flights run3 ! 0)) (f_req (sv_flights run3 ! 0)) ''v'' (f_ev (sv_flights run3 ! 0)))]) run4" by (simp add: run4_def g)
  have "length (sv_flights run4) = 1 \<and> (case f_phase (sv_flights run4 ! 0) of PAnswer w \<Rightarrow> True | _ \<Rightarrow> False)" by code_simp
  then have i4: "0 < length (sv_flights run4)" "f_phase (sv_flights run4 ! 0) = PAnswer run4_reply" by (auto simp: run4_reply_def split: phase.splits)
  note r5 = srv_runs.steps [OF r4 srv_step.answers [OF i4, of demo_lib "\<lambda>_. Fin 0" True False], folded run5_def]
  have "length (sv_flights run5) = 1 \<and> (case f_phase (sv_flights run5 ! 0) of PDone HungUp \<Rightarrow> True | _ \<Rightarrow> False)" by code_simp
  then have i5: "0 < length (sv_flights run5)" "f_phase (sv_flights run5 ! 0) = PDone HungUp" by (auto split: phase.splits answer.splits)
  from srv_runs.steps [OF r5 srv_step.finishes [OF i5, of demo_lib "\<lambda>_. Fin 0" 3]] show ?thesis by (simp add: run_labels_def)
qed

theorem server_runs_witness:
  "\<exists>f. overOf run_labels = [f] \<and> f_fault f = Some drop_rule \<and> f_phase f = PDone HungUp \<and>
     sv_store (finishFlight 3 0 run5) = runStore demo_lib (effectsOf run_labels) (newStore True)"
proof -
  let ?f = "sv_flights run5 ! 0"
  have o: "overOf run_labels = [?f]" by (simp add: run_labels_def)
  have "f_fault ?f = Some drop_rule \<and> seqOf ?f \<in> set (servedOf (effectsOf run_labels))" by code_simp
  moreover have "r_action drop_rule = DropAfter" by (simp add: drop_rule_def)
  ultimately show ?thesis using server_runs [OF demo_run] o by simp
qed

end
