(* ===== verification/Nem_Model.thy ===== *)
theory Nem_Model
  imports Torx_Prelude "HOL-Library.Monad_Syntax"
begin

text \<open>
  The nemesis, \<^verbatim>\<open>src/nemesis/nemesis.go\<close>: the loop that injects faults one at a time and heals them,
  the count of faults that hold a target, and the windows a record of events shows. A time is a
  number of nanoseconds after Go's zero time, which is 0. What the loop meets - the clock, the
  draws, its context, what \<^verbatim>\<open>select\<close> picks, the faults themselves, the supervisor and the recorder - acts
  on a world of any type. A loop that never ends, and a wait for what never comes, is \<open>None\<close>; a panic of
  the generator, asked for a number below one that is not positive, is a value of its own.
\<close>

subsection \<open>Faults, events and schedules\<close>

datatype nem_error = ErrNoTarget | OtherError string | Wrapping string "nem_error list"

text \<open>\<^verbatim>\<open>errors.Is(err, ErrNoTarget)\<close>.\<close>

fun isNoTarget :: "nem_error \<Rightarrow> bool" where
  "isNoTarget ErrNoTarget = True"
| "isNoTarget (OtherError _) = False"
| "isNoTarget (Wrapping _ es) = list_ex isNoTarget es"

type_synonym time = int

type_synonym 'w heal = "'w \<Rightarrow> nem_error option \<times> 'w"

record 'w Fault =
  ft_name :: string
  ft_weight :: int
  ft_inject :: "'w \<Rightarrow> ('w heal option \<times> string \<times> nem_error option) \<times> 'w"

record NEvent =
  ne_fault :: string
  ne_heal :: bool
  ne_target :: string
  ne_start :: time
  ne_end :: time
  ne_held :: bool
  ne_err :: "nem_error option"

record Schedule =
  QuietMin :: int
  QuietMax :: int
  HoldMin :: int
  HoldMax :: int
  LongHold :: int
  LongEvery :: int

definition DefaultSchedule :: Schedule where
  "DefaultSchedule = \<lparr>QuietMin = 500000000, QuietMax = 3000000000, HoldMin = 500000000, HoldMax = 8000000000, LongHold = 30000000000, LongEvery = 10\<rparr>"

text \<open>
  The world a nemesis runs in: what its generator gives next, the clock, whether the context has
  ended, which of two ready cases \<^verbatim>\<open>select\<close> picks, \<open>True\<close> for the first, and what goes on elsewhere
  while the nemesis is blocked.
\<close>

record 'w world_ops =
  wo_draw :: "'w \<Rightarrow> int \<times> 'w"
  wo_now :: "'w \<Rightarrow> time \<times> 'w"
  wo_ended :: "'w \<Rightarrow> bool \<times> 'w"
  wo_choose :: "'w \<Rightarrow> bool \<times> 'w"
  wo_idle :: "'w \<Rightarrow> 'w"

record 'w Nemesis =
  nm_faults :: "'w Fault list"
  nm_schedule :: Schedule
  nm_before :: "('w \<Rightarrow> 'w) option"
  nm_record :: "(NEvent \<Rightarrow> 'w \<Rightarrow> 'w) option"

subsection \<open>Draws\<close>

text \<open>A number from 0 and below \<open>n\<close>; \<open>None\<close> is the panic on an \<open>n\<close> that is not positive.\<close>

definition IntN :: "'w world_ops \<Rightarrow> int \<Rightarrow> 'w \<Rightarrow> (int \<times> 'w) option" where
  "IntN ops n w = (if n \<le> 0 then None else case wo_draw ops w of (x, w') \<Rightarrow> Some (x mod n, w'))"

definition between :: "'w world_ops \<Rightarrow> int \<Rightarrow> int \<Rightarrow> 'w \<Rightarrow> (int \<times> 'w) option" where
  "between ops lo hi w =
     (if hi \<le> lo then Some (lo, w)
      else case IntN ops (wrap64 (hi - lo)) w of None \<Rightarrow> None | Some (x, w') \<Rightarrow> Some (wrap64 (lo + x), w'))"

definition totalWeight :: "'w Fault list \<Rightarrow> int" where
  "totalWeight fs = foldl (\<lambda>tot f. wrap64 (tot + max (ft_weight f) 0)) 0 fs"

fun pickAt :: "'w Fault list \<Rightarrow> int \<Rightarrow> nat \<Rightarrow> nat option" where
  "pickAt [] r i = None"
| "pickAt (f # fs) r i = (let r' = r - max (ft_weight f) 0 in if r' < 0 then Some i else pickAt fs r' (Suc i))"

definition pick :: "'w Fault list \<Rightarrow> int \<Rightarrow> 'w Fault" where
  "pick fs r = (case pickAt fs r 0 of Some i \<Rightarrow> fs ! i | None \<Rightarrow> last fs)"

subsection \<open>Waiting\<close>

text \<open>
  \<^verbatim>\<open>Sleep\<close>: a timer that is due \<open>d\<close> after it is made, and a \<^verbatim>\<open>select\<close> over its channel and the context's. It blocks
  while neither is ready, takes the one that is, and when both are picks either. A wait for the
  context alone is a receive from its channel.
\<close>

partial_function (option) select_timer :: "'w world_ops \<Rightarrow> time \<Rightarrow> 'w \<Rightarrow> (bool \<times> 'w) option" where
  [code]: "select_timer ops due w =
     (case wo_now ops w of (now, w) \<Rightarrow> case wo_ended ops w of (done, w) \<Rightarrow>
        if due \<le> now then Some (if done then wo_choose ops w else (True, w))
        else if done then Some (False, w)
        else select_timer ops due (wo_idle ops w))"

definition Sleep :: "'w world_ops \<Rightarrow> int \<Rightarrow> 'w \<Rightarrow> (bool \<times> 'w) option" where
  "Sleep ops d w = (case wo_now ops w of (now, w) \<Rightarrow> select_timer ops (now + d) w)"

partial_function (option) wait_ended :: "'w world_ops \<Rightarrow> 'w \<Rightarrow> 'w option" where
  [code]: "wait_ended ops w = (case wo_ended ops w of (done, w) \<Rightarrow> if done then Some w else wait_ended ops (wo_idle ops w))"

subsection \<open>The loop\<close>

definition record_event :: "'w Nemesis \<Rightarrow> NEvent \<Rightarrow> 'w \<Rightarrow> 'w" where
  "record_event n ev w = (case nm_record n of None \<Rightarrow> w | Some f \<Rightarrow> f ev w)"

definition holdTime :: "'w world_ops \<Rightarrow> Schedule \<Rightarrow> 'w \<Rightarrow> (int \<times> 'w) option" where
  "holdTime ops s w = do {
     (hold, w) \<leftarrow> between ops (HoldMin s) (HoldMax s) w;
     if LongEvery s > 0 \<and> LongHold s > HoldMax s then do {
       (x, w) \<leftarrow> IntN ops (LongEvery s) w;
       if x = 0 then between ops (HoldMax s) (LongHold s) w else Some (hold, w)
     } else Some (hold, w)
   }"

text \<open>How a stretch of the loop ends: it gets to its end, panics, or blocks for ever.\<close>

datatype 'a nem_res = Reaches 'a | Panics_there | Blocks

text \<open>What follows an injection that returned a heal: the hold, and the heal whether or not it was held out.\<close>

definition healFault :: "'w world_ops \<Rightarrow> 'w Nemesis \<Rightarrow> 'w Fault \<Rightarrow> string \<Rightarrow> 'w heal \<Rightarrow> 'w \<Rightarrow> (NEvent \<times> 'w) nem_res" where
  "healFault ops n f target heal w =
     (case holdTime ops (nm_schedule n) w of
        None \<Rightarrow> Panics_there
      | Some (hold, w) \<Rightarrow>
          (case Sleep ops hold w of
             None \<Rightarrow> Blocks
           | Some (_, w) \<Rightarrow>
               (let (start, w) = wo_now ops w;
                    (err, w) = heal w;
                    (stop, w) = wo_now ops w;
                    ev = \<lparr>ne_fault = ft_name f, ne_heal = True, ne_target = target, ne_start = start, ne_end = stop, ne_held = False, ne_err = err\<rparr>
                in Reaches (ev, record_event n ev w))))"

text \<open>One fault: its injection and, where it holds, its heal; the events recorded.\<close>

definition oneFault :: "'w world_ops \<Rightarrow> 'w Nemesis \<Rightarrow> int \<Rightarrow> 'w \<Rightarrow> (NEvent list \<times> 'w) nem_res" where
  "oneFault ops n tot w =
     (case IntN ops tot w of
        None \<Rightarrow> Panics_there
      | Some (r, w) \<Rightarrow>
          (let f = pick (nm_faults n) r;
               (start, w) = wo_now ops w;
               ((heal, target, err), w) = ft_inject f w;
               (stop, w) = wo_now ops w;
               ev = \<lparr>ne_fault = ft_name f, ne_heal = False, ne_target = target, ne_start = start, ne_end = stop, ne_held = (heal \<noteq> None), ne_err = err\<rparr>;
               w = record_event n ev w
           in (case heal of
                 None \<Rightarrow> Reaches ([ev], w)
               | Some h \<Rightarrow>
                   (case healFault ops n f target h w of
                      Reaches (ev', w) \<Rightarrow> Reaches ([ev, ev'], w)
                    | Panics_there \<Rightarrow> Panics_there
                    | Blocks \<Rightarrow> Blocks))))"

text \<open>One round, after which the loop has returned or goes on.\<close>

datatype 'w nem_turn = Stops 'w | Goes "NEvent list" 'w

definition nem_round :: "'w world_ops \<Rightarrow> 'w Nemesis \<Rightarrow> int \<Rightarrow> 'w \<Rightarrow> 'w nem_turn nem_res" where
  "nem_round ops n tot w =
     (case between ops (QuietMin (nm_schedule n)) (QuietMax (nm_schedule n)) w of
        None \<Rightarrow> Panics_there
      | Some (q, w) \<Rightarrow>
          (case Sleep ops q w of
             None \<Rightarrow> Blocks
           | Some (False, w) \<Rightarrow> Reaches (Stops w)
           | Some (True, w) \<Rightarrow>
               (case (case nm_before n of None \<Rightarrow> (False, w) | Some b \<Rightarrow> wo_ended ops (b w)) of
                  (True, w) \<Rightarrow> Reaches (Stops w)
                | (False, w) \<Rightarrow>
                    (case oneFault ops n tot w of
                       Reaches (evs, w) \<Rightarrow> Reaches (Goes evs w)
                     | Panics_there \<Rightarrow> Panics_there
                     | Blocks \<Rightarrow> Blocks))))"

text \<open>What a run ends with: the events it recorded, or a panic.\<close>

datatype 'w nem_out = Returned "NEvent list" 'w | Panicked

partial_function (option) nem_loop :: "'w world_ops \<Rightarrow> 'w Nemesis \<Rightarrow> int \<Rightarrow> NEvent list \<Rightarrow> 'w \<Rightarrow> 'w nem_out option" where
  [code]: "nem_loop ops n tot evs w =
     (case nem_round ops n tot w of
        Reaches (Stops w) \<Rightarrow> Some (Returned evs w)
      | Reaches (Goes es w) \<Rightarrow> nem_loop ops n tot (evs @ es) w
      | Panics_there \<Rightarrow> Some Panicked
      | Blocks \<Rightarrow> None)"

definition nem_Run :: "'w world_ops \<Rightarrow> 'w Nemesis \<Rightarrow> 'w \<Rightarrow> 'w nem_out option" where
  "nem_Run ops n w =
     (let tot = totalWeight (nm_faults n) in
      if tot = 0 then map_option (Returned []) (wait_ended ops w)
      else nem_loop ops n tot [] w)"

subsection \<open>Holds\<close>

text \<open>
  A release is known by the number of the \<^verbatim>\<open>Hold\<close> that returned it, with its targets and whether its
  \<^verbatim>\<open>sync.Once\<close> has run.
\<close>

record Holds =
  hd_n :: "string \<rightharpoonup> int"
  hd_releases :: "(string list \<times> bool) list"

definition noHolds :: Holds where
  "noHolds = \<lparr>hd_n = Map.empty, hd_releases = []\<rparr>"

definition countOf :: "(string \<rightharpoonup> int) \<Rightarrow> string \<Rightarrow> int" where
  "countOf m t = (case m t of Some c \<Rightarrow> c | None \<Rightarrow> 0)"

definition Hold :: "string list \<Rightarrow> Holds \<Rightarrow> nat \<times> Holds" where
  "Hold targets h = (length (hd_releases h),
     h\<lparr>hd_n := foldl (\<lambda>m t. m(t \<mapsto> countOf m t + 1)) (hd_n h) targets, hd_releases := hd_releases h @ [(targets, False)]\<rparr>)"

definition unhold :: "(string \<rightharpoonup> int) \<Rightarrow> string \<Rightarrow> string \<rightharpoonup> int" where
  "unhold m t = (let c = countOf m t - 1 in if c \<le> 0 then m(t := None) else m(t \<mapsto> c))"

definition release :: "nat \<Rightarrow> Holds \<Rightarrow> Holds" where
  "release i h = (case hd_releases h ! i of (targets, done) \<Rightarrow>
     if done then h else h\<lparr>hd_n := foldl unhold (hd_n h) targets, hd_releases := (hd_releases h)[i := (targets, True)]\<rparr>)"

definition Held :: "string \<Rightarrow> Holds \<Rightarrow> bool" where
  "Held t h \<longleftrightarrow> countOf (hd_n h) t > 0"

definition Released :: "('w \<Rightarrow> 'w) \<Rightarrow> 'w heal option \<Rightarrow> 'w heal" where
  "Released rel heal w = (case heal of
     None \<Rightarrow> (None, rel w)
   | Some h \<Rightarrow> case h w of (err, w') \<Rightarrow> (err, rel w'))"

subsection \<open>Windows\<close>

record Window =
  wn_fault :: string
  wn_target :: string
  wn_start :: time
  wn_end :: time
  wn_healErr :: "nem_error option"

type_synonym nem_key = "string \<times> string"

definition eventKey :: "NEvent \<Rightarrow> nem_key" where
  "eventKey e = (ne_fault e, ne_target e)"

definition closeWindow :: "NEvent \<Rightarrow> Window \<Rightarrow> Window" where
  "closeWindow e w = (case ne_err e of Some err \<Rightarrow> w\<lparr>wn_healErr := Some err\<rparr> | None \<Rightarrow> w\<lparr>wn_end := ne_end e\<rparr>)"

definition windowStep :: "Window list \<times> (nem_key \<Rightarrow> nat list) \<Rightarrow> NEvent \<Rightarrow> Window list \<times> (nem_key \<Rightarrow> nat list)" where
  "windowStep s e = (case s of (out, opn) \<Rightarrow>
     let k = eventKey e in
     if ne_heal e then
       (case opn k of [] \<Rightarrow> (out, opn) | i # q \<Rightarrow> (out[i := closeWindow e (out ! i)], opn(k := q)))
     else if ne_held e then
       (out @ [\<lparr>wn_fault = ne_fault e, wn_target = ne_target e, wn_start = ne_start e, wn_end = 0, wn_healErr = None\<rparr>],
        opn(k := opn k @ [length out]))
     else if (case ne_err e of Some err \<Rightarrow> isNoTarget err | None \<Rightarrow> False) then (out, opn)
     else (out @ [\<lparr>wn_fault = ne_fault e, wn_target = ne_target e, wn_start = ne_start e, wn_end = ne_end e, wn_healErr = None\<rparr>], opn))"

definition Windows :: "NEvent list \<Rightarrow> Window list" where
  "Windows events = fst (foldl windowStep ([], \<lambda>_. []) events)"

definition Overlaps :: "Window \<Rightarrow> time \<Rightarrow> time \<Rightarrow> int \<Rightarrow> bool" where
  "Overlaps w from' to' after \<longleftrightarrow> \<not> wn_start w > to' \<and> (wn_end w = 0 \<or> \<not> wn_end w + after < from')"

end
