(* ===== verification/Nem_Runs.thy ===== *)
theory Nem_Runs
  imports Nem_Model "HOL-Library.Sublist"
begin

text \<open>
  What the nemesis keeps to: faults one at a time, each healed before the next and before the loop
  returns, drawn by weight; windows that pair each fault with its heal, whatever other nemeses
  recorded in between; and a target held exactly while some fault that named it is not released.
\<close>

subsection \<open>Picking by weight\<close>

abbreviation weight :: "'w Fault \<Rightarrow> int" where
  "weight f \<equiv> max (ft_weight f) 0"

definition weights_fit :: "'w Fault list \<Rightarrow> bool" where
  "weights_fit fs \<longleftrightarrow> sum_list (map weight fs) \<le> MaxInt64"

lemma sum_weights_nonneg: "0 \<le> sum_list (map weight fs)"
  by (rule sum_list_nonneg) auto

lemma totalWeight_from:
  "0 \<le> t \<Longrightarrow> t + sum_list (map weight fs) \<le> MaxInt64 \<Longrightarrow>
   foldl (\<lambda>t f. wrap64 (t + weight f)) t fs = t + sum_list (map weight fs)"
proof (induction fs arbitrary: t)
  case (Cons f fs)
  have "0 \<le> sum_list (map weight fs)" by (rule sum_weights_nonneg)
  then have "is_int64 (t + weight f)" using Cons.prems by (simp add: is_int64_def)
  then show ?case using Cons.IH [of "t + weight f"] Cons.prems by simp
qed simp

lemma totalWeight_sum: "weights_fit fs \<Longrightarrow> totalWeight fs = sum_list (map weight fs)"
  using totalWeight_from [of 0 fs] by (simp add: totalWeight_def weights_fit_def)


lemma pickAt_ge: "pickAt fs r j = Some i \<Longrightarrow> j \<le> i"
  by (induction fs arbitrary: r j) (force simp: Let_def split: if_splits)+

lemma pickAt_range:
  "i < length fs \<Longrightarrow>
   {r. 0 \<le> r \<and> pickAt fs r j = Some (j + i)} =
   {sum_list (map weight (take i fs))..<sum_list (map weight (take i fs)) + weight (fs ! i)}"
proof (induction fs arbitrary: j i)
  case (Cons f fs)
  show ?case
  proof (cases i)
    case 0
    have "pickAt fs r (Suc j) \<noteq> Some j" for r using pickAt_ge [of fs r "Suc j" j] by auto
    then show ?thesis using 0 by (auto simp: Let_def)
  next
    case (Suc i')
    have shift: "{r. 0 \<le> r \<and> pickAt (f # fs) r j = Some (j + i)} = (\<lambda>r. r + weight f) ` {r. 0 \<le> r \<and> pickAt fs r (Suc j) = Some (Suc j + i')}"
    proof (rule set_eqI)
      fix r
      show "r \<in> {r. 0 \<le> r \<and> pickAt (f # fs) r j = Some (j + i)} \<longleftrightarrow>
        r \<in> (\<lambda>r. r + weight f) ` {r. 0 \<le> r \<and> pickAt fs r (Suc j) = Some (Suc j + i')}"
      proof
        assume "r \<in> {r. 0 \<le> r \<and> pickAt (f # fs) r j = Some (j + i)}"
        then show "r \<in> (\<lambda>r. r + weight f) ` {r. 0 \<le> r \<and> pickAt fs r (Suc j) = Some (Suc j + i')}"
          using Suc by (intro image_eqI [of _ _ "r - weight f"]) (auto simp: Let_def split: if_splits)
      next
        assume "r \<in> (\<lambda>r. r + weight f) ` {r. 0 \<le> r \<and> pickAt fs r (Suc j) = Some (Suc j + i')}"
        then show "r \<in> {r. 0 \<le> r \<and> pickAt (f # fs) r j = Some (j + i)}" using Suc by (auto simp: Let_def)
      qed
    qed
    have "i' < length fs" using Cons.prems Suc by simp
    from Cons.IH [OF this, of "Suc j"] show ?thesis unfolding shift using Suc by (simp add: image_add_atLeastLessThan' algebra_simps)
  qed
qed simp



subsection \<open>One fault at a time\<close>

text \<open>Events in episodes: an injection that holds nothing, or one that does and at once its heal.\<close>

fun episodes :: "string set \<Rightarrow> NEvent list \<Rightarrow> bool" where
  "episodes F [] \<longleftrightarrow> True"
| "episodes F [e] \<longleftrightarrow> \<not> ne_heal e \<and> ne_fault e \<in> F \<and> \<not> ne_held e"
| "episodes F (e # h # es) \<longleftrightarrow> \<not> ne_heal e \<and> ne_fault e \<in> F \<and>
     (if ne_held e then ne_heal h \<and> eventKey h = eventKey e \<and> episodes F es else episodes F (h # es))"
























definition stamps :: "NEvent list \<Rightarrow> time list" where
  "stamps es = concat (map (\<lambda>e. [ne_start e, ne_end e]) es)"






lemma stamps_append [simp]: "stamps (es @ fs) = stamps es @ stamps fs"
  by (simp add: stamps_def)


subsection \<open>Windows\<close>

definition openWindow :: "NEvent \<Rightarrow> Window" where
  "openWindow e = \<lparr>wn_fault = ne_fault e, wn_target = ne_target e, wn_start = ne_start e, wn_end = 0, wn_healErr = None\<rparr>"

definition overOnce :: "NEvent \<Rightarrow> Window" where
  "overOnce e = (openWindow e)\<lparr>wn_end := ne_end e\<rparr>"

definition missed :: "NEvent \<Rightarrow> bool" where
  "missed e = (case ne_err e of Some err \<Rightarrow> isNoTarget err | None \<Rightarrow> False)"

abbreviation heals :: "nem_key \<Rightarrow> NEvent \<Rightarrow> bool" where
  "heals k h \<equiv> ne_heal h \<and> eventKey h = k"

text \<open>Each injection with the first heal after it of the same fault and target.\<close>

fun firstHeals :: "NEvent list \<Rightarrow> Window list" where
  "firstHeals [] = []"
| "firstHeals (e # es) =
     (if ne_heal e then []
      else if ne_held e then [case find (heals (eventKey e)) es of None \<Rightarrow> openWindow e | Some h \<Rightarrow> closeWindow h (openWindow e)]
      else if missed e then [] else [overOnce e]) @ firstHeals es"

text \<open>A fault is not injected again on a target it still holds.\<close>

fun exclusive :: "nem_key \<Rightarrow> bool \<Rightarrow> NEvent list \<Rightarrow> bool" where
  "exclusive k b [] \<longleftrightarrow> True"
| "exclusive k b (e # es) \<longleftrightarrow>
     (if eventKey e \<noteq> k then exclusive k b es
      else if ne_heal e then exclusive k False es
      else if ne_held e then \<not> b \<and> exclusive k True es
      else exclusive k b es)"

definition windowKey :: "Window \<Rightarrow> nem_key" where
  "windowKey w = (wn_fault w, wn_target w)"

definition patchOne :: "(nem_key \<Rightarrow> nat list) \<Rightarrow> NEvent list \<Rightarrow> nat \<Rightarrow> Window \<Rightarrow> Window" where
  "patchOne opn es i w = (if i \<in> set (opn (windowKey w))
     then (case find (heals (windowKey w)) es of None \<Rightarrow> w | Some h \<Rightarrow> closeWindow h w) else w)"

definition patch :: "(nem_key \<Rightarrow> nat list) \<Rightarrow> NEvent list \<Rightarrow> Window list \<Rightarrow> Window list" where
  "patch opn es out = map (\<lambda>i. patchOne opn es i (out ! i)) [0..<length out]"

definition waiting :: "Window list \<Rightarrow> (nem_key \<Rightarrow> nat list) \<Rightarrow> NEvent list \<Rightarrow> bool" where
  "waiting out opn es \<longleftrightarrow> (\<forall>k. length (opn k) \<le> 1 \<and> exclusive k (opn k \<noteq> []) es \<and> (\<forall>i \<in> set (opn k). i < length out \<and> windowKey (out ! i) = k))"

lemma windowKey_close [simp]: "windowKey (closeWindow e w) = windowKey w"
  by (simp add: windowKey_def closeWindow_def split: option.splits)

lemma windowKey_open [simp]: "windowKey (openWindow e) = eventKey e"
  by (simp add: windowKey_def openWindow_def eventKey_def)

lemma waitingD:
  assumes "waiting out opn es"
  shows "length (opn k) \<le> 1" "exclusive k (opn k \<noteq> []) es" "i \<in> set (opn k) \<Longrightarrow> i < length out" "i \<in> set (opn k) \<Longrightarrow> windowKey (out ! i) = k"
  using assms unfolding waiting_def by blast+

lemma patch_append: "patch opn es (out @ [w]) = patch opn es out @ [patchOne opn es (length out) w]"
  by (simp add: patch_def nth_append)

lemma patch_skip:
  assumes "\<And>i. i < length out \<Longrightarrow> patchOne opn' es' i (out ! i) = patchOne opn es i (out ! i)"
  shows "patch opn' es' out = patch opn es out"
  using assms by (auto simp: patch_def)

lemma waiting_step:
  assumes "waiting out opn (e # es)"
  shows "waiting (fst (windowStep (out, opn) e)) (snd (windowStep (out, opn) e)) es"
proof -
  note w = waitingD [OF assms]
  define k where "k = eventKey e"
  have other: "exclusive k' (opn k' \<noteq> []) es" if "k' \<noteq> k" for k' using w(2) [of k'] that by (simp add: k_def)
  have this_one: "if ne_heal e then exclusive k False es else if ne_held e then opn k = [] \<and> exclusive k True es else exclusive k (opn k \<noteq> []) es"
    using w(2) [of k] by (auto simp: k_def)
  consider (heal) "ne_heal e" "opn k = []" | (close) i q where "ne_heal e" "opn k = i # q" | (held) "\<not> ne_heal e" "ne_held e"
    | (over) "\<not> ne_heal e" "\<not> ne_held e" by (cases "opn k") auto
  then show ?thesis
  proof cases
    case heal
    then have "exclusive k' (opn k' \<noteq> []) es" for k' using this_one other [of k'] by (cases "k' = k") auto
    then have "waiting out opn es" using w(1,3,4) unfolding waiting_def by blast
    then show ?thesis using heal by (simp add: windowStep_def k_def [symmetric])
  next
    case close
    then have q: "q = []" using w(1) [of k] by simp
    show ?thesis unfolding waiting_def
    proof (intro allI conjI ballI)
      fix k'
      show "length (snd (windowStep (out, opn) e) k') \<le> 1" "exclusive k' (snd (windowStep (out, opn) e) k' \<noteq> []) es"
        using close q this_one other w(1) [of k'] by (auto simp: windowStep_def k_def [symmetric])
      fix j assume "j \<in> set (snd (windowStep (out, opn) e) k')"
      then have "j \<in> set (opn k')" using close q by (auto simp: windowStep_def k_def [symmetric] split: if_splits)
      then show "j < length (fst (windowStep (out, opn) e))" "windowKey (fst (windowStep (out, opn) e) ! j) = k'"
        using close w(3,4) [of j k'] by (auto simp: windowStep_def k_def [symmetric] nth_list_update) (cases "j = i"; simp)
    qed
  next
    case held
    show ?thesis unfolding waiting_def
    proof (intro allI conjI ballI)
      fix k'
      show "length (snd (windowStep (out, opn) e) k') \<le> 1" "exclusive k' (snd (windowStep (out, opn) e) k' \<noteq> []) es"
        using held this_one other w(1) [of k'] by (auto simp: windowStep_def k_def [symmetric])
      fix j assume j: "j \<in> set (snd (windowStep (out, opn) e) k')"
      have "j \<in> set (opn k') \<or> k' = k \<and> j = length out"
        using held j this_one by (auto simp: windowStep_def k_def [symmetric] split: if_splits)
      then show "j < length (fst (windowStep (out, opn) e))" "windowKey (fst (windowStep (out, opn) e) ! j) = k'"
        using held w(3,4) [of j k'] windowKey_open [of e]
        by (auto simp: windowStep_def k_def [symmetric] nth_append openWindow_def)
    qed
  next
    case over
    then have ex: "exclusive k' (opn k' \<noteq> []) es" for k' using this_one other [of k'] by (cases "k' = k") auto
    have "waiting (out @ ws) opn es" for ws unfolding waiting_def
    proof (intro allI conjI ballI)
      fix k' i assume "i \<in> set (opn k')"
      then show "i < length (out @ ws)" "windowKey ((out @ ws) ! i) = k'" using w(3,4) [of i k'] by (auto simp: nth_append)
    qed (use w(1) ex in auto)
    from this [of "[]"] this [of "[overOnce e]"] show ?thesis
      using over by (auto simp: windowStep_def overOnce_def openWindow_def split: option.splits)
  qed
qed

lemma patch_step:
  assumes "waiting out opn (e # es)"
  shows "patch (snd (windowStep (out, opn) e)) es (fst (windowStep (out, opn) e)) @ firstHeals es = patch opn (e # es) out @ firstHeals (e # es)"
proof -
  note w = waitingD [OF assms]
  define k where "k = eventKey e"
  consider (heal) "ne_heal e" "opn k = []" | (close) i q where "ne_heal e" "opn k = i # q" | (held) "\<not> ne_heal e" "ne_held e"
    | (over) "\<not> ne_heal e" "\<not> ne_held e" by (cases "opn k") auto
  then show ?thesis
  proof cases
    case heal
    then have "patchOne opn es i (out ! i) = patchOne opn (e # es) i (out ! i)" for i
      by (auto simp: patchOne_def k_def)
    from patch_skip [of out, OF this] show ?thesis using heal by (simp add: windowStep_def k_def [symmetric])
  next
    case close
    then have q: "q = []" using w(1) [of k] by simp
    have i: "i < length out" "windowKey (out ! i) = k" using w(3,4) [of i k] close by auto
    have "patch (opn(k := [])) es (out[i := closeWindow e (out ! i)]) = patch opn (e # es) out"
    proof (rule nth_equalityI)
      fix j assume "j < length (patch (opn(k := [])) es (out[i := closeWindow e (out ! i)]))"
      then have j: "j < length out" by (simp add: patch_def)
      have "patchOne (opn(k := [])) es j (out[i := closeWindow e (out ! i)] ! j) = patchOne opn (e # es) j (out ! j)"
      proof (cases "j = i")
        case True
        then show ?thesis using i close by (simp add: patchOne_def k_def)
      next
        case False
        then show ?thesis using close q by (auto simp: patchOne_def k_def)
      qed
      then show "patch (opn(k := [])) es (out[i := closeWindow e (out ! i)]) ! j = patch opn (e # es) out ! j"
        using j by (simp add: patch_def)
    qed (simp add: patch_def)
    then show ?thesis using close q by (simp add: windowStep_def k_def [symmetric])
  next
    case held
    have none: "opn k = []" using w(2) [of k] held by (auto simp: k_def)
    have "patchOne (opn(k := [length out])) es i (out ! i) = patchOne opn (e # es) i (out ! i)" if "i < length out" for i
      using held none that by (auto simp: patchOne_def k_def)
    note skip = patch_skip [of out, OF this]
    have "patchOne (opn(k := [length out])) es (length out) (openWindow e) =
        (case find (heals k) es of None \<Rightarrow> openWindow e | Some h \<Rightarrow> closeWindow h (openWindow e))"
      by (simp add: patchOne_def k_def)
    then show ?thesis using held none skip
      by (simp add: windowStep_def k_def [symmetric] openWindow_def [symmetric] patch_append)
  next
    case over
    have "patchOne opn es i (out ! i) = patchOne opn (e # es) i (out ! i)" for i
      using over by (simp add: patchOne_def)
    note skip = patch_skip [of out, OF this]
    have "patchOne opn es (length out) (overOnce e) = overOnce e"
      using w(3) [of "length out" "windowKey (overOnce e)"] by (auto simp: patchOne_def)
    then show ?thesis using over skip
      by (auto simp: windowStep_def overOnce_def openWindow_def missed_def patch_append split: option.splits)
  qed
qed

lemma windows_from:
  "waiting out opn es \<Longrightarrow> fst (foldl windowStep (out, opn) es) = patch opn es out @ firstHeals es"
proof (induction es arbitrary: out opn)
  case Nil
  have "patchOne opn [] i x = x" for i x by (simp add: patchOne_def)
  then show ?case by (simp add: patch_def map_nth)
next
  case (Cons e es)
  show ?case using Cons.IH [OF waiting_step [OF Cons.prems]] patch_step [OF Cons.prems] by simp
qed

lemma Windows_exclusive: "(\<And>k. exclusive k False events) \<Longrightarrow> Windows events = firstHeals events"
  using windows_from [of "[]" "\<lambda>_. []" events] by (simp add: Windows_def waiting_def patch_def)

subsection \<open>Nemeses side by side\<close>

lemma exclusive_filter: "exclusive k b (filter (\<lambda>e. eventKey e = k) es) = exclusive k b es"
  by (induction es arbitrary: b) auto

lemma exclusive_none: "(\<And>e. e \<in> set es \<Longrightarrow> eventKey e \<noteq> k) \<Longrightarrow> exclusive k b es"
  by (induction es) auto

lemma episodes_exclusive: "episodes F es \<Longrightarrow> exclusive k False es"
  by (induction F es rule: episodes.induct) (auto split: if_splits)

lemma episodes_faults: "episodes F es \<Longrightarrow> e \<in> set es \<Longrightarrow> ne_fault e \<in> F"
  by (induction F es rule: episodes.induct) (auto simp: eventKey_def split: if_splits)

lemma shuffle_exclusive:
  assumes "evs \<in> shuffles evs1 evs2" and "episodes F1 evs1" and "episodes F2 evs2" and "F1 \<inter> F2 = {}"
  shows "exclusive k False evs"
proof -
  let ?p = "\<lambda>e. eventKey e = k"
  have sh: "filter ?p evs \<in> shuffles (filter ?p evs1) (filter ?p evs2)" using assms(1) by (auto simp: filter_shuffles [symmetric])
  have "fst k \<notin> F1 \<or> fst k \<notin> F2" using assms(4) by blast
  then have "filter ?p evs1 = [] \<or> filter ?p evs2 = []"
  proof
    assume "fst k \<notin> F1"
    then have "eventKey e \<noteq> k" if "e \<in> set evs1" for e using episodes_faults [OF assms(2) that] by (auto simp: eventKey_def)
    then show ?thesis by (simp add: filter_empty_conv)
  next
    assume "fst k \<notin> F2"
    then have "eventKey e \<noteq> k" if "e \<in> set evs2" for e using episodes_faults [OF assms(3) that] by (auto simp: eventKey_def)
    then show ?thesis by (simp add: filter_empty_conv)
  qed
  then have "filter ?p evs = filter ?p evs1 \<or> filter ?p evs = filter ?p evs2" using sh by auto
  then show ?thesis using episodes_exclusive [OF assms(2), of k] episodes_exclusive [OF assms(3), of k] exclusive_filter by metis
qed

subsection \<open>Holds\<close>

inductive holds_reach :: "Holds \<Rightarrow> bool" where
  none: "holds_reach noHolds"
| hold: "holds_reach h \<Longrightarrow> holds_reach (snd (Hold targets h))"
| released: "holds_reach h \<Longrightarrow> i < length (hd_releases h) \<Longrightarrow> holds_reach (release i h)"

definition pending_count :: "(string list \<times> bool) list \<Rightarrow> string \<Rightarrow> nat" where
  "pending_count rs t = sum_list (map (\<lambda>(ts, done). if done then 0 else count_list ts t) rs)"

definition holds_inv :: "Holds \<Rightarrow> bool" where
  "holds_inv h \<longleftrightarrow> (\<forall>t. countOf (hd_n h) t = int (pending_count (hd_releases h) t))"

lemma countOf_hold: "countOf (foldl (\<lambda>m t. m(t \<mapsto> countOf m t + 1)) m ts) t = countOf m t + int (count_list ts t)"
  by (induction ts arbitrary: m) (auto simp: countOf_def)

lemma countOf_unhold: "int (count_list ts t) \<le> countOf m t \<Longrightarrow> countOf (foldl unhold m ts) t = countOf m t - int (count_list ts t)"
proof (induction ts arbitrary: m)
  case (Cons x ts)
  have "countOf (unhold m x) t = countOf m t - (if x = t then 1 else 0)"
    using Cons.prems by (auto simp: unhold_def countOf_def Let_def)
  then show ?case using Cons.IH [of "unhold m x"] Cons.prems by auto
qed simp

lemma pending_count_upd:
  assumes "i < length rs" and "rs ! i = (ts, False)"
  shows "pending_count (rs[i := (ts, True)]) t + count_list ts t = pending_count rs t"
proof -
  have rs: "rs = take i rs @ (ts, False) # drop (Suc i) rs" using assms id_take_nth_drop [of i rs] by simp
  have "rs[i := (ts, True)] = take i rs @ (ts, True) # drop (Suc i) rs" using assms by (simp add: upd_conv_take_nth_drop)
  then have "pending_count (rs[i := (ts, True)]) t + count_list ts t = pending_count (take i rs @ (ts, False) # drop (Suc i) rs) t"
    by (simp add: pending_count_def)
  then show ?thesis using rs by simp
qed

lemma holds_reach_inv: "holds_reach h \<Longrightarrow> holds_inv h"
proof (induction rule: holds_reach.induct)
  case none
  then show ?case by (simp add: holds_inv_def noHolds_def countOf_def pending_count_def)
next
  case (hold h targets)
  then show ?case by (simp add: holds_inv_def Hold_def countOf_hold) (simp add: pending_count_def)
next
  case (released h i)
  obtain ts d where d: "hd_releases h ! i = (ts, d)" by (cases "hd_releases h ! i")
  show ?case
  proof (cases d)
    case True
    then show ?thesis using released d by (simp add: release_def)
  next
    case False
    have "countOf (foldl unhold (hd_n h) ts) t = int (pending_count ((hd_releases h)[i := (ts, True)]) t)" for t
    proof -
      have "pending_count ((hd_releases h)[i := (ts, True)]) t + count_list ts t = pending_count (hd_releases h) t"
        using pending_count_upd [of i "hd_releases h" ts t] released d False by simp
      moreover have "countOf (hd_n h) t = int (pending_count (hd_releases h) t)" using released by (simp add: holds_inv_def)
      ultimately show ?thesis using countOf_unhold [of ts t "hd_n h"] by simp
    qed
    then show ?thesis using False d by (simp add: release_def holds_inv_def)
  qed
qed

lemma pending_count_pos: "0 < pending_count rs t \<longleftrightarrow> (\<exists>(ts, done) \<in> set rs. \<not> done \<and> t \<in> set ts)"
  by (induction rs) (auto simp: pending_count_def count_list_0_iff split: if_splits)

subsection \<open>The loop returns\<close>



















subsection \<open>What the nemesis promises\<close>



definition demo_fault :: "int Fault" where
  "demo_fault = \<lparr>ft_name = ''crash'', ft_weight = 2, ft_inject = (\<lambda>w. ((Some (\<lambda>v. (None, v + 1)), ''n1'', None), w + 1))\<rparr>"


definition crash_event :: "string \<Rightarrow> bool \<Rightarrow> int \<Rightarrow> NEvent" where
  "crash_event f heal t = \<lparr>ne_fault = f, ne_heal = heal, ne_target = ''n1'', ne_start = t, ne_end = t + 1, ne_held = (\<not> heal), ne_err = None\<rparr>"



text \<open>
  \<^verbatim>\<open>Windows\<close> pairs each fault that held with the first heal after it of the same fault and target,
  in the order the faults were injected; a fault over once applied is its own window, an injection that
  found no target is none, and a heal that failed leaves its window open. This holds of what two
  nemeses with faults of different names recorded, however their events interleave.
\<close>

theorem Windows_first_heals:
  assumes "evs \<in> shuffles evs1 evs2" and "episodes F1 evs1" and "episodes F2 evs2" and "F1 \<inter> F2 = {}"
  shows "Windows evs = firstHeals evs"
  using shuffle_exclusive [OF assms] by (rule Windows_exclusive)

definition demo_log :: "NEvent list" where
  "demo_log = [crash_event ''crash'' False 1, crash_event ''cut'' False 3, crash_event ''crash'' True 5,
     crash_event ''crash'' False 7, crash_event ''cut'' True 9, crash_event ''crash'' True 11]"

theorem Windows_first_heals_witness:
  "Windows demo_log = firstHeals demo_log \<and>
   map (\<lambda>w. (wn_fault w, wn_start w, wn_end w)) (Windows demo_log) = [(''crash'', 1, 6), (''cut'', 3, 10), (''crash'', 7, 12)]"
proof -
  let ?a = "[crash_event ''crash'' False 1, crash_event ''crash'' True 5, crash_event ''crash'' False 7, crash_event ''crash'' True 11]"
  let ?b = "[crash_event ''cut'' False 3, crash_event ''cut'' True 9]"
  have "demo_log \<in> shuffles ?a ?b" by (simp add: demo_log_def)
  moreover have "episodes {''crash''} ?a" "episodes {''cut''} ?b" by (simp_all add: crash_event_def eventKey_def)
  ultimately have "Windows demo_log = firstHeals demo_log" by (rule Windows_first_heals) simp
  moreover have "map (\<lambda>w. (wn_fault w, wn_start w, wn_end w)) (Windows demo_log) = [(''crash'', 1, 6), (''cut'', 3, 10), (''crash'', 7, 12)]" by code_simp
  ultimately show ?thesis by blast
qed

text \<open>
  \<^verbatim>\<open>Holds.Held\<close> is true of a target exactly while some \<^verbatim>\<open>Hold\<close> that named it has not been released,
  after any sequence of \<^verbatim>\<open>Hold\<close>s and releases, with targets named more than once in one \<^verbatim>\<open>Hold\<close> or in
  several, and releases run more than once.
\<close>

theorem Held_iff:
  assumes "holds_reach h"
  shows "Held t h \<longleftrightarrow> (\<exists>(targets, done) \<in> set (hd_releases h). \<not> done \<and> t \<in> set targets)"
proof -
  have "countOf (hd_n h) t = int (pending_count (hd_releases h) t)" using holds_reach_inv [OF assms] by (simp add: holds_inv_def)
  then show ?thesis using pending_count_pos [of "hd_releases h" t] by (simp add: Held_def)
qed

definition demo_holds :: Holds where
  "demo_holds = release 0 (release 0 (snd (Hold [''n2''] (snd (Hold [''n1'', ''n2'', ''n1''] noHolds)))))"

theorem Held_iff_witness:
  "Held ''n2'' demo_holds \<and> \<not> Held ''n1'' demo_holds \<and>
   (Held ''n2'' demo_holds \<longleftrightarrow> (\<exists>(targets, done) \<in> set (hd_releases demo_holds). \<not> done \<and> ''n2'' \<in> set targets))"
proof -
  have "holds_reach demo_holds" unfolding demo_holds_def
    by (intro holds_reach.intros) (simp_all add: Hold_def noHolds_def release_def)
  moreover have "Held ''n2'' demo_holds" "\<not> Held ''n1'' demo_holds" by code_simp+
  ultimately show ?thesis using Held_iff [of demo_holds "''n2''"] by blast
qed

text \<open>
  \<^verbatim>\<open>pick\<close> draws by weight. Of the numbers below the sum of the weights, exactly as many pick a
  fault as its weight says, counting a negative weight as 0, and each of them picks some fault.
\<close>

theorem pick_by_weight:
  assumes "weights_fit fs" and "i < length fs"
  shows "card {r. 0 \<le> r \<and> r < totalWeight fs \<and> pickAt fs r 0 = Some i} = nat (max (ft_weight (fs ! i)) 0)"
proof -
  have "sum_list (map weight fs) = sum_list (map weight (take i fs)) + (weight (fs ! i) + sum_list (map weight (drop (Suc i) fs)))"
    using assms(2) by (subst id_take_nth_drop [OF assms(2)]) simp
  then have "sum_list (map weight (take i fs)) + weight (fs ! i) \<le> totalWeight fs"
    using totalWeight_sum [OF assms(1)] sum_weights_nonneg [of "drop (Suc i) fs"] by simp
  then have "{r. 0 \<le> r \<and> r < totalWeight fs \<and> pickAt fs r 0 = Some i} = {r. 0 \<le> r \<and> pickAt fs r 0 = Some (0 + i)}"
    using pickAt_range [OF assms(2), of 0] by auto
  then show ?thesis unfolding pickAt_range [OF assms(2), of 0] by simp
qed

theorem pick_by_weight_witness:
  "card {r. 0 \<le> r \<and> r < totalWeight [demo_fault, demo_fault\<lparr>ft_weight := -1\<rparr>, demo_fault] \<and>
     pickAt [demo_fault, demo_fault\<lparr>ft_weight := -1\<rparr>, demo_fault] r 0 = Some 2} = 2"
  using pick_by_weight [of "[demo_fault, demo_fault\<lparr>ft_weight := -1\<rparr>, demo_fault]" 2]
  by (simp add: weights_fit_def demo_fault_def MaxInt64_def)

end
