(* ===== verification/Torx_Trace.thy ===== *)
theory Torx_Trace
  imports Obj_Text Torx_Coordination
begin

text \<open>
  Where a job's results go, from \<^verbatim>\<open>src/trace.go\<close>: the directory of a variant under the run's directory,
  named by the variant's id, and the names at the top of it that the framework keeps for itself.
  SHA-256 is a parameter, as is whether a directory can be made.
\<close>

subsection \<open>The name of a variant's directory\<close>

definition hexUpper :: "nat \<Rightarrow> char" where
  "hexUpper d = (if d < 10 then char_of (48 + d) else char_of (55 + d))"

definition sanitizeByte :: "char \<Rightarrow> string" where
  "sanitizeByte c = (let n = (of_char c :: nat) in
     if c = CHR ''/'' \<or> c = CHR ''%'' \<or> n < 32 then [CHR ''%'', hexUpper (n div 16), hexUpper (n mod 16)] else [c])"

definition sanitizeID :: "string \<Rightarrow> string" where
  "sanitizeID vid = concat (map sanitizeByte vid)"

definition maxVariantDirName :: nat where
  "maxVariantDirName = 200"

definition variantDigestHexLen :: nat where
  "variantDigestHexLen = 32"

definition variantDigest :: "(bytes \<Rightarrow> bytes) \<Rightarrow> string \<Rightarrow> string" where
  "variantDigest sha vid = take variantDigestHexLen (hexEncode (sha vid))"

text \<open>A readable start of the name, without the half of an escape the cut may have left.\<close>

definition variantPrefix :: "string \<Rightarrow> string \<Rightarrow> string" where
  "variantPrefix s digest = (let p = take (maxVariantDirName - length digest - 2) s; n = length p in
     if p ! (n - 1) = CHR ''%'' then take (n - 1) p
     else if n \<ge> 2 \<and> p ! (n - 2) = CHR ''%'' then take (n - 2) p else p)"

definition variantDirName :: "(bytes \<Rightarrow> bytes) \<Rightarrow> string \<Rightarrow> string" where
  "variantDirName sha vid = (let s = sanitizeID vid in
     if length s \<le> maxVariantDirName then s
     else let digest = variantDigest sha vid in variantPrefix s digest @ ''%-'' @ digest)"

definition jobResultsDirOf :: "(bytes \<Rightarrow> bytes) \<Rightarrow> (string \<Rightarrow> string option) \<Rightarrow> string \<Rightarrow> string \<Rightarrow> string + string" where
  "jobResultsDirOf sha mkdir runDir vid =
     (if runDir = [] then Inr []
      else let dir = path_Join [runDir, variantDirName sha vid] in
        case mkdir dir of Some err \<Rightarrow> Inl (''results: create variant directory: '' @ err) | None \<Rightarrow> Inr dir)"

definition reservedJobFile :: "string \<Rightarrow> bool" where
  "reservedJobFile name \<longleftrightarrow> foldCase name \<in> {''events.ndjson'', ''test_log'', ''result.json'', ''worker.log''}"

subsection \<open>Escapes\<close>

text \<open>What undoes the escapes, and the shape of an escaped name.\<close>

fun unsanitize :: "string \<Rightarrow> string" where
  "unsanitize (c # a # b # s) =
     (if c = CHR ''%'' then (case (hexDigit a, hexDigit b) of (Some x, Some y) \<Rightarrow> char_of (16 * x + y) | _ \<Rightarrow> c) # unsanitize s
      else c # unsanitize (a # b # s))"
| "unsanitize s = s"

lemma hexUpper_of: "d < 16 \<Longrightarrow> (of_char (hexUpper d) :: nat) = (if d < 10 then 48 + d else 55 + d)"
  by (simp add: hexUpper_def)

lemma hexDigit_hexUpper: "d < 16 \<Longrightarrow> hexDigit (hexUpper d) = Some d"
  by (auto simp: hexDigit_def hexUpper_of Let_def)

lemma of_char_bounds: "(of_char c :: nat) div 16 < 16" "(of_char c :: nat) mod 16 < 16"
proof -
  have "(of_char c :: nat) < 16 * 16" using nat_of_char_less_256 [of c] by simp
  then show "(of_char c :: nat) div 16 < 16" by (rule less_mult_imp_div_less)
qed simp

lemma unsanitize_plain: "c \<noteq> CHR ''%'' \<Longrightarrow> unsanitize (c # s) = c # unsanitize s"
  by (cases s rule: unsanitize.cases) auto

lemma unsanitize_byte: "unsanitize (sanitizeByte c @ s) = c # unsanitize s"
proof (cases "c = CHR ''/'' \<or> c = CHR ''%'' \<or> (of_char c :: nat) < 32")
  case True
  have "16 * ((of_char c :: nat) div 16) + of_char c mod 16 = of_char c" by simp
  then show ?thesis using True by (simp add: sanitizeByte_def Let_def hexDigit_hexUpper of_char_bounds)
next
  case False
  then show ?thesis by (simp add: sanitizeByte_def unsanitize_plain)
qed

lemma unsanitize_sanitizeID: "unsanitize (sanitizeID vid) = vid"
  by (induction vid) (simp_all add: sanitizeID_def unsanitize_byte)

lemma sanitizeID_inj: "sanitizeID a = sanitizeID b \<Longrightarrow> a = b"
  using unsanitize_sanitizeID by metis

text \<open>Every percent sign of an escaped name starts an escape.\<close>

fun escaped :: "string \<Rightarrow> bool" where
  "escaped [] \<longleftrightarrow> True"
| "escaped (c # s) \<longleftrightarrow> (if c = CHR ''%'' then (case s of a # b # s' \<Rightarrow> hexDigit a \<noteq> None \<and> hexDigit b \<noteq> None \<and> escaped s' | _ \<Rightarrow> False) else escaped s)"

lemma escaped_sanitizeID: "escaped (sanitizeID vid)"
proof (induction vid)
  case (Cons c vid)
  have "escaped (sanitizeByte c @ s)" if "escaped s" for s
    using that by (simp add: sanitizeByte_def Let_def hexDigit_hexUpper of_char_bounds)
  then show ?case using Cons by (simp add: sanitizeID_def)
qed (simp add: sanitizeID_def)

lemma hexDigit_dash: "hexDigit CHR ''-'' = None" "hexDigit CHR ''%'' = None"
  by (simp_all add: hexDigit_def)

lemma escaped_no_dash: "\<not> escaped (p @ ''%-'' @ s)"
proof (induction p rule: escaped.induct)
  case (2 c p)
  show ?case
  proof (cases "c = CHR ''%''")
    case True
    consider "p = []" | a where "p = [a]" | a b p' where "p = a # b # p'" by (metis list.exhaust)
    then show ?thesis
    proof cases
      case 3
      then show ?thesis using 2(1) [OF True, of a "b # p'" b p'] True by auto
    qed (auto simp: True hexDigit_dash)
  next
    case False
    then show ?thesis using 2(2) by simp
  qed
qed (auto simp: hexDigit_dash split: list.splits)

lemma hexUpper_ne: "d < 16 \<Longrightarrow> hexUpper d \<noteq> CHR ''/'' \<and> 32 \<le> (of_char (hexUpper d) :: nat)"
  using hexUpper_of [of d] by (cases "d < 10") auto

definition printed :: "char \<Rightarrow> bool" where
  "printed c \<longleftrightarrow> c \<noteq> CHR ''/'' \<and> 32 \<le> (of_char c :: nat)"

lemma sanitizeID_printed: "c \<in> set (sanitizeID vid) \<Longrightarrow> printed c"
proof (induction vid)
  case (Cons d vid)
  have "printed x" if "x \<in> set (sanitizeByte d)" for x
    using that hexUpper_ne [OF of_char_bounds(1), of d] hexUpper_ne [OF of_char_bounds(2), of d]
    by (auto simp: sanitizeByte_def Let_def printed_def split: if_splits)
  then show ?case using Cons by (auto simp: sanitizeID_def)
qed (simp add: sanitizeID_def)

lemma hexChar_printed: "d < 16 \<Longrightarrow> printed (hexChar d)"
  using hexChar_of [of d] by (cases "d < 10") (auto simp: printed_def)

lemma hexEncode_printed: "c \<in> set (hexEncode bs) \<Longrightarrow> printed c"
  using hexChar_printed [OF of_char_bounds(1)] hexChar_printed [OF of_char_bounds(2)] by (auto simp: hexEncode_def Let_def)

lemma hexEncode_length: "length (hexEncode bs) = 2 * length bs"
  by (induction bs) (simp_all add: hexEncode_def Let_def)

subsection \<open>Bounded names\<close>

lemma variantPrefix_take: "\<exists>k \<le> maxVariantDirName - length d - 2. variantPrefix s d = take k s"
proof -
  let ?n = "maxVariantDirName - length d - 2"
  have "take (length (take ?n s) - j) (take ?n s) = take (min (length (take ?n s) - j) ?n) s" for j by (simp add: min.commute)
  then show ?thesis unfolding variantPrefix_def Let_def
    by (smt (verit) min.cobounded2 order_refl)
qed

lemma variantDigest_length: "length (sha vid) = 32 \<Longrightarrow> length (variantDigest sha vid) = 32"
  by (simp add: variantDigest_def variantDigestHexLen_def hexEncode_length)

lemma variantDirName_long:
  assumes "length (sha vid) = 32" and "\<not> length (sanitizeID vid) \<le> maxVariantDirName"
  obtains k where "k \<le> 166" "variantDirName sha vid = take k (sanitizeID vid) @ ''%-'' @ variantDigest sha vid"
proof -
  obtain k where "k \<le> 166" "variantPrefix (sanitizeID vid) (variantDigest sha vid) = take k (sanitizeID vid)"
    using variantPrefix_take [of "variantDigest sha vid" "sanitizeID vid"] variantDigest_length [of sha vid] assms(1)
    by (auto simp: maxVariantDirName_def)
  then show ?thesis using that assms(2) by (simp add: variantDirName_def Let_def)
qed

lemma variantDirName_bounded:
  assumes "length (sha vid) = 32"
  shows "length (variantDirName sha vid) \<le> maxVariantDirName \<and> (\<forall>c \<in> set (variantDirName sha vid). printed c)"
proof (cases "length (sanitizeID vid) \<le> maxVariantDirName")
  case True
  then show ?thesis using sanitizeID_printed by (auto simp: variantDirName_def)
next
  case False
  then obtain k where k: "k \<le> 166" "variantDirName sha vid = take k (sanitizeID vid) @ ''%-'' @ variantDigest sha vid"
    using variantDirName_long [of sha vid] assms by blast
  have "printed c" if "c \<in> set (variantDigest sha vid)" for c
    using that hexEncode_printed set_take_subset by (fastforce simp: variantDigest_def)
  moreover have "printed c" if "c \<in> set (take k (sanitizeID vid))" for c
    using that sanitizeID_printed set_take_subset by fastforce
  ultimately show ?thesis unfolding k(2) using k(1) variantDigest_length [of sha vid] assms
    by (auto simp: maxVariantDirName_def printed_def)
qed

lemma sanitizeID_special: "sanitizeID [] = []" "sanitizeID ''.'' = ''.''" "sanitizeID ''..'' = ''..''"
  by (simp_all add: sanitizeID_def sanitizeByte_def)

lemma sanitizeID_eq_iff: "sanitizeID a = sanitizeID b \<longleftrightarrow> a = b"
  using sanitizeID_inj by blast

lemma variantDirName_component:
  assumes "length (sha vid) = 32"
  shows "validComponent (variantDirName sha vid) \<longleftrightarrow> vid \<noteq> [] \<and> vid \<noteq> ''.'' \<and> vid \<noteq> ''..''"
proof (cases "length (sanitizeID vid) \<le> maxVariantDirName")
  case True
  then have "variantDirName sha vid = sanitizeID vid" by (simp add: variantDirName_def)
  moreover have "CHR ''/'' \<notin> set (sanitizeID vid)" using sanitizeID_printed [of "CHR ''/''" vid] by (auto simp: printed_def)
  ultimately show ?thesis unfolding validComponent_def using sanitizeID_eq_iff [of vid] sanitizeID_special by metis
next
  case False
  then obtain k where k: "variantDirName sha vid = take k (sanitizeID vid) @ ''%-'' @ variantDigest sha vid"
    using variantDirName_long [of sha vid] assms by blast
  have "CHR ''/'' \<notin> set (variantDirName sha vid)" using variantDirName_bounded [of sha vid] assms by (auto simp: printed_def)
  moreover have "34 \<le> length (variantDirName sha vid)" using k variantDigest_length [of sha vid] assms by simp
  moreover have "vid \<noteq> [] \<and> vid \<noteq> ''.'' \<and> vid \<noteq> ''..''" using False sanitizeID_special by (auto simp: maxVariantDirName_def)
  ultimately show ?thesis by (auto simp: validComponent_def)
qed

definition boundedName :: "string \<Rightarrow> bool" where
  "boundedName vid \<longleftrightarrow> maxVariantDirName < length (sanitizeID vid)"

lemma variantDirName_distinct:
  assumes len: "length (sha a) = 32" "length (sha b) = 32" and eq: "variantDirName sha a = variantDirName sha b"
  shows "a = b \<or> boundedName a \<and> boundedName b \<and> variantDigest sha a = variantDigest sha b"
proof -
  have short_long: False if h: "\<not> boundedName x" "boundedName y" "length (sha y) = 32" "variantDirName sha x = variantDirName sha y" for x y
  proof -
    obtain k where "variantDirName sha y = take k (sanitizeID y) @ ''%-'' @ variantDigest sha y"
      using variantDirName_long [of sha y] h(2,3) by (auto simp: boundedName_def)
    then show False using h(1,4) escaped_sanitizeID [of x] escaped_no_dash by (simp add: variantDirName_def boundedName_def)
  qed
  consider "\<not> boundedName a" "\<not> boundedName b" | "boundedName a" "boundedName b" | "boundedName a \<noteq> boundedName b" by blast
  then show ?thesis
  proof cases
    case 1
    then show ?thesis using eq sanitizeID_inj by (simp add: variantDirName_def boundedName_def)
  next
    case 2
    obtain k where k: "variantDirName sha a = take k (sanitizeID a) @ ''%-'' @ variantDigest sha a"
      using variantDirName_long [of sha a] 2 len by (auto simp: boundedName_def)
    obtain j where j: "variantDirName sha b = take j (sanitizeID b) @ ''%-'' @ variantDigest sha b"
      using variantDirName_long [of sha b] 2 len by (auto simp: boundedName_def)
    have "variantDigest sha a = variantDigest sha b"
      using k j eq variantDigest_length [of sha a] variantDigest_length [of sha b] len
      by (metis append_assoc append_eq_append_conv)
    then show ?thesis using 2 by blast
  next
    case 3
    then show ?thesis using short_long [of a b] short_long [of b a] len eq by auto
  qed
qed

text \<open>
  C32: a variant's results directory is its own. The name \<^verbatim>\<open>variantDirName\<close> gives is at most 200 bytes
  long and has no path separator and no control byte; two ids get one name only if they are the same,
  or if both are too long to be used whole and the digests of the two agree. But it is a safe path
  component only for an id other than the empty one and \<^verbatim>\<open>.\<close> and \<^verbatim>\<open>..\<close>, which it leaves as they are.
  SHA-256 is any function to 32 bytes.
\<close>

theorem variantDirName_own:
  assumes "\<And>x. length (sha x) = 32"
  shows "length (variantDirName sha a) \<le> 200 \<and> (\<forall>c \<in> set (variantDirName sha a). printed c) \<and>
    (validComponent (variantDirName sha a) \<longleftrightarrow> a \<noteq> [] \<and> a \<noteq> ''.'' \<and> a \<noteq> ''..'') \<and>
    (variantDirName sha a = variantDirName sha b \<longrightarrow> a = b \<or> boundedName a \<and> boundedName b \<and> variantDigest sha a = variantDigest sha b)"
  using variantDirName_bounded [of sha a] variantDirName_component [of sha a] variantDirName_distinct [of sha a b] assms
  by (simp add: maxVariantDirName_def)

definition demo_sha :: "bytes \<Rightarrow> bytes" where
  "demo_sha x = take 32 (x @ replicate 32 CHR ''0'')"

theorem variantDirName_own_witness:
  "\<not> validComponent (variantDirName demo_sha ''..'') \<and> validComponent (variantDirName demo_sha ''a/..'') \<and>
   variantDirName demo_sha ''a/..'' = ''a%2F..'' \<and> variantDirName demo_sha ''a/b'' \<noteq> variantDirName demo_sha ''a%2Fb''"
proof -
  have len: "length (demo_sha x) = 32" for x by (simp add: demo_sha_def)
  have "\<not> boundedName ''a/b''" "variantDirName demo_sha ''a/..'' = ''a%2F..''" by code_simp+
  then show ?thesis
    using variantDirName_own [of demo_sha "''..''"] variantDirName_own [of demo_sha "''a/..''"] variantDirName_own [of demo_sha "''a/b''" "''a%2Fb''"] len
    by auto
qed

end
