(* ===== verification/Torx_Service.thy ===== *)
theory Torx_Service
  imports Torx_Worker Torx_Errors Obj_Text
begin

text \<open>
  Services and their lifecycle: \<^verbatim>\<open>src/service.go\<close>, the default \<^verbatim>\<open>Setup\<close> and \<^verbatim>\<open>Teardown\<close> of \<^verbatim>\<open>src/job.go\<close>,
  artifacts and finalizers of \<^verbatim>\<open>src/collector.go\<close>, stopping a process as in \<^verbatim>\<open>src/process.go\<close> and waiting
  for readiness as in \<^verbatim>\<open>src/readiness.go\<close>. What a suite's own code does - the hooks of a service, a
  finalizer - and what a node does when asked is an act on a world of any type, which gives an error or
  none and the world after it. Log lines are left out. An error is nil where it is \<open>None\<close>.
\<close>

type_synonym 'w act = "'w \<Rightarrow> error option \<times> 'w"

subsection \<open>Acts one after another\<close>

text \<open>Every one of the acts runs, and the errors are gathered: the loop all the teardowns share.\<close>

fun gather :: "'w act list \<Rightarrow> error list \<Rightarrow> 'w \<Rightarrow> error list \<times> 'w" where
  "gather [] errs w = (errs, w)"
| "gather (a # as) errs w = (case a w of (e, w1) \<Rightarrow> gather as (MultiError_Append errs e) w1)"

definition runAll :: "'w act list \<Rightarrow> 'w act" where
  "runAll as w = (case gather as [] w of (errs, w1) \<Rightarrow> (MultiError_Err errs, w1))"

text \<open>The acts run until one fails.\<close>

fun runUntil :: "'w act list \<Rightarrow> 'w act" where
  "runUntil [] w = (None, w)"
| "runUntil (a # as) w = (case a w of (Some e, w1) \<Rightarrow> (Some e, w1) | (None, w1) \<Rightarrow> runUntil as w1)"

definition wrapErr :: "string \<Rightarrow> 'w act \<Rightarrow> 'w act" where
  "wrapErr op a w = (case a w of (e, w1) \<Rightarrow> (map_option (\<lambda>e. Wrap ErrService op (Some e)) e, w1))"

subsection \<open>Services\<close>

record 'w PerNode =
  StartNode :: "Node \<Rightarrow> 'w act"
  StopNode :: "Node \<Rightarrow> 'w act"
  CleanNode :: "Node \<Rightarrow> 'w act"
  WaitNode :: "Node \<Rightarrow> 'w act"

record 'w ServiceBase =
  sb_name :: string
  sb_spec :: PoolSpec
  sb_hooks :: "'w PerNode"
  sb_nodes :: "Node list"

text \<open>A bad name panics, \<open>None\<close>.\<close>

definition NewServiceBase :: "string \<Rightarrow> PoolSpec \<Rightarrow> 'w PerNode \<Rightarrow> 'w ServiceBase option" where
  "NewServiceBase nm spec hooks = (if validComponent nm then Some \<lparr>sb_name = nm, sb_spec = spec, sb_hooks = hooks, sb_nodes = []\<rparr> else None)"

definition sbBind :: "Node list \<Rightarrow> 'w ServiceBase \<Rightarrow> 'w ServiceBase" where
  "sbBind nodes b = b\<lparr>sb_nodes := nodes\<rparr>"

definition prepareNode :: "'w ServiceBase \<Rightarrow> Node \<Rightarrow> 'w act" where
  "prepareNode b n = runAll [wrapErr (''service: pre-stop '' @ sb_name b) (StopNode (sb_hooks b) n),
     wrapErr (''service: pre-clean '' @ sb_name b) (CleanNode (sb_hooks b) n)]"

definition sbStart :: "'w ServiceBase \<Rightarrow> 'w act" where
  "sbStart b = runUntil (concat (map (\<lambda>n. [prepareNode b n, wrapErr (''service: start '' @ sb_name b) (StartNode (sb_hooks b) n)]) (sb_nodes b)))"

definition sbStop :: "'w ServiceBase \<Rightarrow> 'w act" where
  "sbStop b = runAll (map (\<lambda>n. wrapErr (''service: stop '' @ sb_name b) (StopNode (sb_hooks b) n)) (sb_nodes b))"

definition sbClean :: "'w ServiceBase \<Rightarrow> 'w act" where
  "sbClean b = runAll (map (\<lambda>n. wrapErr (''service: clean '' @ sb_name b) (CleanNode (sb_hooks b) n)) (sb_nodes b))"

definition sbWait :: "'w ServiceBase \<Rightarrow> 'w act" where
  "sbWait b = runAll (map (\<lambda>n. wrapErr (''service: wait '' @ sb_name b) (WaitNode (sb_hooks b) n)) (sb_nodes b))"

record Artifact =
  ar_name :: string
  ar_path :: string
  ar_onPass :: bool
  ar_dir :: bool

text \<open>The interface, with \<^verbatim>\<open>Artifacts\<close> where the service is an \<^verbatim>\<open>Archiver\<close>.\<close>

record 'w Service =
  svc_name :: string
  svc_spec :: PoolSpec
  svc_nodes :: "Node list"
  svc_start :: "'w act"
  svc_stop :: "'w act"
  svc_clean :: "'w act"
  svc_wait :: "'w act"
  svc_artifacts :: "(Node \<Rightarrow> 'w \<Rightarrow> Artifact list) option"

text \<open>A service that overrides nothing.\<close>

definition defaultService :: "'w ServiceBase \<Rightarrow> (Node \<Rightarrow> 'w \<Rightarrow> Artifact list) option \<Rightarrow> 'w Service" where
  "defaultService b arch = \<lparr>svc_name = sb_name b, svc_spec = sb_spec b, svc_nodes = sb_nodes b,
     svc_start = sbStart b, svc_stop = sbStop b, svc_clean = sbClean b, svc_wait = sbWait b, svc_artifacts = arch\<rparr>"

text \<open>A registry is its services, in the order they were added.\<close>

definition regAdd :: "'w Service \<Rightarrow> 'w Service list \<Rightarrow> 'w Service list" where
  "regAdd svc reg = reg @ [svc]"

definition reversed :: "'w Service list \<Rightarrow> 'w Service list" where
  "reversed reg = rev reg"

definition StopAll :: "'w Service list \<Rightarrow> 'w act" where
  "StopAll reg = runAll (map svc_stop (reversed reg))"

definition CleanAll :: "'w Service list \<Rightarrow> 'w act" where
  "CleanAll reg = runAll (map svc_clean (reversed reg))"

subsection \<open>Artifacts\<close>

record ExecResult =
  ExitCode :: int
  Stdout :: bytes
  Stderr :: bytes

definition ExitError :: "string \<Rightarrow> ExecResult \<Rightarrow> error option" where
  "ExitError prog r = (if ExitCode r = 0 then None
     else Some (Errorf ''%s exited %d: %s'' [AStr prog, AInt (ExitCode r), AStr (trimSpace (Stderr r))]))"

text \<open>\<^verbatim>\<open>path.Dir\<close> and \<^verbatim>\<open>path.Base\<close>.\<close>

definition path_Dir :: "string \<Rightarrow> string" where
  "path_Dir p = Clean (rev (dropWhile (\<lambda>c. c \<noteq> CHR ''/'') (rev p)))"

definition path_Base :: "string \<Rightarrow> string" where
  "path_Base p = (if p = [] then ''.''
     else let b = takeWhile (\<lambda>c. c \<noteq> CHR ''/'') (dropWhile (\<lambda>c. c = CHR ''/'') (rev p)) in if b = [] then ''/'' else rev b)"

text \<open>What collecting asks of the local host and of a node.\<close>

record 'w host_ops =
  ho_mkdirAll :: "string \<Rightarrow> 'w act"
  ho_mkdir :: "Node \<Rightarrow> string \<Rightarrow> 'w act"
  ho_get :: "Node \<Rightarrow> string \<Rightarrow> string \<Rightarrow> 'w act"
  ho_rm :: "Node \<Rightarrow> string \<Rightarrow> 'w act"
  ho_exec :: "Node \<Rightarrow> string list \<Rightarrow> 'w \<Rightarrow> (error + ExecResult) \<times> 'w"

definition ShouldCollect :: "Artifact \<Rightarrow> bool \<Rightarrow> bool" where
  "ShouldCollect a passed \<longleftrightarrow> \<not> passed \<or> ar_onPass a"

definition archiveErr :: "Artifact \<Rightarrow> error option \<Rightarrow> error option" where
  "archiveErr a cause = Some (Wrap ErrService (''collect: archive '' @ ar_path a) cause)"

text \<open>What follows the run of \<^verbatim>\<open>tar\<close>, before the archive is removed.\<close>

definition fetchArchive :: "'w host_ops \<Rightarrow> Node \<Rightarrow> Artifact \<Rightarrow> string \<Rightarrow> string \<Rightarrow> error + ExecResult \<Rightarrow> 'w act" where
  "fetchArchive h n a archive dest res w =
     (case res of
        Inl e \<Rightarrow> (archiveErr a (Some e), w)
      | Inr x \<Rightarrow>
          if ExitCode x \<noteq> 0 \<and> ExitCode x \<noteq> 1 then (archiveErr a (ExitError ''tar'' x), w)
          else (case ho_get h n archive dest w of
              (None, w1) \<Rightarrow> (None, w1)
            | (Some e, w1) \<Rightarrow>
                (case ExitError ''tar'' x of
                   Some warned \<Rightarrow> (archiveErr a (Some (Errorf ''%w, and then %w'' [AErr warned, AErr e])), w1)
                 | None \<Rightarrow> (Some e, w1))))"

definition collectDir :: "'w host_ops \<Rightarrow> Node \<Rightarrow> Artifact \<Rightarrow> string \<Rightarrow> 'w act" where
  "collectDir h n a dest w =
     (let archive = path_Join [Root (nscratch n), ''.artifact-'' @ ar_name a]; dir = Clean (ar_path a) in
      case ho_exec h n [''test'', ''-d'', dir] w of
        (Inl e, w1) \<Rightarrow> (archiveErr a (Some e), w1)
      | (Inr x, w1) \<Rightarrow>
          if ExitCode x \<noteq> 0 then (archiveErr a (Some (Errorf ''not a directory'' [])), w1)
          else (case ho_exec h n [''tar'', ''-C'', path_Dir dir, ''-czf'', archive, ''--'', path_Base dir @ ''/.''] w1 of
              (res, w2) \<Rightarrow> (case fetchArchive h n a archive dest res w2 of
                (e, w3) \<Rightarrow> (case ho_rm h n archive w3 of (_, w4) \<Rightarrow> (e, w4)))))"

definition Collect :: "'w host_ops \<Rightarrow> Node \<Rightarrow> Artifact list \<Rightarrow> bool \<Rightarrow> string \<Rightarrow> 'w act" where
  "Collect h n artifacts passed destDir w =
     (let wanted = filter (\<lambda>a. ShouldCollect a passed) artifacts in
      if wanted = [] then (None, w)
      else (case ho_mkdirAll h destDir w of
          (Some e, w1) \<Rightarrow> (Some (Wrap ErrService (''collect: mkdir '' @ destDir) (Some e)), w1)
        | (None, w1) \<Rightarrow>
            (case (if list_ex ar_dir wanted then
                (case ho_mkdir h n (Root (nscratch n)) w1 of
                   (Some e, w2) \<Rightarrow> ([Wrap ErrService (''collect: mkdir '' @ Root (nscratch n) @ '' for directory archives'') (Some e)], False, w2)
                 | (None, w2) \<Rightarrow> ([], True, w2)) else ([], False, w1)) of
               (errs, dirs, w2) \<Rightarrow>
                 (case gather (concat (map (\<lambda>a. if \<not> ar_dir a then [ho_get h n (ar_path a) (path_Join [destDir, ar_name a])]
                      else if dirs then [collectDir h n a (path_Join [destDir, ar_name a])] else []) wanted)) errs w2 of
                    (errs, w3) \<Rightarrow> (MultiError_Err errs, w3)))))"

definition collectNode :: "'w host_ops \<Rightarrow> string \<Rightarrow> bool \<Rightarrow> 'w Service \<Rightarrow> (Node \<Rightarrow> 'w \<Rightarrow> Artifact list) \<Rightarrow> Node \<Rightarrow> 'w act" where
  "collectNode h dir passed svc arch n w =
     (if arch n w = [] then (None, w)
      else Collect h n (arch n w) passed (path_Join [dir, svc_name svc, name n]) w)"

definition CollectArtifacts :: "'w host_ops \<Rightarrow> string \<Rightarrow> bool \<Rightarrow> 'w Service list \<Rightarrow> 'w act" where
  "CollectArtifacts h dir passed reg w =
     (if dir = [] then (None, w)
      else runAll (concat (map (\<lambda>svc. case svc_artifacts svc of None \<Rightarrow> []
        | Some arch \<Rightarrow> map (collectNode h dir passed svc arch) (svc_nodes svc)) reg)) w)"

subsection \<open>Finalizers, and a job's defaults\<close>

text \<open>The stack of callbacks is a list, the one added last at its end; running it empties it.\<close>

definition finAdd :: "'w act \<Rightarrow> 'w act list \<Rightarrow> 'w act list" where
  "finAdd fn fns = fns @ [fn]"

definition finRun :: "'w act list \<Rightarrow> 'w \<Rightarrow> (error option \<times> 'w) \<times> 'w act list" where
  "finRun fns w = (runAll (rev fns) w, [])"

definition JobBase_Setup :: "'w Service list \<Rightarrow> 'w act" where
  "JobBase_Setup services = runUntil (map svc_start services @ map svc_wait services)"

text \<open>The error of the teardown, what is noted as not persisted, the finalizers left and the world.\<close>

definition JobBase_Teardown :: "'w host_ops \<Rightarrow> string \<Rightarrow> bool \<Rightarrow> 'w Service list \<Rightarrow> 'w act list \<Rightarrow> 'w \<Rightarrow>
    error option \<times> error list \<times> 'w act list \<times> 'w" where
  "JobBase_Teardown h dir passed reg fns w =
     (case StopAll reg w of (e1, w1) \<Rightarrow>
      case CollectArtifacts h dir passed reg w1 of (ec, w2) \<Rightarrow>
      case CleanAll reg w2 of (e2, w3) \<Rightarrow>
      case finRun fns w3 of ((e3, w4), fns') \<Rightarrow>
        (MultiError_Err (MultiError_Append (MultiError_Append (MultiError_Append [] e1) e2) e3),
         (case ec of None \<Rightarrow> [] | Some e \<Rightarrow> [Errorf ''results: collect artifacts: %w'' [AErr e]]), fns', w4))"

subsection \<open>Stopping a process, and waiting for one\<close>

text \<open>
  A signal is its name, as its \<^verbatim>\<open>String\<close> gives it. What a wait gives: the exit status, or an error and whether it is a deadline's. \<^verbatim>\<open>ps_ctxErr\<close> is whether the
  caller's context has ended.
\<close>

datatype wait_result = Exited int | WaitFailed error bool

record 'w process_ops =
  ps_signal :: "string \<Rightarrow> 'w act"
  ps_wait :: "int \<Rightarrow> 'w \<Rightarrow> wait_result \<times> 'w"
  ps_close :: "'w act"
  ps_ctxErr :: "'w \<Rightarrow> bool \<times> 'w"

record StopPolicy =
  po_signal :: string
  po_grace :: int
  po_dump :: "string option"
  po_dumpGrace :: int

definition defaultDumpGrace :: int where
  "defaultDumpGrace = 2000000000"

definition graceRanOut :: "wait_result \<Rightarrow> error option \<Rightarrow> bool \<Rightarrow> bool" where
  "graceRanOut res sigErr callerErr \<longleftrightarrow> (case res of Exited _ \<Rightarrow> False | WaitFailed _ deadline \<Rightarrow> sigErr = None \<and> \<not> callerErr \<and> deadline)"

definition dumpState :: "'w process_ops \<Rightarrow> StopPolicy \<Rightarrow> bool \<Rightarrow> 'w \<Rightarrow> bool \<times> 'w" where
  "dumpState p policy ranOut w = (case po_dump policy of
     Some sig \<Rightarrow>
       if ranOut then
         (case ps_signal p sig w of
            (None, w1) \<Rightarrow> (True, snd (ps_wait p (if po_dumpGrace policy \<le> 0 then defaultDumpGrace else po_dumpGrace policy) w1))
          | (Some _, w1) \<Rightarrow> (False, w1))
       else (False, w)
   | None \<Rightarrow> (False, w))"

definition stopOutcome :: "StopPolicy \<Rightarrow> wait_result \<Rightarrow> error option \<Rightarrow> bool \<Rightarrow> bool \<Rightarrow> error option \<Rightarrow> int \<times> error option" where
  "stopOutcome policy res sigErr callerErr dumped closeErr =
     (case res of
        Exited code \<Rightarrow> (code, closeErr)
      | WaitFailed waitErr _ \<Rightarrow>
          (case closeErr of
             Some e \<Rightarrow> (-1, Some e)
           | None \<Rightarrow>
               (case sigErr of
                  Some e \<Rightarrow> (-1, Some e)
                | None \<Rightarrow>
                    if callerErr then (-1, Some waitErr)
                    else if graceRanOut res sigErr callerErr
                    then (-1, Some (Wrap ErrShutdownTimeout ''shutdown'' (Some (Errorf ''still running %v after %v; %s''
                      [AStr (po_signal policy), AInt (po_grace policy), AStr (case po_dump policy of Some d \<Rightarrow> if dumped then ''sent '' @ d @ '' for a dump, then killed'' else ''killed'' | None \<Rightarrow> ''killed'')]))))
                    else (-1, Some waitErr))))"

definition StopProcess :: "'w process_ops \<Rightarrow> StopPolicy \<Rightarrow> 'w \<Rightarrow> (int \<times> error option) \<times> 'w" where
  "StopProcess p policy w =
     (case ps_signal p (po_signal policy) w of (sigErr, w1) \<Rightarrow>
      case ps_wait p (po_grace policy) w1 of (res, w2) \<Rightarrow>
      case ps_ctxErr p w2 of (callerErr, w3) \<Rightarrow>
      case dumpState p policy (graceRanOut res sigErr callerErr) w3 of (dumped, w4) \<Rightarrow>
      case ps_close p w4 of (closeErr, w5) \<Rightarrow>
        (stopOutcome policy res sigErr callerErr dumped closeErr, w5))"

definition Shutdown :: "'w process_ops \<Rightarrow> string \<Rightarrow> int \<Rightarrow> 'w \<Rightarrow> (int \<times> error option) \<times> 'w" where
  "Shutdown p sig grace = StopProcess p \<lparr>po_signal = sig, po_grace = grace, po_dump = None, po_dumpGrace = 0\<rparr>"

text \<open>
  Polling: a poll gives whether the condition holds, or an error; the pause after one gives the context's error
  where the context ended first. A wait that never ends is \<open>None\<close>.
\<close>

partial_function (option) WaitUntil :: "('w \<Rightarrow> (error + bool) \<times> 'w) \<Rightarrow> ('w \<Rightarrow> error option \<times> 'w) \<Rightarrow> 'w \<Rightarrow> (error option \<times> 'w) option" where
  [code]: "WaitUntil poll pause w =
     (case poll w of
        (Inl e, w1) \<Rightarrow> Some (Some e, w1)
      | (Inr ready, w1) \<Rightarrow>
          if ready then Some (None, w1)
          else (case pause w1 of
             (Some e, w2) \<Rightarrow> Some (Some (Wrap ErrReadinessTimeout ''readiness: wait'' (Some e)), w2)
           | (None, w2) \<Rightarrow> WaitUntil poll pause w2))"

subsection \<open>What runs, and in what order\<close>

fun outcomes :: "'w act list \<Rightarrow> 'w \<Rightarrow> error option list \<times> 'w" where
  "outcomes [] w = ([], w)"
| "outcomes (a # as) w = (case a w of (e, w1) \<Rightarrow> case outcomes as w1 of (es, w2) \<Rightarrow> (e # es, w2))"

definition failures :: "error option list \<Rightarrow> error list" where
  "failures es = List.map_filter id es"

lemma failures_simps [simp]: "failures [] = []" "failures (None # es) = failures es" "failures (Some e # es) = e # failures es"
  by (simp_all add: failures_def List.map_filter_simps)

lemma gather_outcomes: "gather as errs w = (errs @ failures (fst (outcomes as w)), snd (outcomes as w))"
proof (induction as arbitrary: errs w)
  case (Cons a as)
  obtain e w1 where "a w = (e, w1)" by fastforce
  then show ?case using Cons [of "MultiError_Append errs e" w1] by (cases e) (auto simp: MultiError_Append_def split: prod.splits)
qed simp

lemma runAll_outcomes: "runAll as w = (MultiError_Err (failures (fst (outcomes as w))), snd (outcomes as w))"
  by (simp add: runAll_def gather_outcomes)

definition errIs :: "error option \<Rightarrow> kind \<Rightarrow> bool" where
  "errIs err k = (case err of None \<Rightarrow> False | Some e \<Rightarrow> errors_Is e k)"

lemma failures_empty: "failures es = [] \<longleftrightarrow> set es \<subseteq> {None}"
proof (induction es)
  case (Cons e es)
  then show ?case by (cases e) auto
qed simp

lemma set_failures: "set (failures es) = {e. Some e \<in> set es}"
proof (induction es)
  case (Cons e es)
  then show ?case by (cases e) auto
qed simp

lemma MultiError_None: "MultiError_Err m = None \<longleftrightarrow> m = []"
  by (simp add: MultiError_Err_def)

lemma errIs_join: "errIs (MultiError_Err m) k \<longleftrightarrow> (\<exists>e \<in> set m. errors_Is e k)"
  by (auto simp: errIs_def MultiError_Err_def)

lemma errIs_simps [simp]: "\<not> errIs None k" "errIs (Some e) k \<longleftrightarrow> errors_Is e k"
  by (simp_all add: errIs_def)

lemma errIs_three: "errIs (MultiError_Err (failures [a, b, c])) k \<longleftrightarrow> errIs a k \<or> errIs b k \<or> errIs c k"
  by (cases a; cases b; cases c) (simp_all add: errIs_join)

lemma errIs_runAll: "errIs (fst (runAll as w)) k \<longleftrightarrow> (\<exists>e. Some e \<in> set (fst (outcomes as w)) \<and> errors_Is e k)"
  by (auto simp: runAll_outcomes errIs_join set_failures)

lemma None_runAll: "fst (runAll as w) = None \<longleftrightarrow> set (fst (outcomes as w)) \<subseteq> {None}"
  by (simp add: runAll_outcomes MultiError_None failures_empty)

lemma MultiError_three:
  "MultiError_Append (MultiError_Append (MultiError_Append [] a) b) c = failures [a, b, c]"
  by (cases a; cases b; cases c) (simp_all add: MultiError_Append_def)

text \<open>
  C27: the default \<^verbatim>\<open>Teardown\<close> runs every step, whatever failed before it: every service is stopped, the last
  registered first, then the artifacts are collected, then every service is cleaned, again the last
  first, then every finalizer runs, the last added first, and none is left. Its error is nil exactly if
  every stop, clean and finalizer succeeded, and matches a category exactly if one of their errors does; a
  failure to collect is not part of it, and is recorded as a failure to persist.
\<close>

theorem Teardown_runs_all:
  "case JobBase_Teardown h dir passed reg fns w of (err, lost, fns', w') \<Rightarrow>
     case outcomes (map svc_stop (rev reg)) w of (es1, w1) \<Rightarrow>
     case CollectArtifacts h dir passed reg w1 of (ec, w2) \<Rightarrow>
     case outcomes (map svc_clean (rev reg)) w2 of (es2, w3) \<Rightarrow>
     case outcomes (rev fns) w3 of (es3, w4) \<Rightarrow>
       w' = w4 \<and> fns' = [] \<and> (err = None \<longleftrightarrow> set (es1 @ es2 @ es3) \<subseteq> {None}) \<and>
       (\<forall>k. errIs err k \<longleftrightarrow> (\<exists>e. Some e \<in> set (es1 @ es2 @ es3) \<and> errors_Is e k)) \<and> (lost = [] \<longleftrightarrow> ec = None)"
proof -
  obtain es1 w1 where 1: "outcomes (map svc_stop (rev reg)) w = (es1, w1)" by fastforce
  obtain ec w2 where 2: "CollectArtifacts h dir passed reg w1 = (ec, w2)" by fastforce
  obtain es2 w3 where 3: "outcomes (map svc_clean (rev reg)) w2 = (es2, w3)" by fastforce
  obtain es3 w4 where 4: "outcomes (rev fns) w3 = (es3, w4)" by fastforce
  let ?e1 = "MultiError_Err (failures es1)" and ?e2 = "MultiError_Err (failures es2)" and ?e3 = "MultiError_Err (failures es3)"
  have td: "JobBase_Teardown h dir passed reg fns w = (MultiError_Err (failures [?e1, ?e2, ?e3]),
      (case ec of None \<Rightarrow> [] | Some e \<Rightarrow> [Errorf ''results: collect artifacts: %w'' [AErr e]]), [], w4)"
    using 1 2 3 4 by (simp add: JobBase_Teardown_def StopAll_def CleanAll_def finRun_def reversed_def runAll_outcomes MultiError_three)
  have "MultiError_Err (failures [?e1, ?e2, ?e3]) = None \<longleftrightarrow> set (es1 @ es2 @ es3) \<subseteq> {None}"
    by (simp add: MultiError_None failures_empty)
  moreover have "errIs (MultiError_Err (failures [?e1, ?e2, ?e3])) k \<longleftrightarrow> (\<exists>e. Some e \<in> set (es1 @ es2 @ es3) \<and> errors_Is e k)" for k
    unfolding errIs_three by (auto simp: errIs_join set_failures)
  ultimately show ?thesis using 1 2 3 4 td by (simp split: option.splits)
qed

subsection \<open>Starting a service\<close>

text \<open>The hooks, with a log of the calls made of them and of what each gave.\<close>

datatype node_call = Stopped Node "error option" | Cleaned Node "error option" | Started Node "error option" | Waited Node "error option"

definition logging :: "(error option \<Rightarrow> node_call) \<Rightarrow> 'w act \<Rightarrow> ('w \<times> node_call list) act" where
  "logging c a wl = (case wl of (w, l) \<Rightarrow> case a w of (e, w1) \<Rightarrow> (e, (w1, l @ [c e])))"

definition loggedBase :: "'w ServiceBase \<Rightarrow> ('w \<times> node_call list) ServiceBase" where
  "loggedBase b = (let h = sb_hooks b in \<lparr>sb_name = sb_name b, sb_spec = sb_spec b,
     sb_hooks = \<lparr>StartNode = (\<lambda>n. logging (Started n) (StartNode h n)), StopNode = (\<lambda>n. logging (Stopped n) (StopNode h n)),
       CleanNode = (\<lambda>n. logging (Cleaned n) (CleanNode h n)), WaitNode = (\<lambda>n. logging (Waited n) (WaitNode h n))\<rparr>,
     sb_nodes = sb_nodes b\<rparr>)"

lemma loggedBase_simps [simp]:
  "sb_name (loggedBase b) = sb_name b" "sb_nodes (loggedBase b) = sb_nodes b"
  "StartNode (sb_hooks (loggedBase b)) n = logging (Started n) (StartNode (sb_hooks b) n)"
  "StopNode (sb_hooks (loggedBase b)) n = logging (Stopped n) (StopNode (sb_hooks b) n)"
  "CleanNode (sb_hooks (loggedBase b)) n = logging (Cleaned n) (CleanNode (sb_hooks b) n)"
  by (simp_all add: loggedBase_def Let_def)

definition broughtUp :: "Node \<Rightarrow> node_call list" where
  "broughtUp n = [Stopped n None, Cleaned n None, Started n None]"

definition failedAt :: "Node \<Rightarrow> node_call list \<Rightarrow> bool" where
  "failedAt n l \<longleftrightarrow> (\<exists>e1 e2. l = [Stopped n e1, Cleaned n e2] \<and> (e1 \<noteq> None \<or> e2 \<noteq> None)) \<or>
     (\<exists>e. l = [Stopped n None, Cleaned n None, Started n (Some e)])"

definition startLog :: "Node list \<Rightarrow> error option \<Rightarrow> node_call list \<Rightarrow> bool" where
  "startLog nodes err l \<longleftrightarrow> (case err of
     None \<Rightarrow> l = concat (map broughtUp nodes)
   | Some e \<Rightarrow> \<exists>k rest. k < length nodes \<and> l = concat (map broughtUp (take k nodes)) @ rest \<and> failedAt (nodes ! k) rest)"

lemma prepare_log:
  obtains err e1 e2 w1 where "prepareNode (loggedBase b) n (w, l) = (err, (w1, l @ [Stopped n e1, Cleaned n e2]))"
    "err = None \<longleftrightarrow> e1 = None \<and> e2 = None"
proof -
  obtain e1 v where 1: "StopNode (sb_hooks b) n w = (e1, v)" by fastforce
  obtain e2 w1 where 2: "CleanNode (sb_hooks b) n v = (e2, w1)" by fastforce
  show ?thesis using 1 2
    by (intro that [of _ w1 e1 e2]) (auto simp: prepareNode_def runAll_outcomes loggedBase_def Let_def wrapErr_def logging_def MultiError_None failures_empty)
qed

lemma start_log:
  "\<exists>w' l'. runUntil (concat (map (\<lambda>n. [prepareNode (loggedBase b) n, wrapErr op (StartNode (sb_hooks (loggedBase b)) n)]) nodes)) (w, l) =
     (err, (w', l @ l')) \<and> startLog nodes err l'" if "err = fst (runUntil (concat (map (\<lambda>n. [prepareNode (loggedBase b) n, wrapErr op (StartNode (sb_hooks (loggedBase b)) n)]) nodes)) (w, l))"
  using that
proof (induction nodes arbitrary: w l err)
  case Nil
  then show ?case by (simp add: startLog_def)
next
  case (Cons n nodes)
  obtain perr e1 e2 w1 where p: "prepareNode (loggedBase b) n (w, l) = (perr, (w1, l @ [Stopped n e1, Cleaned n e2]))"
    and pe: "perr = None \<longleftrightarrow> e1 = None \<and> e2 = None" by (rule prepare_log)
  have at0: "startLog (n # nodes) (Some e) rest" if "failedAt n rest" for e rest
    using that by (auto simp: startLog_def intro!: exI [of _ 0])
  show ?case
  proof (cases "e1 = None \<and> e2 = None")
    case False
    then obtain e where "perr = Some e" using pe by auto
    moreover have "failedAt n [Stopped n e1, Cleaned n e2]" using False by (auto simp: failedAt_def)
    ultimately show ?thesis using Cons.prems p at0 by auto
  next
    case True
    obtain es w2 where s: "StartNode (sb_hooks b) n w1 = (es, w2)" by fastforce
    have st: "wrapErr op (StartNode (sb_hooks (loggedBase b)) n) (w1, l @ [Stopped n None, Cleaned n None]) =
        (map_option (\<lambda>e. Wrap ErrService op (Some e)) es, (w2, l @ [Stopped n None, Cleaned n None, Started n es]))"
      using s by (simp add: wrapErr_def loggedBase_def Let_def logging_def)
    show ?thesis
    proof (cases es)
      case (Some e)
      have "failedAt n [Stopped n None, Cleaned n None, Started n (Some e)]" by (auto simp: failedAt_def)
      then show ?thesis using Cons.prems p pe True st Some at0 by auto
    next
      case None
      let ?rest = "runUntil (concat (map (\<lambda>n. [prepareNode (loggedBase b) n, wrapErr op (StartNode (sb_hooks (loggedBase b)) n)]) nodes)) (w2, l @ broughtUp n)"
      have run: "runUntil (concat (map (\<lambda>n. [prepareNode (loggedBase b) n, wrapErr op (StartNode (sb_hooks (loggedBase b)) n)]) (n # nodes))) (w, l) = ?rest"
        using p pe True st None by (simp add: broughtUp_def)
      obtain w' l' where r: "?rest = (err, (w', (l @ broughtUp n) @ l'))" "startLog nodes err l'"
        using Cons.IH [of err w2 "l @ broughtUp n"] Cons.prems run by auto
      have "startLog (n # nodes) err (broughtUp n @ l')"
      proof (cases err)
        case (Some e)
        then obtain k rest where "k < length nodes" "l' = concat (map broughtUp (take k nodes)) @ rest" "failedAt (nodes ! k) rest"
          using r(2) by (auto simp: startLog_def)
        then show ?thesis using Some by (auto simp: startLog_def intro!: exI [of _ "Suc k"])
      qed (use r(2) in \<open>simp add: startLog_def\<close>)
      then show ?thesis using run r(1) by auto
    qed
  qed
qed

text \<open>Logging the calls changes nothing else.\<close>

definition mirrors :: "('w \<times> 'l) act \<Rightarrow> 'w act \<Rightarrow> bool" where
  "mirrors a' a \<longleftrightarrow> (\<forall>w l. fst (a' (w, l)) = fst (a w) \<and> fst (snd (a' (w, l))) = snd (a w))"

lemma mirrorsD: "mirrors a' a \<Longrightarrow> a w = (e, w1) \<Longrightarrow> \<exists>l'. a' (w, l) = (e, (w1, l'))"
  unfolding mirrors_def by (metis fst_conv prod.collapse snd_conv)

lemma mirrorsI: "(\<And>w l e w1. a w = (e, w1) \<Longrightarrow> \<exists>l'. a' (w, l) = (e, (w1, l'))) \<Longrightarrow> mirrors a' a"
  unfolding mirrors_def by (metis fst_conv prod.collapse snd_conv)

lemma mirrors_wrapErr: "mirrors a' a \<Longrightarrow> mirrors (wrapErr op a') (wrapErr op a)"
proof (rule mirrorsI)
  fix w l e w1 assume m: "mirrors a' a" and r: "wrapErr op a w = (e, w1)"
  obtain e0 v where a: "a w = (e0, v)" by fastforce
  then obtain l1 where "a' (w, l) = (e0, (v, l1))" using mirrorsD [OF m] by blast
  then show "\<exists>l'. wrapErr op a' (w, l) = (e, w1, l')" using r a by (auto simp: wrapErr_def)
qed

lemma mirrors_logging: "mirrors (logging c a) a"
  by (rule mirrorsI) (simp add: logging_def)

lemma mirrors_outcomes: "list_all2 mirrors as' as \<Longrightarrow> outcomes as w = (es, w1) \<Longrightarrow> \<exists>l'. outcomes as' (w, l) = (es, (w1, l'))"
proof (induction arbitrary: w es l rule: list_all2_induct)
  case (Cons a' as' a as)
  obtain e v where a: "a w = (e, v)" by fastforce
  obtain l1 where "a' (w, l) = (e, (v, l1))" using mirrorsD [OF Cons(1) a, of l] by blast
  moreover obtain es1 where "outcomes as v = (es1, w1)" "es = e # es1" using Cons.prems a by (auto split: prod.splits)
  ultimately show ?case using Cons.IH [of v es1 l1] by fastforce
qed simp

lemma mirrors_runAll: "list_all2 mirrors as' as \<Longrightarrow> mirrors (runAll as') (runAll as)"
proof (rule mirrorsI)
  fix w l e w1 assume m: "list_all2 mirrors as' as" and r: "runAll as w = (e, w1)"
  obtain es v where o: "outcomes as w = (es, v)" by fastforce
  then obtain l1 where "outcomes as' (w, l) = (es, (v, l1))" using mirrors_outcomes [OF m] by blast
  then show "\<exists>l'. runAll as' (w, l) = (e, w1, l')" using r o by (auto simp: runAll_outcomes)
qed

lemma mirrors_runUntil: "list_all2 mirrors as' as \<Longrightarrow> mirrors (runUntil as') (runUntil as)"
proof (induction rule: list_all2_induct)
  case (Cons a' as' a as)
  show ?case
  proof (rule mirrorsI)
    fix w l e w1 assume r: "runUntil (a # as) w = (e, w1)"
    obtain e0 v where a: "a w = (e0, v)" by fastforce
    obtain l1 where a': "a' (w, l) = (e0, (v, l1))" using mirrorsD [OF Cons(1) a, of l] by blast
    show "\<exists>l'. runUntil (a' # as') (w, l) = (e, w1, l')"
      using r a a' mirrorsD [OF Cons.IH, of v e w1 l1] by (cases e0) auto
  qed
qed (simp add: mirrors_def)

lemma mirrors_prepare: "mirrors (prepareNode (loggedBase b) n) (prepareNode b n)"
  unfolding prepareNode_def by (rule mirrors_runAll) (simp add: mirrors_wrapErr mirrors_logging)

lemma mirrors_start: "mirrors (sbStart (loggedBase b)) (sbStart b)"
proof -
  have "list_all2 mirrors (concat (map (\<lambda>n. [prepareNode (loggedBase b) n, wrapErr op (StartNode (sb_hooks (loggedBase b)) n)]) ns))
      (concat (map (\<lambda>n. [prepareNode b n, wrapErr op (StartNode (sb_hooks b) n)]) ns))" for op ns
    by (induction ns) (simp_all add: mirrors_prepare mirrors_wrapErr mirrors_logging)
  then show ?thesis unfolding sbStart_def by (intro mirrors_runUntil) simp
qed

text \<open>
  C28: \<^verbatim>\<open>ServiceBase.Start\<close> starts a node only right after it was stopped and cleaned without error. It brings
  the nodes up in order, and at the first that fails to stop, to clean or to start it returns the error
  and touches no node after it; a node that failed to stop is still cleaned, and is not started. This is
  read off a log of the calls, which does not change what they do.
\<close>

theorem Start_prepared:
  "case sbStart (loggedBase b) (w, []) of (err, w', l) \<Rightarrow> sbStart b w = (err, w') \<and> startLog (sb_nodes b) err l"
proof -
  obtain err w' l where s: "sbStart (loggedBase b) (w, []) = (err, w', l)" by (metis prod_cases3)
  then have "startLog (sb_nodes b) err l"
    using start_log [OF refl, of b "''service: start '' @ sb_name b" "sb_nodes b" w "[]"] by (auto simp: sbStart_def)
  moreover have "sbStart b w = (err, w')"
  proof -
    obtain e v where "sbStart b w = (e, v)" by fastforce
    then show ?thesis using mirrorsD [OF mirrors_start, of b w e v "[]"] s by auto
  qed
  ultimately show ?thesis using s by simp
qed

subsection \<open>Stops and waits\<close>

text \<open>A stop that reports a timeout has killed the process.\<close>

lemma StopProcess_timeout_killed:
  assumes s: "StopProcess p policy w = ((code, Some e), w')" and t: "errors_Is e ErrShutdownTimeout"
    and sig: "\<And>x v. \<not> errIs (fst (ps_signal p x v)) ErrShutdownTimeout" and cl: "\<And>v. \<not> errIs (fst (ps_close p v)) ErrShutdownTimeout"
    and wt: "\<And>x v f d. fst (ps_wait p x v) = WaitFailed f d \<Longrightarrow> \<not> errors_Is f ErrShutdownTimeout"
  shows "code = -1 \<and> (\<exists>v. ps_close p v = (None, w'))"
proof -
  obtain sigErr w1 where 1: "ps_signal p (po_signal policy) w = (sigErr, w1)" by fastforce
  obtain res w2 where 2: "ps_wait p (po_grace policy) w1 = (res, w2)" by fastforce
  obtain c w3 where 3: "ps_ctxErr p w2 = (c, w3)" by fastforce
  obtain d w4 where 4: "dumpState p policy (graceRanOut res sigErr c) w3 = (d, w4)" by fastforce
  obtain closeErr w5 where 5: "ps_close p w4 = (closeErr, w5)" by fastforce
  have out: "stopOutcome policy res sigErr c d closeErr = (code, Some e)" "w' = w5"
    using s 1 2 3 4 5 by (auto simp: StopProcess_def)
  have n: "\<not> errIs sigErr ErrShutdownTimeout" "\<not> errIs closeErr ErrShutdownTimeout"
    using sig [of "po_signal policy" w] cl [of w4] 1 5 by simp_all
  have wn: "\<not> errors_Is f ErrShutdownTimeout" if "res = WaitFailed f x" for f x using wt [of "po_grace policy" w1 f x] 2 that by simp
  show ?thesis
  proof (cases res)
    case (Exited x1)
    then show ?thesis using out n t by (simp add: stopOutcome_def)
  next
    case (WaitFailed f x)
    then have "closeErr = None" using out n t by (cases closeErr) (auto simp: stopOutcome_def)
    moreover have "code = -1" using out WaitFailed by (auto simp: stopOutcome_def split: option.splits if_splits)
    ultimately show ?thesis using out 5 by auto
  qed
qed

lemma WaitUntil_returns:
  fixes \<mu> :: "'w \<Rightarrow> nat"
  assumes "\<And>v v1 v2. poll v = (Inr False, v1) \<Longrightarrow> pause v1 = (None, v2) \<Longrightarrow> \<mu> v2 < \<mu> v"
  shows "\<exists>err w'. WaitUntil poll pause w = Some (err, w') \<and> (err = None \<longrightarrow> (\<exists>v. poll v = (Inr True, w')))"
proof (induction "\<mu> w" arbitrary: w rule: less_induct)
  case less
  obtain r w1 where p: "poll w = (r, w1)" by fastforce
  obtain e w2 where q: "pause w1 = (e, w2)" by fastforce
  consider x where "r = Inl x" | "r = Inr True" | x where "r = Inr False" "e = Some x" | "r = Inr False" "e = None"
    by (cases r; cases e) auto
  then show ?case
  proof cases
    case 4
    then show ?thesis using less [of w2] assms [of w w1 w2] p q by (subst WaitUntil.simps) simp
  qed (use p q in \<open>auto simp: WaitUntil.simps\<close>)
qed

end
