(* ===== verification/Torx_Capture.thy ===== *)
theory Torx_Capture
  imports Torx_Service
begin

text \<open>
  Captured output, \<^verbatim>\<open>src/capture.go\<close>: launching a process on a node with its output in a file, what becomes of
  the file of the process before it, and the quoting of a command for the shell. What the node does is a
  record of parameters.
\<close>

subsection \<open>Quoting\<close>

abbreviation apostrophe :: char where
  "apostrophe \<equiv> CHR 0x27"

abbreviation backslash :: char where
  "backslash \<equiv> CHR 0x5C"

definition quoteByte :: "char \<Rightarrow> string" where
  "quoteByte c = (if c = apostrophe then [apostrophe, backslash, apostrophe, apostrophe] else [c])"

definition shQuote :: "string \<Rightarrow> string" where
  "shQuote s = apostrophe # concat (map quoteByte s) @ [apostrophe]"

definition shJoin :: "string \<Rightarrow> string list \<Rightarrow> string" where
  "shJoin path args = join '' '' (shQuote path # map shQuote args)"

definition launchScript :: "string \<Rightarrow> string list \<Rightarrow> string \<Rightarrow> string" where
  "launchScript path args logPath = ''exec '' @ shJoin path args @ '' > '' @ shQuote logPath @ '' 2>&1''"

subsection \<open>Captures\<close>

datatype CapturePolicy = CaptureTruncate | CaptureRotate

record Cmd =
  cPath :: string
  cArgs :: "string list"
  cEnv :: "string list"
  cDir :: string
  cStdin :: bytes

record ('w, 'p) node_ops =
  no_mkdir :: "string \<Rightarrow> 'w act"
  no_rm :: "string \<Rightarrow> 'w act"
  no_exists :: "string \<Rightarrow> 'w \<Rightarrow> (error + bool) \<times> 'w"
  no_exec :: "string list \<Rightarrow> 'w \<Rightarrow> (error + ExecResult) \<times> 'w"
  no_stream :: "Cmd \<Rightarrow> 'w \<Rightarrow> (error + 'p) \<times> 'w"

text \<open>What a \<^verbatim>\<open>ServiceBase\<close> keeps for its captures: the artifacts of each node, the policy and the launches under each name.\<close>

record captures =
  cp_artifacts :: "(string \<times> Artifact) list"
  cp_policy :: CapturePolicy
  cp_launches :: "string \<Rightarrow> nat"

definition SetCapturePolicy :: "CapturePolicy \<Rightarrow> captures \<Rightarrow> captures" where
  "SetCapturePolicy p c = c\<lparr>cp_policy := p\<rparr>"

text \<open>A bad name panics, \<open>None\<close>.\<close>

definition AddArtifact :: "Node \<Rightarrow> Artifact \<Rightarrow> captures \<Rightarrow> captures option" where
  "AddArtifact n a c = (if validComponent (ar_name a) then Some (c\<lparr>cp_artifacts := cp_artifacts c @ [(name n, a)]\<rparr>) else None)"

definition Artifacts :: "Node \<Rightarrow> captures \<Rightarrow> Artifact list" where
  "Artifacts n c = map snd (filter (\<lambda>(m, a). m = name n) (cp_artifacts c))"

definition isDigit :: "char \<Rightarrow> bool" where
  "isDigit c \<longleftrightarrow> 48 \<le> (of_char c :: nat) \<and> (of_char c :: nat) \<le> 57"

text \<open>What follows the last dot of a name, if there is one.\<close>

definition afterDot :: "string \<Rightarrow> string" where
  "afterDot s = rev (takeWhile (\<lambda>c. c \<noteq> CHR ''.'') (rev s))"

definition numberedLog :: "string \<Rightarrow> bool" where
  "numberedLog s \<longleftrightarrow> CHR ''.'' \<in> set s \<and> afterDot s \<noteq> [] \<and> list_all isDigit (afterDot s)"

definition oneComponent :: "string \<Rightarrow> bool" where
  "oneComponent s \<longleftrightarrow> s \<noteq> [] \<and> CHR ''/'' \<notin> set s \<and> backslash \<notin> set s \<and> s \<noteq> ''.'' \<and> s \<noteq> ''..''"

definition logName :: "string \<Rightarrow> string" where
  "logName nm = nm @ ''.log''"

definition rotatedName :: "string \<Rightarrow> nat \<Rightarrow> string" where
  "rotatedName nm k = nm @ ''.'' @ itoa (int k) @ ''.log''"

definition CapturePath :: "string \<Rightarrow> string \<Rightarrow> string" where
  "CapturePath dir nm = path_Join [dir, logName nm]"

text \<open>The error, or what the captures are after it; a panic of \<^verbatim>\<open>AddArtifact\<close> is \<open>None\<close>.\<close>

definition clearCaptureLog :: "('w, 'p) node_ops \<Rightarrow> Node \<Rightarrow> string \<Rightarrow> string \<Rightarrow> nat \<Rightarrow> CapturePolicy \<Rightarrow> captures \<Rightarrow> 'w \<Rightarrow>
    ((error option \<times> captures) \<times> 'w) option" where
  "clearCaptureLog ops n dir nm launched policy c w =
     (let logPath = path_Join [dir, logName nm] in
      if launched = 0 \<or> policy \<noteq> CaptureRotate then (case no_rm ops logPath w of (e, w1) \<Rightarrow> Some ((e, c), w1))
      else (case no_exists ops logPath w of
          (Inl e, w1) \<Rightarrow> Some ((Some e, c), w1)
        | (Inr there, w1) \<Rightarrow>
            if \<not> there then Some ((None, c), w1)
            else let rotated = path_Join [dir, rotatedName nm launched] in
              (case no_exec ops [''mv'', logPath, rotated] w1 of
                 (Inl e, w2) \<Rightarrow> Some ((Some e, c), w2)
               | (Inr x, w2) \<Rightarrow>
                   (case ExitError ''mv'' x of
                      Some e \<Rightarrow> Some ((Some (Wrap ErrBackend (''capture: rotate '' @ logPath) (Some e)), c), w2)
                    | None \<Rightarrow>
                        (case AddArtifact n \<lparr>ar_name = rotatedName nm launched, ar_path = rotated, ar_onPass = True, ar_dir = False\<rparr> c of
                           None \<Rightarrow> None
                         | Some c1 \<Rightarrow> Some ((None, c1), w2))))))"

datatype capture_error = NotComponent string | NumberedName string | CaptureFailed error

definition launchKey :: "Node \<Rightarrow> string \<Rightarrow> string" where
  "launchKey n nm = name n @ ''/'' @ nm"

definition StartCapturedAs :: "('w, 'p) node_ops \<Rightarrow> string \<Rightarrow> Node \<Rightarrow> string \<Rightarrow> Cmd \<Rightarrow> captures \<Rightarrow> 'w \<Rightarrow>
    (((capture_error + 'p) \<times> captures) \<times> 'w) option" where
  "StartCapturedAs ops svc n nm cmd c w =
     (if \<not> oneComponent nm then Some ((Inl (NotComponent nm), c), w)
      else if numberedLog nm then Some ((Inl (NumberedName nm), c), w)
      else (case MakeScratch (Root (nscratch n)) svc of
          None \<Rightarrow> None
        | Some sc \<Rightarrow>
            let dir = Root sc; logPath = CapturePath dir nm; k = launchKey n nm; launched = cp_launches c k in
            (case no_mkdir ops dir w of
               (Some e, w1) \<Rightarrow> Some ((Inl (CaptureFailed e), c), w1)
             | (None, w1) \<Rightarrow>
                 (case clearCaptureLog ops n dir nm launched (cp_policy c) c w1 of
                    None \<Rightarrow> None
                  | Some ((Some e, c1), w2) \<Rightarrow> Some ((Inl (CaptureFailed e), c1), w2)
                  | Some ((None, c1), w2) \<Rightarrow>
                      (case no_stream ops \<lparr>cPath = ''sh'', cArgs = [''-c'', launchScript (cPath cmd) (cArgs cmd) logPath], cEnv = cEnv cmd, cDir = cDir cmd, cStdin = cStdin cmd\<rparr> w2 of
                         (Inl e, w3) \<Rightarrow> Some ((Inl (CaptureFailed e), c1), w3)
                       | (Inr handle', w3) \<Rightarrow>
                           let c2 = c1\<lparr>cp_launches := (cp_launches c1)(k := cp_launches c1 k + 1)\<rparr> in
                           if launched = 0 then
                             (case AddArtifact n \<lparr>ar_name = logName nm, ar_path = logPath, ar_onPass = True, ar_dir = False\<rparr> c2 of
                                None \<Rightarrow> None | Some c3 \<Rightarrow> Some ((Inr handle', c3), w3))
                           else Some ((Inr handle', c2), w3))))))"

definition StartCaptured :: "('w, 'p) node_ops \<Rightarrow> string \<Rightarrow> Node \<Rightarrow> Cmd \<Rightarrow> captures \<Rightarrow> 'w \<Rightarrow> (((capture_error + 'p) \<times> captures) \<times> 'w) option" where
  "StartCaptured ops svc n cmd c w = StartCapturedAs ops svc n ''stdout'' cmd c w"

subsection \<open>What the shell reads\<close>

text \<open>
  The words of a simple command as a POSIX shell reads them: between apostrophes every character stands for itself;
  outside, a backslash quotes the character after it and blanks separate words. A character that means
  anything else to the shell gives \<open>None\<close>. The word being read is \<open>None\<close> between words.
\<close>

definition shellPlain :: "char \<Rightarrow> bool" where
  "shellPlain c \<longleftrightarrow> isDigit c \<or> 65 \<le> (of_char c :: nat) \<and> (of_char c :: nat) \<le> 90 \<or> 97 \<le> (of_char c :: nat) \<and> (of_char c :: nat) \<le> 122 \<or>
     c \<in> set ''%+,-./:@_''"

definition endWord :: "string option \<Rightarrow> string list" where
  "endWord cur = (case cur of None \<Rightarrow> [] | Some v \<Rightarrow> [v])"

definition grow :: "string option \<Rightarrow> string \<Rightarrow> string option" where
  "grow cur s = Some ((case cur of None \<Rightarrow> [] | Some v \<Rightarrow> v) @ s)"

fun shellWords :: "bool \<Rightarrow> string option \<Rightarrow> string \<Rightarrow> string list option" where
  "shellWords quoted cur [] = (if quoted then None else Some (endWord cur))"
| "shellWords True cur (c # s) = (if c = apostrophe then shellWords False cur s else shellWords True (grow cur [c]) s)"
| "shellWords False cur (c # s) =
     (if c = apostrophe then shellWords True (grow cur []) s
      else if c = backslash then (case s of [] \<Rightarrow> None | d # s' \<Rightarrow> shellWords False (grow cur [d]) s')
      else if c = CHR '' '' then map_option (\<lambda>vs. endWord cur @ vs) (shellWords False None s)
      else if shellPlain c then shellWords False (grow cur [c]) s else None)"

lemma grow_grow [simp]: "grow (grow cur a) b = grow cur (a @ b)"
  by (simp add: grow_def)

lemma shellWords_quoted: "shellWords True (grow cur a) (concat (map quoteByte s) @ apostrophe # t) = shellWords False (grow cur (a @ s)) t"
proof (induction s arbitrary: a)
  case (Cons c s)
  have "shellWords True (grow cur a) (quoteByte c @ u) = shellWords True (grow cur (a @ [c])) u" for u
    by (simp add: quoteByte_def)
  then show ?case using Cons [of "a @ [c]"] by simp
qed simp

lemma shellWords_shQuote: "shellWords False None (shQuote s @ t) = shellWords False (Some s) t"
  using shellWords_quoted [of None "[]" s t] by (simp add: shQuote_def grow_def)

text \<open>
  C29: \<^verbatim>\<open>shJoin\<close> renders an argument vector so that the shell reads it back word for word, whatever the
  words hold: blanks, quotes, backslashes, dollar signs, or nothing.
\<close>

theorem shJoin_words: "shellWords False None (shJoin path args) = Some (path # args)"
proof (induction args arbitrary: path)
  case Nil
  then show ?case using shellWords_shQuote [of path "[]"] by (simp add: shJoin_def endWord_def)
next
  case (Cons a args)
  have "shJoin path (a # args) = shQuote path @ '' '' @ shJoin a args" by (simp add: shJoin_def)
  then show ?case using Cons [of a] shellWords_shQuote [of path "'' '' @ shJoin a args"] by (simp add: endWord_def)
qed

subsection \<open>Names that never meet\<close>

lemma itoa_nat: "itoa (int k) = utoa k"
  by (simp add: itoa_def)

lemma utoa_digit: "list_all isDigit (utoa k)" "utoa k \<noteq> []" "CHR ''.'' \<notin> set (utoa k)"
proof -
  have u: "utoa k \<noteq> []" "\<forall>c \<in> set (utoa k). 48 \<le> (of_char c :: nat) \<and> (of_char c :: nat) < 58" using utoa_digits [of k] by blast+
  show "utoa k \<noteq> []" by (rule u(1))
  show "list_all isDigit (utoa k)" using u(2) by (force simp: list_all_iff isDigit_def)
  show "CHR ''.'' \<notin> set (utoa k)" by (rule utoa_no) simp
qed

lemma utoa_inj:
  assumes "utoa j = utoa k"
  shows "j = k"
proof -
  have "digitsIn 10 0 (utoa j) = Some j" "digitsIn 10 0 (utoa k) = Some k" using utoa_digits by blast+
  then show ?thesis unfolding assms by simp
qed

lemma afterDot_append:
  assumes "CHR ''.'' \<notin> set ds"
  shows "afterDot (s @ CHR ''.'' # ds) = ds"
proof -
  have "takeWhile (\<lambda>c. c \<noteq> CHR ''.'') (rev ds @ CHR ''.'' # rev s) = rev ds @ takeWhile (\<lambda>c. c \<noteq> CHR ''.'') (CHR ''.'' # rev s)"
    using assms by (intro takeWhile_append2) auto
  then show ?thesis by (simp add: afterDot_def)
qed

lemma numberedLog_dot: "numberedLog (s @ ''.'' @ utoa k)"
proof -
  have "afterDot (s @ ''.'' @ utoa k) = utoa k" using afterDot_append [OF utoa_digit(3), of s k] by simp
  then show ?thesis unfolding numberedLog_def using utoa_digit(1,2) [of k] by simp
qed

lemma logName_rotated: "\<not> numberedLog m \<Longrightarrow> logName m \<noteq> rotatedName nm k"
proof
  assume m: "\<not> numberedLog m" and "logName m = rotatedName nm k"
  then have "m @ ''.log'' = (nm @ ''.'' @ utoa k) @ ''.log''" by (simp add: logName_def rotatedName_def itoa_nat)
  then have "m = nm @ ''.'' @ utoa k" by (rule append_same_eq [THEN iffD1])
  then show False using m numberedLog_dot [of nm k] by simp
qed

lemma rotatedName_inj: "rotatedName m j = rotatedName nm k \<Longrightarrow> m = nm \<and> j = k"
proof -
  assume "rotatedName m j = rotatedName nm k"
  then have "(m @ ''.'' @ utoa j) @ ''.log'' = (nm @ ''.'' @ utoa k) @ ''.log''" by (simp add: rotatedName_def itoa_nat)
  then have e: "m @ ''.'' @ utoa j = nm @ ''.'' @ utoa k" by (rule append_same_eq [THEN iffD1])
  then have "utoa j = utoa k" using afterDot_append [OF utoa_digit(3), of m j] afterDot_append [OF utoa_digit(3), of nm k] by simp
  then show ?thesis using e utoa_inj by simp
qed

lemma capture_component: "oneComponent nm \<Longrightarrow> validComponent (logName nm) \<and> validComponent (rotatedName nm k)"
proof -
  assume nm: "oneComponent nm"
  have "CHR ''/'' \<notin> set (utoa k)" by (rule utoa_no) simp
  moreover have "4 \<le> length (logName nm)" "4 \<le> length (rotatedName nm k)" by (simp_all add: logName_def rotatedName_def)
  ultimately show ?thesis using nm by (auto simp: oneComponent_def validComponent_def logName_def rotatedName_def itoa_nat)
qed

lemma path_Join_component:
  assumes "dir \<noteq> []" and "validComponent x"
  shows "elems (path_Join [dir, x]) = elems dir @ [x]"
proof -
  have "path_Join [dir, x] = Clean (dir @ CHR ''/'' # x)" using assms by (auto simp: path_Join_def validComponent_def)
  then show ?thesis using elems_Cons_valid [OF assms] by (simp add: Clean_reads)
qed

lemma path_Join_inj:
  assumes "dir \<noteq> []" and "validComponent x" and "validComponent y" and "path_Join [dir, x] = path_Join [dir, y]"
  shows "x = y"
proof -
  have "elems dir @ [x] = elems dir @ [y]"
    using path_Join_component [OF assms(1,2)] path_Join_component [OF assms(1,3)] unfolding assms(4) by (rule trans [OF sym])
  then show ?thesis by simp
qed

subsection \<open>Rotation\<close>

text \<open>
  What is asked of the node: making a directory and looking for a file change no file, the look is right, and a
  \<^verbatim>\<open>mv\<close> that exits with 0 has moved the one file. \<open>rd\<close> reads a file.
\<close>

definition moves_files :: "(string \<Rightarrow> 'w \<Rightarrow> bytes option) \<Rightarrow> ('w, 'p) node_ops \<Rightarrow> bool" where
  "moves_files rd ops \<longleftrightarrow>
     (\<forall>p w q. rd q (snd (no_mkdir ops p w)) = rd q w) \<and>
     (\<forall>p w q. rd q (snd (no_exists ops p w)) = rd q w) \<and>
     (\<forall>p w there. fst (no_exists ops p w) = Inr there \<longrightarrow> there = (rd p w \<noteq> None)) \<and>
     (\<forall>a b w x. a \<noteq> b \<longrightarrow> fst (no_exec ops [''mv'', a, b] w) = Inr x \<longrightarrow> ExitCode x = 0 \<longrightarrow>
        (\<forall>q. rd q (snd (no_exec ops [''mv'', a, b] w)) = (if q = b then rd a w else if q = a then None else rd q w)))"

definition launchOf :: "Cmd \<Rightarrow> string \<Rightarrow> Cmd" where
  "launchOf cmd logPath = \<lparr>cPath = ''sh'', cArgs = [''-c'', launchScript (cPath cmd) (cArgs cmd) logPath], cEnv = cEnv cmd, cDir = cDir cmd, cStdin = cStdin cmd\<rparr>"

lemma clear_rotates:
  assumes m: "moves_files rd ops" and cl: "clearCaptureLog ops n dir nm k CaptureRotate c w = Some ((None, c1), w1)"
    and k: "0 < k" and log: "rd (path_Join [dir, logName nm]) w = Some out" and ne: "path_Join [dir, logName nm] \<noteq> path_Join [dir, rotatedName nm k]"
  shows "(\<forall>q. rd q w1 = (if q = path_Join [dir, rotatedName nm k] then Some out else if q = path_Join [dir, logName nm] then None else rd q w)) \<and>
    c1 = c\<lparr>cp_artifacts := cp_artifacts c @ [(name n, \<lparr>ar_name = rotatedName nm k, ar_path = path_Join [dir, rotatedName nm k], ar_onPass = True, ar_dir = False\<rparr>)]\<rparr>"
proof -
  let ?log = "path_Join [dir, logName nm]" and ?rot = "path_Join [dir, rotatedName nm k]"
  obtain r v where ex: "no_exists ops ?log w = (r, v)" by fastforce
  obtain there where r: "r = Inr there" using cl k ex by (cases r) (auto simp: clearCaptureLog_def Let_def)
  have "fst (no_exists ops ?log w) = Inr there" using ex r by simp
  then have "there = (rd ?log w \<noteq> None)" using m unfolding moves_files_def by blast
  then have there: there using log by simp
  have same: "rd q v = rd q w" for q using m ex unfolding moves_files_def by (metis snd_conv)
  obtain y v1 where mv: "no_exec ops [''mv'', ?log, ?rot] v = (y, v1)" by fastforce
  obtain x where y: "y = Inr x" using cl k ex r there mv by (cases y) (auto simp: clearCaptureLog_def Let_def)
  have zero: "ExitCode x = 0"
    using cl k ex r there mv y by (auto simp: clearCaptureLog_def Let_def ExitError_def split: if_splits)
  have w1: "w1 = v1" "AddArtifact n \<lparr>ar_name = rotatedName nm k, ar_path = ?rot, ar_onPass = True, ar_dir = False\<rparr> c = Some c1"
    using cl k ex r there mv y zero by (auto simp: clearCaptureLog_def Let_def ExitError_def split: option.splits)
  have "fst (no_exec ops [''mv'', ?log, ?rot] v) = Inr x" using mv y by simp
  then have "\<forall>q. rd q (snd (no_exec ops [''mv'', ?log, ?rot] v)) = (if q = ?rot then rd ?log v else if q = ?log then None else rd q v)"
    using m ne zero unfolding moves_files_def by blast
  then show ?thesis using mv w1 same log by (auto simp: AddArtifact_def split: if_splits)
qed

text \<open>
  With \<^verbatim>\<open>CaptureRotate\<close>, a launch on a node where one was made before under the same name keeps what the one before wrote.
  When the new process starts, the log is not there, so that nothing can be read of it that another process wrote;
  what it held is in the file numbered after the launches so far, which is registered for collection; and no log, current or
  moved aside, of any other name or number has been touched.
\<close>

theorem capture_rotates:
  assumes m: "moves_files rd ops" and st: "StartCapturedAs ops svc n nm cmd c w = Some ((Inr handle', c'), w')"
    and pol: "cp_policy c = CaptureRotate" and k: "cp_launches c (launchKey n nm) = k" "0 < k"
    and sc: "MakeScratch (Root (nscratch n)) svc = Some sc" "Root sc \<noteq> []" and log: "rd (CapturePath (Root sc) nm) w = Some out"
  shows "cp_launches c' (launchKey n nm) = k + 1 \<and>
    cp_artifacts c' = cp_artifacts c @ [(name n, \<lparr>ar_name = rotatedName nm k, ar_path = path_Join [Root sc, rotatedName nm k], ar_onPass = True, ar_dir = False\<rparr>)] \<and>
    (\<exists>v. no_stream ops (launchOf cmd (CapturePath (Root sc) nm)) v = (Inr handle', w') \<and>
       rd (CapturePath (Root sc) nm) v = None \<and> rd (path_Join [Root sc, rotatedName nm k]) v = Some out \<and>
       (\<forall>other j. oneComponent other \<and> \<not> numberedLog other \<longrightarrow>
          (other \<noteq> nm \<longrightarrow> rd (CapturePath (Root sc) other) v = rd (CapturePath (Root sc) other) w) \<and>
          ((other, j) \<noteq> (nm, k) \<longrightarrow> rd (path_Join [Root sc, rotatedName other j]) v = rd (path_Join [Root sc, rotatedName other j]) w)))"
proof -
  let ?dir = "Root sc" let ?log = "path_Join [?dir, logName nm]" and ?rot = "path_Join [?dir, rotatedName nm k]"
  have nm: "oneComponent nm" "\<not> numberedLog nm" using st by (auto simp: StartCapturedAs_def split: if_splits)
  have inj: "path_Join [?dir, x] = path_Join [?dir, y] \<longleftrightarrow> x = y" if "validComponent x" "validComponent y" for x y
    using path_Join_inj [OF sc(2) that] by blast
  have ne: "?log \<noteq> ?rot" using inj capture_component [OF nm(1), of k] logName_rotated [OF nm(2), of nm k] by simp
  obtain e w1 where mk: "no_mkdir ops ?dir w = (e, w1)" by fastforce
  have e: "e = None" using st nm sc mk by (cases e) (auto simp: StartCapturedAs_def Let_def)
  obtain ce c1 w2 where cl: "clearCaptureLog ops n ?dir nm k CaptureRotate c w1 = Some ((ce, c1), w2)"
    using st nm sc mk e k pol by (auto simp: StartCapturedAs_def Let_def split: option.splits)
  have ce: "ce = None" using st nm sc mk e k pol cl by (cases ce) (auto simp: StartCapturedAs_def Let_def)
  obtain r w3 where str: "no_stream ops (launchOf cmd (CapturePath ?dir nm)) w2 = (r, w3)" by fastforce
  have fin: "r = Inr handle'" "w3 = w'" "c' = c1\<lparr>cp_launches := (cp_launches c1)(launchKey n nm := cp_launches c1 (launchKey n nm) + 1)\<rparr>"
    using st nm sc mk e k pol cl ce str by (auto simp: StartCapturedAs_def Let_def launchOf_def split: sum.splits)
  have same: "rd q w1 = rd q w" for q using m mk unfolding moves_files_def by (metis snd_conv)
  then have "rd ?log w1 = Some out" using log by (simp add: CapturePath_def)
  note cr = clear_rotates [OF m cl [unfolded ce] k(2) this ne]
  have rd2: "rd q w2 = (if q = ?rot then Some out else if q = ?log then None else rd q w)" for q using cr same by simp
  have others: "(other \<noteq> nm \<longrightarrow> rd (CapturePath ?dir other) w2 = rd (CapturePath ?dir other) w) \<and>
      ((other, j) \<noteq> (nm, k) \<longrightarrow> rd (path_Join [?dir, rotatedName other j]) w2 = rd (path_Join [?dir, rotatedName other j]) w)"
    if o: "oneComponent other" "\<not> numberedLog other" for other j
  proof (intro conjI impI)
    note vc = capture_component [OF o(1), of j] capture_component [OF nm(1), of k]
    assume "other \<noteq> nm"
    then have "logName other \<noteq> logName nm" by (simp add: logName_def)
    then show "rd (CapturePath ?dir other) w2 = rd (CapturePath ?dir other) w"
      using rd2 inj vc logName_rotated [OF o(2), of nm k] by (simp add: CapturePath_def)
  next
    note vc = capture_component [OF o(1), of j] capture_component [OF nm(1), of k]
    assume "(other, j) \<noteq> (nm, k)"
    then have "rotatedName other j \<noteq> rotatedName nm k" using rotatedName_inj by blast
    moreover have "rotatedName other j \<noteq> logName nm" using logName_rotated [OF nm(2), of other j] by metis
    ultimately show "rd (path_Join [?dir, rotatedName other j]) w2 = rd (path_Join [?dir, rotatedName other j]) w" using rd2 inj vc by simp
  qed
  have "cp_launches c' (launchKey n nm) = k + 1" using fin(3) cr k by simp
  moreover have "cp_artifacts c' = cp_artifacts c @ [(name n, \<lparr>ar_name = rotatedName nm k, ar_path = ?rot, ar_onPass = True, ar_dir = False\<rparr>)]"
    using fin(3) cr by simp
  moreover have "rd (CapturePath ?dir nm) w2 = None" "rd ?rot w2 = Some out" using rd2 ne by (simp_all add: CapturePath_def)
  ultimately show ?thesis using str fin others by blast
qed

definition demo_files_ops :: "(string \<Rightarrow> bytes option, unit) node_ops" where
  "demo_files_ops = \<lparr>no_mkdir = (\<lambda>p w. (None, w)), no_rm = (\<lambda>p w. (None, w(p := None))), no_exists = (\<lambda>p w. (Inr (w p \<noteq> None), w)),
     no_exec = (\<lambda>cmd w. (Inr \<lparr>ExitCode = 0, Stdout = [], Stderr = []\<rparr>, w(cmd ! 2 := w (cmd ! 1), cmd ! 1 := None))), no_stream = (\<lambda>c w. (Inr (), w))\<rparr>"

definition demo_host :: Node where
  "demo_host = \<lparr>name = ''n1'', role = [], addr = [], resources = no_resources, nscratch = \<lparr>Root = ''/s''\<rparr>, ports = None,
     descriptor = \<lparr>bKind = [], bHost = [], bConfig = []\<rparr>\<rparr>"

definition demo_captures :: captures where
  "demo_captures = \<lparr>cp_artifacts = [], cp_policy = CaptureRotate, cp_launches = (\<lambda>_. 1)\<rparr>"

definition demo_cmd :: Cmd where
  "demo_cmd = \<lparr>cPath = ''kvd'', cArgs = [], cEnv = [], cDir = [], cStdin = []\<rparr>"

theorem capture_rotates_witness:
  "\<exists>c' w'. StartCapturedAs demo_files_ops ''kv'' demo_host ''stdout'' demo_cmd demo_captures ((\<lambda>_. None)(''/s/kv/stdout.log'' := Some ''old'')) = Some ((Inr (), c'), w') \<and>
     w' ''/s/kv/stdout.log'' = None \<and> w' ''/s/kv/stdout.1.log'' = Some ''old'' \<and> map (ar_path \<circ> snd) (cp_artifacts c') = [''/s/kv/stdout.1.log'']"
proof -
  let ?w = "(\<lambda>_. None)(''/s/kv/stdout.log'' := Some ''old'') :: string \<Rightarrow> bytes option"
  have m: "moves_files (\<lambda>q w. w q) demo_files_ops" by (auto simp: moves_files_def demo_files_ops_def)
  have f: "oneComponent ''stdout''" "\<not> numberedLog ''stdout''" "MakeScratch ''/s'' ''kv'' = Some \<lparr>Root = ''/s/kv''\<rparr>"
    "CapturePath ''/s/kv'' ''stdout'' = ''/s/kv/stdout.log''" "path_Join [''/s/kv'', rotatedName ''stdout'' 1] = ''/s/kv/stdout.1.log''"
    "path_Join [''/s/kv'', logName ''stdout''] = ''/s/kv/stdout.log''" "validComponent (rotatedName ''stdout'' 1)" by code_simp+
  have "\<exists>c' w'. StartCapturedAs demo_files_ops ''kv'' demo_host ''stdout'' demo_cmd demo_captures ?w = Some ((Inr (), c'), w')"
    using f by (simp add: StartCapturedAs_def clearCaptureLog_def Let_def AddArtifact_def ExitError_def demo_files_ops_def demo_host_def demo_captures_def)
  then obtain c' w' where st: "StartCapturedAs demo_files_ops ''kv'' demo_host ''stdout'' demo_cmd demo_captures ?w = Some ((Inr (), c'), w')" by blast
  from capture_rotates [OF m st, of 1 "\<lparr>Root = ''/s/kv''\<rparr>" "''old''"] f
  have "cp_artifacts c' = [(''n1'', \<lparr>ar_name = rotatedName ''stdout'' 1, ar_path = ''/s/kv/stdout.1.log'', ar_onPass = True, ar_dir = False\<rparr>)] \<and>
    (\<exists>v. no_stream demo_files_ops (launchOf demo_cmd ''/s/kv/stdout.log'') v = (Inr (), w') \<and> v ''/s/kv/stdout.log'' = None \<and> v ''/s/kv/stdout.1.log'' = Some ''old'')"
    by (auto simp: demo_captures_def demo_host_def)
  then show ?thesis using st by (auto simp: demo_files_ops_def)
qed

end
