(* ===== verification/Torx_Gate.thy ===== *)
theory Torx_Gate
  imports Torx_Prelude
begin

text \<open>
  The gate of a control group, \<^verbatim>\<open>cgroupGate\<close> of \<^verbatim>\<open>src/cgroup_linux.go\<close>: starts of commands, freezes and thaws that any
  number of goroutines make at once. A goroutine is a number, and what it is doing a value; one step is a stretch in
  which it holds the gate's mutex. A channel is a number, closed or not; waiting on the condition variable is a value with
  whether it has been woken. Whether a write to the freezer's file fails, when a context ends and when the kernel
  reports the group frozen are open.
\<close>

subsection \<open>The gate and those at it\<close>

record gate =
  g_op :: bool
  g_starting :: nat
  g_frozen :: bool
  g_thawed :: nat
  g_closed :: "nat set"
  g_kernel :: bool

text \<open>
  Between calls; in \<open>enter\<close>, before its mutex or waiting on a channel; counted in; in \<open>freeze\<close>, waiting for the starts in
  flight with \<open>op\<close> held (whether it closed the gate, and whether it has been woken), or watching for the kernel.
\<close>

datatype doing = Outside | Entering | Awaits nat | InFlight | Idling bool bool | Watching nat

record gate_state =
  gs_gate :: gate
  gs_doing :: "nat \<Rightarrow> doing"

definition newGate :: gate where
  "newGate = \<lparr>g_op = False, g_starting = 0, g_frozen = False, g_thawed = 0, g_closed = {}, g_kernel = False\<rparr>"

text \<open>\<open>enter\<close> with the mutex held: count in, or wait for the thaw.\<close>

definition enterGate :: "gate \<Rightarrow> doing \<times> gate" where
  "enterGate g = (if g_frozen g then (Awaits (g_thawed g), g) else (InFlight, g\<lparr>g_starting := g_starting g + 1\<rparr>))"

text \<open>The function \<open>enter\<close> returns; the last one out wakes those idling.\<close>

definition countOut :: "gate \<Rightarrow> (nat \<Rightarrow> doing) \<Rightarrow> gate \<times> (nat \<Rightarrow> doing)" where
  "countOut g d = (g\<lparr>g_starting := g_starting g - 1\<rparr>,
     if g_starting g - 1 = 0 then (\<lambda>t. case d t of Idling c _ \<Rightarrow> Idling c True | x \<Rightarrow> x) else d)"

text \<open>\<open>freeze\<close> up to its loop; the channel it makes is a new one.\<close>

definition beginFreeze :: "gate \<Rightarrow> bool \<times> gate" where
  "beginFreeze g = (\<not> g_frozen g, if g_frozen g then g\<lparr>g_op := True\<rparr> else g\<lparr>g_op := True, g_frozen := True, g_thawed := g_thawed g + 1\<rparr>)"

text \<open>The end of \<open>freeze\<close>'s transition: the write, which fails or not, and \<open>op\<close> given back.\<close>

definition endFreeze :: "bool \<Rightarrow> bool \<Rightarrow> gate \<Rightarrow> doing \<times> gate" where
  "endFreeze mine fails g =
     (if \<not> fails then (Watching (g_thawed g), g\<lparr>g_kernel := True, g_op := False\<rparr>)
      else if mine then (Outside, g\<lparr>g_frozen := False, g_closed := insert (g_thawed g) (g_closed g), g_op := False\<rparr>)
      else (Outside, g\<lparr>g_op := False\<rparr>))"

text \<open>The loop of \<open>freeze\<close>, entered or woken: idle while a start is in flight.\<close>

definition freezeLoop :: "bool \<Rightarrow> bool \<Rightarrow> gate \<Rightarrow> doing \<times> gate" where
  "freezeLoop mine fails g = (if g_starting g > 0 then (Idling mine False, g) else endFreeze mine fails g)"

definition thawGate :: "bool \<Rightarrow> gate \<Rightarrow> gate" where
  "thawGate fails g =
     (if fails then g
      else if g_frozen g then g\<lparr>g_kernel := False, g_frozen := False, g_closed := insert (g_thawed g) (g_closed g)\<rparr>
      else g\<lparr>g_kernel := False\<rparr>)"

abbreviation moves :: "gate_state \<Rightarrow> nat \<Rightarrow> doing \<times> gate \<Rightarrow> gate_state" where
  "moves s t r \<equiv> s\<lparr>gs_gate := snd r, gs_doing := (gs_doing s)(t := fst r)\<rparr>"

inductive gate_step :: "gate_state \<Rightarrow> gate_state \<Rightarrow> bool" where
  enters: "gate_step s (moves s t (enterGate (gs_gate s)))" if "gs_doing s t = Outside \<or> gs_doing s t = Entering"
| thawed: "gate_step s (moves s t (Entering, gs_gate s))" if "gs_doing s t = Awaits c" "c \<in> g_closed (gs_gate s)"
| gives_up: "gate_step s (moves s t (Outside, gs_gate s))" if "gs_doing s t = Awaits c"
| leaves: "gate_step s (s\<lparr>gs_gate := fst (countOut (gs_gate s) ((gs_doing s)(t := Outside))), gs_doing := snd (countOut (gs_gate s) ((gs_doing s)(t := Outside)))\<rparr>)"
  if "gs_doing s t = InFlight"
| freezes: "gate_step s (moves s t (freezeLoop (fst (beginFreeze (gs_gate s))) fails (snd (beginFreeze (gs_gate s)))))"
  if "gs_doing s t = Outside" "\<not> g_op (gs_gate s)"
| wakes: "gate_step s (moves s t (freezeLoop mine fails (gs_gate s)))" if "gs_doing s t = Idling mine True"
| watched: "gate_step s (moves s t (Outside, gs_gate s))" if "gs_doing s t = Watching c"
| thaws: "gate_step s (s\<lparr>gs_gate := thawGate fails (gs_gate s)\<rparr>)" if "\<not> g_op (gs_gate s)"

inductive gate_reach :: "gate_state \<Rightarrow> bool" where
  begins: "gate_reach \<lparr>gs_gate = newGate, gs_doing = (\<lambda>_. Outside)\<rparr>"
| goes: "gate_reach s \<Longrightarrow> gate_step s s' \<Longrightarrow> gate_reach s'"

subsection \<open>What holds at every moment\<close>

definition counted :: "gate_state \<Rightarrow> bool" where
  "counted s \<longleftrightarrow> finite {t. gs_doing s t = InFlight} \<and> card {t. gs_doing s t = InFlight} = g_starting (gs_gate s)"

definition turns :: "gate_state \<Rightarrow> bool" where
  "turns s \<longleftrightarrow> (\<forall>t c b. gs_doing s t = Idling c b \<longrightarrow> g_op (gs_gate s) \<and> g_frozen (gs_gate s) \<and> (c \<longrightarrow> \<not> g_kernel (gs_gate s)) \<and>
       (b \<or> 0 < g_starting (gs_gate s))) \<and>
     (\<forall>t u c b c' b'. gs_doing s t = Idling c b \<longrightarrow> gs_doing s u = Idling c' b' \<longrightarrow> t = u)"

definition channels :: "gate_state \<Rightarrow> bool" where
  "channels s \<longleftrightarrow> (\<forall>c \<in> g_closed (gs_gate s). c \<le> g_thawed (gs_gate s)) \<and>
     (g_frozen (gs_gate s) \<longrightarrow> g_thawed (gs_gate s) \<notin> g_closed (gs_gate s)) \<and>
     (\<forall>t c. gs_doing s t = Awaits c \<longrightarrow> c \<in> g_closed (gs_gate s) \<or> g_frozen (gs_gate s) \<and> c = g_thawed (gs_gate s))"

definition shut :: "gate_state \<Rightarrow> bool" where
  "shut s \<longleftrightarrow> (g_kernel (gs_gate s) \<longrightarrow> g_frozen (gs_gate s) \<and> g_starting (gs_gate s) = 0)"

definition holder :: "gate_state \<Rightarrow> bool" where
  "holder s \<longleftrightarrow> (g_op (gs_gate s) \<longrightarrow> (\<exists>t c b. gs_doing s t = Idling c b))"

definition gate_ok :: "gate_state \<Rightarrow> bool" where
  "gate_ok s \<longleftrightarrow> counted s \<and> turns s \<and> channels s \<and> shut s \<and> holder s"

lemma gate_ok_new: "gate_ok \<lparr>gs_gate = newGate, gs_doing = (\<lambda>_. Outside)\<rparr>"
  by (simp add: gate_ok_def counted_def turns_def channels_def shut_def holder_def newGate_def)

lemma inflight_upd:
  assumes "counted s" and "gs_doing s t \<noteq> InFlight"
  shows "finite {u. ((gs_doing s)(t := x)) u = InFlight}"
    "card {u. ((gs_doing s)(t := x)) u = InFlight} = g_starting (gs_gate s) + (if x = InFlight then 1 else 0)"
proof -
  have "{u. ((gs_doing s)(t := x)) u = InFlight} = (if x = InFlight then insert t {u. gs_doing s u = InFlight} else {u. gs_doing s u = InFlight})"
    using assms(2) by auto
  then show "finite {u. ((gs_doing s)(t := x)) u = InFlight}"
    "card {u. ((gs_doing s)(t := x)) u = InFlight} = g_starting (gs_gate s) + (if x = InFlight then 1 else 0)"
    using assms by (auto simp: counted_def card_insert_if)
qed

lemma inflight_out:
  assumes "counted s" and "gs_doing s t = InFlight"
  shows "finite {u. ((gs_doing s)(t := Outside)) u = InFlight}" "Suc (card {u. ((gs_doing s)(t := Outside)) u = InFlight}) = g_starting (gs_gate s)"
proof -
  have e: "{u. ((gs_doing s)(t := Outside)) u = InFlight} = {u. gs_doing s u = InFlight} - {t}" by auto
  show "finite {u. ((gs_doing s)(t := Outside)) u = InFlight}" "Suc (card {u. ((gs_doing s)(t := Outside)) u = InFlight}) = g_starting (gs_gate s)"
    unfolding e using assms card_Suc_Diff1 [of "{u. gs_doing s u = InFlight}" t] by (auto simp: counted_def)
qed

lemma turnsD:
  assumes "turns s" and "gs_doing s t = Idling c b"
  shows "g_op (gs_gate s) \<and> g_frozen (gs_gate s) \<and> (c \<longrightarrow> \<not> g_kernel (gs_gate s)) \<and> (b \<or> 0 < g_starting (gs_gate s))"
    and "gs_doing s u = Idling c' b' \<Longrightarrow> t = u"
proof -
  show "g_op (gs_gate s) \<and> g_frozen (gs_gate s) \<and> (c \<longrightarrow> \<not> g_kernel (gs_gate s)) \<and> (b \<or> 0 < g_starting (gs_gate s))"
    using assms(1) [unfolded turns_def, THEN conjunct1, rule_format, OF assms(2)] .
  show "t = u" if "gs_doing s u = Idling c' b'"
    using assms(1) [unfolded turns_def, THEN conjunct2, rule_format, OF assms(2) that] .
qed

lemma turnsI:
  assumes "\<And>t c b. d t = Idling c b \<Longrightarrow> g_op g \<and> g_frozen g \<and> (c \<longrightarrow> \<not> g_kernel g) \<and> (b \<or> 0 < g_starting g)"
    and "\<And>t u c b c' b'. d t = Idling c b \<Longrightarrow> d u = Idling c' b' \<Longrightarrow> t = u"
  shows "turns (s\<lparr>gs_gate := g, gs_doing := d\<rparr>)"
proof -
  have e: "gs_gate (s\<lparr>gs_gate := g, gs_doing := d\<rparr>) = g" "gs_doing (s\<lparr>gs_gate := g, gs_doing := d\<rparr>) = d" by simp_all
  show ?thesis unfolding turns_def e using assms by blast
qed

lemma turns_upd:
  assumes "turns s" and "\<And>c b. x \<noteq> Idling c b" and "g_op g = g_op (gs_gate s)" and "g_frozen g = g_frozen (gs_gate s)" and "g_kernel g = g_kernel (gs_gate s)"
    and "g_starting (gs_gate s) \<le> g_starting g"
  shows "turns (moves s t (x, g))"
proof -
  have idl: "gs_doing s u = Idling c b" if "((gs_doing s)(t := x)) u = Idling c b" for u c b using that assms(2) by (cases "u = t") auto
  have one: "g_op g \<and> g_frozen g \<and> (c \<longrightarrow> \<not> g_kernel g) \<and> (b \<or> 0 < g_starting g)" if "((gs_doing s)(t := x)) u = Idling c b" for u c b
    using turnsD(1) [OF assms(1) idl [OF that]] assms(3-6) by auto
  show ?thesis unfolding fst_conv snd_conv
  proof (rule turnsI)
    show "u = v" if "((gs_doing s)(t := x)) u = Idling c b" "((gs_doing s)(t := x)) v = Idling c' b'" for u v c b c' b'
      by (rule turnsD(2) [OF assms(1) idl [OF that(1)] idl [OF that(2)]])
  qed (rule one)
qed

lemma channels_upd:
  assumes "channels s" and "\<And>c. x = Awaits c \<Longrightarrow> g_frozen (gs_gate s) \<and> c = g_thawed (gs_gate s)"
    and "g_frozen g = g_frozen (gs_gate s)" and "g_thawed g = g_thawed (gs_gate s)" and "g_closed g = g_closed (gs_gate s)"
  shows "channels (moves s t (x, g))"
  using assms unfolding channels_def by (auto split: if_splits)

lemma holder_upd:
  assumes "holder s" and "\<And>c b. gs_doing s t \<noteq> Idling c b" and "g_op g = g_op (gs_gate s)"
  shows "holder (moves s t (x, g))"
proof (cases "g_op (gs_gate s)")
  case True
  then obtain u c b where "gs_doing s u = Idling c b" using assms(1) by (auto simp: holder_def)
  then have "((gs_doing s)(t := x)) u = Idling c b" using assms(2) by auto
  then show ?thesis unfolding holder_def by (intro impI exI [of _ u] exI [of _ c] exI [of _ b]) simp
next
  case False
  then show ?thesis using assms(3) by (simp add: holder_def)
qed

lemma step_enters:
  assumes "gate_ok s" and "gs_doing s t = Outside \<or> gs_doing s t = Entering"
  shows "gate_ok (moves s t (enterGate (gs_gate s)))"
proof -
  have s: "counted s" "turns s" "channels s" "shut s" "holder s" using assms(1) by (auto simp: gate_ok_def)
  have t: "gs_doing s t \<noteq> InFlight" using assms(2) by auto
  have t': "\<And>c b. gs_doing s t \<noteq> Idling c b" using assms(2) by auto
  note up = inflight_upd [OF s(1) t] and hold = holder_upd [OF s(5) t']
  show ?thesis
  proof (cases "g_frozen (gs_gate s)")
    case True
    then have r: "enterGate (gs_gate s) = (Awaits (g_thawed (gs_gate s)), gs_gate s)" by (simp add: enterGate_def)
    show ?thesis unfolding r gate_ok_def
      using turns_upd [OF s(2), of "Awaits (g_thawed (gs_gate s))" "gs_gate s" t] channels_upd [OF s(3), of "Awaits (g_thawed (gs_gate s))" "gs_gate s" t]
        up [of "Awaits (g_thawed (gs_gate s))"] hold [of "gs_gate s" "Awaits (g_thawed (gs_gate s))"] s(4) True by (simp add: counted_def shut_def)
  next
    case False
    let ?g = "(gs_gate s)\<lparr>g_starting := g_starting (gs_gate s) + 1\<rparr>"
    have r: "enterGate (gs_gate s) = (InFlight, ?g)" using False by (simp add: enterGate_def)
    show ?thesis unfolding r gate_ok_def
      using turns_upd [OF s(2), of InFlight ?g t] channels_upd [OF s(3), of InFlight ?g t] up [of InFlight] hold [of ?g InFlight] s(4) False by (simp add: counted_def shut_def)
  qed
qed

lemma step_quiet:
  assumes "gate_ok s" and "gs_doing s t \<noteq> InFlight" and "x = Outside \<or> x = Entering" and "\<And>c b. gs_doing s t \<noteq> Idling c b"
  shows "gate_ok (moves s t (x, gs_gate s))"
proof -
  have s: "counted s" "turns s" "channels s" "shut s" "holder s" using assms(1) by (auto simp: gate_ok_def)
  show ?thesis unfolding gate_ok_def
    using turns_upd [OF s(2), of x "gs_gate s" t] channels_upd [OF s(3), of x "gs_gate s" t] inflight_upd [OF s(1) assms(2), of x] holder_upd [OF s(5) assms(4), of "gs_gate s" x]
      s(4) assms(3)
    by (auto simp: counted_def shut_def)
qed

lemma step_leaves:
  assumes "gate_ok s" and "gs_doing s t = InFlight"
  shows "gate_ok (s\<lparr>gs_gate := fst (countOut (gs_gate s) ((gs_doing s)(t := Outside))), gs_doing := snd (countOut (gs_gate s) ((gs_doing s)(t := Outside)))\<rparr>)"
proof -
  have s: "counted s" "turns s" "channels s" "shut s" "holder s" using assms(1) by (auto simp: gate_ok_def)
  let ?d = "(gs_doing s)(t := Outside)" and ?g = "(gs_gate s)\<lparr>g_starting := g_starting (gs_gate s) - 1\<rparr>"
  note out = inflight_out [OF s(1) assms(2)]
  let ?d' = "snd (countOut (gs_gate s) ?d)"
  have g: "fst (countOut (gs_gate s) ?d) = ?g" by (simp add: countOut_def)
  have same: "?d' u = x \<longleftrightarrow> ?d u = x" if "\<And>c b. x \<noteq> Idling c b" for u x
    using that by (auto simp: countOut_def split: doing.splits)
  have idl: "\<exists>b'. ?d u = Idling c b' \<and> (b = b' \<or> b)" if "?d' u = Idling c b" for u c b
    using that by (auto simp: countOut_def split: doing.splits if_splits)
  have woken: "b" if "?d' u = Idling c b" "g_starting (gs_gate s) - 1 = 0" for u c b
    using that by (auto simp: countOut_def split: doing.splits if_splits)
  have c: "counted (s\<lparr>gs_gate := ?g, gs_doing := ?d'\<rparr>)"
    using out same [of InFlight] by (simp add: counted_def)
  have "turns (s\<lparr>gs_gate := ?g, gs_doing := ?d'\<rparr>)"
  proof -
    have old: "g_op (gs_gate s) \<and> g_frozen (gs_gate s) \<and> (c \<longrightarrow> \<not> g_kernel (gs_gate s))" if "?d' u = Idling c b" for u c b
      using idl [OF that] s(2) by (auto simp: turns_def split: if_splits)
    have "b \<or> 0 < g_starting ?g" if "?d' u = Idling c b" for u c b using woken [OF that] by auto
    moreover have "u = v" if h: "?d' u = Idling c b" "?d' v = Idling c' b'" for u v c b c' b'
    proof -
      obtain b1 b2 where "?d u = Idling c b1" "?d v = Idling c' b2" using idl [OF h(1)] idl [OF h(2)] by blast
      then have "gs_doing s u = Idling c b1" "gs_doing s v = Idling c' b2" by (auto split: if_splits)
      then show ?thesis using turnsD(2) [OF s(2)] by blast
    qed
    ultimately show ?thesis using old by (intro turnsI) auto
  qed
  moreover have "channels (s\<lparr>gs_gate := ?g, gs_doing := ?d'\<rparr>)"
    using s(3) same [of "Awaits _"] by (auto simp: channels_def split: if_splits)
  moreover have "shut (s\<lparr>gs_gate := ?g, gs_doing := ?d'\<rparr>)" using s(4) by (simp add: shut_def)
  moreover have "holder (s\<lparr>gs_gate := ?g, gs_doing := ?d'\<rparr>)"
  proof (cases "g_op (gs_gate s)")
    case True
    then obtain u m b where "gs_doing s u = Idling m b" using s(5) by (auto simp: holder_def)
    then have "\<exists>b'. ?d' u = Idling m b'" using assms(2) by (cases "u = t") (auto simp: countOut_def)
    then show ?thesis unfolding holder_def by auto
  qed (simp add: holder_def)
  ultimately show ?thesis using c g by (simp add: gate_ok_def)
qed

text \<open>The end of a freeze's transition, from a gate that is shut with nothing in flight.\<close>

lemma step_ends:
  assumes "counted s" and "channels s" and "g_frozen (gs_gate s)" and "g_starting (gs_gate s) = 0" and "mine \<longrightarrow> \<not> g_kernel (gs_gate s)"
    and "gs_doing s t \<noteq> InFlight" and alone: "\<And>u c b. gs_doing s u = Idling c b \<Longrightarrow> u = t"
  shows "gate_ok (moves s t (endFreeze mine fails (gs_gate s)))"
proof -
  let ?r = "endFreeze mine fails (gs_gate s)"
  have x: "\<And>c b. fst ?r \<noteq> Idling c b" "fst ?r \<noteq> InFlight" "\<And>c. fst ?r \<noteq> Awaits c" by (auto simp: endFreeze_def)
  have g: "g_starting (snd ?r) = 0" "g_thawed (snd ?r) = g_thawed (gs_gate s)" using assms(4) by (auto simp: endFreeze_def)
  have "counted (moves s t ?r)" using inflight_upd [OF assms(1,6), of "fst ?r"] x(2) g(1) assms(4) by (simp add: counted_def)
  moreover have "turns (moves s t ?r)"
  proof (rule turnsI)
    fix u c b assume "((gs_doing s)(t := fst ?r)) u = Idling c b"
    then have False using x(1) alone [of u c b] by (cases "u = t") auto
    then show "g_op (snd ?r) \<and> g_frozen (snd ?r) \<and> (c \<longrightarrow> \<not> g_kernel (snd ?r)) \<and> (b \<or> 0 < g_starting (snd ?r))" ..
  next
    fix u v c b c' b' assume "((gs_doing s)(t := fst ?r)) u = Idling c b"
    then have False using x(1) alone [of u c b] by (cases "u = t") auto
    then show "u = v" ..
  qed
  moreover have "channels (moves s t ?r)"
    using assms(2,3) x(3) unfolding channels_def endFreeze_def by (auto split: if_splits)
  moreover have "shut (moves s t ?r)" using assms(3-5) by (simp add: shut_def endFreeze_def)
  moreover have "holder (moves s t ?r)" by (simp add: holder_def endFreeze_def)
  ultimately show ?thesis by (simp add: gate_ok_def)
qed

text \<open>The loop of a freeze, from the state in which it holds \<open>op\<close> and has shut the gate.\<close>

lemma step_loops:
  assumes "counted s" and "channels s" and "shut s" and "g_op (gs_gate s)" and "g_frozen (gs_gate s)" and "mine \<longrightarrow> \<not> g_kernel (gs_gate s)"
    and "gs_doing s t \<noteq> InFlight" and alone: "\<And>u c b. gs_doing s u = Idling c b \<Longrightarrow> u = t"
  shows "gate_ok (moves s t (freezeLoop mine fails (gs_gate s)))"
proof (cases "g_starting (gs_gate s) = 0")
  case True
  then show ?thesis using step_ends [OF assms(1,2,5) True assms(6,7) alone] by (simp add: freezeLoop_def)
next
  case False
  then have r: "freezeLoop mine fails (gs_gate s) = (Idling mine False, gs_gate s)" by (simp add: freezeLoop_def)
  have idl: "u = t \<and> c = mine" if "((gs_doing s)(t := Idling mine False)) u = Idling c b" for u c b
    using that alone [of u c b] by (cases "u = t") simp_all
  have "counted (moves s t (Idling mine False, gs_gate s))" using inflight_upd [OF assms(1,7), of "Idling mine False"] by (simp add: counted_def)
  moreover have "turns (moves s t (Idling mine False, gs_gate s))" unfolding fst_conv snd_conv
  proof (rule turnsI)
    show "u = v" if "((gs_doing s)(t := Idling mine False)) u = Idling c b" "((gs_doing s)(t := Idling mine False)) v = Idling c' b'" for u v c b c' b'
      using idl [OF that(1)] idl [OF that(2)] by simp
    fix u c b assume "((gs_doing s)(t := Idling mine False)) u = Idling c b"
    then have "c = mine" using idl by blast
    then show "g_op (gs_gate s) \<and> g_frozen (gs_gate s) \<and> (c \<longrightarrow> \<not> g_kernel (gs_gate s)) \<and> (b \<or> 0 < g_starting (gs_gate s))"
      using assms(4-6) False by blast
  qed
  moreover have "channels (moves s t (Idling mine False, gs_gate s))" by (rule channels_upd) (use assms(2) in auto)
  moreover have "shut (moves s t (Idling mine False, gs_gate s))" using assms(3) by (simp add: shut_def)
  moreover have "holder (moves s t (Idling mine False, gs_gate s))"
    unfolding holder_def by (intro impI exI [of _ t] exI [of _ mine] exI [of _ False]) simp
  ultimately show ?thesis unfolding r gate_ok_def by blast
qed

lemma step_freezes:
  assumes "gate_ok s" and "gs_doing s t = Outside" and "\<not> g_op (gs_gate s)"
  shows "gate_ok (moves s t (freezeLoop (fst (beginFreeze (gs_gate s))) fails (snd (beginFreeze (gs_gate s)))))"
proof -
  have s: "counted s" "turns s" "channels s" "shut s" "holder s" using assms(1) by (auto simp: gate_ok_def)
  let ?s = "s\<lparr>gs_gate := snd (beginFreeze (gs_gate s))\<rparr>"
  have alone: "u = t" if "gs_doing s u = Idling c b" for u c b using turnsD(1) [OF s(2) that] assms(3) by simp
  have c: "counted ?s" using s(1) by (auto simp: counted_def beginFreeze_def)
  have h: "channels ?s"
  proof (cases "g_frozen (gs_gate s)")
    case True
    then show ?thesis using s(3) by (simp add: channels_def beginFreeze_def)
  next
    case False
    have "Suc (g_thawed (gs_gate s)) \<notin> g_closed (gs_gate s)" using s(3) by (auto simp: channels_def)
    then show ?thesis using s(3) False by (auto simp: channels_def beginFreeze_def)
  qed
  have "gate_ok (moves ?s t (freezeLoop (fst (beginFreeze (gs_gate s))) fails (gs_gate ?s)))"
    by (rule step_loops [OF c h]) (use s(4) assms(2) alone in \<open>auto simp: beginFreeze_def shut_def\<close>)
  then show ?thesis by simp
qed

lemma step_wakes:
  assumes "gate_ok s" and "gs_doing s t = Idling mine True"
  shows "gate_ok (moves s t (freezeLoop mine fails (gs_gate s)))"
proof -
  have s: "counted s" "turns s" "channels s" "shut s" "holder s" using assms(1) by (auto simp: gate_ok_def)
  have alone: "u = t" if "gs_doing s u = Idling c b" for u c b using turnsD(2) [OF s(2) that assms(2)] .
  show ?thesis
    by (rule step_loops [OF s(1,3,4) _ _ _ _ alone]) (use turnsD(1) [OF s(2) assms(2)] assms(2) in simp_all)
qed

lemma step_thaws:
  assumes "gate_ok s" and "\<not> g_op (gs_gate s)"
  shows "gate_ok (s\<lparr>gs_gate := thawGate fails (gs_gate s)\<rparr>)"
proof -
  have s: "counted s" "turns s" "channels s" "shut s" "holder s" using assms(1) by (auto simp: gate_ok_def)
  have none: "gs_doing s u \<noteq> Idling c b" for u c b using turnsD(1) [OF s(2), of u c b] assms(2) by auto
  have "counted (s\<lparr>gs_gate := thawGate fails (gs_gate s)\<rparr>)" using s(1) by (simp add: counted_def thawGate_def)
  moreover have "turns (s\<lparr>gs_gate := thawGate fails (gs_gate s)\<rparr>)" using none by (simp add: turns_def)
  moreover have "channels (s\<lparr>gs_gate := thawGate fails (gs_gate s)\<rparr>)" using s(3) unfolding channels_def thawGate_def by auto
  moreover have "shut (s\<lparr>gs_gate := thawGate fails (gs_gate s)\<rparr>)" using s(4) by (simp add: shut_def thawGate_def)
  moreover have "holder (s\<lparr>gs_gate := thawGate fails (gs_gate s)\<rparr>)" using assms(2) by (simp add: holder_def thawGate_def)
  ultimately show ?thesis by (simp add: gate_ok_def)
qed

lemma gate_step_ok: "gate_step s s' \<Longrightarrow> gate_ok s \<Longrightarrow> gate_ok s'"
proof (induction rule: gate_step.induct)
  case (enters s t) then show ?case by (intro step_enters)
next
  case (thawed s t c) then show ?case by (intro step_quiet) auto
next
  case (gives_up s t c) then show ?case by (intro step_quiet) auto
next
  case (leaves s t) then show ?case by (intro step_leaves)
next
  case (freezes s t fails) then show ?case by (intro step_freezes)
next
  case (wakes s t mine fails) then show ?case by (intro step_wakes)
next
  case (watched s t c) then show ?case by (intro step_quiet) auto
next
  case (thaws s fails) then show ?case by (intro step_thaws)
qed

lemma gate_reach_ok: "gate_reach s \<Longrightarrow> gate_ok s"
  by (induction rule: gate_reach.induct) (auto intro: gate_ok_new gate_step_ok)

subsection \<open>The gate keeps starts and freezes apart\<close>

text \<open>
  C24: However goroutines start commands, freeze and thaw a group, at every moment: while the group is frozen no start is
  in flight, so none is frozen between its fork and its exec; a start that waits waits on a channel that is closed as soon as the gate
  is open, so no start is left behind by the thaw or the failed freeze that opened it; and the
  turn of freezes and thaws is taken only by a freeze that has been woken or waits for a start that is
  still in flight, one freeze at a time, so no wake-up is missed.
\<close>

theorem gate_safe:
  assumes "gate_reach s"
  shows "(g_kernel (gs_gate s) \<longrightarrow> (\<forall>t. gs_doing s t \<noteq> InFlight)) \<and>
    (\<forall>t c. gs_doing s t = Awaits c \<longrightarrow> c \<in> g_closed (gs_gate s) \<or> g_frozen (gs_gate s)) \<and>
    (g_op (gs_gate s) \<longrightarrow> (\<exists>!t. \<exists>mine woken. gs_doing s t = Idling mine woken \<and> (woken \<or> (\<exists>u. gs_doing s u = InFlight))))"
proof -
  have s: "counted s" "turns s" "channels s" "shut s" "holder s" using gate_reach_ok [OF assms] by (auto simp: gate_ok_def)
  have some: "\<exists>u. gs_doing s u = InFlight" if "0 < g_starting (gs_gate s)"
    using s(1) that unfolding counted_def by (metis (mono_tags, lifting) card.empty empty_Collect_eq less_irrefl)
  have "gs_doing s t \<noteq> InFlight" if "g_kernel (gs_gate s)" for t
    using s(1,4) that by (auto simp: counted_def shut_def)
  moreover have "c \<in> g_closed (gs_gate s) \<or> g_frozen (gs_gate s)" if "gs_doing s t = Awaits c" for t c
    using s(3) that by (auto simp: channels_def)
  moreover have "\<exists>!t. \<exists>mine woken. gs_doing s t = Idling mine woken \<and> (woken \<or> (\<exists>u. gs_doing s u = InFlight))" if "g_op (gs_gate s)"
  proof -
    obtain t c b where t: "gs_doing s t = Idling c b" using s(5) \<open>g_op (gs_gate s)\<close> by (auto simp: holder_def)
    have "b \<or> (\<exists>u. gs_doing s u = InFlight)" using turnsD(1) [OF s(2) t] some by blast
    then show ?thesis using t turnsD(2) [OF s(2) t] by blast
  qed
  ultimately show ?thesis by blast
qed

text \<open>A start in flight, a freeze that waits for it, and a start that waits for the thaw; the next moments of each.\<close>

lemma gate_run:
  defines "g \<equiv> \<lparr>g_op = True, g_starting = 1, g_frozen = True, g_thawed = 1, g_closed = {}, g_kernel = False\<rparr>"
  shows "gate_reach \<lparr>gs_gate = g, gs_doing = (\<lambda>_. Outside)(0 := InFlight, 1 := Idling True False, 2 := Awaits 1)\<rparr>"
proof -
  let ?s0 = "\<lparr>gs_gate = newGate, gs_doing = (\<lambda>_::nat. Outside)\<rparr>"
  let ?s1 = "moves ?s0 0 (enterGate (gs_gate ?s0))"
  let ?s2 = "moves ?s1 1 (freezeLoop (fst (beginFreeze (gs_gate ?s1))) False (snd (beginFreeze (gs_gate ?s1))))"
  let ?s3 = "moves ?s2 2 (enterGate (gs_gate ?s2))"
  have "gate_reach ?s0" by (rule begins)
  moreover have "gate_step ?s0 ?s1" by (rule enters) simp
  moreover have "gate_step ?s1 ?s2" by (rule freezes) (simp_all add: enterGate_def newGate_def)
  moreover have "gate_step ?s2 ?s3" by (rule enters) simp
  ultimately have "gate_reach ?s3" by (blast intro: goes)
  then show ?thesis unfolding g_def by (simp add: enterGate_def freezeLoop_def beginFreeze_def newGate_def)
qed

theorem gate_safe_witness:
  "\<exists>!t. \<exists>mine woken. ((\<lambda>_. Outside)(0 := InFlight, 1 := Idling True False, 2 := Awaits 1) :: nat \<Rightarrow> doing) t = Idling mine woken \<and>
     (woken \<or> (\<exists>u. ((\<lambda>_. Outside)(0 := InFlight, 1 := Idling True False, 2 := Awaits 1) :: nat \<Rightarrow> doing) u = InFlight))"
  using gate_safe [OF gate_run, THEN conjunct2, THEN conjunct2] unfolding gate_state.simps gate.simps by (rule mp) simp

end
