(* ===== verification/Torx_Manifest.thy ===== *)
theory Torx_Manifest
  imports Torx_Driver Torx_Capture
begin

text \<open>
  The pool a run is given: from a manifest, \<^verbatim>\<open>src/manifest.go\<close>, or of local nodes sized to the jobs, \<^verbatim>\<open>selectPool\<close> and
  what it calls in \<^verbatim>\<open>src/entry.go\<close>. Which nodes share a port allocator matters, so allocators are in a
  store and a node has the place of its own there. Reading and decoding files, which kinds of transport are registered and making a
  control group are parameters. The nodes of a pool are numbered in the order they are listed.
\<close>

subsection \<open>The manifest\<close>

record ManifestResources =
  mrCPUs :: "float64 option"
  mrMemoryMB :: "int option"
  mrLabels :: "string list"

record ManifestNode =
  mnName :: string
  mnRole :: string
  mnAddress :: string
  mnResources :: ManifestResources
  mnScratch :: string
  mnBackend :: BackendDescriptor
  mnPorts :: "PortRange option"

type_synonym Manifest = "ManifestNode list"

definition manifestResources :: "ManifestResources \<Rightarrow> Resources" where
  "manifestResources r = \<lparr>CPUs = mrCPUs r, MemoryMB = mrMemoryMB r, Labels = NewLabels (mrLabels r)\<rparr>"

datatype manifest_error = ReadFailed string string | ParseFailed string string | NoNodes | InvalidName nat string | DuplicateName string
  | NoScratch string | BadBackend string string | UnknownKind string string | InvalidRange string PortRange

text \<open>The outside: a file's content, the decoder and encoder of JSON, the registered kinds, and making a control group's directory.\<close>

record host_env =
  he_read :: "string \<Rightarrow> string + string"
  he_manifest :: "string \<Rightarrow> string + Manifest"
  he_decode :: "string \<Rightarrow> string + LocalBackend"
  he_encode :: "LocalBackend \<Rightarrow> string + string"
  he_kinds :: "string \<Rightarrow> bool"
  he_mkdir :: "string \<Rightarrow> (string \<times> bool) option"

definition LoadManifest :: "host_env \<Rightarrow> string \<Rightarrow> manifest_error + Manifest" where
  "LoadManifest E path = (case he_read E path of
     Inl err \<Rightarrow> Inl (ReadFailed path err)
   | Inr content \<Rightarrow> (case he_manifest E content of Inl err \<Rightarrow> Inl (ParseFailed path err) | Inr m \<Rightarrow> Inr m))"

record allocators =
  al_store :: "PortAllocator list"
  al_hosts :: "string \<rightharpoonup> nat"

definition portHost :: "ManifestNode \<Rightarrow> string" where
  "portHost mn = (if mnAddress mn \<noteq> [] then mnAddress mn else if bHost (mnBackend mn) \<noteq> [] then bHost (mnBackend mn) else defaultPortHost)"

definition nodeAllocator :: "allocators \<Rightarrow> ManifestNode \<Rightarrow> manifest_error + nat \<times> allocators" where
  "nodeAllocator al mn = (case mnPorts mn of
     Some r \<Rightarrow>
       if prMin r \<le> 0 \<or> prMax r \<le> prMin r then Inl (InvalidRange (mnName mn) r)
       else Inr (length (al_store al), al\<lparr>al_store := al_store al @ [NewRangePortAllocator (prMin r) (prMax r)]\<rparr>)
   | None \<Rightarrow>
       (case al_hosts al (portHost mn) of
          Some a \<Rightarrow> Inr (a, al)
        | None \<Rightarrow> Inr (length (al_store al), al\<lparr>al_store := al_store al @ [NewPortAllocator (portHost mn)],
            al_hosts := (al_hosts al)(portHost mn \<mapsto> length (al_store al))\<rparr>)))"

definition backendError :: "host_env \<Rightarrow> ManifestNode \<Rightarrow> manifest_error option" where
  "backendError E mn =
     (if bKind (mnBackend mn) = [] \<or> bKind (mnBackend mn) = ''local'' then
        (case localBackendFrom (he_decode E) (mnBackend mn) of Inl err \<Rightarrow> Some (BadBackend (mnName mn) err) | Inr _ \<Rightarrow> None)
      else if he_kinds E (bKind (mnBackend mn)) then None else Some (UnknownKind (mnName mn) (bKind (mnBackend mn))))"

definition nodeOf :: "PortAllocator \<Rightarrow> ManifestNode \<Rightarrow> Node" where
  "nodeOf a mn = \<lparr>name = mnName mn, role = mnRole mn, addr = mnAddress mn, resources = manifestResources (mnResources mn),
     nscratch = \<lparr>Root = mnScratch mn\<rparr>, ports = Some a, descriptor = mnBackend mn\<rparr>"

text \<open>The nodes with the places of their allocators.\<close>

fun manifestLoop :: "host_env \<Rightarrow> nat \<Rightarrow> string set \<Rightarrow> allocators \<Rightarrow> Manifest \<Rightarrow> manifest_error + (Node \<times> nat) list \<times> allocators" where
  "manifestLoop E i names al [] = Inr ([], al)"
| "manifestLoop E i names al (mn # mns) =
     (if \<not> validComponent (mnName mn) then Inl (InvalidName i (mnName mn))
      else if mnName mn \<in> names then Inl (DuplicateName (mnName mn))
      else if mnScratch mn = [] then Inl (NoScratch (mnName mn))
      else (case backendError E mn of
          Some e \<Rightarrow> Inl e
        | None \<Rightarrow>
            (case nodeAllocator al mn of
               Inl e \<Rightarrow> Inl e
             | Inr (p, al1) \<Rightarrow>
                 (case manifestLoop E (Suc i) (insert (mnName mn) names) al1 mns of
                    Inl e \<Rightarrow> Inl e
                  | Inr (ns, al2) \<Rightarrow> Inr ((nodeOf (al_store al1 ! p) mn, p) # ns, al2)))))"

record inventory =
  iv_nodes :: "(Node \<times> nat) list"
  iv_allocators :: "PortAllocator list"
  iv_pool :: Pool

definition PoolFromManifest :: "host_env \<Rightarrow> Manifest \<Rightarrow> manifest_error + inventory" where
  "PoolFromManifest E m =
     (if m = [] then Inl NoNodes
      else case manifestLoop E 0 {} \<lparr>al_store = [], al_hosts = Map.empty\<rparr> m of
          Inl e \<Rightarrow> Inl e
        | Inr (ns, al) \<Rightarrow> Inr \<lparr>iv_nodes = ns, iv_allocators = al_store al, iv_pool = NewPool [0..<length ns]\<rparr>)"

subsection \<open>A pool of local nodes\<close>

fun demandLoop :: "'w system \<Rightarrow> uint64 \<Rightarrow> int \<Rightarrow> JobRequest list \<Rightarrow> int run" where
  "demandLoop sys runSeed demand [] = Value demand"
| "demandLoop sys runSeed demand (req # requests) =
     (case sizeJob sys req runSeed of
        Panicked v \<Rightarrow> Panicked v
      | Value (Inl _) \<Rightarrow> demandLoop sys runSeed demand requests
      | Value (Inr spec) \<Rightarrow> demandLoop sys runSeed (max demand (int (PoolSpec_Size spec))) requests)"

definition maxDemand :: "'w system \<Rightarrow> JobRequest list \<Rightarrow> uint64 \<Rightarrow> int run" where
  "maxDemand sys requests runSeed = demandLoop sys runSeed 1 requests"

definition poolSize :: "'w system \<Rightarrow> int \<Rightarrow> JobRequest list \<Rightarrow> uint64 \<Rightarrow> int run" where
  "poolSize sys nodes requests runSeed = (if nodes > 0 then Value nodes else maxDemand sys requests runSeed)"

definition nodeCgroup :: "host_env \<Rightarrow> string \<Rightarrow> string \<Rightarrow> string + string" where
  "nodeCgroup E cgroupRoot node = (let dir = path_Join [cgroupRoot, node] in
     case he_mkdir E dir of Some (err, exists) \<Rightarrow> if \<not> exists then Inl (''cgroups: '' @ err) else Inr dir | None \<Rightarrow> Inr dir)"

definition localNodeBackend :: "host_env \<Rightarrow> LocalBackend \<Rightarrow> string \<Rightarrow> string \<Rightarrow> string + LocalBackend \<times> BackendDescriptor" where
  "localNodeBackend E b cgroupRoot nm =
     (case (if cgroupRoot \<noteq> [] then (case nodeCgroup E cgroupRoot nm of Inl err \<Rightarrow> Inl err | Inr cg \<Rightarrow> Inr (b\<lparr>lbCgroup := cg\<rparr>)) else Inr b) of
        Inl err \<Rightarrow> Inl err
      | Inr b \<Rightarrow>
          if b \<noteq> noBackend then
            (case he_encode E b of Inl err \<Rightarrow> Inl err | Inr config \<Rightarrow> Inr (b, \<lparr>bKind = ''local'', bHost = [], bConfig = config\<rparr>))
          else Inr (b, \<lparr>bKind = ''local'', bHost = [], bConfig = []\<rparr>))"

definition localName :: "nat \<Rightarrow> string" where
  "localName i = ''node-'' @ itoa (int i)"

text \<open>The one allocator of a local pool is at place 0. A panic is \<open>None\<close>.\<close>

fun localNodes :: "host_env \<Rightarrow> string \<Rightarrow> string \<Rightarrow> nat list \<Rightarrow> (string + (Node \<times> nat) list) option" where
  "localNodes E cgroupRoot base [] = Some (Inr [])"
| "localNodes E cgroupRoot base (i # is) =
     (case localNodeBackend E noBackend cgroupRoot (localName i) of
        Inl err \<Rightarrow> Some (Inl err)
      | Inr (_, desc) \<Rightarrow>
          (case MakeScratch base (localName i) of
             None \<Rightarrow> None
           | Some sc \<Rightarrow>
               (case localNodes E cgroupRoot base is of
                  None \<Rightarrow> None
                | Some (Inl err) \<Rightarrow> Some (Inl err)
                | Some (Inr ns) \<Rightarrow> Some (Inr ((\<lparr>name = localName i, role = [], addr = [], resources = no_resources, nscratch = sc,
                    ports = Some (NewPortAllocator []), descriptor = desc\<rparr>, 0) # ns)))))"

definition localPool :: "host_env \<Rightarrow> int \<Rightarrow> string \<Rightarrow> string \<Rightarrow> (string + inventory) option" where
  "localPool E n cgroupRoot base =
     (if n < 0 then None
      else case localNodes E cgroupRoot base [0..<nat n] of
          None \<Rightarrow> None
        | Some (Inl err) \<Rightarrow> Some (Inl err)
        | Some (Inr ns) \<Rightarrow> Some (Inr \<lparr>iv_nodes = ns, iv_allocators = [NewPortAllocator []], iv_pool = NewPool [0..<length ns]\<rparr>))"

definition selectPool :: "host_env \<Rightarrow> 'w system \<Rightarrow> string \<Rightarrow> int \<Rightarrow> JobRequest list \<Rightarrow> uint64 \<Rightarrow> string \<Rightarrow> string \<Rightarrow>
    ((manifest_error + string) + inventory) option" where
  "selectPool E sys poolFile nodes requests runSeed cgroupRoot base =
     (if poolFile \<noteq> [] then
        (case LoadManifest E poolFile of
           Inl e \<Rightarrow> Some (Inl (Inl e))
         | Inr m \<Rightarrow> (case PoolFromManifest E m of Inl e \<Rightarrow> Some (Inl (Inl e)) | Inr iv \<Rightarrow> Some (Inr iv)))
      else (case poolSize sys nodes requests runSeed of
          Panicked v \<Rightarrow> None
        | Value n \<Rightarrow> (case localPool E n cgroupRoot base of
            None \<Rightarrow> None | Some (Inl err) \<Rightarrow> Some (Inl (Inr err)) | Some (Inr iv) \<Rightarrow> Some (Inr iv))))"

subsection \<open>Who shares an allocator\<close>

definition al_ok :: "allocators \<Rightarrow> bool" where
  "al_ok al \<longleftrightarrow> (\<forall>h a. al_hosts al h = Some a \<longrightarrow> a < length (al_store al) \<and> al_store al ! a = NewPortAllocator h) \<and> inj_on (al_hosts al) (dom (al_hosts al))"

definition al_le :: "allocators \<Rightarrow> allocators \<Rightarrow> bool" where
  "al_le al al' \<longleftrightarrow> (\<exists>xs. al_store al' = al_store al @ xs) \<and> al_hosts al \<subseteq>\<^sub>m al_hosts al' \<and>
     (\<forall>h a. al_hosts al' h = Some a \<longrightarrow> al_hosts al h = Some a \<or> length (al_store al) \<le> a)"

text \<open>What one node got, seen in the store at the end.\<close>

definition served :: "allocators \<Rightarrow> ManifestNode \<Rightarrow> nat \<Rightarrow> bool" where
  "served al mn p \<longleftrightarrow> p < length (al_store al) \<and>
     (case mnPorts mn of
        Some r \<Rightarrow> 0 < prMin r \<and> prMin r < prMax r \<and> p \<notin> ran (al_hosts al) \<and> al_store al ! p = NewRangePortAllocator (prMin r) (prMax r)
      | None \<Rightarrow> al_hosts al (portHost mn) = Some p \<and> al_store al ! p = NewPortAllocator (portHost mn))"

lemma al_le_refl: "al_le al al"
  by (auto simp: al_le_def)

lemma al_le_trans:
  assumes "al_le a b" and "al_le b c"
  shows "al_le a c"
proof -
  have l: "length (al_store a) \<le> length (al_store b)" using assms(1) by (auto simp: al_le_def)
  have "al_hosts a h = Some x \<or> length (al_store a) \<le> x" if "al_hosts c h = Some x" for h x
  proof -
    from that assms(2) have "al_hosts b h = Some x \<or> length (al_store b) \<le> x" unfolding al_le_def by blast
    then show ?thesis using assms(1) l unfolding al_le_def by (meson order_trans)
  qed
  moreover have "al_hosts a \<subseteq>\<^sub>m al_hosts c" using assms map_le_trans unfolding al_le_def by blast
  ultimately show ?thesis using assms unfolding al_le_def by (auto simp: append_assoc)
qed

lemma served_le:
  assumes "served al mn p" and "al_le al al'"
  shows "served al' mn p"
proof -
  obtain xs where xs: "al_store al' = al_store al @ xs" using assms(2) by (auto simp: al_le_def)
  have p: "p < length (al_store al)" using assms(1) by (simp add: served_def)
  then have at: "al_store al' ! p = al_store al ! p" "p < length (al_store al')" using xs by (simp_all add: nth_append)
  have h: "al_hosts al' k = Some p" if "al_hosts al k = Some p" for k
    using that assms(2) unfolding al_le_def map_le_def by (metis domI)
  have n: "p \<notin> ran (al_hosts al')" if "p \<notin> ran (al_hosts al)"
  proof
    assume "p \<in> ran (al_hosts al')"
    then obtain k where "al_hosts al' k = Some p" by (auto simp: ran_def)
    then have "al_hosts al k = Some p" using assms(2) p unfolding al_le_def by fastforce
    then show False using that by (auto simp: ran_def)
  qed
  show ?thesis using assms(1) at h n unfolding served_def by (auto split: option.splits)
qed

lemma nodeAllocator_ok:
  assumes "nodeAllocator al mn = Inr (p, al1)" and "al_ok al"
  shows "al_ok al1" "al_le al al1" "served al1 mn p" "\<And>r. mnPorts mn = Some r \<Longrightarrow> p = length (al_store al)"
proof -
  consider (range) r where "mnPorts mn = Some r" "0 < prMin r" "prMin r < prMax r" "p = length (al_store al)"
      "al1 = al\<lparr>al_store := al_store al @ [NewRangePortAllocator (prMin r) (prMax r)]\<rparr>"
    | (old) "mnPorts mn = None" "al_hosts al (portHost mn) = Some p" "al1 = al"
    | (new) "mnPorts mn = None" "al_hosts al (portHost mn) = None" "p = length (al_store al)"
      "al1 = al\<lparr>al_store := al_store al @ [NewPortAllocator (portHost mn)], al_hosts := (al_hosts al)(portHost mn \<mapsto> length (al_store al))\<rparr>"
    using assms(1) by (fastforce simp: nodeAllocator_def split: option.splits if_splits)
  then have "al_ok al1 \<and> al_le al al1 \<and> served al1 mn p \<and> (\<forall>r. mnPorts mn = Some r \<longrightarrow> p = length (al_store al))"
  proof cases
    case range
    have "p \<notin> ran (al_hosts al)" using assms(2) range(4) by (auto simp: al_ok_def ran_def)
    then show ?thesis using range assms(2) by (auto simp: al_ok_def al_le_def served_def nth_append intro: less_SucI)
  next
    case old
    then show ?thesis using assms(2) by (auto simp: al_ok_def al_le_refl served_def)
  next
    case new
    have lt: "a < length (al_store al)" if "al_hosts al h = Some a" for h a using assms(2) that by (auto simp: al_ok_def)
    have "al_ok al1" unfolding al_ok_def
    proof (intro conjI allI impI)
      show "inj_on (al_hosts al1) (dom (al_hosts al1))"
      proof (rule inj_onI)
        fix x y assume xy: "x \<in> dom (al_hosts al1)" "y \<in> dom (al_hosts al1)" "al_hosts al1 x = al_hosts al1 y"
        have fresh: "al_hosts al h \<noteq> Some (length (al_store al))" for h using lt [of h "length (al_store al)"] by auto
        have old: "u = v" if "al_hosts al u = al_hosts al v" "u \<in> dom (al_hosts al)" "v \<in> dom (al_hosts al)" for u v
          using inj_onD [of "al_hosts al" "dom (al_hosts al)" u v] assms(2) that by (simp add: al_ok_def)
        show "x = y" using xy fresh [of x] fresh [of y] old [of x y] new(4) by (auto simp: eq_commute split: if_splits)
      qed
    qed (use assms(2) lt new in \<open>auto simp: al_ok_def nth_append intro: less_SucI split: if_splits\<close>)
    moreover have "al_le al al1" using new by (auto simp: al_le_def map_le_def)
    moreover have "served al1 mn p" using new by (simp add: served_def)
    ultimately show ?thesis using new(1) by simp
  qed
  then show "al_ok al1" "al_le al al1" "served al1 mn p" "\<And>r. mnPorts mn = Some r \<Longrightarrow> p = length (al_store al)" by auto
qed

lemma manifestLoop_ok:
  assumes "manifestLoop E i names al m = Inr (ns, al')" and "al_ok al"
  shows "al_ok al' \<and> al_le al al' \<and> length ns = length m \<and> distinct (map mnName m) \<and> set (map mnName m) \<inter> names = {} \<and>
    (\<forall>k < length m. validComponent (mnName (m ! k)) \<and> mnScratch (m ! k) \<noteq> [] \<and> served al' (m ! k) (snd (ns ! k)) \<and>
       fst (ns ! k) = nodeOf (al_store al' ! snd (ns ! k)) (m ! k) \<and> (mnPorts (m ! k) \<noteq> None \<longrightarrow> length (al_store al) \<le> snd (ns ! k))) \<and>
    (\<forall>j k. j < k \<longrightarrow> k < length m \<longrightarrow> mnPorts (m ! k) \<noteq> None \<longrightarrow> snd (ns ! j) \<noteq> snd (ns ! k))"
  using assms
proof (induction m arbitrary: i names al ns)
  case Nil
  then show ?case by (auto simp: al_le_refl)
next
  case (Cons mn mns)
  obtain p al1 ns1 where a: "nodeAllocator al mn = Inr (p, al1)" and l: "manifestLoop E (Suc i) (insert (mnName mn) names) al1 mns = Inr (ns1, al')"
    and ns: "ns = (nodeOf (al_store al1 ! p) mn, p) # ns1" and v: "validComponent (mnName mn)" "mnName mn \<notin> names" "mnScratch mn \<noteq> []"
    using Cons.prems(1) by (auto split: if_splits option.splits sum.splits prod.splits)
  note A = nodeAllocator_ok [OF a Cons.prems(2)]
  note I = Cons.IH [OF l A(1)]
  have le: "al_le al1 al'" using I by blast
  have p: "p < length (al_store al1)" using A(3) by (simp add: served_def)
  then have same: "al_store al' ! p = al_store al1 ! p" using le by (auto simp: al_le_def nth_append)
  have grow: "length (al_store al) \<le> length (al_store al1)" using A(2) by (auto simp: al_le_def)
  have S: "served al' mn p" by (rule served_le [OF A(3) le])
  have head: "\<forall>k < length (mn # mns). validComponent (mnName ((mn # mns) ! k)) \<and> mnScratch ((mn # mns) ! k) \<noteq> [] \<and> served al' ((mn # mns) ! k) (snd (ns ! k)) \<and>
       fst (ns ! k) = nodeOf (al_store al' ! snd (ns ! k)) ((mn # mns) ! k) \<and> (mnPorts ((mn # mns) ! k) \<noteq> None \<longrightarrow> length (al_store al) \<le> snd (ns ! k))"
  proof (intro allI impI)
    fix k assume "k < length (mn # mns)"
    then show "validComponent (mnName ((mn # mns) ! k)) \<and> mnScratch ((mn # mns) ! k) \<noteq> [] \<and> served al' ((mn # mns) ! k) (snd (ns ! k)) \<and>
       fst (ns ! k) = nodeOf (al_store al' ! snd (ns ! k)) ((mn # mns) ! k) \<and> (mnPorts ((mn # mns) ! k) \<noteq> None \<longrightarrow> length (al_store al) \<le> snd (ns ! k))"
      using v S same A(4) I grow ns by (cases k) auto
  qed
  have "snd (ns ! j) \<noteq> snd (ns ! k)" if "j < k" "k < length (mn # mns)" "mnPorts ((mn # mns) ! k) \<noteq> None" for j k
  proof -
    obtain k' where k: "k = Suc k'" using \<open>j < k\<close> by (cases k) auto
    show ?thesis
    proof (cases j)
      case 0
      have "length (al_store al1) \<le> snd (ns1 ! k')" using I that k by auto
      then show ?thesis using 0 k ns p by simp
    next
      case (Suc j')
      then show ?thesis using I that k ns by auto
    qed
  qed
  then show ?case using I head v al_le_trans [OF A(2) le] ns by simp
qed

lemma served_same:
  assumes "al_ok al" and "served al mn p" and "served al mn' p'" and "mnPorts mn = None"
  shows "p = p' \<longleftrightarrow> mnPorts mn' = None \<and> portHost mn = portHost mn'"
proof (cases "mnPorts mn'")
  case None
  then have h: "al_hosts al (portHost mn) = Some p" "al_hosts al (portHost mn') = Some p'" using assms(2-4) by (simp_all add: served_def)
  have "portHost mn = portHost mn'" if "p = p'"
    by (rule inj_onD [of "al_hosts al" "dom (al_hosts al)"]) (use assms(1) h that in \<open>auto simp: al_ok_def\<close>)
  then show ?thesis using None h by auto
next
  case (Some r)
  then have "p' \<notin> ran (al_hosts al)" "p \<in> ran (al_hosts al)" using assms(2-4) by (auto simp: served_def intro: ranI)
  then show ?thesis using Some by auto
qed

lemma manifest_parts:
  assumes "PoolFromManifest E m = Inr iv"
  shows "length (iv_nodes iv) = length m \<and> iv_pool iv = NewPool [0..<length m] \<and> distinct (map mnName m) \<and>
    (\<forall>i < length m. validComponent (mnName (m ! i)) \<and> fst (iv_nodes iv ! i) = nodeOf (iv_allocators iv ! snd (iv_nodes iv ! i)) (m ! i)) \<and>
    (\<forall>i < length m. iv_allocators iv ! snd (iv_nodes iv ! i) =
       (case mnPorts (m ! i) of Some r \<Rightarrow> NewRangePortAllocator (prMin r) (prMax r) | None \<Rightarrow> NewPortAllocator (portHost (m ! i)))) \<and>
    (\<forall>i < length m. \<forall>r. mnPorts (m ! i) = Some r \<longrightarrow> 0 < prMin r \<and> prMin r < prMax r) \<and>
    (\<forall>i < length m. \<forall>j < length m. i \<noteq> j \<longrightarrow>
       (snd (iv_nodes iv ! i) = snd (iv_nodes iv ! j) \<longleftrightarrow> mnPorts (m ! i) = None \<and> mnPorts (m ! j) = None \<and> portHost (m ! i) = portHost (m ! j)))"
proof -
  obtain ns al where l: "manifestLoop E 0 {} \<lparr>al_store = [], al_hosts = Map.empty\<rparr> m = Inr (ns, al)"
    and iv: "iv = \<lparr>iv_nodes = ns, iv_allocators = al_store al, iv_pool = NewPool [0..<length ns]\<rparr>"
    using assms by (auto simp: PoolFromManifest_def split: if_splits sum.splits prod.splits)
  have "al_ok \<lparr>al_store = [], al_hosts = Map.empty\<rparr>" by (simp add: al_ok_def)
  note M = manifestLoop_ok [OF l this]
  have ok: "al_ok al" and len: "length ns = length m" and d: "distinct (map mnName m)"
    and far: "\<And>j k. j < k \<Longrightarrow> k < length m \<Longrightarrow> mnPorts (m ! k) \<noteq> None \<Longrightarrow> snd (ns ! j) \<noteq> snd (ns ! k)" using M by blast+
  have each: "validComponent (mnName (m ! k))" "served al (m ! k) (snd (ns ! k))" "fst (ns ! k) = nodeOf (al_store al ! snd (ns ! k)) (m ! k)"
    if "k < length m" for k using M that by blast+
  have store: "al_store al ! snd (ns ! k) = (case mnPorts (m ! k) of Some r \<Rightarrow> NewRangePortAllocator (prMin r) (prMax r) | None \<Rightarrow> NewPortAllocator (portHost (m ! k)))"
    if "k < length m" for k using each(2) [OF that] by (simp add: served_def split: option.splits)
  have rng: "0 < prMin r \<and> prMin r < prMax r" if "k < length m" "mnPorts (m ! k) = Some r" for k r
    using each(2) [OF that(1)] that(2) by (simp add: served_def)
  have one: "snd (ns ! i) = snd (ns ! j) \<longleftrightarrow> mnPorts (m ! i) = None \<and> mnPorts (m ! j) = None \<and> portHost (m ! i) = portHost (m ! j)"
    if ij: "i < j" "j < length m" for i j
  proof (cases "mnPorts (m ! i)")
    case None
    then show ?thesis using served_same [OF ok each(2) each(2) None, of j] ij by auto
  next
    case (Some r)
    have i: "i < length m" using ij by simp
    have "snd (ns ! i) \<noteq> snd (ns ! j)"
    proof (cases "mnPorts (m ! j)")
      case None
      then show ?thesis using served_same [OF ok each(2) [OF ij(2)] each(2) [OF i] None] Some by auto
    qed (use far [OF ij] in auto)
    then show ?thesis using Some by simp
  qed
  have "snd (ns ! i) = snd (ns ! j) \<longleftrightarrow> mnPorts (m ! i) = None \<and> mnPorts (m ! j) = None \<and> portHost (m ! i) = portHost (m ! j)"
    if "i < length m" "j < length m" "i \<noteq> j" for i j
    using one [of i j] one [of j i] that by (cases "i < j") (auto simp: eq_commute)
  then show ?thesis unfolding iv using len d each store rng by simp
qed

lemma manifest_allocators:
  assumes "PoolFromManifest E m = Inr iv"
  shows "i < length m \<Longrightarrow> iv_allocators iv ! snd (iv_nodes iv ! i) =
      (case mnPorts (m ! i) of Some r \<Rightarrow> NewRangePortAllocator (prMin r) (prMax r) | None \<Rightarrow> NewPortAllocator (portHost (m ! i)))"
    "i < length m \<Longrightarrow> j < length m \<Longrightarrow> i \<noteq> j \<Longrightarrow>
      snd (iv_nodes iv ! i) = snd (iv_nodes iv ! j) \<longleftrightarrow> mnPorts (m ! i) = None \<and> mnPorts (m ! j) = None \<and> portHost (m ! i) = portHost (m ! j)"
  using manifest_parts [OF assms] by blast+

text \<open>
  C25: A manifest that is accepted gives a pool of its nodes, in order, each with the name, address, resources, scratch and transport the
  manifest has; the names are distinct single path components; a node with a range of ports
  has an allocator of its own over that range, which is not empty; and of the others two have the same allocator exactly
  when the manifest puts them on the same host.
\<close>

theorem manifest_pool:
  assumes "PoolFromManifest E m = Inr iv"
  shows "length (iv_nodes iv) = length m \<and> iv_pool iv = NewPool [0..<length m] \<and> distinct (map mnName m) \<and>
    (\<forall>i < length m. validComponent (mnName (m ! i)) \<and> fst (iv_nodes iv ! i) = nodeOf (iv_allocators iv ! snd (iv_nodes iv ! i)) (m ! i)) \<and>
    (\<forall>i < length m. iv_allocators iv ! snd (iv_nodes iv ! i) =
       (case mnPorts (m ! i) of Some r \<Rightarrow> NewRangePortAllocator (prMin r) (prMax r) | None \<Rightarrow> NewPortAllocator (portHost (m ! i)))) \<and>
    (\<forall>i < length m. \<forall>r. mnPorts (m ! i) = Some r \<longrightarrow> 0 < prMin r \<and> prMin r < prMax r) \<and>
    (\<forall>i < length m. \<forall>j < length m. i \<noteq> j \<longrightarrow>
       (snd (iv_nodes iv ! i) = snd (iv_nodes iv ! j) \<longleftrightarrow> mnPorts (m ! i) = None \<and> mnPorts (m ! j) = None \<and> portHost (m ! i) = portHost (m ! j)))"
  by (rule manifest_parts [OF assms])

definition demo_env :: host_env where
  "demo_env = \<lparr>he_read = (\<lambda>_. Inl ''no file''), he_manifest = (\<lambda>_. Inl ''no JSON''), he_decode = (\<lambda>_. Inr noBackend), he_encode = (\<lambda>_. Inr ''{}''),
     he_kinds = (\<lambda>_. False), he_mkdir = (\<lambda>_. None)\<rparr>"

definition demo_entry :: "string \<Rightarrow> string \<Rightarrow> PortRange option \<Rightarrow> ManifestNode" where
  "demo_entry nm address ps = \<lparr>mnName = nm, mnRole = [], mnAddress = address, mnResources = \<lparr>mrCPUs = None, mrMemoryMB = Some 512, mrLabels = []\<rparr>,
     mnScratch = ''/scratch'', mnBackend = \<lparr>bKind = ''local'', bHost = [], bConfig = []\<rparr>, mnPorts = ps\<rparr>"

lemma demo_manifest:
  "PoolFromManifest demo_env [demo_entry ''a'' ''10.0.0.1'' None, demo_entry ''b'' ''10.0.0.1'' None, demo_entry ''c'' ''10.0.0.2'' None] =
     Inr \<lparr>iv_nodes = [(nodeOf (NewPortAllocator ''10.0.0.1'') (demo_entry ''a'' ''10.0.0.1'' None), 0),
         (nodeOf (NewPortAllocator ''10.0.0.1'') (demo_entry ''b'' ''10.0.0.1'' None), 0), (nodeOf (NewPortAllocator ''10.0.0.2'') (demo_entry ''c'' ''10.0.0.2'' None), 1)],
       iv_allocators = [NewPortAllocator ''10.0.0.1'', NewPortAllocator ''10.0.0.2''], iv_pool = NewPool [0, 1, 2]\<rparr>"
  by (simp add: PoolFromManifest_def demo_entry_def demo_env_def backendError_def localBackendFrom_def nodeAllocator_def portHost_def validComponent_def upt_rec numeral_2_eq_2)

theorem manifest_pool_witness:
  "distinct (map mnName [demo_entry ''a'' ''10.0.0.1'' None, demo_entry ''b'' ''10.0.0.1'' None, demo_entry ''c'' ''10.0.0.2'' None])"
  using manifest_pool [OF demo_manifest] by simp

text \<open>
  C39: The ranges the manifest gives to different nodes are never compared. Of any manifest that is accepted, let a port be in the
  ranges of two nodes, on one host or not: the two have an allocator each, neither knows of the other's leases, and as soon as each has
  been asked for more ports than its range has below this one, both have handed it out and not had it back, whatever the system answers.
\<close>

theorem overlapping_ranges_collide:
  assumes "PoolFromManifest E m = Inr iv" and ij: "i < length m" "j < length m" "i \<noteq> j"
    and r: "mnPorts (m ! i) = Some r" "prMin r \<le> q" "q < prMax r" and r': "mnPorts (m ! j) = Some r'" "prMin r' \<le> q" "q < prMax r'"
    and asked: "q - prMin r < int (length probes)" "q - prMin r' < int (length probes')"
  shows "snd (iv_nodes iv ! i) \<noteq> snd (iv_nodes iv ! j) \<and>
    q \<in> set (snd (foldl port_step (iv_allocators iv ! snd (iv_nodes iv ! i), []) (map AllocatePort probes))) \<and>
    q \<in> set (snd (foldl port_step (iv_allocators iv ! snd (iv_nodes iv ! j), []) (map AllocatePort probes')))"
proof -
  note M = manifest_allocators [OF assms(1)]
  have "iv_allocators iv ! snd (iv_nodes iv ! i) = NewRangePortAllocator (prMin r) (prMax r)"
    "iv_allocators iv ! snd (iv_nodes iv ! j) = NewRangePortAllocator (prMin r') (prMax r')" using M(1) ij r(1) r'(1) by simp_all
  moreover have "snd (iv_nodes iv ! i) \<noteq> snd (iv_nodes iv ! j)" using M(2) [of i j] ij r(1) by simp
  ultimately show ?thesis using range_hands_out [OF r(2,3) asked(1)] range_hands_out [OF r'(2,3) asked(2)] by simp
qed

definition overlapping :: Manifest where
  "overlapping = [demo_entry ''a'' ''10.0.0.1'' (Some \<lparr>prMin = 9000, prMax = 9100\<rparr>), demo_entry ''b'' ''10.0.0.1'' (Some \<lparr>prMin = 9002, prMax = 9150\<rparr>)]"

definition overlapping_pool :: inventory where
  "overlapping_pool = \<lparr>iv_nodes = [(nodeOf (NewRangePortAllocator 9000 9100) (overlapping ! 0), 0), (nodeOf (NewRangePortAllocator 9002 9150) (overlapping ! 1), 1)],
     iv_allocators = [NewRangePortAllocator 9000 9100, NewRangePortAllocator 9002 9150], iv_pool = NewPool [0, 1]\<rparr>"

theorem overlapping_ranges_collide_witness:
  "PoolFromManifest demo_env overlapping = Inr overlapping_pool \<and> map (Addr \<circ> fst) (iv_nodes overlapping_pool) = [''10.0.0.1'', ''10.0.0.1''] \<and>
    9003 \<in> set (snd (foldl port_step (iv_allocators overlapping_pool ! 0, []) (map AllocatePort (replicate 4 busy_os)))) \<and>
    9003 \<in> set (snd (foldl port_step (iv_allocators overlapping_pool ! 1, []) (map AllocatePort (replicate 2 busy_os))))"
proof -
  have a: "PoolFromManifest demo_env overlapping = Inr overlapping_pool"
    by (simp add: PoolFromManifest_def overlapping_def overlapping_pool_def demo_entry_def demo_env_def backendError_def localBackendFrom_def nodeAllocator_def validComponent_def upt_rec)
  have "q \<in> {9002..<9100} \<Longrightarrow> q - 9000 < int (length probes) \<Longrightarrow> q - 9002 < int (length probes') \<Longrightarrow>
      q \<in> set (snd (foldl port_step (iv_allocators overlapping_pool ! 0, []) (map AllocatePort probes))) \<and>
      q \<in> set (snd (foldl port_step (iv_allocators overlapping_pool ! 1, []) (map AllocatePort probes')))" for q :: int and probes probes'
    using overlapping_ranges_collide [OF a, of 0 1 "\<lparr>prMin = 9000, prMax = 9100\<rparr>" q "\<lparr>prMin = 9002, prMax = 9150\<rparr>" probes probes']
    by (simp add: overlapping_def overlapping_pool_def demo_entry_def)
  from this [of 9003 "replicate 4 busy_os" "replicate 2 busy_os"] show ?thesis
    using a by (simp add: overlapping_pool_def overlapping_def demo_entry_def Addr_def nodeOf_def)
qed

subsection \<open>The size of a local pool\<close>

lemma demandLoop_covers:
  assumes "demandLoop sys runSeed d requests = Value n"
  shows "d \<le> n \<and> (\<forall>req \<in> set requests. \<forall>spec. sizeJob sys req runSeed = Value (Inr spec) \<longrightarrow> int (PoolSpec_Size spec) \<le> n)"
  using assms
proof (induction requests arbitrary: d)
  case (Cons req requests)
  then show ?case by (fastforce split: run.splits sum.splits)
qed simp

lemma demandLoop_Panicked:
  "demandLoop sys runSeed d requests = Panicked v \<Longrightarrow> \<exists>req. req \<in> set requests \<and> sizeJob sys req runSeed = Panicked v"
  by (induction requests arbitrary: d) (auto split: run.splits sum.splits)

lemma localName_valid: "validComponent (localName i)"
proof -
  have "CHR ''/'' \<notin> set (utoa i)" using utoa_digit(1,2) [of i] by (auto simp: list_all_iff isDigit_def)
  then show ?thesis by (simp add: validComponent_def localName_def itoa_def)
qed

lemma localNodes_some:
  "\<exists>ns. localNodes E [] base is = Some (Inr ns) \<and> map (name \<circ> fst) ns = map localName is \<and> (\<forall>x \<in> set ns. resources (fst x) = no_resources \<and> snd x = 0)"
  using localName_valid by (induction "is") (auto simp: localNodeBackend_def MakeScratch_def)

text \<open>
  C26: With no size given and no control groups, a run's pool of local nodes is made whatever the jobs, its nodes have distinct names, and every job that asks
  for nodes and nothing of them is given them by the pool when it is idle; unless sizing one of the jobs panics, which is let through.
\<close>

theorem local_pool_fits:
  assumes "nodes \<le> 0"
  shows "(\<exists>req v. req \<in> set requests \<and> sizeJob sys req runSeed = Panicked v \<and> selectPool E sys [] nodes requests runSeed [] base = None) \<or>
   (\<exists>iv. selectPool E sys [] nodes requests runSeed [] base = Some (Inr iv) \<and> distinct (map (name \<circ> fst) (iv_nodes iv)) \<and>
    (\<forall>req \<in> set requests. \<forall>spec. sizeJob sys req runSeed = Value (Inr spec) \<longrightarrow> (\<forall>s \<in> set (PoolSpec.Nodes spec). SatisfiedBy s no_resources) \<longrightarrow>
       (\<exists>sub p. Allocate (\<lambda>n. resources (fst (iv_nodes iv ! n))) (iv_pool iv) spec = Inr (sub, p))))"
proof (cases "maxDemand sys requests runSeed")
  case (Panicked v)
  then have "selectPool E sys [] nodes requests runSeed [] base = None" using assms by (simp add: selectPool_def poolSize_def)
  then show ?thesis using Panicked demandLoop_Panicked unfolding maxDemand_def by blast
next
  case (Value N)
  have n: "1 \<le> N" and big: "\<And>req spec. req \<in> set requests \<Longrightarrow> sizeJob sys req runSeed = Value (Inr spec) \<Longrightarrow> int (PoolSpec_Size spec) \<le> N"
    using demandLoop_covers [OF Value [unfolded maxDemand_def]] by auto
  obtain ns where ns: "localNodes E [] base [0..<nat N] = Some (Inr ns)" "map (name \<circ> fst) ns = map localName [0..<nat N]"
    "\<forall>x \<in> set ns. resources (fst x) = no_resources \<and> snd x = 0" using localNodes_some by blast
  have len: "length ns = nat N" using arg_cong [OF ns(2), of length] by simp
  let ?iv = "\<lparr>iv_nodes = ns, iv_allocators = [NewPortAllocator []], iv_pool = NewPool [0..<length ns]\<rparr>"
  have sel: "selectPool E sys [] nodes requests runSeed [] base = Some (Inr ?iv)"
    using assms n ns(1) Value by (simp add: selectPool_def poolSize_def localPool_def)
  have "inj localName" by (rule injI) (simp add: localName_def itoa_def utoa_inj)
  then have d: "distinct (map localName [0..<nat N])" by (auto simp: distinct_map intro: inj_on_subset)
  have "\<exists>sub p. Allocate (\<lambda>n. resources (fst (ns ! n))) (NewPool [0..<length ns]) spec = Inr (sub, p)"
    if "req \<in> set requests" "sizeJob sys req runSeed = Value (Inr spec)" "\<forall>s \<in> set (PoolSpec.Nodes spec). SatisfiedBy s no_resources" for req spec
  proof -
    have le: "length (PoolSpec.Nodes spec) \<le> length ns" using big [OF that(1,2)] len n by (simp add: PoolSpec_Size_def nat_le_iff le_nat_iff)
    have "feasible (\<lambda>n. resources (fst (ns ! n))) [0..<length ns] (PoolSpec.Nodes spec)"
      unfolding feasible_def by (intro exI [of _ "\<lambda>i. i"]) (use le that(3) ns(3) in auto)
    then obtain xs where "matchSpecs (\<lambda>n. resources (fst (ns ! n))) [0..<length ns] (PoolSpec.Nodes spec) = Some xs"
      using matchSpecs_iff_feasible by (metis not_None_eq)
    then show ?thesis by (simp add: Allocate_def NewPool_def Let_def)
  qed
  then show ?thesis by (intro disjI2 exI [of _ ?iv] conjI sel) (use d ns(2) in simp_all)
qed

definition demo_undemanding :: NodeSpec where
  "demo_undemanding = \<lparr>OS = [], Required = no_resources, Preferred = [], Role = []\<rparr>"

definition demo_pair_sys :: "nat system" where
  "demo_pair_sys = demo_sys\<lparr>sWorker := (sWorker demo_sys)\<lparr>wLife := (\<lambda>_. one_node\<lparr>Declare := (\<lambda>jc. Value [Value [demo_undemanding, demo_undemanding]])\<rparr>)\<rparr>\<rparr>"

theorem local_pool_fits_witness:
  "\<exists>iv. selectPool demo_env demo_pair_sys [] 0 demo_reqs 5 [] ''/tmp'' = Some (Inr iv) \<and>
     (\<exists>sub p. Allocate (\<lambda>n. resources (fst (iv_nodes iv ! n))) (iv_pool iv) \<lparr>PoolSpec.Nodes = [demo_undemanding, demo_undemanding]\<rparr> = Inr (sub, p))"
proof -
  have "sizeJob demo_pair_sys (demo_reqs ! 0) 5 = Value (Inr \<lparr>PoolSpec.Nodes = [demo_undemanding, demo_undemanding]\<rparr>)" by code_simp
  moreover have "sizeJob demo_pair_sys req 5 \<noteq> Panicked v" for req v
    by (simp add: sizeJob_def demo_pair_sys_def demo_sys_def one_node_def lookupJob_def jcPoolSpec_def split: run.splits option.splits)
  moreover have "demo_reqs ! 0 \<in> set demo_reqs" by (simp add: demo_reqs_def)
  moreover have "\<forall>s \<in> set (PoolSpec.Nodes \<lparr>PoolSpec.Nodes = [demo_undemanding, demo_undemanding]\<rparr>). SatisfiedBy s no_resources" by code_simp
  ultimately show ?thesis using local_pool_fits [of 0, where E = demo_env and sys = demo_pair_sys and requests = demo_reqs and runSeed = 5 and base = "''/tmp''"] by blast
qed

end
