(* ===== verification/Fault_Disk.thy ===== *)
theory Fault_Disk
  imports Torx_Capture
begin

text \<open>
  Faults of a disk: \<^verbatim>\<open>src/diskfault/diskfault.go\<close>. What a node does with a command, and its directories, are operations on a
  world that are parameters. The form of a mount table is the kernel's: a line for each mount, fields between
  blanks, with space, tab, newline and backslash as octal escapes.
\<close>

subsection \<open>Fields and lines\<close>

text \<open>\<^verbatim>\<open>strings.Fields\<close> and \<^verbatim>\<open>strings.Lines\<close>, which leaves a line its newline.\<close>

abbreviation newline :: char where
  "newline \<equiv> CHR 0x0A"

fun fieldsFrom :: "string \<Rightarrow> string \<Rightarrow> string list" where
  "fieldsFrom cur [] = (if cur = [] then [] else [cur])"
| "fieldsFrom cur (c # s) = (case find (hasPrefix (c # s)) spaces of
     Some sp \<Rightarrow> (if cur = [] then [] else [cur]) @ fieldsFrom [] (drop (length sp - 1) s)
   | None \<Rightarrow> fieldsFrom (cur @ [c]) s)"

definition wordsOf :: "string \<Rightarrow> string list" where
  "wordsOf s = fieldsFrom [] s"

fun linesOf :: "string \<Rightarrow> string list" where
  "linesOf [] = []"
| "linesOf (c # s) = (if c = newline then [c] # linesOf s else (case linesOf s of [] \<Rightarrow> [[c]] | l # ls \<Rightarrow> (c # l) # ls))"

subsection \<open>Commands on a node\<close>

record 'w fault_ops =
  fo_exec :: "Node \<Rightarrow> Cmd \<Rightarrow> 'w \<Rightarrow> (error + ExecResult) \<times> 'w"
  fo_mkdir :: "Node \<Rightarrow> string \<Rightarrow> 'w act"
  fo_exists :: "Node \<Rightarrow> string \<Rightarrow> 'w \<Rightarrow> (error + bool) \<times> 'w"
  fo_rm :: "Node \<Rightarrow> string \<Rightarrow> 'w act"

definition Command :: "string \<Rightarrow> string list \<Rightarrow> Cmd" where
  "Command path args = \<lparr>cPath = path, cArgs = args, cEnv = [], cDir = [], cStdin = []\<rparr>"

definition runDisk :: "'w fault_ops \<Rightarrow> Node \<Rightarrow> string \<Rightarrow> string list \<Rightarrow> 'w act" where
  "runDisk ops n prog args w = (case fo_exec ops n (Command prog args) w of
     (Inl e, w1) \<Rightarrow> (Some (Errorf ''diskfault: %s: %s: %w'' [AStr (name n), AStr prog, AErr e]), w1)
   | (Inr res, w1) \<Rightarrow>
       (if ExitCode res \<noteq> 0
        then Some (Errorf ''diskfault: %s: %s %s: exit %d: %s'' [AStr (name n), AStr prog, AStr (join '' '' args), AInt (ExitCode res), AStr (trimSpace (Stderr res))])
        else None, w1))"

definition diskErr :: "Node \<Rightarrow> error \<Rightarrow> error" where
  "diskErr n e = Errorf ''diskfault: %s: %w'' [AStr (name n), AErr e]"

subsection \<open>Limits\<close>

definition filler :: string where
  "filler = ''.torx-diskfault-fill''"

definition limitSource :: string where
  "limitSource = ''torx-diskfault''"

definition Limit :: "'w fault_ops \<Rightarrow> Node \<Rightarrow> string \<Rightarrow> int \<Rightarrow> 'w act" where
  "Limit ops n dir sz w = (case fo_mkdir ops n dir w of
     (Some e, w1) \<Rightarrow> (Some (diskErr n e), w1)
   | (None, w1) \<Rightarrow> runDisk ops n ''mount'' [''-t'', ''tmpfs'', ''-o'', ''size='' @ itoa sz, limitSource, dir] w1)"

fun unescape :: "string \<Rightarrow> string" where
  "unescape [] = []"
| "unescape (c # s) =
     (case if c = backslash \<and> 3 \<le> length s then parseUint 8 8 (take 3 s) else None of
        Some n \<Rightarrow> char_of n # unescape (drop 3 s)
      | None \<Rightarrow> c # unescape s)"

record mount =
  m_id :: string
  m_parent :: string
  m_fstype :: string
  m_source :: string

definition mountAt :: "string \<Rightarrow> string \<Rightarrow> mount option" where
  "mountAt path line = (case cut '' - '' line of (pre, post, ok) \<Rightarrow>
     let f = wordsOf pre; g = wordsOf post in
     if \<not> ok \<or> length f < 5 \<or> length g < 2 \<or> unescape (f ! 4) \<noteq> path then None
     else Some \<lparr>m_id = f ! 0, m_parent = f ! 1, m_fstype = g ! 0, m_source = unescape (g ! 1)\<rparr>)"

definition isLimit :: "mount \<Rightarrow> bool" where
  "isLimit m \<longleftrightarrow> m_fstype m = ''tmpfs'' \<and> m_source m = limitSource"

definition limitOnTop :: "string \<Rightarrow> string \<Rightarrow> bool" where
  "limitOnTop table path = (let here = List.map_filter (mountAt path) (linesOf table) in
     case find (\<lambda>t. \<not> list_ex (\<lambda>m. m_parent m = m_id t) here) (rev here) of Some t \<Rightarrow> isLimit t | None \<Rightarrow> False)"

definition limited :: "'w fault_ops \<Rightarrow> Node \<Rightarrow> string \<Rightarrow> 'w \<Rightarrow> (error + bool) \<times> 'w" where
  "limited ops n dir w =
     (case fo_exec ops n (Command ''sh'' [''-c'', ''cd -P -- \"$1\" && pwd -P && cat /proc/self/mountinfo'', ''sh'', dir]) w of
        (Inl e, w1) \<Rightarrow> (Inl (Errorf ''diskfault: %s: reading its mounts: %w'' [AStr (name n), AErr e]), w1)
      | (Inr res, w1) \<Rightarrow>
          (if ExitCode res \<noteq> 0
           then Inl (Errorf ''diskfault: %s: reading its mounts at %s: exit %d: %s'' [AStr (name n), AStr dir, AInt (ExitCode res), AStr (trimSpace (Stderr res))])
           else case cut [newline] (Stdout res) of (path, table, _) \<Rightarrow> Inr (limitOnTop table path), w1))"

definition Unlimit :: "'w fault_ops \<Rightarrow> Node \<Rightarrow> string \<Rightarrow> 'w act" where
  "Unlimit ops n dir w = (case fo_exists ops n dir w of
     (Inl e, w1) \<Rightarrow> (Some (diskErr n e), w1)
   | (Inr False, w1) \<Rightarrow> (None, w1)
   | (Inr True, w1) \<Rightarrow>
       (case limited ops n dir w1 of
          (Inl e, w2) \<Rightarrow> (Some e, w2)
        | (Inr False, w2) \<Rightarrow> (None, w2)
        | (Inr True, w2) \<Rightarrow> runDisk ops n ''umount'' [dir] w2))"

definition checkDisk :: "'w fault_ops \<Rightarrow> Node \<Rightarrow> string \<Rightarrow> 'w act" where
  "checkDisk ops n dir = (let probe = path_Join [dir, ''.torx-diskfault-check''] in
     runUntil [Limit ops n probe 4096, Unlimit ops n probe, fo_rm ops n probe])"

subsection \<open>Filling a disk, and corrupting a file\<close>

definition containsText :: "string \<Rightarrow> string \<Rightarrow> bool" where
  "containsText s sub \<longleftrightarrow> indexOf s sub \<noteq> None"

definition Fill :: "'w fault_ops \<Rightarrow> Node \<Rightarrow> string \<Rightarrow> 'w act" where
  "Fill ops n dir w =
     (case fo_exec ops n ((Command ''dd'' [''if=/dev/zero'', ''of='' @ path_Join [dir, filler], ''bs=64k''])\<lparr>cEnv := [''LC_ALL=C'']\<rparr>) w of
        (Inl e, w1) \<Rightarrow> (Some (Errorf ''diskfault: %s: dd: %w'' [AStr (name n), AErr e]), w1)
      | (Inr res, w1) \<Rightarrow>
          (if ExitCode res \<noteq> 0 \<and> \<not> containsText (Stderr res) ''No space left''
           then Some (Errorf ''diskfault: %s: filling %s: exit %d: %s'' [AStr (name n), AStr dir, AInt (ExitCode res), AStr (trimSpace (Stderr res))])
           else None, w1))"

definition FreeSpace :: "'w fault_ops \<Rightarrow> Node \<Rightarrow> string \<Rightarrow> 'w act" where
  "FreeSpace ops n dir w = (case fo_rm ops n (path_Join [dir, filler]) w of (e, w1) \<Rightarrow> (map_option (diskErr n) e, w1))"

text \<open>A division by zero is \<open>None\<close>.\<close>

function blockLoop :: "int \<Rightarrow> int \<Rightarrow> int \<Rightarrow> int option" where
  "blockLoop offset sz bs =
     (if bs \<le> 0 then None
      else if offset mod bs \<noteq> 0 \<or> sz mod bs \<noteq> 0 then blockLoop offset sz (bs div 2) else Some bs)"
  by pat_completeness auto
termination blockLoop by (relation "measure (\<lambda>(_, _, bs). nat bs)") auto

declare blockLoop.simps [simp del]

definition blockSize :: "int \<Rightarrow> int \<Rightarrow> int option" where
  "blockSize offset sz = blockLoop offset sz (64 * 1024)"

definition sizeCmd :: "string \<Rightarrow> Cmd" where
  "sizeCmd path = Command ''sh'' [''-c'', ''wc -c < \"$1\"'', ''sh'', path]"

definition ddArgs :: "string \<Rightarrow> int \<Rightarrow> int \<Rightarrow> int \<Rightarrow> string list" where
  "ddArgs path bs seek count' = [''if=/dev/urandom'', ''of='' @ path, ''conv=notrunc'', ''bs='' @ itoa bs, ''seek='' @ itoa seek, ''count='' @ itoa count']"

text \<open>A panic is \<open>None\<close>.\<close>

definition Corrupt :: "'w fault_ops \<Rightarrow> Node \<Rightarrow> string \<Rightarrow> int \<Rightarrow> int \<Rightarrow> 'w \<Rightarrow> (error option \<times> 'w) option" where
  "Corrupt ops n path offset sz w =
     (if offset < 0 \<or> sz < 0
      then Some (Some (Errorf ''diskfault: %s: corrupting %s: offset %d and size %d must not be negative'' [AStr (name n), AStr path, AInt offset, AInt sz]), w)
      else (case fo_exec ops n (sizeCmd path) w of
          (Inl e, w1) \<Rightarrow> Some (Some (Errorf ''diskfault: %s: wc: %w'' [AStr (name n), AErr e]), w1)
        | (Inr res, w1) \<Rightarrow>
            if ExitCode res \<noteq> 0
            then Some (Some (Errorf ''diskfault: %s: reading the size of %s: exit %d: %s'' [AStr (name n), AStr path, AInt (ExitCode res), AStr (trimSpace (Stderr res))]), w1)
            else (case parseInt64 (trimSpace (Stdout res)) of
                None \<Rightarrow> Some (Some (Errorf ''diskfault: %s: the size of %s: %w'' [AStr (name n), AStr path, AStr (trimSpace (Stdout res))]), w1)
              | Some len \<Rightarrow>
                  let sz = min sz (max (wrap64 (len - offset)) 0) in
                  if sz = 0 then Some (None, w1)
                  else (case blockSize offset sz of
                      None \<Rightarrow> None
                    | Some bs \<Rightarrow> Some (runDisk ops n ''dd'' (ddArgs path bs (offset div bs) (sz div bs)) w1)))))"

subsection \<open>Exactly the range\<close>

lemma blockLoop_ok:
  "\<exists>d \<le> e. blockLoop offset sz (2 ^ e) = Some (2 ^ d) \<and> 2 ^ d dvd offset \<and> 2 ^ d dvd sz \<and> (d < e \<longrightarrow> \<not> (2 ^ Suc d dvd offset \<and> 2 ^ Suc d dvd sz))"
proof (induction e)
  case 0
  show ?case by (subst blockLoop.simps) simp
next
  case (Suc e)
  show ?case
  proof (cases "2 ^ Suc e dvd offset \<and> 2 ^ Suc e dvd sz")
    case True
    then show ?thesis by (intro exI [of _ "Suc e"], subst blockLoop.simps) (auto simp: dvd_eq_mod_eq_0)
  next
    case False
    then have "blockLoop offset sz (2 ^ Suc e) = blockLoop offset sz (2 ^ e)"
      by (subst blockLoop.simps) (auto simp: dvd_eq_mod_eq_0)
    then show ?thesis using Suc.IH False by (auto simp: le_Suc_eq less_Suc_eq)
  qed
qed

text \<open>
  C30: Corrupting a range of a file whose size the node reports writes exactly the part of the range that is in the file: nothing where
  there is none, and otherwise one \<^verbatim>\<open>dd\<close> whose blocks, seek and count make up the offset and the length to the byte, never past the
  end, in blocks of the largest power of two up to 64 KiB that does so; the search for it ends and never divides by zero.
\<close>

theorem Corrupt_exact:
  assumes "0 \<le> offset" and "0 \<le> sz" and "is_int64 offset" and "fo_exec ops n (sizeCmd path) w = (Inr res, w1)" and "ExitCode res = 0"
    and "parseInt64 (trimSpace (Stdout res)) = Some len" and "0 \<le> len"
  shows "let k = min sz (max (len - offset) 0) in
    if k = 0 then Corrupt ops n path offset sz w = Some (None, w1)
    else offset + k \<le> len \<and> (\<exists>e \<le> 16. \<exists>seek count'. Corrupt ops n path offset sz w = Some (runDisk ops n ''dd'' (ddArgs path (2 ^ e) seek count') w1) \<and>
      seek * 2 ^ e = offset \<and> count' * 2 ^ e = k \<and> (e < 16 \<longrightarrow> \<not> (2 ^ Suc e dvd offset \<and> 2 ^ Suc e dvd k)))"
proof -
  let ?k = "min sz (max (len - offset) 0)"
  have "is_int64 len" using assms(6) by (auto simp: parseInt64_def split: option.splits if_splits)
  then have "wrap64 (len - offset) = len - offset" using assms(1,3,7) by (intro wrap64_id) (auto simp: is_int64_def MaxInt64_def)
  then have c: "Corrupt ops n path offset sz w = (if ?k = 0 then Some (None, w1)
      else case blockSize offset ?k of None \<Rightarrow> None | Some bs \<Rightarrow> Some (runDisk ops n ''dd'' (ddArgs path bs (offset div bs) (?k div bs)) w1))"
    using assms by (simp add: Corrupt_def Let_def)
  obtain e where "e \<le> 16" "blockLoop offset ?k (2 ^ 16) = Some (2 ^ e)" "2 ^ e dvd offset" "2 ^ e dvd ?k"
    "e < 16 \<longrightarrow> \<not> (2 ^ Suc e dvd offset \<and> 2 ^ Suc e dvd ?k)" using blockLoop_ok [of 16 offset ?k] by blast
  note e = this
  show ?thesis
  proof (cases "?k = 0")
    case True
    then show ?thesis using c by (simp add: Let_def)
  next
    case False
    have "offset + ?k \<le> len" using False assms(1,2) by auto
    moreover have "Corrupt ops n path offset sz w = Some (runDisk ops n ''dd'' (ddArgs path (2 ^ e) (offset div 2 ^ e) (?k div 2 ^ e)) w1)"
      using c False e(2) by (simp add: blockSize_def)
    moreover have "offset div 2 ^ e * 2 ^ e = offset" "?k div 2 ^ e * 2 ^ e = ?k" using e(3,4) by (simp_all add: dvd_div_mult_self)
    ultimately show ?thesis using False e(1,5) unfolding Let_def by (intro conjI if_bool_eq_conj [THEN iffD2] impI) blast+
  qed
qed

definition demo_wc :: "unit fault_ops" where
  "demo_wc = \<lparr>fo_exec = (\<lambda>n c w. (Inr \<lparr>ExitCode = 0, Stdout = ''12288'' @ [newline], Stderr = []\<rparr>, w)), fo_mkdir = (\<lambda>n d w. (None, w)),
     fo_exists = (\<lambda>n d w. (Inr True, w)), fo_rm = (\<lambda>n d w. (None, w))\<rparr>"

theorem Corrupt_exact_witness:
  "\<exists>e \<le> 16. \<exists>seek count'. Corrupt demo_wc demo_host ''/data'' 8192 8192 () = Some (runDisk demo_wc demo_host ''dd'' (ddArgs ''/data'' (2 ^ e) seek count') ()) \<and>
     seek * 2 ^ e = 8192 \<and> count' * 2 ^ e = 4096"
proof -
  have p: "parseInt64 (trimSpace (''12288'' @ [newline])) = Some 12288" by code_simp
  have "is_int64 8192" by (simp add: is_int64_def MaxInt64_def)
  from Corrupt_exact [OF _ _ this, of 8192 demo_wc demo_host "''/data''" "()" "\<lparr>ExitCode = 0, Stdout = ''12288'' @ [newline], Stderr = []\<rparr>" "()" 12288]
  show ?thesis using p by (auto simp: demo_wc_def Let_def)
qed

subsection \<open>Mount tables\<close>

definition kernelEscape :: "string \<Rightarrow> string" where
  "kernelEscape s = concat (map (\<lambda>c. if c = CHR '' '' then backslash # ''040'' else if c = CHR 0x09 then backslash # ''011''
     else if c = newline then backslash # ''012'' else if c = backslash then backslash # ''134'' else [c]) s)"

lemma unescape_octal:
  "unescape (backslash # CHR ''0'' # CHR ''4'' # CHR ''0'' # s) = CHR '' '' # unescape s"
  "unescape (backslash # CHR ''0'' # CHR ''1'' # CHR ''1'' # s) = CHR 0x09 # unescape s"
  "unescape (backslash # CHR ''0'' # CHR ''1'' # CHR ''2'' # s) = newline # unescape s"
  "unescape (backslash # CHR ''1'' # CHR ''3'' # CHR ''4'' # s) = backslash # unescape s"
proof -
  have "parseUint 8 8 ''040'' = Some 32" "parseUint 8 8 ''011'' = Some 9" "parseUint 8 8 ''012'' = Some 10" "parseUint 8 8 ''134'' = Some 92" by code_simp+
  moreover have "char_of (32 :: nat) = CHR '' ''" "char_of (9 :: nat) = CHR 0x09" "char_of (10 :: nat) = newline" "char_of (92 :: nat) = backslash" by code_simp+
  ultimately show "unescape (backslash # CHR ''0'' # CHR ''4'' # CHR ''0'' # s) = CHR '' '' # unescape s"
    "unescape (backslash # CHR ''0'' # CHR ''1'' # CHR ''1'' # s) = CHR 0x09 # unescape s"
    "unescape (backslash # CHR ''0'' # CHR ''1'' # CHR ''2'' # s) = newline # unescape s"
    "unescape (backslash # CHR ''1'' # CHR ''3'' # CHR ''4'' # s) = backslash # unescape s" by simp_all
qed

lemma unescape_kernelEscape: "unescape (kernelEscape s) = s"
proof (induction s)
  case (Cons c s)
  have step: "kernelEscape (c # s) = kernelEscape [c] @ kernelEscape s" by (simp add: kernelEscape_def)
  show ?case unfolding step using Cons.IH by (auto simp: kernelEscape_def unescape_octal simp del: unescape.simps) (simp add: kernelEscape_def)
qed (simp add: kernelEscape_def)

text \<open>A field with no white space in it, as \<^verbatim>\<open>strings.Fields\<close> takes white space.\<close>

definition solid :: "string \<Rightarrow> bool" where
  "solid t \<longleftrightarrow> t \<noteq> [] \<and> (\<forall>i < length t. find (hasPrefix (drop i t)) spaces = None)"

lemma wide_spaces: "\<forall>sp \<in> set spaces. CHR '' '' \<in> set sp \<or> newline \<in> set sp \<longrightarrow> length sp = 1"
  by code_simp

lemma find_space_append:
  assumes "find (hasPrefix u) spaces = None" and "u \<noteq> []" and c: "c = CHR '' '' \<or> c = newline"
  shows "find (hasPrefix (u @ c # r)) spaces = None"
  unfolding find_None_iff
proof (intro notI, elim exE conjE)
  fix sp assume sp: "sp \<in> set spaces" "hasPrefix (u @ c # r) sp"
  have u: "\<not> hasPrefix u sp" using assms(1) sp(1) by (auto simp: find_None_iff)
  show False
  proof (cases "length sp \<le> length u")
    case True
    then show False using sp(2) u by (simp add: hasPrefix_def)
  next
    case False
    then obtain k where k: "length sp = Suc (length u + k)" by (metis less_imp_Suc_add not_le)
    have "sp = u @ c # take k r" using sp(2) k by (simp add: hasPrefix_def)
    then have "c \<in> set sp" "1 < length sp" using assms(2) k by (auto simp: Suc_le_eq)
    then show False using wide_spaces sp(1) c by (metis less_irrefl)
  qed
qed

lemma find_space_plain:
  assumes "printable [c]"
  shows "find (hasPrefix (c # s)) spaces = None"
proof -
  have "\<forall>sp \<in> set spaces. sp \<noteq> [] \<and> \<not> printable [hd sp]" by (simp add: spaces_def byte_def printable_def upt_conv_Cons)
  then show ?thesis using assms hasPrefix_hd [of "c # s"] by (fastforce simp: find_None_iff)
qed

lemma find_space_here: "c = CHR '' '' \<or> c = newline \<Longrightarrow> find (hasPrefix (c # r)) spaces = Some [c]"
proof -
  have sp: "spaces = [[CHR 0x09], [newline], [CHR 0x0B], [CHR 0x0C], [CHR 0x0D], [CHR '' '']] @ drop 6 spaces" by code_simp
  have h: "hasPrefix (c # r) [x] \<longleftrightarrow> c = x" for x by (auto simp: hasPrefix_def)
  show "c = CHR '' '' \<or> c = newline \<Longrightarrow> find (hasPrefix (c # r)) spaces = Some [c]" by (subst sp) (auto simp: h)
qed

lemma fieldsFrom_word:
  assumes "\<forall>i < length t. find (hasPrefix (drop i t)) spaces = None"
  shows "fieldsFrom cur t = (if cur @ t = [] then [] else [cur @ t])"
    and "c = CHR '' '' \<or> c = newline \<Longrightarrow> fieldsFrom cur (t @ c # r) = (if cur @ t = [] then [] else [cur @ t]) @ fieldsFrom [] r"
  using assms
proof (induction t arbitrary: cur)
  case Nil
  { case 1 show ?case by simp }
  { case 2 then show ?case using find_space_here [of c r] by simp }
next
  case (Cons a t)
  have t: "\<forall>i < length t. find (hasPrefix (drop i t)) spaces = None" if "\<forall>i < length (a # t). find (hasPrefix (drop i (a # t))) spaces = None"
    using that by (metis Suc_less_eq drop_Suc_Cons length_Cons)
  have z: "find (hasPrefix (a # t)) spaces = None" if "\<forall>i < length (a # t). find (hasPrefix (drop i (a # t))) spaces = None"
    using that [rule_format, of 0] by simp
  { case 1 then show ?case using Cons.IH(1) [OF t, of "cur @ [a]"] z by simp }
  { case 2
    have "find (hasPrefix ((a # t) @ c # r)) spaces = None" by (rule find_space_append [OF z [OF 2(2)] _ 2(1)]) simp
    then show ?case using Cons.IH(2) [OF 2(1) t [OF 2(2)], of "cur @ [a]"] by simp }
qed

lemma solidD: "solid t \<Longrightarrow> \<forall>i < length t. find (hasPrefix (drop i t)) spaces = None" "solid t \<Longrightarrow> t \<noteq> []"
  by (auto simp: solid_def)

lemma printable_solid:
  assumes "printable t" and "t \<noteq> []"
  shows "solid t"
  unfolding solid_def
proof (intro conjI allI impI)
  fix i assume i: "i < length t"
  then have "drop i t = t ! i # drop (Suc i) t" by (simp add: Cons_nth_drop_Suc)
  moreover have "printable [t ! i]" using assms(1) i by (simp add: printable_def)
  ultimately show "find (hasPrefix (drop i t)) spaces = None" using find_space_plain by simp
qed (rule assms(2))

lemma solid_no:
  assumes "solid t" and "c = CHR '' '' \<or> c = newline"
  shows "c \<notin> set t"
proof
  assume "c \<in> set t"
  then obtain i where i: "i < length t" "t ! i = c" by (auto simp: in_set_conv_nth)
  then have "drop i t = c # drop (Suc i) t" by (metis Cons_nth_drop_Suc)
  then show False using solidD(1) [OF assms(1)] i(1) find_space_here [OF assms(2), of "drop (Suc i) t"] by auto
qed

lemma words_join:
  assumes "list_all solid ts" and "end = [] \<or> end = [newline]"
  shows "wordsOf (join '' '' ts @ end) = ts"
  using assms(1)
proof (induction "'' ''" ts rule: join.induct)
  case 1
  then show ?case using assms(2) find_space_here [of newline "[]"] by (auto simp: wordsOf_def)
next
  case (2 x)
  then have x: "solid x" by simp
  show ?case using assms(2) fieldsFrom_word(1) [OF solidD(1) [OF x], where cur = "[]"]
    fieldsFrom_word(2) [OF solidD(1) [OF x], where cur = "[]" and c = newline and r = "[]"] solidD(2) [OF x] by (auto simp: wordsOf_def)
next
  case (3 x y ys)
  have x: "solid x" using 3(2) by simp
  have "fieldsFrom [] (x @ CHR '' '' # join '' '' (y # ys) @ end) = [x] @ fieldsFrom [] (join '' '' (y # ys) @ end)"
    using fieldsFrom_word(2) [OF solidD(1) [OF x], where c = "CHR '' ''" and cur = "[]" and r = "join '' '' (y # ys) @ end"] solidD(2) [OF x] by simp
  then show ?case using 3 by (simp add: wordsOf_def)
qed

lemma cut_word:
  assumes "CHR '' '' \<notin> set t"
  shows "cut '' - '' (t @ u) = (case cut '' - '' u of (a, b, ok) \<Rightarrow> (t @ a, b, ok))"
  using assms
proof (induction t)
  case (Cons c t)
  then have "\<not> hasPrefix (c # t @ u) '' - ''" by (auto simp: hasPrefix_def)
  then show ?case using Cons by (simp split: prod.splits)
qed (simp split: prod.splits)

lemma cut_dash:
  assumes "\<forall>t \<in> set ts. t \<noteq> [] \<and> CHR '' '' \<notin> set t \<and> t \<noteq> ''-''" and "ts \<noteq> []"
  shows "cut '' - '' (join '' '' ts @ '' - '' @ rest) = (join '' '' ts, rest, True)"
  using assms
proof (induction "'' ''" ts rule: join.induct)
  case (2 x)
  have "CHR '' '' \<notin> set x" using 2 by simp
  then show ?case using cut_word [of x "'' - '' @ rest"] by (simp add: hasPrefix_def)
next
  case (3 x y ys)
  have xy: "CHR '' '' \<notin> set x" "CHR '' '' \<notin> set y" "y \<noteq> ''-''" "y \<noteq> []" using 3 by simp_all
  obtain more where more: "join '' '' (y # ys) @ '' - '' @ rest = y @ CHR '' '' # more"
    by (cases ys) auto
  have "\<not> hasPrefix (CHR '' '' # y @ CHR '' '' # more) '' - ''"
  proof
    assume h: "hasPrefix (CHR '' '' # y @ CHR '' '' # more) '' - ''"
    obtain a y' where y: "y = a # y'" using xy(4) by (cases y) auto
    show False using h xy(2,3) unfolding y by (cases y') (auto simp: hasPrefix_def)
  qed
  then have "cut '' - '' (CHR '' '' # join '' '' (y # ys) @ '' - '' @ rest) = (CHR '' '' # join '' '' (y # ys), rest, True)"
    using 3 more by simp
  then show ?case using cut_word [OF xy(1), of "CHR '' '' # join '' '' (y # ys) @ '' - '' @ rest"] by simp
qed simp

lemma solid_fields: "list_all solid ts \<Longrightarrow> ''-'' \<notin> set ts \<Longrightarrow> \<forall>t \<in> set ts. t \<noteq> [] \<and> CHR '' '' \<notin> set t \<and> t \<noteq> ''-''"
  using solid_no solidD(2) unfolding list_all_iff by blast

text \<open>A mount as the kernel writes it.\<close>

record mount_line =
  ml_id :: string
  ml_parent :: string
  ml_dev :: string
  ml_root :: string
  ml_point :: string
  ml_options :: "string list"
  ml_fstype :: string
  ml_source :: string
  ml_super :: "string list"

definition beforeDash :: "mount_line \<Rightarrow> string list" where
  "beforeDash m = [ml_id m, ml_parent m, ml_dev m, ml_root m, kernelEscape (ml_point m)] @ ml_options m"

definition afterDash :: "mount_line \<Rightarrow> string list" where
  "afterDash m = [ml_fstype m, kernelEscape (ml_source m)] @ ml_super m"

definition mountText :: "mount_line \<Rightarrow> string" where
  "mountText m = join '' '' (beforeDash m) @ '' - '' @ join '' '' (afterDash m) @ [newline]"

definition mount_ok :: "mount_line \<Rightarrow> bool" where
  "mount_ok m \<longleftrightarrow> list_all solid (beforeDash m) \<and> ''-'' \<notin> set (beforeDash m) \<and> list_all solid (afterDash m)"

definition mountOfLine :: "mount_line \<Rightarrow> mount" where
  "mountOfLine m = \<lparr>m_id = ml_id m, m_parent = ml_parent m, m_fstype = ml_fstype m, m_source = ml_source m\<rparr>"

lemma mountText_cut:
  assumes "mount_ok m"
  shows "cut '' - '' (mountText m) = (join '' '' (beforeDash m), join '' '' (afterDash m) @ [newline], True)"
    "wordsOf (join '' '' (beforeDash m)) = beforeDash m" "wordsOf (join '' '' (afterDash m) @ [newline]) = afterDash m"
proof -
  show "cut '' - '' (mountText m) = (join '' '' (beforeDash m), join '' '' (afterDash m) @ [newline], True)"
    unfolding mountText_def by (rule cut_dash [OF solid_fields]) (use assms in \<open>simp_all add: mount_ok_def beforeDash_def\<close>)
  show "wordsOf (join '' '' (beforeDash m)) = beforeDash m" using words_join [of "beforeDash m" "[]"] assms by (simp add: mount_ok_def)
  show "wordsOf (join '' '' (afterDash m) @ [newline]) = afterDash m" using words_join [of "afterDash m" "[newline]"] assms by (simp add: mount_ok_def)
qed

lemma mountAt_text:
  assumes "mount_ok m"
  shows "mountAt path (mountText m) = (if ml_point m = path then Some (mountOfLine m) else None)"
  unfolding mountAt_def mountText_cut [OF assms] Let_def
  by (simp add: mountText_cut [OF assms]) (simp add: beforeDash_def afterDash_def unescape_kernelEscape mountOfLine_def)

lemma join_no_newline: "list_all solid ts \<Longrightarrow> newline \<notin> set (join '' '' ts)"
  by (induction "'' ''" ts rule: join.induct) (auto dest: solid_no)

lemma linesOf_line: "newline \<notin> set l \<Longrightarrow> linesOf (l @ newline # r) = (l @ [newline]) # linesOf r"
  by (induction l) auto

lemma linesOf_table:
  assumes "list_all mount_ok ms"
  shows "linesOf (concat (map mountText ms)) = map mountText ms"
  using assms
proof (induction ms)
  case (Cons m ms)
  let ?l = "join '' '' (beforeDash m) @ '' - '' @ join '' '' (afterDash m)"
  have "newline \<notin> set ?l" using Cons.prems join_no_newline [of "beforeDash m"] join_no_newline [of "afterDash m"] by (simp add: mount_ok_def)
  from linesOf_line [OF this, of "concat (map mountText ms)"] show ?case using Cons by (simp add: mountText_def [of m])
qed simp

lemma mounts_here:
  assumes "list_all mount_ok ms"
  shows "List.map_filter (mountAt path) (linesOf (concat (map mountText ms))) = map mountOfLine (filter (\<lambda>m. ml_point m = path) ms)"
  using assms unfolding linesOf_table [OF assms] by (induction ms) (auto simp: mountAt_text List.map_filter_simps)

lemma find_Some_in: "find P xs = Some t \<Longrightarrow> P t \<and> t \<in> set xs"
  by (induction xs) (auto split: if_splits)

text \<open>Mounts laid one over another: each on the one before it.\<close>

definition stacked :: "mount_line list \<Rightarrow> bool" where
  "stacked c \<longleftrightarrow> distinct (map ml_id c) \<and> (\<forall>i < length c - 1. ml_parent (c ! Suc i) = ml_id (c ! i)) \<and>
     (c \<noteq> [] \<longrightarrow> ml_parent (c ! 0) \<notin> set (map ml_id c))"

lemma stacked_covered:
  assumes "stacked c" and "m \<in> set c"
  shows "(\<exists>m' \<in> set c. ml_parent m' = ml_id m) \<longleftrightarrow> m \<noteq> last c"
proof -
  have d: "distinct (map ml_id c)" and up: "\<And>i. Suc i < length c \<Longrightarrow> ml_parent (c ! Suc i) = ml_id (c ! i)"
    and c: "c \<noteq> []" and low: "ml_parent (c ! 0) \<notin> set (map ml_id c)" using assms by (auto simp: stacked_def)
  have ids: "ml_id (c ! i) = ml_id (c ! j) \<longleftrightarrow> i = j" if "i < length c" "j < length c" for i j
    using nth_eq_iff_index_eq [OF d, of i j] that by simp
  obtain i where i: "i < length c" "c ! i = m" using assms(2) by (auto simp: in_set_conv_nth)
  have last: "m = last c \<longleftrightarrow> i = length c - 1" using i ids [of i "length c - 1"] c by (auto simp: last_conv_nth)
  show ?thesis
  proof
    assume "\<exists>m' \<in> set c. ml_parent m' = ml_id m"
    then obtain j where j: "j < length c" "ml_parent (c ! j) = ml_id m" by (auto simp: in_set_conv_nth)
    then obtain j' where j': "j = Suc j'" using low assms(2) by (cases j) auto
    then have "ml_id (c ! j') = ml_id (c ! i)" using up [of j'] j i(2) by simp
    then have "j' = i" using ids [of j' i] j(1) j' i(1) by simp
    then show "m \<noteq> last c" using last j(1) j' by simp
  next
    assume "m \<noteq> last c"
    then have "Suc i < length c" using last i(1) by simp
    then show "\<exists>m' \<in> set c. ml_parent m' = ml_id m" using up [of i] i(2) by (intro bexI [of _ "c ! Suc i"]) auto
  qed
qed

text \<open>
  C31: Read from the kernel's table, in whatever order it lists the mounts, the check that lets \<^verbatim>\<open>Unlimit\<close> unmount holds exactly when the mount
  on top of those laid one over another at a directory is a limit of the package: a volume mounted over a limit, or under one already
  unmounted, is not taken for it. This is of tables in which every field of every line, as the kernel writes it, is not empty and has nothing in it
  that \<^verbatim>\<open>strings.Fields\<close> takes for white space, and no field before the separator is itself a lone dash.
\<close>

theorem limitOnTop_iff:
  assumes "list_all mount_ok ms" and "stacked c" and "mset (filter (\<lambda>m. ml_point m = path) ms) = mset c"
  shows "limitOnTop (concat (map mountText ms)) path \<longleftrightarrow> c \<noteq> [] \<and> ml_fstype (last c) = ''tmpfs'' \<and> ml_source (last c) = limitSource"
proof -
  let ?at = "filter (\<lambda>m. ml_point m = path) ms" and ?P = "\<lambda>t. \<not> list_ex (\<lambda>m. m_parent m = m_id t) (map mountOfLine (filter (\<lambda>m. ml_point m = path) ms))"
  have set: "set ?at = set c" using assms(3) by (metis set_mset_mset)
  have P: "?P (mountOfLine m) \<longleftrightarrow> m = last c" if "m \<in> set c" for m
    using stacked_covered [OF assms(2) that] set by (auto simp: list_ex_iff mountOfLine_def)
  have l: "limitOnTop (concat (map mountText ms)) path = (case find ?P (rev (map mountOfLine ?at)) of Some t \<Rightarrow> isLimit t | None \<Rightarrow> False)"
    unfolding limitOnTop_def mounts_here [OF assms(1)] Let_def ..
  show ?thesis
  proof (cases "c = []")
    case True
    then show ?thesis using l set by simp
  next
    case False
    then have "last c \<in> set c" by simp
    then have "find ?P (rev (map mountOfLine ?at)) \<noteq> None" using P [of "last c"] set by (auto simp: find_None_iff)
    then obtain t where t: "find ?P (rev (map mountOfLine ?at)) = Some t" by blast
    then have "?P t" "t \<in> set (map mountOfLine ?at)" using find_Some_in [OF t] by simp_all
    then obtain m where "m \<in> set c" "t = mountOfLine m" using set by auto
    then have "t = mountOfLine (last c)" using P \<open>?P t\<close> by blast
    then show ?thesis using l t False by (simp add: isLimit_def mountOfLine_def)
  qed
qed

definition demo_mount :: "string \<Rightarrow> string \<Rightarrow> string \<Rightarrow> string \<Rightarrow> string \<Rightarrow> mount_line" where
  "demo_mount i p point fs src = \<lparr>ml_id = i, ml_parent = p, ml_dev = ''0:40'', ml_root = ''/'', ml_point = point, ml_options = [''rw'', ''shared:1''],
     ml_fstype = fs, ml_source = src, ml_super = [''rw'']\<rparr>"

theorem limitOnTop_iff_witness:
  "limitOnTop (concat (map mountText [demo_mount ''31'' ''30'' ''/my data'' ''tmpfs'' limitSource, demo_mount ''30'' ''22'' ''/my data'' ''ext4'' ''/dev/sda1'',
     demo_mount ''22'' ''1'' ''/'' ''ext4'' ''/dev/sda2''])) ''/my data''"
proof -
  let ?top = "demo_mount ''31'' ''30'' ''/my data'' ''tmpfs'' limitSource" and ?low = "demo_mount ''30'' ''22'' ''/my data'' ''ext4'' ''/dev/sda1''"
    and ?other = "demo_mount ''22'' ''1'' ''/'' ''ext4'' ''/dev/sda2''"
  have ok: "list_all mount_ok [?top, ?low, ?other]"
    by (simp add: mount_ok_def beforeDash_def afterDash_def demo_mount_def kernelEscape_def limitSource_def printable_solid printable_def)
  have st: "stacked [?low, ?top]" by (simp add: stacked_def demo_mount_def less_Suc_eq)
  have "mset (filter (\<lambda>m. ml_point m = ''/my data'') [?top, ?low, ?other]) = mset [?low, ?top]" by (simp add: demo_mount_def)
  from limitOnTop_iff [OF ok st this] show ?thesis by (simp add: demo_mount_def)
qed

subsection \<open>White space the kernel does not escape\<close>


















end
