(* ===== verification/Spec2Isabelle.thy ===== *)
theory Spec2Isabelle
  imports Torx_Pool Lin_Timeline Lin_Minimize Lin_Partition Torx_Driver Log_Reads_Sound Txn_Serial
    Obj_Tags Obj_List Obj_Runs Nem_Runs Torx_Trace Torx_Capture Torx_Gate Torx_Manifest Fault_Disk
begin

text \<open>
  A verification of torx, a framework for integration tests of distributed systems.

  \<^bold>\<open>The program and how its parts interact.\<close> A suite is a Go program that registers jobs and
  calls the framework. Discovery (\<^verbatim>\<open>src/discovery.go\<close>, \<^verbatim>\<open>src/params.go\<close>, \<^verbatim>\<open>src/registry.go\<close>) turns
  the registered jobs and a parameters file into requests, one for each variant. The driver
  (\<^verbatim>\<open>src/driver.go\<close>) sizes every request, schedules those that can fit on a pool of nodes
  (\<^verbatim>\<open>src/pool.go\<close>, \<^verbatim>\<open>src/spec.go\<close>) and launches a worker for each (\<^verbatim>\<open>src/worker.go\<close>), which runs the
  job on the nodes it was given and returns a result (\<^verbatim>\<open>src/result.go\<close>). Jobs share hosts through
  port allocators and scratch paths (\<^verbatim>\<open>src/coordination.go\<close>). Beside the framework stand packages a
  job uses: three checkers that judge the history a job recorded - linearizability
  (\<^verbatim>\<open>src/linearize\<close>), a totally ordered log (\<^verbatim>\<open>src/logcheck\<close>, which runs the search of the former),
  and transactions over lists (\<^verbatim>\<open>src/listappend\<close>) - an object store with fault injection
  (\<^verbatim>\<open>src/objstore\<close>), and the loop that injects and heals faults while a workload runs
  (\<^verbatim>\<open>src/nemesis\<close>). A job declares services (\<^verbatim>\<open>src/service.go\<close>), which are started, stopped and cleaned
  for it, whose output is captured on the nodes (\<^verbatim>\<open>src/capture.go\<close>) and collected (\<^verbatim>\<open>src/collector.go\<close>)
  into the tree of results (\<^verbatim>\<open>src/trace.go\<close>).

  \<^bold>\<open>Theories, and the code they model.\<close>
  \<^item> \<open>Torx_Prelude\<close>, \<open>Torx_Text\<close>: collections of facts, generic lemmas, and what is used of Go's
    \<^verbatim>\<open>strings\<close>, \<^verbatim>\<open>fmt\<close> and \<^verbatim>\<open>strconv\<close>.
  \<^item> \<open>Torx_Spec\<close> (\<^verbatim>\<open>src/spec.go\<close>), \<open>Torx_Errors\<close> (\<^verbatim>\<open>src/errors.go\<close>), \<open>Torx_Matching\<close> and \<open>Torx_Pool\<close>
    (\<^verbatim>\<open>src/pool.go\<close>): the matching of specs to nodes finds an assignment whenever there is one; no
    two jobs ever hold one node, under any sequence of allocations, returns and evictions; a
    request found never to fit never will. The pool's promise to its clients is the locale
    \<open>lease_provider\<close>.
  \<^item> \<open>Torx_Params\<close> (\<^verbatim>\<open>src/params.go\<close>, the sizes and products of \<^verbatim>\<open>src/discovery.go\<close>) and \<open>Torx_Discovery\<close>
    (\<^verbatim>\<open>src/registry.go\<close>, \<^verbatim>\<open>src/discovery.go\<close>): a parameters file is read strictly and printing it and
    reading it back gives it again; matrix sizes saturate instead of wrapping around; discovery
    requests exactly the variants selected, and a job whose code panics or fails costs only itself.
  \<^item> \<open>Torx_Coordination\<close> (\<^verbatim>\<open>src/coordination.go\<close>): a port is never leased twice, and a scratch path
    never leaves its root.
  \<^item> \<open>Torx_Results\<close> (\<^verbatim>\<open>src/result.go\<close>, \<^verbatim>\<open>src/seed.go\<close>) and \<open>Torx_Worker\<close> (\<^verbatim>\<open>src/worker.go\<close>, \<^verbatim>\<open>src/node.go\<close>, parts
    of \<^verbatim>\<open>src/wire.go\<close> and \<^verbatim>\<open>src/job.go\<close>): a result has one of the documented shapes, none is
    given exactly when a panic outside the recovered calls is let through (a service's \<^verbatim>\<open>Spec\<close> or a
    registered backend builder), and the phases of a job run in order, its teardown whatever
    happened before.
  \<^item> \<open>Torx_Driver\<close> (\<^verbatim>\<open>src/driver.go\<close>): a step relation of \<^verbatim>\<open>Run\<close> and the goroutines it starts. Jobs
    running at once hold disjoint nodes, every request is accounted for once, a run that begins and whose
    jobs end completes (one does not begin when sizing a request panics), and the driver's sizing and the worker's agree. One theorem shows what a run
    cancelled while nothing is active records.
  \<^item> \<open>Lin_History\<close>, \<open>Lin_Bitset\<close>, \<open>Lin_Search\<close> model \<^verbatim>\<open>CheckWithin\<close> of \<^verbatim>\<open>src/linearize/linearize.go\<close> with
    its linked list, bitset, cache, groups, pruning and limits, where following a nil link is no value; \<open>Lin_Spec\<close> says what linearizable
    means and justifies the pruning; \<open>Lin_Memo\<close> is the search scheme, a locale; \<open>Lin_Check\<close> shows that
    the search returns, never following a nil link, and decides linearizability. \<open>Lin_Minimize\<close>, \<open>Lin_Partition\<close> and \<open>Lin_Timeline\<close>
    (\<^verbatim>\<open>src/linearize/timeline.go\<close>): the core it shrinks to, the split by key, and timestamps with
    64-bit wrap-around.
  \<^item> \<open>Log_Model\<close>, \<open>Log_Reads\<close> (\<^verbatim>\<open>src/logcheck/logcheck.go\<close>), \<open>Log_Sound\<close>, \<open>Log_Reads_Sound\<close>: on the
    history of an honest log the checker reports nothing, and when it reports nothing the log
    holds what was acknowledged.
  \<^item> \<open>Txn_Model\<close>, \<open>Txn_Cycles\<close> (\<^verbatim>\<open>src/listappend/listappend.go\<close>), \<open>Txn_Bfs\<close>, \<open>Txn_Tarjan\<close>, \<open>Txn_Report\<close>,
    \<open>Txn_Graph\<close>, \<open>Txn_Serial\<close>: the component search is right, every cycle of dependencies is reported
    as one, and a strictly serial history is not reported at all.
  \<^item> \<open>Obj_Text\<close>, \<open>Obj_Store\<close>, \<open>Obj_Server\<close> (\<^verbatim>\<open>src/objstore\<close>), \<open>Obj_Spec\<close>, \<open>Obj_Tags\<close>, \<open>Obj_List\<close>, \<open>Obj_Runs\<close>:
    the handlers refine an abstract store of conditional writes; answers and events are honest;
    with a tag for every write a conditional write meets the object it was read from; pages of a
    list make up the list, and pages of size zero never end; and under every interleaving of requests and faults the store is what
    the requests that took effect made of it, in their order.
  \<^item> \<open>Nem_Model\<close>, \<open>Nem_Runs\<close> (\<^verbatim>\<open>src/nemesis/nemesis.go\<close>): a run of the nemesis, its waits between a timer and the
    context included, returns once its context ends, whatever the faults do, with every fault it injected healed; a node counts as held exactly while one
    of its holders has not released it; and the windows of a log end at the first heal of each fault.
  \<^item> \<open>Torx_Service\<close> (\<^verbatim>\<open>src/service.go\<close>, the defaults of \<^verbatim>\<open>src/job.go\<close>, \<^verbatim>\<open>src/collector.go\<close>, \<^verbatim>\<open>src/process.go\<close>,
    the polling of \<^verbatim>\<open>src/readiness.go\<close>): a teardown stops, collects, cleans and finalizes everything
    whatever fails, and reports every failure; a node is started only once it has been stopped and cleaned.
  \<^item> \<open>Torx_Capture\<close> (\<^verbatim>\<open>src/capture.go\<close>): a POSIX shell reads the quoted command as the words it was made of, and a
    launch keeps the log of the one before where the policy says so, overwriting no other.
  \<^item> \<open>Torx_Trace\<close> (\<^verbatim>\<open>src/trace.go\<close>): distinct variants get distinct directories of bounded length.
  \<^item> \<open>Torx_Manifest\<close> (\<^verbatim>\<open>src/manifest.go\<close>, the choice of a pool in \<^verbatim>\<open>src/entry.go\<close>): a manifest that is accepted gives
    a pool of its nodes, which share a port allocator exactly where they share a host and have no range of their own, and a
    local pool is large enough for every job; one theorem shows that any two overlapping ranges of one host collide.
  \<^item> \<open>Fault_Disk\<close> (\<^verbatim>\<open>src/diskfault/diskfault.go\<close>): a corruption writes exactly the part of its range that is in the file; a limit is
    recognised in the kernel's table exactly when it is the mount on top, for a table whose fields hold no unescaped Unicode space, and
    one theorem shows what happens with one.
  \<^item> \<open>Torx_Gate\<close> (the gate of \<^verbatim>\<open>src/cgroup_linux.go\<close>): no start of a command is in flight while its group is
    frozen, no start is left waiting at an open gate, and no wake-up is missed.

  \<^bold>\<open>How state and effects are modelled.\<close> Structs are records, enums datatypes, errors values of sum
  types, and a panic a value of its own. A method that holds a mutex for its whole body is one
  function on the state; where goroutines interleave, a step relation has one step for each
  stretch between two points where others can act, and properties are invariants by rule
  induction. Integers are 64-bit words where the code's arithmetic can wrap, unbounded where it
  counts things held in memory or only compares. The order Go iterates a map in is a parameter.

  \<^bold>\<open>Loops and fuel.\<close> Loops that may not end are partial functions whose value is \<open>None\<close> where they
  would not, and theorems state that they return: \<^verbatim>\<open>CheckWithin\<close> because every configuration is entered
  once, \<^verbatim>\<open>ddmin\<close> because its list shrinks or its chunks do. The searches of the transaction checker
  carry fuel: one unit for each state of a breadth-first search, which is queued once, and one for
  each edge and transaction in the component search; that this is enough is part of the theorems.

  \<^bold>\<open>Parameters.\<close> What is outside the source is an argument of the definitions that use it: probing
  a port, compiling a pattern, JSON, MD5, XML and time formats, the random draws, the clock and when a
  context ends, which ready case a \<^verbatim>\<open>select\<close> takes, a job's own code, the registered backend
  builders, what a launcher returns, what a node does when it is asked to run or copy something.

  \<^bold>\<open>Not modelled.\<close> The parts of the program that are input and output on the operating system and
  have no state of their own to reason about: transports (\<^verbatim>\<open>src/ssh\<close>, \<^verbatim>\<open>src/localbackend.go\<close>), the
  processes and pipes of the launcher (\<^verbatim>\<open>src/selfexec.go\<close>), the files and system calls behind control
  groups and network namespaces (\<^verbatim>\<open>src/cgroup_linux.go\<close>, \<^verbatim>\<open>src/netns_linux.go\<close>), the flags of the command line (\<^verbatim>\<open>src/entry.go\<close>), the fault
  packages that run system tools (\<^verbatim>\<open>src/netfault\<close>, \<^verbatim>\<open>src/resfault\<close>), and the
  example suites.
\<close>

end
